(* ===== verification/Prelude.thy ===== *)
theory Prelude
  imports Main "HOL-Library.Word" "HOL-Library.Monad_Syntax"
begin

text \<open>
  Shared vocabulary of the development: the C integer types as machine words, byte access
  with an explicit failure for a read outside the buffer, the SQLite result codes, and the
  generic lemmas on words and lists that the component theories use.  The named collection
  \<open>bytes\<close> gathers the facts that turn byte masks and byte positions into bit ranges.
\<close>

unbundle bit_operations_syntax

named_theorems bytes

type_synonym u8 = "8 word"
type_synonym u16 = "16 word"
type_synonym u32 = "32 word"
type_synonym u64 = "64 word"
type_synonym rc = int

section \<open>Result codes\<close>

abbreviation (input) "SQLITE_OK \<equiv> (0 :: rc)"
abbreviation (input) "SQLITE_ERROR \<equiv> (1 :: rc)"
abbreviation (input) "SQLITE_BUSY \<equiv> (5 :: rc)"
abbreviation (input) "SQLITE_LOCKED \<equiv> (6 :: rc)"
abbreviation (input) "SQLITE_NOMEM \<equiv> (7 :: rc)"
abbreviation (input) "SQLITE_READONLY \<equiv> (8 :: rc)"
abbreviation (input) "SQLITE_IOERR \<equiv> (10 :: rc)"
abbreviation (input) "SQLITE_MISUSE \<equiv> (21 :: rc)"
abbreviation (input) "SQLITE_DONE \<equiv> (101 :: rc)"

section \<open>Byte access\<close>

text \<open>
  A C read \<open>p[i]\<close> outside the buffer is undefined behaviour; it is \<open>None\<close> here.
\<close>

definition byte_at :: "u8 list \<Rightarrow> nat \<Rightarrow> u8 option" where
  "byte_at p i = (if i < length p then Some (p ! i) else None)"

lemma byte_at_0 [simp]: "byte_at (b # bs) 0 = Some b"
  by (simp add: byte_at_def)

lemma byte_at_Suc [simp]: "byte_at (b # bs) (Suc i) = byte_at bs i"
  by (simp add: byte_at_def)

lemma byte_at_Nil [simp]: "byte_at [] i = None"
  by (simp add: byte_at_def)

lemma byte_at_numeral [simp]: "byte_at (b # bs) (numeral k) = byte_at bs (pred_numeral k)"
  by (simp add: numeral_eq_Suc)

lemma byte_at_1 [simp]: "byte_at (b # bs) 1 = byte_at bs 0"
  by (simp add: byte_at_def)

section \<open>Words\<close>

lemma mask_7f [bytes]: "(0x7f :: 'a::len word) = mask 7"
  by (simp add: mask_eq_exp_minus_1)

lemma mask_ff: "(0xff :: 'a::len word) = mask 8"
  by (simp add: mask_eq_exp_minus_1)

lemma bit_80_int [bytes]: "bit (0x80 :: int) n \<longleftrightarrow> n = 7"
  using bit_exp_iff [where ?'a = int, of 7 n] by auto

lemma and_80_eq_0_iff: "b AND 0x80 = 0 \<longleftrightarrow> \<not> bit b 7" for b :: "'a::len word"
  using and_exp_eq_0_iff_not_bit [of b 7] by simp

lemma bit_u8_beyond [bytes]: "8 \<le> n \<Longrightarrow> \<not> bit (b :: u8) n"
  using bit_imp_le_length [of b n] by auto

lemma bit_u8_below_7: "\<not> bit (b :: u8) 7 \<Longrightarrow> bit b n \<Longrightarrow> n < 7"
  using bit_imp_le_length [of b n] by (cases "n = 7") auto

lemma and_mask_7_id: "\<not> bit b 7 \<Longrightarrow> b AND mask 7 = b" for b :: u8
  by (rule bit_word_eqI) (auto simp: bit_simps dest: bit_u8_below_7)

lemma unat_shift_right: "unat (drop_bit k v) = unat v div 2 ^ k" for v :: "'a::len word"
  by (simp only: unat_drop_bit_eq) (simp only: drop_bit_eq_div)

lemma shift_right_eq_0_iff: "drop_bit k v = 0 \<longleftrightarrow> unat v < 2 ^ k" for v :: "'a::len word"
  by (metis div_eq_0_iff div_less power_not_zero unat_eq_zero unat_shift_right zero_neq_numeral)

lemma ucast_u8_mask: "(ucast (ucast v :: u8) :: u64) = v AND mask 8" for v :: u64
  by (rule bit_word_eqI) (auto simp: bit_simps)

lemma ucast_u32_u64_less [simp]: "unat (ucast x :: u64) < 4294967296" for x :: u32
  using unsigned_less [where ?'a = nat, of x]
  by (simp add: unsigned_ucast_eq take_bit_nat_eq_self)

lemma ucast_u32_u64_u32 [simp]: "(ucast (ucast x :: u64) :: u32) = x" for x :: u32
  by (rule bit_word_eqI) (auto simp: bit_simps)

text \<open>Equality of 64-bit words, bit by bit: every position is a numeral, so that a
  shift or a mask evaluates.\<close>

lemma u64_eqI:
  assumes "list_all (\<lambda>n. bit x n = bit y n)
    [0, 1, 2, 3, 4, 5, 6, 7, 8, 9, 10, 11, 12, 13, 14, 15, 16, 17, 18, 19, 20, 21,
     22, 23, 24, 25, 26, 27, 28, 29, 30, 31, 32, 33, 34, 35, 36, 37, 38, 39, 40, 41,
     42, 43, 44, 45, 46, 47, 48, 49, 50, 51, 52, 53, 54, 55, 56, 57, 58, 59, 60, 61,
     62, 63]"
  shows "x = (y :: u64)"
proof (rule bit_word_eqI)
  fix n :: nat
  assume "n < LENGTH(64)"
  then have "n \<in> set [0..<64]" by simp
  moreover have "[0..<64] =
    [0, 1, 2, 3, 4, 5, 6, 7, 8, 9, 10, 11, 12, 13, 14, 15, 16, 17, 18, 19, 20, 21,
     22, 23, 24, 25, 26, 27, 28, 29, 30, 31, 32, 33, 34, 35, 36, 37, 38, 39, 40, 41,
     42, 43, 44, 45, 46, 47, 48, 49, 50, 51, 52, 53, 54, 55, 56, 57, 58, 59, 60, 61,
     62, 63]"
    by (simp add: upt_rec)
  ultimately show "bit x n = bit y n"
    using assms by (metis (mono_tags, lifting) list_all_iff)
qed

lemma u32_eqI:
  assumes "list_all (\<lambda>n. bit x n = bit y n)
    [0, 1, 2, 3, 4, 5, 6, 7, 8, 9, 10, 11, 12, 13, 14, 15, 16, 17, 18, 19, 20, 21,
     22, 23, 24, 25, 26, 27, 28, 29, 30, 31]"
  shows "x = (y :: u32)"
proof (rule bit_word_eqI)
  fix n :: nat
  assume "n < LENGTH(32)"
  then have "n \<in> set [0..<32]" by simp
  moreover have "[0..<32] =
    [0, 1, 2, 3, 4, 5, 6, 7, 8, 9, 10, 11, 12, 13, 14, 15, 16, 17, 18, 19, 20, 21,
     22, 23, 24, 25, 26, 27, 28, 29, 30, 31]"
    by (simp add: upt_rec)
  ultimately show "bit x n = bit y n"
    using assms by (metis (mono_tags, lifting) list_all_iff)
qed

lemma u8_less_80_iff: "b < 0x80 \<longleftrightarrow> \<not> bit b 7" for b :: u8
proof -
  have "\<not> bit b 7 \<longleftrightarrow> drop_bit 7 b = 0"
    by (auto simp: bit_eq_iff bit_simps bit_u8_beyond dest: spec [of _ 0] bit_u8_below_7)
  then show ?thesis
    by (simp only: shift_right_eq_0_iff) (simp add: word_less_nat_alt)
qed

lemma and_ffffffff_iff: "v AND 0xffffffff = v \<longleftrightarrow> unat v < 2 ^ 32" for v :: u64
proof -
  have "(0xffffffff :: u64) = mask 32" by (simp add: mask_eq_exp_minus_1)
  then have "v AND 0xffffffff = v \<longleftrightarrow> take_bit 32 v = v" by (simp only: take_bit_eq_mask)
  also have "\<dots> \<longleftrightarrow> take_bit 32 (unat v) = unat v"
    by (metis unsigned_take_bit_eq word_unat_eq_iff)
  finally show ?thesis by (simp add: take_bit_nat_eq_self_iff)
qed

section \<open>Lists\<close>

lemma rev_update_head: "xs \<noteq> [] \<Longrightarrow> rev (xs[0 := y]) = rev (tl xs) @ [y]"
  by (cases xs) auto

end
