(* ===== verification/Codec.thy ===== *)
theory Codec
  imports Prelude
begin

text \<open>
  The interface of a byte encoding: the decoder recovers what the encoder wrote, whatever
  follows it in the buffer.  The clients (the varints of a record header, the four-byte
  page numbers) use the laws proved here once: unique decoding, and reading back a sequence
  of encoded values.
\<close>

fun decode_seq :: "(u8 list \<Rightarrow> (nat \<times> 'a) option) \<Rightarrow> nat \<Rightarrow> u8 list \<Rightarrow> ('a list \<times> u8 list) option"
where
  "decode_seq dec 0 p = Some ([], p)"
| "decode_seq dec (Suc k) p = do {
     (n, a) \<leftarrow> dec p;
     (as, r) \<leftarrow> decode_seq dec k (drop n p);
     Some (a # as, r)
   }"

locale codec =
  fixes enc :: "'a \<Rightarrow> u8 list"
    and dec :: "u8 list \<Rightarrow> (nat \<times> 'a) option"
  assumes dec_enc: "dec (enc a @ bs) = Some (length (enc a), a)"
begin

lemma enc_unique: "enc a @ bs = enc b @ cs \<Longrightarrow> a = b \<and> bs = cs"
proof -
  assume eq: "enc a @ bs = enc b @ cs"
  then have "Some (length (enc a), a) = Some (length (enc b), b)"
    by (metis dec_enc)
  then show "a = b \<and> bs = cs"
    using eq by simp
qed

lemma enc_inject: "enc a = enc b \<longleftrightarrow> a = b"
  using enc_unique [of a "[]" b "[]"] by auto

lemma decode_seq_concat: "decode_seq dec (length as) (concat (map enc as) @ bs) = Some (as, bs)"
  by (induction as) (simp_all add: dec_enc)

end

locale bounded_codec = codec +
  fixes w :: nat
  assumes dec_bound: "dec p = Some (n, a) \<Longrightarrow> 0 < n \<and> n \<le> w \<and> n \<le> length p"
begin

lemma enc_bound: "0 < length (enc a) \<and> length (enc a) \<le> w"
  using dec_bound [of "enc a @ []"] dec_enc [of a "[]"] by simp

lemma decode_seq_suffix:
  "decode_seq dec k p = Some (as, r) \<Longrightarrow>
     \<exists>q. p = q @ r \<and> length as = k \<and> k \<le> length q \<and> length q \<le> w * k"
proof (induction k arbitrary: p as)
  case 0
  then show ?case by simp
next
  case (Suc k)
  then obtain n a as' where d: "dec p = Some (n, a)"
    and s: "decode_seq dec k (drop n p) = Some (as', r)" and as: "as = a # as'"
    by (auto split: option.splits Option.bind_splits)
  from Suc.IH [OF s] obtain q where q: "drop n p = q @ r" "length as' = k" "k \<le> length q"
    "length q \<le> w * k"
    by blast
  have "p = (take n p @ q) @ r" by (metis append.assoc append_take_drop_id q(1))
  moreover have "length (take n p) = n" and "0 < n" and "n \<le> w" using dec_bound [OF d] by auto
  ultimately show ?case using q as by (intro exI [of _ "take n p @ q"]) auto
qed

end

end
