(* ===== verification/Varint.thy ===== *)
theory Varint
  imports Codec
begin

text \<open>
  The variable-length integers of the database format (\<open>sqlite3.c\<close>, part
  \<open>util.c\<close>): \<open>sqlite3PutVarint\<close>, \<open>sqlite3GetVarint\<close> with its three 32-bit
  registers and masks, \<open>sqlite3GetVarint32\<close> and its macro, \<open>sqlite3VarintLen\<close>, and
  the four-byte big-endian accessors.  A buffer is the list of bytes from the pointer on.
\<close>

section \<open>Writing\<close>

text \<open>The do-while loop of \<open>putVarint64\<close>: the contents of \<open>buf\<close>, in order.\<close>

function putVarint64_buf :: "u64 \<Rightarrow> u8 list" where
  "putVarint64_buf v =
     (let b = ucast ((v AND 0x7f) OR 0x80); v' = drop_bit 7 v
      in if v' \<noteq> 0 then b # putVarint64_buf v' else [b])"
  by pat_completeness auto
termination
proof (relation "measure unat", simp)
  fix v :: u64 and x :: u8 and v'
  assume v': "v' = drop_bit 7 v" and "v' \<noteq> 0"
  then have "unat v div 2 ^ 7 \<noteq> 0"
    by (metis unat_shift_right unat_eq_zero)
  then show "(v', v) \<in> measure unat"
    unfolding v' by (simp only: unat_shift_right in_measure) simp
qed

declare putVarint64_buf.simps [simp del]

text \<open>The nine-byte case: the loop \<open>for(i=7; i>=0; i--)\<close> that fills \<open>p[7]\<close> down to
  \<open>p[0]\<close> in front of the bytes already written.\<close>

fun putVarint64_full :: "nat \<Rightarrow> u64 \<Rightarrow> u8 list \<Rightarrow> u8 list" where
  "putVarint64_full 0 v p = p"
| "putVarint64_full (Suc i) v p =
     putVarint64_full i (drop_bit 7 v) (ucast ((v AND 0x7f) OR 0x80) # p)"

text \<open>The results are the returned length and the bytes written from \<open>p[0]\<close> on.\<close>

definition putVarint64 :: "u64 \<Rightarrow> nat \<times> u8 list" where
  "putVarint64 v =
     (if v AND push_bit 32 0xff000000 \<noteq> 0
      then (9, putVarint64_full 8 (drop_bit 8 v) [ucast v])
      else let buf = putVarint64_buf v; n = length buf; buf = buf[0 := buf ! 0 AND 0x7f]
           in (n, rev buf))"

definition sqlite3PutVarint :: "u64 \<Rightarrow> nat \<times> u8 list" where
  "sqlite3PutVarint v =
     (if v \<le> 0x7f then (1, [ucast (v AND 0x7f)])
      else if v \<le> 0x3fff
      then (2, [ucast ((drop_bit 7 v AND 0x7f) OR 0x80), ucast (v AND 0x7f)])
      else putVarint64 v)"

section \<open>Reading\<close>

definition SLOT_2_0 :: u32 where "SLOT_2_0 = 0x001fc07f"
definition SLOT_4_2_0 :: u32 where "SLOT_4_2_0 = 0xf01fc07f"

definition u32_at :: "u8 list \<Rightarrow> nat \<Rightarrow> u32 option" where
  "u32_at p i = map_option ucast (byte_at p i)"

text \<open>\<open>x = x<<n; x |= y\<close> on the registers, and \<open>((u64)s)<<32 | a\<close>.\<close>

definition shl_or :: "nat \<Rightarrow> u32 \<Rightarrow> u32 \<Rightarrow> u32" where
  "shl_or n x y = push_bit n x OR y"

definition u64_of :: "u32 \<Rightarrow> u32 \<Rightarrow> u64" where
  "u64_of s a = push_bit 32 (ucast s) OR ucast a"

text \<open>The registers \<open>a\<close>, \<open>b\<close>, \<open>s\<close> are rebound as the source assigns them; \<open>c\<close> is
  the byte \<open>*p\<close> after a \<open>p++\<close>.  The last read \<open>p[-4]\<close> is byte 4 of the varint.\<close>

definition sqlite3GetVarint :: "u8 list \<Rightarrow> (nat \<times> u64) option" where
  "sqlite3GetVarint p = do {
     a \<leftarrow> u32_at p 0;
     if a AND 0x80 = 0 then Some (1, ucast a) else do {
     b \<leftarrow> u32_at p 1;
     if b AND 0x80 = 0 then Some (2, ucast (shl_or 7 (a AND 0x7f) b)) else do {
     c \<leftarrow> u32_at p 2;
     a \<leftarrow> Some (shl_or 14 a c);
     if a AND 0x80 = 0
     then Some (3, ucast ((a AND SLOT_2_0) OR push_bit 7 (b AND 0x7f))) else do {
     a \<leftarrow> Some (a AND SLOT_2_0);
     c \<leftarrow> u32_at p 3;
     b \<leftarrow> Some (shl_or 14 b c);
     if b AND 0x80 = 0 then Some (4, ucast (shl_or 7 a (b AND SLOT_2_0))) else do {
     b \<leftarrow> Some (b AND SLOT_2_0);
     s \<leftarrow> Some a;
     c \<leftarrow> u32_at p 4;
     a \<leftarrow> Some (shl_or 14 a c);
     if a AND 0x80 = 0 then Some (5, u64_of (drop_bit 18 s) (a OR push_bit 7 b)) else do {
     s \<leftarrow> Some (shl_or 7 s b);
     c \<leftarrow> u32_at p 5;
     b \<leftarrow> Some (shl_or 14 b c);
     if b AND 0x80 = 0
     then Some (6, u64_of (drop_bit 18 s) (shl_or 7 (a AND SLOT_2_0) b)) else do {
     c \<leftarrow> u32_at p 6;
     a \<leftarrow> Some (shl_or 14 a c);
     if a AND 0x80 = 0
     then Some (7, u64_of (drop_bit 11 s)
                     ((a AND SLOT_4_2_0) OR push_bit 7 (b AND SLOT_2_0))) else do {
     a \<leftarrow> Some (a AND SLOT_2_0);
     c \<leftarrow> u32_at p 7;
     b \<leftarrow> Some (shl_or 14 b c);
     if b AND 0x80 = 0
     then Some (8, u64_of (drop_bit 4 s) (shl_or 7 a (b AND SLOT_4_2_0))) else do {
     c \<leftarrow> u32_at p 8;
     a \<leftarrow> Some (shl_or 15 a c);
     a \<leftarrow> Some (a OR push_bit 8 (b AND SLOT_2_0));
     s \<leftarrow> Some (push_bit 4 s);
     b \<leftarrow> u32_at p 4;
     s \<leftarrow> Some (s OR drop_bit 3 (b AND 0x7f));
     Some (9, u64_of s a)
   }}}}}}}}}"


text \<open>The inline macro \<open>getVarint32\<close> takes the one-byte case; the function is only called
  when the first byte has its high bit set.\<close>

definition sqlite3GetVarint32 :: "u8 list \<Rightarrow> (nat \<times> u32) option" where
  "sqlite3GetVarint32 p = do {
     a \<leftarrow> u32_at p 0;
     b \<leftarrow> u32_at p 1;
     if b AND 0x80 = 0 then Some (2, shl_or 7 (a AND 0x7f) b) else do {
     c \<leftarrow> u32_at p 2;
     a \<leftarrow> Some (shl_or 14 a c);
     if a AND 0x80 = 0
     then Some (3, (a AND (push_bit 14 0x7f OR 0x7f)) OR push_bit 7 (b AND 0x7f)) else do {
     (n, v64) \<leftarrow> sqlite3GetVarint p;
     Some (n, if v64 AND 0xffffffff \<noteq> v64 then 0xffffffff else ucast v64)
   }}}"

definition getVarint32 :: "u8 list \<Rightarrow> (nat \<times> u32) option" where
  "getVarint32 p = do {
     a \<leftarrow> byte_at p 0;
     if a < 0x80 then Some (1, ucast a) else sqlite3GetVarint32 p
   }"

text \<open>\<open>for(i=1; (v >>= 7)!=0; i++)\<close>.\<close>

function sqlite3VarintLen_loop :: "nat \<Rightarrow> u64 \<Rightarrow> nat" where
  "sqlite3VarintLen_loop i v =
     (let v = drop_bit 7 v in if v \<noteq> 0 then sqlite3VarintLen_loop (i + 1) v else i)"
  by pat_completeness auto
termination
proof (relation "measure (unat \<circ> snd)", simp)
  fix i and v v' :: u64
  assume v': "v' = drop_bit 7 v" and "v' \<noteq> 0"
  then have "unat v div 2 ^ 7 \<noteq> 0"
    by (metis unat_shift_right unat_eq_zero)
  then show "((i + 1, v'), (i, v)) \<in> measure (unat \<circ> snd)"
    unfolding v' by (simp only: unat_shift_right in_measure comp_def snd_conv) simp
qed

declare sqlite3VarintLen_loop.simps [simp del]

definition sqlite3VarintLen :: "u64 \<Rightarrow> nat" where
  "sqlite3VarintLen v = sqlite3VarintLen_loop 1 v"

section \<open>Four-byte big-endian integers\<close>

definition sqlite3Get4byte :: "u8 list \<Rightarrow> u32 option" where
  "sqlite3Get4byte p = do {
     b0 \<leftarrow> u32_at p 0; b1 \<leftarrow> u32_at p 1; b2 \<leftarrow> u32_at p 2; b3 \<leftarrow> u32_at p 3;
     Some (push_bit 24 b0 OR push_bit 16 b1 OR push_bit 8 b2 OR b3)
   }"

definition sqlite3Put4byte :: "u32 \<Rightarrow> u8 list" where
  "sqlite3Put4byte v =
     [ucast (drop_bit 24 v), ucast (drop_bit 16 v), ucast (drop_bit 8 v), ucast v]"

section \<open>The reference reading: one byte after the other\<close>

text \<open>Seven bits from each of the first eight bytes while their high bit is set, eight bits
  from a ninth.\<close>

fun varint_value :: "nat \<Rightarrow> u64 \<Rightarrow> u8 list \<Rightarrow> (nat \<times> u64) option" where
  "varint_value n acc [] = None"
| "varint_value n acc (b # bs) =
     (if n = 8 then Some (9, push_bit 8 acc OR ucast b)
      else if b AND 0x80 = 0 then Some (Suc n, push_bit 7 acc OR ucast b)
      else varint_value (Suc n) (push_bit 7 acc OR ucast (b AND 0x7f)) bs)"

declare varint_value.simps(2) [simp del]

definition add7 :: "u64 \<Rightarrow> u8 \<Rightarrow> u64" where
  "add7 acc b = push_bit 7 acc OR ucast (b AND mask 7)"

lemma varint_value_Cons:
  "n < 8 \<Longrightarrow> varint_value n acc (b # bs) =
     (if bit b 7 then varint_value (Suc n) (add7 acc b) bs else Some (Suc n, add7 acc b))"
  by (simp add: varint_value.simps(2) and_80_eq_0_iff add7_def mask_7f and_mask_7_id
      del: push_bit_or push_bit_and)

lemma varint_value_8: "n = 8 \<Longrightarrow> varint_value n acc (b # bs) = Some (9, push_bit 8 acc OR ucast b)"
  by (simp add: varint_value.simps(2))

section \<open>The register program computes the reference reading\<close>

text \<open>The two identities the source asserts about its precomputed masks.\<close>

lemma SLOT_2_0_mask: "SLOT_2_0 = push_bit 14 (mask 7) OR mask 7"
  by (simp add: SLOT_2_0_def mask_eq_exp_minus_1)

lemma SLOT_4_2_0_mask: "SLOT_4_2_0 = push_bit 28 (mask 4) OR push_bit 14 (mask 7) OR mask 7"
  by (simp add: SLOT_4_2_0_def mask_eq_exp_minus_1)

lemma high_bit_byte: "(ucast c :: u32) AND 0x80 = 0 \<longleftrightarrow> \<not> bit c 7" for c :: u8
  unfolding and_80_eq_0_iff by (simp add: bit_simps)

lemma high_bit_shl: "shl_or 14 x (ucast c) AND 0x80 = 0 \<longleftrightarrow> \<not> bit c 7" for c :: u8
  unfolding and_80_eq_0_iff shl_or_def by (simp add: bit_simps)

lemmas varint_bits =
  shl_or_def u64_of_def add7_def SLOT_2_0_mask SLOT_4_2_0_mask mask_7f

text \<open>One lemma per return statement of \<open>sqlite3GetVarint\<close>.\<close>

lemma get1: "\<not> bit b0 7 \<Longrightarrow> ucast (ucast b0 :: u32) = add7 0 b0"
  unfolding varint_bits by (rule u64_eqI) (simp add: bit_simps bytes)

lemma get2: "\<not> bit b1 7 \<Longrightarrow> ucast (shl_or 7 (ucast b0 AND 0x7f) (ucast b1)) = add7 (add7 0 b0) b1"
  unfolding varint_bits by (rule u64_eqI) (simp add: bit_simps bytes)

lemma get3: "\<not> bit b2 7 \<Longrightarrow> ucast ((shl_or 14 (ucast b0) (ucast b2) AND SLOT_2_0) OR push_bit 7 (ucast b1 AND 0x7f)) = add7 (add7 (add7 0 b0) b1) b2"
  unfolding varint_bits by (rule u64_eqI) (simp add: bit_simps bytes)

lemma get4: "\<not> bit b3 7 \<Longrightarrow> ucast (shl_or 7 (shl_or 14 (ucast b0) (ucast b2) AND SLOT_2_0) (shl_or 14 (ucast b1) (ucast b3) AND SLOT_2_0)) = add7 (add7 (add7 (add7 0 b0) b1) b2) b3"
  unfolding varint_bits by (rule u64_eqI) (simp add: bit_simps bytes)

lemma get5: "\<not> bit b4 7 \<Longrightarrow> u64_of (drop_bit 18 (shl_or 14 (ucast b0) (ucast b2) AND SLOT_2_0)) (shl_or 14 (shl_or 14 (ucast b0) (ucast b2) AND SLOT_2_0) (ucast b4) OR push_bit 7 (shl_or 14 (ucast b1) (ucast b3) AND SLOT_2_0)) = add7 (add7 (add7 (add7 (add7 0 b0) b1) b2) b3) b4"
  unfolding varint_bits by (rule u64_eqI) (simp add: bit_simps bytes)

lemma get6: "\<not> bit b5 7 \<Longrightarrow> u64_of (drop_bit 18 (shl_or 7 (shl_or 14 (ucast b0) (ucast b2) AND SLOT_2_0) (shl_or 14 (ucast b1) (ucast b3) AND SLOT_2_0))) (shl_or 7 (shl_or 14 (shl_or 14 (ucast b0) (ucast b2) AND SLOT_2_0) (ucast b4) AND SLOT_2_0) (shl_or 14 (shl_or 14 (ucast b1) (ucast b3) AND SLOT_2_0) (ucast b5))) = add7 (add7 (add7 (add7 (add7 (add7 0 b0) b1) b2) b3) b4) b5"
  unfolding varint_bits by (rule u64_eqI) (simp add: bit_simps bytes)

lemma get7: "\<not> bit b6 7 \<Longrightarrow> u64_of (drop_bit 11 (shl_or 7 (shl_or 14 (ucast b0) (ucast b2) AND SLOT_2_0) (shl_or 14 (ucast b1) (ucast b3) AND SLOT_2_0))) ((shl_or 14 (shl_or 14 (shl_or 14 (ucast b0) (ucast b2) AND SLOT_2_0) (ucast b4)) (ucast b6) AND SLOT_4_2_0) OR push_bit 7 (shl_or 14 (shl_or 14 (ucast b1) (ucast b3) AND SLOT_2_0) (ucast b5) AND SLOT_2_0)) = add7 (add7 (add7 (add7 (add7 (add7 (add7 0 b0) b1) b2) b3) b4) b5) b6"
  unfolding varint_bits by (rule u64_eqI) (simp add: bit_simps bytes)

lemma get8: "\<not> bit b7 7 \<Longrightarrow> u64_of (drop_bit 4 (shl_or 7 (shl_or 14 (ucast b0) (ucast b2) AND SLOT_2_0) (shl_or 14 (ucast b1) (ucast b3) AND SLOT_2_0))) (shl_or 7 (shl_or 14 (shl_or 14 (shl_or 14 (ucast b0) (ucast b2) AND SLOT_2_0) (ucast b4)) (ucast b6) AND SLOT_2_0) (shl_or 14 (shl_or 14 (shl_or 14 (ucast b1) (ucast b3) AND SLOT_2_0) (ucast b5)) (ucast b7) AND SLOT_4_2_0)) = add7 (add7 (add7 (add7 (add7 (add7 (add7 (add7 0 b0) b1) b2) b3) b4) b5) b6) b7"
  unfolding varint_bits by (rule u64_eqI) (simp add: bit_simps bytes)

lemma get9: "u64_of (push_bit 4 (shl_or 7 (shl_or 14 (ucast b0) (ucast b2) AND SLOT_2_0) (shl_or 14 (ucast b1) (ucast b3) AND SLOT_2_0)) OR drop_bit 3 (ucast b4 AND 0x7f)) (shl_or 15 (shl_or 14 (shl_or 14 (shl_or 14 (ucast b0) (ucast b2) AND SLOT_2_0) (ucast b4)) (ucast b6) AND SLOT_2_0) (ucast b8) OR push_bit 8 (shl_or 14 (shl_or 14 (shl_or 14 (ucast b1) (ucast b3) AND SLOT_2_0) (ucast b5)) (ucast b7) AND SLOT_2_0)) = push_bit 8 (add7 (add7 (add7 (add7 (add7 (add7 (add7 (add7 0 b0) b1) b2) b3) b4) b5) b6) b7) OR ucast b8"
  for b8 :: u8
  unfolding varint_bits by (rule u64_eqI) (simp add: bit_simps bytes)


lemma list9_cases:
  obtains "p = []" | b0 where "p = [b0]" | b0 b1 where "p = [b0, b1]"
  | b0 b1 b2 where "p = [b0, b1, b2]" | b0 b1 b2 b3 where "p = [b0, b1, b2, b3]"
  | b0 b1 b2 b3 b4 where "p = [b0, b1, b2, b3, b4]"
  | b0 b1 b2 b3 b4 b5 where "p = [b0, b1, b2, b3, b4, b5]"
  | b0 b1 b2 b3 b4 b5 b6 where "p = [b0, b1, b2, b3, b4, b5, b6]"
  | b0 b1 b2 b3 b4 b5 b6 b7 where "p = [b0, b1, b2, b3, b4, b5, b6, b7]"
  | b0 b1 b2 b3 b4 b5 b6 b7 b8 bs where "p = b0 # b1 # b2 # b3 # b4 # b5 # b6 # b7 # b8 # bs"
  by (metis list.exhaust)

lemma getVarint_eq: "sqlite3GetVarint p = varint_value 0 0 p"
  by (cases p rule: list9_cases)
    (simp_all add: sqlite3GetVarint_def u32_at_def varint_value_Cons varint_value_8
      high_bit_byte high_bit_shl get1 get2 get3 get4 get5 get6 get7 get8 get9
      del: push_bit_and push_bit_or drop_bit_and drop_bit_or)

section \<open>Reading what was written\<close>

definition group7 :: "u64 \<Rightarrow> u8" where
  "group7 v = ucast ((v AND 0x7f) OR 0x80)"

lemma group7_high: "group7 v AND 0x80 \<noteq> 0"
  unfolding and_80_eq_0_iff group7_def by (simp add: bit_simps bytes)

lemma group7_low: "ucast (group7 v AND 0x7f) = v AND mask 7"
  unfolding group7_def mask_7f
  by (rule bit_word_eqI) (auto simp: bit_simps bit_80_int)

lemma group7_last_high: "(group7 v AND 0x7f) AND 0x80 = 0"
  unfolding and_80_eq_0_iff mask_7f by (simp add: bit_simps)

lemma shift7_or: "push_bit 7 (drop_bit 7 v) OR (v AND mask 7) = v" for v :: u64
  by (rule bit_word_eqI) (auto simp: bit_simps)

lemma varint_value_group7:
  "n < 8 \<Longrightarrow> varint_value n acc (group7 v # bs) =
     varint_value (Suc n) (push_bit 7 acc OR (v AND mask 7)) bs"
  using group7_high [of v] by (simp add: varint_value.simps(2) group7_low)

lemma varint_value_last:
  "n < 8 \<Longrightarrow> varint_value n acc ((group7 v AND 0x7f) # bs) =
     Some (Suc n, push_bit 7 acc OR (v AND mask 7))"
  using group7_last_high [of v] by (simp add: varint_value.simps(2) group7_low)

lemma buf_unfold: "putVarint64_buf v =
   (if drop_bit 7 v = 0 then [group7 v] else group7 v # putVarint64_buf (drop_bit 7 v))"
  by (subst putVarint64_buf.simps) (simp add: group7_def Let_def)

lemma varint_value_buf:
  "n + length (putVarint64_buf v) \<le> 8 \<Longrightarrow>
   varint_value n 0 (rev (putVarint64_buf v) @ bs) = varint_value (n + length (putVarint64_buf v)) v bs"
proof (induction v arbitrary: bs rule: putVarint64_buf.induct)
  case (1 v)
  show ?case
  proof (cases "drop_bit 7 v = 0")
    case True
    then have "v AND mask 7 = v" using shift7_or [of v] by simp
    with True 1 show ?thesis by (simp add: buf_unfold [of v] varint_value_group7)
  next
    case False
    with 1 show ?thesis
      by (simp add: buf_unfold [of v] varint_value_group7 shift7_or)
  qed
qed

lemma varint_value_full:
  "i + n \<le> 8 \<Longrightarrow>
   varint_value n 0 (putVarint64_full i v p) = varint_value (n + i) (v AND mask (7 * i)) p"
proof (induction i arbitrary: v p)
  case 0
  then show ?case by simp
next
  case (Suc i)
  have "push_bit 7 (drop_bit 7 v AND mask (7 * i)) OR (v AND mask 7) = v AND mask (7 * Suc i)"
    by (rule bit_word_eqI) (auto simp: bit_simps)
  with Suc show ?case by (simp add: group7_def [symmetric] varint_value_group7)
qed

lemma putVarint64_full_append: "putVarint64_full i v p @ bs = putVarint64_full i v (p @ bs)"
  by (induction i arbitrary: v p) simp_all

lemma length_putVarint64_full: "length (putVarint64_full i v p) = i + length p"
  by (induction i arbitrary: v p) simp_all

lemma length_buf_le: "unat v < 2 ^ (7 * k) \<Longrightarrow> 0 < k \<Longrightarrow> length (putVarint64_buf v) \<le> k"
proof (induction v arbitrary: k rule: putVarint64_buf.induct)
  case (1 v)
  show ?case
  proof (cases "drop_bit 7 v = 0")
    case True
    with 1 show ?thesis by (simp add: buf_unfold [of v])
  next
    case False
    obtain j where j: "k = Suc j" using 1(3) by (cases k) auto
    have "unat (drop_bit 7 v) < 2 ^ (7 * j)"
      using 1(2) by (simp only: unat_shift_right) (simp add: j power_add less_mult_imp_div_less)
    moreover from this have "j \<noteq> 0" using False unat_eq_zero [of "drop_bit 7 v"]
      by (intro notI) simp
    ultimately have "length (putVarint64_buf (drop_bit 7 v)) \<le> j"
      using False by (intro 1(1)) auto
    with False j show ?thesis by (simp add: buf_unfold [of v])
  qed
qed

lemma nine_byte_test: "v AND 0xff00000000000000 = 0 \<longleftrightarrow> unat v < 2 ^ 56" for v :: u64
proof -
  have m: "0xff00000000000000 = (push_bit 56 (mask 8) :: u64)"
    by (simp add: mask_eq_exp_minus_1)
  have eq: "v AND push_bit 56 (mask 8) = push_bit 56 (drop_bit 56 v)"
    by (rule bit_word_eqI) (auto simp: bit_simps)
  have "drop_bit 56 (push_bit 56 (drop_bit 56 v)) = drop_bit 56 v"
    by (rule bit_word_eqI) (auto simp: bit_simps dest: bit_imp_le_length)
  then have "push_bit 56 (drop_bit 56 v) = 0 \<longleftrightarrow> drop_bit 56 v = 0"
    by (metis drop_bit_of_0 push_bit_of_0)
  then show ?thesis
    unfolding m eq by (simp only: shift_right_eq_0_iff)
qed

lemma putVarint64_reads: "varint_value 0 0 (snd (putVarint64 v) @ bs) = Some (fst (putVarint64 v), v)"
proof (cases "unat v < 2 ^ 56")
  case True
  let ?B = "if drop_bit 7 v = 0 then [] else putVarint64_buf (drop_bit 7 v)"
  have buf: "putVarint64_buf v = group7 v # ?B" by (simp add: buf_unfold [of v])
  have "length (putVarint64_buf v) \<le> 8" using length_buf_le [of v 8] True by simp
  then have len: "length ?B < 8" using buf by simp
  have "varint_value 0 0 (rev ?B @ xs) = varint_value (length ?B) (drop_bit 7 v) xs" for xs
    using varint_value_buf [of 0 "drop_bit 7 v" xs] len by (auto split: if_splits)
  then have "varint_value 0 0 (rev ?B @ (group7 v AND 0x7f) # bs) = Some (Suc (length ?B), v)"
    using len by (simp add: varint_value_last shift7_or)
  then show ?thesis using nine_byte_test [of v] True
    by (simp add: putVarint64_def Let_def rev_update_head buf)
next
  case False
  have 8: "push_bit 8 (drop_bit 8 v AND mask 56) OR (v AND mask 8) = v"
    by (rule bit_word_eqI) (auto simp: bit_simps)
  have "varint_value 0 0 (putVarint64_full 8 (drop_bit 8 v) [ucast v] @ bs) = Some (9, v)"
    using varint_value_full [of 8 0 "drop_bit 8 v" "ucast v # bs"]
    by (simp add: putVarint64_full_append varint_value_8 ucast_u8_mask 8
        del: push_bit_and push_bit_or)
  with False show ?thesis
    by (simp add: putVarint64_def nine_byte_test Let_def)
qed

lemma put_small: "v \<le> 0x7f \<Longrightarrow> varint_value 0 0 (ucast (v AND 0x7f) # bs) = Some (1, v)" for v::u64
proof -
  assume "v \<le> 0x7f"
  then have u: "unat v < 2 ^ 7" by (simp add: word_le_nat_alt)
  then have "drop_bit 7 v = 0" by (simp only: shift_right_eq_0_iff)
  then have "v AND mask 7 = v" using shift7_or [of v] by simp
  moreover have "\<not> bit (ucast (v AND mask 7) :: u8) 7" by (simp add: bit_simps)
  moreover have "add7 0 (ucast (v AND mask 7)) = v AND mask 7"
    unfolding add7_def by (rule bit_word_eqI) (auto simp: bit_simps)
  ultimately show ?thesis
    by (simp add: mask_7f varint_value_Cons)
qed

lemma put_two: "v \<le> 0x3fff \<Longrightarrow> varint_value 0 0 (ucast ((drop_bit 7 v AND 0x7f) OR 0x80) # ucast (v AND 0x7f) # bs) = Some (2, v)" for v::u64
proof -
  assume "v \<le> 0x3fff"
  then have u: "unat v < 2 ^ 14" by (simp add: word_le_nat_alt)
  then have "drop_bit 14 v = 0" by (simp only: shift_right_eq_0_iff)
  then have d: "drop_bit 7 v AND mask 7 = drop_bit 7 v"
    using shift7_or [of "drop_bit 7 v"] by (simp add: drop_bit_drop_bit)
  have n: "\<not> bit (ucast (v AND mask 7) :: u8) 7" by (simp add: bit_simps)
  have "add7 (drop_bit 7 v) (ucast (v AND mask 7)) = push_bit 7 (drop_bit 7 v) OR (v AND mask 7)"
    unfolding add7_def by (rule bit_word_eqI) (auto simp: bit_simps)
  moreover have "ucast ((drop_bit 7 v AND 0x7f) OR 0x80) = group7 (drop_bit 7 v)"
    by (simp only: group7_def)
  ultimately show ?thesis
    by (simp only: varint_value_group7) (simp add: d shift7_or mask_7f varint_value_Cons n
      del: push_bit_and push_bit_or)
qed
lemma get_put_varint: "sqlite3GetVarint (snd (sqlite3PutVarint v) @ bs) = Some (fst (sqlite3PutVarint v), v)"
  unfolding getVarint_eq sqlite3PutVarint_def
  using put_small [of v bs] put_two [of v bs] putVarint64_reads [of v bs] by simp

lemma buf_nonempty: "putVarint64_buf v \<noteq> []" by (simp add: buf_unfold [of v])
lemma length_put: "length (snd (sqlite3PutVarint v)) = fst (sqlite3PutVarint v)"
  by (simp add: sqlite3PutVarint_def putVarint64_def length_putVarint64_full Let_def)

lemma varint_value_prefix:
  "varint_value n acc p = Some (m, v) \<Longrightarrow> n \<le> 8 \<Longrightarrow> 
    n < m \<and> m \<le> 9 \<and> m - n \<le> length p \<and> varint_value n acc (take (m - n) p @ q) = Some (m, v)"
proof (induction p arbitrary: n acc)
  case Nil then show ?case by simp
next
  case (Cons b p)
  show ?case
  proof (cases "n = 8")
    case True
    with Cons.prems show ?thesis by (auto simp: varint_value_8)
  next
    case False
    show ?thesis 
    proof (cases "bit b 7")
      case True
      with Cons.prems \<open>n \<noteq> 8\<close> have *: "varint_value (Suc n) (add7 acc b) p = Some (m, v)"
        by (simp add: varint_value_Cons)
      from Cons.IH [OF *] Cons.prems(2) \<open>n \<noteq> 8\<close> have *:
        "Suc n < m \<and> m \<le> 9 \<and> m - Suc n \<le> length p \<and> varint_value (Suc n) (add7 acc b) (take (m - Suc n) p @ q) = Some (m, v)"
        by simp
      then have "m - n = Suc (m - Suc n)" by arith
      with * show ?thesis using True \<open>n \<noteq> 8\<close> Cons.prems(2)
        by (simp add: varint_value_Cons)
    qed (use Cons.prems False in \<open>auto simp: varint_value_Cons\<close>)
  qed
qed
lemma VarintLen_loop_unfold: "sqlite3VarintLen_loop i v = (if drop_bit 7 v = 0 then i else sqlite3VarintLen_loop (i+1) (drop_bit 7 v))"
  by (subst sqlite3VarintLen_loop.simps) (simp add: Let_def)

lemma VarintLen_loop_buf: "sqlite3VarintLen_loop i v + 1 = i + length (putVarint64_buf v)"
proof (induction i v rule: sqlite3VarintLen_loop.induct)
  case (1 i v)
  then show ?case by (simp add: VarintLen_loop_unfold [of i v] buf_unfold [of v])
qed

lemma length_buf_ge: "2 ^ (7 * k) \<le> unat v \<Longrightarrow> k < length (putVarint64_buf v)"
proof (induction k arbitrary: v)
  case 0
  then show ?case by (simp add: buf_unfold)
next
  case (Suc k)
  then have ge: "2 ^ (7 * k) \<le> unat (drop_bit 7 v)"
    by (simp only: unat_shift_right) (simp add: power_add less_eq_div_iff_mult_less_eq)
  then have "drop_bit 7 v \<noteq> 0" by (intro notI) simp
  with Suc.IH [OF ge] show ?case by (simp add: buf_unfold [of v])
qed

lemma VarintLen_eq_buf: "sqlite3VarintLen v = length (putVarint64_buf v)"
  using VarintLen_loop_buf [of 1 v] by (simp add: sqlite3VarintLen_def)

lemma fst_putVarint: "fst (sqlite3PutVarint v) = min 9 (length (putVarint64_buf v))"
proof -
  have 1: "length (putVarint64_buf v) = 1" if "v \<le> 0x7f"
    using length_buf_le [of v 1] that buf_nonempty [of v]
    by (cases "putVarint64_buf v") (auto simp: word_le_nat_alt)
  have 2: "length (putVarint64_buf v) = 2" if "v \<le> 0x3fff" "\<not> v \<le> 0x7f"
    using length_buf_le [of v 2] length_buf_ge [of 1 v] that by (simp add: word_le_nat_alt)
  have 3: "8 < length (putVarint64_buf v)" if "\<not> unat v < 2 ^ 56"
    using length_buf_ge [of 8 v] that by simp
  have 4: "length (putVarint64_buf v) \<le> 8" if "unat v < 2 ^ 56"
    using length_buf_le [of v 8] that by simp
  show ?thesis
    using 1 2 3 4 nine_byte_test [of v]
    by (auto simp: sqlite3PutVarint_def putVarint64_def Let_def)
qed
lemma VarintLen_below_63: "unat v < 2 ^ 63 \<Longrightarrow> sqlite3VarintLen v = fst (sqlite3PutVarint v)"
  using length_buf_le [of v 9] by (simp add: fst_putVarint VarintLen_eq_buf)

lemma VarintLen_from_63: "2 ^ 63 \<le> unat v \<Longrightarrow> sqlite3VarintLen v = 10 \<and> fst (sqlite3PutVarint v) = 9"
proof -
  have "unat v < 2 ^ (7 * 10)" using unsigned_less [where ?'a = nat, of v] by (simp add: order_less_trans)
  then show "2 ^ 63 \<le> unat v \<Longrightarrow> ?thesis"
  using length_buf_ge [of 9 v] length_buf_le [of v 10]
  by (simp add: fst_putVarint VarintLen_eq_buf)
qed
lemma VarintLen_bounds: "1 \<le> sqlite3VarintLen v \<and> sqlite3VarintLen v \<le> 10"
proof -
  have "unat v < 2 ^ (7 * 10)"
    using unsigned_less [where ?'a = nat, of v] by (simp add: order_less_trans)
  then show ?thesis
    using length_buf_le [of v 10] buf_nonempty [of v] by (simp add: VarintLen_eq_buf Suc_le_eq)
qed

lemma getVarint32_saturates: "getVarint32 p = map_option (\<lambda>(n, v). (n, if unat v < 2 ^ 32 then ucast v else 0xffffffff)) (sqlite3GetVarint p)"
proof -
  consider "p = []" | b0 q where "p = b0 # q" "\<not> bit b0 7"
    | b0 where "p = [b0]" "bit b0 7"
    | b0 b1 q where "p = b0 # b1 # q" "bit b0 7" "\<not> bit b1 7"
    | b0 b1 where "p = [b0, b1]" "bit b0 7" "bit b1 7"
    | b0 b1 b2 q where "p = b0 # b1 # b2 # q" "bit b0 7" "bit b1 7" "\<not> bit b2 7"
    | b0 b1 b2 q where "p = b0 # b1 # b2 # q" "bit b0 7" "bit b1 7" "bit b2 7"
    by (metis list.exhaust)
  then show ?thesis
  proof cases
    case 2
    have "add7 0 b0 = ucast (ucast b0 :: u32)" using get1 [OF 2(2)] by (rule sym)
    then show ?thesis
      using 2
      by (simp only: getVarint32_def u8_less_80_iff getVarint_eq byte_at_0) (simp add: varint_value_Cons)
  next
    case 4
    have a: "add7 (add7 0 b0) b1 = ucast (shl_or 7 (ucast b0 AND 0x7f) (ucast b1))"
      using get2 [OF 4(3)] by (rule sym)
    from 4 show ?thesis
      by (simp add: a getVarint32_def sqlite3GetVarint32_def u32_at_def high_bit_byte u8_less_80_iff
          getVarint_eq varint_value_Cons)
  next
    case 6
    have a: "add7 (add7 (add7 0 b0) b1) b2 =
      ucast (shl_or 14 (ucast b0) (ucast b2) AND SLOT_2_0 OR push_bit 7 (ucast b1 AND 0x7f))"
      using get3 [OF 6(4)] by (rule sym)
    from 6 show ?thesis
      by (simp add: a getVarint32_def sqlite3GetVarint32_def u32_at_def high_bit_byte high_bit_shl
          u8_less_80_iff getVarint_eq varint_value_Cons SLOT_2_0_def del: push_bit_and push_bit_or)
  next
    case 7
    then show ?thesis
      by (cases "sqlite3GetVarint p")
        (auto simp: getVarint32_def sqlite3GetVarint32_def u32_at_def high_bit_byte high_bit_shl u8_less_80_iff
          and_ffffffff_iff)
  qed (simp_all add: getVarint32_def sqlite3GetVarint32_def u32_at_def u8_less_80_iff getVarint_eq
      high_bit_byte varint_value_Cons)
qed
lemma get4_put4: "sqlite3Get4byte (sqlite3Put4byte v @ bs) = Some v"
proof -
  have "push_bit 24 (ucast (ucast (drop_bit 24 v) :: u8)) OR push_bit 16 (ucast (ucast (drop_bit 16 v) :: u8))
   OR push_bit 8 (ucast (ucast (drop_bit 8 v) :: u8)) OR ucast (ucast v :: u8) = v"
   by (rule u32_eqI) (simp add: bit_simps)
  then show ?thesis by (simp add: sqlite3Get4byte_def sqlite3Put4byte_def u32_at_def del: push_bit_or)
qed


lemma get4_bound: "sqlite3Get4byte p = Some v \<Longrightarrow> 4 \<le> length p"
  by (auto simp: sqlite3Get4byte_def u32_at_def byte_at_def split: if_splits Option.bind_splits)

section \<open>The two encodings as codecs\<close>

interpretation varint: bounded_codec "\<lambda>v. snd (sqlite3PutVarint v)" sqlite3GetVarint 9
proof unfold_locales
  show "sqlite3GetVarint (snd (sqlite3PutVarint v) @ bs) = Some (length (snd (sqlite3PutVarint v)), v)"
    for v bs
    by (simp add: get_put_varint length_put)
  show "0 < n \<and> n \<le> 9 \<and> n \<le> length p" if "sqlite3GetVarint p = Some (n, v)" for p n v
    using varint_value_prefix [of 0 0 p n v] that by (simp add: getVarint_eq)
qed

interpretation four_byte: bounded_codec sqlite3Put4byte
  "\<lambda>p. map_option (Pair 4) (sqlite3Get4byte p)" 4
  by unfold_locales (auto simp: get4_put4 dest: get4_bound, simp add: sqlite3Put4byte_def)

section \<open>Properties\<close>

text \<open>Writing any 64-bit value as a varint and reading it back, whatever bytes follow,
  returns the value and the number of bytes written.\<close>

theorem varint_round_trip:
  "sqlite3GetVarint (snd (sqlite3PutVarint v) @ bs) = Some (fst (sqlite3PutVarint v), v)"
  by (rule get_put_varint)

text \<open>The unrolled three-register program of sqlite3GetVarint computes the byte-by-byte
  reading of the format, on every buffer, short ones included.\<close>

theorem getVarint_reference: "sqlite3GetVarint p = varint_value 0 0 p"
  by (rule getVarint_eq)

text \<open>A successful read consumes between one and nine bytes of the buffer and does not depend on the bytes behind them..\<close>

theorem getVarint_local:
  assumes "sqlite3GetVarint p = Some (n, v)"
  shows "1 \<le> n \<and> n \<le> 9 \<and> n \<le> length p \<and> sqlite3GetVarint (take n p @ q) = Some (n, v)"
  using varint_value_prefix [of 0 0 p n v q] assms by (simp add: getVarint_eq Suc_le_eq)

theorem getVarint_local_witness:
  "sqlite3GetVarint ([0x81, 0x00] @ [0xff]) = Some (2, 128)"
proof -
  have "sqlite3GetVarint [0x81, 0x00, 0x7f] = Some (2, 128)"
    by (simp add: getVarint_eq varint_value.simps(2))
  from getVarint_local [OF this, of "[0xff]"] show ?thesis by simp
qed

text \<open>getVarint32, macro and function together, returns the varint's value when it fits
  in 32 bits and 0xffffffff otherwise, with the same length.\<close>

theorem getVarint32_value:
  "getVarint32 p = map_option
     (\<lambda>(n, v). (n, if unat v < 2 ^ 32 then ucast v else 0xffffffff)) (sqlite3GetVarint p)"
  by (rule getVarint32_saturates)

text \<open>sqlite3VarintLen is the length sqlite3PutVarint writes for every value below
  2^63; from 2^63 on it returns 10 although only 9 bytes are written.\<close>

theorem VarintLen_correct:
  "sqlite3VarintLen v =
     (if unat v < 2 ^ 63 then fst (sqlite3PutVarint v) else fst (sqlite3PutVarint v) + 1)"
  using VarintLen_below_63 [of v] VarintLen_from_63 [of v] by simp

text \<open>A run of varints, the layout of a record header, decodes to exactly the values
  that were written, and leaves the bytes behind it.\<close>

theorem varint_sequence_round_trip:
  "decode_seq sqlite3GetVarint (length vs) (concat (map (\<lambda>v. snd (sqlite3PutVarint v)) vs) @ bs)
     = Some (vs, bs)"
  by (rule varint.decode_seq_concat)

text \<open>Four-byte big-endian integers are read back as written.\<close>

theorem four_byte_round_trip: "sqlite3Get4byte (sqlite3Put4byte v @ bs) = Some v"
  by (rule get4_put4)

end
