(* ===== verification/IntUtil.thy ===== *)
theory IntUtil
  imports Prelude
begin

text \<open>
  Checked 64-bit arithmetic and the logarithmic estimates of the query planner
  (\<open>sqlite3.c\<close>, part \<open>util.c\<close>).  Signed C integers are mathematical integers; an
  operation whose result leaves the 64-bit range, or a division by zero, is undefined
  behaviour in C and \<open>None\<close> here, so that a result \<open>Some\<close> also says that the routine
  executes without undefined behaviour.  The portable branch of each routine is the one
  modelled (clang reports itself as GCC 4.2, so the \<open>__builtin\<close> branches are not compiled).
\<close>

section \<open>Addition, subtraction, multiplication\<close>

text \<open>A routine returns its result code and the final value of \<open>*pA\<close>.\<close>

definition LARGEST_INT64 :: int where "LARGEST_INT64 = 0x7fffffffffffffff"
definition SMALLEST_INT64 :: int where "SMALLEST_INT64 = - 1 - LARGEST_INT64"
definition i64_range :: "int \<Rightarrow> bool" where
  "i64_range x \<longleftrightarrow> - (2 ^ 63) \<le> x \<and> x < 2 ^ 63"
definition i64 :: "int \<Rightarrow> int option" where
  "i64 x = (if i64_range x then Some x else None)"
definition c_div :: "int \<Rightarrow> int \<Rightarrow> int option" where
  "c_div a b = (if b = 0 then None else i64 (sgn a * sgn b * (\<bar>a\<bar> div \<bar>b\<bar>)))"

definition sqlite3AddInt64 :: "int \<Rightarrow> int \<Rightarrow> (int \<times> int) option" where
  "sqlite3AddInt64 pA iB = do {
     iA \<leftarrow> Some pA;
     overflow \<leftarrow>
       (if iB \<ge> 0
        then if iA > 0 then do { d \<leftarrow> i64 (LARGEST_INT64 - iA); Some (d < iB) } else Some False
        else if iA < 0
        then do { s \<leftarrow> i64 (iA + LARGEST_INT64); m \<leftarrow> i64 (- s); t \<leftarrow> i64 (iB + 1); Some (m > t) }
        else Some False);
     if overflow then Some (1, pA) else do { r \<leftarrow> i64 (pA + iB); Some (0, r) }
   }"

definition sqlite3SubInt64 :: "int \<Rightarrow> int \<Rightarrow> (int \<times> int) option" where
  "sqlite3SubInt64 pA iB =
     (if iB = SMALLEST_INT64
      then if pA \<ge> 0 then Some (1, pA) else do { r \<leftarrow> i64 (pA - iB); Some (0, r) }
      else do { n \<leftarrow> i64 (- iB); sqlite3AddInt64 pA n })"

definition sqlite3MulInt64 :: "int \<Rightarrow> int \<Rightarrow> (int \<times> int) option" where
  "sqlite3MulInt64 pA iB = do {
     iA \<leftarrow> Some pA;
     overflow \<leftarrow>
       (if iB > 0
        then do {
          q \<leftarrow> c_div LARGEST_INT64 iB;
          if iA > q then Some True else do {
          q \<leftarrow> c_div SMALLEST_INT64 iB;
          Some (iA < q) }}
        else if iB < 0
        then if iA > 0 then do { q \<leftarrow> c_div SMALLEST_INT64 iA; Some (iB < q) }
        else if iA < 0
        then if iB = SMALLEST_INT64 then Some True
             else if iA = SMALLEST_INT64 then Some True
             else do { a \<leftarrow> i64 (- iA); b \<leftarrow> i64 (- iB); q \<leftarrow> c_div LARGEST_INT64 b; Some (a > q) }
        else Some False
        else Some False);
     if overflow then Some (1, pA) else do { r \<leftarrow> i64 (iA * iB); Some (0, r) }
   }"

definition sqlite3AbsInt32 :: "int \<Rightarrow> int" where
  "sqlite3AbsInt32 x =
     (if x \<ge> 0 then x else if x = - (2 ^ 31) then 0x7fffffff else - x)"

section \<open>LogEst\<close>

type_synonym LogEst = int

definition LogEstAdd_x :: "int list" where
  "LogEstAdd_x = [10, 10, 9, 9, 8, 8, 7, 7, 7, 6, 6, 6, 5, 5, 5, 4, 4, 4, 4,
     3, 3, 3, 3, 3, 3, 2, 2, 2, 2, 2, 2, 2]"

definition sqlite3LogEstAdd :: "LogEst \<Rightarrow> LogEst \<Rightarrow> LogEst" where
  "sqlite3LogEstAdd a b =
     (if a \<ge> b
      then if a > b + 49 then a
           else if a > b + 31 then a + 1
           else a + LogEstAdd_x ! nat (a - b)
      else if b > a + 49 then b
           else if b > a + 31 then b + 1
           else b + LogEstAdd_x ! nat (b - a))"

definition LogEst_a :: "int list" where "LogEst_a = [0, 2, 3, 5, 6, 7, 8, 9]"


text \<open>\<open>while( x<8 ){ y -= 10; x <<= 1; }\<close>, entered with \<open>2 \<le> x\<close> only.\<close>

function LogEst_up :: "nat \<Rightarrow> LogEst \<Rightarrow> nat \<times> LogEst" where
  "LogEst_up x y = (if 0 < x \<and> x < 8 then LogEst_up (2 * x) (y - 10) else (x, y))"
  by pat_completeness auto
termination by (relation "measure (\<lambda>(x, y). 8 - x)") auto

function LogEst_down4 :: "nat \<Rightarrow> LogEst \<Rightarrow> nat \<times> LogEst" where
  "LogEst_down4 x y = (if x > 255 then LogEst_down4 (x div 16) (y + 40) else (x, y))"
  by pat_completeness auto
termination by (relation "measure fst") auto

function LogEst_down1 :: "nat \<Rightarrow> LogEst \<Rightarrow> nat \<times> LogEst" where
  "LogEst_down1 x y = (if x > 15 then LogEst_down1 (x div 2) (y + 10) else (x, y))"
  by pat_completeness auto
termination by (relation "measure fst") auto

declare LogEst_up.simps [simp del] LogEst_down4.simps [simp del] LogEst_down1.simps [simp del]

definition sqlite3LogEst :: "u64 \<Rightarrow> LogEst" where
  "sqlite3LogEst x =
     (if unat x < 8 \<and> unat x < 2 then 0
      else let (x, y) =
             (if unat x < 8 then LogEst_up (unat x) 40
              else case LogEst_down4 (unat x) 40 of (x, y) \<Rightarrow> LogEst_down1 x y)
           in LogEst_a ! (x mod 8) + y - 10)"

section \<open>Exactness of the checked operations\<close>

lemmas i64s = i64_def i64_range_def LARGEST_INT64_def SMALLEST_INT64_def

lemma AddInt64_exact: "i64_range a \<Longrightarrow> i64_range b \<Longrightarrow> sqlite3AddInt64 a b = Some (if i64_range (a + b) then (0, a + b) else (1, a))"
  by (simp add: sqlite3AddInt64_def i64s)

lemma SubInt64_exact: "i64_range a \<Longrightarrow> i64_range b \<Longrightarrow> sqlite3SubInt64 a b = Some (if i64_range (a - b) then (0, a - b) else (1, a))"
proof (cases "b = SMALLEST_INT64")
  case False
  moreover assume "i64_range a" "i64_range b"
  ultimately have "i64_range (- b)" by (simp add: i64s)
  with False \<open>i64_range a\<close> show ?thesis
    by (simp add: sqlite3SubInt64_def i64_def AddInt64_exact)
qed (simp add: sqlite3SubInt64_def i64s)


lemma div_less_iff: "0 < b \<Longrightarrow> N div b < a \<longleftrightarrow> N < a * b" for a b N :: int
proof
  assume b: "0 < b" and "N div b < a"
  then have "(N div b + 1) * b \<le> a * b" by (intro mult_right_mono) auto
  moreover have "N < (N div b + 1) * b"
  proof -
    have "N = b * (N div b) + N mod b" by simp
    moreover have "(N div b + 1) * b = b * (N div b) + b" by (simp add: algebra_simps)
    ultimately show ?thesis using pos_mod_bound [OF b, of N] by linarith
  qed
  ultimately show "N < a * b" by simp
next
  assume b: "0 < b" and N: "N < a * b"
  have "(N div b) * b \<le> N" using b by (simp add: minus_mod_eq_div_mult [symmetric])
  with N have "(N div b) * b < a * b" by simp
  with b show "N div b < a" by (simp add: mult_less_cancel_right)
qed

lemma c_div_pos:
  "0 < b \<Longrightarrow> c_div LARGEST_INT64 b = Some (LARGEST_INT64 div b)"
  "0 < b \<Longrightarrow> c_div SMALLEST_INT64 b = Some (- (9223372036854775808 div b))"
proof -
  assume b: "0 < b"
  have "0 \<le> N div b \<and> N div b \<le> N" if "0 \<le> N" for N
  proof -
    have "N div b \<le> N div 1" using b that by (intro zdiv_mono2) auto
    with b that show ?thesis by (simp add: pos_imp_zdiv_nonneg_iff)
  qed
  from this [of LARGEST_INT64] this [of 9223372036854775808]
  show "c_div LARGEST_INT64 b = Some (LARGEST_INT64 div b)"
    "c_div SMALLEST_INT64 b = Some (- (9223372036854775808 div b))"
    using b by (simp_all add: i64s c_div_def)
qed

lemma MulInt64_exact:
  assumes "i64_range a" "i64_range b"
  shows "sqlite3MulInt64 a b = Some (if i64_range (a * b) then (0, a * b) else (1, a))"
proof -
  consider "b = 0" | "b < 0" "a = 0" | "0 < b" | "b < 0" "0 < a" | "b < 0" "a < 0" by linarith
  then show ?thesis
  proof cases
    case 3
    have L: "LARGEST_INT64 div b < a \<longleftrightarrow> LARGEST_INT64 < a * b" using 3 by (simp add: div_less_iff)
    have S: "a < - (9223372036854775808 div b) \<longleftrightarrow> a * b < - 9223372036854775808"
      using div_less_iff [of b 9223372036854775808 "- a"] 3 by auto
    from 3 show ?thesis
      by (simp add: sqlite3MulInt64_def c_div_pos L S) (auto simp: i64s)
  next
    case 4
    have S: "b < - (9223372036854775808 div a) \<longleftrightarrow> a * b < - 9223372036854775808"
      using div_less_iff [of a 9223372036854775808 "- b"] 4 by (auto simp: mult.commute)
    have "a * b < 0" using 4 by (simp add: mult_less_0_iff)
    with 4 show ?thesis
      by (simp add: sqlite3MulInt64_def c_div_pos S) (auto simp: i64s)
  next
    case 5
    have pos: "0 < a * b" using 5 by (simp add: zero_less_mult_iff)
    have L: "LARGEST_INT64 div (- b) < - a \<longleftrightarrow> LARGEST_INT64 < a * b"
      using div_less_iff [of "- b" LARGEST_INT64 "- a"] 5 by simp
    have big: "2 ^ 63 * 1 \<le> x * y" if "2 ^ 63 \<le> x" "1 \<le> y" for x y :: int
      using that by (intro mult_mono) auto
    have A: "2 ^ 63 \<le> a * b" if "a = SMALLEST_INT64"
      using big [of "- a" "- b"] that 5 by (simp add: i64s)
    have B: "2 ^ 63 \<le> a * b" if "b = SMALLEST_INT64"
      using big [of "- b" "- a"] that 5 by (simp add: i64s mult.commute)
    show ?thesis
    proof (cases "a = SMALLEST_INT64 \<or> b = SMALLEST_INT64")
      case True
      with A B 5 show ?thesis by (auto simp: sqlite3MulInt64_def i64s)
    next
      case False
      then have "i64_range (- a)" "i64_range (- b)" using assms by (auto simp: i64s)
      with False L 5 pos show ?thesis by (auto simp: sqlite3MulInt64_def c_div_pos i64_def) (auto simp: i64s)
    qed
  qed (use assms in \<open>auto simp: sqlite3MulInt64_def c_div_pos i64s\<close>)
qed

section \<open>Accuracy of the estimates\<close>

lemma LogEst_down1_shift: "8 \<le> x \<Longrightarrow> \<exists>j. LogEst_down1 x y = (x div 2 ^ j, y + 10 * int j) \<and> 8 \<le> x div 2 ^ j \<and> x div 2 ^ j \<le> 15"
proof (induction x y rule: LogEst_down1.induct)
  case (1 x y)
  show ?case
  proof (cases "x > 15")
    case True
    then have "8 \<le> x div 2" by simp
    from 1(1) [OF True this] obtain j where
      "LogEst_down1 (x div 2) (y + 10) = (x div 2 div 2 ^ j, y + 10 + 10 * int j)"
      "8 \<le> x div 2 div 2 ^ j" "x div 2 div 2 ^ j \<le> 15" by blast
    with True show ?thesis
      by (intro exI [of _ "Suc j"]) (simp add: LogEst_down1.simps [of x y] div_mult2_eq)
  next
    case False
    with 1(2) show ?thesis by (intro exI [of _ 0]) (simp add: LogEst_down1.simps [of x y])
  qed
qed

lemma LogEst_down4_shift: "8 \<le> x \<Longrightarrow> \<exists>j. LogEst_down4 x y = (x div 2 ^ j, y + 10 * int j) \<and> 8 \<le> x div 2 ^ j"
proof (induction x y rule: LogEst_down4.induct)
  case (1 x y)
  show ?case
  proof (cases "x > 255")
    case True
    then have "8 \<le> x div 16" by simp
    from 1(1) [OF True this] obtain j where
      "LogEst_down4 (x div 16) (y + 40) = (x div 16 div 2 ^ j, y + 40 + 10 * int j)"
      "8 \<le> x div 16 div 2 ^ j" by blast
    moreover have "x div 16 div 2 ^ j = x div 2 ^ (4 + j)" by (simp add: power_add div_mult2_eq)
    ultimately show ?thesis using True
      by (intro exI [of _ "4 + j"]) (simp add: LogEst_down4.simps [of x y])
  next
    case False
    with 1(2) show ?thesis by (intro exI [of _ 0]) (simp add: LogEst_down4.simps [of x y])
  qed
qed

definition log_est_ok :: "nat \<Rightarrow> LogEst \<Rightarrow> bool" where
  "log_est_ok x e \<longleftrightarrow> 0 \<le> e \<and> 2 ^ nat e \<le> 2 * x ^ 10 \<and> x ^ 10 < 4 * 2 ^ nat e"

lemma LogEst_small: "x \<in> {2..7} \<Longrightarrow> (case LogEst_up x 40 of (x', y) \<Rightarrow> log_est_ok x (LogEst_a ! (x' mod 8) + y - 10))"
proof -
  assume "x \<in> {2..7}"
  then have "x = 2 \<or> x = 3 \<or> x = 4 \<or> x = 5 \<or> x = 6 \<or> x = 7" by auto
  then show ?thesis
    by (elim disjE) (simp_all add: LogEst_up.simps LogEst_a_def log_est_ok_def)
qed

lemma LogEst_mantissa: "8 \<le> m \<Longrightarrow> m \<le> 15 \<Longrightarrow> 2 ^ nat (LogEst_a ! (m mod 8) + 30) \<le> 2 * m ^ 10 \<and> (m + 1) ^ 10 \<le> (4::nat) * 2 ^ nat (LogEst_a ! (m mod 8) + 30) \<and> 0 \<le> LogEst_a ! (m mod 8)"
proof -
  assume "8 \<le> m" "m \<le> 15"
  then have "m = 8 \<or> m = 9 \<or> m = 10 \<or> m = 11 \<or> m = 12 \<or> m = 13 \<or> m = 14 \<or> m = 15" by auto
  then show ?thesis by (elim disjE) (simp_all add: LogEst_a_def)
qed

lemma LogEst_within: "0 < x \<Longrightarrow> log_est_ok (unat x) (sqlite3LogEst x)"
proof -
  assume x: "0 < x"
  consider "unat x = 1" | "unat x \<in> {2..7}" | "8 \<le> unat x"
  proof -
    have "0 < unat x" using x by (auto simp: unat_gt_0)
    then show thesis using that by fastforce
  qed
  then show ?thesis
  proof cases
    case 3
    obtain j where j: "LogEst_down4 (unat x) 40 = (unat x div 2 ^ j, 40 + 10 * int j)" "8 \<le> unat x div 2 ^ j"
      using LogEst_down4_shift [OF 3] by blast
    obtain k where k: "LogEst_down1 (unat x div 2 ^ j) (40 + 10 * int j) =
       (unat x div 2 ^ j div 2 ^ k, 40 + 10 * int j + 10 * int k)" "8 \<le> unat x div 2 ^ j div 2 ^ k" "unat x div 2 ^ j div 2 ^ k \<le> 15"
      using LogEst_down1_shift [OF j(2)] by blast
    define i where "i = j + k"
    define m where "m = unat x div 2 ^ i"
    have m: "unat x div 2 ^ j div 2 ^ k = m" by (simp add: m_def i_def power_add div_mult2_eq)
    define e where "e = LogEst_a ! (m mod 8) + 30"
    have b: "2 ^ nat e \<le> 2 * m ^ 10" "(m + 1) ^ 10 \<le> 4 * 2 ^ nat e" "0 \<le> e"
      using LogEst_mantissa [of m] k(2,3) m by (auto simp: e_def)
    have le: "m * 2 ^ i \<le> unat x" by (simp add: m_def)
    have less: "unat x < (m + 1) * 2 ^ i"
      using div_less_iff_less_mult [of "2 ^ i" "unat x" "m + 1"] by (simp add: m_def)
    have res: "sqlite3LogEst x = e + 10 * int i"
      using 3 j k by (simp add: sqlite3LogEst_def m e_def i_def)
    have "(2::nat) ^ nat (e + 10 * int i) = 2 ^ nat e * (2 ^ i) ^ 10"
      using b(3) by (simp add: nat_add_distrib power_add nat_mult_distrib power_mult [symmetric] mult.commute)
    moreover have "2 ^ nat e * (2 ^ i) ^ 10 \<le> 2 * m ^ 10 * (2 ^ i) ^ 10" using b(1) by simp
    moreover have "m ^ 10 * (2 ^ i) ^ 10 \<le> unat x ^ 10"
      using power_mono [OF le, of 10] by (simp add: power_mult_distrib)
    moreover have "unat x ^ 10 < ((m + 1) * 2 ^ i) ^ 10" using less by (rule power_strict_mono) auto
    moreover have "((m + 1) * 2 ^ i) ^ 10 \<le> 4 * 2 ^ nat e * (2 ^ i) ^ 10"
      unfolding power_mult_distrib using b(2) by (rule mult_right_mono) simp
    ultimately show ?thesis using b(3) unfolding log_est_ok_def res by linarith
  qed (use LogEst_small [of "unat x"] in \<open>auto simp: sqlite3LogEst_def log_est_ok_def split: prod.splits\<close>)
qed

lemma LogEstAdd_comm: "sqlite3LogEstAdd a b = sqlite3LogEstAdd b a"
  by (simp add: sqlite3LogEstAdd_def)

lemma LogEstAdd_x_range: "i \<le> 31 \<Longrightarrow> 2 \<le> LogEstAdd_x ! i \<and> LogEstAdd_x ! i \<le> 10"
proof -
  have "list_all (\<lambda>v. 2 \<le> v \<and> v \<le> 10) LogEstAdd_x" by (simp add: LogEstAdd_x_def)
  then show "i \<le> 31 \<Longrightarrow> ?thesis" by (simp add: list_all_length LogEstAdd_x_def)
qed
lemma LogEstAdd_x_int: "0 \<le> d \<Longrightarrow> d \<le> 31 \<Longrightarrow> 2 \<le> LogEstAdd_x ! nat d \<and> LogEstAdd_x ! nat d \<le> 10"
  by (rule LogEstAdd_x_range) simp
lemma LogEstAdd_bounds: "max a b \<le> sqlite3LogEstAdd a b \<and> sqlite3LogEstAdd a b \<le> max a b + 10"
  using LogEstAdd_x_int [of "a - b"] LogEstAdd_x_int [of "b - a"]
  by (auto simp: sqlite3LogEstAdd_def)

section \<open>Properties\<close>

text \<open>On 64-bit operands the checked addition, subtraction and multiplication never run
  into undefined behaviour; they return 0 and the exact result when it fits in 64 bits, and
  otherwise return 1 and leave the operand as it was.\<close>

theorem checked_arithmetic:
  assumes "i64_range a" and "i64_range b"
  shows "sqlite3AddInt64 a b = Some (if i64_range (a + b) then (0, a + b) else (1, a)) \<and>
    sqlite3SubInt64 a b = Some (if i64_range (a - b) then (0, a - b) else (1, a)) \<and>
    sqlite3MulInt64 a b = Some (if i64_range (a * b) then (0, a * b) else (1, a))"
  using AddInt64_exact [OF assms] SubInt64_exact [OF assms] MulInt64_exact [OF assms] by blast

theorem checked_arithmetic_witness:
  "sqlite3AddInt64 LARGEST_INT64 1 = Some (1, LARGEST_INT64) \<and>
   sqlite3SubInt64 (-1) SMALLEST_INT64 = Some (0, LARGEST_INT64) \<and>
   sqlite3MulInt64 SMALLEST_INT64 (-1) = Some (1, SMALLEST_INT64)"
  using checked_arithmetic [of LARGEST_INT64 1] checked_arithmetic [of "-1" SMALLEST_INT64]
    checked_arithmetic [of SMALLEST_INT64 "-1"]
  by (simp add: i64_range_def LARGEST_INT64_def SMALLEST_INT64_def)

text \<open>sqlite3LogEst x is ten times the binary logarithm of x, rounded, for every
  positive 64-bit x: writing e for the result, 2^e is at most twice x^10 and more than a
  quarter of it.\<close>

theorem LogEst_accurate:
  assumes "0 < x"
  shows "0 \<le> sqlite3LogEst x \<and> 2 ^ nat (sqlite3LogEst x) \<le> 2 * unat x ^ 10 \<and>
    unat x ^ 10 < 4 * 2 ^ nat (sqlite3LogEst x)"
  using LogEst_within [OF assms] by (simp add: log_est_ok_def)

theorem LogEst_accurate_witness: "(2::nat) ^ nat (sqlite3LogEst 1000) \<le> 2 * 1000 ^ 10"
  using LogEst_accurate [of 1000] by simp

end
