(* ===== verification/PosixLock.thy ===== *)
theory PosixLock
  imports Prelude "HOL-Library.Multiset"
begin

text \<open>
  The advisory file locks of the unix VFS (\<open>sqlite3.c\<close>, part \<open>os_unix.c\<close>):
  \<open>unixCheckReservedLock\<close>, \<open>unixFileLock\<close>, \<open>unixLock\<close>, \<open>posixUnlock\<close>,
  \<open>unixUnlock\<close>, \<open>closePendingFds\<close>.  The operating system (fcntl, fstat, close, malloc) is a parameter:
  a record of functions on an abstract OS state, so that every theorem without a hypothesis
  on it holds whatever the system calls return.  Mutexes are not modelled: each operation
  runs under the inode mutex and is one atomic step.  The compiled branch is the one
  of linux (no \<open>__APPLE__\<close>, no \<open>OS_VXWORKS\<close>, no debug counters).  The library is compiled without
  \<open>SQLITE_DEBUG\<close>, so NDEBUG is defined and \<open>assert\<close> expands to nothing: the definitions have no
  assertions, as the compiled code has none.  What the callers owe \<open>unixLock\<close> by its assertions is
  \<open>lock_request\<close>; that the assertion of \<open>unixFileLock\<close> on \<open>nLock\<close> does not always hold is shown in
  \<open>VfsRuns\<close>.
\<close>

section \<open>Constants\<close>

abbreviation (input) "NO_LOCK \<equiv> (0 :: int)"
abbreviation (input) "SHARED_LOCK \<equiv> (1 :: int)"
abbreviation (input) "RESERVED_LOCK \<equiv> (2 :: int)"
abbreviation (input) "PENDING_LOCK \<equiv> (3 :: int)"
abbreviation (input) "EXCLUSIVE_LOCK \<equiv> (4 :: int)"

definition PENDING_BYTE :: int where "PENDING_BYTE = 0x40000000"
definition RESERVED_BYTE :: int where "RESERVED_BYTE = PENDING_BYTE + 1"
definition SHARED_FIRST :: int where "SHARED_FIRST = PENDING_BYTE + 2"
definition SHARED_SIZE :: int where "SHARED_SIZE = 510"

abbreviation (input) "UNIXFILE_EXCL \<equiv> (0x01 :: u16)"
abbreviation (input) "UNIXFILE_RDONLY \<equiv> (0x02 :: u16)"

abbreviation (input) "SQLITE_PERM \<equiv> (3 :: rc)"
abbreviation (input) "SQLITE_IOERR_UNLOCK \<equiv> (2058 :: rc)"
abbreviation (input) "SQLITE_IOERR_RDLOCK \<equiv> (2314 :: rc)"
abbreviation (input) "SQLITE_IOERR_CHECKRESERVEDLOCK \<equiv> (3594 :: rc)"
abbreviation (input) "SQLITE_IOERR_LOCK \<equiv> (3850 :: rc)"

datatype errno = EACCES | EAGAIN | ETIMEDOUT | EBUSY | EINTR | ENOLCK | EPERM | EISDIR | Eother int | Enone

section \<open>The structures\<close>

datatype ltype = F_RDLCK | F_WRLCK | F_UNLCK

text \<open>\<open>l_whence\<close> is \<open>SEEK_SET\<close> throughout.\<close>

record flock =
  l_type :: ltype
  l_start :: int
  l_len :: int

type_synonym fileId = "nat \<times> nat"  \<comment> \<open>device and inode number\<close>

record UnixUnusedFd =
  uu_fd :: int
  uu_flags :: u32

record unixFile =
  uf_pInode :: "fileId option"
  uf_h :: int
  uf_eFileLock :: int
  uf_ctrlFlags :: u16
  uf_lastErrno :: errno
  uf_pPreallocatedUnused :: "UnixUnusedFd option"

record unixInodeInfo =
  ino_nShared :: int
  ino_nLock :: int
  ino_eFileLock :: int
  ino_bProcessLock :: bool
  ino_pUnused :: "UnixUnusedFd list"
  ino_nRef :: int

record 'os os_ops =
  osFcntl_SETLK :: "int \<Rightarrow> flock \<Rightarrow> 'os \<Rightarrow> int \<times> errno \<times> 'os"
  osFcntl_GETLK :: "int \<Rightarrow> flock \<Rightarrow> 'os \<Rightarrow> int \<times> errno \<times> ltype \<times> 'os"
  osFstat :: "int \<Rightarrow> 'os \<Rightarrow> int \<times> errno \<times> fileId \<times> 'os"
  osStat :: "string \<Rightarrow> 'os \<Rightarrow> int \<times> fileId \<times> 'os"
  osOpen :: "string \<Rightarrow> u32 \<Rightarrow> 'os \<Rightarrow> int \<times> errno \<times> 'os"
  osClose :: "int \<Rightarrow> 'os \<Rightarrow> 'os"
  osMalloc :: "'os \<Rightarrow> bool \<times> 'os"

text \<open>A locking operation works on one \<open>unixFile\<close>, its inode and the OS.\<close>

record 'os lkstate =
  pFile :: unixFile
  pInode :: unixInodeInfo
  os :: 'os

section \<open>Locking\<close>

definition sqliteErrorFromPosixError :: "errno \<Rightarrow> rc \<Rightarrow> rc" where
  "sqliteErrorFromPosixError posixError sqliteIOErr =
     (case posixError of
        EACCES \<Rightarrow> SQLITE_BUSY | EAGAIN \<Rightarrow> SQLITE_BUSY | ETIMEDOUT \<Rightarrow> SQLITE_BUSY
      | EBUSY \<Rightarrow> SQLITE_BUSY | EINTR \<Rightarrow> SQLITE_BUSY | ENOLCK \<Rightarrow> SQLITE_BUSY
      | EPERM \<Rightarrow> SQLITE_PERM | _ \<Rightarrow> sqliteIOErr)"

definition storeLastErrno :: "errno \<Rightarrow> 'os lkstate \<Rightarrow> 'os lkstate" where
  "storeLastErrno e c = c\<lparr>pFile := (pFile c)\<lparr>uf_lastErrno := e\<rparr>\<rparr>"

definition set_file_lock :: "int \<Rightarrow> 'os lkstate \<Rightarrow> 'os lkstate" where
  "set_file_lock l c = c\<lparr>pFile := (pFile c)\<lparr>uf_eFileLock := l\<rparr>\<rparr>"

definition set_inode_lock :: "int \<Rightarrow> 'os lkstate \<Rightarrow> 'os lkstate" where
  "set_inode_lock l c = c\<lparr>pInode := (pInode c)\<lparr>ino_eFileLock := l\<rparr>\<rparr>"

definition add_nLock :: "int \<Rightarrow> 'os lkstate \<Rightarrow> 'os lkstate" where
  "add_nLock d c = c\<lparr>pInode := (pInode c)\<lparr>ino_nLock := ino_nLock (pInode c) + d\<rparr>\<rparr>"

definition set_nShared :: "int \<Rightarrow> 'os lkstate \<Rightarrow> 'os lkstate" where
  "set_nShared n c = c\<lparr>pInode := (pInode c)\<lparr>ino_nShared := n\<rparr>\<rparr>"

definition osSetPosixAdvisoryLock :: "'os os_ops \<Rightarrow> flock \<Rightarrow> 'os lkstate \<Rightarrow> int \<times> errno \<times> 'os lkstate"
where
  "osSetPosixAdvisoryLock ops lock c =
     (let (r, e, w) = osFcntl_SETLK ops (uf_h (pFile c)) lock (os c) in (r, e, c\<lparr>os := w\<rparr>))"

text \<open>Result: the return value, \<open>errno\<close> after the call, the new state.\<close>

definition unixFileLock :: "'os os_ops \<Rightarrow> flock \<Rightarrow> 'os lkstate \<Rightarrow> int \<times> errno \<times> 'os lkstate" where
  "unixFileLock ops pLock c =
     (if uf_ctrlFlags (pFile c) AND (UNIXFILE_EXCL OR UNIXFILE_RDONLY) = UNIXFILE_EXCL
      then if \<not> ino_bProcessLock (pInode c)
           then let (rc, e, c) = osSetPosixAdvisoryLock ops
                      \<lparr>l_type = F_WRLCK, l_start = SHARED_FIRST, l_len = SHARED_SIZE\<rparr> c
                in if rc < 0 then (rc, e, c)
                   else (rc, e, add_nLock 1 (c\<lparr>pInode := (pInode c)\<lparr>ino_bProcessLock := True\<rparr>\<rparr>))
           else (0, Enone, c)
      else osSetPosixAdvisoryLock ops pLock c)"

text \<open>The tail of \<open>unixLock\<close> after the lock attempt, before \<open>end_lock\<close>.\<close>

definition unixLock_finish :: "int \<Rightarrow> rc \<Rightarrow> 'os lkstate \<Rightarrow> rc \<times> 'os lkstate" where
  "unixLock_finish eFileLock rc c =
     (if rc = SQLITE_OK then (rc, set_inode_lock eFileLock (set_file_lock eFileLock c))
      else if eFileLock = EXCLUSIVE_LOCK
      then (rc, set_inode_lock PENDING_LOCK (set_file_lock PENDING_LOCK c))
      else (rc, c))"

text \<open>The branch that acquires a SHARED lock with the read lock on the pending byte held.\<close>

definition unixLock_shared :: "'os os_ops \<Rightarrow> ltype \<Rightarrow> 'os lkstate \<Rightarrow> rc \<times> 'os lkstate" where
  "unixLock_shared ops ty c =
     (let (r, e, c) = unixFileLock ops \<lparr>l_type = ty, l_start = SHARED_FIRST, l_len = SHARED_SIZE\<rparr> c;
          (rc, tErrno) = (if r \<noteq> 0 then (sqliteErrorFromPosixError e SQLITE_IOERR_LOCK, e)
                          else (SQLITE_OK, Enone));
          (r, e, c) = unixFileLock ops \<lparr>l_type = F_UNLCK, l_start = PENDING_BYTE, l_len = 1\<rparr> c;
          (rc, tErrno) = (if r \<noteq> 0 \<and> rc = SQLITE_OK then (SQLITE_IOERR_UNLOCK, e)
                          else (rc, tErrno))
      in if rc \<noteq> SQLITE_OK
         then (rc, if rc \<noteq> SQLITE_BUSY then storeLastErrno tErrno c else c)
         else unixLock_finish SHARED_LOCK rc
                (set_nShared 1 (add_nLock 1 (set_file_lock SHARED_LOCK c))))"

definition unixLock :: "'os os_ops \<Rightarrow> int \<Rightarrow> 'os lkstate \<Rightarrow> rc \<times> 'os lkstate" where
  "unixLock ops eFileLock c =
     (let f = pFile c; n = pInode c in
      if uf_eFileLock f \<ge> eFileLock then (SQLITE_OK, c)
      else if uf_eFileLock f \<noteq> ino_eFileLock n
              \<and> (ino_eFileLock n \<ge> PENDING_LOCK \<or> eFileLock > SHARED_LOCK)
      then (SQLITE_BUSY, c)
      else if eFileLock = SHARED_LOCK
              \<and> (ino_eFileLock n = SHARED_LOCK \<or> ino_eFileLock n = RESERVED_LOCK)
      then (SQLITE_OK, add_nLock 1 (set_nShared (ino_nShared n + 1) (set_file_lock SHARED_LOCK c)))
      else
        let ty = (if eFileLock = SHARED_LOCK then F_RDLCK else F_WRLCK);
            (r, e, c) =
              (if eFileLock = SHARED_LOCK
                  \<or> (eFileLock = EXCLUSIVE_LOCK \<and> uf_eFileLock f < PENDING_LOCK)
               then unixFileLock ops \<lparr>l_type = ty, l_start = PENDING_BYTE, l_len = 1\<rparr> c
               else (0, Enone, c))
        in if r \<noteq> 0
           then let rc = sqliteErrorFromPosixError e SQLITE_IOERR_LOCK
                in (rc, if rc \<noteq> SQLITE_BUSY then storeLastErrno e c else c)
           else if eFileLock = SHARED_LOCK then unixLock_shared ops ty c
           else if eFileLock = EXCLUSIVE_LOCK \<and> ino_nShared (pInode c) > 1
           then unixLock_finish eFileLock SQLITE_BUSY c
           else
             let lock = (if eFileLock = RESERVED_LOCK
                         then \<lparr>l_type = F_WRLCK, l_start = RESERVED_BYTE, l_len = 1\<rparr>
                         else \<lparr>l_type = F_WRLCK, l_start = SHARED_FIRST, l_len = SHARED_SIZE\<rparr>);
                 (r, e, c) = unixFileLock ops lock c
             in if r \<noteq> 0
                then let rc = sqliteErrorFromPosixError e SQLITE_IOERR_LOCK
                     in unixLock_finish eFileLock rc
                          (if rc \<noteq> SQLITE_BUSY then storeLastErrno e c else c)
                else unixLock_finish eFileLock SQLITE_OK c)"

definition unixCheckReservedLock :: "'os os_ops \<Rightarrow> 'os lkstate \<Rightarrow> rc \<times> bool \<times> 'os lkstate" where
  "unixCheckReservedLock ops c =
     (let reserved = ino_eFileLock (pInode c) > SHARED_LOCK
      in if \<not> reserved \<and> \<not> ino_bProcessLock (pInode c)
         then let (r, e, ty, w) = osFcntl_GETLK ops (uf_h (pFile c))
                    \<lparr>l_type = F_WRLCK, l_start = RESERVED_BYTE, l_len = 1\<rparr> (os c);
                  c = c\<lparr>os := w\<rparr>
              in if r \<noteq> 0
                 then (SQLITE_IOERR_CHECKRESERVEDLOCK, reserved, storeLastErrno e c)
                 else (SQLITE_OK, ty \<noteq> F_UNLCK, c)
         else (SQLITE_OK, reserved, c))"

section \<open>Unlocking\<close>

text \<open>\<open>closePendingFds\<close>: close every descriptor whose close was deferred.\<close>

definition closePendingFds :: "'os os_ops \<Rightarrow> 'os lkstate \<Rightarrow> 'os lkstate" where
  "closePendingFds ops c =
     c\<lparr>os := fold (osClose ops) (map uu_fd (ino_pUnused (pInode c))) (os c),
       pInode := (pInode c)\<lparr>ino_pUnused := []\<rparr>\<rparr>"

text \<open>The part of \<open>posixUnlock\<close> for \<open>eFileLock==NO_LOCK\<close>, and the exit.\<close>

definition posixUnlock_none :: "'os os_ops \<Rightarrow> 'os lkstate \<Rightarrow> rc \<times> 'os lkstate" where
  "posixUnlock_none ops c =
     (let c = set_nShared (ino_nShared (pInode c) - 1) c;
          (rc, c) =
            (if ino_nShared (pInode c) = 0
             then let (r, e, c) = unixFileLock ops \<lparr>l_type = F_UNLCK, l_start = 0, l_len = 0\<rparr> c
                  in if r = 0 then (SQLITE_OK, set_inode_lock NO_LOCK c)
                     else (SQLITE_IOERR_UNLOCK,
                           set_file_lock NO_LOCK (set_inode_lock NO_LOCK (storeLastErrno e c)))
             else (SQLITE_OK, c));
          c = add_nLock (-1) c;
          c = (if ino_nLock (pInode c) = 0 then closePendingFds ops c else c)
      in (rc, c))"

definition posixUnlock :: "'os os_ops \<Rightarrow> int \<Rightarrow> 'os lkstate \<Rightarrow> rc \<times> 'os lkstate" where
  "posixUnlock ops eFileLock c =
     (if uf_eFileLock (pFile c) \<le> eFileLock then (SQLITE_OK, c)
      else
        let (rc, c) =
          (if uf_eFileLock (pFile c) > SHARED_LOCK
           then
             let (r, e, c) =
               (if eFileLock = SHARED_LOCK
                then unixFileLock ops \<lparr>l_type = F_RDLCK, l_start = SHARED_FIRST, l_len = SHARED_SIZE\<rparr> c
                else (0, Enone, c))
             in if r \<noteq> 0 then (SQLITE_IOERR_RDLOCK, storeLastErrno e c)
                else
                  let (r, e, c) = unixFileLock ops \<lparr>l_type = F_UNLCK, l_start = PENDING_BYTE, l_len = 2\<rparr> c
                  in if r = 0 then (SQLITE_OK, set_inode_lock SHARED_LOCK c)
                     else (SQLITE_IOERR_UNLOCK, storeLastErrno e c)
           else (SQLITE_OK, c))
        in if rc \<noteq> SQLITE_OK then (rc, c)
           else
             let (rc, c) = (if eFileLock = NO_LOCK then posixUnlock_none ops c else (SQLITE_OK, c))
             in (rc, if rc = SQLITE_OK then set_file_lock eFileLock c else c))"

definition unixUnlock :: "'os os_ops \<Rightarrow> int \<Rightarrow> 'os lkstate \<Rightarrow> rc \<times> 'os lkstate" where
  "unixUnlock ops eFileLock c = posixUnlock ops eFileLock c"

section \<open>The invariant of an inode\<close>

text \<open>\<open>inode_ok v L\<close>: the counters \<open>v\<close> of an inode describe the multiset \<open>L\<close> of the lock
  levels held on it.\<close>

definition inode_view :: "unixInodeInfo \<Rightarrow> int \<times> int \<times> int" where
  "inode_view n =
     (ino_nShared n, ino_nLock n - of_bool (ino_bProcessLock n), ino_eFileLock n)"

definition inode_ok :: "int \<times> int \<times> int \<Rightarrow> int multiset \<Rightarrow> bool" where
  "inode_ok = (\<lambda>(s, b, i) L.
     s = int (size {#l \<in># L. 0 < l#}) \<and> b = s \<and>
     (\<forall>l \<in># L. 0 \<le> l \<and> l \<le> i) \<and> (i = NO_LOCK \<or> i \<in># L) \<and> 0 \<le> i \<and> i \<le> EXCLUSIVE_LOCK \<and>
     size {#l \<in># L. SHARED_LOCK < l#} \<le> 1 \<and> (i = EXCLUSIVE_LOCK \<longrightarrow> s = 1))"

text \<open>What the first three assertions of \<open>unixLock\<close> demand of a request: a hypothesis of the
  theorems, kept by the callers in the pager.\<close>

definition lock_request :: "int \<Rightarrow> int \<Rightarrow> bool" where
  "lock_request held req \<longleftrightarrow>
     (held \<noteq> NO_LOCK \<or> req = SHARED_LOCK) \<and> (req = SHARED_LOCK \<or> req = RESERVED_LOCK \<or> req = EXCLUSIVE_LOCK) \<and>
     (req = RESERVED_LOCK \<longrightarrow> held = SHARED_LOCK)"

text \<open>The lock state of a handle and its inode: the handle's level, and the inode's
  \<open>nShared\<close>, \<open>nLock\<close> without the process lock, and level.\<close>

definition lock_view :: "'os lkstate \<Rightarrow> int \<times> int \<times> int \<times> int" where
  "lock_view c =
     (uf_eFileLock (pFile c), ino_nShared (pInode c),
      ino_nLock (pInode c) - of_bool (ino_bProcessLock (pInode c)), ino_eFileLock (pInode c))"

text \<open>Everything else that a locking operation must not touch.\<close>

definition lock_frame :: "'os lkstate \<Rightarrow> unixFile \<times> UnixUnusedFd list \<times> int" where
  "lock_frame c = ((pFile c)\<lparr>uf_eFileLock := 0, uf_lastErrno := Enone\<rparr>,
     ino_pUnused (pInode c), ino_nRef (pInode c))"

lemmas setters = storeLastErrno_def set_file_lock_def set_inode_lock_def add_nLock_def
  set_nShared_def

lemma unixFileLock_view:
  assumes "unixFileLock ops lk c = (r, e, c')"
  shows "lock_view c' = lock_view c \<and> lock_frame c' = lock_frame c"
  using assms by (auto simp: unixFileLock_def osSetPosixAdvisoryLock_def lock_view_def lock_frame_def
      setters Let_def split: if_splits prod.splits)

lemma lock_view_setters [simp]:
  assumes "lock_view c = (l, s, b, i)"
  shows "lock_view (storeLastErrno e c) = (l, s, b, i)"
    and "lock_view (set_file_lock l' c) = (l', s, b, i)"
    and "lock_view (set_inode_lock i' c) = (l, s, b, i')"
    and "lock_view (add_nLock d c) = (l, s, b + d, i)"
    and "lock_view (set_nShared s' c) = (l, s', b, i)"
  using assms by (auto simp: lock_view_def setters)

lemma lock_view_read:
  assumes "lock_view c = (l, s, b, i)"
  shows "uf_eFileLock (pFile c) = l" and "ino_nShared (pInode c) = s" and "ino_eFileLock (pInode c) = i"
    and "ino_nLock (pInode c) = b + of_bool (ino_bProcessLock (pInode c))"
  using assms by (auto simp: lock_view_def)

lemma lock_frame_setters [simp]:
  "lock_frame (storeLastErrno e c) = lock_frame c" "lock_frame (set_file_lock l' c) = lock_frame c"
  "lock_frame (set_inode_lock i' c) = lock_frame c" "lock_frame (add_nLock d c) = lock_frame c"
  "lock_frame (set_nShared s' c) = lock_frame c"
  by (auto simp: lock_frame_def setters)

text \<open>The possible outcomes of \<open>unixLock\<close>: result code and lock view.\<close>

definition lock_outcome :: "int \<Rightarrow> int \<times> int \<times> int \<times> int \<Rightarrow> rc \<Rightarrow> int \<times> int \<times> int \<times> int \<Rightarrow> bool" where
  "lock_outcome e = (\<lambda>(l, s, b, i) rc v'.
     (if l \<ge> e then rc = SQLITE_OK \<and> v' = (l, s, b, i)
      else if l \<noteq> i \<and> (i \<ge> PENDING_LOCK \<or> e > SHARED_LOCK) then rc = SQLITE_BUSY \<and> v' = (l, s, b, i)
      else if e = SHARED_LOCK \<and> (i = SHARED_LOCK \<or> i = RESERVED_LOCK)
      then rc = SQLITE_OK \<and> v' = (SHARED_LOCK, s + 1, b + 1, i)
      else (rc \<noteq> SQLITE_OK \<and> v' = (l, s, b, i)) \<or>
           (rc = SQLITE_OK \<and> e = SHARED_LOCK \<and> v' = (SHARED_LOCK, 1, b + 1, SHARED_LOCK)) \<or>
           (rc = SQLITE_OK \<and> e \<noteq> SHARED_LOCK \<and> (e = EXCLUSIVE_LOCK \<longrightarrow> s \<le> 1) \<and> v' = (e, s, b, e)) \<or>
           (rc \<noteq> SQLITE_OK \<and> e = EXCLUSIVE_LOCK \<and> v' = (PENDING_LOCK, s, b, PENDING_LOCK))))"

lemma posix_error_not_ok: "sqliteErrorFromPosixError e SQLITE_IOERR_LOCK \<noteq> SQLITE_OK"
  by (simp add: sqliteErrorFromPosixError_def split: errno.splits)

lemma unixLock_shared_view:
  assumes "unixLock_shared ops ty c = (rc, c')" and "lock_view c = (l, s, b, i)"
  shows "(rc \<noteq> SQLITE_OK \<and> lock_view c' = (l, s, b, i)) \<or>
         (rc = SQLITE_OK \<and> lock_view c' = (SHARED_LOCK, 1, b + 1, SHARED_LOCK))"
  using assms
  by (auto simp: unixLock_shared_def unixLock_finish_def posix_error_not_ok Let_def
      split: if_splits prod.splits dest!: unixFileLock_view)

lemma unixLock_outcome:
  assumes "unixLock ops e c = (rc, c')" and "lock_view c = (l, s, b, i)"
    and "e = SHARED_LOCK \<or> e = RESERVED_LOCK \<or> e = EXCLUSIVE_LOCK"
  shows "lock_outcome e (l, s, b, i) rc (lock_view c')"
proof -
  have [simp]: "uf_eFileLock (pFile c) = l" "ino_eFileLock (pInode c) = i" "ino_nShared (pInode c) = s"
    using assms(2) by (auto simp: lock_view_read)
  show ?thesis
  proof (cases "e = SHARED_LOCK")
    case True
    then show ?thesis
      using assms(1,2)
      by (auto simp: unixLock_def lock_outcome_def posix_error_not_ok Let_def
          split: if_splits prod.splits dest!: unixFileLock_view dest: unixLock_shared_view)
  next
    case False
    then show ?thesis
      using assms
      by (auto simp: unixLock_def lock_outcome_def posix_error_not_ok Let_def unixLock_finish_def lock_view_read
          split: if_splits prod.splits dest!: unixFileLock_view)
  qed
qed

lemma unixLock_frame: "unixLock ops e c = (rc, c') \<Longrightarrow> lock_frame c' = lock_frame c"
  by (auto simp: unixLock_def unixLock_shared_def unixLock_finish_def Let_def
      split: if_splits prod.splits dest!: unixFileLock_view)

lemma lock_view_closePendingFds [simp]: "lock_view (closePendingFds ops c) = lock_view c"
  by (simp add: closePendingFds_def lock_view_def)

text \<open>\<open>posixUnlock_none\<close> by its view: the last lock of the inode takes the level to NO_LOCK
  even when the system call fails.\<close>

lemma posixUnlock_none_view:
  assumes "posixUnlock_none ops c = (rc, c')" and "lock_view c = (l, s, b, i)"
  shows "rc = SQLITE_OK \<and> lock_view c' = (l, s - 1, b - 1, if s = 1 then NO_LOCK else i) \<or>
         rc = SQLITE_IOERR_UNLOCK \<and> s = 1 \<and> lock_view c' = (NO_LOCK, 0, b - 1, NO_LOCK)"
  using assms
  by (auto simp: posixUnlock_none_def Let_def lock_view_read
      split: if_splits prod.splits dest!: unixFileLock_view)

definition unlock_outcome :: "int \<Rightarrow> int \<times> int \<times> int \<times> int \<Rightarrow> rc \<Rightarrow> int \<times> int \<times> int \<times> int \<Rightarrow> bool" where
  "unlock_outcome e = (\<lambda>(l, s, b, i) rc v'.
     (if l \<le> e then rc = SQLITE_OK \<and> v' = (l, s, b, i)
      else let i' = (if l > SHARED_LOCK then SHARED_LOCK else i)
           in (rc \<noteq> SQLITE_OK \<and> l > SHARED_LOCK \<and> v' = (l, s, b, i)) \<or>
              (rc = SQLITE_OK \<and> e \<noteq> NO_LOCK \<and> v' = (e, s, b, i')) \<or>
              (rc = SQLITE_OK \<and> e = NO_LOCK
                \<and> v' = (NO_LOCK, s - 1, b - 1, if s = 1 then NO_LOCK else i')) \<or>
              (rc \<noteq> SQLITE_OK \<and> e = NO_LOCK \<and> s = 1 \<and> v' = (NO_LOCK, 0, b - 1, NO_LOCK))))"

lemma posixUnlock_outcome:
  assumes "posixUnlock ops e c = (rc, c')" and "lock_view c = (l, s, b, i)"
  shows "unlock_outcome e (l, s, b, i) rc (lock_view c')"
proof -
  have [simp]: "uf_eFileLock (pFile c) = l" "ino_eFileLock (pInode c) = i" "ino_nShared (pInode c) = s"
    using assms(2) by (auto simp: lock_view_read)
  show ?thesis
    using assms
    by (auto simp: posixUnlock_def unlock_outcome_def Let_def
        split: if_splits prod.splits dest!: unixFileLock_view dest: posixUnlock_none_view)
qed

section \<open>The invariant is kept\<close>

lemma size_filter_0: "size {#l \<in># L. P l#} = 0 \<longleftrightarrow> (\<forall>l \<in># L. \<not> P l)"
  by (induction L) auto

lemma size_filter_pos: "x \<in># L \<Longrightarrow> P x \<Longrightarrow> 0 < size {#l \<in># L. P l#}"
  using size_filter_0 [of P L] by auto

lemma no_gt: "\<forall>x \<in># M. x \<le> k \<Longrightarrow> {#x \<in># M. k < x#} = {#}" for k :: int
  by (metis not_less size_eq_0_iff_empty size_filter_0)

lemma inode_ok_iff:
  "inode_ok (s, b, i) (add_mset l M) \<longleftrightarrow>
     s = of_bool (0 < l) + int (size {#x \<in># M. 0 < x#}) \<and> b = s \<and>
     0 \<le> l \<and> l \<le> i \<and> (\<forall>x \<in># M. 0 \<le> x \<and> x \<le> i) \<and> (i = NO_LOCK \<or> i = l \<or> i \<in># M) \<and>
     i \<le> EXCLUSIVE_LOCK \<and> (SHARED_LOCK < l \<longrightarrow> (\<forall>x \<in># M. x \<le> SHARED_LOCK)) \<and>
     size {#x \<in># M. SHARED_LOCK < x#} \<le> 1 \<and> (i = EXCLUSIVE_LOCK \<longrightarrow> s = 1)"
proof -
  have "size {#x \<in># M. SHARED_LOCK < x#} = 0 \<longleftrightarrow> (\<forall>x \<in># M. x \<le> SHARED_LOCK)"
    by (metis not_less size_filter_0)
  then show ?thesis
    by (auto simp: inode_ok_def no_gt simp del: size_eq_0_iff_empty)
qed

lemma lock_outcome_cases:
  assumes "inode_ok (s, b, i) (add_mset l M)" and "lock_request l e"
    and "lock_outcome e (l, s, b, i) rc v'"
  obtains (same) "v' = (l, s, b, i)"
  | (share) "l = NO_LOCK" "i = SHARED_LOCK \<or> i = RESERVED_LOCK" "v' = (SHARED_LOCK, s + 1, b + 1, i)"
  | (first) "l = NO_LOCK" "i = NO_LOCK" "v' = (SHARED_LOCK, 1, b + 1, SHARED_LOCK)"
  | (raise) k where "SHARED_LOCK \<le> l" "i = l" "l < k" "SHARED_LOCK < k" "k \<le> EXCLUSIVE_LOCK" "v' = (k, s, b, k)"
      "k = EXCLUSIVE_LOCK \<longrightarrow> s \<le> 1"
proof (cases "v' = (l, s, b, i)")
  case False
  have range: "0 \<le> l" "l \<le> i" "i \<le> 4"
    using assms(1) by (auto simp: inode_ok_iff)
  consider "e = 1" | "e = 2" | "e = 4"
    using assms(2) by (auto simp: lock_request_def)
  then show ?thesis
  proof cases
    assume e: "e = 1"
    then have l: "l = 0"
      using assms(3) False range by (auto simp: lock_outcome_def split: if_splits)
    consider "i = 0" | "i = 1" | "i = 2" | "i = 3" | "i = 4" using range l by linarith
    then show ?thesis
      using assms(3) False e l that by cases (auto simp: lock_outcome_def)
  next
    assume "e = 2"
    then show ?thesis
      using assms(2,3) False range that(4) [of 2]
      by (auto simp: lock_outcome_def lock_request_def split: if_splits)
  next
    assume "e = 4"
    then show ?thesis
      using assms(2,3) False range that(4) [of 4] that(4) [of 3] that(1)
      by (cases "l < 3") (auto simp: lock_outcome_def lock_request_def split: if_splits)
  qed
qed (rule that(1))

lemma lock_outcome_ok:
  assumes ok: "inode_ok (s, b, i) (add_mset l M)" and req: "lock_request l e"
    and out: "lock_outcome e (l, s, b, i) rc (l', s', b', i')"
  shows "inode_ok (s', b', i') (add_mset l' M)"
  using ok req out
proof (cases rule: lock_outcome_cases)
  case same
  then show ?thesis using ok by simp
next
  case share
  then show ?thesis using ok by (auto simp: inode_ok_iff)
next
  case first
  moreover from this have "\<forall>x \<in># M. x = 0" using ok by (auto simp: inode_ok_iff)
  moreover from this have "{#x \<in># M. 0 < x#} = {#}" by (metis no_gt order_refl)
  ultimately show ?thesis using ok by (auto simp: inode_ok_iff)
next
  case (raise k)
  have M: "\<forall>x \<in># M. x \<le> 1"
    using ok raise by (cases "l = 1") (auto simp: inode_ok_iff)
  then have "{#x \<in># M. 1 < x#} = {#}" by (rule no_gt)
  then show ?thesis using ok raise M by (auto simp: inode_ok_iff)
qed

lemma unlock_outcome_ok:
  assumes ok: "inode_ok (s, b, i) (add_mset l M)" and e: "e = NO_LOCK \<or> e = SHARED_LOCK"
    and out: "unlock_outcome e (l, s, b, i) rc (l', s', b', i')"
  shows "inode_ok (s', b', i') (add_mset l' M)"
proof (cases "l \<le> e")
  case True
  then show ?thesis using ok out by (simp add: unlock_outcome_def)
next
  case False
  have ok1: "inode_ok (s, b, 1) (add_mset 1 M)" if "1 < l"
  proof -
    have M: "\<forall>x \<in># M. x \<le> 1" using ok that by (auto simp: inode_ok_iff)
    then have "{#x \<in># M. 1 < x#} = {#}" by (rule no_gt)
    then show ?thesis using ok that M by (auto simp: inode_ok_iff)
  qed
  have low: "inode_ok (s - 1, b - 1, if s = 1 then 0 else j) (add_mset 0 M)"
    if "inode_ok (s, b, j) (add_mset 1 M)" for j
  proof (cases "s = 1")
    case True
    then have "size {#x \<in># M. 0 < x#} = 0" using that by (simp add: inode_ok_iff)
    then have "\<forall>x \<in># M. x \<le> 0" by (metis not_less size_filter_0)
    moreover have "\<forall>x \<in># M. 0 \<le> x" using that by (auto simp: inode_ok_iff)
    ultimately have "\<forall>x \<in># M. x = 0" by (metis order_antisym)
    then show ?thesis using that True by (auto simp: inode_ok_iff)
  next
    case False
    then have "size {#x \<in># M. 0 < x#} \<noteq> 0" using that by (auto simp: inode_ok_iff)
    then obtain x where "x \<in># M" "0 < x" by (metis not_less size_filter_0)
    moreover from this have "x \<le> j" using that by (auto simp: inode_ok_iff)
    moreover have "1 \<le> j" "j = 1 \<or> j \<in># M" using that by (auto simp: inode_ok_iff)
    ultimately have "j \<in># M" by (metis int_one_le_iff_zero_less order_antisym)
    then show ?thesis using that False by (auto simp: inode_ok_iff)
  qed
  let ?i = "if SHARED_LOCK < l then SHARED_LOCK else i"
  have one: "inode_ok (s, b, ?i) (add_mset 1 M)"
    using ok ok1 False e by (cases "l = 1") (auto simp: inode_ok_iff)
  have zero: "inode_ok (0, 0, 0) (add_mset 0 M)" if "s = 1"
    using low [OF one] that one by (simp add: inode_ok_iff)
  have "b = s" using ok by (simp add: inode_ok_iff)
  consider "(l', s', b', i') = (l, s, b, i)" | "e = 1" "(l', s', b', i') = (1, s, b, ?i)"
    | "(l', s', b', i') = (0, s - 1, b - 1, if s = 1 then 0 else ?i)"
    | "s = 1" "(l', s', b', i') = (0, 0, b - 1, 0)"
    using out e False unfolding unlock_outcome_def Let_def prod.case if_not_P [OF False] by metis
  then show ?thesis
    using ok one low [OF one] zero \<open>b = s\<close> by cases simp_all
qed

end
