(* ===== verification/UnixVfs.thy ===== *)
theory UnixVfs
  imports PosixLock
begin

text \<open>
  Opening and closing database files in the unix VFS (\<open>sqlite3.c\<close>, part \<open>os_unix.c\<close>):
  \<open>findInodeInfo\<close>, \<open>releaseInodeInfo\<close>, \<open>setPendingFd\<close>, \<open>closeUnixFile\<close>, \<open>unixClose\<close>,
  \<open>findReusableFd\<close>, and \<open>fillInUnixFile\<close> and \<open>unixOpen\<close> for a main database file.  The state
  has every open handle and the list of inodes; the step relation runs the VFS operations of
  one process on it, in any order, on any number of handles, with arbitrary results of the
  system calls and arbitrary changes of the OS state between them.  Left out is \<open>verifyDbFile\<close>,
  which \<open>fillInUnixFile\<close> and \<open>unixClose\<close> call: it examines the file with fstat and stat and only
  writes warnings to the log.
\<close>

section \<open>State\<close>

text \<open>\<open>v_inode\<close> is the list \<open>inodeList\<close>, as the map its linear search computes.\<close>

record 'os vfs =
  v_file :: "nat \<rightharpoonup> unixFile"
  v_inode :: "fileId \<rightharpoonup> unixInodeInfo"
  v_os :: 'os

abbreviation (input) "SQLITE_OPEN_READONLY \<equiv> (0x01 :: u32)"
abbreviation (input) "SQLITE_OPEN_READWRITE \<equiv> (0x02 :: u32)"
abbreviation (input) "SQLITE_OPEN_CREATE \<equiv> (0x04 :: u32)"
abbreviation (input) "SQLITE_OPEN_URI \<equiv> (0x40 :: u32)"
abbreviation (input) "SQLITE_CANTOPEN \<equiv> (14 :: rc)"
abbreviation (input) "UNIXFILE_PSOW \<equiv> (0x10 :: u16)"
abbreviation (input) "UNIXFILE_URI \<equiv> (0x40 :: u16)"

section \<open>Operations\<close>

text \<open>A locking operation on the handle \<open>i\<close>; \<open>None\<close> when the handle is not open.\<close>

definition on_handle ::
    "('os lkstate \<Rightarrow> 'r \<times> 'os lkstate) \<Rightarrow> nat \<Rightarrow> 'os vfs \<Rightarrow> ('r \<times> 'os vfs) option" where
  "on_handle opn i s = do {
     f \<leftarrow> v_file s i;
     k \<leftarrow> uf_pInode f;
     n \<leftarrow> v_inode s k;
     let (r, c) = opn \<lparr>pFile = f, pInode = n, os = v_os s\<rparr>;
     Some (r, s\<lparr>v_file := (v_file s)(i \<mapsto> pFile c), v_inode := (v_inode s)(k \<mapsto> pInode c), v_os := os c\<rparr>)
   }"

text \<open>\<open>findInodeInfo\<close>: the result code, the inode found (its key), the handle and the state.
  The two allocations are the inode and its mutex.\<close>

definition findInodeInfo ::
    "'os os_ops \<Rightarrow> unixFile \<Rightarrow> 'os vfs \<Rightarrow> rc \<times> fileId option \<times> unixFile \<times> 'os vfs" where
  "findInodeInfo ops f s =
     (let (r, e, k, w) = osFstat ops (uf_h f) (v_os s); s = s\<lparr>v_os := w\<rparr>
      in if r \<noteq> 0 then (SQLITE_IOERR, None, f\<lparr>uf_lastErrno := e\<rparr>, s)
         else case v_inode s k of
           None \<Rightarrow>
             let (a, w) = osMalloc ops (v_os s); s = s\<lparr>v_os := w\<rparr>
             in if \<not> a then (SQLITE_NOMEM, None, f, s)
                else
                  let (a, w) = osMalloc ops (v_os s); s = s\<lparr>v_os := w\<rparr>
                  in if \<not> a then (SQLITE_NOMEM, None, f, s)
                     else (SQLITE_OK, Some k, f,
                           s\<lparr>v_inode := (v_inode s)(k \<mapsto>
                              \<lparr>ino_nShared = 0, ino_nLock = 0, ino_eFileLock = NO_LOCK,
                               ino_bProcessLock = False, ino_pUnused = [], ino_nRef = 1\<rparr>)\<rparr>)
         | Some n \<Rightarrow>
             (SQLITE_OK, Some k, f, s\<lparr>v_inode := (v_inode s)(k \<mapsto> n\<lparr>ino_nRef := ino_nRef n + 1\<rparr>)\<rparr>))"

definition findReusableFd :: "'os os_ops \<Rightarrow> string \<Rightarrow> u32 \<Rightarrow> 'os vfs \<Rightarrow> UnixUnusedFd option \<times> 'os vfs" where
  "findReusableFd ops zPath flags s =
     (if v_inode s = Map.empty then (None, s)
      else let (r, k, w) = osStat ops zPath (v_os s); s = s\<lparr>v_os := w\<rparr>
           in if r \<noteq> 0 then (None, s)
              else case v_inode s k of
                None \<Rightarrow> (None, s)
              | Some n \<Rightarrow>
                  (case find (\<lambda>u. uu_flags u = flags) (ino_pUnused n) of
                     None \<Rightarrow> (None, s)
                   | Some u \<Rightarrow> (Some u, s\<lparr>v_inode := (v_inode s)(k \<mapsto> n\<lparr>ino_pUnused :=
                       takeWhile (\<lambda>u. uu_flags u \<noteq> flags) (ino_pUnused n)
                       @ tl (dropWhile (\<lambda>u. uu_flags u \<noteq> flags) (ino_pUnused n))\<rparr>)\<rparr>)))"

text \<open>\<open>fillInUnixFile\<close> for a file with posix locking: \<open>excl\<close> is the test for the VFS name
  \<open>unix-excl\<close>, \<open>psow\<close> the value of the URI parameter.  A handle is stored only when the result
  is SQLITE_OK (the caller ignores the structure otherwise).\<close>

definition fillInUnixFile ::
    "'os os_ops \<Rightarrow> bool \<Rightarrow> bool \<Rightarrow> nat \<Rightarrow> int \<Rightarrow> UnixUnusedFd \<Rightarrow> u16 \<Rightarrow> 'os vfs \<Rightarrow> rc \<times> 'os vfs" where
  "fillInUnixFile ops excl psow i h pre ctrlFlags s =
     (let f = \<lparr>uf_pInode = None, uf_h = h, uf_eFileLock = NO_LOCK,
               uf_ctrlFlags = (ctrlFlags AND 0xff) OR (if psow then UNIXFILE_PSOW else 0)
                  OR (if excl then UNIXFILE_EXCL else 0),
               uf_lastErrno = Enone, uf_pPreallocatedUnused = Some pre\<rparr>;
          (rc, k, f, s) = findInodeInfo ops f s
      in if rc \<noteq> SQLITE_OK then (rc, s\<lparr>v_os := osClose ops h (v_os s)\<rparr>)
         else (rc, s\<lparr>v_file := (v_file s)(i \<mapsto> f\<lparr>uf_pInode := k, uf_lastErrno := Enone\<rparr>)\<rparr>))"

text \<open>\<open>unixOpen\<close> with \<open>eType==SQLITE_OPEN_MAIN_DB\<close> and without the URI parameter \<open>modeof\<close>.
  \<open>osOpen\<close> stands for \<open>robust_open\<close>; it is given the SQLITE_OPEN flags.\<close>

definition unixOpen :: "'os os_ops \<Rightarrow> bool \<Rightarrow> bool \<Rightarrow> nat \<Rightarrow> string \<Rightarrow> u32 \<Rightarrow> 'os vfs \<Rightarrow> rc \<times> 'os vfs" where
  "unixOpen ops excl psow i zPath flags s =
     (let (reuse, s) = findReusableFd ops zPath flags s;
          isReadonly = (flags AND SQLITE_OPEN_READONLY \<noteq> 0);
          isReadWrite = (flags AND SQLITE_OPEN_READWRITE \<noteq> 0);
          (ok, fd, s) =
            (case reuse of Some u \<Rightarrow> (True, uu_fd u, s)
             | None \<Rightarrow> let (a, w) = osMalloc ops (v_os s) in (a, -1, s\<lparr>v_os := w\<rparr>))
      in if \<not> ok then (SQLITE_NOMEM, s)
         else
           let (fd, flags, isReadonly, s) =
                 (if fd \<ge> 0 then (fd, flags, isReadonly, s)
                  else
                    let (fd, e, w) = osOpen ops zPath flags (v_os s); s = s\<lparr>v_os := w\<rparr>
                    in if fd < 0 \<and> e \<noteq> EISDIR \<and> isReadWrite
                       then let flags = (flags AND NOT (SQLITE_OPEN_READWRITE OR SQLITE_OPEN_CREATE))
                                  OR SQLITE_OPEN_READONLY;
                                (fd, e, w) = osOpen ops zPath flags (v_os s)
                            in (fd, flags, True, s\<lparr>v_os := w\<rparr>)
                       else (fd, flags, isReadonly, s))
           in if fd < 0 then (SQLITE_CANTOPEN, s)
              else fillInUnixFile ops excl psow i fd \<lparr>uu_fd = fd, uu_flags = flags\<rparr>
                     ((if isReadonly then UNIXFILE_RDONLY else 0)
                      OR (if flags AND SQLITE_OPEN_URI \<noteq> 0 then UNIXFILE_URI else 0)) s)"

text \<open>\<open>setPendingFd\<close> on the handle and its inode; \<open>None\<close> is the null dereference when nothing
  was preallocated.\<close>

definition setPendingFd :: "unixFile \<Rightarrow> unixInodeInfo \<Rightarrow> (unixFile \<times> unixInodeInfo) option" where
  "setPendingFd f n = do {
     p \<leftarrow> uf_pPreallocatedUnused f;
     Some (f\<lparr>uf_h := -1, uf_pPreallocatedUnused := None\<rparr>, n\<lparr>ino_pUnused := p # ino_pUnused n\<rparr>)
   }"

text \<open>\<open>releaseInodeInfo\<close>: with the last reference the deferred closes are done and the inode
  leaves the list.\<close>

definition releaseInodeInfo :: "'os os_ops \<Rightarrow> fileId \<Rightarrow> unixInodeInfo \<Rightarrow> 'os vfs \<Rightarrow> 'os vfs" where
  "releaseInodeInfo ops k n s =
     (let n = n\<lparr>ino_nRef := ino_nRef n - 1\<rparr>
      in if ino_nRef n = 0
         then s\<lparr>v_os := fold (osClose ops) (map uu_fd (ino_pUnused n)) (v_os s),
                v_inode := (v_inode s)(k := None)\<rparr>
         else s\<lparr>v_inode := (v_inode s)(k \<mapsto> n)\<rparr>)"

text \<open>\<open>closeUnixFile\<close> closes the descriptor unless its close was deferred, and clears the
  handle.\<close>

definition closeUnixFile :: "'os os_ops \<Rightarrow> nat \<Rightarrow> unixFile \<Rightarrow> 'os vfs \<Rightarrow> rc \<times> 'os vfs" where
  "closeUnixFile ops i f s =
     (SQLITE_OK, s\<lparr>v_os := (if uf_h f \<ge> 0 then osClose ops (uf_h f) (v_os s) else v_os s),
                   v_file := (v_file s)(i := None)\<rparr>)"

definition unixClose :: "'os os_ops \<Rightarrow> nat \<Rightarrow> 'os vfs \<Rightarrow> (rc \<times> 'os vfs) option" where
  "unixClose ops i s = do {
     (_, s) \<leftarrow> on_handle (unixUnlock ops NO_LOCK) i s;
     f \<leftarrow> v_file s i;
     k \<leftarrow> uf_pInode f;
     n \<leftarrow> v_inode s k;
     (f, n) \<leftarrow> (if ino_nLock n \<noteq> 0 then setPendingFd f n else Some (f, n));
     let s = releaseInodeInfo ops k n s;
     Some (closeUnixFile ops i f s)
   }"

section \<open>Runs of the VFS\<close>

inductive vfs_step :: "'os os_ops \<Rightarrow> 'os vfs \<Rightarrow> 'os vfs \<Rightarrow> bool" for ops where
  step_open: "v_file s i = None \<Longrightarrow> unixOpen ops excl psow i z flags s = (rc, s') \<Longrightarrow> vfs_step ops s s'"
| step_lock: "v_file s i = Some f \<Longrightarrow> lock_request (uf_eFileLock f) e \<Longrightarrow>
    on_handle (unixLock ops e) i s = Some (rc, s') \<Longrightarrow> vfs_step ops s s'"
| step_unlock: "e = NO_LOCK \<or> e = SHARED_LOCK \<Longrightarrow>
    on_handle (unixUnlock ops e) i s = Some (rc, s') \<Longrightarrow> vfs_step ops s s'"
| step_check: "on_handle (\<lambda>c. let (rc, r, c) = unixCheckReservedLock ops c in ((rc, r), c)) i s
      = Some (r, s') \<Longrightarrow> vfs_step ops s s'"
| step_close: "unixClose ops i s = Some (rc, s') \<Longrightarrow> vfs_step ops s s'"
| step_os: "vfs_step ops s (s\<lparr>v_os := w\<rparr>)"

inductive vfs_reachable :: "'os os_ops \<Rightarrow> 'os vfs \<Rightarrow> bool" for ops where
  reach_init: "vfs_reachable ops \<lparr>v_file = Map.empty, v_inode = Map.empty, v_os = w\<rparr>"
| reach_step: "vfs_reachable ops s \<Longrightarrow> vfs_step ops s s' \<Longrightarrow> vfs_reachable ops s'"

inductive_cases vfs_stepE: "vfs_step ops s s'"

declare split_paired_All [simp del] split_paired_Ex [simp del]

section \<open>The levels held on an inode\<close>

definition holders :: "(nat \<rightharpoonup> unixFile) \<Rightarrow> fileId \<Rightarrow> nat set" where
  "holders m k = {i. \<exists>f. m i = Some f \<and> uf_pInode f = Some k}"

definition levels :: "(nat \<rightharpoonup> unixFile) \<Rightarrow> fileId \<Rightarrow> int multiset" where
  "levels m k = image_mset (\<lambda>i. uf_eFileLock (the (m i))) (mset_set (holders m k))"

lemma finite_holders: "finite (dom m) \<Longrightarrow> finite (holders m k)"
  by (rule finite_subset [of _ "dom m"]) (auto simp: holders_def)

lemma holders_upd:
  "holders (m(i \<mapsto> f)) k = (if uf_pInode f = Some k then insert i else id) (holders (m(i := None)) k)"
  by (auto simp: holders_def)

lemma levels_upd:
  assumes "finite (dom m)"
  shows "levels (m(i \<mapsto> f)) k =
    (if uf_pInode f = Some k then {#uf_eFileLock f#} else {#}) + levels (m(i := None)) k"
proof -
  let ?A = "holders (m(i := None)) k"
  have fin: "finite ?A" using assms by (intro finite_holders) simp
  have i: "i \<notin> ?A" by (simp add: holders_def)
  have "image_mset (\<lambda>j. uf_eFileLock (the ((m(i \<mapsto> f)) j))) (mset_set ?A)
      = image_mset (\<lambda>j. uf_eFileLock (the ((m(i := None)) j))) (mset_set ?A)"
    using i fin by (intro image_mset_cong) auto
  then show ?thesis
    using fin i by (simp add: levels_def holders_upd)
qed

lemma levels_member:
  assumes "finite (dom m)" and "m i = Some f" and "uf_pInode f = Some k"
  shows "levels m k = add_mset (uf_eFileLock f) (levels (m(i := None)) k)"
  using levels_upd [OF assms(1), of i f k] assms(2,3) by (simp add: map_upd_triv)

lemma levels_empty: "(\<And>i f. m i = Some f \<Longrightarrow> uf_pInode f \<noteq> Some k) \<Longrightarrow> levels m k = {#}"
proof -
  assume "\<And>i f. m i = Some f \<Longrightarrow> uf_pInode f \<noteq> Some k"
  then have "holders m k = {}" by (auto simp: holders_def)
  then show ?thesis by (simp add: levels_def)
qed

section \<open>The invariant\<close>

text \<open>\<open>G\<close> collects the levels of handles that were closed although the unlock failed: the inode
  still counts them.\<close>

definition inode_inv :: "(nat \<rightharpoonup> unixFile) \<Rightarrow> fileId \<Rightarrow> unixInodeInfo \<Rightarrow> bool" where
  "inode_inv m k n \<longleftrightarrow> ino_nRef n = int (size (levels m k)) \<and> 0 < ino_nRef n \<and>
     (\<exists>G. inode_ok (inode_view n) (levels m k + G))"

definition file_inv :: "(fileId \<rightharpoonup> unixInodeInfo) \<Rightarrow> unixFile \<Rightarrow> bool" where
  "file_inv N f \<longleftrightarrow> (\<exists>k u. uf_pInode f = Some k \<and> k \<in> dom N \<and>
     uf_pPreallocatedUnused f = Some u \<and> uu_fd u = uf_h f \<and> 0 \<le> uf_h f)"

definition vfs_inv :: "'os vfs \<Rightarrow> bool" where
  "vfs_inv s \<longleftrightarrow> finite (dom (v_file s)) \<and>
     (\<forall>i f. v_file s i = Some f \<longrightarrow> file_inv (v_inode s) f) \<and>
     (\<forall>k n. v_inode s k = Some n \<longrightarrow> inode_inv (v_file s) k n)"

lemma vfs_inv_inode: "vfs_inv s \<Longrightarrow> v_inode s k = Some n \<Longrightarrow> inode_inv (v_file s) k n"
  by (simp add: vfs_inv_def del: split_paired_All)

lemma vfs_inv_file: "vfs_inv s \<Longrightarrow> v_file s i = Some f \<Longrightarrow> file_inv (v_inode s) f"
  by (simp add: vfs_inv_def)

lemma inode_inv_cong:
  "inode_inv m k n \<Longrightarrow> levels m' k = levels m k \<Longrightarrow> ino_nRef n' = ino_nRef n \<Longrightarrow>
    inode_view n' = inode_view n \<Longrightarrow> inode_inv m' k n'"
  by (simp add: inode_inv_def)

lemma file_inv_mono [simp]: "file_inv N f \<Longrightarrow> file_inv (N(k \<mapsto> n)) f"
  by (auto simp: file_inv_def)

lemma vfs_invI:
  assumes "finite (dom (v_file s))"
    and "\<And>i f. v_file s i = Some f \<Longrightarrow> file_inv (v_inode s) f"
    and "\<And>k n. v_inode s k = Some n \<Longrightarrow> inode_inv (v_file s) k n"
  shows "vfs_inv s"
  using assms by (simp add: vfs_inv_def)

lemma vfs_inv_init: "vfs_inv \<lparr>v_file = Map.empty, v_inode = Map.empty, v_os = w\<rparr>"
  by (simp add: vfs_inv_def)

lemma vfs_inv_os [simp]: "vfs_inv (s\<lparr>v_os := w\<rparr>) = vfs_inv s"
  by (simp add: vfs_inv_def)

text \<open>What an operation on one handle must keep.\<close>

definition keeps_inode :: "'os lkstate \<Rightarrow> 'os lkstate \<Rightarrow> bool" where
  "keeps_inode c c' \<longleftrightarrow>
     (pFile c')\<lparr>uf_eFileLock := 0, uf_lastErrno := Enone\<rparr> = (pFile c)\<lparr>uf_eFileLock := 0, uf_lastErrno := Enone\<rparr> \<and>
     ino_nRef (pInode c') = ino_nRef (pInode c) \<and>
     (\<forall>M. inode_ok (inode_view (pInode c)) (add_mset (uf_eFileLock (pFile c)) M) \<longrightarrow>
          inode_ok (inode_view (pInode c')) (add_mset (uf_eFileLock (pFile c')) M))"

lemma same_file_fields:
  assumes "(f :: unixFile)\<lparr>uf_eFileLock := 0, uf_lastErrno := Enone\<rparr> = g\<lparr>uf_eFileLock := 0, uf_lastErrno := Enone\<rparr>"
  shows "uf_pInode f = uf_pInode g" and "uf_h f = uf_h g" and "uf_ctrlFlags f = uf_ctrlFlags g"
    and "uf_pPreallocatedUnused f = uf_pPreallocatedUnused g"
  using assms by (cases f; cases g; simp)+

lemma on_handle_inv:
  assumes inv: "vfs_inv s" and run: "on_handle opn i s = Some (r, s')"
    and keep: "\<And>f k n c' r. v_file s i = Some f \<Longrightarrow> opn \<lparr>pFile = f, pInode = n, os = v_os s\<rparr> = (r, c') \<Longrightarrow>
      keeps_inode \<lparr>pFile = f, pInode = n, os = v_os s\<rparr> c'"
  shows "vfs_inv s'"
proof -
  obtain f k n c' where f: "v_file s i = Some f" "uf_pInode f = Some k" "v_inode s k = Some n"
    and op: "opn \<lparr>pFile = f, pInode = n, os = v_os s\<rparr> = (r, c')"
    and s': "s' = s\<lparr>v_file := (v_file s)(i \<mapsto> pFile c'), v_inode := (v_inode s)(k \<mapsto> pInode c'),
      v_os := os c'\<rparr>"
    using run by (auto simp: on_handle_def Let_def split: Option.bind_splits prod.splits)
  have k: "keeps_inode \<lparr>pFile = f, pInode = n, os = v_os s\<rparr> c'" using keep [OF f(1) op] .
  then have same: "uf_pInode (pFile c') = Some k" "uf_h (pFile c') = uf_h f"
    "uf_pPreallocatedUnused (pFile c') = uf_pPreallocatedUnused f"
    using same_file_fields [of "pFile c'" f] f by (simp_all add: keeps_inode_def)
  have fin: "finite (dom (v_file s))" using inv by (simp add: vfs_inv_def)
  let ?R = "levels ((v_file s)(i := None))"
  have old: "levels (v_file s) k = add_mset (uf_eFileLock f) (?R k)"
    using levels_member [OF fin f(1,2)] .
  have new: "levels ((v_file s)(i \<mapsto> pFile c')) k' = (if k' = k then add_mset (uf_eFileLock (pFile c')) (?R k)
      else levels (v_file s) k')" for k'
    using levels_upd [OF fin, of i "pFile c'" k'] levels_upd [OF fin, of i f k'] f same
    by (auto simp: map_upd_triv)
  have "inode_inv (v_file s) k n" using vfs_inv_inode [OF inv f(3)] .
  then obtain G where "inode_ok (inode_view n) (add_mset (uf_eFileLock f) (?R k + G))"
    and ref: "ino_nRef n = int (size (?R k)) + 1"
    by (auto simp: inode_inv_def old)
  then have "inode_inv ((v_file s)(i \<mapsto> pFile c')) k (pInode c')"
    using k by (auto simp: inode_inv_def new keeps_inode_def)
  moreover have "inode_inv ((v_file s)(i \<mapsto> pFile c')) k' n'"
    if "v_inode s k' = Some n'" "k' \<noteq> k" for k' n'
    using inode_inv_cong [OF vfs_inv_inode [OF inv that(1)]] that(2) by (simp add: new)
  moreover have "file_inv ((v_inode s)(k \<mapsto> pInode c')) f'"
    if "((v_file s)(i \<mapsto> pFile c')) j = Some f'" for j f'
    using inv that f same by (auto simp: file_inv_def vfs_inv_def split: if_splits) blast+
  ultimately show ?thesis
    using fin by (auto simp: vfs_inv_def s')
qed

section \<open>Every operation keeps the invariant\<close>

lemma lock_view_inode: "lock_view c = (uf_eFileLock (pFile c), inode_view (pInode c))"
  by (simp add: lock_view_def inode_view_def)

lemma unixLock_keeps:
  assumes "unixLock ops e c = (rc, c')" and "lock_request (uf_eFileLock (pFile c)) e"
  shows "keeps_inode c c'"
proof -
  obtain s b i where v: "inode_view (pInode c) = (s, b, i)" by (cases "inode_view (pInode c)")
  obtain s' b' i' where v': "inode_view (pInode c') = (s', b', i')" by (cases "inode_view (pInode c')")
  have "lock_outcome e (uf_eFileLock (pFile c), s, b, i) rc (uf_eFileLock (pFile c'), s', b', i')"
    using unixLock_outcome [OF assms(1), of _ s b i] assms(2) v v'
    by (auto simp: lock_view_inode lock_request_def)
  then show ?thesis
    using lock_outcome_ok [OF _ assms(2)] unixLock_frame [OF assms(1)] v v'
    by (auto simp: keeps_inode_def lock_frame_def)
qed

lemma posixUnlock_none_frame:
  assumes "posixUnlock_none ops c = (rc, c')"
  shows "fst (lock_frame c') = fst (lock_frame c) \<and> ino_nRef (pInode c') = ino_nRef (pInode c)"
  using assms
  by (auto simp: posixUnlock_none_def closePendingFds_def Let_def lock_frame_def setters
      split: if_splits prod.splits dest!: unixFileLock_view)

lemma unixUnlock_keeps:
  assumes "unixUnlock ops e c = (rc, c')" and e: "e = NO_LOCK \<or> e = SHARED_LOCK"
  shows "keeps_inode c c'"
proof -
  have run: "posixUnlock ops e c = (rc, c')" using assms(1) by (simp add: unixUnlock_def)
  obtain s b i where v: "inode_view (pInode c) = (s, b, i)" by (cases "inode_view (pInode c)")
  obtain s' b' i' where v': "inode_view (pInode c') = (s', b', i')" by (cases "inode_view (pInode c')")
  have "unlock_outcome e (uf_eFileLock (pFile c), s, b, i) rc (uf_eFileLock (pFile c'), s', b', i')"
    using posixUnlock_outcome [OF run, of _ s b i] v v' by (auto simp: lock_view_inode)
  moreover have "fst (lock_frame c') = fst (lock_frame c) \<and> ino_nRef (pInode c') = ino_nRef (pInode c)"
    using run
    by (auto simp: posixUnlock_def Let_def lock_frame_def setters split: if_splits prod.splits
        dest!: unixFileLock_view posixUnlock_none_frame)
  ultimately show ?thesis
    using unlock_outcome_ok [OF _ e] v v'
    by (auto simp: keeps_inode_def lock_frame_def)
qed

lemma unixCheckReservedLock_keeps:
  "unixCheckReservedLock ops c = (rc, r, c') \<Longrightarrow> keeps_inode c c'"
  by (auto simp: unixCheckReservedLock_def keeps_inode_def storeLastErrno_def Let_def
      split: if_splits prod.splits)

text \<open>Opening.\<close>

lemma vfs_inv_pUnused:
  assumes "vfs_inv s" and "v_inode s k = Some n"
  shows "vfs_inv (s\<lparr>v_os := w, v_inode := (v_inode s)(k \<mapsto> n\<lparr>ino_pUnused := us\<rparr>)\<rparr>)"
proof (rule vfs_invI)
  fix k' n'
  assume "v_inode (s\<lparr>v_os := w, v_inode := (v_inode s)(k \<mapsto> n\<lparr>ino_pUnused := us\<rparr>)\<rparr>) k' = Some n'"
  then show "inode_inv (v_file (s\<lparr>v_os := w, v_inode := (v_inode s)(k \<mapsto> n\<lparr>ino_pUnused := us\<rparr>)\<rparr>)) k' n'"
    using vfs_inv_inode [OF assms] vfs_inv_inode [OF assms(1), of k']
    by (auto simp: inode_inv_def inode_view_def split: if_splits)
qed (use assms in \<open>auto simp: vfs_inv_def\<close>)

lemma findReusableFd_inv:
  "findReusableFd ops z flags s = (u, s') \<Longrightarrow> vfs_inv s \<Longrightarrow>
    vfs_inv s' \<and> v_file s' = v_file s"
  by (auto simp: findReusableFd_def Let_def vfs_inv_pUnused
      split: if_splits prod.splits option.splits)

lemma inode_ok_zero: "inode_ok v L \<Longrightarrow> inode_ok v (add_mset 0 L)"
  by (auto simp: inode_ok_def split: prod.splits)

lemma inode_inv_open:
  assumes "inode_inv m k n0" and "levels m' k = add_mset 0 (levels m k)"
    and "inode_view n = inode_view n0" and "ino_nRef n = ino_nRef n0 + 1"
  shows "inode_inv m' k n"
proof -
  obtain G where "inode_ok (inode_view n0) (levels m k + G)"
    using assms(1) by (auto simp: inode_inv_def)
  from inode_ok_zero [OF this] show ?thesis
    using assms by (auto simp: inode_inv_def)
qed

lemma inode_ok_new: "inode_ok (0, 0, 0) {#0#}"
  by (simp add: inode_ok_def)

lemma fillInUnixFile_inv:
  assumes run: "fillInUnixFile ops excl psow i h pre fl s = (rc, s')"
    and inv: "vfs_inv s" and new: "v_file s i = None" and pre: "uu_fd pre = h" "0 \<le> h"
  shows "vfs_inv s'"
proof -
  define f where "f = \<lparr>uf_pInode = None, uf_h = h, uf_eFileLock = NO_LOCK,
               uf_ctrlFlags = (fl AND 0xff) OR (if psow then UNIXFILE_PSOW else 0)
                  OR (if excl then UNIXFILE_EXCL else 0),
               uf_lastErrno = Enone, uf_pPreallocatedUnused = Some pre\<rparr>"
  obtain r k f1 s1 where find: "findInodeInfo ops f s = (r, k, f1, s1)"
    by (cases "findInodeInfo ops f s") auto
  have fin: "finite (dom (v_file s))" using inv by (simp add: vfs_inv_def)
  have del: "(v_file s)(i := None) = v_file s" using new by (simp add: fun_upd_idem)
  show ?thesis
  proof (cases "r = SQLITE_OK")
    case False
    then have "vfs_inv s1"
      using find inv by (auto simp: findInodeInfo_def Let_def split: if_splits prod.splits option.splits)
    then show ?thesis
      using run find False by (auto simp: fillInUnixFile_def f_def [symmetric] Let_def)
  next
    case True
    then obtain k0 n w where k: "k = Some k0" "f1 = f"
      and s1: "s1 = s\<lparr>v_os := w, v_inode := (v_inode s)(k0 \<mapsto> n)\<rparr>"
      and n: "(v_inode s k0 = None \<and> inode_view n = (0, 0, 0) \<and> ino_nRef n = 1) \<or>
        (\<exists>n0. v_inode s k0 = Some n0 \<and> inode_view n = inode_view n0 \<and> ino_nRef n = ino_nRef n0 + 1)"
      using find
      by (auto simp: findInodeInfo_def Let_def inode_view_def split: if_splits prod.splits option.splits)
    let ?f = "f\<lparr>uf_pInode := Some k0, uf_lastErrno := Enone\<rparr>"
    have s': "s' = s1\<lparr>v_file := (v_file s)(i \<mapsto> ?f)\<rparr>"
      using run find True k s1 by (auto simp: fillInUnixFile_def f_def [symmetric] Let_def)
    have lev: "levels ((v_file s)(i \<mapsto> ?f)) k' = (if k' = k0 then add_mset 0 (levels (v_file s) k0)
        else levels (v_file s) k')" for k'
      using levels_upd [OF fin, of i ?f k'] del by (simp add: f_def)
    have "levels (v_file s) k0 = {#}" if "v_inode s k0 = None"
      using vfs_inv_file [OF inv] that by (intro levels_empty) (force simp: file_inv_def)
    then have "inode_inv ((v_file s)(i \<mapsto> ?f)) k0 n"
      using n inode_ok_new
    proof (elim disjE exE conjE)
      fix n0
      assume "v_inode s k0 = Some n0" "inode_view n = inode_view n0" "ino_nRef n = ino_nRef n0 + 1"
      then show ?thesis using inode_inv_open [OF vfs_inv_inode [OF inv]] by (simp add: lev)
    qed (auto simp: inode_inv_def lev intro!: exI [of _ "{#}"])
    moreover have "file_inv ((v_inode s)(k0 \<mapsto> n)) ?f"
      using pre by (simp add: file_inv_def f_def)
    moreover have "inode_inv ((v_file s)(i \<mapsto> ?f)) k' n'"
      if "v_inode s k' = Some n'" "k' \<noteq> k0" for k' n'
      using inode_inv_cong [OF vfs_inv_inode [OF inv that(1)]] that(2) by (simp add: lev)
    ultimately show ?thesis
      using inv by (auto simp: vfs_inv_def s' s1)
  qed
qed

lemma unixOpen_inv:
  assumes "unixOpen ops excl psow i z flags s = (rc, s')" and "vfs_inv s" and "v_file s i = None"
  shows "vfs_inv s'"
  using assms
  by (auto simp: unixOpen_def Let_def split: if_splits prod.splits option.splits
      dest!: findReusableFd_inv elim!: fillInUnixFile_inv)

text \<open>Closing.\<close>

lemma inode_inv_close:
  assumes "inode_inv m k n0" and "levels m k = add_mset l (levels m' k)" and "ino_nRef n0 \<noteq> 1"
    and "inode_view n = inode_view n0" and "ino_nRef n = ino_nRef n0 - 1"
  shows "inode_inv m' k n"
proof -
  obtain G where "inode_ok (inode_view n0) (levels m' k + add_mset l G)"
    using assms(1,2) by (auto simp: inode_inv_def)
  then have "\<exists>G. inode_ok (inode_view n) (levels m' k + G)"
    using assms(4) by metis
  then show ?thesis
    using assms by (auto simp: inode_inv_def nonempty_has_size)
qed

lemma closeUnixFile_inv:
  assumes inv: "vfs_inv s" and f: "v_file s i = Some f" and k: "uf_pInode f = Some k"
    and n: "v_inode s k = Some n" and n': "inode_view n' = inode_view n" "ino_nRef n' = ino_nRef n"
    and run: "closeUnixFile ops i f' (releaseInodeInfo ops k n' s) = (rc, s')"
  shows "vfs_inv s'"
proof -
  have fin: "finite (dom (v_file s))" using inv by (simp add: vfs_inv_def)
  let ?m = "(v_file s)(i := None)"
  have old: "levels (v_file s) k = add_mset (uf_eFileLock f) (levels ?m k)"
    using levels_member [OF fin f k] .
  have other: "levels ?m k' = levels (v_file s) k'" if "k' \<noteq> k" for k'
    using levels_upd [OF fin, of i f k'] f k that by (simp add: map_upd_triv)
  have vf: "v_file s' = ?m" using run by (auto simp: closeUnixFile_def releaseInodeInfo_def Let_def)
  have inode: "v_inode s' = (if ino_nRef n = 1 then (v_inode s)(k := None)
      else (v_inode s)(k \<mapsto> n'\<lparr>ino_nRef := ino_nRef n' - 1\<rparr>))"
    using run n' by (auto simp: closeUnixFile_def releaseInodeInfo_def Let_def)
  have ref: "ino_nRef n = int (size (levels ?m k)) + 1"
    using vfs_inv_inode [OF inv n] by (auto simp: inode_inv_def old)
  show ?thesis
  proof (rule vfs_invI)
    show "finite (dom (v_file s'))" using fin by (simp add: vf)
  next
    fix j g
    assume "v_file s' j = Some g"
    then have g: "j \<noteq> i" "v_file s j = Some g" by (auto simp: vf split: if_splits)
    have "uf_pInode g \<noteq> Some k" if "ino_nRef n = 1"
    proof
      assume "uf_pInode g = Some k"
      then have "levels ?m k \<noteq> {#}"
        using levels_member [of ?m j g k] g fin by simp
      then show False using ref that by simp
    qed
    then show "file_inv (v_inode s') g"
      using vfs_inv_file [OF inv g(2)] by (auto simp: inode file_inv_def)
  next
    fix k' m
    assume m: "v_inode s' k' = Some m"
    show "inode_inv (v_file s') k' m"
    proof (cases "k' = k")
      case True
      then show ?thesis
        using m n' inode_inv_close [OF vfs_inv_inode [OF inv n] old, of m]
        by (auto simp: inode vf inode_view_def split: if_splits)
    next
      case False
      then have "v_inode s k' = Some m" using m by (auto simp: inode split: if_splits)
      then show ?thesis
        using inode_inv_cong [OF vfs_inv_inode [OF inv]] other [OF False] by (simp add: vf)
    qed
  qed
qed

lemma setPendingFd_view:
  "setPendingFd f n = Some (f', n') \<Longrightarrow> inode_view n' = inode_view n \<and> ino_nRef n' = ino_nRef n"
  by (auto simp: setPendingFd_def inode_view_def split: Option.bind_splits)

lemma on_handle_unlock_inv:
  "vfs_inv s \<Longrightarrow> on_handle (unixUnlock ops e) i s = Some (r, s') \<Longrightarrow> e = NO_LOCK \<or> e = SHARED_LOCK \<Longrightarrow>
    vfs_inv s'"
  by (erule on_handle_inv, assumption) (erule unixUnlock_keeps, assumption)

lemma unixClose_inv:
  assumes inv: "vfs_inv s" and run: "unixClose ops i s = Some (rc, s')"
  shows "vfs_inv s'"
proof -
  obtain r s1 f k n f' n' where unlock: "on_handle (unixUnlock ops NO_LOCK) i s = Some (r, s1)"
    and s1: "v_file s1 i = Some f" "uf_pInode f = Some k" "v_inode s1 k = Some n"
    and fn: "(if ino_nLock n \<noteq> 0 then setPendingFd f n else Some (f, n)) = Some (f', n')"
    and close: "closeUnixFile ops i f' (releaseInodeInfo ops k n' s1) = (rc, s')"
    using run by (auto simp: unixClose_def Let_def split: Option.bind_splits)
  have "inode_view n' = inode_view n \<and> ino_nRef n' = ino_nRef n"
    using fn by (auto split: if_splits dest: setPendingFd_view)
  then show ?thesis
    using closeUnixFile_inv [OF on_handle_unlock_inv [OF inv unlock] s1 _ _ close] by simp
qed

lemma vfs_step_inv: "vfs_step ops s s' \<Longrightarrow> vfs_inv s \<Longrightarrow> vfs_inv s'"
proof (induction rule: vfs_step.induct)
  case (step_open s i excl psow z flags rc s')
  then show ?case by (blast intro: unixOpen_inv)
next
  case (step_lock s i f e rc s')
  then show ?case
    by (elim on_handle_inv) (auto intro: unixLock_keeps)
next
  case (step_check i s r s')
  then show ?case
    by (elim on_handle_inv) (auto intro: unixCheckReservedLock_keeps split: prod.splits)
qed (auto intro: on_handle_unlock_inv unixClose_inv)

lemma vfs_reachable_inv: "vfs_reachable ops s \<Longrightarrow> vfs_inv s"
  by (induction rule: vfs_reachable.induct) (auto intro: vfs_inv_init vfs_step_inv)

section \<open>Consequences\<close>

text \<open>What the invariant says of one handle: its inode exists, and counts it.\<close>

lemma reachable_handle:
  assumes "vfs_reachable ops s" and f: "v_file s i = Some f"
  obtains k n u G where "uf_pInode f = Some k" and "v_inode s k = Some n"
    and "uf_pPreallocatedUnused f = Some u" and "uu_fd u = uf_h f"
    and "inode_ok (inode_view n) (add_mset (uf_eFileLock f) (levels ((v_file s)(i := None)) k + G))"
proof -
  have inv: "vfs_inv s" using assms(1) by (rule vfs_reachable_inv)
  then obtain k n u where k: "uf_pInode f = Some k" "v_inode s k = Some n"
    "uf_pPreallocatedUnused f = Some u" "uu_fd u = uf_h f"
    using vfs_inv_file [OF inv f] by (auto simp: file_inv_def)
  moreover have "finite (dom (v_file s))" using inv by (simp add: vfs_inv_def)
  ultimately obtain G where
    "inode_ok (inode_view n) (add_mset (uf_eFileLock f) (levels ((v_file s)(i := None)) k + G))"
    using vfs_inv_inode [OF inv k(2)] levels_member [of "v_file s" i f k] f k(1) by (auto simp: inode_inv_def)
  with k that show ?thesis by blast
qed

lemma reachable_pair:
  assumes reach: "vfs_reachable ops s" and f: "v_file s i = Some f" and g: "v_file s j = Some g"
    and "i \<noteq> j" and k: "uf_pInode f = Some k" "uf_pInode g = Some k"
  obtains n M where "v_inode s k = Some n"
    and "inode_ok (inode_view n) (add_mset (uf_eFileLock f) (add_mset (uf_eFileLock g) M))"
proof -
  have fin: "finite (dom ((v_file s)(i := None)))"
    using vfs_reachable_inv [OF reach] by (simp add: vfs_inv_def)
  obtain k' n u G where r: "uf_pInode f = Some k'" "v_inode s k' = Some n"
    "inode_ok (inode_view n) (add_mset (uf_eFileLock f) (levels ((v_file s)(i := None)) k' + G))"
    using reachable_handle [OF reach f] by metis
  moreover have "levels ((v_file s)(i := None)) k
      = add_mset (uf_eFileLock g) (levels ((v_file s)(i := None, j := None)) k)"
    using levels_member [OF fin _ k(2), of j] g \<open>i \<noteq> j\<close> by simp
  ultimately show ?thesis using k that by auto
qed

lemma inode_ok_pair:
  assumes "inode_ok v (add_mset l (add_mset l' M))"
  shows "(SHARED_LOCK < l \<longrightarrow> l' \<le> SHARED_LOCK) \<and> (l = EXCLUSIVE_LOCK \<longrightarrow> l' = NO_LOCK)"
proof -
  obtain s b i where v: "v = (s, b, i)" by (cases v)
  have ok: "inode_ok (s, b, i) (add_mset l (add_mset l' M))" using assms v by simp
  then have "l' = 0" if "l = 4"
    using that by (auto simp: inode_ok_iff split: if_splits)
  then show ?thesis using ok by (auto simp: inode_ok_iff)
qed

text \<open>C1: Within one process, whatever the system calls return and in whatever order handles
  are opened, locked, unlocked and closed: while a handle has a RESERVED or higher lock no other
  handle on the file is above SHARED, and while one is EXCLUSIVE no other has any lock.\<close>

theorem lock_exclusion:
  assumes "vfs_reachable ops s" and "v_file s i = Some f" and "v_file s j = Some g" and "i \<noteq> j"
    and "uf_pInode f = uf_pInode g"
  shows "(SHARED_LOCK < uf_eFileLock f \<longrightarrow> uf_eFileLock g \<le> SHARED_LOCK) \<and>
    (uf_eFileLock f = EXCLUSIVE_LOCK \<longrightarrow> uf_eFileLock g = NO_LOCK)"
proof -
  obtain k where k: "uf_pInode f = Some k" using reachable_handle [OF assms(1,2)] by metis
  then obtain n M where
    "inode_ok (inode_view n) (add_mset (uf_eFileLock f) (add_mset (uf_eFileLock g) M))"
    using reachable_pair [OF assms(1-4) k] assms(5) by metis
  then show ?thesis by (rule inode_ok_pair)
qed

text \<open>What the invariant says of the counters of one handle and its inode, and that no operation
  dereferences a missing structure.\<close>

definition counters_ok :: "unixFile \<Rightarrow> unixInodeInfo \<Rightarrow> bool" where
  "counters_ok f n \<longleftrightarrow>
     (uf_eFileLock f \<noteq> NO_LOCK \<longrightarrow> 0 < ino_nShared n) \<and>
     (SHARED_LOCK < uf_eFileLock f \<longrightarrow> ino_eFileLock n = uf_eFileLock f) \<and>
     (ino_eFileLock n = NO_LOCK \<longleftrightarrow> ino_nShared n = 0) \<and>
     0 \<le> ino_nLock n \<and> ino_nShared n \<le> ino_nLock n \<and> (0 < ino_nLock n \<or> \<not> ino_bProcessLock n)"

lemma inode_ok_counters:
  assumes "inode_ok (inode_view n) (add_mset (uf_eFileLock f) M)"
  shows "counters_ok f n"
proof -
  obtain s b i where v: "inode_view n = (s, b, i)" by (cases "inode_view n")
  have ok: "inode_ok (s, b, i) (add_mset (uf_eFileLock f) M)" using assms v by simp
  have i: "ino_eFileLock n = i" "ino_nShared n = s" "ino_nLock n = s + of_bool (ino_bProcessLock n)"
    using ok v by (auto simp: inode_view_def inode_ok_iff)
  have pos: "0 < s" if "0 < i"
  proof (cases "0 < uf_eFileLock f")
    case False
    then have "i \<in># M" using ok that by (auto simp: inode_ok_iff)
    then have "0 < size {#x \<in># M. 0 < x#}" using that by (rule size_filter_pos)
    then show ?thesis using ok by (simp add: inode_ok_iff)
  qed (use ok in \<open>simp add: inode_ok_iff\<close>)
  moreover have "s = 0" if "i = 0"
  proof -
    have "{#x \<in># M. 0 < x#} = {#}" using ok that by (intro no_gt) (simp add: inode_ok_iff)
    then show ?thesis using ok that by (simp add: inode_ok_iff)
  qed
  moreover have "i = uf_eFileLock f" if "1 < uf_eFileLock f"
    using ok that by (auto simp: inode_ok_iff)
  moreover have "0 \<le> s" "0 \<le> i" "uf_eFileLock f \<le> i" "0 \<le> uf_eFileLock f" using ok by (auto simp: inode_ok_iff)
  ultimately have "i = 0 \<longleftrightarrow> s = 0" "0 \<le> s" "1 < uf_eFileLock f \<Longrightarrow> i = uf_eFileLock f"
    "0 < uf_eFileLock f \<Longrightarrow> 0 < s" "0 \<le> uf_eFileLock f"
    by (metis order_le_less order_less_irrefl order_less_le_trans)+
  then show ?thesis
    by (auto simp: counters_ok_def i)
qed

lemma on_handle_defined:
  assumes "v_file s i = Some f" and "uf_pInode f = Some k" and "v_inode s k = Some n"
  shows "\<exists>r c. on_handle opn i s = Some (r, s\<lparr>v_file := (v_file s)(i \<mapsto> pFile c),
      v_inode := (v_inode s)(k \<mapsto> pInode c), v_os := os c\<rparr>)
    \<and> opn \<lparr>pFile = f, pInode = n, os = v_os s\<rparr> = (r, c)"
  using assms by (cases "opn \<lparr>pFile = f, pInode = n, os = v_os s\<rparr>") (simp add: on_handle_def)

lemma close_defined:
  assumes "vfs_reachable ops s" and f: "v_file s i = Some f"
  shows "\<exists>rc s'. unixClose ops i s = Some (rc, s') \<and> v_file s' = (v_file s)(i := None)"
proof -
  obtain k n u where k: "uf_pInode f = Some k" "v_inode s k = Some n" "uf_pPreallocatedUnused f = Some u"
    using reachable_handle [OF assms] by metis
  obtain r c where run: "on_handle (unixUnlock ops NO_LOCK) i s = Some (r, s\<lparr>v_file := (v_file s)(i \<mapsto> pFile c),
      v_inode := (v_inode s)(k \<mapsto> pInode c), v_os := os c\<rparr>)"
    and u: "unixUnlock ops NO_LOCK \<lparr>pFile = f, pInode = n, os = v_os s\<rparr> = (r, c)"
    using on_handle_defined [OF f k(1,2), of "unixUnlock ops NO_LOCK"] by blast
  have "keeps_inode \<lparr>pFile = f, pInode = n, os = v_os s\<rparr> c"
    using unixUnlock_keeps [OF u] by simp
  then have "uf_pInode (pFile c) = Some k" "uf_pPreallocatedUnused (pFile c) = Some u"
    using same_file_fields [of "pFile c" f] k by (simp_all add: keeps_inode_def)
  then show ?thesis
    by (simp add: unixClose_def run closeUnixFile_def releaseInodeInfo_def setPendingFd_def Let_def)
qed

text \<open>The effect of one locking call on the whole VFS.\<close>

lemma on_handle_elim:
  assumes "on_handle opn i s = Some (r, s')" and "v_file s i = Some f"
  obtains k n c where "uf_pInode f = Some k" and "v_inode s k = Some n"
    and "opn \<lparr>pFile = f, pInode = n, os = v_os s\<rparr> = (r, c)"
    and "s' = s\<lparr>v_file := (v_file s)(i \<mapsto> pFile c), v_inode := (v_inode s)(k \<mapsto> pInode c), v_os := os c\<rparr>"
  using assms by (auto simp: on_handle_def Let_def split: Option.bind_splits prod.splits)

text \<open>unixLock answers SQLITE_OK exactly with the requested level reached; on failure the
  level is unchanged, except that a failed EXCLUSIVE request may leave PENDING; no other handle
  changes.\<close>

theorem lock_contract:
  assumes f: "v_file s i = Some f" and req: "lock_request (uf_eFileLock f) e"
    and run: "on_handle (unixLock ops e) i s = Some (rc, s')"
  shows "\<exists>f'. v_file s' = (v_file s)(i \<mapsto> f') \<and>
    (rc = SQLITE_OK \<longrightarrow> uf_eFileLock f' = max e (uf_eFileLock f)) \<and>
    (rc \<noteq> SQLITE_OK \<longrightarrow> uf_eFileLock f' = uf_eFileLock f \<or>
      e = EXCLUSIVE_LOCK \<and> uf_eFileLock f \<noteq> NO_LOCK \<and> uf_eFileLock f' = PENDING_LOCK)"
proof -
  obtain k n c where u: "unixLock ops e \<lparr>pFile = f, pInode = n, os = v_os s\<rparr> = (rc, c)"
    and s': "s' = s\<lparr>v_file := (v_file s)(i \<mapsto> pFile c), v_inode := (v_inode s)(k \<mapsto> pInode c), v_os := os c\<rparr>"
    using on_handle_elim [OF run f] by metis
  obtain a b d where v: "inode_view n = (a, b, d)" by (cases "inode_view n")
  have "lock_outcome e (uf_eFileLock f, a, b, d) rc (uf_eFileLock (pFile c), inode_view (pInode c))"
    using unixLock_outcome [OF u, of _ a b d] req v by (auto simp: lock_view_inode lock_request_def)
  then show ?thesis
    using req by (auto simp: s' lock_outcome_def lock_request_def split: if_splits)
qed

text \<open>UnixUnlock answers SQLITE_OK with the level lowered to the request; on failure the level is unchanged or, for a full unlock, NO_LOCK; no other handle changes..\<close>

theorem unlock_contract:
  assumes f: "v_file s i = Some f" and e: "e = NO_LOCK \<or> e = SHARED_LOCK"
    and run: "on_handle (unixUnlock ops e) i s = Some (rc, s')"
  shows "\<exists>f'. v_file s' = (v_file s)(i \<mapsto> f') \<and>
    (rc = SQLITE_OK \<longrightarrow> uf_eFileLock f' = min e (uf_eFileLock f)) \<and>
    (rc \<noteq> SQLITE_OK \<longrightarrow> uf_eFileLock f' = uf_eFileLock f \<or> e = NO_LOCK \<and> uf_eFileLock f' = NO_LOCK)"
proof -
  obtain k n c where u: "unixUnlock ops e \<lparr>pFile = f, pInode = n, os = v_os s\<rparr> = (rc, c)"
    and s': "s' = s\<lparr>v_file := (v_file s)(i \<mapsto> pFile c), v_inode := (v_inode s)(k \<mapsto> pInode c), v_os := os c\<rparr>"
    using on_handle_elim [OF run f] by metis
  obtain a b d where v: "inode_view n = (a, b, d)" by (cases "inode_view n")
  have "posixUnlock ops e \<lparr>pFile = f, pInode = n, os = v_os s\<rparr> = (rc, c)"
    using u by (simp add: unixUnlock_def)
  from posixUnlock_outcome [OF this, of _ a b d]
  have "unlock_outcome e (uf_eFileLock f, a, b, d) rc (uf_eFileLock (pFile c), inode_view (pInode c))"
    using v by (simp add: lock_view_inode)
  then show ?thesis
    by (auto simp: s' unlock_outcome_def Let_def split: if_splits)
qed

end
