(* ===== verification/DeferredClose.thy ===== *)
theory DeferredClose
  imports UnixVfs
begin

text \<open>
  POSIX drops every lock a process holds on a file when the process closes any descriptor of
  it.  The unix VFS therefore parks the descriptors of closed handles on the inode while a
  lock is outstanding.  This theory proves that it does, and that nothing stays parked when no
  lock is left.
\<close>

section \<open>What the locking calls do to the parked descriptors\<close>

lemma unixFileLock_pending:
  "unixFileLock ops lk c = (r, e, c') \<Longrightarrow> ino_nLock (pInode c) \<le> ino_nLock (pInode c') \<and>
    ino_pUnused (pInode c') = ino_pUnused (pInode c)"
  by (auto simp: unixFileLock_def osSetPosixAdvisoryLock_def setters Let_def
      split: if_splits prod.splits)

lemma unixLock_pending:
  "unixLock ops e c = (rc, c') \<Longrightarrow> ino_nLock (pInode c) \<le> ino_nLock (pInode c') \<and>
    ino_pUnused (pInode c') = ino_pUnused (pInode c)"
  by (auto simp: unixLock_def unixLock_shared_def unixLock_finish_def setters Let_def
      split: if_splits prod.splits dest!: unixFileLock_pending)

lemma posixUnlock_none_pending:
  "posixUnlock_none ops c = (rc, c') \<Longrightarrow>
    (ino_nLock (pInode c') = 0 \<longrightarrow> ino_pUnused (pInode c') = []) \<and>
    (ino_nLock (pInode c') \<noteq> 0 \<longrightarrow> ino_pUnused (pInode c') = ino_pUnused (pInode c))"
  by (auto simp: posixUnlock_none_def closePendingFds_def setters Let_def
      split: if_splits prod.splits dest!: unixFileLock_pending)

lemma posixUnlock_pending:
  "posixUnlock ops e c = (rc, c') \<Longrightarrow>
    (ino_nLock (pInode c') = 0 \<longrightarrow> ino_pUnused (pInode c') = [] \<or>
       ino_pUnused (pInode c') = ino_pUnused (pInode c) \<and> ino_nLock (pInode c) \<le> 0) \<and>
    (ino_nLock (pInode c') \<noteq> 0 \<longrightarrow> ino_pUnused (pInode c') = ino_pUnused (pInode c))"
  by (auto simp: posixUnlock_def setters Let_def
      split: if_splits prod.splits dest!: unixFileLock_pending posixUnlock_none_pending)

text \<open>\<open>closed\<close> reads a log of closed descriptors from the OS state that fcntl does not touch.\<close>

definition fcntl_closes_nothing :: "'os os_ops \<Rightarrow> ('os \<Rightarrow> 'a) \<Rightarrow> bool" where
  "fcntl_closes_nothing ops closed \<longleftrightarrow>
     (\<forall>h lk w. closed (snd (snd (osFcntl_SETLK ops h lk w))) = closed w)"

lemma unixFileLock_closed:
  "unixFileLock ops lk c = (r, e, c') \<Longrightarrow> fcntl_closes_nothing ops closed \<Longrightarrow> closed (os c') = closed (os c)"
  by (auto simp: unixFileLock_def osSetPosixAdvisoryLock_def setters Let_def fcntl_closes_nothing_def
      split: if_splits prod.splits) (metis snd_conv)+

lemma posixUnlock_none_closed:
  "posixUnlock_none ops c = (rc, c') \<Longrightarrow> ino_nLock (pInode c') \<noteq> 0 \<Longrightarrow> fcntl_closes_nothing ops closed \<Longrightarrow>
    closed (os c') = closed (os c)"
  by (auto simp: posixUnlock_none_def closePendingFds_def setters Let_def
      split: if_splits prod.splits dest!: unixFileLock_closed [where closed = closed])

lemma posixUnlock_closed:
  assumes "posixUnlock ops e c = (rc, c')" and "ino_nLock (pInode c') \<noteq> 0" and "fcntl_closes_nothing ops closed"
  shows "closed (os c') = closed (os c)"
  using assms
  by (auto simp: posixUnlock_def setters Let_def
      split: if_splits prod.splits dest!: unixFileLock_closed [where closed = closed]
        posixUnlock_none_closed [where closed = closed])

section \<open>Nothing stays parked without a lock\<close>

definition pending_inv :: "'os vfs \<Rightarrow> bool" where
  "pending_inv s \<longleftrightarrow> (\<forall>k n. v_inode s k = Some n \<longrightarrow> ino_nLock n = 0 \<longrightarrow> ino_pUnused n = [])"

lemma pending_invI:
  "(\<And>k n. v_inode s k = Some n \<Longrightarrow> ino_nLock n = 0 \<Longrightarrow> ino_pUnused n = []) \<Longrightarrow> pending_inv s"
  by (simp add: pending_inv_def)

lemma pending_invD: "pending_inv s \<Longrightarrow> v_inode s k = Some n \<Longrightarrow> ino_nLock n = 0 \<Longrightarrow> ino_pUnused n = []"
  unfolding pending_inv_def by blast

lemma inode_inv_nLock: "inode_inv m k n \<Longrightarrow> 0 \<le> ino_nLock n"
proof -
  assume "inode_inv m k n"
  then obtain G where "inode_ok (inode_view n) (levels m k + G)"
    by (auto simp: inode_inv_def)
  then have "ino_nLock n - of_bool (ino_bProcessLock n) = int (size {#l \<in># levels m k + G. 0 < l#})"
    unfolding inode_ok_def inode_view_def prod.case by (elim conjE) (simp only:)
  then have "0 \<le> ino_nLock n - of_bool (ino_bProcessLock n)" by (simp only: of_nat_0_le_iff)
  then show ?thesis by (cases "ino_bProcessLock n") simp_all
qed

lemma on_handle_pending:
  assumes "vfs_inv s" and "pending_inv s" and run: "on_handle opn i s = Some (r, s')"
    and step: "\<And>f n c' r. opn \<lparr>pFile = f, pInode = n, os = v_os s\<rparr> = (r, c') \<Longrightarrow>
      0 \<le> ino_nLock n \<Longrightarrow> ino_nLock (pInode c') = 0 \<Longrightarrow>
      ino_pUnused (pInode c') = [] \<or> ino_pUnused (pInode c') = ino_pUnused n \<and> ino_nLock n = 0"
  shows "pending_inv s'"
proof -
  obtain f k n c' where n: "v_inode s k = Some n" and op: "opn \<lparr>pFile = f, pInode = n, os = v_os s\<rparr> = (r, c')"
    and s': "v_inode s' = (v_inode s)(k \<mapsto> pInode c')"
    using run by (auto simp: on_handle_def Let_def split: Option.bind_splits prod.splits)
  have "0 \<le> ino_nLock n" using inode_inv_nLock [OF vfs_inv_inode [OF assms(1) n]] .
  from step [OF op this] pending_invD [OF assms(2) n] show ?thesis
    using pending_invD [OF assms(2)] by (intro pending_invI) (auto simp: s' split: if_splits)
qed

lemma findReusableFd_pending:
  "findReusableFd ops z flags s = (u, s') \<Longrightarrow> pending_inv s \<Longrightarrow> pending_inv s'"
  by (auto simp: findReusableFd_def Let_def pending_inv_def
      split: if_splits prod.splits option.splits)

lemma fillInUnixFile_pending:
  "fillInUnixFile ops excl psow i h pre fl s = (rc, s') \<Longrightarrow> pending_inv s \<Longrightarrow> pending_inv s'"
  by (auto simp: fillInUnixFile_def findInodeInfo_def Let_def pending_inv_def
      split: if_splits prod.splits option.splits)

lemma unixOpen_pending:
  "unixOpen ops excl psow i z flags s = (rc, s') \<Longrightarrow> pending_inv s \<Longrightarrow> pending_inv s'"
  by (auto simp: unixOpen_def Let_def pending_inv_def split: if_splits prod.splits option.splits
      dest!: findReusableFd_pending fillInUnixFile_pending)

lemma unixClose_elim:
  assumes "unixClose ops i s = Some (rc, s')"
  obtains r s1 f k n f' n' where "on_handle (unixUnlock ops NO_LOCK) i s = Some (r, s1)"
    and "v_file s1 i = Some f" and "uf_pInode f = Some k" and "v_inode s1 k = Some n"
    and "(if ino_nLock n \<noteq> 0 then setPendingFd f n else Some (f, n)) = Some (f', n')"
    and "closeUnixFile ops i f' (releaseInodeInfo ops k n' s1) = (rc, s')"
  using assms by (auto simp: unixClose_def Let_def split: Option.bind_splits)

lemma unlock_pending:
  assumes "vfs_inv s" and "pending_inv s" and "on_handle (unixUnlock ops e) i s = Some (r, s')"
  shows "pending_inv s'"
  using assms(3)
  by (rule on_handle_pending [OF assms(1,2)]) (auto simp: unixUnlock_def dest!: posixUnlock_pending)

lemma unixClose_pending:
  assumes inv: "vfs_inv s" and p: "pending_inv s" and run: "unixClose ops i s = Some (rc, s')"
  shows "pending_inv s'"
  using run
proof (rule unixClose_elim)
  fix r s1 f k n f' n'
  assume un: "on_handle (unixUnlock ops NO_LOCK) i s = Some (r, s1)" and n: "v_inode s1 k = Some n"
    and fn: "(if ino_nLock n \<noteq> 0 then setPendingFd f n else Some (f, n)) = Some (f', n')"
    and cl: "closeUnixFile ops i f' (releaseInodeInfo ops k n' s1) = (rc, s')"
  have p1: "pending_inv s1" using unlock_pending [OF inv p un] .
  have "ino_nLock n' = 0 \<Longrightarrow> ino_pUnused n' = []"
    using fn pending_invD [OF p1 n] by (auto simp: setPendingFd_def split: if_splits Option.bind_splits)
  moreover have "v_inode s' = (if ino_nRef n' = 1 then (v_inode s1)(k := None)
      else (v_inode s1)(k \<mapsto> n'\<lparr>ino_nRef := ino_nRef n' - 1\<rparr>))"
    using cl by (auto simp: closeUnixFile_def releaseInodeInfo_def Let_def)
  ultimately show ?thesis
    using pending_invD [OF p1] by (intro pending_invI) (auto split: if_splits)
qed

lemma vfs_step_pending: "vfs_step ops s s' \<Longrightarrow> vfs_inv s \<Longrightarrow> pending_inv s \<Longrightarrow> pending_inv s'"
proof (induction rule: vfs_step.induct)
  case (step_open s i excl psow z flags rc s')
  then show ?case by (blast intro: unixOpen_pending)
next
  case (step_lock s i f e rc s')
  then show ?case
    by (elim on_handle_pending) (force dest!: unixLock_pending)+
next
  case (step_check i s r s')
  then show ?case
    by (elim on_handle_pending)
      (auto simp: unixCheckReservedLock_def Let_def storeLastErrno_def split: prod.splits if_splits)
next
  case (step_os s w)
  then show ?case by (simp add: pending_inv_def)
qed (auto intro: unlock_pending unixClose_pending)

lemma vfs_reachable_pending: "vfs_reachable ops s \<Longrightarrow> pending_inv s"
proof (induction rule: vfs_reachable.induct)
  case (reach_init w)
  then show ?case by (simp add: pending_inv_def)
next
  case (reach_step s s')
  then show ?case using vfs_step_pending vfs_reachable_inv by blast
qed

section \<open>Closing while another handle holds a lock\<close>

lemma unlock_defers:
  assumes reach: "vfs_reachable ops s" and f: "v_file s i = Some f" and g: "v_file s j = Some g"
    and ij: "i \<noteq> j" and k: "uf_pInode f = Some k" "uf_pInode g = Some k"
    and held: "NO_LOCK < uf_eFileLock g" and fc: "fcntl_closes_nothing ops closed"
    and n0: "v_inode s k = Some n0" and run: "on_handle (unixUnlock ops NO_LOCK) i s = Some (r, s1)"
  obtains f1 n1 u where "v_file s1 i = Some f1" and "uf_pInode f1 = Some k" and "v_inode s1 k = Some n1"
    and "ino_nLock n1 \<noteq> 0" and "ino_pUnused n1 = ino_pUnused n0" and "1 < ino_nRef n1"
    and "uf_pPreallocatedUnused f1 = Some u" and "uu_fd u = uf_h f" and "closed (v_os s1) = closed (v_os s)"
proof -
  obtain c where u: "posixUnlock ops NO_LOCK \<lparr>pFile = f, pInode = n0, os = v_os s\<rparr> = (r, c)"
    and s1: "s1 = s\<lparr>v_file := (v_file s)(i \<mapsto> pFile c), v_inode := (v_inode s)(k \<mapsto> pInode c), v_os := os c\<rparr>"
    using on_handle_elim [OF run f] k n0 unfolding unixUnlock_def by (metis option.inject)
  have reach1: "vfs_reachable ops s1"
    using reach_step [OF reach step_unlock [OF _ run]] by simp
  have g1: "v_file s1 j = Some g" using g ij by (simp add: s1)
  have n1: "v_inode s1 k = Some (pInode c)" by (simp add: s1)
  have lock: "ino_nLock (pInode c) \<noteq> 0"
  proof -
    have "counters_ok g (pInode c)"
      using reachable_handle [OF reach1 g1] inode_ok_counters k(2) n1 by (metis option.inject)
    then show ?thesis using held by (auto simp: counters_ok_def)
  qed
  obtain p where pre: "uf_pPreallocatedUnused f = Some p" "uu_fd p = uf_h f"
    using reachable_handle [OF reach f] by metis
  have keep: "keeps_inode \<lparr>pFile = f, pInode = n0, os = v_os s\<rparr> c"
    using unixUnlock_keeps [of ops NO_LOCK _ r c] u by (simp add: unixUnlock_def)
  then have f1: "uf_pInode (pFile c) = Some k" "uf_pPreallocatedUnused (pFile c) = Some p"
    using same_file_fields [of "pFile c" f] k pre by (simp_all add: keeps_inode_def)
  have "1 < ino_nRef (pInode c)"
  proof -
    have fin: "finite (dom (v_file s1))" using vfs_reachable_inv [OF reach1] by (simp add: vfs_inv_def)
    then have "finite (dom ((v_file s1)(i := None)))" by simp
    then have "levels (v_file s1) k \<noteq> {#}" "levels ((v_file s1)(i := None)) k \<noteq> {#}"
      using levels_member [of "v_file s1" j g k] levels_member [of "(v_file s1)(i := None)" j g k] fin g1 ij k(2)
      by auto
    then have "1 < size (levels (v_file s1) k)"
      using levels_member [OF fin, of i "pFile c" k] f1 by (simp add: s1 nonempty_has_size)
    then show ?thesis
      using vfs_inv_inode [OF vfs_reachable_inv [OF reach1] n1] by (simp add: inode_inv_def)
  qed
  then show ?thesis
    using that [of "pFile c" "pInode c" p] f1 n1 lock pre posixUnlock_pending [OF u]
      posixUnlock_closed [OF u lock fc] by (simp add: s1)
qed

lemma close_defers:
  assumes reach: "vfs_reachable ops s" and f: "v_file s i = Some f" and g: "v_file s j = Some g"
    and ij: "i \<noteq> j" and k: "uf_pInode f = Some k" "uf_pInode g = Some k"
    and held: "NO_LOCK < uf_eFileLock g" and fc: "fcntl_closes_nothing ops closed"
    and n0: "v_inode s k = Some n0" and run: "unixClose ops i s = Some (rc, s')"
  shows "closed (v_os s') = closed (v_os s) \<and>
    (\<exists>n' u. v_inode s' k = Some n' \<and> ino_pUnused n' = u # ino_pUnused n0 \<and> uu_fd u = uf_h f)"
  using run
proof (rule unixClose_elim)
  fix r s1 f1 k1 n1 f' n'
  assume un: "on_handle (unixUnlock ops NO_LOCK) i s = Some (r, s1)" and f1: "v_file s1 i = Some f1"
    and k1: "uf_pInode f1 = Some k1" and n1: "v_inode s1 k1 = Some n1"
    and fn: "(if ino_nLock n1 \<noteq> 0 then setPendingFd f1 n1 else Some (f1, n1)) = Some (f', n')"
    and cl: "closeUnixFile ops i f' (releaseInodeInfo ops k1 n' s1) = (rc, s')"
  obtain f2 n2 u where d: "v_file s1 i = Some f2" "uf_pInode f2 = Some k" "v_inode s1 k = Some n2"
    "ino_nLock n2 \<noteq> 0" "ino_pUnused n2 = ino_pUnused n0" "1 < ino_nRef n2"
    "uf_pPreallocatedUnused f2 = Some u" "uu_fd u = uf_h f" "closed (v_os s1) = closed (v_os s)"
    using unlock_defers [OF reach f g ij k held fc n0 un] by metis
  have same: "f1 = f2" "k1 = k" "n1 = n2" using f1 k1 n1 d by auto
  show ?thesis
    using fn cl d by (auto simp: same setPendingFd_def closeUnixFile_def releaseInodeInfo_def Let_def)
qed

section \<open>Properties\<close>

text \<open>C12: Closing a handle while another handle of the process holds a lock on the same file
  closes no descriptor at all (which would drop that lock): the descriptor is parked on the
  inode, in front of those parked before.\<close>

theorem close_is_deferred:
  assumes "vfs_reachable ops s" and "v_file s i = Some f" and "v_file s j = Some g" and "i \<noteq> j"
    and "uf_pInode f = Some k" and "uf_pInode g = Some k" and "NO_LOCK < uf_eFileLock g"
    and "fcntl_closes_nothing ops closed" and "v_inode s k = Some n"
  shows "\<exists>rc s' n' u. unixClose ops i s = Some (rc, s') \<and> closed (v_os s') = closed (v_os s) \<and>
    v_inode s' k = Some n' \<and> ino_pUnused n' = u # ino_pUnused n \<and> uu_fd u = uf_h f"
  using close_defined [OF assms(1,2)] close_defers [OF assms] by metis

text \<open>In every reachable state an inode without outstanding locks has no parked descriptor:
  the last unlock, or the last close, has closed them all.\<close>

theorem no_lock_nothing_parked:
  assumes "vfs_reachable ops s" and "v_inode s k = Some n" and "ino_nLock n = 0"
  shows "ino_pUnused n = []"
  using pending_invD [OF vfs_reachable_pending [OF assms(1)] assms(2,3)] .

end
