(* ===== verification/VfsRuns.thy ===== *)
theory VfsRuns
  imports DeferredClose
begin

text \<open>
  A run of the VFS on a concrete operating system, for the witnesses: two handles on one file,
  the first with a RESERVED lock, the second with a SHARED lock.  The OS state is the next file
  descriptor and the log of closed ones; every system call succeeds.  The last section has two runs
  of the VFS \<open>unix-excl\<close> in which a writable and a read-only handle share an inode.
\<close>

definition demo_os :: "(int \<times> int list) os_ops" where
  "demo_os = \<lparr>osFcntl_SETLK = (\<lambda>h lk w. (0, Enone, w)), osFcntl_GETLK = (\<lambda>h lk w. (0, Enone, F_UNLCK, w)),
     osFstat = (\<lambda>h w. (0, Enone, (0, 7), w)), osStat = (\<lambda>z w. (0, (0, 7), w)),
     osOpen = (\<lambda>z fl w. (fst w, Enone, (fst w + 1, snd w))),
     osClose = (\<lambda>h w. (fst w, h # snd w)), osMalloc = (\<lambda>w. (True, w))\<rparr>"

definition demo_init :: "(int \<times> int list) vfs" where
  "demo_init = \<lparr>v_file = Map.empty, v_inode = Map.empty, v_os = (3, [])\<rparr>"

definition demo_lock :: "nat \<Rightarrow> int \<Rightarrow> (int \<times> int list) vfs \<Rightarrow> (int \<times> int list) vfs" where
  "demo_lock i e s = snd (the (on_handle (unixLock demo_os e) i s))"

definition demo_open :: "nat \<Rightarrow> (int \<times> int list) vfs \<Rightarrow> (int \<times> int list) vfs" where
  "demo_open i s = snd (unixOpen demo_os False True i ''/db'' 6 s)"

definition demo_two :: "(int \<times> int list) vfs" where
  "demo_two = demo_lock 8 SHARED_LOCK (demo_lock 7 RESERVED_LOCK (demo_lock 7 SHARED_LOCK
     (demo_open 8 (demo_open 7 demo_init))))"

definition demo_file :: "int \<Rightarrow> int \<Rightarrow> unixFile" where
  "demo_file h l = \<lparr>uf_pInode = Some (0, 7), uf_h = h, uf_eFileLock = l, uf_ctrlFlags = 0x10,
     uf_lastErrno = Enone, uf_pPreallocatedUnused = Some \<lparr>uu_fd = h, uu_flags = 6\<rparr>\<rparr>"

definition demo_inode :: "int \<Rightarrow> int \<Rightarrow> int \<Rightarrow> unixInodeInfo" where
  "demo_inode s l r = \<lparr>ino_nShared = s, ino_nLock = s, ino_eFileLock = l, ino_bProcessLock = False,
     ino_pUnused = [], ino_nRef = r\<rparr>"

lemma demo_os_simps [simp]:
  "osFcntl_SETLK demo_os h lk w = (0, Enone, w)" "osFstat demo_os h w = (0, Enone, (0, 7), w)"
  "osStat demo_os z w = (0, (0, 7), w)" "osOpen demo_os z fl w = (fst w, Enone, (fst w + 1, snd w))"
  "osClose demo_os h w = (fst w, h # snd w)" "osMalloc demo_os w = (True, w)"
  by (simp_all add: demo_os_def)

lemma demo_file_inode [simp]: "uf_pInode (demo_file h l) = Some (0, 7)" "uf_eFileLock (demo_file h l) = l"
  by (simp_all add: demo_file_def)

lemma demo_opened:
  "demo_open 7 demo_init = \<lparr>v_file = [7 \<mapsto> demo_file 3 0], v_inode = [(0, 7) \<mapsto> demo_inode 0 0 1], v_os = (4, [])\<rparr>"
  "demo_open 8 (demo_open 7 demo_init) =
     \<lparr>v_file = [7 \<mapsto> demo_file 3 0, 8 \<mapsto> demo_file 4 0], v_inode = [(0, 7) \<mapsto> demo_inode 0 0 2], v_os = (5, [])\<rparr>"
  by (simp_all add: demo_open_def demo_init_def unixOpen_def findReusableFd_def fillInUnixFile_def
      findInodeInfo_def demo_file_def demo_inode_def Let_def)

lemma demo_unixLock:
  "unixLock demo_os 1 \<lparr>pFile = demo_file 3 0, pInode = demo_inode 0 0 2, os = w\<rparr> =
     (0, \<lparr>pFile = demo_file 3 1, pInode = demo_inode 1 1 2, os = w\<rparr>)"
  "unixLock demo_os 2 \<lparr>pFile = demo_file 3 1, pInode = demo_inode 1 1 2, os = w\<rparr> =
     (0, \<lparr>pFile = demo_file 3 2, pInode = demo_inode 1 2 2, os = w\<rparr>)"
  "unixLock demo_os 1 \<lparr>pFile = demo_file 4 0, pInode = demo_inode 1 2 2, os = w\<rparr> =
     (0, \<lparr>pFile = demo_file 4 1, pInode = demo_inode 2 2 2, os = w\<rparr>)"
  by (simp_all add: unixLock_def unixLock_shared_def unixLock_finish_def unixFileLock_def setters
      osSetPosixAdvisoryLock_def demo_file_def demo_inode_def Let_def)

lemma demo_two_eq:
  "demo_two = \<lparr>v_file = [7 \<mapsto> demo_file 3 2, 8 \<mapsto> demo_file 4 1], v_inode = [(0, 7) \<mapsto> demo_inode 2 2 2],
     v_os = (5, [])\<rparr>"
  by (simp add: demo_two_def demo_lock_def on_handle_def demo_opened(2) demo_unixLock)

lemma demo_locks:
  "on_handle (unixLock demo_os 1) 7 (demo_open 8 (demo_open 7 demo_init)) =
     Some (0, demo_lock 7 1 (demo_open 8 (demo_open 7 demo_init)))"
  "on_handle (unixLock demo_os 2) 7 (demo_lock 7 1 (demo_open 8 (demo_open 7 demo_init))) =
     Some (0, demo_lock 7 2 (demo_lock 7 1 (demo_open 8 (demo_open 7 demo_init))))"
  "on_handle (unixLock demo_os 1) 8 (demo_lock 7 2 (demo_lock 7 1 (demo_open 8 (demo_open 7 demo_init)))) =
     Some (0, demo_two)"
  by (simp_all add: demo_two_def demo_lock_def on_handle_def demo_opened(2) demo_unixLock)

lemma demo_reachable: "vfs_reachable demo_os demo_two"
proof -
  have "vfs_reachable demo_os demo_init"
    unfolding demo_init_def by (rule reach_init)
  then have r1: "vfs_reachable demo_os (demo_open 7 demo_init)"
    by (rule reach_step)
      (rule step_open [of _ 7 _ False True "''/db''" 6 "fst (unixOpen demo_os False True 7 ''/db'' 6 demo_init)"],
        simp_all add: demo_open_def demo_init_def)
  then have r2: "vfs_reachable demo_os (demo_open 8 (demo_open 7 demo_init))"
    by (rule reach_step)
      (rule step_open [of _ 8 _ False True "''/db''" 6
          "fst (unixOpen demo_os False True 8 ''/db'' 6 (demo_open 7 demo_init))"],
        simp add: demo_opened(1), simp add: demo_open_def)
  then have r3: "vfs_reachable demo_os (demo_lock 7 1 (demo_open 8 (demo_open 7 demo_init)))"
    by (rule reach_step) (rule step_lock [where f = "demo_file 3 0", OF _ _ demo_locks(1)], simp_all add: demo_opened(2) lock_request_def)
  then have r4: "vfs_reachable demo_os (demo_lock 7 2 (demo_lock 7 1 (demo_open 8 (demo_open 7 demo_init))))"
    by (rule reach_step) (rule step_lock [where f = "demo_file 3 1", OF _ _ demo_locks(2)],
        simp_all add: demo_opened(2) demo_lock_def on_handle_def demo_unixLock lock_request_def)
  then show ?thesis
    by (rule reach_step) (rule step_lock [where f = "demo_file 4 0", OF _ _ demo_locks(3)],
        simp_all add: demo_opened(2) demo_lock_def on_handle_def demo_unixLock lock_request_def)
qed

section \<open>Witnesses\<close>

lemma demo_fcntl: "fcntl_closes_nothing demo_os snd"
  by (simp add: fcntl_closes_nothing_def)

theorem close_is_deferred_witness:
  "\<exists>rc s' n' u. unixClose demo_os 8 demo_two = Some (rc, s') \<and> snd (v_os s') = [] \<and>
    v_inode s' (0, 7) = Some n' \<and> ino_pUnused n' = [u] \<and> uu_fd u = 4"
  using close_is_deferred [OF demo_reachable, of 8 "demo_file 4 1" 7 "demo_file 3 2" "(0, 7)" snd
      "demo_inode 2 2 2"] demo_fcntl
  by (simp add: demo_two_eq) (simp add: demo_file_def demo_inode_def)

theorem no_lock_nothing_parked_witness:
  "v_inode (demo_open 7 demo_init) (0, 7) = Some (demo_inode 0 0 1) \<and> ino_pUnused (demo_inode 0 0 1) = []"
proof -
  have init: "vfs_reachable demo_os demo_init"
    unfolding demo_init_def by (rule reach_init)
  then have "vfs_reachable demo_os (demo_open 7 demo_init)"
    by (rule reach_step)
      (rule step_open [of _ 7 _ False True "''/db''" 6 "fst (unixOpen demo_os False True 7 ''/db'' 6 demo_init)"],
        simp_all add: demo_open_def demo_init_def)
  from no_lock_nothing_parked [OF this, of "(0, 7)" "demo_inode 0 0 1"] show ?thesis
    by (simp add: demo_opened(1)) (simp add: demo_inode_def)
qed

theorem lock_exclusion_witness:
  "SHARED_LOCK < uf_eFileLock (demo_file 3 2) \<and> uf_eFileLock (demo_file 4 1) \<le> SHARED_LOCK"
  using lock_exclusion [OF demo_reachable, of 7 "demo_file 3 2" 8 "demo_file 4 1"]
  by (simp add: demo_two_eq)

theorem lock_contract_witness:
  "\<exists>f'. v_file demo_two = (v_file (demo_lock 7 2 (demo_lock 7 1 (demo_open 8 (demo_open 7 demo_init)))))(8 \<mapsto> f') \<and>
    uf_eFileLock f' = 1"
  using lock_contract [OF _ _ demo_locks(3), of "demo_file 4 0"]
  by (simp add: demo_lock_def on_handle_def demo_opened(2) demo_unixLock lock_request_def)

theorem unlock_contract_witness:
  "\<exists>rc s' f'. on_handle (unixUnlock demo_os 0) 8 demo_two = Some (rc, s') \<and>
    v_file s' = (v_file demo_two)(8 \<mapsto> f') \<and> (rc = SQLITE_OK \<longrightarrow> uf_eFileLock f' = 0)"
proof -
  obtain rc s' where run: "on_handle (unixUnlock demo_os 0) 8 demo_two = Some (rc, s')"
    using on_handle_defined [of demo_two 8 "demo_file 4 1" "(0, 7)" "demo_inode 2 2 2" "unixUnlock demo_os 0"]
    by (auto simp: demo_two_eq)
  moreover obtain f' where "v_file s' = (v_file demo_two)(8 \<mapsto> f')" "rc = SQLITE_OK \<longrightarrow> uf_eFileLock f' = 0"
    using unlock_contract [OF _ _ run, of "demo_file 4 1"] by (auto simp: demo_two_eq)
  ultimately show ?thesis by blast
qed

section \<open>Writable and read-only handles of unix-excl\<close>

text \<open>The OS state is the next descriptor and the log of the requests to \<open>fcntl\<close>, the newest first;
  the locks of POSIX belong to the process, so the newest request that covers a byte decides.\<close>

definition excl_os :: "(int \<times> flock list) os_ops" where
  "excl_os = \<lparr>osFcntl_SETLK = (\<lambda>h lk w. (0, Enone, (fst w, lk # snd w))),
     osFcntl_GETLK = (\<lambda>h lk w. (0, Enone, F_UNLCK, w)),
     osFstat = (\<lambda>h w. (0, Enone, (0, 7), w)), osStat = (\<lambda>z w. (0, (0, 7), w)),
     osOpen = (\<lambda>z fl w. (fst w, Enone, (fst w + 1, snd w))),
     osClose = (\<lambda>h w. w), osMalloc = (\<lambda>w. (True, w))\<rparr>"

definition covers :: "int \<Rightarrow> flock \<Rightarrow> bool" where
  "covers b lk \<longleftrightarrow> l_start lk \<le> b \<and> (l_len lk = 0 \<or> b < l_start lk + l_len lk)"

definition held_by_process :: "flock list \<Rightarrow> int \<Rightarrow> ltype" where
  "held_by_process log b = (case find (covers b) log of None \<Rightarrow> F_UNLCK | Some lk \<Rightarrow> l_type lk)"

text \<open>A step of a run: a handle asks for a level, or gives up all locks.\<close>

datatype excl_op = Lk nat int | Ul nat

fun excl_run :: "(int \<times> flock list) vfs \<Rightarrow> excl_op list \<Rightarrow> (int \<times> flock list) vfs option" where
  "excl_run s [] = Some s"
| "excl_run s (Lk i e # ops) = do {
     f \<leftarrow> v_file s i;
     (rc, s) \<leftarrow> (if lock_request (uf_eFileLock f) e then on_handle (unixLock excl_os e) i s else None);
     excl_run s ops
   }"
| "excl_run s (Ul i # ops) = do { (rc, s) \<leftarrow> on_handle (unixUnlock excl_os 0) i s; excl_run s ops }"

text \<open>Handle 7 is opened for writing, handle 8 read-only.\<close>

definition excl_two :: "(int \<times> flock list) vfs" where
  "excl_two = snd (unixOpen excl_os True True 8 ''/db'' 1 (snd (unixOpen excl_os True True 7 ''/db'' 6
     \<lparr>v_file = Map.empty, v_inode = Map.empty, v_os = (3, [])\<rparr>)))"

lemma excl_run_reachable:
  "excl_run s ops = Some s' \<Longrightarrow> vfs_reachable excl_os s \<Longrightarrow> vfs_reachable excl_os s'"
proof (induction ops arbitrary: s)
  case (Cons x ops)
  show ?case
  proof (cases x)
    case (Lk i e)
    then obtain f rc t where "v_file s i = Some f" "lock_request (uf_eFileLock f) e"
      "on_handle (unixLock excl_os e) i s = Some (rc, t)" "excl_run t ops = Some s'"
      using Cons.prems(1) by (auto split: Option.bind_splits if_splits)
    then show ?thesis using Cons.IH Cons.prems(2) reach_step step_lock by metis
  next
    case (Ul i)
    then obtain rc t where "on_handle (unixUnlock excl_os 0) i s = Some (rc, t)" "excl_run t ops = Some s'"
      using Cons.prems(1) by (auto split: Option.bind_splits)
    then show ?thesis using Cons.IH Cons.prems(2) reach_step step_unlock by metis
  qed
qed simp

definition excl_file :: "int \<Rightarrow> u16 \<Rightarrow> u32 \<Rightarrow> int \<Rightarrow> unixFile" where
  "excl_file h c fl l = \<lparr>uf_pInode = Some (0, 7), uf_h = h, uf_eFileLock = l, uf_ctrlFlags = c,
     uf_lastErrno = Enone, uf_pPreallocatedUnused = Some \<lparr>uu_fd = h, uu_flags = fl\<rparr>\<rparr>"

lemma excl_two_eq:
  "excl_two = \<lparr>v_file = [7 \<mapsto> excl_file 3 0x11 6 0, 8 \<mapsto> excl_file 4 0x13 1 0],
     v_inode = [(0, 7) \<mapsto> demo_inode 0 0 2], v_os = (5, [])\<rparr>"
  by (simp add: excl_two_def excl_os_def unixOpen_def findReusableFd_def fillInUnixFile_def
      findInodeInfo_def excl_file_def demo_inode_def Let_def)

lemma excl_two_reachable: "vfs_reachable excl_os excl_two"
proof -
  define s0 :: "(int \<times> flock list) vfs" where "s0 = \<lparr>v_file = Map.empty, v_inode = Map.empty, v_os = (3, [])\<rparr>"
  define s1 where "s1 = snd (unixOpen excl_os True True 7 ''/db'' 6 s0)"
  have free: "v_file s1 8 = None"
    by (simp add: s1_def s0_def excl_os_def unixOpen_def findReusableFd_def fillInUnixFile_def
        findInodeInfo_def Let_def)
  have "vfs_reachable excl_os s0" unfolding s0_def by (rule reach_init)
  moreover have "vfs_step excl_os s0 s1"
    by (rule step_open [of _ 7 _ True True "''/db''" 6 "fst (unixOpen excl_os True True 7 ''/db'' 6 s0)"])
      (simp_all add: s0_def s1_def)
  moreover have "vfs_step excl_os s1 excl_two"
    by (rule step_open [of _ 8 _ True True "''/db''" 1 "fst (unixOpen excl_os True True 8 ''/db'' 1 s1)"])
      (rule free, simp add: excl_two_def s0_def s1_def)
  ultimately show ?thesis by (metis reach_step)
qed

lemmas excl_defs = excl_os_def unixLock_def unixLock_shared_def unixLock_finish_def unixFileLock_def setters
  osSetPosixAdvisoryLock_def unixUnlock_def posixUnlock_def posixUnlock_none_def closePendingFds_def
  excl_file_def demo_inode_def on_handle_def lock_request_def Let_def

text \<open>The comment of \<open>unixFileLock\<close> says that the exclusive lock of the process is obtained the first
  time any lock is attempted, and an assertion that no lock is counted by then.  With the read-only
  handle first it is not so: when the writable handle first comes to \<open>unixFileLock\<close>, two locks are
  counted.\<close>

theorem process_lock_assert_fails:
  "\<exists>s f n rc s' n'. vfs_reachable excl_os s \<and> v_file s 7 = Some f \<and>
     uf_ctrlFlags f AND (UNIXFILE_EXCL OR UNIXFILE_RDONLY) = UNIXFILE_EXCL \<and>
     v_inode s (0, 7) = Some n \<and> \<not> ino_bProcessLock n \<and> ino_nLock n = 2 \<and>
     lock_request (uf_eFileLock f) RESERVED_LOCK \<and>
     on_handle (unixLock excl_os RESERVED_LOCK) 7 s = Some (rc, s') \<and>
     v_inode s' (0, 7) = Some n' \<and> ino_bProcessLock n'"
proof -
  have "\<exists>s. excl_run excl_two [Lk 8 1, Lk 7 1] = Some s \<and>
     v_file s 7 = Some (excl_file 3 0x11 6 1) \<and> v_inode s (0, 7) = Some (demo_inode 2 1 2)"
    by (simp add: excl_two_eq excl_defs)
  then obtain s where run: "excl_run excl_two [Lk 8 1, Lk 7 1] = Some s"
    and f: "v_file s 7 = Some (excl_file 3 0x11 6 1)" and n: "v_inode s (0, 7) = Some (demo_inode 2 1 2)" by blast
  have "\<exists>rc s' n'. on_handle (unixLock excl_os RESERVED_LOCK) 7 s = Some (rc, s') \<and>
     v_inode s' (0, 7) = Some n' \<and> ino_bProcessLock n'"
    using f n by (simp add: excl_defs)
  moreover have "vfs_reachable excl_os s" using excl_run_reachable [OF run excl_two_reachable] .
  ultimately show ?thesis
    using f n by (auto simp: excl_file_def demo_inode_def lock_request_def intro!: exI [of _ s])
qed

text \<open>Worse, the locks of the process are lost: when the read-only handle gives up the last level held,
  it unlocks the whole file, and \<open>bProcessLock\<close> stays set.  From then on the writable handle reaches
  EXCLUSIVE without a request to the system, while the process holds no lock on any byte.\<close>

theorem process_lock_lost:
  "\<exists>s f n. vfs_reachable excl_os s \<and> v_file s 7 = Some f \<and> uf_eFileLock f = EXCLUSIVE_LOCK \<and>
     v_inode s (0, 7) = Some n \<and> ino_bProcessLock n \<and>
     (\<forall>b \<ge> 0. held_by_process (snd (v_os s)) b = F_UNLCK)"
proof -
  have "\<exists>s. excl_run excl_two [Lk 7 1, Ul 7, Lk 8 1, Ul 8, Lk 7 1, Lk 7 2, Lk 7 4] = Some s \<and>
     v_file s 7 = Some (excl_file 3 0x11 6 4) \<and>
     v_inode s (0, 7) = Some ((demo_inode 1 4 2)\<lparr>ino_nLock := 2, ino_bProcessLock := True\<rparr>) \<and>
     (\<exists>log. snd (v_os s) = \<lparr>l_type = F_UNLCK, l_start = 0, l_len = 0\<rparr> # log)"
    by (simp add: excl_two_eq excl_defs)
  then obtain s log where run: "excl_run excl_two [Lk 7 1, Ul 7, Lk 8 1, Ul 8, Lk 7 1, Lk 7 2, Lk 7 4] = Some s"
    and f: "v_file s 7 = Some (excl_file 3 0x11 6 4)"
    and n: "v_inode s (0, 7) = Some ((demo_inode 1 4 2)\<lparr>ino_nLock := 2, ino_bProcessLock := True\<rparr>)"
    and log: "snd (v_os s) = \<lparr>l_type = F_UNLCK, l_start = 0, l_len = 0\<rparr> # log" by blast
  have "\<forall>b \<ge> 0. held_by_process (snd (v_os s)) b = F_UNLCK"
    by (simp add: log held_by_process_def covers_def)
  then show ?thesis
    using f n excl_run_reachable [OF run excl_two_reachable] by (auto simp: excl_file_def intro!: exI [of _ s])
qed

end
