(* ===== verification/RowSet.thy ===== *)
theory RowSet
  imports Prelude
begin

text \<open>
  The row set (\<open>sqlite3.c\<close>, part \<open>rowset.c\<close>) and the opcodes that use it
  (\<open>OP_RowSetAdd\<close>, \<open>OP_RowSetRead\<close>, \<open>OP_RowSetTest\<close> of \<open>vdbe.c\<close>).  Rowids are integers.
  Entries linked by \<open>pRight\<close> are lists, entries linked both ways are trees (\<open>Leaf\<close> is the
  null pointer), and the forest is the list of the \<open>pLeft\<close> trees of its root entries.  The
  bucket array of the sort has its 40 slots; an index behind it is \<open>None\<close>.  An allocation
  takes its outcome as an argument.
\<close>

section \<open>Data\<close>

datatype rtree = Leaf | Node (pLeft: rtree) (v: int) (pRight: rtree)

record RowSet =
  rs_pChunk :: nat              \<comment> \<open>number of chunks on the list\<close>
  rs_pEntry :: "int list"
  rs_pLast :: "int option"      \<comment> \<open>\<open>v\<close> of the last entry\<close>
  rs_pForest :: "rtree list"
  rs_nFresh :: nat
  rs_sorted :: bool             \<comment> \<open>ROWSET_SORTED\<close>
  rs_next :: bool               \<comment> \<open>ROWSET_NEXT\<close>
  rs_iBatch :: int

text \<open>\<open>(ROWSET_ALLOCATION_SIZE-8)/sizeof(struct RowSetEntry)\<close> with 8-byte pointers.\<close>

definition ROWSET_ENTRY_PER_CHUNK :: nat where "ROWSET_ENTRY_PER_CHUNK = (1024 - 8) div 24"

section \<open>Allocation, insertion\<close>

text \<open>\<open>n\<close> is the number of entries that fit behind the structure in its own allocation.\<close>

definition sqlite3RowSetInit :: "nat \<Rightarrow> RowSet" where
  "sqlite3RowSetInit n =
     \<lparr>rs_pChunk = 0, rs_pEntry = [], rs_pLast = None, rs_pForest = [], rs_nFresh = n,
      rs_sorted = True, rs_next = False, rs_iBatch = 0\<rparr>"

definition sqlite3RowSetClear :: "RowSet \<Rightarrow> RowSet" where
  "sqlite3RowSetClear p =
     p\<lparr>rs_pChunk := 0, rs_nFresh := 0, rs_pEntry := [], rs_pLast := None, rs_pForest := [],
       rs_sorted := True, rs_next := False\<rparr>"

definition rowSetEntryAlloc :: "bool \<Rightarrow> RowSet \<Rightarrow> bool \<times> RowSet" where
  "rowSetEntryAlloc mem p =
     (if rs_nFresh p = 0
      then if \<not> mem then (False, p)
           else (True, p\<lparr>rs_pChunk := rs_pChunk p + 1, rs_nFresh := ROWSET_ENTRY_PER_CHUNK - 1\<rparr>)
      else (True, p\<lparr>rs_nFresh := rs_nFresh p - 1\<rparr>))"

definition sqlite3RowSetInsert :: "bool \<Rightarrow> RowSet \<Rightarrow> int \<Rightarrow> RowSet" where
  "sqlite3RowSetInsert mem p rowid =
     (let (ok, p) = rowSetEntryAlloc mem p
      in if \<not> ok then p
         else case rs_pLast p of
           Some l \<Rightarrow> p\<lparr>rs_sorted := (if rowid \<le> l then False else rs_sorted p),
                       rs_pEntry := rs_pEntry p @ [rowid], rs_pLast := Some rowid\<rparr>
         | None \<Rightarrow> p\<lparr>rs_pEntry := [rowid], rs_pLast := Some rowid\<rparr>)"

section \<open>Merge and sort\<close>

text \<open>The code asserts that neither list is empty.  On equal heads the entry of \<open>pA\<close> is
  dropped.\<close>

fun rowSetEntryMerge :: "int list \<Rightarrow> int list \<Rightarrow> int list" where
  "rowSetEntryMerge [] pB = pB"
| "rowSetEntryMerge pA [] = pA"
| "rowSetEntryMerge (a # pA) (b # pB) =
     (if a \<le> b then (if a < b then [a] else []) @ rowSetEntryMerge pA (b # pB)
      else b # rowSetEntryMerge (a # pA) pB)"

text \<open>The inner loop of the sort: merge into the first empty bucket.\<close>

fun sort_insert :: "int list list \<Rightarrow> int list \<Rightarrow> int list list option" where
  "sort_insert [] pIn = None"
| "sort_insert (b # bs) pIn =
     (if b = [] then Some (pIn # bs)
      else do { bs' \<leftarrow> sort_insert bs (rowSetEntryMerge b pIn); Some ([] # bs') })"

fun sort_fill :: "int list list \<Rightarrow> int list \<Rightarrow> int list list option" where
  "sort_fill aBucket [] = Some aBucket"
| "sort_fill aBucket (x # pIn) = do { aBucket \<leftarrow> sort_insert aBucket [x]; sort_fill aBucket pIn }"

text \<open>The final loop over the buckets; \<open>[]\<close> is the null pointer.\<close>

fun sort_collect :: "int list \<Rightarrow> int list list \<Rightarrow> int list" where
  "sort_collect pIn [] = pIn"
| "sort_collect pIn (b # bs) =
     sort_collect (if b = [] then pIn else if pIn \<noteq> [] then rowSetEntryMerge pIn b else b) bs"

definition rowSetEntrySort :: "int list \<Rightarrow> int list option" where
  "rowSetEntrySort pIn = do {
     aBucket \<leftarrow> sort_fill (replicate 40 []) pIn;
     Some (sort_collect (hd aBucket) (tl aBucket))
   }"

section \<open>Lists and trees\<close>

fun rowSetTreeToList :: "rtree \<Rightarrow> int list" where
  "rowSetTreeToList Leaf = []"
| "rowSetTreeToList (Node l x r) = rowSetTreeToList l @ x # rowSetTreeToList r"

text \<open>Result: the tree and what is left of the list.\<close>

fun rowSetNDeepTree :: "nat \<Rightarrow> int list \<Rightarrow> rtree \<times> int list" where
  "rowSetNDeepTree d [] = (Leaf, [])"
| "rowSetNDeepTree (Suc (Suc d)) (y # ys) =
     (let (pLeft, ppList) = rowSetNDeepTree (Suc d) (y # ys)
      in case ppList of
           [] \<Rightarrow> (pLeft, [])
         | x # xs \<Rightarrow> let (r, ppList) = rowSetNDeepTree (Suc d) xs in (Node pLeft x r, ppList))"
| "rowSetNDeepTree d (x # xs) = (Node Leaf x Leaf, xs)"

lemma NDeepTree_length: "length (snd (rowSetNDeepTree d xs)) \<le> length xs"
  by (induction d xs rule: rowSetNDeepTree.induct) (fastforce split: prod.splits list.splits)+

function listToTree_loop :: "nat \<Rightarrow> rtree \<Rightarrow> int list \<Rightarrow> rtree" where
  "listToTree_loop iDepth p [] = p"
| "listToTree_loop iDepth p (x # pList) =
     (let (r, pList') = rowSetNDeepTree iDepth pList in listToTree_loop (iDepth + 1) (Node p x r) pList')"
  by pat_completeness auto
termination
  by (relation "measure (\<lambda>(d, p, xs). length xs)") (auto, metis NDeepTree_length le_imp_less_Suc snd_conv)

fun rowSetListToTree :: "int list \<Rightarrow> rtree" where
  "rowSetListToTree [] = Leaf"
| "rowSetListToTree (x # pList) = listToTree_loop 1 (Node Leaf x Leaf) pList"

section \<open>Reading and testing\<close>

text \<open>\<open>None\<close>: the sort ran out of buckets.  Otherwise the rowid, or \<open>None\<close> at the end.\<close>

definition sqlite3RowSetNext :: "RowSet \<Rightarrow> (int option \<times> RowSet) option" where
  "sqlite3RowSetNext p = do {
     p \<leftarrow> (if \<not> rs_next p
           then do {
             l \<leftarrow> (if \<not> rs_sorted p then rowSetEntrySort (rs_pEntry p) else Some (rs_pEntry p));
             Some (p\<lparr>rs_pEntry := l, rs_sorted := True, rs_next := True\<rparr>)
           }
           else Some p);
     Some (case rs_pEntry p of
         [] \<Rightarrow> (None, p)
       | x # xs \<Rightarrow>
           (Some x, let p = p\<lparr>rs_pEntry := xs\<rparr> in if xs = [] then sqlite3RowSetClear p else p))
   }"

text \<open>The loop over the forest: the new forest, and the list for which no empty root was
  found.\<close>

fun forest_add :: "int list \<Rightarrow> rtree list \<Rightarrow> rtree list \<times> int list option" where
  "forest_add p [] = ([], Some p)"
| "forest_add p (t # ts) =
     (if t = Leaf then (rowSetListToTree p # ts, None)
      else let (ts', r) = forest_add (rowSetEntryMerge (rowSetTreeToList t) p) ts in (Leaf # ts', r))"

fun tree_search :: "int \<Rightarrow> rtree \<Rightarrow> bool" where
  "tree_search iRowid Leaf = False"
| "tree_search iRowid (Node l x r) =
     (if x < iRowid then tree_search iRowid r else if x > iRowid then tree_search iRowid l else True)"

definition rowset_new_batch :: "bool \<Rightarrow> RowSet \<Rightarrow> RowSet option" where
  "rowset_new_batch mem q = do {
     p \<leftarrow> (if \<not> rs_sorted q then rowSetEntrySort (rs_pEntry q) else Some (rs_pEntry q));
     let (ts, left) = forest_add p (rs_pForest q);
     let q = (case left of
                None \<Rightarrow> q\<lparr>rs_pForest := ts\<rparr>
              | Some p \<Rightarrow> let (ok, q) = rowSetEntryAlloc mem q
                          in q\<lparr>rs_pForest := (if ok then ts @ [rowSetListToTree p] else ts)\<rparr>);
     Some (q\<lparr>rs_pEntry := [], rs_pLast := None, rs_sorted := True\<rparr>)
   }"

definition sqlite3RowSetTest :: "bool \<Rightarrow> RowSet \<Rightarrow> int \<Rightarrow> int \<Rightarrow> (bool \<times> RowSet) option" where
  "sqlite3RowSetTest mem q iBatch iRowid = do {
     q \<leftarrow> (if iBatch \<noteq> rs_iBatch q
           then do {
             q \<leftarrow> (if rs_pEntry q \<noteq> [] then rowset_new_batch mem q else Some q);
             Some (q\<lparr>rs_iBatch := iBatch\<rparr>)
           }
           else Some q);
     Some (list_ex (tree_search iRowid) (rs_pForest q), q)
   }"

section \<open>The opcodes\<close>

text \<open>\<open>OP_RowSetTest\<close> on the row set of register P1: whether it jumps to P2.\<close>

definition OP_RowSetTest :: "bool \<Rightarrow> bool \<Rightarrow> int \<Rightarrow> int \<Rightarrow> RowSet \<Rightarrow> (bool \<times> RowSet) option" where
  "OP_RowSetTest mem mem' iSet r3 rs = do {
     (exists, rs) \<leftarrow> (if iSet \<noteq> 0 then sqlite3RowSetTest mem rs iSet r3 else Some (False, rs));
     Some (if exists then (True, rs)
           else (False, if iSet \<ge> 0 then sqlite3RowSetInsert mem' rs r3 else rs))
   }"

section \<open>Merging and sorting are correct\<close>

lemma merge_Nil2 [simp]: "rowSetEntryMerge xs [] = xs"
  by (cases xs) auto

lemma merge_cases:
  "a < b \<Longrightarrow> rowSetEntryMerge (a # pA) (b # pB) = a # rowSetEntryMerge pA (b # pB)"
  "rowSetEntryMerge (a # pA) (a # pB) = rowSetEntryMerge pA (a # pB)"
  "b < a \<Longrightarrow> rowSetEntryMerge (a # pA) (b # pB) = b # rowSetEntryMerge (a # pA) pB"
  by simp_all

declare rowSetEntryMerge.simps(3) [simp del] merge_cases [simp]

lemma set_merge [simp]: "set (rowSetEntryMerge xs ys) = set xs \<union> set ys"
proof (induction xs ys rule: rowSetEntryMerge.induct)
  case (3 a pA b pB)
  show ?case
    using 3 by (cases a b rule: linorder_cases) (simp_all add: insert_commute)
qed simp_all

lemma sorted_merge:
  "sorted_wrt (<) xs \<Longrightarrow> sorted_wrt (<) ys \<Longrightarrow> sorted_wrt (<) (rowSetEntryMerge xs ys)"
proof (induction xs ys rule: rowSetEntryMerge.induct)
  case (3 a pA b pB)
  then show ?case
    by (cases a b rule: linorder_cases) (auto intro: order.strict_trans)
qed simp_all

lemma merge_eq_Nil [simp]: "rowSetEntryMerge xs ys = [] \<longleftrightarrow> xs = [] \<and> ys = []"
  by (metis Un_empty set_empty set_merge)

text \<open>The bucket array is a binary counter of the entries inserted: bucket \<open>i\<close> is occupied
  when bit \<open>i\<close> of the count is set, so the array suffices while the count is below \<open>2^40\<close>.\<close>

fun bucket_count :: "int list list \<Rightarrow> nat" where
  "bucket_count [] = 0"
| "bucket_count (b # bs) = (if b = [] then 0 else 1) + 2 * bucket_count bs"

lemma sort_insert_ok:
  assumes "bucket_count bs + 1 < 2 ^ length bs" and "pIn \<noteq> []"
  obtains bs' where "sort_insert bs pIn = Some bs'" and "bucket_count bs' = bucket_count bs + 1"
    and "length bs' = length bs" and "\<Union> (set ` set bs') = \<Union> (set ` set bs) \<union> set pIn"
    and "sorted_wrt (<) pIn \<Longrightarrow> \<forall>b \<in> set bs. sorted_wrt (<) b \<Longrightarrow> \<forall>b \<in> set bs'. sorted_wrt (<) b"
  using assms
proof (induction bs pIn arbitrary: thesis rule: sort_insert.induct)
  case (2 b bs pIn)
  show ?case
  proof (cases "b = []")
    case True
    then show ?thesis using 2(2) [of "pIn # bs"] 2(3,4) by auto
  next
    case False
    then have "bucket_count bs + 1 < 2 ^ length bs" using 2(3) by simp
    note IH = 2(1) [OF False _ this]
    have "rowSetEntryMerge b pIn \<noteq> []" using False by simp
    then obtain bs' where bs: "sort_insert bs (rowSetEntryMerge b pIn) = Some bs'"
      "bucket_count bs' = bucket_count bs + 1" "length bs' = length bs"
      "\<Union> (set ` set bs') = \<Union> (set ` set bs) \<union> set (rowSetEntryMerge b pIn)"
      "sorted_wrt (<) (rowSetEntryMerge b pIn) \<Longrightarrow> \<forall>b \<in> set bs. sorted_wrt (<) b \<Longrightarrow>
         \<forall>b \<in> set bs'. sorted_wrt (<) b"
      using IH by blast
    show ?thesis
    proof (rule 2(2))
      show "sort_insert (b # bs) pIn = Some ([] # bs')" using False bs by simp
      show "\<Union> (set ` set ([] # bs')) = \<Union> (set ` set (b # bs)) \<union> set pIn" using bs(4) by auto
      show "\<forall>c \<in> set ([] # bs'). sorted_wrt (<) c"
        if "sorted_wrt (<) pIn" "\<forall>c \<in> set (b # bs). sorted_wrt (<) c"
        using bs(5) that sorted_merge by simp
    qed (use False bs in simp_all)
  qed
qed simp

lemma sort_fill_ok:
  assumes "bucket_count bs + length xs < 2 ^ length bs" and "\<forall>b \<in> set bs. sorted_wrt (<) b"
  shows "\<exists>bs'. sort_fill bs xs = Some bs' \<and> length bs' = length bs \<and>
    \<Union> (set ` set bs') = \<Union> (set ` set bs) \<union> set xs \<and> (\<forall>b \<in> set bs'. sorted_wrt (<) b)"
  using assms
proof (induction xs arbitrary: bs)
  case (Cons x xs)
  obtain bs' where b: "sort_insert bs [x] = Some bs'" "bucket_count bs' = bucket_count bs + 1"
    "length bs' = length bs" "\<Union> (set ` set bs') = \<Union> (set ` set bs) \<union> set [x]"
    "\<forall>b \<in> set bs'. sorted_wrt (<) b"
    using sort_insert_ok [of bs "[x]"] Cons.prems by auto
  then show ?case using Cons.IH [of bs'] Cons.prems(1) by auto
qed simp

lemma sort_collect_ok:
  "sorted_wrt (<) p \<Longrightarrow> \<forall>b \<in> set bs. sorted_wrt (<) b \<Longrightarrow>
    sorted_wrt (<) (sort_collect p bs) \<and> set (sort_collect p bs) = set p \<union> \<Union> (set ` set bs)"
  by (induction p bs rule: sort_collect.induct) (auto simp: sorted_merge)

lemma bucket_count_replicate [simp]: "bucket_count (replicate n []) = 0"
  by (induction n) auto

lemma sort_ok:
  assumes "length xs < 2 ^ 40"
  obtains ys where "rowSetEntrySort xs = Some ys" and "sorted_wrt (<) ys" and "set ys = set xs"
proof -
  obtain bs where bs: "sort_fill (replicate 40 []) xs = Some bs" "length bs = 40"
    "\<Union> (set ` set bs) = set xs" "\<forall>b \<in> set bs. sorted_wrt (<) b"
    using sort_fill_ok [of "replicate 40 []" xs] assms by auto
  then obtain b bs' where "bs = b # bs'" by (cases bs) auto
  with bs sort_collect_ok [of b bs'] that [of "sort_collect b bs'"] show ?thesis
    by (auto simp: rowSetEntrySort_def)
qed

section \<open>Trees\<close>

lemma NDeepTree_inorder:
  "rowSetNDeepTree d xs = (t, ys) \<Longrightarrow> rowSetTreeToList t @ ys = xs"
proof (induction d xs arbitrary: t ys rule: rowSetNDeepTree.induct)
  case (2 d y zs)
  then show ?case by (fastforce split: prod.splits list.splits)
qed auto

lemma listToTree_loop_inorder:
  "rowSetTreeToList (listToTree_loop d p xs) = rowSetTreeToList p @ xs"
  by (induction d p xs rule: listToTree_loop.induct)
    (auto split: prod.splits dest: NDeepTree_inorder)

lemma listToTree_inorder: "rowSetTreeToList (rowSetListToTree xs) = xs"
  by (cases xs) (simp_all add: listToTree_loop_inorder)

lemma listToTree_eq_Leaf [simp]: "rowSetListToTree xs = Leaf \<longleftrightarrow> xs = []"
  by (metis listToTree_inorder list.discI neq_Nil_conv rowSetListToTree.simps(1) rowSetTreeToList.simps(1))

lemma search_sorted:
  "sorted_wrt (<) (rowSetTreeToList t) \<Longrightarrow> tree_search x t \<longleftrightarrow> x \<in> set (rowSetTreeToList t)"
  by (induction t) (auto simp: sorted_wrt_append)

text \<open>The trees are balanced: a tree of height \<open>h\<close> has at least \<open>2^(h-1)\<close> entries.\<close>

fun theight :: "rtree \<Rightarrow> nat" where
  "theight Leaf = 0"
| "theight (Node l x r) = Suc (max (theight l) (theight r))"

abbreviation tsize :: "rtree \<Rightarrow> nat" where
  "tsize t \<equiv> length (rowSetTreeToList t)"

lemma NDeepTree_full:
  "rowSetNDeepTree d xs = (t, ys) \<Longrightarrow> 0 < d \<Longrightarrow>
    theight t \<le> d \<and> (ys = [] \<or> theight t = d \<and> tsize t + 1 = 2 ^ d)"
proof (induction d xs arbitrary: t ys rule: rowSetNDeepTree.induct)
  case (2 d y zs)
  obtain l xs where l: "rowSetNDeepTree (Suc d) (y # zs) = (l, xs)" by fastforce
  have IH1: "theight l \<le> Suc d \<and> (xs = [] \<or> theight l = Suc d \<and> tsize l + 1 = 2 ^ Suc d)"
    using 2(1) [OF l] by simp
  show ?case
  proof (cases xs)
    case Nil
    then show ?thesis using 2(3) l IH1 by auto
  next
    case (Cons x xs')
    obtain r ys' where r: "rowSetNDeepTree (Suc d) xs' = (r, ys')" by fastforce
    have "theight r \<le> Suc d \<and> (ys' = [] \<or> theight r = Suc d \<and> tsize r + 1 = 2 ^ Suc d)"
      using 2(2) [OF l [symmetric] refl Cons r] by simp
    then show ?thesis using 2(3) l r IH1 Cons by auto
  qed
qed auto

lemma listToTree_loop_height:
  assumes "0 < d" and "theight p = d" and "tsize p + 1 = 2 ^ d"
  shows "2 ^ (theight (listToTree_loop d p xs) - 1) \<le> tsize p + length xs"
  using assms
proof (induction d p xs rule: listToTree_loop.induct)
  case (1 d p)
  then have "(2::nat) * 2 ^ (d - 1) = tsize p + 1" by (cases d) auto
  moreover have "(1::nat) \<le> 2 ^ (d - 1)" by simp
  ultimately show ?case using 1(2) by simp
next
  case (2 d p x xs)
  obtain r ys where r: "rowSetNDeepTree d xs = (r, ys)" by fastforce
  have len: "length xs = tsize r + length ys"
    using NDeepTree_inorder [OF r] by (metis length_append)
  have full: "theight r \<le> d \<and> (ys = [] \<or> theight r = d \<and> tsize r + 1 = 2 ^ d)"
    using NDeepTree_full [OF r 2(2)] .
  show ?case
  proof (cases "ys = []")
    case True
    then show ?thesis using 2(2-4) full r len by simp
  next
    case False
    then have "theight (Node p x r) = d + 1" "tsize (Node p x r) + 1 = 2 ^ (d + 1)"
      using full 2(3,4) by simp_all
    then show ?thesis using 2(1) [OF r [symmetric] refl] r len by simp
  qed
qed

lemma listToTree_height: "xs \<noteq> [] \<Longrightarrow> 2 ^ (theight (rowSetListToTree xs) - 1) \<le> length xs"
  using listToTree_loop_height [of 1 "Node Leaf x Leaf" for x] by (cases xs) force+

section \<open>The row set as two sets\<close>

definition rowset_ok :: "RowSet \<Rightarrow> nat \<Rightarrow> bool" where
  "rowset_ok p n \<longleftrightarrow>
     rs_pLast p = (if rs_pEntry p = [] then None else Some (last (rs_pEntry p))) \<and>
     \<not> rs_next p \<and> (rs_sorted p \<longrightarrow> sorted_wrt (<) (rs_pEntry p)) \<and>
     (\<forall>t \<in> set (rs_pForest p). sorted_wrt (<) (rowSetTreeToList t)) \<and> length (rs_pEntry p) \<le> n"

definition rowset_cur :: "RowSet \<Rightarrow> int set" where
  "rowset_cur p = set (rs_pEntry p)"

definition rowset_old :: "RowSet \<Rightarrow> int set" where
  "rowset_old p = (\<Union>t \<in> set (rs_pForest p). set (rowSetTreeToList t))"

lemma rowset_init:
  "rowset_ok (sqlite3RowSetInit k) 0" "rowset_cur (sqlite3RowSetInit k) = {}"
  "rowset_old (sqlite3RowSetInit k) = {}" "rs_iBatch (sqlite3RowSetInit k) = 0"
  by (simp_all add: sqlite3RowSetInit_def rowset_ok_def rowset_cur_def rowset_old_def)

lemma entryAlloc_mem [simp]: "fst (rowSetEntryAlloc True p)"
  by (simp add: rowSetEntryAlloc_def)

lemma entryAlloc_keeps:
  "rowSetEntryAlloc mem p = (ok, q) \<Longrightarrow> rs_pEntry q = rs_pEntry p \<and> rs_pLast q = rs_pLast p \<and>
    rs_pForest q = rs_pForest p \<and> rs_sorted q = rs_sorted p \<and> rs_next q = rs_next p \<and>
    rs_iBatch q = rs_iBatch p"
  by (auto simp: rowSetEntryAlloc_def split: if_splits)

lemma sorted_snoc: "sorted_wrt (<) xs \<Longrightarrow> xs \<noteq> [] \<Longrightarrow> last xs < (x::int) \<Longrightarrow> sorted_wrt (<) (xs @ [x])"
proof -
  assume s: "sorted_wrt (<) xs" "xs \<noteq> []" "last xs < x"
  have "y \<le> last xs" if "y \<in> set xs" for y
    using that s by (induction xs) (auto split: if_splits intro: less_imp_le dest: bspec [OF _ last_in_set])
  then show ?thesis using s by (auto simp: sorted_wrt_append intro: le_less_trans)
qed

lemma rowset_insert:
  assumes "rowset_ok p n"
  shows "rowset_ok (sqlite3RowSetInsert mem p r) (n + 1)"
    and "rowset_old (sqlite3RowSetInsert mem p r) = rowset_old p"
    and "rs_iBatch (sqlite3RowSetInsert mem p r) = rs_iBatch p"
    and "rowset_cur (sqlite3RowSetInsert mem p r) \<subseteq> insert r (rowset_cur p)"
    and "mem \<Longrightarrow> rowset_cur (sqlite3RowSetInsert mem p r) = insert r (rowset_cur p)"
proof -
  obtain ok q where q: "rowSetEntryAlloc mem p = (ok, q)" by fastforce
  note k = entryAlloc_keeps [OF q]
  have ok: "ok" if mem using q that entryAlloc_mem [of p] by simp
  have ins: "sqlite3RowSetInsert mem p r = (if \<not> ok then q else case rs_pLast p of
           Some l \<Rightarrow> q\<lparr>rs_sorted := (if r \<le> l then False else rs_sorted p),
                       rs_pEntry := rs_pEntry p @ [r], rs_pLast := Some r\<rparr>
         | None \<Rightarrow> q\<lparr>rs_pEntry := [r], rs_pLast := Some r\<rparr>)"
    using q k by (simp add: sqlite3RowSetInsert_def split: option.splits)
  show "rowset_ok (sqlite3RowSetInsert mem p r) (n + 1)"
    using assms k by (auto simp: ins rowset_ok_def sorted_snoc split: option.splits if_splits)
  show "rowset_old (sqlite3RowSetInsert mem p r) = rowset_old p"
    using k by (simp add: ins rowset_old_def split: option.splits)
  show "rs_iBatch (sqlite3RowSetInsert mem p r) = rs_iBatch p"
    using k by (simp add: ins split: option.splits)
  show "rowset_cur (sqlite3RowSetInsert mem p r) \<subseteq> insert r (rowset_cur p)"
    using k by (auto simp: ins rowset_cur_def split: option.splits)
  show "rowset_cur (sqlite3RowSetInsert mem p r) = insert r (rowset_cur p)" if mem
    using k ok [OF that] assms by (auto simp: ins rowset_cur_def rowset_ok_def split: option.splits if_splits)
qed

lemma forest_add_ok:
  assumes "forest_add p ts = (ts', r)" and "\<forall>t \<in> set ts. sorted_wrt (<) (rowSetTreeToList t)"
    and "sorted_wrt (<) p"
  shows "(\<forall>t \<in> set ts'. sorted_wrt (<) (rowSetTreeToList t)) \<and> (\<forall>q. r = Some q \<longrightarrow> sorted_wrt (<) q) \<and>
    (\<Union>t \<in> set ts'. set (rowSetTreeToList t)) \<union> (case r of Some q \<Rightarrow> set q | None \<Rightarrow> {})
      = (\<Union>t \<in> set ts. set (rowSetTreeToList t)) \<union> set p"
  using assms
proof (induction p ts arbitrary: ts' r rule: forest_add.induct)
  case (2 p t ts)
  show ?case
  proof (cases "t = Leaf")
    case True
    then show ?thesis using 2(2-4) by (auto simp: listToTree_inorder)
  next
    case False
    obtain ts1 r1 where rec: "forest_add (rowSetEntryMerge (rowSetTreeToList t) p) ts = (ts1, r1)" by fastforce
    then have res: "ts' = Leaf # ts1" "r = r1" using 2(2) False by auto
    show ?thesis
      using 2(1) [OF False rec] 2(3,4) sorted_merge [of "rowSetTreeToList t" p] by (simp add: res Un_ac)
  qed
qed auto

lemma rowset_new_batch_ok:
  assumes ok: "rowset_ok p n" and bound: "n < 2 ^ 40" and ne: "rs_pEntry p \<noteq> []"
  shows "\<exists>q. rowset_new_batch True p = Some q \<and> rowset_ok q 0 \<and> rowset_cur q = {} \<and>
    rowset_old q = rowset_old p \<union> rowset_cur p"
proof -
  obtain l where l: "(if \<not> rs_sorted p then rowSetEntrySort (rs_pEntry p) else Some (rs_pEntry p)) = Some l"
    "sorted_wrt (<) l" "set l = rowset_cur p"
  proof (cases "rs_sorted p")
    case False
    have "length (rs_pEntry p) < 2 ^ 40" using ok bound by (simp add: rowset_ok_def)
    from sort_ok [OF this] False that show ?thesis by (auto simp: rowset_cur_def)
  qed (use ok that in \<open>simp add: rowset_ok_def rowset_cur_def\<close>)
  obtain ts r where f: "forest_add l (rs_pForest p) = (ts, r)" by fastforce
  have g: "(\<forall>t \<in> set ts. sorted_wrt (<) (rowSetTreeToList t)) \<and> (\<forall>q. r = Some q \<longrightarrow> sorted_wrt (<) q) \<and>
    (\<Union>t \<in> set ts. set (rowSetTreeToList t)) \<union> (case r of Some q \<Rightarrow> set q | None \<Rightarrow> {})
      = rowset_old p \<union> rowset_cur p"
    using forest_add_ok [OF f _ l(2)] ok l(3) by (simp add: rowset_ok_def rowset_old_def)
  obtain ok' q where a: "rowSetEntryAlloc True p = (ok', q)" by fastforce
  then have "ok'" using entryAlloc_mem [of p] by simp
  moreover have "\<not> rs_next p" using ok by (simp add: rowset_ok_def)
  ultimately show ?thesis
    using g entryAlloc_keeps [OF a]
    by (cases r) (auto simp: rowset_new_batch_def l(1) f a rowset_ok_def rowset_cur_def rowset_old_def
        listToTree_inorder)
qed

lemma rowset_test:
  assumes ok: "rowset_ok p n" and bound: "n < 2 ^ 40"
  shows "\<exists>q. sqlite3RowSetTest True p b x = Some (x \<in> rowset_old q, q) \<and> rowset_ok q n \<and> rs_iBatch q = b \<and>
    rowset_old q = (if b \<noteq> rs_iBatch p then rowset_old p \<union> rowset_cur p else rowset_old p) \<and>
    rowset_cur q = (if b \<noteq> rs_iBatch p then {} else rowset_cur p)"
proof -
  have search: "list_ex (tree_search x) (rs_pForest q) \<longleftrightarrow> x \<in> rowset_old q" if "rowset_ok q m" for q m
    using that by (auto simp: rowset_ok_def rowset_old_def list_ex_iff search_sorted)
  consider "b = rs_iBatch p" | "b \<noteq> rs_iBatch p" "rs_pEntry p = []" | "b \<noteq> rs_iBatch p" "rs_pEntry p \<noteq> []"
    by blast
  then show ?thesis
  proof cases
    case 1
    then show ?thesis using ok search [OF ok] by (simp add: sqlite3RowSetTest_def)
  next
    case 2
    then have "rowset_ok (p\<lparr>rs_iBatch := b\<rparr>) n" using ok by (simp add: rowset_ok_def)
    from search [OF this] this 2 show ?thesis
      by (simp add: sqlite3RowSetTest_def rowset_old_def rowset_cur_def)
  next
    case 3
    then obtain q where q: "rowset_new_batch True p = Some q" "rowset_ok q 0" "rowset_cur q = {}"
      "rowset_old q = rowset_old p \<union> rowset_cur p"
      using rowset_new_batch_ok [OF ok bound] by blast
    then have "rowset_ok (q\<lparr>rs_iBatch := b\<rparr>) n" by (simp add: rowset_ok_def)
    from search [OF this] this 3 q show ?thesis
      by (simp add: sqlite3RowSetTest_def rowset_old_def rowset_cur_def)
  qed
qed

section \<open>The contract of the duplicate filter\<close>

text \<open>What the code generated for an OR of index lookups expects of \<open>OP_RowSetTest\<close>: the
  rows of term \<open>ii\<close> are passed with set number \<open>ii\<close>, or -1 for the last term; a jump means
  that an earlier term has produced the row.\<close>

locale duplicate_filter =
  fixes opn :: "int \<Rightarrow> int \<Rightarrow> 'r \<Rightarrow> (bool \<times> 'r) option"
    and ok :: "'r \<Rightarrow> nat \<Rightarrow> bool" and bound :: nat
    and old :: "'r \<Rightarrow> int set" and cur :: "'r \<Rightarrow> int set" and batch :: "'r \<Rightarrow> int"
  assumes op_first: "ok r n \<Longrightarrow> opn 0 x r = Some (j, r') \<Longrightarrow>
      \<not> j \<and> ok r' (Suc n) \<and> old r' = old r \<and> cur r' = insert x (cur r) \<and> batch r' = batch r"
    and op_later: "ok r n \<Longrightarrow> n < bound \<Longrightarrow> iSet \<noteq> 0 \<Longrightarrow> opn iSet x r = Some (j, r') \<Longrightarrow>
      ok r' (Suc n) \<and> batch r' = iSet \<and>
      old r' = (if iSet = batch r then old r else old r \<union> cur r) \<and> j = (x \<in> old r') \<and>
      cur r' = (if iSet = batch r then cur r else {}) \<union> (if \<not> j \<and> 0 \<le> iSet then {x} else {})"
    and op_total: "ok r n \<Longrightarrow> n < bound \<Longrightarrow> opn iSet x r \<noteq> None"

text \<open>The rows of one term, and of all terms from number \<open>ii\<close> on, that are not skipped.\<close>

fun or_term :: "(int \<Rightarrow> int \<Rightarrow> 'r \<Rightarrow> (bool \<times> 'r) option) \<Rightarrow> int \<Rightarrow> int list \<Rightarrow> 'r \<Rightarrow> (int list \<times> 'r) option"
where
  "or_term opn iSet [] r = Some ([], r)"
| "or_term opn iSet (x # xs) r = do {
     (j, r) \<leftarrow> opn iSet x r;
     (ys, r) \<leftarrow> or_term opn iSet xs r;
     Some (if j then ys else x # ys, r)
   }"

fun or_terms :: "(int \<Rightarrow> int \<Rightarrow> 'r \<Rightarrow> (bool \<times> 'r) option) \<Rightarrow> int \<Rightarrow> int list list \<Rightarrow> 'r \<Rightarrow> (int list \<times> 'r) option"
where
  "or_terms opn ii [] r = Some ([], r)"
| "or_terms opn ii (rows # terms) r = do {
     (ys, r) \<leftarrow> or_term opn (if terms = [] then -1 else ii) rows r;
     (zs, r) \<leftarrow> or_terms opn (ii + 1) terms r;
     Some (ys @ zs, r)
   }"

context duplicate_filter
begin

lemma op_later_cases:
  assumes "ok r n" and "n < bound" and "iSet \<noteq> 0"
  obtains r' where "opn iSet x r = Some (x \<in> old r', r')" and "ok r' (Suc n)" and "batch r' = iSet"
    and "old r' = (if iSet = batch r then old r else old r \<union> cur r)"
    and "cur r' = (if iSet = batch r then cur r else {}) \<union> (if x \<notin> old r' \<and> 0 \<le> iSet then {x} else {})"
proof -
  obtain j r' where run: "opn iSet x r = Some (j, r')"
    using op_total [OF assms(1,2), of iSet x] by auto
  from op_later [OF assms run] that [of r'] run show ?thesis by auto
qed

lemma or_term_same:
  assumes "ok r n" and "n + length xs \<le> bound" and "iSet \<noteq> 0" and "batch r = iSet"
  shows "\<exists>r'. or_term opn iSet xs r = Some ([x \<leftarrow> xs. x \<notin> old r], r') \<and> ok r' (n + length xs) \<and>
    batch r' = iSet \<and> old r' = old r \<and> cur r' = cur r \<union> (if 0 \<le> iSet then set xs - old r else {})"
  using assms
proof (induction xs arbitrary: r n)
  case (Cons x xs)
  then have "n < bound" by simp
  obtain r1 where r1: "opn iSet x r = Some (x \<in> old r1, r1)" "ok r1 (Suc n)" "batch r1 = iSet"
    "old r1 = (if iSet = batch r then old r else old r \<union> cur r)"
    "cur r1 = (if iSet = batch r then cur r else {}) \<union> (if x \<notin> old r1 \<and> 0 \<le> iSet then {x} else {})"
    by (rule op_later_cases [OF Cons.prems(1) \<open>n < bound\<close> Cons.prems(3)])
  have "Suc n + length xs \<le> bound" using Cons.prems(2) by simp
  from Cons.IH [OF r1(2) this Cons.prems(3) r1(3)] show ?case
    using r1 Cons.prems(4) by (auto simp: Un_ac)
qed simp

lemma or_term_new:
  assumes "ok r n" and "n + length xs \<le> bound" and "iSet \<noteq> 0" and "batch r \<noteq> iSet"
  shows "\<exists>r'. or_term opn iSet xs r = Some ([x \<leftarrow> xs. x \<notin> old r \<union> cur r], r') \<and> ok r' (n + length xs) \<and>
    (batch r' = iSet \<or> batch r' = batch r) \<and>
    (0 \<le> iSet \<longrightarrow> old r' \<union> cur r' = old r \<union> cur r \<union> set xs)"
proof (cases xs)
  case (Cons x ys)
  then have "n < bound" using assms(2) by simp
  obtain r1 where r1: "opn iSet x r = Some (x \<in> old r1, r1)" "ok r1 (Suc n)" "batch r1 = iSet"
    "old r1 = (if iSet = batch r then old r else old r \<union> cur r)"
    "cur r1 = (if iSet = batch r then cur r else {}) \<union> (if x \<notin> old r1 \<and> 0 \<le> iSet then {x} else {})"
    by (rule op_later_cases [OF assms(1) \<open>n < bound\<close> assms(3)])
  have "Suc n + length ys \<le> bound" using assms(2) Cons by simp
  from or_term_same [OF r1(2) this assms(3) r1(3)] show ?thesis
    using r1 assms(4) Cons by auto
qed (use assms in simp)

lemma or_term_first:
  assumes "ok r n" and "n + length xs \<le> bound"
  shows "\<exists>r'. or_term opn 0 xs r = Some (xs, r') \<and> ok r' (n + length xs) \<and>
    batch r' = batch r \<and> old r' = old r \<and> cur r' = cur r \<union> set xs"
  using assms
proof (induction xs arbitrary: r n)
  case (Cons x xs)
  then have "opn 0 x r \<noteq> None" by (intro op_total) auto
  then obtain j r1 where r1: "opn 0 x r = Some (j, r1)" by auto
  from op_first [OF Cons.prems(1) r1]
  have s: "\<not> j" "ok r1 (Suc n)" "old r1 = old r" "cur r1 = insert x (cur r)" "batch r1 = batch r" by auto
  have "Suc n + length xs \<le> bound" using Cons.prems(2) by simp
  from Cons.IH [OF s(2) this] show ?case
    using r1 s by auto
qed simp

lemma or_terms_later:
  assumes "ok r n" and "n + sum_list (map length terms) \<le> bound" and "0 \<le> batch r" and "batch r < ii"
    and "\<forall>rows \<in> set terms. distinct rows"
  shows "\<exists>zs r'. or_terms opn ii terms r = Some (zs, r') \<and> distinct zs \<and>
    set zs = \<Union> (set ` set terms) - (old r \<union> cur r)"
  using assms
proof (induction terms arbitrary: r n ii)
  case (Cons rows terms)
  let ?i = "if terms = [] then -1 else ii"
  have "?i \<noteq> 0" "batch r \<noteq> ?i" "n + length rows \<le> bound" using Cons.prems by auto
  then obtain r1 where r1: "or_term opn ?i rows r = Some ([x \<leftarrow> rows. x \<notin> old r \<union> cur r], r1)"
    "ok r1 (n + length rows)" "batch r1 = ?i \<or> batch r1 = batch r"
    "0 \<le> ?i \<longrightarrow> old r1 \<union> cur r1 = old r \<union> cur r \<union> set rows"
    using or_term_new [OF Cons.prems(1)] by blast
  show ?case
  proof (cases "terms = []")
    case True
    then show ?thesis using r1 Cons.prems(5) by auto
  next
    case False
    then obtain zs r2 where "or_terms opn (ii + 1) terms r1 = Some (zs, r2)" "distinct zs"
      "set zs = \<Union> (set ` set terms) - (old r1 \<union> cur r1)"
      using Cons.IH [OF r1(2), of "ii + 1"] r1(3) Cons.prems by auto
    then show ?thesis using r1 False Cons.prems by auto
  qed
qed auto

lemma or_terms_each_row_once:
  assumes "ok r n" and "n + sum_list (map length terms) \<le> bound" and "batch r = 0"
    and "old r = {}" and "cur r = {}" and "\<forall>rows \<in> set terms. distinct rows"
  shows "\<exists>zs r'. or_terms opn 0 terms r = Some (zs, r') \<and> distinct zs \<and> set zs = \<Union> (set ` set terms)"
proof (cases terms)
  case Nil
  then show ?thesis by simp
next
  case (Cons rows more)
  show ?thesis
  proof (cases "more = []")
    case True
    then show ?thesis using or_term_new [of r n rows "-1"] assms Cons by auto
  next
    case False
    have len: "n + length rows \<le> bound" using assms(2) Cons by simp
    obtain r1 where r1: "or_term opn 0 rows r = Some (rows, r1)" "ok r1 (n + length rows)"
      "batch r1 = 0" "old r1 = {}" "cur r1 = set rows"
      using or_term_first [OF assms(1) len] assms(3-5) by auto
    obtain zs r2 where "or_terms opn 1 more r1 = Some (zs, r2)" "distinct zs"
      "set zs = \<Union> (set ` set more) - set rows"
      using or_terms_later [OF r1(2), of more 1] r1(3-5) assms(2,6) Cons by auto
    then show ?thesis using r1 False Cons assms(6) by auto
  qed
qed

end

interpretation rowset_filter: duplicate_filter "OP_RowSetTest True True" rowset_ok "2 ^ 40" rowset_old
  rowset_cur rs_iBatch
proof unfold_locales
  fix r n x j r'
  assume "rowset_ok r n" and "OP_RowSetTest True True 0 x r = Some (j, r')"
  then show "\<not> j \<and> rowset_ok r' (Suc n) \<and> rowset_old r' = rowset_old r \<and>
      rowset_cur r' = insert x (rowset_cur r) \<and> rs_iBatch r' = rs_iBatch r"
    using rowset_insert [of r n True x] by (auto simp: OP_RowSetTest_def)
next
  fix r n iSet x j r'
  assume ok: "rowset_ok r n" "n < 2 ^ 40" "iSet \<noteq> 0" and run: "OP_RowSetTest True True iSet x r = Some (j, r')"
  obtain q where q: "sqlite3RowSetTest True r iSet x = Some (x \<in> rowset_old q, q)" "rowset_ok q n"
    "rs_iBatch q = iSet"
    "rowset_old q = (if iSet \<noteq> rs_iBatch r then rowset_old r \<union> rowset_cur r else rowset_old r)"
    "rowset_cur q = (if iSet \<noteq> rs_iBatch r then {} else rowset_cur r)"
    using rowset_test [OF ok(1,2)] by blast
  have "rowset_ok q (Suc n)" using q(2) by (auto simp: rowset_ok_def)
  then show "rowset_ok r' (Suc n) \<and> rs_iBatch r' = iSet \<and>
      rowset_old r' = (if iSet = rs_iBatch r then rowset_old r else rowset_old r \<union> rowset_cur r) \<and>
      j = (x \<in> rowset_old r') \<and>
      rowset_cur r' = (if iSet = rs_iBatch r then rowset_cur r else {}) \<union> (if \<not> j \<and> 0 \<le> iSet then {x} else {})"
    using run q ok(3) rowset_insert [OF q(2), of True x] by (auto simp: OP_RowSetTest_def split: if_splits)
next
  fix r n iSet x
  assume "rowset_ok r n" and "n < 2 ^ 40"
  from rowset_test [OF this, of iSet x] show "OP_RowSetTest True True iSet x r \<noteq> None"
    by (auto simp: OP_RowSetTest_def)
qed

section \<open>Reading in order\<close>

text \<open>\<open>sqlite3RowSetNext\<close> called until it returns 0, at most \<open>k\<close> times.\<close>

fun rowset_drain :: "nat \<Rightarrow> RowSet \<Rightarrow> int list option" where
  "rowset_drain 0 p = None"
| "rowset_drain (Suc k) p = do {
     (r, p) \<leftarrow> sqlite3RowSetNext p;
     (case r of None \<Rightarrow> Some [] | Some x \<Rightarrow> map_option ((#) x) (rowset_drain k p))
   }"

lemma drain_running:
  assumes "rs_next p \<or> rs_sorted p" and "length (rs_pEntry p) < k"
  shows "rowset_drain k p = Some (rs_pEntry p)"
  using assms
proof (induction "rs_pEntry p" arbitrary: p k)
  case Nil
  then show ?case by (cases k) (auto simp: sqlite3RowSetNext_def)
next
  case (Cons x xs)
  obtain k' where k: "k = Suc k'" using Cons.prems(2) by (cases k) auto
  let ?q = "p\<lparr>rs_pEntry := xs, rs_sorted := True, rs_next := True\<rparr>"
  let ?p = "if xs = [] then sqlite3RowSetClear ?q else if rs_next p then p\<lparr>rs_pEntry := xs\<rparr> else ?q"
  have entry: "rs_pEntry ?p = xs" by (simp add: sqlite3RowSetClear_def)
  have "sqlite3RowSetNext p = Some (Some x, ?p)"
    using Cons.hyps(2) [symmetric] Cons.prems(1) by (auto simp: sqlite3RowSetNext_def sqlite3RowSetClear_def)
  moreover have "rowset_drain k' ?p = Some (rs_pEntry ?p)"
  proof (rule Cons.hyps(1))
    show "xs = rs_pEntry ?p" by (simp only: entry)
    show "rs_next ?p \<or> rs_sorted ?p" by (simp add: sqlite3RowSetClear_def)
    show "length (rs_pEntry ?p) < k'"
      using Cons.hyps(2) [symmetric] Cons.prems(2) k entry by simp
  qed
  ultimately show ?case
    using Cons.hyps(2) [symmetric] entry by (simp add: k)
qed

lemma drain_ok:
  assumes "rowset_ok p n" and "n < 2 ^ 40"
  shows "rowset_drain (n + 1) p = Some (sorted_list_of_set (rowset_cur p))"
proof (cases "rs_sorted p")
  case True
  then have "rs_pEntry p = sorted_list_of_set (rowset_cur p)"
    using assms by (simp add: rowset_ok_def rowset_cur_def strict_sorted_equal)
  then show ?thesis using drain_running [of p "n + 1"] True assms by (simp add: rowset_ok_def)
next
  case False
  have "length (rs_pEntry p) < 2 ^ 40" using assms by (simp add: rowset_ok_def)
  then obtain ys where ys: "rowSetEntrySort (rs_pEntry p) = Some ys" "sorted_wrt (<) ys" "set ys = rowset_cur p"
    using sort_ok unfolding rowset_cur_def by blast
  let ?q = "p\<lparr>rs_pEntry := ys, rs_sorted := True, rs_next := True\<rparr>"
  have eq: "ys = sorted_list_of_set (rowset_cur p)"
    using ys by (simp add: strict_sorted_equal rowset_cur_def flip: ys(3))
  have "length ys = card (rowset_cur p)"
    using eq by simp
  then have "length ys < n + 1"
    using assms card_length [of "rs_pEntry p"] by (simp add: rowset_ok_def rowset_cur_def)
  moreover have "\<not> rs_next p" using assms by (simp add: rowset_ok_def)
  then have "sqlite3RowSetNext p = sqlite3RowSetNext ?q"
    using ys False by (simp add: sqlite3RowSetNext_def)
  then have "rowset_drain (n + 1) p = rowset_drain (n + 1) ?q" by simp
  ultimately show ?thesis using drain_running [of ?q "n + 1"] eq by simp
qed

lemma foldl_insert:
  "rowset_ok p n \<Longrightarrow> rowset_ok (foldl (sqlite3RowSetInsert True) p xs) (n + length xs) \<and>
    rowset_cur (foldl (sqlite3RowSetInsert True) p xs) = rowset_cur p \<union> set xs"
proof (induction xs arbitrary: p n)
  case (Cons x xs)
  from Cons.IH [OF rowset_insert(1) [OF Cons.prems, of True x]] rowset_insert(5) [OF Cons.prems, of True x]
  show ?case by simp
qed simp

section \<open>Properties\<close>

text \<open>The row set sorts with 40 buckets every list of fewer than 2^40 entries, without
  running out of the array: the result is strictly ascending and has the same rowids.\<close>

theorem rowSetEntrySort_correct:
  assumes "length xs < 2 ^ 40"
  shows "rowSetEntrySort xs = Some (sorted_list_of_set (set xs))"
proof -
  obtain ys where "rowSetEntrySort xs = Some ys" "sorted_wrt (<) ys" "set ys = set xs"
    using sort_ok [OF assms] .
  then show ?thesis by (simp add: strict_sorted_equal flip: \<open>set ys = set xs\<close>)
qed

theorem rowSetEntrySort_correct_witness:
  "rowSetEntrySort [3, 1, 2, 3] = Some (sorted_list_of_set {1, 2, 3})"
  using rowSetEntrySort_correct [of "[3, 1, 2, 3]"] by (simp add: insert_commute)

text \<open>C16: Rowids inserted in any order, with repetitions, are read back by sqlite3RowSetNext in
  ascending order, each once, and then the end is reported.\<close>

theorem rowset_reads_sorted:
  assumes "length xs < 2 ^ 40"
  shows "rowset_drain (length xs + 1) (foldl (sqlite3RowSetInsert True) (sqlite3RowSetInit k) xs)
    = Some (sorted_list_of_set (set xs))"
proof -
  have "rowset_ok (foldl (sqlite3RowSetInsert True) (sqlite3RowSetInit k) xs) (length xs) \<and>
      rowset_cur (foldl (sqlite3RowSetInsert True) (sqlite3RowSetInit k) xs) = set xs"
    using foldl_insert [OF rowset_init(1), of k xs] by (simp add: rowset_init(2))
  then show ?thesis using drain_ok [OF _ assms] by auto
qed

theorem rowset_reads_sorted_witness:
  "rowset_drain (length [7, -2, 7, 5 :: int] + 1)
     (foldl (sqlite3RowSetInsert True) (sqlite3RowSetInit 0) [7, -2, 7, 5]) = Some [-2, 5, 7]"
proof -
  have "set [7, -2, 7, 5 :: int] = set [-2, 5, 7]" by auto
  moreover have "sorted_list_of_set (set [-2, 5, 7 :: int]) = [-2, 5, 7]"
    by (rule sorted_list_of_set.idem_if_sorted_distinct) simp_all
  ultimately have "sorted_list_of_set (set [7, -2, 7, 5 :: int]) = [-2, 5, 7]" by (simp only:)
  then show ?thesis
    by (subst rowset_reads_sorted) (simp_all only:, simp)
qed

text \<open>C14: Run over the rows of the terms of an OR with set numbers 0, 1, ..., -1, as the code
  generator emits it, the duplicate filter lets every row that occurs in any term pass exactly
  once.\<close>

theorem or_rows_exactly_once:
  assumes "sum_list (map length terms) \<le> 2 ^ 40" and "\<forall>rows \<in> set terms. distinct rows"
  shows "\<exists>zs r. or_terms (OP_RowSetTest True True) 0 terms (sqlite3RowSetInit k) = Some (zs, r) \<and>
    distinct zs \<and> set zs = \<Union> (set ` set terms)"
  using rowset_filter.or_terms_each_row_once [OF rowset_init(1), of terms k] assms
  by (simp add: rowset_init)

theorem or_rows_exactly_once_witness:
  "\<exists>zs r. or_terms (OP_RowSetTest True True) 0 [[1, 2], [2, 3], [3, 1, 4]] (sqlite3RowSetInit 2) = Some (zs, r) \<and>
    distinct zs \<and> set zs = {1, 2, 3, 4}"
  using or_rows_exactly_once [of "[[1, 2], [2, 3], [3, 1, 4]]" 2] by (simp add: insert_commute)

text \<open>The trees of the forest are balanced: a list of n entries becomes a tree with the
  entries in the same order whose height h satisfies 2^(h-1) <= n.\<close>

theorem listToTree_balanced:
  "rowSetTreeToList (rowSetListToTree xs) = xs \<and> 2 ^ (theight (rowSetListToTree xs) - 1) \<le> max 1 (length xs)"
  using listToTree_inorder [of xs] listToTree_height [of xs] by (cases "xs = []") auto

end
