(* ===== verification/Bitvec.thy ===== *)
theory Bitvec
  imports Prelude
begin

text \<open>
  The bit vector that records page numbers (\<open>sqlite3.c\<close>, part \<open>bitvec.c\<close>), with the sizes of
  64-bit pointers.  A value has one of the three representations that \<open>iSize\<close> and
  \<open>iDivisor\<close> select: a bitmap, a hash table with linear probing, or an array of
  sub-bitvectors.  \<open>None\<close> as a result is an access outside an array, a probing loop that does
  not end, or recursion deeper than the fuel; the theorems show that none of them happens.
  Allocations take their outcomes from a list of booleans, an exhausted list meaning success.
\<close>

section \<open>Sizes\<close>

definition BITVEC_USIZE :: nat where "BITVEC_USIZE = ((512 - 3 * 4) div 8) * 8"
definition BITVEC_NELEM :: nat where "BITVEC_NELEM = BITVEC_USIZE"
definition BITVEC_NBIT :: nat where "BITVEC_NBIT = BITVEC_NELEM * 8"
definition BITVEC_NINT :: nat where "BITVEC_NINT = BITVEC_USIZE div 4"
definition BITVEC_MXHASH :: nat where "BITVEC_MXHASH = BITVEC_NINT div 2"
definition BITVEC_HASH :: "nat \<Rightarrow> nat" where "BITVEC_HASH X = (X * 1) mod BITVEC_NINT"
definition BITVEC_NPTR :: nat where "BITVEC_NPTR = BITVEC_USIZE div 8"

lemmas bitvec_sizes = BITVEC_USIZE_def BITVEC_NELEM_def BITVEC_NBIT_def BITVEC_NINT_def
  BITVEC_MXHASH_def BITVEC_NPTR_def

section \<open>Data\<close>

text \<open>The fields of each constructor are \<open>iSize\<close>, \<open>nSet\<close>, \<open>iDivisor\<close> where it is not 0, and
  the member of the union.\<close>

datatype Bitvec =
    ABitmap (iSize: nat) (nSet: nat) (aBitmap: "u8 list")
  | AHash (iSize: nat) (nSet: nat) (aHash: "nat list")
  | is_ApSub: ApSub (iSize: nat) (nSet: nat) (iDivisor: nat) (apSub: "Bitvec option list")

type_synonym mem = "bool list"

definition malloc :: "mem \<Rightarrow> bool \<times> mem" where
  "malloc m = (case m of [] \<Rightarrow> (True, []) | b # m \<Rightarrow> (b, m))"

definition zero_bitvec :: "nat \<Rightarrow> Bitvec" where
  "zero_bitvec n = (if n \<le> BITVEC_NBIT then ABitmap n 0 (replicate BITVEC_NELEM 0)
                    else AHash n 0 (replicate BITVEC_NINT 0))"

definition sqlite3BitvecCreate :: "nat \<Rightarrow> mem \<Rightarrow> Bitvec option \<times> mem" where
  "sqlite3BitvecCreate n m = (let (ok, m) = malloc m in (if ok then Some (zero_bitvec n) else None, m))"

section \<open>The hash table\<close>

text \<open>The probing loop from slot \<open>h\<close>: whether \<open>i\<close> was found, and the slot where it ended.\<close>

fun hash_probe :: "nat \<Rightarrow> nat list \<Rightarrow> nat \<Rightarrow> nat \<Rightarrow> (bool \<times> nat) option" where
  "hash_probe 0 a h i = None"
| "hash_probe (Suc k) a h i =
     (if a ! h = 0 then Some (False, h)
      else if a ! h = i then Some (True, h)
      else hash_probe k a ((h + 1) mod BITVEC_NINT) i)"

fun hash_free :: "nat \<Rightarrow> nat list \<Rightarrow> nat \<Rightarrow> nat option" where
  "hash_free 0 a h = None"
| "hash_free (Suc k) a h = (if a ! h = 0 then Some h else hash_free k a ((h + 1) mod BITVEC_NINT))"

section \<open>Test\<close>

lemma size_apSub [termination_simp]:
  "b < length xs \<Longrightarrow> xs ! b = Some q \<Longrightarrow> size q < Suc (size_list (size_option size) xs)"
proof (induction xs arbitrary: b)
  case (Cons x xs)
  then show ?case by (cases b) force+
qed simp

text \<open>The argument is the bit number minus 1.\<close>

fun bitvec_test :: "Bitvec \<Rightarrow> nat \<Rightarrow> bool option" where
  "bitvec_test (ABitmap n s a) i =
     (if i div 8 < length a then Some ((a ! (i div 8)) AND push_bit (i mod 8) 1 \<noteq> 0) else None)"
| "bitvec_test (AHash n s a) i = map_option fst (hash_probe BITVEC_NINT a (BITVEC_HASH i) (i + 1))"
| "bitvec_test (ApSub n s d subs) i =
     (if i div d < length subs
      then case subs ! (i div d) of None \<Rightarrow> Some False | Some q \<Rightarrow> bitvec_test q (i mod d)
      else None)"

definition sqlite3BitvecTestNotNull :: "Bitvec \<Rightarrow> nat \<Rightarrow> bool option" where
  "sqlite3BitvecTestNotNull p i =
     (let i = (i + 2 ^ 32 - 1) mod 2 ^ 32 in if i \<ge> iSize p then Some False else bitvec_test p i)"

definition sqlite3BitvecTest :: "Bitvec option \<Rightarrow> nat \<Rightarrow> bool option" where
  "sqlite3BitvecTest p i = (case p of None \<Rightarrow> Some False | Some p \<Rightarrow> sqlite3BitvecTestNotNull p i)"

section \<open>Set\<close>

text \<open>Where a value goes in the hash table: it is there already, it is stored in a slot, or the
  table has to be divided.\<close>

datatype hash_place = Present | Store nat | Divide

definition hash_place :: "nat list \<Rightarrow> nat \<Rightarrow> nat \<Rightarrow> hash_place option" where
  "hash_place a nset i =
     (let h = BITVEC_HASH (i - 1)
      in if a ! h = 0
         then if nset < BITVEC_NINT - 1 then Some (Store h)
              else if nset \<ge> BITVEC_MXHASH then Some Divide else Some (Store h)
         else do {
           (found, h) \<leftarrow> hash_probe BITVEC_NINT a h i;
           Some (if found then Present
                 else if nset \<ge> BITVEC_MXHASH then Divide else Store h)
         })"

fun bitvec_set :: "nat \<Rightarrow> mem \<Rightarrow> Bitvec \<Rightarrow> nat \<Rightarrow> (rc \<times> Bitvec \<times> mem) option"
and bitvec_set_all :: "nat \<Rightarrow> mem \<Rightarrow> rc \<Rightarrow> Bitvec \<Rightarrow> nat list \<Rightarrow> (rc \<times> Bitvec \<times> mem) option"
where
  "bitvec_set 0 m p i = None"
| "bitvec_set (Suc k) m (ABitmap n s a) i =
     (let i = i - 1
      in if i div 8 < length a
         then Some (SQLITE_OK, ABitmap n s (a[i div 8 := (a ! (i div 8)) OR push_bit (i mod 8) 1]), m)
         else None)"
| "bitvec_set (Suc k) m (ApSub n s d subs) i =
     (let i = i - 1; bin = i div d; i = i mod d
      in if bin < length subs
         then let (sub, m) = (case subs ! bin of None \<Rightarrow> sqlite3BitvecCreate d m | Some q \<Rightarrow> (Some q, m))
              in case sub of
                   None \<Rightarrow> Some (SQLITE_NOMEM, ApSub n s d subs, m)
                 | Some q \<Rightarrow> do {
                     (rc, q, m) \<leftarrow> bitvec_set k m q (i + 1);
                     Some (rc, ApSub n s d (subs[bin := Some q]), m)
                   }
         else None)"
| "bitvec_set (Suc k) m (AHash n s a) i = do {
     place \<leftarrow> hash_place a s i;
     (case place of
        Present \<Rightarrow> Some (SQLITE_OK, AHash n s a, m)
      | Store h \<Rightarrow> Some (SQLITE_OK, AHash n (s + 1) (a[h := i]), m)
      | Divide \<Rightarrow>
          let (ok, m) = malloc m
          in if \<not> ok then Some (SQLITE_NOMEM, AHash n s a, m)
             else do {
               (rc, p, m) \<leftarrow> bitvec_set k m
                  (ApSub n s ((n + BITVEC_NPTR - 1) div BITVEC_NPTR) (replicate BITVEC_NPTR None)) i;
               bitvec_set_all k m rc p a
             })
   }"
| "bitvec_set_all k m rc p [] = Some (rc, p, m)"
| "bitvec_set_all k m rc p (v # vs) =
     (if v = 0 then bitvec_set_all k m rc p vs
      else do {
        (rc', p, m) \<leftarrow> bitvec_set k m p v;
        bitvec_set_all k m (rc OR rc') p vs
      })"

text \<open>Nine levels of calls are enough for every 32-bit size.  The code returns at once when given
  the pointer 0; a \<open>Bitvec\<close> here is one that exists, and a caller with an optional one has the test.\<close>

definition sqlite3BitvecSet :: "mem \<Rightarrow> Bitvec \<Rightarrow> nat \<Rightarrow> (rc \<times> Bitvec \<times> mem) option" where
  "sqlite3BitvecSet m p i = bitvec_set 9 m p i"

section \<open>Clear\<close>

text \<open>The loop that rebuilds the table from the saved values.\<close>

fun hash_rebuild :: "nat \<Rightarrow> nat \<Rightarrow> nat list \<Rightarrow> nat list \<Rightarrow> (nat \<times> nat list) option" where
  "hash_rebuild i s a [] = Some (s, a)"
| "hash_rebuild i s a (v # vs) =
     (if v \<noteq> 0 \<and> v \<noteq> i
      then do {
        h \<leftarrow> hash_free BITVEC_NINT a (BITVEC_HASH (v - 1));
        hash_rebuild i (s + 1) (a[h := v]) vs
      }
      else hash_rebuild i s a vs)"

fun bitvec_clear :: "Bitvec \<Rightarrow> nat \<Rightarrow> Bitvec option" where
  "bitvec_clear (ABitmap n s a) i =
     (if i div 8 < length a
      then Some (ABitmap n s (a[i div 8 := (a ! (i div 8)) AND NOT (push_bit (i mod 8) 1)])) else None)"
| "bitvec_clear (AHash n s a) i = do {
     (s, a) \<leftarrow> hash_rebuild (i + 1) 0 (replicate BITVEC_NINT 0) a;
     Some (AHash n s a)
   }"
| "bitvec_clear (ApSub n s d subs) i =
     (if i div d < length subs
      then case subs ! (i div d) of
             None \<Rightarrow> Some (ApSub n s d subs)
           | Some q \<Rightarrow> do {
               q \<leftarrow> bitvec_clear q (i mod d);
               Some (ApSub n s d (subs[i div d := Some q]))
             }
      else None)"

definition sqlite3BitvecClear :: "Bitvec \<Rightarrow> nat \<Rightarrow> Bitvec option" where
  "sqlite3BitvecClear p i = bitvec_clear p (i - 1)"

section \<open>Linear probing\<close>

text \<open>\<open>slot h k\<close> is the slot \<open>k\<close> steps after \<open>h\<close>; \<open>chained a h p\<close> says that the slots from \<open>h\<close>
  to just before \<open>p\<close> are occupied.\<close>

definition slot :: "nat \<Rightarrow> nat \<Rightarrow> nat" where
  "slot h k = (h + k) mod BITVEC_NINT"

definition chained :: "nat list \<Rightarrow> nat \<Rightarrow> nat \<Rightarrow> bool" where
  "chained a h p \<longleftrightarrow> (\<exists>k < BITVEC_NINT. p = slot h k \<and> (\<forall>j < k. a ! slot h j \<noteq> 0))"

definition hash_ok :: "nat list \<Rightarrow> bool" where
  "hash_ok a \<longleftrightarrow> length a = BITVEC_NINT \<and>
     (\<forall>p < BITVEC_NINT. a ! p \<noteq> 0 \<longrightarrow> chained a (BITVEC_HASH (a ! p - 1)) p) \<and>
     (\<forall>p < BITVEC_NINT. \<forall>q < BITVEC_NINT. a ! p \<noteq> 0 \<longrightarrow> a ! p = a ! q \<longrightarrow> p = q)"

definition hash_set :: "nat list \<Rightarrow> nat set" where
  "hash_set a = set a - {0}"

lemma NINT_pos [simp]: "0 < BITVEC_NINT"
  by (simp add: bitvec_sizes)

lemma slot_less [simp]: "slot h k < BITVEC_NINT"
  by (simp add: slot_def)

lemma slot_Suc: "(slot h k + 1) mod BITVEC_NINT = slot h (Suc k)"
  by (simp add: slot_def mod_simps)

lemma slot_0: "h < BITVEC_NINT \<Longrightarrow> slot h 0 = h"
  by (simp add: slot_def)

lemma hash_less [simp]: "BITVEC_HASH x < BITVEC_NINT"
  by (simp add: BITVEC_HASH_def)

lemma slot_onto: "p < BITVEC_NINT \<Longrightarrow> \<exists>k < BITVEC_NINT. p = slot h k"
proof -
  assume p: "p < BITVEC_NINT"
  let ?k = "(p + BITVEC_NINT - h mod BITVEC_NINT) mod BITVEC_NINT"
  have "(h + ?k) mod BITVEC_NINT = (h mod BITVEC_NINT + (p + BITVEC_NINT - h mod BITVEC_NINT)) mod BITVEC_NINT"
    by (simp add: mod_simps)
  also have "\<dots> = (p + BITVEC_NINT) mod BITVEC_NINT"
  proof -
    have "h mod BITVEC_NINT + (p + BITVEC_NINT - h mod BITVEC_NINT) = p + BITVEC_NINT"
      using mod_less_divisor [OF NINT_pos, of h] by linarith
    then show ?thesis by simp
  qed
  finally have "slot h ?k = p" using p by (simp add: slot_def)
  then show ?thesis by (metis NINT_pos mod_less_divisor)
qed

lemma probe_spec:
  assumes "hash_probe f a (slot h0 k) i = Some (b, h)"
  shows "\<exists>k' \<ge> k. k' < k + f \<and> h = slot h0 k' \<and>
    (\<forall>j. k \<le> j \<longrightarrow> j < k' \<longrightarrow> a ! slot h0 j \<noteq> 0 \<and> a ! slot h0 j \<noteq> i) \<and>
    (if b then a ! h = i \<and> a ! h \<noteq> 0 else a ! h = 0)"
  using assms
proof (induction f arbitrary: k)
  case (Suc f)
  show ?case
  proof (cases "a ! slot h0 k = 0 \<or> a ! slot h0 k = i")
    case True
    then show ?thesis using Suc.prems by (intro exI [of _ k]) (auto split: if_splits)
  next
    case False
    then have "hash_probe f a (slot h0 (Suc k)) i = Some (b, h)"
      using Suc.prems slot_Suc [of h0 k] by simp
    from Suc.IH [OF this] obtain k' where k': "Suc k \<le> k'" "k' < Suc k + f" "h = slot h0 k'"
      "\<forall>j. Suc k \<le> j \<longrightarrow> j < k' \<longrightarrow> a ! slot h0 j \<noteq> 0 \<and> a ! slot h0 j \<noteq> i"
      "if b then a ! h = i \<and> a ! h \<noteq> 0 else a ! h = 0" by blast
    moreover have "\<forall>j. k \<le> j \<longrightarrow> j < k' \<longrightarrow> a ! slot h0 j \<noteq> 0 \<and> a ! slot h0 j \<noteq> i"
      using k'(4) False by (metis Suc_leI le_neq_implies_less)
    ultimately show ?thesis by (intro exI [of _ k']) auto
  qed
qed simp

lemma probe_total:
  assumes "a ! slot h0 j = 0" and "k \<le> j" and "j < k + f"
  shows "hash_probe f a (slot h0 k) i \<noteq> None"
  using assms(2,3)
proof (induction f arbitrary: k)
  case (Suc f)
  show ?case
  proof (cases "j = k")
    case True
    then show ?thesis using assms(1) by simp
  next
    case False
    then have "hash_probe f a (slot h0 (Suc k)) i \<noteq> None"
      using Suc by simp
    then show ?thesis using slot_Suc [of h0 k] by auto
  qed
qed simp

lemma hash_free_probe: "hash_free f a h = map_option snd (hash_probe f a h 0)"
  by (induction f arbitrary: h) auto

lemma in_hash_set: "length a = BITVEC_NINT \<Longrightarrow> x \<in> hash_set a \<longleftrightarrow> x \<noteq> 0 \<and> (\<exists>p < BITVEC_NINT. a ! p = x)"
  by (auto simp: hash_set_def in_set_conv_nth)

text \<open>Looking a value up in a table with an empty slot.\<close>

lemma probe_lookup:
  assumes ok: "hash_ok a" and free: "0 \<in> set a" and i: "i \<noteq> 0"
  obtains b h where "hash_probe BITVEC_NINT a (BITVEC_HASH (i - 1)) i = Some (b, h)" and "h < BITVEC_NINT"
    and "b \<longleftrightarrow> i \<in> hash_set a" and "\<not> b \<Longrightarrow> a ! h = 0 \<and> chained a (BITVEC_HASH (i - 1)) h"
proof -
  let ?h = "BITVEC_HASH (i - 1)"
  have len: "length a = BITVEC_NINT" using ok by (simp add: hash_ok_def)
  obtain p where "p < BITVEC_NINT" "a ! p = 0" using free len by (auto simp: in_set_conv_nth)
  then obtain j where "j < BITVEC_NINT" "a ! slot ?h j = 0" using slot_onto by metis
  then have "hash_probe BITVEC_NINT a (slot ?h 0) i \<noteq> None" by (intro probe_total) auto
  then obtain b h where run: "hash_probe BITVEC_NINT a (slot ?h 0) i = Some (b, h)" by auto
  then obtain k where k: "k < BITVEC_NINT" "h = slot ?h k"
    "\<forall>j. j < k \<longrightarrow> a ! slot ?h j \<noteq> 0 \<and> a ! slot ?h j \<noteq> i"
    "if b then a ! h = i \<and> a ! h \<noteq> 0 else a ! h = 0"
    using probe_spec [OF run] by auto
  have found: "b" if mem: "i \<in> hash_set a"
  proof -
    obtain q where q: "q < BITVEC_NINT" "a ! q = i" using in_hash_set [OF len, of i] mem by blast
    then have "chained a ?h q" using ok i by (auto simp: hash_ok_def)
    then obtain k' where k': "q = slot ?h k'" "\<forall>j < k'. a ! slot ?h j \<noteq> 0" by (auto simp: chained_def)
    then have "k' \<ge> k" using k(3) q by (metis not_le)
    then show ?thesis using k(2,4) k' i q by (metis le_neq_implies_less)
  qed
  moreover have "i \<in> hash_set a" if b
    using in_hash_set [OF len, of i] k(2,4) i that slot_less by metis
  moreover have "a ! h = 0 \<and> chained a ?h h" if "\<not> b"
    using that k by (auto simp: chained_def)
  ultimately show ?thesis using that [of b h] run k(2) by (auto simp: slot_0)
qed

text \<open>Storing a new value in the slot where its probe ended.\<close>

lemma chained_mono:
  "chained a h p \<Longrightarrow> (\<And>q. q < BITVEC_NINT \<Longrightarrow> a ! q \<noteq> 0 \<Longrightarrow> b ! q \<noteq> 0) \<Longrightarrow> chained b h p"
  unfolding chained_def using slot_less by blast

lemma hash_store:
  assumes ok: "hash_ok a" and h: "h < BITVEC_NINT" "a ! h = 0" and ch: "chained a (BITVEC_HASH (i - 1)) h"
    and i: "i \<noteq> 0" "i \<notin> hash_set a"
  shows "hash_ok (a[h := i])" and "hash_set (a[h := i]) = insert i (hash_set a)"
proof -
  have len: "length a = BITVEC_NINT" using ok by (simp add: hash_ok_def)
  have mono: "a[h := i] ! q \<noteq> 0" if "q < BITVEC_NINT" "a ! q \<noteq> 0" for q
    using that i by (simp add: nth_list_update len h)
  have new: "a ! q \<noteq> i" if "q < BITVEC_NINT" for q
    using i that len by (auto simp: in_hash_set)
  show "hash_set (a[h := i]) = insert i (hash_set a)"
    using h i len by (auto simp: in_hash_set nth_list_update) (metis less_numeral_extra(3))+
  show "hash_ok (a[h := i])"
    unfolding hash_ok_def
  proof (intro conjI allI impI)
    fix p
    assume p: "p < BITVEC_NINT" "a[h := i] ! p \<noteq> 0"
    have "chained a (BITVEC_HASH (a[h := i] ! p - 1)) p"
      using p ok ch h by (auto simp: nth_list_update len hash_ok_def)
    then show "chained (a[h := i]) (BITVEC_HASH (a[h := i] ! p - 1)) p"
      by (rule chained_mono) (rule mono)
  next
    fix p q
    assume "p < BITVEC_NINT" "q < BITVEC_NINT" "a[h := i] ! p \<noteq> 0" "a[h := i] ! p = a[h := i] ! q"
    then show "p = q"
      using ok new [of p] new [of q] len h by (auto simp: nth_list_update hash_ok_def split: if_splits)
  qed (use len in simp)
qed

section \<open>The set a bit vector represents\<close>

fun members :: "Bitvec \<Rightarrow> nat set" where
  "members (ABitmap n s a) = {i. 0 < i \<and> i \<le> n \<and> bit (a ! ((i - 1) div 8)) ((i - 1) mod 8)}"
| "members (AHash n s a) = hash_set a"
| "members (ApSub n s d subs) =
     {i. 0 < i \<and> (if (i - 1) div d < length subs
         then (case subs ! ((i - 1) div d) of None \<Rightarrow> False | Some q \<Rightarrow> (i - 1) mod d + 1 \<in> members q)
         else False)}"

definition sub_size :: "nat \<Rightarrow> nat" where
  "sub_size n = (n + BITVEC_NPTR - 1) div BITVEC_NPTR"

fun bitvec_ok :: "Bitvec \<Rightarrow> bool" where
  "bitvec_ok (ABitmap n s a) \<longleftrightarrow> n \<le> BITVEC_NBIT \<and> length a = BITVEC_NELEM"
| "bitvec_ok (AHash n s a) \<longleftrightarrow> BITVEC_NBIT < n \<and> hash_ok a \<and> s = card (hash_set a) \<and>
     s < BITVEC_NINT \<and> (\<forall>i \<in> hash_set a. i \<le> n)"
| "bitvec_ok (ApSub n s d subs) \<longleftrightarrow> BITVEC_NBIT < n \<and> d = sub_size n \<and> length subs = BITVEC_NPTR \<and>
     (\<forall>b. if b < length subs then (case subs ! b of None \<Rightarrow> True | Some q \<Rightarrow> bitvec_ok q \<and> iSize q = d)
          else True)"

lemma sub_size_pos: "0 < n \<Longrightarrow> 0 < sub_size n"
  by (simp add: sub_size_def bitvec_sizes)

lemma sub_size_cover: "i < n \<Longrightarrow> i div sub_size n < BITVEC_NPTR"
proof -
  assume i: "i < n"
  have "n \<le> sub_size n * BITVEC_NPTR"
    unfolding sub_size_def bitvec_sizes by simp
  then have "i < BITVEC_NPTR * sub_size n" using i by (simp add: mult.commute)
  then show ?thesis by (rule less_mult_imp_div_less)
qed

lemma hash_ok_full:
  assumes "hash_ok a" and "0 \<notin> set a"
  shows "card (hash_set a) = BITVEC_NINT"
proof -
  have "distinct a"
    using assms unfolding distinct_conv_nth hash_ok_def by (metis nth_mem)
  then show ?thesis using assms by (simp add: hash_set_def hash_ok_def distinct_card)
qed

lemma hash_ok_free: "hash_ok a \<Longrightarrow> card (hash_set a) < BITVEC_NINT \<Longrightarrow> 0 \<in> set a"
  using hash_ok_full by fastforce

lemma hash_empty: "hash_ok (replicate BITVEC_NINT 0)" "hash_set (replicate BITVEC_NINT 0) = {}"
  by (auto simp: hash_ok_def hash_set_def)

lemma zero_bitvec_ok:
  "bitvec_ok (zero_bitvec n)" "members (zero_bitvec n) = {}" "iSize (zero_bitvec n) = n"
  by (auto simp: zero_bitvec_def hash_empty)
    (auto simp: bitvec_sizes div_less_iff_less_mult)

lemma div8_less: "i < n \<Longrightarrow> n \<le> BITVEC_NBIT \<Longrightarrow> i div 8 < BITVEC_NELEM"
  by (simp add: BITVEC_NBIT_def div_less_iff_less_mult)

text \<open>The test reads the set.\<close>

lemma bitvec_test_ok:
  "bitvec_ok p \<Longrightarrow> i < iSize p \<Longrightarrow> bitvec_test p i = Some (i + 1 \<in> members p)"
proof (induction p i rule: bitvec_test.induct)
  case (1 n s a i)
  then show ?case
    by (simp add: div8_less) (simp add: and_exp_eq_0_iff_not_bit push_bit_eq_mult)
next
  case (2 n s a i)
  then have ok: "hash_ok a" and free: "0 \<in> set a" by (auto intro: hash_ok_free)
  from probe_lookup [OF ok free, of "i + 1"] show ?case by auto
next
  case (3 n s d subs i)
  then have d: "0 < d" and bin: "i div d < length subs"
    using sub_size_pos [of n] sub_size_cover [of i n] by auto
  show ?case
  proof (cases "subs ! (i div d)")
    case None
    then show ?thesis using bin by simp
  next
    case (Some q)
    then have "bitvec_ok q" "iSize q = d" using 3(2) bin by (auto split: option.splits)
    then show ?thesis using 3(1) [OF bin Some] bin Some d by simp
  qed
qed

section \<open>Setting a bit\<close>

lemma probe_direct: "0 < f \<Longrightarrow> a ! h = 0 \<Longrightarrow> hash_probe f a h i = Some (False, h)"
  by (cases f) auto

lemma hash_place_ok:
  assumes ok: "bitvec_ok (AHash n s a)" and i: "0 < i"
  obtains "hash_place a s i = Some Present" and "i \<in> hash_set a"
  | h where "hash_place a s i = Some (Store h)" and "i \<notin> hash_set a" and "s + 1 < BITVEC_NINT"
      and "hash_ok (a[h := i])" and "hash_set (a[h := i]) = insert i (hash_set a)"
  | "hash_place a s i = Some Divide"
proof -
  let ?h = "BITVEC_HASH (i - 1)"
  have free: "0 \<in> set a" and tab: "hash_ok a" and i0: "i \<noteq> 0" using ok i by (auto intro: hash_ok_free)
  obtain b h where p: "hash_probe BITVEC_NINT a ?h i = Some (b, h)" "h < BITVEC_NINT"
    "b \<longleftrightarrow> i \<in> hash_set a" "\<not> b \<Longrightarrow> a ! h = 0 \<and> chained a ?h h"
    using probe_lookup [OF tab free i0] by metis
  have store: "hash_ok (a[h := i]) \<and> hash_set (a[h := i]) = insert i (hash_set a)" if "\<not> b"
    using hash_store [OF tab p(2) _ _ i0] p(3,4) that by simp
  have direct: "b = False \<and> h = ?h" if "a ! ?h = 0"
    using p(1) probe_direct [OF NINT_pos that, of i] by simp
  consider "hash_place a s i = Some Present" "b" | "hash_place a s i = Some Divide"
    | "hash_place a s i = Some (Store h)" "\<not> b" "s + 1 < BITVEC_NINT"
  proof (cases "a ! ?h = 0")
    case True
    have "BITVEC_MXHASH + 1 < BITVEC_NINT" by (simp add: bitvec_sizes)
    then show ?thesis
      using that(2,3) direct [OF True] True
      by (cases "s < BITVEC_NINT - 1") (simp_all add: hash_place_def Let_def)
  next
    case False
    have "BITVEC_MXHASH + 1 < BITVEC_NINT" by (simp add: bitvec_sizes)
    then show ?thesis
      using that p(1) False by (cases b; cases "BITVEC_MXHASH \<le> s") (simp_all add: hash_place_def Let_def)
  qed
  then show ?thesis using that p(3) store by cases auto
qed

text \<open>The sub-bitvectors, and their union, after one of them is replaced.\<close>

definition sub_members :: "Bitvec option \<Rightarrow> nat set" where
  "sub_members q = (case q of None \<Rightarrow> {} | Some q \<Rightarrow> members q)"

lemma members_ApSub:
  "i + 1 \<in> members (ApSub n s d subs) \<longleftrightarrow> i div d < length subs \<and> i mod d + 1 \<in> sub_members (subs ! (i div d))"
  by (auto simp: sub_members_def split: option.splits)

lemma members_eqI:
  assumes "\<And>i. i + 1 \<in> A \<longleftrightarrow> i + 1 \<in> B" and "0 \<notin> A" and "0 \<notin> B"
  shows "A = (B :: nat set)"
proof (rule set_eqI)
  fix x :: nat
  show "x \<in> A \<longleftrightarrow> x \<in> B" using assms(1) [of "x - 1"] assms(2,3) by (cases x) auto
qed

lemma members_0 [simp]: "0 \<notin> members p"
  by (cases p) (auto simp: hash_set_def)

lemma members_sub_upd:
  assumes "bin < length subs" and "i div d = bin" and "members q = insert (i mod d + 1) (sub_members (subs ! bin))"
  shows "members (ApSub n s d (subs[bin := Some q])) = insert (i + 1) (members (ApSub n s d subs))"
proof (rule members_eqI)
  fix j
  have "j = i \<longleftrightarrow> j div d = bin \<and> j mod d = i mod d"
    using assms(2) by (metis div_mult_mod_eq)
  then show "j + 1 \<in> members (ApSub n s d (subs[bin := Some q])) \<longleftrightarrow>
      j + 1 \<in> insert (i + 1) (members (ApSub n s d subs))"
    using assms(1,3) unfolding members_ApSub insert_iff
    by (cases "j div d = bin") (auto simp: sub_members_def nth_list_update)
qed (simp_all del: members.simps)

lemma members_sub_subset:
  assumes "bin < length subs" and "i div d = bin" and "members q \<subseteq> insert (i mod d + 1) (sub_members (subs ! bin))"
  shows "members (ApSub n s d (subs[bin := Some q])) \<subseteq> insert (i + 1) (members (ApSub n s d subs))"
proof
  fix x
  assume x: "x \<in> members (ApSub n s d (subs[bin := Some q]))"
  then obtain j where j: "x = j + 1" using members_0 by (cases x) (auto simp del: members.simps)
  have "j = i \<longleftrightarrow> j div d = bin \<and> j mod d = i mod d"
    using assms(2) by (metis div_mult_mod_eq)
  then show "x \<in> insert (i + 1) (members (ApSub n s d subs))"
    using x assms(1,3) unfolding j members_ApSub insert_iff
    by (cases "j div d = bin") (auto simp: sub_members_def nth_list_update)
qed

text \<open>The outcome of a call that sets bit \<open>i\<close> in \<open>p\<close>.\<close>

definition set_outcome :: "Bitvec \<Rightarrow> nat set \<Rightarrow> rc \<times> Bitvec \<times> mem \<Rightarrow> bool" where
  "set_outcome p B = (\<lambda>(rc, p', m).
     bitvec_ok p' \<and> iSize p' = iSize p \<and> (rc = SQLITE_OK \<or> rc = SQLITE_NOMEM) \<and>
     members p' \<subseteq> B \<union> members p \<and> (rc = SQLITE_OK \<longrightarrow> members p' = B \<union> members p))"

lemma rc_or: "a = SQLITE_OK \<or> a = SQLITE_NOMEM \<Longrightarrow> b = SQLITE_OK \<or> b = SQLITE_NOMEM \<Longrightarrow>
    (a OR b = SQLITE_OK \<or> a OR b = SQLITE_NOMEM) \<and> (a OR b = SQLITE_OK \<longrightarrow> a = SQLITE_OK \<and> b = SQLITE_OK)"
  by auto

text \<open>A run over saved values, given what one call does.\<close>

lemma bitvec_set_all_ok:
  assumes one: "\<And>m p v. bitvec_ok p \<Longrightarrow> is_ApSub p \<Longrightarrow> iSize p = n \<Longrightarrow> 0 < v \<Longrightarrow> v \<le> n \<Longrightarrow>
      \<exists>r. bitvec_set k m p v = Some r \<and> set_outcome p {v} r \<and> is_ApSub (fst (snd r))"
    and "bitvec_ok p" and "is_ApSub p" and "iSize p = n" and "\<forall>v \<in> set vs. v \<le> n"
    and "rc = SQLITE_OK \<or> rc = SQLITE_NOMEM"
  shows "\<exists>rc' p' m'. bitvec_set_all k m rc p vs = Some (rc', p', m') \<and>
    set_outcome p (set vs - {0}) (rc', p', m') \<and> (rc' = SQLITE_OK \<longrightarrow> rc = SQLITE_OK)"
  using assms(2-)
proof (induction vs arbitrary: m rc p)
  case Nil
  then show ?case by (simp add: set_outcome_def)
next
  case (Cons v vs)
  show ?case
  proof (cases "v = 0")
    case True
    then show ?thesis using Cons.IH [of p rc m] Cons.prems by simp
  next
    case False
    obtain rc1 p1 m1 where r: "bitvec_set k m p v = Some (rc1, p1, m1)" "set_outcome p {v} (rc1, p1, m1)" "is_ApSub p1"
      using one [OF Cons.prems(1-3), of v m] Cons.prems(4) False by auto
    then have p1: "bitvec_ok p1" "iSize p1 = n" "rc1 = SQLITE_OK \<or> rc1 = SQLITE_NOMEM"
      using Cons.prems(3) by (auto simp: set_outcome_def)
    note or = rc_or [OF Cons.prems(5) p1(3)]
    obtain rc' p' m' where "bitvec_set_all k m1 (rc OR rc1) p1 vs = Some (rc', p', m')"
      "set_outcome p1 (set vs - {0}) (rc', p', m')" "rc' = SQLITE_OK \<longrightarrow> rc OR rc1 = SQLITE_OK"
      using Cons.IH [OF p1(1) r(3) p1(2), of "rc OR rc1" m1] Cons.prems(4) or by auto
    then show ?thesis using r(1,2) or False by (auto simp: set_outcome_def)
  qed
qed

lemma bitvec_ok_sub_upd:
  assumes "bitvec_ok (ApSub n s d subs)" and "bitvec_ok q" and "iSize q = d"
  shows "bitvec_ok (ApSub n s d (subs[bin := Some q]))"
proof -
  have "case subs[bin := Some q] ! b of None \<Rightarrow> True | Some q \<Rightarrow> bitvec_ok q \<and> iSize q = d"
    if "b < length subs" for b
    using assms that by (cases "b = bin") auto
  then show ?thesis using assms by auto
qed

lemma set_ApSub:
  assumes sub: "\<And>m q j. bitvec_ok q \<Longrightarrow> iSize q = d \<Longrightarrow> 0 < j \<Longrightarrow> j \<le> d \<Longrightarrow>
      \<exists>r. bitvec_set f m q j = Some r \<and> set_outcome q {j} r"
    and ok: "bitvec_ok (ApSub n s d subs)" and i: "0 < i" "i \<le> n"
  shows "\<exists>r. bitvec_set (Suc f) m (ApSub n s d subs) i = Some r \<and>
    set_outcome (ApSub n s d subs) {i} r \<and> is_ApSub (fst (snd r))"
proof -
  let ?bin = "(i - 1) div d" and ?j = "(i - 1) mod d"
  have n: "BITVEC_NBIT < n" "d = sub_size n" "length subs = BITVEC_NPTR" using ok by auto
  then have d: "0 < d" and bin: "?bin < length subs"
    using sub_size_pos [of n] sub_size_cover [of "i - 1" n] i by auto
  obtain sub' m' where sub': "(case subs ! ?bin of None \<Rightarrow> sqlite3BitvecCreate d m | Some q \<Rightarrow> (Some q, m)) = (sub', m')"
    by fastforce
  show ?thesis
  proof (cases sub')
    case None
    then show ?thesis using sub' bin ok by (simp add: set_outcome_def Let_def del: members.simps bitvec_ok.simps) auto
  next
    case (Some q)
    then have q: "bitvec_ok q" "iSize q = d" "members q = sub_members (subs ! ?bin)"
      using sub' ok bin
      by (auto simp: sqlite3BitvecCreate_def sub_members_def zero_bitvec_ok Let_def split: option.splits prod.splits if_splits)
    have "0 < ?j + 1" "?j + 1 \<le> d" using d by (simp_all add: Suc_leI)
    from sub [OF q(1,2) this, of m'] obtain rc q' m'' where
      r: "bitvec_set f m' q (?j + 1) = Some (rc, q', m'')" "set_outcome q {?j + 1} (rc, q', m'')" by auto
    let ?p = "ApSub n s d (subs[?bin := Some q'])"
    have run: "bitvec_set (Suc f) m (ApSub n s d subs) i = Some (rc, ?p, m'')"
      using bin sub' Some r(1) by (simp add: Let_def)
    have "bitvec_ok ?p"
      using r(2) q(2) by (intro bitvec_ok_sub_upd [OF ok]) (auto simp: set_outcome_def)
    moreover have "members ?p \<subseteq> insert (i - 1 + 1) (members (ApSub n s d subs))"
      using r(2) q(3) by (intro members_sub_subset [OF bin refl]) (auto simp: set_outcome_def)
    moreover have "members ?p = insert (i - 1 + 1) (members (ApSub n s d subs))" if "rc = SQLITE_OK"
      using r(2) q(3) that by (intro members_sub_upd [OF bin refl]) (auto simp: set_outcome_def)
    ultimately have "set_outcome (ApSub n s d subs) {i} (rc, ?p, m'')"
      using r(2) i by (simp add: set_outcome_def del: members.simps bitvec_ok.simps)
    then show ?thesis using run by simp
  qed
qed

lemma set_ABitmap:
  assumes ok: "bitvec_ok (ABitmap n s a)" and i: "0 < i" "i \<le> n"
  shows "\<exists>r. bitvec_set (Suc f) m (ABitmap n s a) i = Some r \<and> set_outcome (ABitmap n s a) {i} r"
proof -
  let ?k = "i - 1"
  let ?a = "a[?k div 8 := (a ! (?k div 8)) OR push_bit (?k mod 8) 1]"
  have k: "?k div 8 < length a" using ok i div8_less [of ?k n] by simp
  have eq: "x = i \<longleftrightarrow> (x - 1) div 8 = ?k div 8 \<and> (x - 1) mod 8 = ?k mod 8" if "0 < x" for x
    using i that by (metis div_mult_mod_eq Suc_pred')
  have "bit (?a ! ((x - 1) div 8)) ((x - 1) mod 8) \<longleftrightarrow> bit (a ! ((x - 1) div 8)) ((x - 1) mod 8) \<or> x = i"
    if "0 < x" for x
    using k unfolding eq [OF that]
    by (cases "(x - 1) div 8 = ?k div 8") (auto simp: nth_list_update bit_simps)
  then have "members (ABitmap n s ?a) = insert i (members (ABitmap n s a))"
    using i by auto
  then show ?thesis using k ok by (simp add: set_outcome_def Let_def del: members.simps)
qed

lemma empty_ApSub_ok:
  assumes "BITVEC_NBIT < n"
  shows "bitvec_ok (ApSub n s (sub_size n) (replicate BITVEC_NPTR None))"
    and "members (ApSub n s (sub_size n) (replicate BITVEC_NPTR None)) = {}"
  using assms by auto

lemma set_AHash:
  assumes sub: "\<And>m p v. bitvec_ok p \<Longrightarrow> is_ApSub p \<Longrightarrow> iSize p = n \<Longrightarrow> 0 < v \<Longrightarrow> v \<le> n \<Longrightarrow>
      \<exists>r. bitvec_set f m p v = Some r \<and> set_outcome p {v} r \<and> is_ApSub (fst (snd r))"
    and ok: "bitvec_ok (AHash n s a)" and i: "0 < i" "i \<le> n"
  shows "\<exists>r. bitvec_set (Suc f) m (AHash n s a) i = Some r \<and> set_outcome (AHash n s a) {i} r"
  using ok i(1)
proof (cases rule: hash_place_ok)
  case 1
  then show ?thesis using ok by (auto simp: set_outcome_def insert_absorb)
next
  case (2 h)
  have "finite (hash_set a)" by (simp add: hash_set_def)
  then have "card (insert i (hash_set a)) = s + 1" using 2(2) ok by simp
  then show ?thesis using 2 ok i by (auto simp: set_outcome_def)
next
  case 3
  let ?p = "ApSub n s (sub_size n) (replicate BITVEC_NPTR None)"
  have n: "BITVEC_NBIT < n" "\<forall>v \<in> hash_set a. v \<le> n" using ok by auto
  obtain okm m1 where m1: "malloc m = (okm, m1)" by fastforce
  show ?thesis
  proof (cases okm)
    case False
    then show ?thesis using 3 m1 ok by (auto simp: set_outcome_def)
  next
    case True
    obtain rc1 p1 m2 where r: "bitvec_set f m1 ?p i = Some (rc1, p1, m2)" "set_outcome ?p {i} (rc1, p1, m2)"
      "is_ApSub p1"
      using sub [OF empty_ApSub_ok(1) [OF n(1)], of s i m1] i by auto
    then have p1: "bitvec_ok p1" "iSize p1 = n" "rc1 = SQLITE_OK \<or> rc1 = SQLITE_NOMEM"
      by (auto simp: set_outcome_def simp del: bitvec_ok.simps members.simps)
    have "\<forall>v \<in> set a. v \<le> n" using n(2) by (auto simp: hash_set_def)
    have "\<exists>rc' p' m'. bitvec_set_all f m2 rc1 p1 a = Some (rc', p', m') \<and>
      set_outcome p1 (set a - {0}) (rc', p', m') \<and> (rc' = SQLITE_OK \<longrightarrow> rc1 = SQLITE_OK)"
    proof (rule bitvec_set_all_ok)
      show "\<exists>r. bitvec_set f m p v = Some r \<and> set_outcome p {v} r \<and> is_ApSub (fst (snd r))"
        if "bitvec_ok p" "is_ApSub p" "iSize p = n" "0 < v" "v \<le> n" for m p v
        using sub [OF that] .
    qed (fact p1 r(3) \<open>\<forall>v \<in> set a. v \<le> n\<close>)+
    then obtain rc' p' m' where all: "bitvec_set_all f m2 rc1 p1 a = Some (rc', p', m')"
      "set_outcome p1 (set a - {0}) (rc', p', m')" "rc' = SQLITE_OK \<longrightarrow> rc1 = SQLITE_OK"
      by blast
    have "bitvec_set (Suc f) m (AHash n s a) i = Some (rc', p', m')"
      using 3 m1 True r(1) all(1) by (simp add: sub_size_def)
    moreover have "set_outcome (AHash n s a) {i} (rc', p', m')"
      using r(2) all(2,3) empty_ApSub_ok(2) [OF n(1), of s]
      by (auto simp: set_outcome_def hash_set_def simp del: bitvec_ok.simps members.simps(1,3))
    ultimately show ?thesis by blast
  qed
qed

lemma bitvec_set_total:
  "bitvec_ok p \<Longrightarrow> 0 < i \<Longrightarrow> i \<le> iSize p \<Longrightarrow> iSize p \<le> BITVEC_NBIT * BITVEC_NPTR ^ k \<Longrightarrow> 2 * k + 1 \<le> f \<Longrightarrow>
    \<exists>r. bitvec_set f m p i = Some r \<and> set_outcome p {i} r"
proof (induction k arbitrary: f m p i)
  case 0
  then obtain f' where f: "f = Suc f'" by (cases f) auto
  show ?case
  proof (cases p)
    case (ABitmap n s a)
    then show ?thesis using 0(1-3) set_ABitmap [of n s a i f' m] f by (simp del: members.simps)
  next
    case (AHash n s a)
    then have False using 0(1,4) by simp
    then show ?thesis ..
  next
    case (ApSub n s d subs)
    then have False using 0(1,4) by simp
    then show ?thesis ..
  qed
next
  case (Suc k)
  obtain f' where f: "f = Suc f'" "2 * k + 2 \<le> f'" using Suc.prems(5) by (cases f) auto
  then obtain f'' where f': "f' = Suc f''" "2 * k + 1 \<le> f''" by (cases f') auto
  have sub_bound: "sub_size n \<le> BITVEC_NBIT * BITVEC_NPTR ^ k" if "n \<le> BITVEC_NBIT * BITVEC_NPTR ^ Suc k" for n
  proof -
    have "n + BITVEC_NPTR - 1 < (BITVEC_NBIT * BITVEC_NPTR ^ k + 1) * BITVEC_NPTR"
      using that by (simp add: bitvec_sizes algebra_simps)
    then have "(n + BITVEC_NPTR - 1) div BITVEC_NPTR < BITVEC_NBIT * BITVEC_NPTR ^ k + 1"
      by (rule less_mult_imp_div_less)
    then show ?thesis by (simp add: sub_size_def)
  qed
  have sub: "\<exists>r. bitvec_set (Suc g) m q v = Some r \<and> set_outcome q {v} r \<and> is_ApSub (fst (snd r))"
    if h: "bitvec_ok q" "is_ApSub q" "iSize q \<le> BITVEC_NBIT * BITVEC_NPTR ^ Suc k" "0 < v" "v \<le> iSize q" "2 * k + 1 \<le> g"
    for g m q v
  proof -
    obtain n s d subs where q: "q = ApSub n s d subs" using h(2) by (cases q) auto
    show ?thesis
      unfolding q
    proof (rule set_ApSub)
      show "\<exists>r. bitvec_set g m q' j = Some r \<and> set_outcome q' {j} r"
        if "bitvec_ok q'" "iSize q' = d" "0 < j" "j \<le> d" for m q' j
        using Suc.IH [of q' j g m] that sub_bound [of n] h(1,3,6) q by (simp del: members.simps)
    qed (use h q in auto)
  qed
  show ?case
  proof (cases p)
    case (ABitmap n s a)
    then show ?thesis using Suc.prems(1-3) set_ABitmap [of n s a i f' m] f by (simp del: members.simps)
  next
    case (AHash n s a)
    have "\<exists>r. bitvec_set (Suc f') m (AHash n s a) i = Some r \<and> set_outcome (AHash n s a) {i} r"
    proof (rule set_AHash)
      show "\<exists>r. bitvec_set f' m q v = Some r \<and> set_outcome q {v} r \<and> is_ApSub (fst (snd r))"
        if "bitvec_ok q" "is_ApSub q" "iSize q = n" "0 < v" "v \<le> n" for m q v
        using sub [of q v f'' m] that Suc.prems(4) AHash f' by simp
    qed (use Suc.prems(1-3) AHash in simp_all)
    then show ?thesis using AHash f by simp
  next
    case (ApSub n s d subs)
    then have "is_ApSub p" by simp
    moreover have "2 * k + 1 \<le> f'" using f(2) by simp
    ultimately show ?thesis
      using sub [OF Suc.prems(1) _ Suc.prems(4,2,3), of f' m] f(1) by blast
  qed
qed

lemma set_total:
  assumes "bitvec_ok p" and "0 < i" and "i \<le> iSize p" and "iSize p < 2 ^ 32"
  shows "\<exists>rc p' m'. sqlite3BitvecSet m p i = Some (rc, p', m') \<and> set_outcome p {i} (rc, p', m')"
proof -
  have "iSize p \<le> BITVEC_NBIT * BITVEC_NPTR ^ 4"
    using assms(4) by (simp add: bitvec_sizes)
  then show ?thesis
    using bitvec_set_total [OF assms(1-3), of 4 9 m] by (auto simp: sqlite3BitvecSet_def)
qed

lemma testNotNull_ok:
  assumes "bitvec_ok p" and "iSize p < 2 ^ 32" and "i < 2 ^ 32"
  shows "sqlite3BitvecTestNotNull p i = Some (i \<in> members p \<and> i \<le> iSize p)"
proof (cases "i = 0")
  case True
  then show ?thesis using assms by (simp add: sqlite3BitvecTestNotNull_def)
next
  case False
  then have "(i + 2 ^ 32 - 1) mod 2 ^ 32 = i - 1"
    using assms(3) by (cases i) auto
  then show ?thesis
    using bitvec_test_ok [OF assms(1), of "i - 1"] False
    by (auto simp: sqlite3BitvecTestNotNull_def Let_def)
qed

section \<open>Clearing a bit\<close>

lemma hash_free_ok:
  assumes ok: "hash_ok a" and free: "0 \<in> set a" and v: "v \<noteq> 0" "v \<notin> hash_set a"
  obtains h where "hash_free BITVEC_NINT a (BITVEC_HASH (v - 1)) = Some h"
    and "hash_ok (a[h := v])" and "hash_set (a[h := v]) = insert v (hash_set a)"
proof -
  let ?h = "BITVEC_HASH (v - 1)"
  have len: "length a = BITVEC_NINT" using ok by (simp add: hash_ok_def)
  obtain p where "p < BITVEC_NINT" "a ! p = 0" using free len by (auto simp: in_set_conv_nth)
  then obtain j where "j < BITVEC_NINT" "a ! slot ?h j = 0" using slot_onto by metis
  then have "hash_probe BITVEC_NINT a (slot ?h 0) 0 \<noteq> None" by (intro probe_total) auto
  then obtain b h where run: "hash_probe BITVEC_NINT a (slot ?h 0) 0 = Some (b, h)" by auto
  then obtain k where k: "k < BITVEC_NINT" "h = slot ?h k" "\<forall>j < k. a ! slot ?h j \<noteq> 0" "a ! h = 0"
    using probe_spec [OF run] by (cases b) auto
  then have "chained a ?h h" by (auto simp: chained_def)
  then show ?thesis
    using that [of h] hash_store [OF ok _ k(4) _ v] run k(2) by (simp add: hash_free_probe slot_0)
qed

lemma hash_rebuild_ok:
  assumes "hash_ok a" and "s = card (hash_set a)" and "card (hash_set a) + card (set vs - {0, i}) < BITVEC_NINT"
    and "hash_set a \<inter> set vs = {}" and "distinct (filter (\<lambda>v. v \<noteq> 0) vs)"
  shows "\<exists>s' a'. hash_rebuild i s a vs = Some (s', a') \<and> hash_ok a' \<and> s' = card (hash_set a') \<and>
    hash_set a' = hash_set a \<union> (set vs - {0, i})"
  using assms
proof (induction vs arbitrary: s a)
  case (Cons v vs)
  show ?case
  proof (cases "v \<noteq> 0 \<and> v \<noteq> i")
    case False
    then have "set (v # vs) - {0, i} = set vs - {0, i}" by auto
    then show ?thesis using Cons.IH [OF Cons.prems(1,2)] Cons.prems(3-5) False by (auto split: if_splits)
  next
    case True
    have new: "v \<notin> set vs" using Cons.prems(5) True by auto
    then have "card (set (v # vs) - {0, i}) = card (set vs - {0, i}) + 1"
      using True by (simp add: insert_Diff_if)
    then have c: "card (hash_set a) + (card (set vs - {0, i}) + 1) < BITVEC_NINT" using Cons.prems(3) by simp
    then have "0 \<in> set a" using hash_ok_free [OF Cons.prems(1)] by simp
    moreover have "v \<notin> hash_set a" using Cons.prems(4) by auto
    ultimately obtain h where h: "hash_free BITVEC_NINT a (BITVEC_HASH (v - 1)) = Some h"
      "hash_ok (a[h := v])" "hash_set (a[h := v]) = insert v (hash_set a)"
      using hash_free_ok [OF Cons.prems(1)] True by metis
    have fin: "finite (hash_set a)" by (simp add: hash_set_def)
    then have card: "card (hash_set (a[h := v])) = s + 1" using h(3) \<open>v \<notin> hash_set a\<close> Cons.prems(2) by simp
    have bound: "card (hash_set (a[h := v])) + card (set vs - {0, i}) < BITVEC_NINT"
      using card c Cons.prems(2) by simp
    have disj: "hash_set (a[h := v]) \<inter> set vs = {}" using h(3) new Cons.prems(4) by auto
    have dist: "distinct (filter (\<lambda>v. v \<noteq> 0) vs)" using Cons.prems(5) True by simp
    obtain s' a' where "hash_rebuild i (s + 1) (a[h := v]) vs = Some (s', a')" "hash_ok a'"
      "s' = card (hash_set a')" "hash_set a' = hash_set (a[h := v]) \<union> (set vs - {0, i})"
      using Cons.IH [OF h(2) card [symmetric] bound disj dist] by blast
    then show ?thesis using True h by auto
  qed
qed (simp add: hash_set_def)

lemma hash_ok_distinct: "hash_ok a \<Longrightarrow> distinct (filter (\<lambda>v. v \<noteq> 0) a)"
proof -
  assume ok: "hash_ok a"
  have "inj_on ((!) a) {p. p < length a \<and> a ! p \<noteq> 0}"
    using ok by (auto simp: inj_on_def hash_ok_def)
  then have "card (((!) a) ` {p. p < length a \<and> a ! p \<noteq> 0}) = card {p. p < length a \<and> a ! p \<noteq> 0}"
    by (rule card_image)
  moreover have "((!) a) ` {p. p < length a \<and> a ! p \<noteq> 0} = set (filter (\<lambda>v. v \<noteq> 0) a)"
    by (auto simp: in_set_conv_nth image_iff) 
  ultimately show ?thesis by (simp add: card_distinct length_filter_conv_card)
qed

lemma bitvec_clear_ok:
  "bitvec_ok p \<Longrightarrow> i < iSize p \<Longrightarrow>
    \<exists>p'. bitvec_clear p i = Some p' \<and> bitvec_ok p' \<and> iSize p' = iSize p \<and> members p' = members p - {i + 1}"
proof (induction p i rule: bitvec_clear.induct)
  case (1 n s a i)
  let ?a = "a[i div 8 := (a ! (i div 8)) AND NOT (push_bit (i mod 8) 1)]"
  have k: "i div 8 < length a" using 1 div8_less [of i n] by simp
  have eq: "x = i + 1 \<longleftrightarrow> (x - 1) div 8 = i div 8 \<and> (x - 1) mod 8 = i mod 8" if "0 < x" for x
    using that by (metis Suc_eq_plus1 Suc_pred' diff_Suc_1 div_mult_mod_eq)
  have "bit (?a ! ((x - 1) div 8)) ((x - 1) mod 8) \<longleftrightarrow> bit (a ! ((x - 1) div 8)) ((x - 1) mod 8) \<and> x \<noteq> i + 1"
    if "0 < x" for x
    using k unfolding eq [OF that]
    by (cases "(x - 1) div 8 = i div 8") (auto simp: nth_list_update bit_simps)
  then have "members (ABitmap n s ?a) = members (ABitmap n s a) - {i + 1}"
    by auto
  then show ?case using k 1 by (simp del: members.simps)
next
  case (2 n s a i)
  have tab: "hash_ok a" using 2 by simp
  have "hash_set a - {i + 1} = set a - {0, i + 1}" by (auto simp: hash_set_def)
  moreover from this have "card (set a - {0, i + 1}) < BITVEC_NINT"
    using 2 card_Diff1_le [of "hash_set a" "i + 1"] by (simp add: hash_set_def)
  ultimately obtain s' a' where "hash_rebuild (i + 1) 0 (replicate BITVEC_NINT 0) a = Some (s', a')"
    "hash_ok a'" "s' = card (hash_set a')" "hash_set a' = hash_set a - {i + 1}"
    using hash_rebuild_ok [OF hash_empty(1), of 0 a "i + 1"] hash_ok_distinct [OF tab] hash_empty(2) by auto
  then show ?case
    using 2 card_Diff1_le [of "hash_set a" "i + 1"] by auto
next
  case (3 n s d subs i)
  then have d: "0 < d" and bin: "i div d < length subs"
    using sub_size_pos [of n] sub_size_cover [of i n] by auto
  show ?case
  proof (cases "subs ! (i div d)")
    case None
    then have "i + 1 \<notin> members (ApSub n s d subs)" by simp
    then show ?thesis using bin None 3(2) by (simp del: members.simps bitvec_ok.simps)
  next
    case (Some q)
    then have "bitvec_ok q" "iSize q = d" using 3(2) bin by (auto split: option.splits)
    then obtain q' where q': "bitvec_clear q (i mod d) = Some q'" "bitvec_ok q'" "iSize q' = d"
      "members q' = members q - {i mod d + 1}"
      using 3(1) [OF bin Some] d by auto
    have "members (ApSub n s d (subs[i div d := Some q'])) = members (ApSub n s d subs) - {i + 1}"
    proof (rule members_eqI)
      fix j
      have "j = i \<longleftrightarrow> j div d = i div d \<and> j mod d = i mod d" by (metis div_mult_mod_eq)
      then show "j + 1 \<in> members (ApSub n s d (subs[i div d := Some q'])) \<longleftrightarrow>
          j + 1 \<in> members (ApSub n s d subs) - {i + 1}"
        using bin Some q'(4) unfolding members_ApSub Diff_iff singleton_iff
        by (cases "j div d = i div d") (auto simp: sub_members_def nth_list_update)
    qed (simp_all del: members.simps)
    then show ?thesis
      using bin Some q' bitvec_ok_sub_upd [OF 3(2) q'(2,3)] by (simp del: members.simps bitvec_ok.simps)
  qed
qed

lemma clear_ok:
  assumes "bitvec_ok p" and "0 < i" and "i \<le> iSize p"
  shows "\<exists>p'. sqlite3BitvecClear p i = Some p' \<and> bitvec_ok p' \<and> iSize p' = iSize p \<and> members p' = members p - {i}"
  using bitvec_clear_ok [OF assms(1), of "i - 1"] assms(2,3) by (simp add: sqlite3BitvecClear_def)

section \<open>Histories\<close>

datatype bitvec_op = OpSet nat | OpClear nat

fun op_bit :: "bitvec_op \<Rightarrow> nat" where
  "op_bit (OpSet i) = i"
| "op_bit (OpClear i) = i"

text \<open>A sequence of calls on one bit vector: whether all of them succeeded, and the result.\<close>

fun bitvec_run :: "mem \<Rightarrow> Bitvec \<Rightarrow> bitvec_op list \<Rightarrow> (bool \<times> Bitvec) option" where
  "bitvec_run m p [] = Some (True, p)"
| "bitvec_run m p (OpSet i # ops) = do {
     (rc, p, m) \<leftarrow> sqlite3BitvecSet m p i;
     (ok, p) \<leftarrow> bitvec_run m p ops;
     Some (rc = SQLITE_OK \<and> ok, p)
   }"
| "bitvec_run m p (OpClear i # ops) = do { p \<leftarrow> sqlite3BitvecClear p i; bitvec_run m p ops }"

text \<open>The same sequence on a set of numbers.\<close>

fun set_run :: "nat set \<Rightarrow> bitvec_op list \<Rightarrow> nat set" where
  "set_run S [] = S"
| "set_run S (OpSet i # ops) = set_run (insert i S) ops"
| "set_run S (OpClear i # ops) = set_run (S - {i}) ops"

lemma malloc_Nil [simp]: "malloc [] = (True, [])"
  by (simp add: malloc_def)

lemma bitvec_set_all_memory:
  assumes one: "\<And>p v rc p' m'. bitvec_set k [] p v = Some (rc, p', m') \<Longrightarrow> rc = SQLITE_OK \<and> m' = []"
  shows "bitvec_set_all k [] SQLITE_OK p vs = Some (rc, p', m') \<Longrightarrow> rc = SQLITE_OK \<and> m' = []"
proof (induction vs arbitrary: p)
  case (Cons v vs)
  show ?case
  proof (cases "v = 0")
    case False
    then obtain rc1 p1 m1 where r: "bitvec_set k [] p v = Some (rc1, p1, m1)"
      "bitvec_set_all k m1 (SQLITE_OK OR rc1) p1 vs = Some (rc, p', m')"
      using Cons.prems by (auto split: Option.bind_splits)
    then show ?thesis using Cons.IH [of p1] one [OF r(1)] by simp
  qed (use Cons in simp)
qed simp

lemma bitvec_set_memory: "bitvec_set k [] p i = Some (rc, p', m') \<Longrightarrow> rc = SQLITE_OK \<and> m' = []"
proof (induction k arbitrary: p i rc p' m')
  case (Suc k)
  show ?case
  proof (cases p)
    case (ABitmap n s a)
    then show ?thesis using Suc.prems by (auto simp: Let_def split: if_splits)
  next
    case (ApSub n s d subs)
    let ?bin = "(i - 1) div d"
    obtain q where q: "(case subs ! ?bin of None \<Rightarrow> sqlite3BitvecCreate d [] | Some q \<Rightarrow> (Some q, [])) = (Some q, [])"
      by (cases "subs ! ?bin") (auto simp: sqlite3BitvecCreate_def)
    have "?bin < length subs" using Suc.prems ApSub by (auto simp: Let_def split: if_splits)
    then obtain q' where "bitvec_set k [] q ((i - 1) mod d + 1) = Some (rc, q', m')"
      using Suc.prems ApSub q by (auto simp: Let_def split: Option.bind_splits)
    then show ?thesis by (rule Suc.IH)
  next
    case (AHash n s a)
    obtain pl where pl: "hash_place a s i = Some pl"
      using Suc.prems AHash by (cases "hash_place a s i") auto
    show ?thesis
    proof (cases pl)
      case Divide
      then obtain rc1 p1 m1 where r:
        "bitvec_set k [] (ApSub n s ((n + BITVEC_NPTR - 1) div BITVEC_NPTR) (replicate BITVEC_NPTR None)) i
           = Some (rc1, p1, m1)"
        "bitvec_set_all k m1 rc1 p1 a = Some (rc, p', m')"
        using Suc.prems AHash pl by (auto split: Option.bind_splits)
      then show ?thesis using Suc.IH [OF r(1)] bitvec_set_all_memory [OF Suc.IH] by auto
    qed (use Suc.prems AHash pl in simp_all)
  qed
qed simp

lemma bitvec_run_ok:
  assumes "bitvec_ok p" and "iSize p < 2 ^ 32" and "\<forall>oper \<in> set ops. 0 < op_bit oper \<and> op_bit oper \<le> iSize p"
  shows "\<exists>ok p'. bitvec_run m p ops = Some (ok, p') \<and> bitvec_ok p' \<and> iSize p' = iSize p \<and>
    (ok \<longrightarrow> members p' = set_run (members p) ops) \<and> (m = [] \<longrightarrow> ok)"
  using assms
proof (induction ops arbitrary: m p)
  case (Cons oper ops)
  show ?case
  proof (cases oper)
    case (OpSet i)
    obtain rc p1 m1 where r: "sqlite3BitvecSet m p i = Some (rc, p1, m1)" "set_outcome p {i} (rc, p1, m1)"
      using set_total [OF Cons.prems(1), of i m] Cons.prems(2,3) OpSet by auto
    then have "bitvec_ok p1" "iSize p1 = iSize p" by (auto simp: set_outcome_def)
    then obtain ok p' where "bitvec_run m1 p1 ops = Some (ok, p')" "bitvec_ok p'" "iSize p' = iSize p"
      "ok \<longrightarrow> members p' = set_run (members p1) ops" "m1 = [] \<longrightarrow> ok"
      using Cons.IH [of p1 m1] Cons.prems(2,3) by auto
    then show ?thesis
      using r OpSet bitvec_set_memory [of 9 p i rc p1 m1] by (auto simp: set_outcome_def sqlite3BitvecSet_def)
  next
    case (OpClear i)
    obtain p1 where "sqlite3BitvecClear p i = Some p1" "bitvec_ok p1" "iSize p1 = iSize p"
      "members p1 = members p - {i}"
      using clear_ok [OF Cons.prems(1), of i] Cons.prems(3) OpClear by auto
    then show ?thesis using Cons.IH [of p1 m] Cons.prems(2,3) OpClear by auto
  qed
qed (auto intro: exI [of _ True])

section \<open>Properties\<close>

text \<open>C3: A bit vector of any 32-bit size behaves as a set of numbers: after any sequence of set
  and clear calls in range that all succeeded (as they do when no allocation fails), across
  bitmap, hash table and sub-vectors, the test of a number answers whether it is in the
  set; no probing loop runs forever, no array is exceeded, and the recursion needs at most nine
  levels.\<close>

theorem bitvec_refines_set:
  assumes "n < 2 ^ 32" and "\<forall>oper \<in> set ops. 0 < op_bit oper \<and> op_bit oper \<le> n" and "i \<le> n"
  shows "\<exists>ok p. bitvec_run m (zero_bitvec n) ops = Some (ok, p) \<and> (m = [] \<longrightarrow> ok) \<and>
    (ok \<longrightarrow> sqlite3BitvecTest (Some p) i = Some (i \<in> set_run {} ops))"
proof -
  obtain ok p where p: "bitvec_run m (zero_bitvec n) ops = Some (ok, p)" "bitvec_ok p" "iSize p = n"
    "ok \<longrightarrow> members p = set_run {} ops" "m = [] \<longrightarrow> ok"
    using bitvec_run_ok [of "zero_bitvec n" ops m] assms zero_bitvec_ok [of n] by auto
  then show ?thesis
    using testNotNull_ok [OF p(2), of i] assms(1,3) by (auto simp: sqlite3BitvecTest_def)
qed

theorem bitvec_refines_set_witness:
  "\<exists>p. bitvec_run [] (zero_bitvec 100000) [OpSet 7, OpSet 99999, OpClear 7] = Some (True, p) \<and>
    sqlite3BitvecTest (Some p) 99999 = Some True"
  using bitvec_refines_set [of 100000 "[OpSet 7, OpSet 99999, OpClear 7]" 99999 "[]"]
  by (auto simp del: bitvec_run.simps)

text \<open>A failed allocation in sqlite3BitvecSet is reported as SQLITE_NOMEM, and sets no bit
  that was not set before or asked for.\<close>

theorem bitvec_set_nomem:
  assumes "bitvec_ok p" and "0 < i" and "i \<le> iSize p" and "iSize p < 2 ^ 32"
  shows "\<exists>rc p' m'. sqlite3BitvecSet m p i = Some (rc, p', m') \<and> bitvec_ok p' \<and>
    (rc = SQLITE_OK \<and> members p' = insert i (members p) \<or>
     rc = SQLITE_NOMEM \<and> members p' \<subseteq> insert i (members p))"
  using set_total [OF assms, of m] by (auto simp: set_outcome_def)

theorem bitvec_set_nomem_witness:
  "\<exists>rc p' m'. sqlite3BitvecSet [False] (zero_bitvec 5000) 17 = Some (rc, p', m') \<and> bitvec_ok p' \<and>
    (rc = SQLITE_OK \<and> members p' = {17} \<or> rc = SQLITE_NOMEM \<and> members p' \<subseteq> {17})"
  using bitvec_set_nomem [of "zero_bitvec 5000" 17 "[False]"] zero_bitvec_ok [of 5000] by simp

end
