(* ===== verification/PagerSavepoint.thy ===== *)
theory PagerSavepoint
  imports Bitvec
begin

text \<open>
  Savepoints of the pager (\<open>sqlite3.c\<close>, part \<open>pager.c\<close>): which pages must be copied to the
  sub-journal before they change (\<open>subjRequiresPage\<close>, \<open>addToSavepointBitvecs\<close>,
  \<open>subjournalPage\<close>, \<open>subjournalPageIfRequired\<close>, \<open>pagerOpenSavepoint\<close>).  The pager code is
  a client of the bit vectors: it is written and proved over the locale \<open>page_set\<close>, the
  contract it relies on, which is then interpreted on \<open>bitvec.c\<close>.  The results of the file
  operations are arguments.
\<close>

section \<open>The contract of a page set\<close>

locale page_set =
  fixes tst :: "'b \<Rightarrow> nat \<Rightarrow> bool option"
    and st :: "'m \<Rightarrow> 'b \<Rightarrow> nat \<Rightarrow> (rc \<times> 'b \<times> 'm) option"
    and ok :: "nat \<Rightarrow> 'b \<Rightarrow> bool" and elems :: "'b \<Rightarrow> nat set"
  assumes tst_elems: "ok n b \<Longrightarrow> 0 < i \<Longrightarrow> i \<le> n \<Longrightarrow> tst b i = Some (i \<in> elems b)"
    and st_elems: "ok n b \<Longrightarrow> 0 < i \<Longrightarrow> i \<le> n \<Longrightarrow> \<exists>rc b' m'. st m b i = Some (rc, b', m') \<and> ok n b' \<and>
      (rc = SQLITE_OK \<and> elems b' = insert i (elems b) \<or>
       rc = SQLITE_NOMEM \<and> elems b' \<subseteq> insert i (elems b))"

interpretation bitvec_pages: page_set sqlite3BitvecTestNotNull sqlite3BitvecSet
  "\<lambda>n b. bitvec_ok b \<and> iSize b = n \<and> n < 2 ^ 32" members
proof unfold_locales
  fix n b i
  assume b: "bitvec_ok b \<and> iSize b = n \<and> n < 2 ^ 32" and i: "0 < i" "i \<le> n"
  then show "sqlite3BitvecTestNotNull b i = Some (i \<in> members b)"
    using testNotNull_ok [of b i] by simp
  show "\<exists>rc b' m'. sqlite3BitvecSet m b i = Some (rc, b', m') \<and> (bitvec_ok b' \<and> iSize b' = n \<and> n < 2 ^ 32) \<and>
      (rc = SQLITE_OK \<and> members b' = insert i (members b) \<or>
       rc = SQLITE_NOMEM \<and> members b' \<subseteq> insert i (members b))" for m
    using set_total [of b i m] b i by (auto simp: set_outcome_def)
qed

section \<open>The pager's part\<close>

record 'b PagerSavepoint =
  pInSavepoint :: 'b
  nOrig :: nat
  iSubRec :: nat

text \<open>\<open>pg_sjfd\<close> has the complete records of the sub-journal, by index; \<open>pg_off\<close> is
  PAGER_JOURNALMODE_OFF.\<close>

record ('b, 'd) pager =
  pg_aSavepoint :: "'b PagerSavepoint list"
  pg_sjfd :: "nat \<rightharpoonup> nat \<times> 'd"
  pg_nSubRec :: nat
  pg_off :: bool
  pg_dbSize :: nat

fun subjRequiresPage :: "('b \<Rightarrow> nat \<Rightarrow> bool option) \<Rightarrow> 'b PagerSavepoint list \<Rightarrow> nat \<Rightarrow> bool option" where
  "subjRequiresPage tst [] pgno = Some False"
| "subjRequiresPage tst (p # ps) pgno =
     (if nOrig p \<ge> pgno
      then do { t \<leftarrow> tst (pInSavepoint p) pgno; if \<not> t then Some True else subjRequiresPage tst ps pgno }
      else subjRequiresPage tst ps pgno)"

fun addToSavepointBitvecs :: "('m \<Rightarrow> 'b \<Rightarrow> nat \<Rightarrow> (rc \<times> 'b \<times> 'm) option) \<Rightarrow> 'm \<Rightarrow> rc
    \<Rightarrow> 'b PagerSavepoint list \<Rightarrow> nat \<Rightarrow> (rc \<times> 'b PagerSavepoint list \<times> 'm) option" where
  "addToSavepointBitvecs st m rc [] pgno = Some (rc, [], m)"
| "addToSavepointBitvecs st m rc (p # ps) pgno =
     (if pgno \<le> nOrig p
      then do {
        (r, b, m) \<leftarrow> st m (pInSavepoint p) pgno;
        (rc, ps, m) \<leftarrow> addToSavepointBitvecs st m (rc OR r) ps pgno;
        Some (rc, p\<lparr>pInSavepoint := b\<rparr> # ps, m)
      }
      else do {
        (rc, ps, m) \<leftarrow> addToSavepointBitvecs st m rc ps pgno;
        Some (rc, p # ps, m)
      })"

text \<open>\<open>subjournalPage\<close>: \<open>open_rc\<close>, \<open>w4_rc\<close> and \<open>wd_rc\<close> are the results of opening the sub-journal
  and of the two writes of the record.\<close>

definition subjournalPage :: "('m \<Rightarrow> 'b \<Rightarrow> nat \<Rightarrow> (rc \<times> 'b \<times> 'm) option) \<Rightarrow> rc \<Rightarrow> rc \<Rightarrow> rc \<Rightarrow> 'm
    \<Rightarrow> nat \<Rightarrow> 'd \<Rightarrow> ('b, 'd) pager \<Rightarrow> (rc \<times> ('b, 'd) pager \<times> 'm) option" where
  "subjournalPage st open_rc w4_rc wd_rc m pgno pData pg =
     (let (rc, pg) =
        (if \<not> pg_off pg
         then if open_rc \<noteq> SQLITE_OK then (open_rc, pg)
              else if w4_rc \<noteq> SQLITE_OK then (w4_rc, pg)
              else if wd_rc \<noteq> SQLITE_OK then (wd_rc, pg)
              else (SQLITE_OK, pg\<lparr>pg_sjfd := (pg_sjfd pg)(pg_nSubRec pg \<mapsto> (pgno, pData))\<rparr>)
         else (SQLITE_OK, pg))
      in if rc = SQLITE_OK
         then do {
           (rc, sps, m) \<leftarrow> addToSavepointBitvecs st m SQLITE_OK (pg_aSavepoint pg) pgno;
           Some (rc, pg\<lparr>pg_nSubRec := pg_nSubRec pg + 1, pg_aSavepoint := sps\<rparr>, m)
         }
         else Some (rc, pg, m))"

definition subjournalPageIfRequired :: "('b \<Rightarrow> nat \<Rightarrow> bool option)
    \<Rightarrow> ('m \<Rightarrow> 'b \<Rightarrow> nat \<Rightarrow> (rc \<times> 'b \<times> 'm) option) \<Rightarrow> rc \<Rightarrow> rc \<Rightarrow> rc \<Rightarrow> 'm
    \<Rightarrow> nat \<Rightarrow> 'd \<Rightarrow> ('b, 'd) pager \<Rightarrow> (rc \<times> ('b, 'd) pager \<times> 'm) option" where
  "subjournalPageIfRequired tst st open_rc w4_rc wd_rc m pgno pData pg = do {
     req \<leftarrow> subjRequiresPage tst (pg_aSavepoint pg) pgno;
     if req then subjournalPage st open_rc w4_rc wd_rc m pgno pData pg else Some (SQLITE_OK, pg, m)
   }"

text \<open>The loop of \<open>pagerOpenSavepoint\<close>, for \<open>k\<close> new savepoints, after the array has grown; the
  offsets in the main journal and in the WAL are not part of the model.\<close>

fun openSavepoints :: "(nat \<Rightarrow> 'm \<Rightarrow> 'b option \<times> 'm) \<Rightarrow> nat \<Rightarrow> 'm \<Rightarrow> ('b, 'd) pager \<Rightarrow> rc \<times> ('b, 'd) pager \<times> 'm" where
  "openSavepoints create 0 m pg = (SQLITE_OK, pg, m)"
| "openSavepoints create (Suc k) m pg =
     (let (b, m) = create (pg_dbSize pg) m
      in case b of
           None \<Rightarrow> (SQLITE_NOMEM, pg, m)
         | Some b \<Rightarrow> openSavepoints create k m (pg\<lparr>pg_aSavepoint := pg_aSavepoint pg @
               [\<lparr>pInSavepoint = b, nOrig = pg_dbSize pg, iSubRec = pg_nSubRec pg\<rparr>]\<rparr>))"

section \<open>What the pager gets from the contract\<close>

context page_set
begin

lemma requires_iff:
  "\<forall>p \<in> set ps. ok (nOrig p) (pInSavepoint p) \<Longrightarrow> 0 < i \<Longrightarrow>
    subjRequiresPage tst ps i = Some (\<exists>p \<in> set ps. i \<le> nOrig p \<and> i \<notin> elems (pInSavepoint p))"
  by (induction ps) (auto simp: tst_elems)

lemma add_all:
  assumes "\<forall>p \<in> set ps. ok (nOrig p) (pInSavepoint p)" and "0 < i" and "rc = SQLITE_OK \<or> rc = SQLITE_NOMEM"
  shows "\<exists>rc' ps' m'. addToSavepointBitvecs st m rc ps i = Some (rc', ps', m') \<and>
    (rc' = SQLITE_OK \<or> rc' = SQLITE_NOMEM) \<and> (rc' = SQLITE_OK \<longrightarrow> rc = SQLITE_OK) \<and>
    list_all2 (\<lambda>p p'. nOrig p' = nOrig p \<and> iSubRec p' = iSubRec p \<and> ok (nOrig p') (pInSavepoint p') \<and>
      (rc' = SQLITE_OK \<longrightarrow> elems (pInSavepoint p') =
         (if i \<le> nOrig p then insert i (elems (pInSavepoint p)) else elems (pInSavepoint p)))) ps ps'"
  using assms
proof (induction ps arbitrary: m rc)
  case (Cons p ps)
  show ?case
  proof (cases "i \<le> nOrig p")
    case True
    obtain r b m1 where s: "st m (pInSavepoint p) i = Some (r, b, m1)" "ok (nOrig p) b"
      "r = SQLITE_OK \<and> elems b = insert i (elems (pInSavepoint p)) \<or>
       r = SQLITE_NOMEM \<and> elems b \<subseteq> insert i (elems (pInSavepoint p))"
      using st_elems [of "nOrig p" "pInSavepoint p" i m] Cons.prems True by auto
    then have or: "(rc OR r = SQLITE_OK \<or> rc OR r = SQLITE_NOMEM) \<and>
        (rc OR r = SQLITE_OK \<longrightarrow> rc = SQLITE_OK \<and> r = SQLITE_OK)"
      using rc_or [OF Cons.prems(3)] by blast
    then obtain rc' ps' m' where
      "addToSavepointBitvecs st m1 (rc OR r) ps i = Some (rc', ps', m')"
      "rc' = SQLITE_OK \<or> rc' = SQLITE_NOMEM" "rc' = SQLITE_OK \<longrightarrow> rc OR r = SQLITE_OK"
      "list_all2 (\<lambda>p p'. nOrig p' = nOrig p \<and> iSubRec p' = iSubRec p \<and> ok (nOrig p') (pInSavepoint p') \<and>
        (rc' = SQLITE_OK \<longrightarrow> elems (pInSavepoint p') =
          (if i \<le> nOrig p then insert i (elems (pInSavepoint p)) else elems (pInSavepoint p)))) ps ps'"
      using Cons.IH [of "rc OR r" m1] Cons.prems(1,2) by auto
    then show ?thesis using s True or by auto
  next
    case False
    then show ?thesis using Cons.IH [of rc m] Cons.prems by auto
  qed
qed simp

lemma add_then_requires:
  assumes "\<forall>p \<in> set ps. ok (nOrig p) (pInSavepoint p)" and "0 < i" and "0 < j"
    and run: "addToSavepointBitvecs st m SQLITE_OK ps i = Some (SQLITE_OK, ps', m')"
  shows "subjRequiresPage tst ps' j = (if j = i then Some False else subjRequiresPage tst ps j)"
proof -
  have all: "list_all2 (\<lambda>p p'. nOrig p' = nOrig p \<and> iSubRec p' = iSubRec p \<and> ok (nOrig p') (pInSavepoint p') \<and>
      elems (pInSavepoint p') =
         (if i \<le> nOrig p then insert i (elems (pInSavepoint p)) else elems (pInSavepoint p))) ps ps'"
    using add_all [OF assms(1,2), of SQLITE_OK m] run by auto
  then have ok': "\<forall>p \<in> set ps'. ok (nOrig p) (pInSavepoint p)"
    by (auto simp: list_all2_conv_all_nth in_set_conv_nth)
  have "(\<exists>p \<in> set ps'. j \<le> nOrig p \<and> j \<notin> elems (pInSavepoint p)) \<longleftrightarrow>
      j \<noteq> i \<and> (\<exists>p \<in> set ps. j \<le> nOrig p \<and> j \<notin> elems (pInSavepoint p))"
    using all by (induction rule: list_all2_induct) auto
  then show ?thesis
    using requires_iff [OF ok' assms(3)] requires_iff [OF assms(1,3)] by simp
qed

lemma subjournal_once:
  assumes "\<forall>p \<in> set (pg_aSavepoint pg). ok (nOrig p) (pInSavepoint p)" and "0 < i" and "\<not> pg_off pg"
    and run: "subjournalPageIfRequired tst st o4 w4 wd m i d pg = Some (SQLITE_OK, pg', m')"
  shows "subjRequiresPage tst (pg_aSavepoint pg') i = Some False \<and>
    (0 < j \<longrightarrow> j \<noteq> i \<longrightarrow> subjRequiresPage tst (pg_aSavepoint pg') j = subjRequiresPage tst (pg_aSavepoint pg) j) \<and>
    (if subjRequiresPage tst (pg_aSavepoint pg) i = Some True
     then pg_sjfd pg' = (pg_sjfd pg)(pg_nSubRec pg \<mapsto> (i, d)) \<and> pg_nSubRec pg' = pg_nSubRec pg + 1
     else pg' = pg)"
proof -
  obtain req where req: "subjRequiresPage tst (pg_aSavepoint pg) i = Some req"
    using requires_iff [OF assms(1,2)] by blast
  show ?thesis
  proof (cases req)
    case False
    then show ?thesis using run req by (simp add: subjournalPageIfRequired_def)
  next
    case True
    then have "subjournalPage st o4 w4 wd m i d pg = Some (SQLITE_OK, pg', m')"
      using run req by (simp add: subjournalPageIfRequired_def)
    then obtain sps where "addToSavepointBitvecs st m SQLITE_OK (pg_aSavepoint pg) i = Some (SQLITE_OK, sps, m')"
      "pg' = pg\<lparr>pg_sjfd := (pg_sjfd pg)(pg_nSubRec pg \<mapsto> (i, d)), pg_nSubRec := pg_nSubRec pg + 1,
         pg_aSavepoint := sps\<rparr>"
      using assms(3) by (auto simp: subjournalPage_def Let_def split: if_splits Option.bind_splits)
    then show ?thesis
      using add_then_requires [OF assms(1,2,2)] add_then_requires [OF assms(1,2), of j] req True by auto
  qed
qed

end

lemma openSavepoints_ok:
  assumes "openSavepoints sqlite3BitvecCreate k m pg = (SQLITE_OK, pg', m')"
  shows "pg_aSavepoint pg' = pg_aSavepoint pg @ replicate k
      \<lparr>pInSavepoint = zero_bitvec (pg_dbSize pg), nOrig = pg_dbSize pg, iSubRec = pg_nSubRec pg\<rparr>"
  using assms
proof (induction k arbitrary: m pg)
  case (Suc k)
  then show ?case
    by (auto simp: sqlite3BitvecCreate_def Let_def split: prod.splits if_splits)
qed simp

section \<open>Properties\<close>

text \<open>C19: When a page is about to change, subjournalPageIfRequired leaves it recorded in every
  open savepoint: a second call needs nothing, the need of every other page is unchanged, and
  the sub-journal gains exactly one record, holding the page, if a savepoint needed it and none
  otherwise.\<close>

theorem subjournal_first_write:
  assumes "\<forall>p \<in> set (pg_aSavepoint pg). bitvec_ok (pInSavepoint p) \<and> iSize (pInSavepoint p) = nOrig p \<and> nOrig p < 2 ^ 32"
    and "0 < i" and "0 < j" and "\<not> pg_off pg"
    and "subjournalPageIfRequired sqlite3BitvecTestNotNull sqlite3BitvecSet o4 w4 wd m i d pg = Some (SQLITE_OK, pg', m')"
  shows "subjRequiresPage sqlite3BitvecTestNotNull (pg_aSavepoint pg') j =
      (if j = i then Some False else subjRequiresPage sqlite3BitvecTestNotNull (pg_aSavepoint pg) j) \<and>
    (if subjRequiresPage sqlite3BitvecTestNotNull (pg_aSavepoint pg) i = Some True
     then pg_sjfd pg' = (pg_sjfd pg)(pg_nSubRec pg \<mapsto> (i, d)) \<and> pg_nSubRec pg' = pg_nSubRec pg + 1
     else pg' = pg)"
  using bitvec_pages.subjournal_once [OF assms(1,2,4,5), of j] assms(3) by auto

text \<open>After a savepoint is opened on a database of n pages, every page up to n has to be
  recorded before it changes, whatever the older savepoints have recorded already.\<close>

theorem new_savepoint_requires_all:
  assumes "\<forall>p \<in> set (pg_aSavepoint pg). bitvec_ok (pInSavepoint p) \<and> iSize (pInSavepoint p) = nOrig p \<and> nOrig p < 2 ^ 32"
    and "pg_dbSize pg < 2 ^ 32" and "0 < i" and "i \<le> pg_dbSize pg"
    and "openSavepoints sqlite3BitvecCreate (Suc k) m pg = (SQLITE_OK, pg', m')"
  shows "subjRequiresPage sqlite3BitvecTestNotNull (pg_aSavepoint pg') i = Some True"
proof -
  have new: "pg_aSavepoint pg' = pg_aSavepoint pg @ replicate (Suc k)
      \<lparr>pInSavepoint = zero_bitvec (pg_dbSize pg), nOrig = pg_dbSize pg, iSubRec = pg_nSubRec pg\<rparr>"
    using openSavepoints_ok [OF assms(5)] .
  have "\<forall>p \<in> set (pg_aSavepoint pg'). bitvec_ok (pInSavepoint p) \<and> iSize (pInSavepoint p) = nOrig p \<and> nOrig p < 2 ^ 32"
    using assms(1,2) by (auto simp: new zero_bitvec_ok)
  from bitvec_pages.requires_iff [OF this assms(3)] show ?thesis
    using assms(4) by (simp add: new zero_bitvec_ok bex_Un)
qed

section \<open>Witnesses\<close>

definition demo_pager :: "(Bitvec, nat) pager" where
  "demo_pager = \<lparr>pg_aSavepoint = [\<lparr>pInSavepoint = zero_bitvec 10, nOrig = 10, iSubRec = 0\<rparr>],
     pg_sjfd = Map.empty, pg_nSubRec = 0, pg_off = False, pg_dbSize = 12\<rparr>"

lemma demo_pager_ok:
  "\<forall>p \<in> set (pg_aSavepoint demo_pager). bitvec_ok (pInSavepoint p) \<and> iSize (pInSavepoint p) = nOrig p \<and> nOrig p < 2 ^ 32"
  by (simp add: demo_pager_def zero_bitvec_ok)

lemma demo_write:
  "\<exists>pg' m'. subjournalPageIfRequired sqlite3BitvecTestNotNull sqlite3BitvecSet 0 0 0 [] 3 77 demo_pager
     = Some (SQLITE_OK, pg', m')"
proof -
  obtain rc b m where set: "sqlite3BitvecSet [] (zero_bitvec 10) 3 = Some (rc, b, m)"
    using set_total [of "zero_bitvec 10" 3 "[]"] zero_bitvec_ok [of 10] by auto
  then have "rc = SQLITE_OK" using bitvec_set_memory [of 9] by (auto simp: sqlite3BitvecSet_def)
  moreover have "sqlite3BitvecTestNotNull (zero_bitvec 10) 3 = Some False"
    using testNotNull_ok [of "zero_bitvec 10" 3] zero_bitvec_ok [of 10] by simp
  ultimately show ?thesis
    using set by (simp add: subjournalPageIfRequired_def subjournalPage_def demo_pager_def)
qed

theorem subjournal_first_write_witness:
  "\<exists>pg' m'. subjournalPageIfRequired sqlite3BitvecTestNotNull sqlite3BitvecSet 0 0 0 [] 3 77 demo_pager
       = Some (SQLITE_OK, pg', m') \<and>
     subjRequiresPage sqlite3BitvecTestNotNull (pg_aSavepoint pg') 3 = Some False"
proof -
  obtain pg' m' where run: "subjournalPageIfRequired sqlite3BitvecTestNotNull sqlite3BitvecSet 0 0 0 [] 3 77 demo_pager
     = Some (SQLITE_OK, pg', m')"
    using demo_write by blast
  have "\<not> pg_off demo_pager" by (simp add: demo_pager_def)
  from subjournal_first_write [OF demo_pager_ok _ _ this run, of 3] run show ?thesis by simp
qed

theorem new_savepoint_requires_all_witness:
  "\<exists>pg' m'. openSavepoints sqlite3BitvecCreate 1 [] demo_pager = (SQLITE_OK, pg', m') \<and>
     subjRequiresPage sqlite3BitvecTestNotNull (pg_aSavepoint pg') 11 = Some True"
proof -
  obtain pg' m' where run: "openSavepoints sqlite3BitvecCreate (Suc 0) [] demo_pager = (SQLITE_OK, pg', m')"
    by (simp add: sqlite3BitvecCreate_def)
  have "pg_dbSize demo_pager = 12" by (simp add: demo_pager_def)
  with new_savepoint_requires_all [OF demo_pager_ok _ _ _ run, of 11] run show ?thesis by auto
qed

end
