(* ===== verification/WalSort.thy ===== *)
theory WalSort
  imports Prelude
begin

text \<open>
  The merge sort of the wal-index (\<open>walMerge\<close>, \<open>walMergesort\<close> of \<open>wal.c\<close>): the entries of a table
  are sorted in place by page number, and of several entries of a page the last one stays.  The
  array \<open>aList\<close> is a list of slots; a sublist is the pair of its first position and its length.
\<close>

section \<open>Code\<close>

type_synonym sublist = "nat \<times> nat"

definition sub :: "nat list \<Rightarrow> sublist \<Rightarrow> nat list" where
  "sub a = (\<lambda>(i, n). take n (drop i a))"

definition write_slots :: "nat list \<Rightarrow> nat \<Rightarrow> nat list \<Rightarrow> nat list" where
  "write_slots a i xs = take i a @ xs @ drop (i + length xs) a"

text \<open>\<open>if( iLeft<nLeft && aContent[aLeft[iLeft]]==dbpage ) iLeft++\<close>\<close>

fun skip_left :: "(nat \<Rightarrow> u32) \<Rightarrow> u32 \<Rightarrow> nat list \<Rightarrow> nat list" where
  "skip_left aContent dbpage [] = []"
| "skip_left aContent dbpage (l # ls) = (if aContent l = dbpage then ls else l # ls)"

lemma length_skip_left: "length (skip_left aContent dbpage ls) \<le> length ls"
  by (cases ls) simp_all

text \<open>The loop of \<open>walMerge\<close>: what it writes to \<open>aTmp\<close>.\<close>

function merge_loop :: "(nat \<Rightarrow> u32) \<Rightarrow> nat list \<Rightarrow> nat list \<Rightarrow> nat list" where
  "merge_loop aContent [] [] = []"
| "merge_loop aContent (l # ls) [] = l # merge_loop aContent (skip_left aContent (aContent l) ls) []"
| "merge_loop aContent [] (r # rs) = r # merge_loop aContent [] rs"
| "merge_loop aContent (l # ls) (r # rs) =
     (if aContent l < aContent r
      then l # merge_loop aContent (skip_left aContent (aContent l) ls) (r # rs)
      else r # merge_loop aContent (skip_left aContent (aContent r) (l # ls)) rs)"
  by pat_completeness auto
termination
  by (relation "measure (\<lambda>(c, ls, rs). length ls + length rs)")
    (auto simp: less_Suc_eq_le length_skip_left add_le_mono)

definition walMerge :: "(nat \<Rightarrow> u32) \<Rightarrow> nat list \<Rightarrow> sublist \<Rightarrow> sublist \<Rightarrow> nat list \<times> sublist" where
  "walMerge aContent a left right =
     (let aTmp = merge_loop aContent (sub a left) (sub a right) in
      (write_slots a (fst left) aTmp, (fst left, length aTmp)))"

text \<open>The first inner loop of \<open>walMergesort\<close>: the bits of \<open>iList\<close> tell which sublists are full.
  \<open>None\<close> stands for an access behind the 13 sublists.\<close>

function merge_full :: "(nat \<Rightarrow> u32) \<Rightarrow> nat \<Rightarrow> (nat \<Rightarrow> sublist) \<Rightarrow> nat \<Rightarrow> nat list \<Rightarrow> sublist
    \<Rightarrow> (nat \<times> nat list \<times> sublist) option" where
  "merge_full aContent iList aSub iSub a aMerge =
     (if \<not> bit iList iSub then Some (iSub, a, aMerge)
      else if 13 \<le> iSub then None
      else let (a, aMerge) = walMerge aContent a (aSub iSub) aMerge
           in merge_full aContent iList aSub (iSub + 1) a aMerge)"
  by pat_completeness auto
termination
  by (relation "measure (\<lambda>(c, i, s, k, a, m). 13 - k)") auto

declare merge_full.simps [simp del]

text \<open>The outer loop, for the next \<open>n\<close> elements from \<open>iList\<close> on.\<close>

fun sort_elements :: "(nat \<Rightarrow> u32) \<Rightarrow> nat \<Rightarrow> nat \<Rightarrow> (nat \<Rightarrow> sublist) \<Rightarrow> nat \<Rightarrow> nat list \<Rightarrow> sublist
    \<Rightarrow> ((nat \<Rightarrow> sublist) \<times> nat \<times> nat list \<times> sublist) option" where
  "sort_elements aContent 0 iList aSub iSub a aMerge = Some (aSub, iSub, a, aMerge)"
| "sort_elements aContent (Suc n) iList aSub iSub a aMerge = do {
     (iSub, a, aMerge) \<leftarrow> merge_full aContent iList aSub 0 a (iList, 1);
     if 13 \<le> iSub then None
     else sort_elements aContent n (iList + 1) (aSub(iSub := aMerge)) iSub a aMerge
   }"

text \<open>The last loop, over the remaining \<open>n\<close> sublists.\<close>

fun merge_rest :: "(nat \<Rightarrow> u32) \<Rightarrow> nat \<Rightarrow> (nat \<Rightarrow> sublist) \<Rightarrow> nat \<Rightarrow> nat \<Rightarrow> nat list \<Rightarrow> sublist \<Rightarrow> nat list \<times> sublist" where
  "merge_rest aContent nList aSub 0 iSub a aMerge = (a, aMerge)"
| "merge_rest aContent nList aSub (Suc n) iSub a aMerge =
     (let (a, aMerge) = (if bit nList iSub then walMerge aContent a (aSub iSub) aMerge else (a, aMerge))
      in merge_rest aContent nList aSub n (iSub + 1) a aMerge)"

definition walMergesort :: "(nat \<Rightarrow> u32) \<Rightarrow> nat list \<Rightarrow> nat \<Rightarrow> (nat list \<times> nat) option" where
  "walMergesort aContent a nList = do {
     (aSub, iSub, a, aMerge) \<leftarrow> sort_elements aContent nList 0 (\<lambda>_. (0, 0)) 0 a (0, 0);
     let (a, aMerge) = merge_rest aContent nList aSub (13 - (iSub + 1)) (iSub + 1) a aMerge;
     Some (a, snd aMerge)
   }"

section \<open>Merging\<close>

abbreviation ascending :: "(nat \<Rightarrow> u32) \<Rightarrow> nat list \<Rightarrow> bool" where
  "ascending c \<equiv> sorted_wrt (\<lambda>x y. c x < c y)"

lemma skip_left_head: "ascending c (l # ls) \<Longrightarrow> skip_left c (c l) ls = ls"
  by (cases ls) auto

lemma set_skip_left: "ascending c ls \<Longrightarrow> \<forall>x \<in> set ls. d \<le> c x \<Longrightarrow> set (skip_left c d ls) = {x \<in> set ls. c x \<noteq> d}"
  by (cases ls) auto

lemma ascending_skip_left: "ascending c ls \<Longrightarrow> ascending c (skip_left c d ls)"
  by (cases ls) auto

lemma merge_loop_right: "merge_loop c [] rs = rs"
  by (induction rs) simp_all

lemma merge_loop_left: "ascending c ls \<Longrightarrow> merge_loop c ls [] = ls"
proof (induction ls)
  case (Cons l ls)
  then have "skip_left c (c l) ls = ls" "ascending c ls" using skip_left_head [OF Cons.prems] by simp_all
  with Cons.IH show ?case by simp
qed simp

lemma merge_loop_correct:
  "ascending c ls \<Longrightarrow> ascending c rs \<Longrightarrow>
   ascending c (merge_loop c ls rs) \<and> set (merge_loop c ls rs) = set rs \<union> {x \<in> set ls. c x \<notin> c ` set rs}"
proof (induction c ls rs rule: merge_loop.induct)
  case (4 c l ls r rs)
  have le: "\<forall>x \<in> set (r # rs). c r \<le> c x" using 4(4) by auto
  show ?case
  proof (cases "c l < c r")
    case True
    have IH: "ascending c (merge_loop c ls (r # rs))"
      "set (merge_loop c ls (r # rs)) = set (r # rs) \<union> {x \<in> set ls. c x \<notin> c ` set (r # rs)}"
      using 4(1) [OF True] 4(3,4) by (simp_all add: skip_left_head [OF 4(3)])
    have less: "\<forall>x \<in> set (r # rs). c l < c x" using le True by (meson order_less_le_trans)
    moreover have "\<forall>x \<in> set ls. c l < c x" using 4(3) by simp
    ultimately have "\<forall>x \<in> set (merge_loop c ls (r # rs)). c l < c x" unfolding IH(2) by blast
    then have "ascending c (l # merge_loop c ls (r # rs))" using IH(1) by simp
    moreover have "c l \<notin> c ` set (r # rs)" using less by (metis image_iff order_less_irrefl)
    ultimately have "ascending c (l # merge_loop c ls (r # rs))" "c l \<notin> c ` set (r # rs)" by blast+
    then show ?thesis using True IH(2) by (auto simp: skip_left_head [OF 4(3)])
  next
    case False
    let ?L = "skip_left c (c r) (l # ls)"
    have ge: "\<forall>x \<in> set (l # ls). c r \<le> c x" using 4(3) False by force
    have L: "ascending c ?L" "set ?L = {x \<in> set (l # ls). c x \<noteq> c r}"
      using ascending_skip_left [OF 4(3)] set_skip_left [OF 4(3) ge] by blast+
    have "ascending c rs" using 4(4) by simp
    from 4(2) [OF False L(1) this] have IH: "ascending c (merge_loop c ?L rs)"
      "set (merge_loop c ?L rs) = set rs \<union> {x \<in> set ?L. c x \<notin> c ` set rs}" by blast+
    have "\<forall>x \<in> set rs. c r < c x" using 4(4) by simp
    moreover have "\<forall>x \<in> set ?L. c r < c x" using ge unfolding L(2) by (auto simp: order_less_le)
    ultimately have "\<forall>x \<in> set (merge_loop c ?L rs). c r < c x" unfolding IH(2) by blast
    then have "ascending c (r # merge_loop c ?L rs)" using IH(1) by simp
    moreover have "set (r # merge_loop c ?L rs) = set (r # rs) \<union> {x \<in> set (l # ls). c x \<notin> c ` set (r # rs)}"
      unfolding list.set(2) [of r "merge_loop c ?L rs"] IH(2) L(2) by auto
    ultimately show ?thesis using False by (simp del: sorted_wrt.simps list.set skip_left.simps)
  qed
next
  case (2 c l ls)
  show ?case unfolding merge_loop_left [OF 2(2)] using 2(2) by auto
qed (simp_all add: merge_loop_right)

section \<open>Blocks\<close>

text \<open>A sublist stands for a block of positions: it has the last position of every page, by page.\<close>

definition last_of :: "(nat \<Rightarrow> u32) \<Rightarrow> nat set \<Rightarrow> nat list \<Rightarrow> bool" where
  "last_of c B xs \<longleftrightarrow> ascending c xs \<and> set xs = {j \<in> B. \<forall>k \<in> B. c k = c j \<longrightarrow> k \<le> j}"

lemma last_of_single: "last_of c {j} [j]"
  by (auto simp: last_of_def)

lemma last_of_image:
  assumes "last_of c B xs" "finite B"
  shows "c ` set xs = c ` B"
proof (intro equalityI subsetI)
  fix v assume "v \<in> c ` B"
  then have "{j \<in> B. c j = v} \<noteq> {}" by auto
  moreover have fin: "finite {j \<in> B. c j = v}" using assms(2) by simp
  ultimately have "Max {j \<in> B. c j = v} \<in> {j \<in> B. c j = v}" by (rule Max_in [rotated])
  moreover have "k \<le> Max {j \<in> B. c j = v}" if "k \<in> B" "c k = v" for k
    using that fin by (intro Max_ge) auto
  ultimately show "v \<in> c ` set xs"
    using assms(1) unfolding last_of_def by (intro image_eqI [of _ _ "Max {j \<in> B. c j = v}"]) auto
qed (use assms(1) in \<open>auto simp: last_of_def\<close>)

lemma last_of_merge:
  assumes "last_of c {s ..< m} xs" "last_of c {m ..< e} ys" "s \<le> m" "m \<le> e"
  shows "last_of c {s ..< e} (merge_loop c xs ys)"
proof -
  have asc: "ascending c xs" "ascending c ys"
    and X: "set xs = {j \<in> {s ..< m}. \<forall>k \<in> {s ..< m}. c k = c j \<longrightarrow> k \<le> j}"
    and Y: "set ys = {j \<in> {m ..< e}. \<forall>k \<in> {m ..< e}. c k = c j \<longrightarrow> k \<le> j}"
    using assms(1,2) by (simp_all add: last_of_def)
  have img: "c ` set ys = c ` {m ..< e}" by (rule last_of_image [OF assms(2)]) simp
  have "set ys \<union> {x \<in> set xs. c x \<notin> c ` set ys} = {j \<in> {s ..< e}. \<forall>k \<in> {s ..< e}. c k = c j \<longrightarrow> k \<le> j}"
  proof (intro set_eqI iffI)
    fix j assume "j \<in> set ys \<union> {x \<in> set xs. c x \<notin> c ` set ys}"
    then show "j \<in> {j \<in> {s ..< e}. \<forall>k \<in> {s ..< e}. c k = c j \<longrightarrow> k \<le> j}"
    proof
      assume "j \<in> set ys"
      then have "m \<le> j" "j < e" "\<forall>k \<in> {m ..< e}. c k = c j \<longrightarrow> k \<le> j" by (auto simp: Y)
      then show ?thesis using assms(3) by (auto simp: not_le)
    next
      assume "j \<in> {x \<in> set xs. c x \<notin> c ` set ys}"
      then have j: "s \<le> j" "j < m" "\<forall>k \<in> {s ..< m}. c k = c j \<longrightarrow> k \<le> j" "c j \<notin> c ` {m ..< e}"
        by (auto simp: X img)
      have "k \<le> j" if "k \<in> {s ..< e}" "c k = c j" for k
      proof (cases "k < m")
        case True
        then show ?thesis using j(3) that by simp
      next
        case False
        then have "k \<in> {m ..< e}" using that(1) by simp
        then show ?thesis using j(4) that(2) by (metis image_eqI)
      qed
      then show ?thesis using j(1,2) assms(4) by auto
    qed
  next
    fix j assume j: "j \<in> {j \<in> {s ..< e}. \<forall>k \<in> {s ..< e}. c k = c j \<longrightarrow> k \<le> j}"
    show "j \<in> set ys \<union> {x \<in> set xs. c x \<notin> c ` set ys}"
    proof (cases "j < m")
      case True
      have "c j \<notin> c ` {m ..< e}" using j True assms(3) by force
      then show ?thesis using j True assms(4) unfolding X img by auto
    next
      case False
      then show ?thesis using j assms(3) unfolding Y by auto
    qed
  qed
  with merge_loop_correct [OF asc] show ?thesis by (simp add: last_of_def)
qed

lemma last_of_length: "last_of c {s ..< e} xs \<Longrightarrow> length xs \<le> e - s"
proof -
  assume l: "last_of c {s ..< e} xs"
  then have "distinct xs" unfolding last_of_def
    by (metis (no_types, lifting) distinct_conv_nth linorder_neqE_nat order_less_irrefl sorted_wrt_nth_less)
  then have "length xs = card (set xs)" by (simp add: distinct_card)
  also have "\<dots> \<le> card {s ..< e}" using l by (intro card_mono) (auto simp: last_of_def)
  finally show ?thesis by simp
qed

section \<open>The array\<close>

text \<open>After \<open>i\<close> elements, bit \<open>k\<close> of \<open>i\<close> stands for a sublist for the \<open>2 ^ k\<close> positions from
  \<open>floor_bits i (k + 1)\<close> on; the rest of the array is as it was filled.\<close>

definition floor_bits :: "nat \<Rightarrow> nat \<Rightarrow> nat" where
  "floor_bits i k = (i div 2 ^ k) * 2 ^ k"

lemma floor_bits_Suc: "floor_bits i k = floor_bits i (Suc k) + (if bit i k then 2 ^ k else 0)"
proof -
  have "i div 2 ^ k = 2 * (i div 2 ^ Suc k) + (i div 2 ^ k) mod 2"
    by (metis div_mult2_eq mult_div_mod_eq power_Suc2)
  also have "(i div 2 ^ k) mod 2 = (if bit i k then 1 else 0)" by (simp add: bit_iff_odd odd_iff_mod_2_eq_one)
  finally have d: "i div 2 ^ k = 2 * (i div 2 ^ Suc k) + (if bit i k then 1 else 0)" .
  show ?thesis unfolding floor_bits_def by (subst d) (simp add: algebra_simps)
qed

lemma floor_bits_0 [simp]: "floor_bits i 0 = i"
  by (simp add: floor_bits_def)

lemma floor_bits_le: "floor_bits i k \<le> i"
  by (simp add: floor_bits_def)

lemma floor_bits_mono: "k \<le> m \<Longrightarrow> floor_bits i m \<le> floor_bits i k"
proof (induction m)
  case (Suc m)
  then show ?case using floor_bits_Suc [of i m] by (auto simp: le_Suc_eq)
qed simp

lemma floor_bits_small: "i < 2 ^ k \<Longrightarrow> floor_bits i k = 0"
  by (simp add: floor_bits_def)

lemma floor_bits_low: "\<forall>m < k. \<not> bit i m \<Longrightarrow> floor_bits i k = i"
proof (induction k)
  case (Suc k)
  then show ?case using floor_bits_Suc [of i k] by simp
qed simp

text \<open>Counting from \<open>i\<close> to \<open>i + 1\<close>, where the bits below \<open>k\<close> are set and bit \<open>k\<close> is not.\<close>

lemma count_up:
  assumes "floor_bits i k + 2 ^ k = Suc i" "\<not> bit i k"
  shows "bit (Suc i) k" "m < k \<Longrightarrow> \<not> bit (Suc i) m" "k < m \<Longrightarrow> bit (Suc i) m = bit i m"
    "k \<le> m \<Longrightarrow> floor_bits (Suc i) (Suc m) = floor_bits i (Suc m)"
proof -
  define q where "q = i div 2 ^ Suc k"
  have i: "Suc i = q * 2 ^ Suc k + 2 ^ k"
    using assms floor_bits_Suc [of i k] by (simp add: floor_bits_def q_def)
  have "Suc i = (2 * q + 1) * 2 ^ k" unfolding i by (simp add: algebra_simps)
  then have "Suc i div 2 ^ k = 2 * q + 1" by (simp del: mult_Suc)
  then show "bit (Suc i) k" by (simp add: bit_iff_odd)
  have div: "Suc i div 2 ^ Suc k = q" unfolding i
  proof (rule div_nat_eqI)
    show "2 ^ Suc k * q \<le> q * 2 ^ Suc k + 2 ^ k" by (simp only: mult.commute le_add1)
    have "(2 :: nat) ^ k < 2 ^ Suc k" by simp
    then show "q * 2 ^ Suc k + 2 ^ k < 2 ^ Suc k * Suc q"
      unfolding mult_Suc_right mult.commute [of q] by linarith
  qed
  have up: "Suc i div 2 ^ m = i div 2 ^ m" if le: "Suc k \<le> m" for m
  proof -
    obtain d where m: "m = Suc k + d" using le_Suc_ex [OF le] by blast
    show ?thesis unfolding m power_add div_mult2_eq div by (simp only: q_def)
  qed
  show "bit (Suc i) m = bit i m" if "k < m" using up [of m] that by (simp add: bit_iff_odd)
  show "floor_bits (Suc i) (Suc m) = floor_bits i (Suc m)" if "k \<le> m"
    using up [of "Suc m"] that by (simp add: floor_bits_def)
  show "\<not> bit (Suc i) m" if less: "m < k"
  proof -
    obtain d where "k = m + Suc d" using less less_iff_Suc_add by auto
    then have "Suc i = (q * 2 ^ (Suc d + 1) + 2 ^ Suc d) * 2 ^ m" unfolding i by (simp add: algebra_simps power_add)
    then have "Suc i div 2 ^ m = q * 2 ^ (Suc d + 1) + 2 ^ Suc d" by simp
    then show ?thesis by (simp add: bit_iff_odd)
  qed
qed

definition sublist_ok :: "(nat \<Rightarrow> u32) \<Rightarrow> nat list \<Rightarrow> nat \<Rightarrow> nat \<Rightarrow> sublist \<Rightarrow> bool" where
  "sublist_ok c a s e p \<longleftrightarrow> fst p = s \<and> e \<le> length a \<and> s + snd p \<le> e \<and> last_of c {s ..< e} (sub a p)"

lemma length_sub: "i + n \<le> length a \<Longrightarrow> length (sub a (i, n)) = n"
  by (simp add: sub_def)

lemma length_write_slots: "i + length xs \<le> length a \<Longrightarrow> length (write_slots a i xs) = length a"
  by (simp add: write_slots_def)

lemma sub_write_same: "i + length xs \<le> length a \<Longrightarrow> sub (write_slots a i xs) (i, length xs) = xs"
  by (simp add: sub_def write_slots_def)

lemma sub_write_other:
  assumes "j + n \<le> i" "i + length xs \<le> length a"
  shows "sub (write_slots a i xs) (j, n) = sub a (j, n)"
proof -
  have "take n (drop j ys) = drop j (take (n + j) (take i ys))" for ys :: "nat list"
    using assms(1) by (simp add: take_drop min_def)
  moreover have "take i (write_slots a i xs) = take i a" using assms(2) by (simp add: write_slots_def)
  ultimately show ?thesis by (simp add: sub_def del: take_take)
qed

lemma nth_write_beyond:
  assumes "i + length xs \<le> j" "j < length a"
  shows "write_slots a i xs ! j = a ! j"
proof -
  have "length (take i a @ xs) = i + length xs" using assms by simp
  then show ?thesis using assms nth_append [of "take i a @ xs" "drop (i + length xs) a" j]
    by (simp only: write_slots_def append.assoc [symmetric]) (simp add: not_less)
qed

text \<open>One merge of neighbours.\<close>

lemma walMerge_ok:
  assumes l: "sublist_ok c a s m p" and r: "sublist_ok c a m e q" and le: "s \<le> m" "m \<le> e"
    and w: "walMerge c a p q = (a', r')"
  shows "sublist_ok c a' s e r'" "length a' = length a" "\<And>j. e \<le> j \<Longrightarrow> j < length a \<Longrightarrow> a' ! j = a ! j"
    "\<And>s' e' p'. sublist_ok c a s' e' p' \<Longrightarrow> e' \<le> s \<Longrightarrow> sublist_ok c a' s' e' p'"
proof -
  let ?out = "merge_loop c (sub a p) (sub a q)"
  have lo: "last_of c {s ..< e} ?out"
    using last_of_merge [OF _ _ le] l r by (simp add: sublist_ok_def)
  have e: "e \<le> length a" and s: "fst p = s" using l r by (simp_all add: sublist_ok_def)
  have len: "length ?out \<le> e - s" by (rule last_of_length [OF lo])
  then have fit: "s + length ?out \<le> length a" "s + length ?out \<le> e" using le e by simp_all
  have a': "a' = write_slots a s ?out" "r' = (s, length ?out)" using w s by (simp_all add: walMerge_def Let_def)
  show la: "length a' = length a" using fit(1) by (simp add: a' length_write_slots)
  show "sublist_ok c a' s e r'"
    using lo fit e la sub_write_same [OF fit(1)] by (simp add: sublist_ok_def a')
  show "a' ! j = a ! j" if "e \<le> j" "j < length a" for j
    using that fit(2) by (simp add: a' nth_write_beyond)
  show "sublist_ok c a' s' e' p'" if p': "sublist_ok c a s' e' p'" "e' \<le> s" for s' e' p'
    using p' fit(1) la sub_write_other [of "fst p'" "snd p'" s ?out a] by (auto simp: sublist_ok_def a')
qed

text \<open>The state between two elements.\<close>

definition sorted_upto :: "(nat \<Rightarrow> u32) \<Rightarrow> nat \<Rightarrow> (nat \<Rightarrow> sublist) \<Rightarrow> nat list \<Rightarrow> bool" where
  "sorted_upto c i aSub a \<longleftrightarrow>
     (\<forall>k. bit i k \<longrightarrow> sublist_ok c a (floor_bits i (Suc k)) (floor_bits i k) (aSub k))
   \<and> (\<forall>j. i \<le> j \<longrightarrow> j < length a \<longrightarrow> a ! j = j)"

text \<open>One element: the sublists of the set low bits are merged into one.\<close>

lemma bit_small: "bit i k \<Longrightarrow> i < 2 ^ n \<Longrightarrow> k < n" for i :: nat
  by (metis bit_take_bit_iff take_bit_nat_eq_self)

lemma merge_full_ok:
  assumes "i < 2 ^ 13" "\<forall>m \<ge> k. bit i m \<longrightarrow> sublist_ok c a (floor_bits i (Suc m)) (floor_bits i m) (aSub m)"
    "sublist_ok c a (floor_bits i k) (Suc i) p" "floor_bits i k + 2 ^ k = Suc i"
  shows "\<exists>k' a' p'. merge_full c i aSub k a p = Some (k', a', p') \<and> \<not> bit i k' \<and> length a' = length a
    \<and> sublist_ok c a' (floor_bits i k') (Suc i) p' \<and> floor_bits i k' + 2 ^ k' = Suc i
    \<and> (\<forall>m > k'. bit i m \<longrightarrow> sublist_ok c a' (floor_bits i (Suc m)) (floor_bits i m) (aSub m))
    \<and> (\<forall>j. Suc i \<le> j \<longrightarrow> j < length a \<longrightarrow> a' ! j = a ! j)"
  using assms
proof (induction c i aSub k a p rule: merge_full.induct)
  case (1 c i aSub k a p)
  show ?case
  proof (cases "bit i k")
    case True
    have k: "\<not> 13 \<le> k" using bit_small [OF True 1(2)] by simp
    obtain a1 p1 where w: "walMerge c a (aSub k) p = (a1, p1)" by (cases "walMerge c a (aSub k) p") blast
    have "sublist_ok c a (floor_bits i (Suc k)) (floor_bits i k) (aSub k)" using 1(3) True by simp
    note ok = walMerge_ok [OF this 1(4) floor_bits_mono _ w]
    have le: "floor_bits i k \<le> Suc i" using floor_bits_le [of i k] by simp
    note ok = ok [OF _ le, simplified]
    have fl: "floor_bits i (Suc k) + 2 ^ Suc k = Suc i" using 1(5) floor_bits_Suc [of i k] True by simp
    have "\<forall>m \<ge> Suc k. bit i m \<longrightarrow> sublist_ok c a1 (floor_bits i (Suc m)) (floor_bits i m) (aSub m)"
      using 1(3) ok(4) floor_bits_mono by (meson Suc_leD)
    from 1(1) [OF _ k refl] True w 1(2) this ok(1) fl
    obtain k' a' p' where r: "merge_full c i aSub (Suc k) a1 p1 = Some (k', a', p')" "\<not> bit i k'" "length a' = length a1"
      "sublist_ok c a' (floor_bits i k') (Suc i) p'" "floor_bits i k' + 2 ^ k' = Suc i"
      "\<forall>m > k'. bit i m \<longrightarrow> sublist_ok c a' (floor_bits i (Suc m)) (floor_bits i m) (aSub m)"
      "\<forall>j. Suc i \<le> j \<longrightarrow> j < length a1 \<longrightarrow> a' ! j = a1 ! j" by auto
    moreover have "merge_full c i aSub k a p = merge_full c i aSub (Suc k) a1 p1"
      using True k w by (simp add: merge_full.simps [of c i aSub k])
    ultimately show ?thesis using ok(2,3) by auto
  next
    case False
    then show ?thesis using 1 by (auto simp: merge_full.simps [of c i aSub k])
  qed
qed

lemma sorted_upto_step:
  assumes inv: "sorted_upto c i aSub a" and i: "i < 2 ^ 12" "i < length a"
  obtains k a' p where "merge_full c i aSub 0 a (i, 1) = Some (k, a', p)" "k < 13" "length a' = length a"
    "sorted_upto c (Suc i) (aSub(k := p)) a'" "bit (Suc i) k" "\<forall>m < k. \<not> bit (Suc i) m"
proof -
  have "a ! i = i" using inv i(2) by (simp add: sorted_upto_def)
  then have "sub a (i, 1) = [i]" using i(2) by (simp add: sub_def take_Suc_conv_app_nth)
  then have "sublist_ok c a (floor_bits i 0) (Suc i) (i, 1)"
    using i(2) last_of_single [of c i] by (simp add: sublist_ok_def atLeastLessThanSuc)
  moreover have "\<forall>m \<ge> 0. bit i m \<longrightarrow> sublist_ok c a (floor_bits i (Suc m)) (floor_bits i m) (aSub m)"
    using inv by (simp add: sorted_upto_def)
  moreover have "i < 2 ^ 13" using i(1) by simp
  ultimately obtain k a' p where r: "merge_full c i aSub 0 a (i, 1) = Some (k, a', p)" and k: "\<not> bit i k"
    and len: "length a' = length a" and p: "sublist_ok c a' (floor_bits i k) (Suc i) p" and fl: "floor_bits i k + 2 ^ k = Suc i"
    and up: "\<forall>m > k. bit i m \<longrightarrow> sublist_ok c a' (floor_bits i (Suc m)) (floor_bits i m) (aSub m)"
    and rest: "\<forall>j. Suc i \<le> j \<longrightarrow> j < length a \<longrightarrow> a' ! j = a ! j"
    using merge_full_ok [where i = i and c = c and a = a and k = 0 and aSub = aSub and p = "(i, 1)"] by (metis floor_bits_0 power_0 Suc_eq_plus1)
  note count = count_up [OF fl k]
  have "(2 :: nat) ^ k < 2 ^ 13" using fl i(1) by simp
  from power_less_imp_less_exp [OF _ this] have k13: "k < 13" by simp
  have "sublist_ok c a' (floor_bits (Suc i) (Suc m)) (floor_bits (Suc i) m) ((aSub(k := p)) m)" if set_m: "bit (Suc i) m" for m
  proof -
    consider "m = k" | "k < m" using count(2) set_m by (meson linorder_neqE_nat)
    then show ?thesis
    proof cases
      case 1
      have "floor_bits (Suc i) (Suc k) = floor_bits i k" "floor_bits (Suc i) k = Suc i"
        using count(4) [of k] floor_bits_Suc [of i k] floor_bits_Suc [of "Suc i" k] count(1) k fl by simp_all
      then show ?thesis using p 1 by simp
    next
      case 2
      then obtain m' where m: "m = Suc m'" "k \<le> m'" by (cases m) auto
      have "bit i m" using count(3) [OF 2] that by simp
      then have "sublist_ok c a' (floor_bits i (Suc m)) (floor_bits i m) (aSub m)" using up 2 by blast
      moreover have "floor_bits (Suc i) (Suc m) = floor_bits i (Suc m)" "floor_bits (Suc i) m = floor_bits i m"
        using count(4) [of m] count(4) [of m'] m by simp_all
      ultimately show ?thesis using 2 by simp
    qed
  qed
  then have "sorted_upto c (Suc i) (aSub(k := p)) a'"
    using rest inv len by (simp add: sorted_upto_def)
  with that r k13 len count(1,2) show thesis by blast
qed

lemma sort_elements_ok:
  "sorted_upto c i aSub a \<Longrightarrow> i + n \<le> 2 ^ 12 \<Longrightarrow> i + n \<le> length a \<Longrightarrow> 0 < n \<Longrightarrow>
   \<exists>aSub' k a' p. sort_elements c n i aSub iSub a m = Some (aSub', k, a', p) \<and> length a' = length a \<and> k < 13
     \<and> sorted_upto c (i + n) aSub' a' \<and> aSub' k = p \<and> bit (i + n) k \<and> (\<forall>m < k. \<not> bit (i + n) m)"
proof (induction n arbitrary: i aSub iSub a m)
  case (Suc n)
  have less: "i < 2 ^ 12" and less': "i < length a" using Suc.prems(2,3) by simp_all
  obtain k a1 p where s: "merge_full c i aSub 0 a (i, 1) = Some (k, a1, p)" "k < 13" "length a1 = length a"
    "sorted_upto c (Suc i) (aSub(k := p)) a1" "bit (Suc i) k" "\<forall>m < k. \<not> bit (Suc i) m"
    using sorted_upto_step [OF Suc.prems(1) less less'] by blast
  show ?case
  proof (cases "n = 0")
    case True
    then show ?thesis using s by auto
  next
    case False
    then show ?thesis using s Suc.IH [OF s(4), of k p] Suc.prems(2,3) by (auto simp del: fun_upd_apply)
  qed
qed simp

text \<open>The remaining sublists.\<close>

lemma merge_rest_ok:
  "\<forall>m \<ge> k. bit n m \<longrightarrow> sublist_ok c a (floor_bits n (Suc m)) (floor_bits n m) (aSub m) \<Longrightarrow>
   sublist_ok c a (floor_bits n k) n p \<Longrightarrow>
   sublist_ok c (fst (merge_rest c n aSub d k a p)) (floor_bits n (k + d)) n (snd (merge_rest c n aSub d k a p))
   \<and> length (fst (merge_rest c n aSub d k a p)) = length a"
proof (induction d arbitrary: k a p)
  case (Suc d)
  show ?case
  proof (cases "bit n k")
    case True
    obtain a1 p1 where w: "walMerge c a (aSub k) p = (a1, p1)" by (cases "walMerge c a (aSub k) p") blast
    have "sublist_ok c a (floor_bits n (Suc k)) (floor_bits n k) (aSub k)" using Suc.prems(1) True by simp
    note ok = walMerge_ok [OF this Suc.prems(2) floor_bits_mono floor_bits_le w, simplified]
    have "\<forall>m \<ge> Suc k. bit n m \<longrightarrow> sublist_ok c a1 (floor_bits n (Suc m)) (floor_bits n m) (aSub m)"
      using Suc.prems(1) ok(4) floor_bits_mono by (meson Suc_leD)
    from Suc.IH [OF this ok(1)] show ?thesis using True w ok(2) by simp
  next
    case False
    have "sublist_ok c a (floor_bits n (Suc k)) n p" using Suc.prems(2) floor_bits_Suc [of n k] False by simp
    moreover have "\<forall>m \<ge> Suc k. bit n m \<longrightarrow> sublist_ok c a (floor_bits n (Suc m)) (floor_bits n m) (aSub m)"
      using Suc.prems(1) by simp
    ultimately show ?thesis using Suc.IH [of "Suc k" a p] False by simp
  qed
qed simp

lemma walMergesort_correct:
  assumes "0 < n" "n \<le> 4096" "n \<le> length a" "\<forall>j < length a. a ! j = j"
  obtains a' m where "walMergesort c a n = Some (a', m)" "length a' = length a" "m \<le> n"
    "last_of c {0 ..< n} (take m a')"
proof -
  have "sorted_upto c 0 (\<lambda>_. (0, 0)) a" using assms(4) by (simp add: sorted_upto_def)
  from sort_elements_ok [OF this, of n 0 "(0, 0)"] assms obtain aSub k a1 p where
    s: "sort_elements c n 0 (\<lambda>_. (0, 0)) 0 a (0, 0) = Some (aSub, k, a1, p)" "length a1 = length a" "k < 13"
      "sorted_upto c n aSub a1" "aSub k = p" "bit n k" "\<forall>m < k. \<not> bit n m" by auto
  have fl: "floor_bits n k = n" by (rule floor_bits_low [OF s(7)])
  have all: "\<forall>m. bit n m \<longrightarrow> sublist_ok c a1 (floor_bits n (Suc m)) (floor_bits n m) (aSub m)"
    using s(4) by (simp add: sorted_upto_def)
  then have "sublist_ok c a1 (floor_bits n (Suc k)) n p" using s(5,6) fl by metis
  moreover have "\<forall>m \<ge> Suc k. bit n m \<longrightarrow> sublist_ok c a1 (floor_bits n (Suc m)) (floor_bits n m) (aSub m)" using all by simp
  ultimately have m: "sublist_ok c (fst (merge_rest c n aSub (13 - Suc k) (Suc k) a1 p)) (floor_bits n (Suc k + (13 - Suc k))) n
      (snd (merge_rest c n aSub (13 - Suc k) (Suc k) a1 p))"
    "length (fst (merge_rest c n aSub (13 - Suc k) (Suc k) a1 p)) = length a1"
    using merge_rest_ok by blast+
  obtain a2 b l where r: "merge_rest c n aSub (13 - Suc k) (Suc k) a1 p = (a2, (b, l))"
    by (cases "merge_rest c n aSub (13 - Suc k) (Suc k) a1 p") auto
  have z: "floor_bits n (Suc k + (13 - Suc k)) = 0" using s(3) assms(2) by (intro floor_bits_small) simp
  have "b = 0" "l \<le> n" "last_of c {0 ..< n} (take l a2)" "length a2 = length a"
    using m s(2) unfolding r z by (auto simp: sublist_ok_def sub_def)
  moreover have "walMergesort c a n = Some (a2, l)" using s(1) r by (simp add: walMergesort_def)
  ultimately show thesis using that by blast
qed

end
