(* ===== verification/WalIndex.thy ===== *)
theory WalIndex
  imports Prelude
begin

text \<open>
  The wal-index (\<open>wal.c\<close>): shared memory that maps database pages to frames of the write-ahead
  log.  It consists of 32 KB pages, each with the page numbers of up to 4096 frames and a hash
  table of 8192 slots that refer to them; the first 34 words of the first page are a header.
  Frames are counted from 1, by natural numbers: a \<open>u32\<close> in the code, and as a frame takes at least
  536 bytes a log of \<open>2\<^sup>3\<^sup>2\<close> frames would exceed two terabytes.  Asking the operating system for a page of shared memory, and
  the allocations, are parameters.
\<close>

section \<open>Layout\<close>

definition HASHTABLE_NPAGE :: nat where "HASHTABLE_NPAGE = 4096"
definition HASHTABLE_HASH_1 :: u32 where "HASHTABLE_HASH_1 = 383"
definition HASHTABLE_NSLOT :: nat where "HASHTABLE_NSLOT = HASHTABLE_NPAGE * 2"
definition WALINDEX_HDR_SIZE :: nat where "WALINDEX_HDR_SIZE = 48 * 2 + 40"
definition HASHTABLE_NPAGE_ONE :: nat where
  "HASHTABLE_NPAGE_ONE = HASHTABLE_NPAGE - WALINDEX_HDR_SIZE div 4"

definition WAL_NORMAL_MODE :: nat where "WAL_NORMAL_MODE = 0"
definition WAL_HEAPMEMORY_MODE :: nat where "WAL_HEAPMEMORY_MODE = 2"
definition WAL_SHM_RDONLY :: nat where "WAL_SHM_RDONLY = 2"

abbreviation (input) "SQLITE_CORRUPT \<equiv> (11 :: rc)"

record wal_page =
  pg_words :: "nat \<Rightarrow> u32"    \<comment> \<open>4096 words: the header on the first page, page numbers\<close>
  pg_slots :: "nat \<Rightarrow> nat"    \<comment> \<open>8192 slots of the hash table, 0 for a free one\<close>

definition zero_page :: wal_page where
  "zero_page = \<lparr>pg_words = (\<lambda>_. 0), pg_slots = (\<lambda>_. 0)\<rparr>"

record wal =
  apWiData :: "nat \<Rightarrow> wal_page"
  mapped :: "nat \<Rightarrow> bool"      \<comment> \<open>\<open>apWiData[i]\<close> is not NULL\<close>
  nWiData :: nat
  exclusiveMode :: nat
  readOnly :: nat
  writeLock :: bool
  readLock :: int
  bShmUnreliable :: bool
  mxFrame :: nat               \<comment> \<open>\<open>hdr.mxFrame\<close>, the header as this connection sees it\<close>
  minFrame :: nat
  live_mxFrame :: nat          \<comment> \<open>\<open>mxFrame\<close> in the header in shared memory\<close>
  nCkpt :: nat

record wal_os =
  realloc_ok :: "nat \<Rightarrow> bool"
  calloc_ok :: "nat \<Rightarrow> bool"
  shm_rc :: "nat \<Rightarrow> rc"        \<comment> \<open>the result of \<open>sqlite3OsShmMap\<close> for a page\<close>
  shm_present :: "nat \<Rightarrow> bool" \<comment> \<open>whether it delivers a page\<close>

section \<open>Pages\<close>

text \<open>The result is the code and whether the pointer is not NULL.\<close>

definition walIndexPageRealloc :: "wal_os \<Rightarrow> wal \<Rightarrow> nat \<Rightarrow> (rc \<times> bool) \<times> wal" where
  "walIndexPageRealloc os w iPage =
     (if nWiData w \<le> iPage \<and> \<not> realloc_ok os iPage then ((SQLITE_NOMEM, False), w)
      else
        let w = (if nWiData w \<le> iPage
                 then w\<lparr>mapped := (\<lambda>i. i < nWiData w \<and> mapped w i), nWiData := iPage + 1\<rparr> else w) in
        if exclusiveMode w = WAL_HEAPMEMORY_MODE then
          (if calloc_ok os iPage
           then ((SQLITE_OK, True), w\<lparr>apWiData := (apWiData w)(iPage := zero_page), mapped := (mapped w)(iPage := True)\<rparr>)
           else ((SQLITE_NOMEM, False), w))
        else
          let rc = shm_rc os iPage;
              w = w\<lparr>mapped := (mapped w)(iPage := shm_present os iPage)\<rparr>;
              ro = (rc mod 256 = SQLITE_READONLY);
              w = (if ro then w\<lparr>readOnly := readOnly w OR WAL_SHM_RDONLY\<rparr> else w);
              rc = (if ro \<and> rc = SQLITE_READONLY then SQLITE_OK else rc)
          in ((rc, shm_present os iPage), w))"

definition walIndexPage :: "wal_os \<Rightarrow> wal \<Rightarrow> nat \<Rightarrow> (rc \<times> bool) \<times> wal" where
  "walIndexPage os w iPage =
     (if nWiData w \<le> iPage \<or> \<not> mapped w iPage then walIndexPageRealloc os w iPage
      else ((SQLITE_OK, True), w))"

text \<open>Where a hash table is: its page, the word of \<open>aPgno[1]\<close>, and \<open>iZero\<close>.\<close>

record walHashLoc =
  loc_page :: nat
  loc_base :: nat
  iZero :: nat

definition hash_loc :: "nat \<Rightarrow> walHashLoc" where
  "hash_loc iHash =
     (if iHash = 0 then \<lparr>loc_page = 0, loc_base = WALINDEX_HDR_SIZE div 4, iZero = 0\<rparr>
      else \<lparr>loc_page = iHash, loc_base = 0, iZero = HASHTABLE_NPAGE_ONE + (iHash - 1) * HASHTABLE_NPAGE\<rparr>)"

text \<open>The location is \<open>None\<close> when there is an error or the pointer to the page is NULL.\<close>

definition walHashGet :: "wal_os \<Rightarrow> wal \<Rightarrow> nat \<Rightarrow> rc \<times> walHashLoc option \<times> wal" where
  "walHashGet os w iHash =
     (let ((rc, page), w) = walIndexPage os w iHash in
      (rc, if rc = SQLITE_OK \<and> page then Some (hash_loc iHash) else None, w))"

definition aPgno :: "wal \<Rightarrow> walHashLoc \<Rightarrow> nat \<Rightarrow> u32" where
  "aPgno w l i = pg_words (apWiData w (loc_page l)) (loc_base l + i - 1)"

definition aHash :: "wal \<Rightarrow> walHashLoc \<Rightarrow> nat \<Rightarrow> nat" where
  "aHash w l k = pg_slots (apWiData w (loc_page l)) k"

text \<open>Writing \<open>aPgno\<close> and \<open>aHash\<close> of a location, each as a whole.\<close>

definition set_loc :: "walHashLoc \<Rightarrow> (nat \<Rightarrow> u32) \<Rightarrow> (nat \<Rightarrow> nat) \<Rightarrow> wal \<Rightarrow> wal" where
  "set_loc l P H w = (let pg = apWiData w (loc_page l) in
     w\<lparr>apWiData := (apWiData w)(loc_page l :=
        \<lparr>pg_words = (\<lambda>j. if loc_base l \<le> j then P (j + 1 - loc_base l) else pg_words pg j),
         pg_slots = H\<rparr>)\<rparr>)"

section \<open>Hashing\<close>

definition walHash :: "u32 \<Rightarrow> nat" where
  "walHash iPage = unat ((iPage * HASHTABLE_HASH_1) AND (of_nat HASHTABLE_NSLOT - 1))"

definition walNextHash :: "nat \<Rightarrow> nat" where
  "walNextHash iPriorHash = (iPriorHash + 1) AND (HASHTABLE_NSLOT - 1)"

definition walFramePage :: "nat \<Rightarrow> nat" where
  "walFramePage iFrame = (iFrame + HASHTABLE_NPAGE - HASHTABLE_NPAGE_ONE - 1) div HASHTABLE_NPAGE"

definition walFramePgno :: "wal \<Rightarrow> nat \<Rightarrow> u32" where
  "walFramePgno w iFrame =
     (let iHash = walFramePage iFrame in
      if iHash = 0 then pg_words (apWiData w 0) (WALINDEX_HDR_SIZE div 4 + iFrame - 1)
      else pg_words (apWiData w iHash) ((iFrame - 1 - HASHTABLE_NPAGE_ONE) mod HASHTABLE_NPAGE))"

section \<open>Writing\<close>

text \<open>The entries above the last frame of the header are removed.  \<open>None\<close> stands for the use of
  a NULL pointer.\<close>

definition walCleanupHash :: "wal_os \<Rightarrow> wal \<Rightarrow> wal option" where
  "walCleanupHash os w =
     (if mxFrame w = 0 then Some w
      else case walHashGet os w (walFramePage (mxFrame w)) of
        (rc, None, w) \<Rightarrow> None
      | (rc, Some l, w) \<Rightarrow>
          let iLimit = mxFrame w - iZero l in
          Some (set_loc l (\<lambda>i. if iLimit < i then 0 else aPgno w l i)
            (\<lambda>k. if iLimit < aHash w l k then 0 else aHash w l k) w))"

text \<open>The first free slot from \<open>iKey\<close> on, with \<open>n\<close> more collisions allowed.\<close>

fun free_slot :: "(nat \<Rightarrow> nat) \<Rightarrow> nat \<Rightarrow> nat \<Rightarrow> nat option" where
  "free_slot H 0 iKey = (if H iKey = 0 then Some iKey else None)"
| "free_slot H (Suc n) iKey = (if H iKey = 0 then Some iKey else free_slot H n (walNextHash iKey))"

definition walIndexAppend :: "wal_os \<Rightarrow> wal \<Rightarrow> nat \<Rightarrow> u32 \<Rightarrow> (rc \<times> wal) option" where
  "walIndexAppend os w iFrame iPage =
     (case walHashGet os w (walFramePage iFrame) of
        (rc, None, w) \<Rightarrow> if rc = SQLITE_OK then None else Some (rc, w)
      | (rc, Some l, w) \<Rightarrow> do {
          let idx = iFrame - iZero l;
          let w = (if idx = 1 then set_loc l (\<lambda>_. 0) (\<lambda>_. 0) w else w);
          w \<leftarrow> (if aPgno w l idx \<noteq> 0 then walCleanupHash os w else Some w);
          case free_slot (aHash w l) idx (walHash iPage) of
            None \<Rightarrow> Some (SQLITE_CORRUPT, w)
          | Some iKey \<Rightarrow>
              Some (SQLITE_OK, set_loc l ((aPgno w l)(idx := iPage)) ((aHash w l)(iKey := idx)) w)
        })"

text \<open>The end of \<open>sqlite3WalFrames\<close>: the pages written to the log are entered one after the
  other (those of the dirty list with the flag \<open>PGHDR_WAL_APPEND\<close>, then the last one again as
  often as padding frames were written); when all are in, the header moves on, and a commit
  publishes it.\<close>

fun append_all :: "wal_os \<Rightarrow> wal \<Rightarrow> nat \<Rightarrow> u32 list \<Rightarrow> (rc \<times> nat \<times> wal) option" where
  "append_all os w iFrame [] = Some (SQLITE_OK, iFrame, w)"
| "append_all os w iFrame (p # ps) = do {
     (rc, w) \<leftarrow> walIndexAppend os w (iFrame + 1) p;
     if rc \<noteq> SQLITE_OK then Some (rc, iFrame + 1, w) else append_all os w (iFrame + 1) ps
   }"

definition wal_index_frames :: "wal_os \<Rightarrow> wal \<Rightarrow> u32 list \<Rightarrow> bool \<Rightarrow> (rc \<times> wal) option" where
  "wal_index_frames os w ps isCommit = do {
     (rc, iFrame, w) \<leftarrow> append_all os w (mxFrame w) ps;
     if rc = SQLITE_OK then
       let w = w\<lparr>mxFrame := iFrame\<rparr> in
       Some (SQLITE_OK, if isCommit then w\<lparr>live_mxFrame := iFrame\<rparr> else w)
     else Some (rc, w)
   }"

section \<open>Reading\<close>

text \<open>The search in one table, with \<open>n\<close> more collisions allowed.\<close>

fun find_in_table :: "(nat \<Rightarrow> nat) \<Rightarrow> (nat \<Rightarrow> u32) \<Rightarrow> nat \<Rightarrow> nat \<Rightarrow> nat \<Rightarrow> u32 \<Rightarrow> nat \<Rightarrow> nat \<Rightarrow> nat \<Rightarrow> nat option" where
  "find_in_table H P z iLast mn pgno n iKey iRead =
     (if H iKey = 0 then Some iRead
      else
        let iFrame = H iKey + z;
            iRead = (if iFrame \<le> iLast \<and> mn \<le> iFrame \<and> P (H iKey) = pgno then iFrame else iRead)
        in case n of 0 \<Rightarrow> None | Suc n \<Rightarrow> find_in_table H P z iLast mn pgno n (walNextHash iKey) iRead)"

declare find_in_table.simps [simp del]

text \<open>The loop over the tables, from \<open>iHash\<close> down.\<close>

fun find_loop :: "wal_os \<Rightarrow> wal \<Rightarrow> u32 \<Rightarrow> nat \<Rightarrow> nat \<Rightarrow> nat \<Rightarrow> ((rc \<times> nat) \<times> wal) option" where
  "find_loop os w pgno iLast iMinHash iHash =
     (if iHash < iMinHash then Some ((SQLITE_OK, 0), w)
      else case walHashGet os w iHash of
        (rc, None, w) \<Rightarrow> if rc = SQLITE_OK then None else Some ((rc, 0), w)
      | (rc, Some l, w) \<Rightarrow>
          (case find_in_table (aHash w l) (aPgno w l) (iZero l) iLast (minFrame w) pgno
              HASHTABLE_NSLOT (walHash pgno) 0 of
             None \<Rightarrow> Some ((SQLITE_CORRUPT, 0), w)
           | Some iRead \<Rightarrow>
               if iRead \<noteq> 0 then Some ((SQLITE_OK, iRead), w)
               else case iHash of
                 0 \<Rightarrow> Some ((SQLITE_OK, 0), w)
               | Suc h \<Rightarrow> find_loop os w pgno iLast iMinHash h))"

declare find_loop.simps [simp del]

definition sqlite3WalFindFrame :: "wal_os \<Rightarrow> wal \<Rightarrow> u32 \<Rightarrow> ((rc \<times> nat) \<times> wal) option" where
  "sqlite3WalFindFrame os w pgno =
     (if mxFrame w = 0 \<or> readLock w = 0 \<and> \<not> bShmUnreliable w then Some ((SQLITE_OK, 0), w)
      else find_loop os w pgno (mxFrame w) (walFramePage (minFrame w)) (walFramePage (mxFrame w)))"

section \<open>Rolling back\<close>

text \<open>The page numbers are those handed to the callback \<open>xUndo\<close>, which the code relies on to
  succeed.\<close>

definition sqlite3WalUndo :: "wal_os \<Rightarrow> wal \<Rightarrow> (rc \<times> u32 list \<times> wal) option" where
  "sqlite3WalUndo os w =
     (if \<not> writeLock w then Some (SQLITE_OK, [], w)
      else do {
        let iMax = mxFrame w;
        let w = w\<lparr>mxFrame := live_mxFrame w\<rparr>;
        let pages = map (walFramePgno w) [mxFrame w + 1 ..< iMax + 1];
        w \<leftarrow> (if iMax \<noteq> mxFrame w then walCleanupHash os w else Some w);
        Some (SQLITE_OK, pages, w)
      })"

type_synonym savepoint = "nat \<times> nat"   \<comment> \<open>\<open>aWalData[0]\<close> and \<open>aWalData[3]\<close>\<close>

definition sqlite3WalSavepoint :: "wal \<Rightarrow> savepoint" where
  "sqlite3WalSavepoint w = (mxFrame w, nCkpt w)"

definition sqlite3WalSavepointUndo :: "wal_os \<Rightarrow> wal \<Rightarrow> savepoint \<Rightarrow> (rc \<times> wal) option" where
  "sqlite3WalSavepointUndo os w sp =
     (let mx = (if snd sp \<noteq> nCkpt w then 0 else fst sp) in
      if mx < mxFrame w then
        case walCleanupHash os (w\<lparr>mxFrame := mx\<rparr>) of
          None \<Rightarrow> None
        | Some w \<Rightarrow> Some (SQLITE_OK, w)
      else Some (SQLITE_OK, w))"

section \<open>Hash values\<close>

lemma and_8191: "n AND (HASHTABLE_NSLOT - 1) = n mod 8192" for n :: nat
proof -
  have "n AND mask 13 = n mod 2 ^ 13" by (simp only: take_bit_eq_mask [symmetric] take_bit_eq_mod)
  moreover have "HASHTABLE_NSLOT - 1 = mask 13"
    by (simp add: HASHTABLE_NSLOT_def HASHTABLE_NPAGE_def mask_eq_exp_minus_1)
  ultimately show ?thesis by simp
qed

lemma walNextHash_mod: "walNextHash k = (k + 1) mod 8192"
  by (simp only: walNextHash_def and_8191)

lemma walHash_less: "walHash p < 8192"
proof -
  have "(of_nat HASHTABLE_NSLOT - 1 :: u32) = mask 13"
    by (simp add: HASHTABLE_NSLOT_def HASHTABLE_NPAGE_def mask_eq_exp_minus_1)
  then have "walHash p = unat (take_bit 13 (p * HASHTABLE_HASH_1))"
    by (simp only: walHash_def take_bit_eq_mask)
  also have "\<dots> = take_bit 13 (unat (p * HASHTABLE_HASH_1))"
    by (rule unsigned_take_bit_eq)
  also have "\<dots> < 2 ^ 13" by (rule take_bit_nat_less_exp)
  finally show ?thesis by simp
qed

text \<open>The slots of a page number in the order of the search.\<close>

definition slot_of :: "u32 \<Rightarrow> nat \<Rightarrow> nat" where
  "slot_of p d = (walHash p + d) mod 8192"

lemma slot_of_less [simp]: "slot_of p d < 8192"
  by (simp add: slot_of_def)

lemma slot_of_0: "slot_of p 0 = walHash p"
  using walHash_less [of p] by (simp add: slot_of_def)

lemma slot_of_Suc: "walNextHash (slot_of p d) = slot_of p (Suc d)"
  by (simp add: walNextHash_mod slot_of_def mod_Suc_eq)

lemma slot_of_inj: "d < 8192 \<Longrightarrow> e < 8192 \<Longrightarrow> slot_of p d = slot_of p e \<Longrightarrow> d = e"
proof -
  assume d: "d < 8192" "e < 8192" and eq: "slot_of p d = slot_of p e"
  have wrap: "x mod 8192 = (if x < 8192 then x else x - 8192)" if "x < 16384" for x :: nat
    using that by (simp add: le_mod_geq)
  show ?thesis using eq d walHash_less [of p] unfolding slot_of_def by (auto simp: wrap split: if_splits)
qed

section \<open>One table\<close>

text \<open>A table represents the list \<open>ps\<close> of the pages of its frames: the page numbers stand in
  order, zeroes follow, and every entry is found by a search that passes only older entries.\<close>

definition table_rep :: "nat \<Rightarrow> u32 list \<Rightarrow> (nat \<Rightarrow> u32) \<Rightarrow> (nat \<Rightarrow> nat) \<Rightarrow> bool" where
  "table_rep N ps P H \<longleftrightarrow> length ps \<le> N \<and> 0 \<notin> set ps
     \<and> (\<forall>i < length ps. P (Suc i) = ps ! i) \<and> (\<forall>i. length ps < i \<and> i \<le> N \<longrightarrow> P i = 0)
     \<and> (\<forall>k < 8192. H k \<le> length ps)
     \<and> (\<forall>k < 8192. \<forall>k' < 8192. H k = H k' \<and> H k \<noteq> 0 \<longrightarrow> k = k')
     \<and> (\<forall>i < length ps. \<exists>d < 8192. H (slot_of (ps ! i) d) = Suc i
           \<and> (\<forall>e < d. 0 < H (slot_of (ps ! i) e) \<and> H (slot_of (ps ! i) e) \<le> i))"

lemma table_repD:
  assumes "table_rep N ps P H"
  shows "length ps \<le> N" "0 \<notin> set ps" "i < length ps \<Longrightarrow> P (Suc i) = ps ! i"
    "length ps < i \<Longrightarrow> i \<le> N \<Longrightarrow> P i = 0" "k < 8192 \<Longrightarrow> H k \<le> length ps"
    "k < 8192 \<Longrightarrow> k' < 8192 \<Longrightarrow> H k = H k' \<Longrightarrow> H k \<noteq> 0 \<Longrightarrow> k = k'"
    "i < length ps \<Longrightarrow> \<exists>d < 8192. H (slot_of (ps ! i) d) = Suc i
       \<and> (\<forall>e < d. 0 < H (slot_of (ps ! i) e) \<and> H (slot_of (ps ! i) e) \<le> i)"
  using assms unfolding table_rep_def by blast+

lemma table_rep_empty: "table_rep N [] (\<lambda>_. 0) (\<lambda>_. 0)"
  by (simp add: table_rep_def)

text \<open>Among any \<open>length ps + 1\<close> slots of a search there is a free one.\<close>

lemma occupied_bound:
  assumes r: "table_rep N ps P H" and n: "n \<le> 8192" and occ: "\<forall>d < n. H (slot_of p d) \<noteq> 0"
  shows "n \<le> length ps"
proof -
  have "inj_on (\<lambda>d. H (slot_of p d)) {..<n}"
  proof (rule inj_onI)
    fix d e assume "d \<in> {..<n}" "e \<in> {..<n}" and eq: "H (slot_of p d) = H (slot_of p e)"
    then have "d < 8192" "e < 8192" "H (slot_of p d) \<noteq> 0" using n occ by auto
    moreover from this(3) eq have "slot_of p d = slot_of p e"
      using table_repD(6) [OF r] by (meson slot_of_less)
    ultimately show "d = e" using slot_of_inj by blast
  qed
  moreover have "(\<lambda>d. H (slot_of p d)) ` {..<n} \<subseteq> {1..length ps}"
    using occ table_repD(5) [OF r] by (auto simp: Suc_le_eq)
  ultimately have "card {..<n} \<le> card {1..length ps}" by (rule card_inj_on_le) simp
  then show ?thesis by simp
qed

lemma first_free:
  assumes r: "table_rep N ps P H" and "length ps < 8192"
  obtains d where "d \<le> length ps" "H (slot_of p d) = 0" "\<forall>e < d. H (slot_of p e) \<noteq> 0"
proof -
  have "\<exists>d \<le> length ps. H (slot_of p d) = 0"
  proof (rule ccontr)
    assume "\<not> ?thesis"
    then have "\<forall>d < Suc (length ps). H (slot_of p d) \<noteq> 0" by (simp add: less_Suc_eq_le)
    from occupied_bound [OF r _ this] assms(2) show False by simp
  qed
  then obtain d where d: "d \<le> length ps" "H (slot_of p d) = 0" by blast
  define m where "m = (LEAST d. H (slot_of p d) = 0)"
  have "H (slot_of p m) = 0" unfolding m_def using d(2) by (rule LeastI)
  moreover have "m \<le> d" unfolding m_def using d(2) by (rule Least_le)
  moreover have "\<forall>e < m. H (slot_of p e) \<noteq> 0" unfolding m_def using not_less_Least by blast
  ultimately show thesis using that [of m] d(1) by simp
qed

lemma free_slot_first:
  "H (slot_of p (j + d)) = 0 \<Longrightarrow> \<forall>e < d. H (slot_of p (j + e)) \<noteq> 0 \<Longrightarrow> d \<le> n \<Longrightarrow>
   free_slot H n (slot_of p j) = Some (slot_of p (j + d))"
proof (induction d arbitrary: j n)
  case 0
  then show ?case by (cases n) simp_all
next
  case (Suc d)
  from Suc.prems(3) obtain m where n: "n = Suc m" "d \<le> m" by (cases n) auto
  have "H (slot_of p j) \<noteq> 0" using Suc.prems(2) by force
  moreover have "free_slot H m (slot_of p (Suc j)) = Some (slot_of p (Suc j + d))"
    using Suc.prems(1,2) n(2) by (intro Suc.IH) auto
  ultimately show ?case by (simp add: n slot_of_Suc)
qed

text \<open>Appending puts the new entry at the first free slot.\<close>

lemma table_append:
  assumes r: "table_rep N ps P H" and "length ps < N" "N < 8192" "p \<noteq> 0"
  obtains k where "free_slot H (Suc (length ps)) (walHash p) = Some k"
    "table_rep N (ps @ [p]) (P(Suc (length ps) := p)) (H(k := Suc (length ps)))"
proof -
  let ?n = "Suc (length ps)"
  have "length ps < 8192" using assms(2,3) by simp
  then obtain d where d: "d \<le> length ps" "H (slot_of p d) = 0" "\<forall>e < d. H (slot_of p e) \<noteq> 0"
    using first_free [OF r, of p] by blast
  let ?k = "slot_of p d" and ?H = "H(slot_of p d := ?n)"
  have free: "free_slot H ?n (walHash p) = Some ?k"
    using free_slot_first [of H p 0 d ?n] d by (simp add: slot_of_0)
  have le: "k < 8192 \<Longrightarrow> H k \<le> length ps" for k by (rule table_repD(5) [OF r])
  have chain: "\<exists>c < 8192. ?H (slot_of ((ps @ [p]) ! i) c) = Suc i
      \<and> (\<forall>e < c. 0 < ?H (slot_of ((ps @ [p]) ! i) e) \<and> ?H (slot_of ((ps @ [p]) ! i) e) \<le> i)"
    if "i < ?n" for i
  proof (cases "i < length ps")
    case True
    then obtain c where c: "c < 8192" "H (slot_of (ps ! i) c) = Suc i"
      "\<forall>e < c. 0 < H (slot_of (ps ! i) e) \<and> H (slot_of (ps ! i) e) \<le> i"
      using table_repD(7) [OF r] by blast
    have "slot_of (ps ! i) e \<noteq> ?k" if "e \<le> c" for e
    proof -
      have "H (slot_of (ps ! i) e) \<noteq> 0"
        using that c(2,3) by (cases "e = c") (simp_all add: order_le_less)
      then show ?thesis using d(2) by metis
    qed
    then show ?thesis using True c by (intro exI [of _ c]) (simp add: nth_append)
  next
    case False
    then have i: "i = length ps" using that by simp
    have ne: "slot_of p e \<noteq> ?k \<and> 0 < H (slot_of p e) \<and> H (slot_of p e) \<le> length ps" if "e < d" for e
      using that d(2,3) le [of "slot_of p e"] by (metis gr0I slot_of_less)
    have "d < 8192" using d(1) assms(2,3) by simp
    with ne show ?thesis unfolding i by (intro exI [of _ d]) simp
  qed
  have "table_rep N (ps @ [p]) (P(?n := p)) ?H"
    unfolding table_rep_def
  proof (intro conjI)
    show "\<forall>i < length (ps @ [p]). (P(?n := p)) (Suc i) = (ps @ [p]) ! i"
      using table_repD(3) [OF r] by (auto simp: nth_append less_Suc_eq)
    show "\<forall>i. length (ps @ [p]) < i \<and> i \<le> N \<longrightarrow> (P(?n := p)) i = 0"
      using table_repD(4) [OF r] by auto
    show "\<forall>k < 8192. ?H k \<le> length (ps @ [p])" using le by (auto intro: le_SucI)
    show "\<forall>k < 8192. \<forall>k' < 8192. ?H k = ?H k' \<and> ?H k \<noteq> 0 \<longrightarrow> k = k'"
    proof (intro allI impI, elim conjE)
      fix k k' :: nat assume k: "k < 8192" "k' < 8192" and eq: "?H k = ?H k'" "?H k \<noteq> 0"
      show "k = k'"
      proof (cases "k = ?k \<or> k' = ?k")
        case True
        then show ?thesis using eq(1) le [OF k(1)] le [OF k(2)] by (auto split: if_splits)
      next
        case False
        then show ?thesis using eq table_repD(6) [OF r k] by simp
      qed
    qed
    show "\<forall>i < length (ps @ [p]). \<exists>d < 8192. ?H (slot_of ((ps @ [p]) ! i) d) = Suc i
        \<and> (\<forall>e < d. 0 < ?H (slot_of ((ps @ [p]) ! i) e) \<and> ?H (slot_of ((ps @ [p]) ! i) e) \<le> i)"
      using chain by simp
  qed (use assms table_repD(1,2) [OF r] in auto)
  with free that show thesis by blast
qed

text \<open>Removing the entries above a limit keeps the older ones reachable.\<close>

lemma table_cut:
  assumes r: "table_rep N (ps @ qs) P H"
  shows "table_rep N ps (\<lambda>i. if length ps < i then 0 else P i) (\<lambda>k. if length ps < H k then 0 else H k)"
  unfolding table_rep_def
proof (intro conjI)
  show "\<forall>i < length ps. (if length ps < Suc i then 0 else P (Suc i)) = ps ! i"
    using table_repD(3) [OF r] by (auto simp: nth_append)
  show "\<forall>k < 8192. \<forall>k' < 8192. (if length ps < H k then 0 else H k) = (if length ps < H k' then 0 else H k')
      \<and> (if length ps < H k then 0 else H k) \<noteq> 0 \<longrightarrow> k = k'"
    using table_repD(6) [OF r] by (auto split: if_splits)
  show "\<forall>i < length ps. \<exists>d < 8192.
      (if length ps < H (slot_of (ps ! i) d) then 0 else H (slot_of (ps ! i) d)) = Suc i
      \<and> (\<forall>e < d. 0 < (if length ps < H (slot_of (ps ! i) e) then 0 else H (slot_of (ps ! i) e))
          \<and> (if length ps < H (slot_of (ps ! i) e) then 0 else H (slot_of (ps ! i) e)) \<le> i)"
  proof (intro allI impI)
    fix i assume i: "i < length ps"
    then obtain d where "d < 8192" "H (slot_of (ps ! i) d) = Suc i"
      "\<forall>e < d. 0 < H (slot_of (ps ! i) e) \<and> H (slot_of (ps ! i) e) \<le> i"
      using table_repD(7) [OF r, of i] by (auto simp: nth_append)
    then show "\<exists>d < 8192.
      (if length ps < H (slot_of (ps ! i) d) then 0 else H (slot_of (ps ! i) d)) = Suc i
      \<and> (\<forall>e < d. 0 < (if length ps < H (slot_of (ps ! i) e) then 0 else H (slot_of (ps ! i) e))
          \<and> (if length ps < H (slot_of (ps ! i) e) then 0 else H (slot_of (ps ! i) e)) \<le> i)"
      using i by (intro exI [of _ d]) fastforce
  qed
qed (use table_repD(1,2) [OF r] in auto)

text \<open>The latest frame of a page between two bounds, 0 if there is none.\<close>

definition latest :: "u32 list \<Rightarrow> nat \<Rightarrow> nat \<Rightarrow> u32 \<Rightarrow> nat" where
  "latest L mn mx p = (let is = filter (\<lambda>i. mn \<le> i \<and> L ! (i - 1) = p) [1 ..< mx + 1]
     in if is = [] then 0 else last is)"

text \<open>The search in a table reads the entries of a page from the oldest to the latest.\<close>

definition wanted :: "(nat \<Rightarrow> u32) \<Rightarrow> nat \<Rightarrow> nat \<Rightarrow> nat \<Rightarrow> u32 \<Rightarrow> nat \<Rightarrow> bool" where
  "wanted P z iLast mn p i \<longleftrightarrow> i \<noteq> 0 \<and> i + z \<le> iLast \<and> mn \<le> i + z \<and> P i = p"

lemma find_in_table_run:
  assumes r: "table_rep N ps P H" and N: "length ps < 8192"
    and f: "H (slot_of p d) = 0" "\<forall>e < d. H (slot_of p e) \<noteq> 0" "j \<le> d" "d \<le> j + n"
  shows "find_in_table H P z iLast mn p n (slot_of p j) r0 =
    Some (let is = filter (wanted P z iLast mn p) (map (\<lambda>e. H (slot_of p e)) [j ..< d])
          in if is = [] then r0 else last is + z)"
  using f(3,4)
proof (induction "d - j" arbitrary: j n r0)
  case 0
  then have "j = d" by simp
  then show ?case using f(1) by (simp add: find_in_table.simps)
next
  case (Suc m)
  then have j: "j < d" by simp
  then obtain n' where n: "n = Suc n'" using Suc.prems(2) by (cases n) auto
  have occ: "H (slot_of p j) \<noteq> 0" using f(2) j by simp
  have u: "[j ..< d] = j # [Suc j ..< d]" using j by (simp add: upt_conv_Cons)
  let ?w = "wanted P z iLast mn p (H (slot_of p j))"
  have IH: "find_in_table H P z iLast mn p n' (slot_of p (Suc j)) r =
      Some (let is = filter (wanted P z iLast mn p) (map (\<lambda>e. H (slot_of p e)) [Suc j ..< d])
            in if is = [] then r else last is + z)" for r
    using Suc.hyps(2) Suc.prems n by (intro Suc.hyps(1)) auto
  have "find_in_table H P z iLast mn p n (slot_of p j) r0 =
      find_in_table H P z iLast mn p n' (slot_of p (Suc j)) (if ?w then H (slot_of p j) + z else r0)"
    using occ by (subst find_in_table.simps) (simp add: n slot_of_Suc wanted_def Let_def)
  then show ?case unfolding IH u by (simp add: Let_def)
qed

lemma wanted_position:
  assumes r: "table_rep N ps P H" and i: "0 < i" "i \<le> length ps" "P i = p"
  obtains c where "c < 8192" "H (slot_of p c) = i" "\<forall>e < c. 0 < H (slot_of p e) \<and> H (slot_of p e) < i"
proof -
  obtain k where k: "i = Suc k" "k < length ps" using i by (cases i) auto
  then have "ps ! k = p" using table_repD(3) [OF r k(2)] i(3) by simp
  then show thesis using that table_repD(7) [OF r k(2)] k(1) by (auto simp: less_Suc_eq_le)
qed

lemma search_order:
  assumes r: "table_rep N ps P H" and "length ps < 8192"
    and f: "H (slot_of p d) = 0" "\<forall>e < d. H (slot_of p e) \<noteq> 0" and d: "d \<le> length ps"
  shows "filter (wanted P z iLast mn p) (map (\<lambda>e. H (slot_of p e)) [0 ..< d]) =
    filter (wanted P z iLast mn p) [1 ..< Suc (length ps)]" (is "filter ?w ?xs = filter ?w ?ys")
proof (rule strict_sorted_equal)
  have pos: "c = e" if "e < d" "P (H (slot_of p e)) = p" "c < 8192" "H (slot_of p c) = H (slot_of p e)" for c e
  proof -
    have "slot_of p c = slot_of p e"
      using table_repD(6) [OF r, of "slot_of p c" "slot_of p e"] that f(2) by simp
    then show ?thesis using slot_of_inj that(1,3) d assms(2) by force
  qed
  have less: "H (slot_of p e) < H (slot_of p e')"
    if "e < e'" "e' < d" "P (H (slot_of p e')) = p" for e e'
  proof -
    have "0 < H (slot_of p e')" "H (slot_of p e') \<le> length ps"
      using f(2) that(2) table_repD(5) [OF r] by auto
    from wanted_position [OF r this that(3)] obtain c where
      "c < 8192" "H (slot_of p c) = H (slot_of p e')" "\<forall>e < c. H (slot_of p e) < H (slot_of p e')"
      by metis
    then show ?thesis using pos [OF that(2,3)] that(1) by blast
  qed
  have "sorted_wrt (\<lambda>e e'. ?w (H (slot_of p e')) \<longrightarrow> H (slot_of p e) < H (slot_of p e')) [0 ..< d]"
    unfolding sorted_wrt_iff_nth_less using less by (auto simp: wanted_def)
  then have "sorted_wrt (\<lambda>i i'. ?w i' \<longrightarrow> i < i') ?xs" by (simp add: sorted_wrt_map)
  then have "sorted_wrt (\<lambda>i i'. ?w i' \<longrightarrow> i < i') (filter ?w ?xs)" by (rule sorted_wrt_filter)
  then show "sorted_wrt (<) (filter ?w ?xs)"
    by (rule sorted_wrt_mono_rel [rotated]) auto
  show "sorted_wrt (<) (filter ?w ?ys)" by (rule sorted_wrt_filter) (rule sorted_wrt_upt)
  show "set (filter ?w ?xs) = set (filter ?w ?ys)"
  proof (intro set_eqI iffI)
    fix i assume "i \<in> set (filter ?w ?xs)"
    then show "i \<in> set (filter ?w ?ys)"
      using table_repD(5) [OF r] by (auto simp: wanted_def less_Suc_eq_le simp del: upt_Suc)
  next
    fix i assume i: "i \<in> set (filter ?w ?ys)"
    then have "0 < i" "i \<le> length ps" "P i = p" by (auto simp: wanted_def)
    from wanted_position [OF r this] obtain c where
      c: "H (slot_of p c) = i" "\<forall>e < c. 0 < H (slot_of p e)" by metis
    have "c < d"
    proof (rule ccontr)
      assume "\<not> c < d"
      then have "d = c \<or> d < c" by auto
      then show False using c f(1) \<open>0 < i\<close> by auto
    qed
    then show "i \<in> set (filter ?w ?xs)" using i c(1) by auto
  qed
qed

text \<open>What a search in a table finds.\<close>

lemma find_in_table_latest:
  assumes r: "table_rep N ps P H" and "length ps < 8192"
  shows "find_in_table H P z iLast mn p HASHTABLE_NSLOT (walHash p) 0 =
    Some (let is = filter (wanted P z iLast mn p) [1 ..< Suc (length ps)]
          in if is = [] then 0 else last is + z)"
proof -
  obtain d where d: "d \<le> length ps" "H (slot_of p d) = 0" "\<forall>e < d. H (slot_of p e) \<noteq> 0"
    using first_free [OF assms] by blast
  have "d \<le> 0 + HASHTABLE_NSLOT"
    using d(1) assms(2) by (simp add: HASHTABLE_NSLOT_def HASHTABLE_NPAGE_def)
  from find_in_table_run [OF assms d(2,3) le0 this] show ?thesis
    by (simp only: slot_of_0 search_order [OF assms d(2,3,1)])
qed

section \<open>The whole index\<close>

text \<open>Shared memory: the operating system delivers every page.\<close>

definition grants :: "wal_os \<Rightarrow> wal \<Rightarrow> bool" where
  "grants os w \<longleftrightarrow> exclusiveMode w \<noteq> WAL_HEAPMEMORY_MODE
     \<and> (\<forall>h. realloc_ok os h \<and> shm_rc os h = SQLITE_OK \<and> shm_present os h)"

definition same_view :: "wal \<Rightarrow> wal \<Rightarrow> bool" where
  "same_view w w' \<longleftrightarrow> apWiData w' = apWiData w \<and> exclusiveMode w' = exclusiveMode w
     \<and> writeLock w' = writeLock w \<and> readLock w' = readLock w \<and> bShmUnreliable w' = bShmUnreliable w
     \<and> mxFrame w' = mxFrame w \<and> minFrame w' = minFrame w \<and> live_mxFrame w' = live_mxFrame w
     \<and> nCkpt w' = nCkpt w"

lemma same_view_refl: "same_view w w"
  by (simp add: same_view_def)

lemma same_view_trans: "same_view w w' \<Longrightarrow> same_view w' w'' \<Longrightarrow> same_view w w''"
  by (simp add: same_view_def)

lemma same_view_grants: "same_view w w' \<Longrightarrow> grants os w \<Longrightarrow> grants os w'"
  by (simp add: same_view_def grants_def)

lemma same_view_table: "same_view w w' \<Longrightarrow> aPgno w' l = aPgno w l \<and> aHash w' l = aHash w l"
  by (simp add: same_view_def aPgno_def aHash_def fun_eq_iff)

lemma walHashGet_granted:
  assumes "grants os w"
  obtains w' where "walHashGet os w h = (SQLITE_OK, Some (hash_loc h), w')" "same_view w w'"
proof (cases "nWiData w \<le> h \<or> \<not> mapped w h")
  case False
  then show thesis using that [of w] by (simp add: walHashGet_def walIndexPage_def same_view_refl)
next
  case True
  define v where "v = (if nWiData w \<le> h
    then w\<lparr>mapped := (\<lambda>i. i < nWiData w \<and> mapped w i), nWiData := h + 1\<rparr> else w)"
  have "walHashGet os w h = (SQLITE_OK, Some (hash_loc h), v\<lparr>mapped := (mapped v)(h := True)\<rparr>)"
    using assms True by (auto simp: walHashGet_def walIndexPage_def walIndexPageRealloc_def grants_def v_def Let_def)
  moreover have "same_view w (v\<lparr>mapped := (mapped v)(h := True)\<rparr>)"
    by (simp add: same_view_def v_def)
  ultimately show thesis by (rule that)
qed

text \<open>Which frames a table has.\<close>

definition npage :: "nat \<Rightarrow> nat" where
  "npage h = (if h = 0 then HASHTABLE_NPAGE_ONE else HASHTABLE_NPAGE)"

definition zero_of :: "nat \<Rightarrow> nat" where
  "zero_of h = iZero (hash_loc h)"

lemmas layout = HASHTABLE_NPAGE_def HASHTABLE_NPAGE_ONE_def WALINDEX_HDR_SIZE_def

lemma zero_of_0 [simp]: "zero_of 0 = 0"
  by (simp add: zero_of_def hash_loc_def)

lemma zero_of_Suc: "zero_of (Suc h) = zero_of h + npage h"
  by (cases h) (simp_all add: zero_of_def hash_loc_def npage_def)

lemma npage_bounds: "0 < npage h" "npage h \<le> 4096"
  by (simp_all add: npage_def layout)

lemma zero_of_mono: "h \<le> h' \<Longrightarrow> zero_of h \<le> zero_of h'"
  by (rule lift_Suc_mono_le) (simp add: zero_of_Suc)

lemma zero_of_value: "zero_of h = (if h = 0 then 0 else 4062 + (h - 1) * 4096)"
  by (simp add: zero_of_def hash_loc_def layout)

lemma walFramePage_iff: "0 < n \<Longrightarrow> walFramePage n = h \<longleftrightarrow> zero_of h < n \<and> n \<le> zero_of (Suc h)"
  by (cases h) (auto simp: walFramePage_def zero_of_value layout)

lemma walFramePage_bounds: "0 < n \<Longrightarrow> zero_of (walFramePage n) < n \<and> n \<le> zero_of (walFramePage n) + npage (walFramePage n)"
  using walFramePage_iff [of n "walFramePage n"] by (simp add: zero_of_Suc)

definition part :: "nat \<Rightarrow> u32 list \<Rightarrow> u32 list" where
  "part h L = take (npage h) (drop (zero_of h) L)"

definition index_rep :: "wal \<Rightarrow> u32 list \<Rightarrow> bool" where
  "index_rep w L \<longleftrightarrow> (\<forall>h. zero_of h < length L \<longrightarrow>
     table_rep (npage h) (part h L) (aPgno w (hash_loc h)) (aHash w (hash_loc h)))"

lemma index_rep_view: "same_view w w' \<Longrightarrow> index_rep w L \<Longrightarrow> index_rep w' L"
  by (simp add: index_rep_def same_view_table)

lemma length_part: "length (part h L) = min (npage h) (length L - zero_of h)"
  by (simp add: part_def)

lemma part_short: "length (part h L) < 8192"
  using npage_bounds(2) [of h] by (simp add: length_part)

lemma nth_part: "i < length (part h L) \<Longrightarrow> part h L ! i = L ! (zero_of h + i)"
  by (simp add: part_def nth_drop less_diff_conv)

section \<open>Finding a frame\<close>

definition matches :: "u32 list \<Rightarrow> nat \<Rightarrow> u32 \<Rightarrow> nat \<Rightarrow> bool" where
  "matches L mn p i \<longleftrightarrow> mn \<le> i \<and> L ! (i - 1) = p"

lemma latest_matches: "latest L mn mx p =
    (let is = filter (matches L mn p) [1 ..< mx + 1] in if is = [] then 0 else last is)"
  by (simp add: latest_def matches_def [abs_def] del: upt_Suc)

text \<open>The hits in one table are the hits in its frames, up to the bound of the reader.\<close>

lemma table_hits:
  assumes r: "table_rep (npage h) (part h L) P H" and mx: "mx \<le> length L"
  shows "map (\<lambda>i. i + zero_of h) (filter (wanted P (zero_of h) mx mn p) [1 ..< Suc (length (part h L))]) =
    filter (matches L mn p) [zero_of h + 1 ..< min mx (zero_of (Suc h)) + 1]" (is "?l = ?r")
proof (rule strict_sorted_equal)
  show "sorted_wrt (<) ?r" by (rule sorted_wrt_filter) (rule sorted_wrt_upt)
  have "sorted_wrt (<) (filter (wanted P (zero_of h) mx mn p) [1 ..< Suc (length (part h L))])"
    by (rule sorted_wrt_filter) (rule sorted_wrt_upt)
  then show "sorted_wrt (<) ?l" by (simp add: sorted_wrt_map)
  have eq: "P i = L ! (zero_of h + i - 1)" if "0 < i" "i \<le> length (part h L)" for i
    using table_repD(3) [OF r, of "i - 1"] nth_part [of "i - 1" h L] that by simp
  show "set ?l = set ?r"
  proof (intro set_eqI iffI)
    fix i assume "i \<in> set ?r"
    then have i: "zero_of h < i" "i \<le> mx" "i \<le> zero_of (Suc h)" "mn \<le> i" "L ! (i - 1) = p"
      by (auto simp: matches_def simp del: upt_Suc)
    then have j: "0 < i - zero_of h" "i - zero_of h \<le> length (part h L)"
      using mx by (auto simp: length_part zero_of_Suc)
    have "wanted P (zero_of h) mx mn p (i - zero_of h)"
      using i eq [OF j] by (simp add: wanted_def)
    then have "i - zero_of h \<in> set (filter (wanted P (zero_of h) mx mn p) [1 ..< Suc (length (part h L))])"
      using j by (simp del: upt_Suc)
    moreover have "i = (i - zero_of h) + zero_of h" using i(1) by simp
    ultimately show "i \<in> set ?l" by (metis (no_types, lifting) image_eqI set_map)
  next
    fix i assume "i \<in> set ?l"
    then obtain j where j: "i = j + zero_of h" "0 < j" "j \<le> length (part h L)" "i \<le> mx" "mn \<le> i" "P j = p"
      by (auto simp: wanted_def simp del: upt_Suc)
    then show "i \<in> set ?r"
      using eq [OF j(2,3)] by (auto simp: matches_def length_part zero_of_Suc add.commute simp del: upt_Suc)
  qed
qed

lemma filter_below: "(\<And>i. i < n \<Longrightarrow> \<not> q i) \<Longrightarrow> filter q [m ..< n] = []"
  by simp

lemma latest_split:
  assumes "zero_of h < mx"
  shows "latest L mn (min mx (zero_of (Suc h))) p =
    (let is = filter (matches L mn p) [zero_of h + 1 ..< min mx (zero_of (Suc h)) + 1]
     in if is = [] then latest L mn (zero_of h) p else last is)"
proof -
  have "[1 ..< min mx (zero_of (Suc h)) + 1] = [1 ..< zero_of h + 1] @ [zero_of h + 1 ..< min mx (zero_of (Suc h)) + 1]"
    using assms upt_add_eq_append [of 1 "zero_of h + 1" "min mx (zero_of (Suc h)) - zero_of h"]
    by (simp add: zero_of_Suc del: upt_Suc)
  then show ?thesis by (simp add: latest_matches Let_def del: upt_Suc)
qed

lemma find_loop_below:
  assumes "h < walFramePage (minFrame w)"
  shows "latest L (minFrame w) (min mx (zero_of (Suc h))) p = 0"
proof -
  have "minFrame w \<noteq> 0" using assms by (intro notI) (simp add: walFramePage_def layout)
  then have "zero_of (walFramePage (minFrame w)) < minFrame w" using walFramePage_bounds by simp
  moreover have "zero_of (Suc h) \<le> zero_of (walFramePage (minFrame w))" using assms by (intro zero_of_mono) simp
  ultimately have "filter (matches L (minFrame w) p) [1 ..< min mx (zero_of (Suc h)) + 1] = []"
    by (auto simp: matches_def filter_empty_conv simp del: upt_Suc)
  then show ?thesis by (simp add: latest_matches)
qed

lemma find_loop_step:
  assumes rep: "index_rep w L" and g: "grants os w" and mx: "mx \<le> length L" "zero_of h < mx"
    and h: "\<not> h < iMin"
  obtains w' where "same_view w w'"
    "find_loop os w p mx iMin h =
      (let is = filter (matches L (minFrame w) p) [zero_of h + 1 ..< min mx (zero_of (Suc h)) + 1] in
       if is \<noteq> [] then Some ((SQLITE_OK, last is), w')
       else case h of 0 \<Rightarrow> Some ((SQLITE_OK, 0), w') | Suc h' \<Rightarrow> find_loop os w' p mx iMin h')"
proof -
  obtain w' where w': "walHashGet os w h = (SQLITE_OK, Some (hash_loc h), w')" "same_view w w'"
    using walHashGet_granted [OF g] by blast
  let ?P = "aPgno w' (hash_loc h)" and ?H = "aHash w' (hash_loc h)"
  let ?hits = "filter (wanted ?P (zero_of h) mx (minFrame w) p) [1 ..< Suc (length (part h L))]"
  let ?is = "filter (matches L (minFrame w) p) [zero_of h + 1 ..< min mx (zero_of (Suc h)) + 1]"
  have t: "table_rep (npage h) (part h L) ?P ?H"
    using index_rep_view [OF w'(2) rep] mx by (simp add: index_rep_def)
  have hits: "map (\<lambda>i. i + zero_of h) ?hits = ?is" by (rule table_hits [OF t mx(1)])
  have mn: "minFrame w' = minFrame w" using w'(2) by (simp add: same_view_def)
  have found: "find_in_table ?H ?P (iZero (hash_loc h)) mx (minFrame w') p HASHTABLE_NSLOT (walHash p) 0 =
      Some (if ?is = [] then 0 else last ?is)"
    using find_in_table_latest [OF t part_short, of "zero_of h" mx "minFrame w" p]
    unfolding mn zero_of_def [symmetric] hits [symmetric] Let_def map_is_Nil_conv
    by (cases "?hits = []") (simp_all add: last_map del: upt_Suc)
  have pos: "last ?is \<noteq> 0" if "?is \<noteq> []"
    using last_in_set [OF that] by (auto simp del: upt_Suc)
  have "find_loop os w p mx iMin h =
      (if ?is \<noteq> [] then Some ((SQLITE_OK, last ?is), w')
       else case h of 0 \<Rightarrow> Some ((SQLITE_OK, 0), w') | Suc h' \<Rightarrow> find_loop os w' p mx iMin h')"
  proof (cases "?is = []")
    case True
    then show ?thesis using found h w'(1) by (subst find_loop.simps) (simp del: upt_Suc)
  next
    case False
    then show ?thesis using found h w'(1) pos [OF False] by (subst find_loop.simps) (simp del: upt_Suc)
  qed
  then show thesis using that [OF w'(2)] by (simp only: Let_def)
qed

lemma latest_nothing: "latest L mn 0 p = 0"
  by (simp add: latest_matches)

lemma find_loop_latest:
  assumes "index_rep w L" "grants os w" "mx \<le> length L" "zero_of h < mx"
  shows "\<exists>w'. find_loop os w p mx (walFramePage (minFrame w)) h =
      Some ((SQLITE_OK, latest L (minFrame w) (min mx (zero_of (Suc h))) p), w') \<and> same_view w w'"
  using assms(1,2,4)
proof (induction h arbitrary: w)
  case (0 w)
  show ?case
  proof (cases "0 < walFramePage (minFrame w)")
    case True
    have "find_loop os w p mx (walFramePage (minFrame w)) 0 = Some ((SQLITE_OK, 0), w)"
      using True by (subst find_loop.simps) simp
    then show ?thesis using find_loop_below [OF True, of L mx p] same_view_refl by metis
  next
    case False
    obtain w' where w': "same_view w w'" "find_loop os w p mx (walFramePage (minFrame w)) 0 =
      (let is = filter (matches L (minFrame w) p) [zero_of 0 + 1 ..< min mx (zero_of (Suc 0)) + 1] in
       if is \<noteq> [] then Some ((SQLITE_OK, last is), w') else Some ((SQLITE_OK, 0), w'))"
      using find_loop_step [OF 0(1,2) assms(3) 0(3) False, of p] by (simp only: nat.case) blast
    have "find_loop os w p mx (walFramePage (minFrame w)) 0 =
        Some ((SQLITE_OK, latest L (minFrame w) (min mx (zero_of (Suc 0))) p), w')"
      unfolding w'(2) latest_split [OF 0(3)] by (simp add: latest_nothing Let_def del: upt_Suc)
    with w'(1) show ?thesis by blast
  qed
next
  case (Suc h w)
  have zh: "zero_of h < mx" using Suc.prems(3) zero_of_mono [of h "Suc h"] by simp
  let ?m = "walFramePage (minFrame w)"
  show ?case
  proof (cases "Suc h < ?m")
    case True
    have "find_loop os w p mx ?m (Suc h) = Some ((SQLITE_OK, 0), w)"
      using True by (subst find_loop.simps) simp
    then show ?thesis using find_loop_below [OF True, of L mx p] same_view_refl by metis
  next
    case False
    obtain w' where w': "same_view w w'" "find_loop os w p mx ?m (Suc h) =
      (let is = filter (matches L (minFrame w) p) [zero_of (Suc h) + 1 ..< min mx (zero_of (Suc (Suc h))) + 1] in
       if is \<noteq> [] then Some ((SQLITE_OK, last is), w') else find_loop os w' p mx ?m h)"
      using find_loop_step [OF Suc.prems(1,2) assms(3) Suc.prems(3) False, of p] by (simp only: nat.case) blast
    have mn: "minFrame w' = minFrame w" using w'(1) by (simp add: same_view_def)
    have cut: "min mx (zero_of (Suc h)) = zero_of (Suc h)" using Suc.prems(3) by simp
    obtain w'' where w'': "find_loop os w' p mx ?m h =
        Some ((SQLITE_OK, latest L (minFrame w) (zero_of (Suc h)) p), w'')" "same_view w' w''"
      using Suc.IH [OF index_rep_view [OF w'(1) Suc.prems(1)] same_view_grants [OF w'(1) Suc.prems(2)] zh]
      unfolding mn cut by blast
    have "\<exists>v. find_loop os w p mx ?m (Suc h) =
        Some ((SQLITE_OK, latest L (minFrame w) (min mx (zero_of (Suc (Suc h)))) p), v) \<and> same_view w v"
      unfolding w'(2) latest_split [OF Suc.prems(3)] Let_def w''(1)
      using w'(1) same_view_trans [OF w'(1) w''(2)] by (simp del: upt_Suc)
    then show ?thesis .
  qed
qed

text \<open>The whole search.\<close>

lemma find_frame:
  assumes rep: "index_rep w (L @ R)" and mx: "mxFrame w = length L" and g: "grants os w"
    and reading: "readLock w \<noteq> 0"
  shows "\<exists>w'. sqlite3WalFindFrame os w p =
      Some ((SQLITE_OK, latest L (minFrame w) (length L) p), w') \<and> same_view w w'"
proof (cases "length L = 0")
  case True
  then show ?thesis using mx by (simp add: sqlite3WalFindFrame_def latest_nothing same_view_refl)
next
  case False
  let ?h = "walFramePage (length L)"
  have b: "zero_of ?h < length L" "length L \<le> zero_of (Suc ?h)"
    using walFramePage_bounds [of "length L"] False by (simp_all add: zero_of_Suc)
  have m: "min (length L) (zero_of (Suc ?h)) = length L" using b(2) by simp
  have "latest (L @ R) (minFrame w) (length L) p = latest L (minFrame w) (length L) p"
    unfolding latest_def
    by (intro arg_cong [where f = "\<lambda>is. let is = is in if is = [] then 0 else last is"] filter_cong)
      (auto simp: nth_append)
  then show ?thesis
    using find_loop_latest [OF rep g, of "length L" ?h p] b(1) mx reading False
    by (simp only: m) (auto simp: sqlite3WalFindFrame_def)
qed

section \<open>Changing one table\<close>

text \<open>A change of the table \<open>h\<close> leaves the other pages, the words before its page numbers, and the
  connection's own state.\<close>

definition same_conn :: "wal \<Rightarrow> wal \<Rightarrow> bool" where
  "same_conn w w' \<longleftrightarrow> same_view (w\<lparr>apWiData := apWiData w'\<rparr>) w'"

definition page_change :: "nat \<Rightarrow> wal \<Rightarrow> wal \<Rightarrow> bool" where
  "page_change h w w' \<longleftrightarrow> same_conn w w' \<and> (\<forall>h'. h' \<noteq> h \<longrightarrow> apWiData w' h' = apWiData w h')
     \<and> (\<forall>j < loc_base (hash_loc h). pg_words (apWiData w' h) j = pg_words (apWiData w h) j)"

lemma same_connD:
  "same_conn w w' \<Longrightarrow> exclusiveMode w' = exclusiveMode w \<and> writeLock w' = writeLock w \<and> readLock w' = readLock w
     \<and> bShmUnreliable w' = bShmUnreliable w \<and> mxFrame w' = mxFrame w \<and> minFrame w' = minFrame w
     \<and> live_mxFrame w' = live_mxFrame w \<and> nCkpt w' = nCkpt w"
  by (simp add: same_conn_def same_view_def)

lemma same_conn_trans: "same_conn w w' \<Longrightarrow> same_conn w' w'' \<Longrightarrow> same_conn w w''"
  by (simp add: same_conn_def same_view_def)

lemma same_conn_refl: "same_conn w w"
  by (simp add: same_conn_def same_view_def)

lemma same_conn_grants: "same_conn w w' \<Longrightarrow> grants os w \<Longrightarrow> grants os w'"
  by (simp add: grants_def same_connD)

lemma page_change_view: "same_view w w' \<Longrightarrow> page_change h w w'"
  by (simp add: page_change_def same_conn_def same_view_def)

lemma page_change_trans: "page_change h w w' \<Longrightarrow> page_change h w' w'' \<Longrightarrow> page_change h w w''"
  by (simp add: page_change_def) (blast intro: same_conn_trans)

lemma loc_page_hash [simp]: "loc_page (hash_loc h) = h"
  by (simp add: hash_loc_def)

lemma page_change_set_loc: "page_change h w (set_loc (hash_loc h) P H w)"
  by (simp add: page_change_def same_conn_def same_view_def set_loc_def Let_def)

lemma aHash_set_loc [simp]: "aHash (set_loc l P H w) l = H"
  by (simp add: aHash_def set_loc_def Let_def fun_eq_iff)

lemma aPgno_set_loc: "0 < i \<Longrightarrow> aPgno (set_loc l P H w) l i = P i"
  by (cases i) (simp_all add: aPgno_def set_loc_def Let_def)

lemma table_rep_cong:
  assumes "\<And>i. 0 < i \<Longrightarrow> P' i = P i" and r: "table_rep N ps P H"
  shows "table_rep N ps P' H"
  using r unfolding table_rep_def by (simp add: assms(1))

lemma table_rep_set_loc:
  "table_rep N ps P H \<Longrightarrow> table_rep N ps (aPgno (set_loc l P H w) l) (aHash (set_loc l P H w) l)"
  using table_rep_cong [of "aPgno (set_loc l P H w) l" P N ps H] by (simp add: aPgno_set_loc)

lemma index_rep_change:
  assumes rep: "index_rep w N" and c: "page_change h w w'"
    and t: "table_rep (npage h) (part h M) (aPgno w' (hash_loc h)) (aHash w' (hash_loc h))"
    and le: "length M \<le> zero_of (Suc h)" "zero_of h \<le> length N" and eq: "take (zero_of h) M = take (zero_of h) N"
  shows "index_rep w' M"
  unfolding index_rep_def
proof (intro allI impI)
  fix h' assume h': "zero_of h' < length M"
  show "table_rep (npage h') (part h' M) (aPgno w' (hash_loc h')) (aHash w' (hash_loc h'))"
  proof (cases "h' = h")
    case True
    then show ?thesis using t by simp
  next
    case False
    have "\<not> Suc h \<le> h'" using zero_of_mono [of "Suc h" h'] h' le(1) by (meson leD le_trans order_less_le_trans)
    then have z: "zero_of (Suc h') \<le> zero_of h" using False by (intro zero_of_mono) simp
    have cut: "part h' X = take (npage h') (drop (zero_of h') (take (zero_of h) X))" for X
      using z by (simp add: part_def drop_take zero_of_Suc min_def)
    have "part h' M = part h' N" by (simp only: cut eq)
    moreover have "zero_of h' < length N" using z npage_bounds(1) [of h'] le(2) by (simp add: zero_of_Suc)
    moreover have "aPgno w' (hash_loc h') = aPgno w (hash_loc h')" "aHash w' (hash_loc h') = aHash w (hash_loc h')"
      using c False by (simp_all add: page_change_def aPgno_def aHash_def fun_eq_iff)
    ultimately show ?thesis using rep by (simp add: index_rep_def)
  qed
qed

lemma index_rep_empty: "index_rep w []"
  by (simp add: index_rep_def)

lemma part_append:
  "zero_of h \<le> length L \<Longrightarrow> part h (L @ R) = part h L @ take (npage h - length (part h L)) R"
  by (auto simp: part_def min_def intro: arg_cong [where f = "\<lambda>n. take n R"])

section \<open>Cleaning up\<close>

lemma walCleanupHash_cuts:
  assumes rep: "index_rep w (L @ R)" and mx: "mxFrame w = length L" and g: "grants os w" and L: "L \<noteq> []"
  obtains w' where "walCleanupHash os w = Some w'" "index_rep w' L" "page_change (walFramePage (length L)) w w'"
proof -
  let ?h = "walFramePage (length L)"
  have b: "zero_of ?h < length L" "length L \<le> zero_of (Suc ?h)"
    using walFramePage_bounds [of "length L"] L by (simp_all add: zero_of_Suc)
  obtain v where v: "walHashGet os w ?h = (SQLITE_OK, Some (hash_loc ?h), v)" "same_view w v"
    using walHashGet_granted [OF g] by blast
  let ?l = "hash_loc ?h"
  have lim: "length L - iZero ?l = length (part ?h L)" "mxFrame v = length L"
    using b v(2) mx by (simp_all add: length_part zero_of_Suc same_view_def flip: zero_of_def)
  have "table_rep (npage ?h) (part ?h (L @ R)) (aPgno v ?l) (aHash v ?l)"
    using index_rep_view [OF v(2) rep] b(1) by (simp add: index_rep_def)
  then have cut: "table_rep (npage ?h) (part ?h L) (\<lambda>i. if length (part ?h L) < i then 0 else aPgno v ?l i)
      (\<lambda>k. if length (part ?h L) < aHash v ?l k then 0 else aHash v ?l k)"
    using b(1) by (intro table_cut) (simp add: part_append)
  define w' where "w' = set_loc ?l (\<lambda>i. if length (part ?h L) < i then 0 else aPgno v ?l i)
      (\<lambda>k. if length (part ?h L) < aHash v ?l k then 0 else aHash v ?l k) v"
  have "walCleanupHash os w = Some w'"
    using mx L by (simp add: walCleanupHash_def v(1) lim Let_def w'_def)
  moreover have c: "page_change ?h w w'"
    unfolding w'_def by (rule page_change_trans [OF page_change_view [OF v(2)] page_change_set_loc])
  moreover have "index_rep w' L"
    using table_rep_set_loc [OF cut, of ?l v] b unfolding w'_def [symmetric]
    by (intro index_rep_change [OF rep c]) simp_all
  ultimately show thesis using that by blast
qed

section \<open>Appending\<close>

text \<open>The state in which the entry of the next frame is written: its table is cleared when the
  frame is the first one there, and cleaned up when another entry is in its place.\<close>

lemma append_ready:
  assumes rep: "index_rep w (L @ R)" "0 \<notin> set R" and c: "R = [] \<or> mxFrame w = length L" and g: "grants os w"
    and h: "h = walFramePage (length L + 1)"
  obtains v where
    "(do { let w = (if length (part h L) = 0 then set_loc (hash_loc h) (\<lambda>_. 0) (\<lambda>_. 0) w else w);
           if aPgno w (hash_loc h) (Suc (length (part h L))) \<noteq> 0 then walCleanupHash os w else Some w }) = Some v"
    "table_rep (npage h) (part h L) (aPgno v (hash_loc h)) (aHash v (hash_loc h))" "page_change h w v"
proof (cases "part h L = []")
  case True
  let ?w = "set_loc (hash_loc h) (\<lambda>_. 0) (\<lambda>_. 0) w"
  have "table_rep (npage h) (part h L) (aPgno ?w (hash_loc h)) (aHash ?w (hash_loc h))"
    unfolding True by (rule table_rep_set_loc [OF table_rep_empty])
  then show thesis using True page_change_set_loc by (intro that [of ?w]) (simp_all add: aPgno_set_loc)
next
  case False
  have b: "zero_of h \<le> length L" "length L < zero_of h + npage h"
    using walFramePage_bounds [of "length L + 1"] by (simp_all add: h)
  then have lt: "zero_of h < length L" using False npage_bounds(1) [of h] by (simp add: part_def)
  let ?l = "hash_loc h" and ?n = "length (part h L)"
  have t: "table_rep (npage h) (part h (L @ R)) (aPgno w ?l) (aHash w ?l)"
    using rep lt by (simp add: index_rep_def)
  have n: "?n < npage h" using b by (simp add: length_part)
  show thesis
  proof (cases "aPgno w ?l (Suc ?n) = 0")
    case True
    have "R = []"
    proof (rule ccontr)
      assume R: "R \<noteq> []"
      then have "?n < length (part h (L @ R))" using n b(1) by (simp add: part_append)
      from table_repD(3) [OF t this] table_repD(2) [OF t] this True show False
        by (metis nth_mem)
    qed
    then show thesis using True False t by (intro that [of w]) (simp_all add: page_change_view same_view_refl)
  next
    case busy: False
    have "R \<noteq> []"
      using busy table_repD(4) [OF t, of "Suc ?n"] n by auto
    then have mx: "mxFrame w = length L" using c by simp
    have L: "L \<noteq> []" using lt by auto
    have "walFramePage (length L) = h"
      using walFramePage_iff [of "length L" h] lt b L by (simp add: zero_of_Suc)
    with L obtain v where v: "walCleanupHash os w = Some v" "index_rep v L" "page_change h w v"
      using walCleanupHash_cuts [OF rep(1) mx g] by metis
    have "table_rep (npage h) (part h L) (aPgno v ?l) (aHash v ?l)"
      using v(2) lt by (simp add: index_rep_def)
    then show thesis using that [of v] v busy False by simp
  qed
qed

lemma walIndexAppend_ready:
  assumes "walHashGet os w (walFramePage iFrame) = (SQLITE_OK, Some l, w1)" "iFrame - iZero l = Suc n"
    and "(do { let w = (if n = 0 then set_loc l (\<lambda>_. 0) (\<lambda>_. 0) w1 else w1);
           if aPgno w l (Suc n) \<noteq> 0 then walCleanupHash os w else Some w }) = Some v"
    and "free_slot (aHash v l) (Suc n) (walHash p) = Some k"
  shows "walIndexAppend os w iFrame p =
    Some (SQLITE_OK, set_loc l ((aPgno v l)(Suc n := p)) ((aHash v l)(k := Suc n)) v)"
  using assms by (auto simp: walIndexAppend_def Let_def simp del: free_slot.simps split: if_splits)

lemma walIndexAppend_step:
  assumes rep: "index_rep w (L @ R)" "0 \<notin> set R" and c: "R = [] \<or> mxFrame w = length L" and g: "grants os w"
    and p: "p \<noteq> 0"
  obtains w' where "walIndexAppend os w (length L + 1) p = Some (SQLITE_OK, w')"
    "index_rep w' (L @ [p])" "same_conn w w'"
proof -
  define h where "h = walFramePage (length L + 1)"
  let ?l = "hash_loc h" and ?n = "length (part h L)"
  have b: "zero_of h \<le> length L" "length L < zero_of h + npage h"
    using walFramePage_bounds [of "length L + 1"] by (simp_all add: h_def)
  have idx: "length L + 1 - iZero ?l = Suc ?n" using b by (simp add: length_part flip: zero_of_def)
  have n: "?n < npage h" using b by (simp add: length_part)
  obtain w1 where w1: "walHashGet os w h = (SQLITE_OK, Some ?l, w1)" "same_view w w1"
    using walHashGet_granted [OF g] by blast
  have c1: "R = [] \<or> mxFrame w1 = length L" using c w1(2) by (simp add: same_view_def)
  obtain v where v:
    "(do { let w = (if ?n = 0 then set_loc ?l (\<lambda>_. 0) (\<lambda>_. 0) w1 else w1);
           if aPgno w ?l (Suc ?n) \<noteq> 0 then walCleanupHash os w else Some w }) = Some v"
    "table_rep (npage h) (part h L) (aPgno v ?l) (aHash v ?l)" "page_change h w1 v"
    using append_ready [OF index_rep_view [OF w1(2) rep(1)] rep(2) c1 same_view_grants [OF w1(2) g] h_def] by blast
  have "npage h < 8192" using npage_bounds(2) [of h] by simp
  from table_append [OF v(2) n this p] obtain k where
    k: "free_slot (aHash v ?l) (Suc ?n) (walHash p) = Some k"
      "table_rep (npage h) (part h L @ [p]) ((aPgno v ?l)(Suc ?n := p)) ((aHash v ?l)(k := Suc ?n))" by blast
  define w' where "w' = set_loc ?l ((aPgno v ?l)(Suc ?n := p)) ((aHash v ?l)(k := Suc ?n)) v"
  have app: "walIndexAppend os w (length L + 1) p = Some (SQLITE_OK, w')"
    unfolding w'_def using w1(1) idx v(1) k(1) by (intro walIndexAppend_ready) (simp_all only: h_def)
  have ch: "page_change h w w'"
    unfolding w'_def
    by (rule page_change_trans [OF page_change_trans [OF page_change_view [OF w1(2)] v(3)] page_change_set_loc])
  have "part h (L @ [p]) = part h L @ [p]" using b n by (simp add: part_append take_Cons')
  then have "index_rep w' (L @ [p])"
    using table_rep_set_loc [OF k(2), of ?l v] b unfolding w'_def [symmetric]
    by (intro index_rep_change [OF rep(1) ch]) (simp_all add: zero_of_Suc)
  with app ch that show thesis unfolding page_change_def by blast
qed

lemma append_all_step:
  "index_rep w (L @ R) \<Longrightarrow> 0 \<notin> set R \<Longrightarrow> R = [] \<or> mxFrame w = length L \<Longrightarrow> grants os w \<Longrightarrow> 0 \<notin> set ps \<Longrightarrow>
   \<exists>w'. append_all os w (length L) ps = Some (SQLITE_OK, length (L @ ps), w')
     \<and> index_rep w' (L @ ps @ (if ps = [] then R else [])) \<and> same_conn w w'"
proof (induction ps arbitrary: w L R)
  case Nil
  then show ?case by (simp add: same_conn_refl)
next
  case (Cons p ps)
  obtain w1 where w1: "walIndexAppend os w (length L + 1) p = Some (SQLITE_OK, w1)"
    "index_rep w1 (L @ [p])" "same_conn w w1"
    using walIndexAppend_step [OF Cons.prems(1-4), of p] Cons.prems(5) by force
  obtain w2 where w2: "append_all os w1 (length (L @ [p])) ps = Some (SQLITE_OK, length ((L @ [p]) @ ps), w2)"
    "index_rep w2 ((L @ [p]) @ ps @ (if ps = [] then [] else []))" "same_conn w1 w2"
    using Cons.IH [of w1 "L @ [p]" "[]"] w1(2) same_conn_grants [OF w1(3) Cons.prems(4)] Cons.prems(5) by auto
  have "append_all os w (length L) (p # ps) = Some (SQLITE_OK, length (L @ p # ps), w2)"
    using w1(1) w2(1) by simp
  moreover have "index_rep w2 (L @ (p # ps) @ [])" using w2(2) by simp
  ultimately show ?case using same_conn_trans [OF w1(3) w2(3)] by auto
qed

lemma walFramePgno_entry:
  assumes rep: "index_rep w L" and n: "0 < n" "n \<le> length L"
  shows "walFramePgno w n = L ! (n - 1)"
proof -
  let ?h = "walFramePage n"
  have b: "zero_of ?h < n" "n \<le> zero_of ?h + npage ?h" using walFramePage_bounds [OF n(1)] by simp_all
  have t: "table_rep (npage ?h) (part ?h L) (aPgno w (hash_loc ?h)) (aHash w (hash_loc ?h))"
    using rep b(1) n(2) by (simp add: index_rep_def)
  have "n - 1 - zero_of ?h < length (part ?h L)" using b n unfolding length_part by linarith
  from table_repD(3) [OF t this] nth_part [OF this] b(1)
  have "aPgno w (hash_loc ?h) (n - zero_of ?h) = L ! (n - 1)" by (simp add: Suc_diff_Suc)
  moreover have "walFramePgno w n = aPgno w (hash_loc ?h) (n - zero_of ?h)"
  proof (cases "?h = 0")
    case True
    then show ?thesis by (simp add: walFramePgno_def aPgno_def hash_loc_def)
  next
    case False
    let ?r = "n - 1 - zero_of ?h"
    have r: "?r < 4096" "n = zero_of ?h + ?r + 1" using b False by (auto simp: npage_def layout)
    have "n - 1 - HASHTABLE_NPAGE_ONE = (?h - 1) * 4096 + ?r"
      using r(2) False by (simp add: zero_of_value layout)
    then have "(n - 1 - HASHTABLE_NPAGE_ONE) mod HASHTABLE_NPAGE = ?r"
      using r(1) by (simp add: layout)
    then show ?thesis using False by (simp add: walFramePgno_def aPgno_def hash_loc_def Let_def)
  qed
  ultimately show ?thesis by simp
qed

section \<open>Runs of the writer\<close>

text \<open>What a connection with the write lock does to the index, and a new writer that starts
  after the old one has stopped in the middle of a transaction: it takes its header from shared
  memory.\<close>

datatype wal_op =
    Frames "u32 list" bool        \<comment> \<open>write pages to the log, with or without a commit\<close>
  | Undo
  | SavepointUndo savepoint
  | Takeover

fun wal_step :: "wal_os \<Rightarrow> wal_op \<Rightarrow> wal \<Rightarrow> wal option" where
  "wal_step os (Frames ps c) w = map_option snd (wal_index_frames os w ps c)"
| "wal_step os Undo w = map_option (snd \<circ> snd) (sqlite3WalUndo os w)"
| "wal_step os (SavepointUndo sp) w = map_option snd (sqlite3WalSavepointUndo os w sp)"
| "wal_step os Takeover w = Some (w\<lparr>mxFrame := live_mxFrame w\<rparr>)"

fun wal_run :: "wal_os \<Rightarrow> wal_op list \<Rightarrow> wal \<Rightarrow> wal option" where
  "wal_run os [] w = Some w"
| "wal_run os (op # ops) w = do { w \<leftarrow> wal_step os op w; wal_run os ops w }"

text \<open>The specification: the pages of the committed frames, and those of the frames of the
  transaction.  A savepoint is a number of frames that are kept.\<close>

type_synonym log = "u32 list \<times> u32 list"

fun log_step :: "wal_op \<Rightarrow> log \<Rightarrow> log" where
  "log_step (Frames ps c) (L, T) = (if c then (L @ T @ ps, []) else (L, T @ ps))"
| "log_step Undo (L, T) = (L, [])"
| "log_step (SavepointUndo sp) (L, T) = (L, take (fst sp - length L) T)"
| "log_step Takeover (L, T) = (L, [])"

text \<open>No page has the number 0, and a savepoint was taken in the transaction.\<close>

fun log_ok :: "nat \<Rightarrow> wal_op \<Rightarrow> log \<Rightarrow> bool" where
  "log_ok n (Frames ps c) (L, T) \<longleftrightarrow> 0 \<notin> set ps"
| "log_ok n (SavepointUndo sp) (L, T) \<longleftrightarrow> length L \<le> fst sp \<and> snd sp = n"
| "log_ok n _ _ \<longleftrightarrow> True"

fun log_run :: "nat \<Rightarrow> wal_op list \<Rightarrow> log \<Rightarrow> log option" where
  "log_run n [] l = Some l"
| "log_run n (op # ops) l = (if log_ok n op l then log_run n ops (log_step op l) else None)"

definition wal_rep :: "wal \<Rightarrow> log \<Rightarrow> bool" where
  "wal_rep w = (\<lambda>(L, T). \<exists>R. index_rep w (L @ T @ R) \<and> 0 \<notin> set (T @ R) \<and> (T = [] \<or> R = [])
     \<and> mxFrame w = length (L @ T) \<and> live_mxFrame w = length L \<and> writeLock w)"

lemma wal_repI:
  "index_rep w (L @ T @ R) \<Longrightarrow> 0 \<notin> set (T @ R) \<Longrightarrow> T = [] \<or> R = [] \<Longrightarrow> mxFrame w = length (L @ T) \<Longrightarrow>
   live_mxFrame w = length L \<Longrightarrow> writeLock w \<Longrightarrow> wal_rep w (L, T)"
  unfolding wal_rep_def by blast

lemma index_rep_fields:
  "index_rep (w\<lparr>mxFrame := m\<rparr>) L = index_rep w L" "index_rep (w\<lparr>live_mxFrame := m\<rparr>) L = index_rep w L"
  by (simp_all add: index_rep_def aPgno_def [abs_def] aHash_def [abs_def])

lemma grants_fields:
  "grants os (w\<lparr>mxFrame := m\<rparr>) = grants os w" "grants os (w\<lparr>live_mxFrame := m\<rparr>) = grants os w"
  by (simp_all add: grants_def)

lemma frames_step:
  assumes "wal_rep w (L, T)" "grants os w" "0 \<notin> set ps"
  shows "\<exists>w'. wal_index_frames os w ps c = Some (SQLITE_OK, w') \<and> wal_rep w' (log_step (Frames ps c) (L, T))
     \<and> grants os w' \<and> nCkpt w' = nCkpt w \<and> readLock w' = readLock w \<and> minFrame w' = minFrame w"
proof -
  obtain R where R: "index_rep w ((L @ T) @ R)" "0 \<notin> set (T @ R)" "T = [] \<or> R = []"
    "mxFrame w = length (L @ T)" "live_mxFrame w = length L" "writeLock w"
    using assms(1) unfolding wal_rep_def by auto
  obtain w1 where w1: "append_all os w (length (L @ T)) ps = Some (SQLITE_OK, length ((L @ T) @ ps), w1)"
    "index_rep w1 ((L @ T) @ ps @ (if ps = [] then R else []))" "same_conn w w1"
    using append_all_step [OF R(1) _ _ assms(2,3)] R(2,4) by auto
  define w' where "w' = (let w' = w1\<lparr>mxFrame := length ((L @ T) @ ps)\<rparr> in
     if c then w'\<lparr>live_mxFrame := length ((L @ T) @ ps)\<rparr> else w')"
  have eq: "wal_index_frames os w ps c = Some (SQLITE_OK, w')"
    unfolding wal_index_frames_def R(4) w1(1) w'_def by (simp add: Let_def)
  have "wal_rep w' (log_step (Frames ps c) (L, T))"
    using w1(2) R same_connD [OF w1(3)] assms(3)
    by (auto simp: w'_def Let_def index_rep_fields
        intro!: wal_repI [where R = "if ps = [] then R else []"] split: if_splits)
  moreover have "grants os w'" "nCkpt w' = nCkpt w" "readLock w' = readLock w" "minFrame w' = minFrame w"
    using same_conn_grants [OF w1(3) assms(2)] same_connD [OF w1(3)] by (simp_all add: w'_def Let_def grants_fields)
  ultimately show ?thesis using eq by blast
qed

text \<open>Going back to \<open>m\<close> frames.\<close>

lemma cut_step:
  assumes rep: "index_rep w (L @ T @ R)" and g: "grants os w" and m: "length L \<le> m" "m \<le> length (L @ T)"
  shows "\<exists>w'. walCleanupHash os (w\<lparr>mxFrame := m\<rparr>) = Some w' \<and> index_rep w' (L @ take (m - length L) T)
     \<and> same_conn (w\<lparr>mxFrame := m\<rparr>) w'"
proof (cases "m = 0")
  case True
  then show ?thesis using m by (simp add: walCleanupHash_def index_rep_empty same_conn_refl)
next
  case False
  let ?K = "L @ take (m - length L) T" and ?R = "drop (m - length L) T @ R"
  have K: "?K @ ?R = L @ T @ R" by (metis append_assoc append_take_drop_id)
  have "index_rep (w\<lparr>mxFrame := m\<rparr>) (?K @ ?R)" unfolding K index_rep_fields by (rule rep)
  moreover have "mxFrame (w\<lparr>mxFrame := m\<rparr>) = length ?K" using m by simp
  moreover have "?K \<noteq> []" using False m by auto
  ultimately show ?thesis
    using walCleanupHash_cuts [of "w\<lparr>mxFrame := m\<rparr>" ?K ?R os] g by (metis grants_fields(1) page_change_def)
qed

lemma undo_step:
  assumes "wal_rep w (L, T)" "grants os w"
  shows "\<exists>w'. sqlite3WalUndo os w = Some (SQLITE_OK, T, w') \<and> wal_rep w' (L, []) \<and> grants os w' \<and> nCkpt w' = nCkpt w"
proof -
  obtain R where R: "index_rep w (L @ T @ R)" "0 \<notin> set (T @ R)" "T = [] \<or> R = []"
    "mxFrame w = length (L @ T)" "live_mxFrame w = length L" "writeLock w"
    using assms(1) unfolding wal_rep_def by auto
  let ?w = "w\<lparr>mxFrame := length L\<rparr>"
  have rep: "index_rep ?w (L @ T @ R)" using R(1) by (simp add: index_rep_fields)
  have "map (walFramePgno ?w) [length L + 1 ..< length (L @ T) + 1] = T"
  proof (rule nth_equalityI)
    show "length (map (walFramePgno ?w) [length L + 1 ..< length (L @ T) + 1]) = length T" by (simp del: upt_Suc)
    fix i assume "i < length (map (walFramePgno ?w) [length L + 1 ..< length (L @ T) + 1])"
    then have i: "i < length T" by (simp del: upt_Suc)
    then show "map (walFramePgno ?w) [length L + 1 ..< length (L @ T) + 1] ! i = T ! i"
      using walFramePgno_entry [OF rep, of "length L + 1 + i"] by (simp add: nth_append del: upt_Suc)
  qed
  then have pages: "map (walFramePgno ?w) [length L + 1 ..< mxFrame w + 1] = T" by (simp only: R(4))
  show ?thesis
  proof (cases "T = []")
    case True
    then have "sqlite3WalUndo os w = Some (SQLITE_OK, T, ?w)"
      using R(4,5,6) by (simp add: sqlite3WalUndo_def)
    moreover have "wal_rep ?w (L, [])"
      using rep R(2,5,6) True by (intro wal_repI [where R = R]) simp_all
    ultimately show ?thesis using assms(2) by (simp add: grants_fields)
  next
    case False
    obtain w' where w': "walCleanupHash os ?w = Some w'" "index_rep w' L" "same_conn ?w w'"
      using cut_step [OF R(1) assms(2), of "length L"] by auto
    have "sqlite3WalUndo os w = Some (SQLITE_OK, T, w')"
      using pages w'(1) False R(4,5,6) by (simp add: sqlite3WalUndo_def Let_def del: upt_Suc)
    moreover have "wal_rep w' (L, [])"
      using w'(2) same_connD [OF w'(3)] R(5,6) by (intro wal_repI [where R = "[]"]) simp_all
    ultimately show ?thesis
      using same_conn_grants [OF w'(3)] same_connD [OF w'(3)] assms(2) by (simp add: grants_fields)
  qed
qed

lemma savepoint_step:
  assumes "wal_rep w (L, T)" "grants os w" "length L \<le> fst sp" "snd sp = nCkpt w"
  shows "\<exists>w'. sqlite3WalSavepointUndo os w sp = Some (SQLITE_OK, w')
     \<and> wal_rep w' (L, take (fst sp - length L) T) \<and> grants os w' \<and> nCkpt w' = nCkpt w
     \<and> readLock w' = readLock w"
proof (cases "fst sp < mxFrame w")
  case False
  then have "sqlite3WalSavepointUndo os w sp = Some (SQLITE_OK, w)"
    using assms(4) by (simp add: sqlite3WalSavepointUndo_def)
  moreover have "take (fst sp - length L) T = T"
    using assms(1) False by (auto simp: wal_rep_def)
  ultimately show ?thesis using assms(1,2) by simp
next
  case True
  obtain R where R: "index_rep w (L @ T @ R)" "0 \<notin> set (T @ R)" "T = [] \<or> R = []"
    "mxFrame w = length (L @ T)" "live_mxFrame w = length L" "writeLock w"
    using assms(1) unfolding wal_rep_def by auto
  let ?w = "w\<lparr>mxFrame := fst sp\<rparr>"
  obtain w' where w': "walCleanupHash os ?w = Some w'" "index_rep w' (L @ take (fst sp - length L) T)" "same_conn ?w w'"
    using cut_step [OF R(1) assms(2,3)] True R(4) by auto
  have "sqlite3WalSavepointUndo os w sp = Some (SQLITE_OK, w')"
    using w'(1) True assms(4) by (simp add: sqlite3WalSavepointUndo_def)
  moreover have "wal_rep w' (L, take (fst sp - length L) T)"
    using w'(2) same_connD [OF w'(3)] R True assms(3) set_take_subset [of "fst sp - length L" T]
    by (intro wal_repI [where R = "[]"]) auto
  ultimately show ?thesis
    using same_conn_grants [OF w'(3)] same_connD [OF w'(3)] assms(2) by (simp add: grants_fields)
qed

lemma wal_step_refines:
  assumes "wal_rep w l" "grants os w" "log_ok (nCkpt w) op l"
  shows "\<exists>w'. wal_step os op w = Some w' \<and> wal_rep w' (log_step op l) \<and> grants os w' \<and> nCkpt w' = nCkpt w"
proof -
  obtain L T where l: "l = (L, T)" by (cases l)
  show ?thesis
  proof (cases op)
    case (Frames ps c)
    then show ?thesis using frames_step [of w L T os ps c] assms by (auto simp: l)
  next
    case Undo
    then show ?thesis using undo_step [of w L T os] assms by (auto simp: l)
  next
    case (SavepointUndo sp)
    then show ?thesis using savepoint_step [of w L T os sp] assms by (auto simp: l)
  next
    case Takeover
    then show ?thesis using assms
      by (auto simp: l wal_rep_def index_rep_fields grants_fields)
  qed
qed

lemma wal_run_refines:
  assumes "wal_rep w l" "grants os w" "log_run (nCkpt w) ops l = Some l'"
  shows "\<exists>w'. wal_run os ops w = Some w' \<and> wal_rep w' l' \<and> grants os w' \<and> nCkpt w' = nCkpt w"
  using assms
proof (induction ops arbitrary: w l)
  case Nil
  then show ?case by simp
next
  case (Cons op ops)
  then have ok: "log_ok (nCkpt w) op l" "log_run (nCkpt w) ops (log_step op l) = Some l'"
    by (auto split: if_splits)
  obtain w1 where w1: "wal_step os op w = Some w1" "wal_rep w1 (log_step op l)" "grants os w1" "nCkpt w1 = nCkpt w"
    using wal_step_refines [OF Cons.prems(1,2) ok(1)] by blast
  show ?case using Cons.IH [OF w1(2,3)] ok(2) w1 by simp
qed

section \<open>What readers see\<close>

text \<open>A new index: no log, the write lock held.\<close>

definition new_wal :: "wal \<Rightarrow> bool" where
  "new_wal w \<longleftrightarrow> mxFrame w = 0 \<and> live_mxFrame w = 0 \<and> writeLock w"

text \<open>A reader: it has its own view of the shared pages, of which the system has mapped some,
  and the header as it was when its transaction began.\<close>

definition reader_of :: "wal \<Rightarrow> wal \<Rightarrow> nat \<Rightarrow> wal" where
  "reader_of r w n = r\<lparr>apWiData := apWiData w, mxFrame := n\<rparr>"

lemma new_wal_rep: "new_wal w \<Longrightarrow> wal_rep w ([], [])"
  unfolding new_wal_def by (intro wal_repI [where R = "[]"]) (simp_all add: index_rep_empty)

lemma reader_finds:
  assumes rep: "wal_rep w (L, T)" and n: "n \<le> length (L @ T)" and g: "grants os r" "readLock r \<noteq> 0"
  shows "map_option fst (sqlite3WalFindFrame os (reader_of r w n) p) =
    Some (SQLITE_OK, latest (L @ T) (minFrame r) n p)"
proof -
  obtain R where R: "index_rep w ((L @ T) @ R)" using rep unfolding wal_rep_def by auto
  let ?M = "take n (L @ T)" and ?r = "reader_of r w n"
  have "index_rep ?r (?M @ drop n (L @ T) @ R)"
    using R unfolding append.assoc [symmetric, of ?M] append_take_drop_id
    by (simp add: index_rep_def reader_of_def aPgno_def [abs_def] aHash_def [abs_def])
  moreover have "grants os ?r" "readLock ?r \<noteq> 0" "mxFrame ?r = length ?M"
    using g n by (simp_all add: grants_def reader_of_def)
  ultimately obtain v where
    "sqlite3WalFindFrame os ?r p = Some ((SQLITE_OK, latest ?M (minFrame ?r) (length ?M) p), v)"
    using find_frame by blast
  moreover have "latest ?M (minFrame ?r) (length ?M) p = latest (L @ T) (minFrame r) n p"
    using n unfolding latest_def
    by (intro arg_cong [where f = "\<lambda>is. let is = is in if is = [] then 0 else last is"])
      (auto simp: reader_of_def simp del: upt_Suc take_append intro!: filter_cong)
  ultimately show ?thesis by simp
qed

text \<open>The committed frames only grow.\<close>

lemma log_run_committed: "log_run n ops (L, T) = Some (L', T') \<Longrightarrow> \<exists>X. L' = L @ X"
proof (induction ops arbitrary: L T)
  case Nil
  then show ?case by simp
next
  case (Cons op ops)
  obtain L1 T1 where s: "log_step op (L, T) = (L1, T1)" by force
  have "\<exists>Y. L1 = L @ Y" using s by (cases op) (auto split: if_splits)
  moreover have "\<exists>X. L' = L1 @ X" using Cons s by (auto split: if_splits)
  ultimately show ?case by auto
qed

lemma latest_prefix: "n \<le> length L \<Longrightarrow> latest (L @ X) mn n p = latest L mn n p"
  unfolding latest_def
  by (intro arg_cong [where f = "\<lambda>is. let is = is in if is = [] then 0 else last is"] filter_cong)
    (auto simp: nth_append)

text \<open>C7: After any sequence of writes, commits, rollbacks, savepoint rollbacks and takeovers from a
  crashed writer, a reader of the first n frames finds for every page its latest frame among
  them\<close>

theorem find_frame_latest:
  assumes "new_wal w" "grants os w" "log_run (nCkpt w) ops ([], []) = Some (L, T)"
    and "n \<le> length (L @ T)" "grants os r" "readLock r \<noteq> 0"
  shows "\<exists>w'. wal_run os ops w = Some w' \<and> mxFrame w' = length (L @ T) \<and> live_mxFrame w' = length L
    \<and> map_option fst (sqlite3WalFindFrame os (reader_of r w' n) p) =
        Some (SQLITE_OK, latest (L @ T) (minFrame r) n p)"
proof -
  obtain w' where "wal_run os ops w = Some w'" "wal_rep w' (L, T)"
    using wal_run_refines [OF new_wal_rep [OF assms(1)] assms(2,3)] by blast
  then show ?thesis using reader_finds [OF _ assms(4-6)] by (auto simp: wal_rep_def)
qed

text \<open>C8: What a reader finds in its snapshot of committed frames does not change whatever the writers
  do afterwards to the index in shared memory\<close>

theorem snapshot_stable:
  assumes "new_wal w" "grants os w" "log_run (nCkpt w) ops ([], []) = Some l"
    and "log_run (nCkpt w) later l = Some l'" "n \<le> length (fst l)" "grants os r" "readLock r \<noteq> 0"
  shows "\<exists>w1 w2. wal_run os ops w = Some w1 \<and> wal_run os later w1 = Some w2
    \<and> map_option fst (sqlite3WalFindFrame os (reader_of r w2 n) p) =
      map_option fst (sqlite3WalFindFrame os (reader_of r w1 n) p)"
proof -
  obtain L T L' T' where l: "l = (L, T)" "l' = (L', T')" by fastforce
  obtain w1 where w1: "wal_run os ops w = Some w1" "wal_rep w1 l" "grants os w1" "nCkpt w1 = nCkpt w"
    using wal_run_refines [OF new_wal_rep [OF assms(1)] assms(2,3)] by blast
  obtain w2 where w2: "wal_run os later w1 = Some w2" "wal_rep w2 l'"
    using wal_run_refines [OF w1(2,3)] assms(4) w1(4) by metis
  obtain X where X: "L' = L @ X" using log_run_committed assms(4) l by metis
  have n: "n \<le> length L" "n \<le> length (L @ T)" "n \<le> length (L' @ T')" using assms(5) by (simp_all add: l X)
  have "latest (L @ T) (minFrame r) n p = latest (L' @ T') (minFrame r) n p"
    by (simp add: X latest_prefix n(1))
  then show ?thesis
    using w1(1) w2(1) reader_finds [OF _ n(2) assms(6,7), of w1 p] reader_finds [OF _ n(3) assms(6,7), of w2 p]
      w1(2) w2(2) by (auto simp: l)
qed

text \<open>C20: A rollback hands exactly the pages of the frames of the transaction to the callback and
  removes them from the index\<close>

theorem undo_discards:
  assumes "new_wal w" "grants os w" "log_run (nCkpt w) ops ([], []) = Some (L, T)"
    and "n \<le> length L" "grants os r" "readLock r \<noteq> 0"
  shows "\<exists>w1 w2. wal_run os ops w = Some w1 \<and> sqlite3WalUndo os w1 = Some (SQLITE_OK, T, w2)
    \<and> mxFrame w2 = length L \<and> live_mxFrame w2 = length L
    \<and> map_option fst (sqlite3WalFindFrame os (reader_of r w2 n) p) =
        Some (SQLITE_OK, latest L (minFrame r) n p)"
proof -
  obtain w1 where w1: "wal_run os ops w = Some w1" "wal_rep w1 (L, T)" "grants os w1"
    using wal_run_refines [OF new_wal_rep [OF assms(1)] assms(2,3)] by blast
  obtain w2 where w2: "sqlite3WalUndo os w1 = Some (SQLITE_OK, T, w2)" "wal_rep w2 (L, [])"
    using undo_step [OF w1(2,3)] by blast
  have "n \<le> length (L @ [])" using assms(4) by simp
  from reader_finds [OF w2(2) this assms(5,6), of p] w1(1) w2 show ?thesis by (auto simp: wal_rep_def)
qed

section \<open>A run\<close>

text \<open>A transaction that commits, a writer that stops in the middle of the next one, and a new
  writer that goes back to a savepoint and commits.\<close>

definition demo_wal_os :: wal_os where
  "demo_wal_os = \<lparr>realloc_ok = (\<lambda>_. True), calloc_ok = (\<lambda>_. True), shm_rc = (\<lambda>_. SQLITE_OK),
     shm_present = (\<lambda>_. True)\<rparr>"

definition demo_wal :: wal where
  "demo_wal = \<lparr>apWiData = (\<lambda>_. zero_page), mapped = (\<lambda>_. False), nWiData = 0, exclusiveMode = WAL_NORMAL_MODE,
     readOnly = 0, writeLock = True, readLock = 1, bShmUnreliable = False, mxFrame = 0, minFrame = 1,
     live_mxFrame = 0, nCkpt = 0\<rparr>"

definition demo_wal_ops :: "wal_op list" where
  "demo_wal_ops = [Frames [5, 7, 5] True, Frames [9] False, Takeover, Frames [5, 9] False]"

lemma demo_wal_facts:
  "new_wal demo_wal" "grants demo_wal_os demo_wal" "readLock demo_wal \<noteq> 0"
  "log_run (nCkpt demo_wal) demo_wal_ops ([], []) = Some ([5, 7, 5], [5, 9])"
  "log_run (nCkpt demo_wal) [SavepointUndo (4, 0), Frames [7] True] ([5, 7, 5], [5, 9]) = Some ([5, 7, 5, 5, 7], [])"
  by (simp_all add: new_wal_def grants_def demo_wal_def demo_wal_os_def demo_wal_ops_def
      WAL_NORMAL_MODE_def WAL_HEAPMEMORY_MODE_def)

lemma demo_latest: "latest [5, 7, 5, 5, 9] 1 5 5 = 4" "latest [5, 7, 5] 1 3 5 = 3"
  by (simp_all add: latest_def upt_rec)

lemma demo_lengths: "length [5, 7, 5, 5, 9 :: u32] = 5" "length [5, 7, 5 :: u32] = 3"
  by simp_all

lemma demo_minFrame: "minFrame demo_wal = 1"
  by (simp add: demo_wal_def)

lemma find_frame_latest_witness:
  "\<exists>w'. wal_run demo_wal_os demo_wal_ops demo_wal = Some w' \<and> mxFrame w' = 5 \<and> live_mxFrame w' = 3
    \<and> map_option fst (sqlite3WalFindFrame demo_wal_os (reader_of demo_wal w' 5) 5) = Some (SQLITE_OK, 4)"
  using find_frame_latest [OF demo_wal_facts(1,2,4) _ demo_wal_facts(2,3), of 5 5]
  unfolding append.simps demo_lengths demo_minFrame demo_latest by simp

lemma snapshot_stable_witness:
  "\<exists>w1 w2. wal_run demo_wal_os demo_wal_ops demo_wal = Some w1
    \<and> wal_run demo_wal_os [SavepointUndo (4, 0), Frames [7] True] w1 = Some w2
    \<and> map_option fst (sqlite3WalFindFrame demo_wal_os (reader_of demo_wal w2 3) 7) =
      map_option fst (sqlite3WalFindFrame demo_wal_os (reader_of demo_wal w1 3) 7)"
  by (rule snapshot_stable [OF demo_wal_facts(1,2,4,5) _ demo_wal_facts(2,3)]) simp

lemma undo_discards_witness:
  "\<exists>w1 w2. wal_run demo_wal_os demo_wal_ops demo_wal = Some w1
    \<and> sqlite3WalUndo demo_wal_os w1 = Some (SQLITE_OK, [5, 9], w2) \<and> mxFrame w2 = 3 \<and> live_mxFrame w2 = 3
    \<and> map_option fst (sqlite3WalFindFrame demo_wal_os (reader_of demo_wal w2 3) 5) = Some (SQLITE_OK, 3)"
  using undo_discards [OF demo_wal_facts(1,2,4) _ demo_wal_facts(2,3), of 3 5]
  unfolding demo_lengths demo_minFrame demo_latest by simp

end
