(* ===== verification/WalIterator.thy ===== *)
theory WalIterator
  imports WalSort WalIndex
begin

text \<open>
  The iterator of a checkpoint (\<open>walIteratorInit\<close>, \<open>walIteratorNext\<close> of \<open>wal.c\<close>): it visits the
  pages of the log in ascending order, each with its latest frame.  A segment stands for a table
  of the wal-index; the page numbers it points to are those at the time it is made, and the frames
  up to \<open>mxFrame\<close> keep theirs until a writer starts the log again.  Allocations are parameters.
\<close>

section \<open>Code\<close>

record wal_segment =
  iNext :: nat
  aIndex :: "nat list"
  seg_pgno :: "nat \<Rightarrow> u32"    \<comment> \<open>\<open>aPgno\<close>, from the first entry on\<close>
  nEntry :: nat
  seg_zero :: nat             \<comment> \<open>\<open>iZero\<close>, the frame of the first entry\<close>

record wal_iterator =
  iPrior :: u32
  aSegment :: "wal_segment list"

definition entry_page :: "wal_segment \<Rightarrow> u32" where
  "entry_page s = seg_pgno s (aIndex s ! iNext s)"

text \<open>The inner loop: entries up to \<open>iMin\<close> are passed.\<close>

function next_entry :: "u32 \<Rightarrow> wal_segment \<Rightarrow> wal_segment" where
  "next_entry iMin s =
     (if iNext s < nEntry s \<and> \<not> iMin < entry_page s then next_entry iMin (s\<lparr>iNext := iNext s + 1\<rparr>) else s)"
  by pat_completeness auto
termination
  by (relation "measure (\<lambda>(m, s). nEntry s - iNext s)") auto

declare next_entry.simps [simp del]

text \<open>The loop over the segments, from the last one down: the page, the frame, and the segments.\<close>

fun next_loop :: "u32 \<Rightarrow> wal_segment list \<Rightarrow> u32 \<Rightarrow> nat \<Rightarrow> u32 \<times> nat \<times> wal_segment list" where
  "next_loop iMin [] iRet piFrame = (iRet, piFrame, [])"
| "next_loop iMin (s # ss) iRet piFrame =
     (let (iRet, piFrame, ss) = next_loop iMin ss iRet piFrame; s = next_entry iMin s in
      if iNext s < nEntry s \<and> entry_page s < iRet
      then (entry_page s, seg_zero s + aIndex s ! iNext s, s # ss)
      else (iRet, piFrame, s # ss))"

text \<open>Whether the iterator is at its end, the page, the frame, and the iterator.\<close>

definition walIteratorNext :: "wal_iterator \<Rightarrow> nat \<Rightarrow> bool \<times> u32 \<times> nat \<times> wal_iterator" where
  "walIteratorNext p piFrame =
     (let (iRet, piFrame, ss) = next_loop (iPrior p) (aSegment p) 0xFFFFFFFF piFrame in
      (iRet = 0xFFFFFFFF, iRet, piFrame, \<lparr>iPrior = iRet, aSegment = ss\<rparr>))"

definition empty_segment :: wal_segment where
  "empty_segment = \<lparr>iNext = 0, aIndex = [], seg_pgno = (\<lambda>_. 0), nEntry = 0, seg_zero = 0\<rparr>"

text \<open>One segment of \<open>n\<close> entries.\<close>

definition make_segment :: "wal \<Rightarrow> walHashLoc \<Rightarrow> nat \<Rightarrow> wal_segment option" where
  "make_segment w l n = do {
     let aContent = (\<lambda>j. aPgno w l (j + 1));
     (aIndex, n) \<leftarrow> walMergesort aContent [0 ..< n] n;
     Some \<lparr>iNext = 0, aIndex = aIndex, seg_pgno = aContent, nEntry = n, seg_zero = iZero l + 1\<rparr>
   }"

text \<open>The loop over the tables \<open>is\<close>.  \<open>None\<close> stands for the use of a location that was not set.\<close>

fun init_loop :: "wal_os \<Rightarrow> wal \<Rightarrow> nat \<Rightarrow> nat \<Rightarrow> nat list \<Rightarrow> wal_segment list
    \<Rightarrow> (rc \<times> wal_segment list \<times> wal) option" where
  "init_loop os w iLast nSegment [] ss = Some (SQLITE_OK, ss, w)"
| "init_loop os w iLast nSegment (i # is) ss =
     (case walHashGet os w i of
        (rc, None, w) \<Rightarrow> if rc = SQLITE_OK then None else Some (rc, ss, w)
      | (rc, Some l, w) \<Rightarrow> do {
          let nEntry = (if i + 1 = nSegment then iLast - iZero l else HASHTABLE_NPAGE - loc_base l);
          s \<leftarrow> make_segment w l nEntry;
          init_loop os w iLast nSegment is (ss[i := s])
        })"

definition walIteratorInit :: "wal_os \<Rightarrow> bool \<Rightarrow> bool \<Rightarrow> wal \<Rightarrow> nat \<Rightarrow> (rc \<times> wal_iterator option \<times> wal) option" where
  "walIteratorInit os malloc_iter malloc_tmp w nBackfill =
     (let iLast = mxFrame w; nSegment = walFramePage iLast + 1 in
      if \<not> malloc_iter then Some (SQLITE_NOMEM, None, w)
      else if \<not> malloc_tmp then Some (SQLITE_NOMEM, None, w)
      else do {
        (rc, ss, w) \<leftarrow> init_loop os w iLast nSegment [walFramePage (nBackfill + 1) ..< nSegment]
          (replicate nSegment empty_segment);
        Some (rc, if rc = SQLITE_OK then Some \<lparr>iPrior = 0, aSegment = ss\<rparr> else None, w)
      })"

section \<open>The latest frame\<close>

lemma latest_none: "(\<And>i. 0 < i \<Longrightarrow> mn \<le> i \<Longrightarrow> i \<le> mx \<Longrightarrow> L ! (i - 1) \<noteq> p) \<Longrightarrow> latest L mn mx p = 0"
  by (auto simp: latest_def filter_empty_conv simp del: upt_Suc)

lemma latest_at:
  assumes f: "0 < f" "mn \<le> f" "f \<le> mx" "L ! (f - 1) = p" and last: "\<And>i. f < i \<Longrightarrow> i \<le> mx \<Longrightarrow> L ! (i - 1) \<noteq> p"
  shows "latest L mn mx p = f"
proof -
  have "[1 ..< mx + 1] = [1 ..< f] @ f # [f + 1 ..< mx + 1]"
    using f upt_add_eq_append [of 1 f "mx + 1 - f"] upt_conv_Cons [of f "mx + 1"] by (simp del: upt_Suc)
  moreover have "filter (\<lambda>i. mn \<le> i \<and> L ! (i - 1) = p) [f + 1 ..< mx + 1] = []"
    using last by (auto simp: filter_empty_conv simp del: upt_Suc)
  ultimately show ?thesis using f by (simp add: latest_def del: upt_Suc)
qed

lemma latest_cases:
  obtains "latest L mn mx p = 0" "\<And>i. 0 < i \<Longrightarrow> mn \<le> i \<Longrightarrow> i \<le> mx \<Longrightarrow> L ! (i - 1) \<noteq> p"
  | "0 < latest L mn mx p" "mn \<le> latest L mn mx p" "latest L mn mx p \<le> mx" "L ! (latest L mn mx p - 1) = p"
    "\<And>i. latest L mn mx p < i \<Longrightarrow> i \<le> mx \<Longrightarrow> L ! (i - 1) \<noteq> p"
proof (cases "\<exists>i. 0 < i \<and> mn \<le> i \<and> i \<le> mx \<and> L ! (i - 1) = p")
  case False
  then show ?thesis using that(1) latest_none by metis
next
  case True
  let ?S = "{i. 0 < i \<and> mn \<le> i \<and> i \<le> mx \<and> L ! (i - 1) = p}"
  have S: "finite ?S" "?S \<noteq> {}" using True by auto
  from Max_in [OF S] have m: "0 < Max ?S" "mn \<le> Max ?S" "Max ?S \<le> mx" "L ! (Max ?S - 1) = p" by auto
  have after: "L ! (i - 1) \<noteq> p" if "Max ?S < i" "i \<le> mx" for i
  proof
    assume "L ! (i - 1) = p"
    then have "i \<in> ?S" using that m(1,2) by auto
    from Max_ge [OF S(1) this] that(1) show False by simp
  qed
  have "latest L mn mx p = Max ?S" by (rule latest_at [OF m after])
  then show ?thesis using that(2) m after by metis
qed

section \<open>One segment\<close>

text \<open>The entries that are left are those of the pages above \<open>m\<close>.\<close>

definition segment_at :: "u32 \<Rightarrow> wal_segment \<Rightarrow> bool" where
  "segment_at m s \<longleftrightarrow> nEntry s \<le> length (aIndex s) \<and> ascending (seg_pgno s) (take (nEntry s) (aIndex s))
     \<and> (\<forall>j < iNext s. j < nEntry s \<longrightarrow> seg_pgno s (aIndex s ! j) \<le> m)"

definition same_segment :: "wal_segment \<Rightarrow> wal_segment \<Rightarrow> bool" where
  "same_segment s s' \<longleftrightarrow> aIndex s' = aIndex s \<and> seg_pgno s' = seg_pgno s \<and> nEntry s' = nEntry s \<and> seg_zero s' = seg_zero s"

lemma segment_at_mono: "segment_at m s \<Longrightarrow> m \<le> m' \<Longrightarrow> segment_at m' s"
  by (auto simp: segment_at_def intro: order_trans)

lemma next_entry_same: "same_segment s (next_entry m s)"
  by (induction m s rule: next_entry.induct) (subst next_entry.simps, auto simp: same_segment_def)

lemma next_entry_at: "segment_at m s \<Longrightarrow> segment_at m (next_entry m s)"
proof (induction m s rule: next_entry.induct)
  case (1 m s)
  show ?case
  proof (cases "iNext s < nEntry s \<and> \<not> m < entry_page s")
    case True
    then have "segment_at m (s\<lparr>iNext := iNext s + 1\<rparr>)"
      using 1(2) by (auto simp: segment_at_def entry_page_def less_Suc_eq)
    then show ?thesis using 1(1) True by (subst next_entry.simps) simp
  next
    case False
    then show ?thesis using 1(2) by (subst next_entry.simps) auto
  qed
qed

lemma next_entry_stop: "iNext (next_entry m s) < nEntry s \<Longrightarrow> m < entry_page (next_entry m s)"
  by (induction m s rule: next_entry.induct) (subst (asm) next_entry.simps, subst next_entry.simps, auto split: if_splits)

text \<open>What a segment has to offer.\<close>

lemma next_entry_least:
  assumes at: "segment_at m s" and x: "x \<in> set (take (nEntry s) (aIndex s))" "m < seg_pgno s x"
  shows "iNext (next_entry m s) < nEntry s" "entry_page (next_entry m s) \<le> seg_pgno s x"
proof -
  let ?s = "next_entry m s"
  have same: "aIndex ?s = aIndex s" "seg_pgno ?s = seg_pgno s" "nEntry ?s = nEntry s"
    using next_entry_same [of s m] by (simp_all add: same_segment_def)
  have at': "segment_at m ?s" by (rule next_entry_at [OF at])
  have len: "nEntry s \<le> length (aIndex s)" using at by (simp add: segment_at_def)
  obtain j where j: "j < nEntry s" "x = aIndex s ! j" using x(1) len by (auto simp: in_set_conv_nth)
  then have "iNext ?s \<le> j" using at' x(2) by (force simp: segment_at_def same not_le [symmetric])
  then show "iNext ?s < nEntry s" using j(1) by simp
  show "entry_page ?s \<le> seg_pgno s x"
  proof (cases "iNext ?s = j")
    case False
    then have "iNext ?s < j" using \<open>iNext ?s \<le> j\<close> by simp
    then show ?thesis using at j len sorted_wrt_nth_less [of "\<lambda>x y. seg_pgno s x < seg_pgno s y" "take (nEntry s) (aIndex s)" "iNext ?s" j]
      by (simp add: segment_at_def entry_page_def same less_imp_le)
  qed (simp add: entry_page_def same j(2))
qed

lemma next_entry_in: "segment_at m s \<Longrightarrow> iNext (next_entry m s) < nEntry s \<Longrightarrow>
    aIndex s ! iNext (next_entry m s) \<in> set (take (nEntry s) (aIndex s))"
  by (auto simp: segment_at_def in_set_conv_nth)

section \<open>All segments\<close>

text \<open>A segment for the frames of table \<open>h\<close> in the log \<open>M\<close>.\<close>

definition segment_rep :: "u32 list \<Rightarrow> nat \<Rightarrow> wal_segment \<Rightarrow> bool" where
  "segment_rep M h s \<longleftrightarrow> seg_zero s = zero_of h + 1 \<and> nEntry s \<le> length (aIndex s)
     \<and> (\<forall>j < length (part h M). seg_pgno s j = part h M ! j)
     \<and> last_of (seg_pgno s) {0 ..< length (part h M)} (take (nEntry s) (aIndex s))"

text \<open>The pages above \<open>m\<close> in the frames from table \<open>h\<close> on.\<close>

definition pages_left :: "u32 list \<Rightarrow> nat \<Rightarrow> u32 \<Rightarrow> u32 set" where
  "pages_left M h m = {p \<in> set (drop (zero_of h) M). m < p \<and> p < 0xFFFFFFFF}"

lemma drop_part: "drop (zero_of h) M = part h M @ drop (zero_of (Suc h)) M"
  by (simp add: part_def zero_of_Suc add.commute [of _ "npage h"] flip: drop_drop)

definition segments_rep :: "u32 list \<Rightarrow> nat \<Rightarrow> nat \<Rightarrow> u32 \<Rightarrow> wal_segment list \<Rightarrow> bool" where
  "segments_rep M h0 h m ss \<longleftrightarrow> length M \<le> zero_of (h + length ss)
     \<and> (\<forall>i < length ss. if h + i < h0 then nEntry (ss ! i) = 0 else segment_rep M (h + i) (ss ! i) \<and> segment_at m (ss ! i))"

lemma segments_rep_Cons: "segments_rep M h0 h m (s # ss) \<longleftrightarrow>
    (if h < h0 then nEntry s = 0 else segment_rep M h s \<and> segment_at m s) \<and> segments_rep M h0 (Suc h) m ss"
  by (auto simp: segments_rep_def All_less_Suc2)

lemma segment_entry:
  assumes "segment_rep M h s" "x \<in> set (take (nEntry s) (aIndex s))"
  shows "x < length (part h M)" "seg_pgno s x = part h M ! x"
    "x < k \<Longrightarrow> k < length (part h M) \<Longrightarrow> part h M ! k \<noteq> part h M ! x"
  using assms by (force simp: segment_rep_def last_of_def)+

lemma segment_has:
  assumes "segment_rep M h s" "p \<in> set (part h M)"
  shows "\<exists>x \<in> set (take (nEntry s) (aIndex s)). seg_pgno s x = p"
proof -
  obtain j where j: "j < length (part h M)" "part h M ! j = p" using assms(2) by (auto simp: in_set_conv_nth)
  then have "p \<in> seg_pgno s ` {0 ..< length (part h M)}" using assms(1) by (force simp: segment_rep_def)
  moreover have "seg_pgno s ` set (take (nEntry s) (aIndex s)) = seg_pgno s ` {0 ..< length (part h M)}"
    using assms(1) by (intro last_of_image) (simp_all add: segment_rep_def)
  ultimately have "p \<in> seg_pgno s ` set (take (nEntry s) (aIndex s))" by simp
  then show ?thesis by blast
qed

lemma later_frame: "zero_of h < i \<Longrightarrow> i \<le> length M \<Longrightarrow> M ! (i - 1) \<in> set (drop (zero_of h) M)"
  using nth_mem [of "i - 1 - zero_of h" "drop (zero_of h) M"] by (simp add: nth_drop)

lemma latest_in_segment:
  assumes "segment_rep M h s" "x \<in> set (take (nEntry s) (aIndex s))" "seg_pgno s x \<notin> set (drop (zero_of (Suc h)) M)"
  shows "latest M (zero_of h + 1) (length M) (seg_pgno s x) = seg_zero s + x"
proof -
  note e = segment_entry [OF assms(1,2)]
  have f: "seg_zero s + x = zero_of h + 1 + x" using assms(1) by (simp add: segment_rep_def)
  show ?thesis unfolding f
  proof (rule latest_at)
    show "zero_of h + 1 + x \<le> length M" using e(1) unfolding length_part by linarith
    show "M ! (zero_of h + 1 + x - 1) = seg_pgno s x" using e(1,2) by (simp add: nth_part)
    show "M ! (i - 1) \<noteq> seg_pgno s x" if i: "zero_of h + 1 + x < i" "i \<le> length M" for i
    proof (cases "i \<le> zero_of (Suc h)")
      case True
      then have "i - 1 - zero_of h < length (part h M)" using i unfolding length_part zero_of_Suc by linarith
      then show ?thesis using e(2) e(3) [of "i - 1 - zero_of h"] nth_part [of "i - 1 - zero_of h" h M] i by simp
    next
      case False
      then show ?thesis using later_frame [of "Suc h" i M] i(2) assms(3) by auto
    qed
  qed simp_all
qed

lemma latest_suffix:
  assumes "p \<in> set (drop z M)" "y \<le> z"
  shows "latest M (z + 1) (length M) p = latest M (y + 1) (length M) p"
proof -
  obtain j where j: "z + j < length M" "M ! (z + j) = p"
  proof -
    obtain j where "j < length (drop z M)" "drop z M ! j = p" using assms(1) unfolding in_set_conv_nth by blast
    then show thesis using that [of j] by simp
  qed
  show ?thesis
  proof (cases rule: latest_cases [of M "z + 1" "length M" p])
    case 1
    then show ?thesis using 1(2) [of "z + j + 1"] j by simp
  next
    case 2
    then show ?thesis using assms(2) by (intro latest_at [symmetric]) simp_all
  qed
qed

lemma latest_later:
  "p \<in> set (drop (zero_of (Suc h)) M) \<Longrightarrow>
   latest M (zero_of (Suc h) + 1) (length M) p = latest M (zero_of h + 1) (length M) p"
  by (erule latest_suffix) (simp add: zero_of_Suc)

definition next_is :: "u32 list \<Rightarrow> nat \<Rightarrow> u32 \<Rightarrow> u32 \<Rightarrow> nat \<Rightarrow> bool" where
  "next_is M h m iRet f \<longleftrightarrow>
     (if pages_left M h m = {} then iRet = 0xFFFFFFFF
      else iRet \<in> pages_left M h m \<and> (\<forall>p \<in> pages_left M h m. iRet \<le> p)
        \<and> f = latest M (zero_of h + 1) (length M) iRet)"

lemma pages_left_part: "pages_left M h m = {p \<in> set (part h M). m < p \<and> p < 0xFFFFFFFF} \<union> pages_left M (Suc h) m"
  unfolding pages_left_def drop_part [of h M] by auto

lemma next_is_le: "next_is M h m iRet f \<Longrightarrow> p \<in> pages_left M h m \<Longrightarrow> iRet \<le> p"
  unfolding next_is_def by (metis empty_iff)

text \<open>One segment before the others.\<close>

lemma next_is_entry:
  assumes s: "segment_rep M h s" "segment_at m s" and rest: "next_is M (Suc h) m r g"
    and hit: "iNext (next_entry m s) < nEntry s" "entry_page (next_entry m s) < r" and r: "r \<le> 0xFFFFFFFF"
  shows "next_is M h m (entry_page (next_entry m s)) (seg_zero s + aIndex s ! iNext (next_entry m s))"
proof -
  let ?s = "next_entry m s" let ?x = "aIndex s ! iNext ?s"
  have same: "aIndex ?s = aIndex s" "seg_pgno ?s = seg_pgno s" "nEntry ?s = nEntry s"
    using next_entry_same [of s m] by (simp_all add: same_segment_def)
  have x: "?x \<in> set (take (nEntry s) (aIndex s))" by (rule next_entry_in [OF s(2) hit(1)])
  have page: "entry_page ?s = seg_pgno s ?x" by (simp add: entry_page_def same)
  have m: "m < entry_page ?s" using next_entry_stop [of m s] hit(1) by (simp add: same)
  have less: "entry_page ?s < 0xFFFFFFFF" using hit(2) r by simp
  have inp: "entry_page ?s \<in> set (part h M)" using segment_entry(1,2) [OF s(1) x] by (simp add: page)
  have later: "entry_page ?s \<notin> pages_left M (Suc h) m" using next_is_le [OF rest] hit(2) by force
  then have "seg_pgno s ?x \<notin> set (drop (zero_of (Suc h)) M)" using m less by (simp add: pages_left_def page)
  note f = latest_in_segment [OF s(1) x this]
  have least: "entry_page ?s \<le> p" if p: "p \<in> pages_left M h m" for p
    using p unfolding pages_left_part [of M h]
  proof
    assume "p \<in> {p \<in> set (part h M). m < p \<and> p < 0xFFFFFFFF}"
    then show ?thesis using segment_has [OF s(1), of p] next_entry_least(2) [OF s(2)] by auto
  next
    assume "p \<in> pages_left M (Suc h) m"
    then show ?thesis using next_is_le [OF rest] hit(2) by force
  qed
  have "entry_page ?s \<in> pages_left M h m" using inp m less by (simp add: pages_left_part [of M h])
  then show ?thesis using least f by (auto simp: next_is_def page)
qed

lemma next_is_rest:
  assumes s: "segment_rep M h s" "segment_at m s" and rest: "next_is M (Suc h) m r g"
    and miss: "\<not> (iNext (next_entry m s) < nEntry s \<and> entry_page (next_entry m s) < r)"
  shows "next_is M h m r g"
proof -
  have le: "r \<le> p" if p: "p \<in> set (part h M)" "m < p" for p
  proof -
    obtain x where x: "x \<in> set (take (nEntry s) (aIndex s))" "seg_pgno s x = p" using segment_has [OF s(1) p(1)] by blast
    have "iNext (next_entry m s) < nEntry s" "entry_page (next_entry m s) \<le> p"
      using next_entry_least [OF s(2) x(1)] p(2) x(2) by simp_all
    then show ?thesis using miss by simp
  qed
  show ?thesis
  proof (cases "pages_left M (Suc h) m = {}")
    case True
    then have r: "r = 0xFFFFFFFF" using rest by (simp add: next_is_def)
    then have "pages_left M h m = {}" using le True by (force simp: pages_left_part [of M h])
    then show ?thesis using r by (simp add: next_is_def)
  next
    case False
    then have r: "r \<in> pages_left M (Suc h) m" "g = latest M (zero_of (Suc h) + 1) (length M) r"
      using rest by (simp_all add: next_is_def)
    then have "g = latest M (zero_of h + 1) (length M) r" using latest_later [of r h M] by (simp add: pages_left_def)
    moreover have "r \<in> pages_left M h m" using r(1) by (simp add: pages_left_part [of M h])
    moreover have "r \<le> p" if "p \<in> pages_left M h m" for p
      using that le next_is_le [OF rest] by (auto simp: pages_left_part [of M h])
    ultimately show ?thesis by (auto simp: next_is_def)
  qed
qed

lemma next_is_max: "next_is M h m r g \<Longrightarrow> r \<le> 0xFFFFFFFF"
  by (auto simp: next_is_def pages_left_def split: if_splits)

lemma next_loop_ok:
  "segments_rep M h0 h m ss \<Longrightarrow> next_loop m ss 0xFFFFFFFF f0 = (iRet, f, ss') \<Longrightarrow>
   segments_rep M h0 h m ss' \<and> next_is M (max h h0) m iRet f"
proof (induction ss arbitrary: h iRet f ss')
  case Nil
  then have "length M \<le> zero_of (max h h0)"
    using zero_of_mono [of h "max h h0"] by (simp add: segments_rep_def)
  then show ?case using Nil by (simp add: pages_left_def next_is_def)
next
  case (Cons s ss)
  let ?s = "next_entry m s"
  have same: "aIndex ?s = aIndex s" "seg_pgno ?s = seg_pgno s" "nEntry ?s = nEntry s" "seg_zero ?s = seg_zero s"
    using next_entry_same [of s m] by (simp_all add: same_segment_def)
  obtain r g ss1 where l: "next_loop m ss 0xFFFFFFFF f0 = (r, g, ss1)" by (cases "next_loop m ss 0xFFFFFFFF f0")
  have IH: "segments_rep M h0 (Suc h) m ss1" "next_is M (max (Suc h) h0) m r g"
    using Cons.IH [OF _ l, of "Suc h"] Cons.prems(1) by (simp_all add: segments_rep_Cons)
  have res: "ss' = ?s # ss1" "(iRet, f) = (if iNext ?s < nEntry s \<and> entry_page ?s < r
      then (entry_page ?s, seg_zero s + aIndex s ! iNext ?s) else (r, g))"
    using Cons.prems(2) l by (auto simp: Let_def same split: if_splits)
  have "segments_rep M h0 h m ss'"
    using Cons.prems(1) IH(1) next_entry_at [of m s] unfolding res(1) segments_rep_Cons
    by (auto simp: same segment_rep_def)
  moreover have "next_is M (max h h0) m iRet f"
  proof (cases "h < h0")
    case True
    then have "max h h0 = max (Suc h) h0" "nEntry s = 0" using Cons.prems(1) by (auto simp: segments_rep_Cons)
    then show ?thesis using res(2) IH(2) by simp
  next
    case False
    then have h: "max h h0 = h" "max (Suc h) h0 = Suc h" and s: "segment_rep M h s" "segment_at m s"
      using Cons.prems(1) by (auto simp: segments_rep_Cons)
    note rest = IH(2) [unfolded h]
    show ?thesis
    proof (cases "iNext ?s < nEntry s \<and> entry_page ?s < r")
      case True
      then have "iRet = entry_page ?s" "f = seg_zero s + aIndex s ! iNext ?s" using res(2) by simp_all
      then show ?thesis using next_is_entry [OF s rest _ _ next_is_max [OF rest]] True unfolding h by blast
    next
      case False
      have "iRet = r" "f = g" using res(2) unfolding if_not_P [OF False] by simp_all
      then show ?thesis using next_is_rest [OF s rest False] unfolding h by blast
    qed
  qed
  ultimately show ?case by blast
qed

section \<open>Walking\<close>

lemma next_loop_above: "next_loop m ss 0xFFFFFFFF f0 = (iRet, f, ss') \<Longrightarrow> iRet = 0xFFFFFFFF \<or> m < iRet"
proof (induction ss arbitrary: iRet f ss')
  case (Cons s ss)
  obtain r g ss1 where l: "next_loop m ss 0xFFFFFFFF f0 = (r, g, ss1)" by (cases "next_loop m ss 0xFFFFFFFF f0")
  have "nEntry (next_entry m s) = nEntry s" using next_entry_same [of s m] by (simp add: same_segment_def)
  then show ?case
    using Cons.prems Cons.IH [OF l] next_entry_stop [of m s] l by (auto simp: Let_def split: if_splits)
qed simp

lemma walIteratorNext_above:
  "walIteratorNext p f0 = (e, pg, f, p') \<Longrightarrow> iPrior p' = pg \<and> (e \<longleftrightarrow> pg = 0xFFFFFFFF) \<and> (e \<or> iPrior p < pg)"
  using next_loop_above [of "iPrior p" "aSegment p" f0]
  by (auto simp: walIteratorNext_def Let_def split: prod.splits)

lemma walIteratorNext_less:
  assumes "(False, y) = walIteratorNext p f" "(pg, z) = y" "(f', p') = z"
  shows "4294967296 - unat (iPrior p') < 4294967296 - unat (iPrior p)"
proof -
  have "iPrior p < iPrior p'" using walIteratorNext_above [of p f False pg f' p'] assms by auto
  then have "unat (iPrior p) < unat (iPrior p')" by (simp add: word_less_nat_alt)
  then show ?thesis using unsigned_less [of "iPrior p'", where ?'a = nat] by simp
qed

text \<open>The pages and frames in the order of the visits.\<close>

function iterator_walk :: "wal_iterator \<Rightarrow> nat \<Rightarrow> (u32 \<times> nat) list" where
  "iterator_walk p piFrame =
     (case walIteratorNext p piFrame of
        (True, _) \<Rightarrow> []
      | (False, pg, f, p) \<Rightarrow> (pg, f) # iterator_walk p f)"
  by pat_completeness auto
termination
  by (relation "measure (\<lambda>(p, f). 2 ^ 32 - unat (iPrior p))") (auto intro: walIteratorNext_less)

declare iterator_walk.simps [simp del]

definition iterator_rep :: "u32 list \<Rightarrow> nat \<Rightarrow> wal_iterator \<Rightarrow> bool" where
  "iterator_rep M h0 p \<longleftrightarrow> segments_rep M h0 0 (iPrior p) (aSegment p)"

lemma segments_rep_mono: "segments_rep M h0 h m ss \<Longrightarrow> m \<le> m' \<Longrightarrow> segments_rep M h0 h m' ss"
  unfolding segments_rep_def using segment_at_mono by metis

lemma walIteratorNext_ok:
  assumes "iterator_rep M h0 p" "walIteratorNext p f0 = (e, pg, f, p')"
  shows "iterator_rep M h0 p'" "e \<longleftrightarrow> pages_left M h0 (iPrior p) = {}" "next_is M h0 (iPrior p) pg f" "iPrior p' = pg"
proof -
  obtain ss where l: "next_loop (iPrior p) (aSegment p) 0xFFFFFFFF f0 = (pg, f, ss)" and p': "p' = \<lparr>iPrior = pg, aSegment = ss\<rparr>"
    and e: "e \<longleftrightarrow> pg = 0xFFFFFFFF"
    using assms(2) by (auto simp: walIteratorNext_def Let_def split: prod.splits)
  have r: "segments_rep M h0 0 (iPrior p) ss" "next_is M h0 (iPrior p) pg f"
    using next_loop_ok [of M h0 0, OF _ l] assms(1) by (simp_all add: iterator_rep_def)
  have "pg = 0xFFFFFFFF \<or> iPrior p < pg" by (rule next_loop_above [OF l])
  moreover have "iPrior p \<le> 0xFFFFFFFF" using unsigned_less [of "iPrior p", where ?'a = nat] by (simp add: word_le_nat_alt)
  ultimately have "iPrior p \<le> pg" by auto
  then show "iterator_rep M h0 p'" using segments_rep_mono [OF r(1)] by (simp add: iterator_rep_def p')
  show "next_is M h0 (iPrior p) pg f" by (rule r(2))
  then show "e \<longleftrightarrow> pages_left M h0 (iPrior p) = {}" unfolding e by (auto simp: next_is_def pages_left_def split: if_splits)
  show "iPrior p' = pg" by (simp add: p')
qed

lemma walIteratorNext_step:
  assumes "iterator_rep M h0 p" "walIteratorNext p f0 = (False, pg, f, p')"
  shows "iterator_rep M h0 p'" "iPrior p' = pg" "iPrior p < pg" "f = latest M (zero_of h0 + 1) (length M) pg"
    "pages_left M h0 (iPrior p) = insert pg (pages_left M h0 pg)"
proof -
  note ok = walIteratorNext_ok [OF assms]
  show "iterator_rep M h0 p'" "iPrior p' = pg" by (rule ok(1), rule ok(4))
  have pg: "pg \<in> pages_left M h0 (iPrior p)" "\<And>q. q \<in> pages_left M h0 (iPrior p) \<Longrightarrow> pg \<le> q"
    and f: "f = latest M (zero_of h0 + 1) (length M) pg"
    using ok(2,3) by (simp_all add: next_is_def)
  show "f = latest M (zero_of h0 + 1) (length M) pg" by (rule f)
  show "iPrior p < pg" using pg(1) by (simp add: pages_left_def)
  show "pages_left M h0 (iPrior p) = insert pg (pages_left M h0 pg)"
  proof (intro equalityI subsetI)
    fix q assume "q \<in> pages_left M h0 (iPrior p)"
    then show "q \<in> insert pg (pages_left M h0 pg)" using pg(2) [of q] by (auto simp: pages_left_def order_le_less)
  qed (use pg(1) in \<open>auto simp: pages_left_def\<close>)
qed

lemma iterator_walk_ok:
  "iterator_rep M h0 p \<Longrightarrow>
   sorted_wrt (<) (map fst (iterator_walk p f0)) \<and> fst ` set (iterator_walk p f0) = pages_left M h0 (iPrior p)
   \<and> (\<forall>(q, f) \<in> set (iterator_walk p f0). f = latest M (zero_of h0 + 1) (length M) q)"
proof (induction p f0 rule: iterator_walk.induct)
  case (1 p f0)
  obtain e pg f p' where n: "walIteratorNext p f0 = (e, pg, f, p')" by (cases "walIteratorNext p f0")
  show ?case
  proof (cases e)
    case True
    then show ?thesis using walIteratorNext_ok(2) [OF 1(2) n] n by (subst (1 2 3) iterator_walk.simps) simp
  next
    case False
    then have n': "walIteratorNext p f0 = (False, pg, f, p')" using n by simp
    note step = walIteratorNext_step [OF 1(2) n']
    have w: "iterator_walk p f0 = (pg, f) # iterator_walk p' f" using n' by (subst iterator_walk.simps) simp
    have "sorted_wrt (<) (map fst (iterator_walk p' f)) \<and> fst ` set (iterator_walk p' f) = pages_left M h0 pg
        \<and> (\<forall>(q, g) \<in> set (iterator_walk p' f). g = latest M (zero_of h0 + 1) (length M) q)"
      using 1(1) [OF n' [symmetric] _ refl refl] step(1,2) by simp
    then show ?thesis using step(4,5) unfolding w by (auto simp: pages_left_def)
  qed
qed

lemma latest_left:
  assumes "q \<in> pages_left (take n L) h0 m" "n \<le> length L"
  shows "latest (take n L) (zero_of h0 + 1) (length (take n L)) q = latest L 1 n q"
proof -
  have "q \<in> set (drop (zero_of h0) (take n L))" using assms(1) by (simp add: pages_left_def)
  from latest_suffix [OF this, of 0] have "latest (take n L) (zero_of h0 + 1) (length (take n L)) q = latest (take n L) 1 n q"
    using assms(2) by simp
  also have "\<dots> = latest L 1 n q" using latest_prefix [of n "take n L" "drop n L" 1 q] assms(2) by simp
  finally show ?thesis .
qed

section \<open>Starting\<close>

lemma length_part_take: "n \<le> length L \<Longrightarrow> zero_of h < n \<Longrightarrow> walFramePage n = k \<Longrightarrow> h \<le> k \<Longrightarrow>
    length (part h (take n L)) = (if h = k then n - zero_of h else npage h)"
  using walFramePage_bounds [of n] zero_of_mono [of "Suc h" k] by (auto simp: length_part zero_of_Suc)

lemma make_segment_ok:
  assumes L: "index_rep w L" "n \<le> length L" and h: "zero_of h < n"
    and k: "k = length (part h (take n L))"
  shows "\<exists>s. make_segment w (hash_loc h) k = Some s \<and> segment_rep (take n L) h s \<and> segment_at 0 s"
proof -
  let ?c = "\<lambda>j. aPgno w (hash_loc h) (j + 1)"
  have k': "0 < k" "k \<le> 4096" using h L(2) npage_bounds [of h] unfolding k length_part length_take by linarith+
  from walMergesort_correct [OF k', of "[0 ..< k]" ?c] obtain a m where
    s: "walMergesort ?c [0 ..< k] k = Some (a, m)" "length a = k" "m \<le> k" "last_of ?c {0 ..< k} (take m a)" by auto
  have t: "table_rep (npage h) (part h L) (aPgno w (hash_loc h)) (aHash w (hash_loc h))"
    using L h by (simp add: index_rep_def)
  have page: "?c j = part h (take n L) ! j" if "j < k" for j
  proof -
    have "j < length (part h L)" using that L(2) unfolding k length_part length_take by linarith
    then show ?thesis using table_repD(3) [OF t, of j] that L(2) k by (simp add: nth_part length_part)
  qed
  have "ascending ?c (take m a)" using s(4) by (simp add: last_of_def)
  then show ?thesis
    using s page unfolding make_segment_def
    by (simp add: segment_rep_def segment_at_def k [symmetric] zero_of_def [symmetric])
qed

lemma init_loop_ok:
  assumes L: "n \<le> length L" "0 < n" and k: "k = walFramePage n"
  shows "index_rep w L \<Longrightarrow> grants os w \<Longrightarrow> i \<le> k + 1 \<Longrightarrow> length ss = k + 1 \<Longrightarrow>
    \<exists>ss' w'. init_loop os w n (k + 1) [i ..< k + 1] ss = Some (SQLITE_OK, ss', w') \<and> same_view w w' \<and> length ss' = k + 1
      \<and> (\<forall>j < i. ss' ! j = ss ! j) \<and> (\<forall>j \<le> k. i \<le> j \<longrightarrow> segment_rep (take n L) j (ss' ! j) \<and> segment_at 0 (ss' ! j))"
proof (induction "k + 1 - i" arbitrary: i w ss)
  case 0
  then show ?case by (simp add: same_view_refl)
next
  case (Suc d)
  have i: "i \<le> k" using Suc(2) by simp
  have z: "zero_of i < n" using walFramePage_bounds [OF L(2)] zero_of_mono [OF i] k by simp
  obtain w1 where g: "walHashGet os w i = (SQLITE_OK, Some (hash_loc i), w1)" "same_view w w1"
    using walHashGet_granted [OF Suc(4)] by blast
  have len: "length (part i (take n L)) = (if i + 1 = k + 1 then n - iZero (hash_loc i) else HASHTABLE_NPAGE - loc_base (hash_loc i))"
    using length_part_take [OF L(1) z k [symmetric] i]
    by (auto simp: zero_of_def npage_def hash_loc_def HASHTABLE_NPAGE_ONE_def)
  obtain s where s: "make_segment w1 (hash_loc i) (length (part i (take n L))) = Some s"
    "segment_rep (take n L) i s" "segment_at 0 s"
    using make_segment_ok [OF index_rep_view [OF g(2) Suc(3)] L(1) z refl] by blast
  have "d = k + 1 - Suc i" "Suc i \<le> k + 1" "length (ss[i := s]) = k + 1" using Suc(2,6) i by simp_all
  from Suc(1) [OF this(1) index_rep_view [OF g(2) Suc(3)] same_view_grants [OF g(2) Suc(4)] this(2,3)]
  obtain ss' w' where r: "init_loop os w1 n (k + 1) [Suc i ..< k + 1] (ss[i := s]) = Some (SQLITE_OK, ss', w')"
    "same_view w1 w'" "length ss' = k + 1" "\<forall>j < Suc i. ss' ! j = ss[i := s] ! j"
    "\<forall>j \<le> k. Suc i \<le> j \<longrightarrow> segment_rep (take n L) j (ss' ! j) \<and> segment_at 0 (ss' ! j)" by blast
  have up: "[i ..< k + 1] = i # [Suc i ..< k + 1]" using i by (simp add: upt_conv_Cons del: upt_Suc)
  have "init_loop os w n (k + 1) [i ..< k + 1] ss = Some (SQLITE_OK, ss', w')"
    using g(1) s(1) r(1) unfolding up len by (simp del: upt_Suc)
  moreover have "ss' ! i = s" using r(4) Suc(6) i by simp
  ultimately show ?case using r same_view_trans [OF g(2) r(2)] s(2,3)
    by (auto simp: le_less [of i] Suc_le_eq)
qed

lemma walIteratorInit_ok:
  assumes L: "index_rep w L" "grants os w" "mxFrame w \<le> length L" and b: "nBackfill < mxFrame w"
  obtains p w' where "walIteratorInit os True True w nBackfill = Some (SQLITE_OK, Some p, w')" "same_view w w'"
    "iterator_rep (take (mxFrame w) L) (walFramePage (nBackfill + 1)) p" "iPrior p = 0"
proof -
  define k where "k = walFramePage (mxFrame w)"
  define h0 where "h0 = walFramePage (nBackfill + 1)"
  have n: "0 < mxFrame w" using b by simp
  have z: "zero_of k < mxFrame w" "mxFrame w \<le> zero_of (Suc k)"
    using walFramePage_bounds [OF n] by (simp_all add: k_def zero_of_Suc)
  have "zero_of h0 < nBackfill + 1" using walFramePage_bounds [of "nBackfill + 1"] by (simp add: h0_def)
  then have "zero_of h0 < zero_of (Suc k)" using b z by simp
  then have h0: "h0 \<le> k + 1" using zero_of_mono [of "Suc k" h0] by (metis Suc_eq_plus1 nat_le_linear not_le)
  from init_loop_ok [OF L(3) n k_def L(1,2) h0, of "replicate (k + 1) empty_segment"] obtain ss w' where
    r: "init_loop os w (mxFrame w) (k + 1) [h0 ..< k + 1] (replicate (k + 1) empty_segment) = Some (SQLITE_OK, ss, w')"
    "same_view w w'" "length ss = k + 1" "\<forall>j < h0. ss ! j = replicate (k + 1) empty_segment ! j"
    "\<forall>j \<le> k. h0 \<le> j \<longrightarrow> segment_rep (take (mxFrame w) L) j (ss ! j) \<and> segment_at 0 (ss ! j)" by auto
  have "nEntry (ss ! j) = 0" if "j < h0" "j < k + 1" for j
    using r(4) that by (simp add: empty_segment_def del: replicate_Suc)
  then have "segments_rep (take (mxFrame w) L) h0 0 0 ss"
    using r(3,5) z L(3) by (auto simp: segments_rep_def)
  then show thesis
    using that [of "\<lparr>iPrior = 0, aSegment = ss\<rparr>" w'] r(1,2)
    unfolding walIteratorInit_def Let_def k_def [symmetric] h0_def [symmetric] by (simp add: iterator_rep_def del: upt_Suc replicate_Suc)
qed

text \<open>The pages of the index are not 0.\<close>

lemma index_no_zero:
  assumes "index_rep w L"
  shows "0 \<notin> set L"
proof
  assume "0 \<in> set L"
  then obtain j where j: "j < length L" "L ! j = 0" by (auto simp: in_set_conv_nth)
  define h where "h = walFramePage (j + 1)"
  have h: "zero_of h \<le> j" "j < zero_of h + npage h" using walFramePage_bounds [of "j + 1"] by (simp_all add: h_def)
  then have "j - zero_of h < length (part h L)" using j(1) unfolding length_part by linarith
  then have "part h L ! (j - zero_of h) = 0" "part h L ! (j - zero_of h) \<in> set (part h L)"
    using nth_part [of "j - zero_of h" h L] h(1) j(2) nth_mem [of "j - zero_of h" "part h L"] by simp_all
  moreover have "0 \<notin> set (part h L)" using table_repD(2) assms h(1) j(1) unfolding index_rep_def by (metis order_le_less_trans)
  ultimately show False by simp
qed

lemma walk_latest:
  assumes "iterator_rep (take n L) h0 p" "n \<le> length L"
  shows "sorted_wrt (<) (map fst (iterator_walk p f0))"
    "fst ` set (iterator_walk p f0) = pages_left (take n L) h0 (iPrior p)"
    "(q, f) \<in> set (iterator_walk p f0) \<Longrightarrow> f = latest L 1 n q"
proof -
  note w = iterator_walk_ok [OF assms(1), of f0]
  show "sorted_wrt (<) (map fst (iterator_walk p f0))"
    "fst ` set (iterator_walk p f0) = pages_left (take n L) h0 (iPrior p)" using w by blast+
  assume q: "(q, f) \<in> set (iterator_walk p f0)"
  then have "q \<in> pages_left (take n L) h0 (iPrior p)" using w by force
  from latest_left [OF this assms(2)] show "f = latest L 1 n q" using w q by auto
qed

lemma latest_visited:
  assumes "n \<le> length L" "0 \<notin> set L" "nBackfill < latest L 1 n q" "q \<noteq> 0xFFFFFFFF"
  shows "q \<in> pages_left (take n L) (walFramePage (nBackfill + 1)) 0"
proof -
  let ?f = "latest L 1 n q" and ?h = "walFramePage (nBackfill + 1)"
  have f: "0 < ?f" "?f \<le> n" "L ! (?f - 1) = q" using assms(3) by (cases rule: latest_cases [of L 1 n q], simp_all)+
  have "zero_of ?h < nBackfill + 1" using walFramePage_bounds [of "nBackfill + 1"] by simp
  then have "zero_of ?h < ?f" using assms(3) by simp
  then have "take n L ! (?f - 1) \<in> set (drop (zero_of ?h) (take n L))" using f(2) assms(1) by (intro later_frame) simp_all
  moreover have "q \<in> set L" using f assms(1) nth_mem [of "?f - 1" L] by simp
  then have "0 < q" using assms(2) word_neq_0_conv [of q] by metis
  moreover have "q < 0xFFFFFFFF"
  proof -
    have "unat q \<noteq> unat (0xFFFFFFFF :: u32)" using assms(4) unsigned_word_eqI by blast
    then show ?thesis using unsigned_less [of q, where ?'a = nat] by (simp add: word_less_nat_alt)
  qed
  ultimately show ?thesis using f by (simp add: pages_left_def)
qed

text \<open>C26: The iterator of a checkpoint visits pages in ascending order, each once and with its latest
  frame, and misses no page whose latest frame is not backfilled\<close>

theorem iterator_visits_latest:
  assumes "index_rep w L" "grants os w" "mxFrame w \<le> length L" "nBackfill < mxFrame w"
  shows "\<exists>p w'. walIteratorInit os True True w nBackfill = Some (SQLITE_OK, Some p, w')
    \<and> sorted_wrt (<) (map fst (iterator_walk p 0))
    \<and> (\<forall>(q, f) \<in> set (iterator_walk p 0). f = latest L 1 (mxFrame w) q)
    \<and> (\<forall>q. nBackfill < latest L 1 (mxFrame w) q \<and> q \<noteq> 0xFFFFFFFF \<longrightarrow> q \<in> fst ` set (iterator_walk p 0))"
proof -
  obtain p w' where p: "walIteratorInit os True True w nBackfill = Some (SQLITE_OK, Some p, w')"
    "iterator_rep (take (mxFrame w) L) (walFramePage (nBackfill + 1)) p" "iPrior p = 0"
    using walIteratorInit_ok [OF assms] by blast
  note walk = walk_latest [OF p(2) assms(3), where ?f0.0 = 0]
  have "q \<in> fst ` set (iterator_walk p 0)" if "nBackfill < latest L 1 (mxFrame w) q" "q \<noteq> 0xFFFFFFFF" for q
    using latest_visited [OF assms(3) index_no_zero [OF assms(1)] that] walk(2) p(3) by simp
  then show ?thesis using p(1) walk(1,3) by (intro exI [of _ p] exI [of _ w']) auto
qed

lemma demo_index:
  obtains w where "wal_run demo_wal_os demo_wal_ops demo_wal = Some w" "index_rep w [5, 7, 5, 5, 9]"
    "grants demo_wal_os w" "mxFrame w = 5"
proof -
  obtain w where w: "wal_run demo_wal_os demo_wal_ops demo_wal = Some w" "wal_rep w ([5, 7, 5], [5, 9])" "grants demo_wal_os w"
    using wal_run_refines [OF new_wal_rep [OF demo_wal_facts(1)] demo_wal_facts(2,4)] by blast
  then have "index_rep w [5, 7, 5, 5, 9]" "mxFrame w = 5" unfolding wal_rep_def by auto
  then show thesis using that w(1,3) by blast
qed

lemma iterator_visits_latest_witness:
  "\<exists>w p w' f. wal_run demo_wal_os demo_wal_ops demo_wal = Some w
    \<and> walIteratorInit demo_wal_os True True w 1 = Some (SQLITE_OK, Some p, w')
    \<and> (5, 4) \<in> set (iterator_walk p 0)"
proof -
  obtain w where w: "wal_run demo_wal_os demo_wal_ops demo_wal = Some w" "index_rep w [5, 7, 5, 5, 9]"
    "grants demo_wal_os w" "mxFrame w = 5" by (rule demo_index)
  from iterator_visits_latest [OF w(2,3), of 1] obtain p w' where
    p: "walIteratorInit demo_wal_os True True w 1 = Some (SQLITE_OK, Some p, w')"
    "\<forall>(q, f) \<in> set (iterator_walk p 0). f = latest [5, 7, 5, 5, 9] 1 5 q"
    "\<forall>q. 1 < latest [5, 7, 5, 5, 9] 1 5 q \<and> q \<noteq> 0xFFFFFFFF \<longrightarrow> q \<in> fst ` set (iterator_walk p 0)"
    unfolding w(4) by auto
  have "(5 :: u32) \<in> fst ` set (iterator_walk p 0)" using p(3) [rule_format, of 5] unfolding demo_latest by simp
  then have "(5, 4) \<in> set (iterator_walk p 0)" using p(2) demo_latest(1) by fastforce
  then show ?thesis using w(1) p(1) by blast
qed

end
