(* ===== verification/WalFrame.thy ===== *)
theory WalFrame
  imports Varint WalIndex
begin

text \<open>
  The file of the write-ahead log (\<open>wal.c\<close>): running checksums, the encoding and decoding of a
  frame, and the copy of the header in shared memory.  The byte order of the machine
  (\<open>SQLITE_BIGENDIAN\<close>) is the argument \<open>be\<close> of the definitions that read memory as words.  The
  number of frames in the header is the field \<open>mxFrame\<close> of the index; the other fields of
  \<open>WalIndexHdr\<close> are the record \<open>wal_hdr\<close>.
\<close>

section \<open>State\<close>

record wal_hdr =
  iVersion :: u32
  iChange :: u32
  isInit :: bool
  bigEndCksum :: bool
  szPage16 :: u16           \<comment> \<open>\<open>szPage\<close>, 1 for 65536\<close>
  nPage :: u32
  aFrameCksum :: "u32 \<times> u32"
  aSalt :: "u8 list"        \<comment> \<open>8 bytes\<close>
  aCksum :: "u32 \<times> u32"

record walCkptInfo =
  nBackfill :: nat
  aReadMark :: "nat \<Rightarrow> nat"
  nBackfillAttempted :: nat

record wal_log =
  index :: wal
  hdr :: wal_hdr
  live_hdr :: wal_hdr       \<comment> \<open>the header in shared memory, at the first of its two places\<close>
  second_hdr :: "wal_hdr \<times> nat" \<comment> \<open>the second copy, with \<open>mxFrame\<close>\<close>
  info :: walCkptInfo       \<comment> \<open>in shared memory\<close>
  szPage :: nat
  ckptLock :: nat
  iCallback :: nat          \<comment> \<open>the value for the hook of the log\<close>
  iReCksum :: nat
  truncateOnCommit :: bool
  syncHeader :: bool
  padToSectorBoundary :: bool
  mxWalSize :: int
  pWalFd :: "u8 list"       \<comment> \<open>the content of the file\<close>
  calls :: nat              \<comment> \<open>the number of calls of the system and accesses to shared memory\<close>

definition WAL_NREADER :: nat where "WAL_NREADER = 8 - 3"
definition READMARK_NOT_USED :: nat where "READMARK_NOT_USED = 0xffffffff"
definition WAL_FRAME_HDRSIZE :: nat where "WAL_FRAME_HDRSIZE = 24"
definition WAL_HDRSIZE :: nat where "WAL_HDRSIZE = 32"
definition WAL_MAGIC :: u32 where "WAL_MAGIC = 0x377f0682"
definition WAL_MAX_VERSION :: u32 where "WAL_MAX_VERSION = 3007000"
definition WALINDEX_MAX_VERSION :: u32 where "WALINDEX_MAX_VERSION = 3007000"

definition walFrameOffset :: "nat \<Rightarrow> nat \<Rightarrow> nat" where
  "walFrameOffset iFrame sz = WAL_HDRSIZE + (iFrame - 1) * (sz + WAL_FRAME_HDRSIZE)"

section \<open>Checksums\<close>

definition BYTESWAP32 :: "u32 \<Rightarrow> u32" where
  "BYTESWAP32 x = push_bit 24 (x AND 0x000000FF) + push_bit 8 (x AND 0x0000FF00)
     + drop_bit 8 (x AND 0x00FF0000) + drop_bit 24 (x AND 0xFF000000)"

text \<open>Memory as an array of words of the machine.\<close>

definition native_word :: "bool \<Rightarrow> u8 \<Rightarrow> u8 \<Rightarrow> u8 \<Rightarrow> u8 \<Rightarrow> u32" where
  "native_word be b0 b1 b2 b3 =
     (if be then push_bit 24 (ucast b0) OR push_bit 16 (ucast b1) OR push_bit 8 (ucast b2) OR ucast b3
      else push_bit 24 (ucast b3) OR push_bit 16 (ucast b2) OR push_bit 8 (ucast b1) OR ucast b0)"

fun native_words :: "bool \<Rightarrow> u8 list \<Rightarrow> u32 list" where
  "native_words be (b0 # b1 # b2 # b3 # bs) = native_word be b0 b1 b2 b3 # native_words be bs"
| "native_words be _ = []"

text \<open>The do-while loops of \<open>walChecksumBytes\<close>, with \<open>f\<close> for the byte order.\<close>

fun cksum_loop :: "(u32 \<Rightarrow> u32) \<Rightarrow> u32 list \<Rightarrow> u32 \<times> u32 \<Rightarrow> u32 \<times> u32" where
  "cksum_loop f (x # y # aData) (s1, s2) =
     (let s1 = s1 + (f x + s2); s2 = s2 + (f y + s1) in cksum_loop f aData (s1, s2))"
| "cksum_loop f _ s = s"

text \<open>\<open>None\<close> stands for a read behind the end of the buffer.\<close>

definition walChecksumBytes :: "bool \<Rightarrow> bool \<Rightarrow> u8 list \<Rightarrow> nat \<Rightarrow> u32 \<times> u32 \<Rightarrow> (u32 \<times> u32) option" where
  "walChecksumBytes be nativeCksum a nByte aIn =
     (if length a < nByte then None
      else Some (cksum_loop (if nativeCksum then \<lambda>x. x else BYTESWAP32) (native_words be (take nByte a)) aIn))"

section \<open>Frames\<close>

definition walEncodeFrame :: "bool \<Rightarrow> wal_log \<Rightarrow> u32 \<Rightarrow> u32 \<Rightarrow> u8 list \<Rightarrow> (u8 list \<times> wal_log) option" where
  "walEncodeFrame be w iPage nTruncate aData =
     (let aFrame = sqlite3Put4byte iPage @ sqlite3Put4byte nTruncate in
      if iReCksum w = 0 then do {
        let nativeCksum = (bigEndCksum (hdr w) = be);
        aCksum \<leftarrow> walChecksumBytes be nativeCksum aFrame 8 (aFrameCksum (hdr w));
        aCksum \<leftarrow> walChecksumBytes be nativeCksum aData (szPage w) aCksum;
        Some (aFrame @ aSalt (hdr w) @ sqlite3Put4byte (fst aCksum) @ sqlite3Put4byte (snd aCksum),
              w\<lparr>hdr := (hdr w)\<lparr>aFrameCksum := aCksum\<rparr>\<rparr>)
      }
      else Some (aFrame @ replicate 16 0, w))"

text \<open>The page number and the new size of the database of a valid frame.  The buffer has the
  header and behind it the page, as in both callers.\<close>

definition walDecodeFrame :: "bool \<Rightarrow> wal_log \<Rightarrow> u8 list \<Rightarrow> ((u32 \<times> u32) option \<times> wal_log) option" where
  "walDecodeFrame be w aFrame =
     (if aSalt (hdr w) \<noteq> take 8 (drop 8 aFrame) then Some (None, w)
      else do {
        pgno \<leftarrow> sqlite3Get4byte aFrame;
        if pgno = 0 then Some (None, w)
        else do {
          let nativeCksum = (bigEndCksum (hdr w) = be);
          aCksum \<leftarrow> walChecksumBytes be nativeCksum aFrame 8 (aFrameCksum (hdr w));
          aCksum \<leftarrow> walChecksumBytes be nativeCksum (drop WAL_FRAME_HDRSIZE aFrame) (szPage w) aCksum;
          let w = w\<lparr>hdr := (hdr w)\<lparr>aFrameCksum := aCksum\<rparr>\<rparr>;
          c1 \<leftarrow> sqlite3Get4byte (drop 16 aFrame);
          c2 \<leftarrow> sqlite3Get4byte (drop 20 aFrame);
          if fst aCksum \<noteq> c1 \<or> snd aCksum \<noteq> c2 then Some (None, w)
          else do {
            nTruncate \<leftarrow> sqlite3Get4byte (drop 4 aFrame);
            Some (Some (pgno, nTruncate), w)
          }
        }
      })"

section \<open>The header in shared memory\<close>

text \<open>The bytes of the header before its checksum: a structure without padding.\<close>

definition native_bytes :: "bool \<Rightarrow> u32 \<Rightarrow> u8 list" where
  "native_bytes be v = (if be then sqlite3Put4byte v else rev (sqlite3Put4byte v))"

definition hdr_bytes :: "bool \<Rightarrow> wal_hdr \<Rightarrow> nat \<Rightarrow> u8 list" where
  "hdr_bytes be h mx = native_bytes be (iVersion h) @ native_bytes be 0 @ native_bytes be (iChange h)
     @ [of_bool (isInit h), of_bool (bigEndCksum h)]
     @ (let sz = [ucast (drop_bit 8 (szPage16 h)), ucast (szPage16 h)] in if be then sz else rev sz)
     @ native_bytes be (of_nat mx) @ native_bytes be (nPage h)
     @ native_bytes be (fst (aFrameCksum h)) @ native_bytes be (snd (aFrameCksum h)) @ aSalt h"

definition walIndexWriteHdr :: "bool \<Rightarrow> wal_log \<Rightarrow> wal_log option" where
  "walIndexWriteHdr be w = do {
     let h = (hdr w)\<lparr>isInit := True, iVersion := WALINDEX_MAX_VERSION\<rparr>;
     c \<leftarrow> walChecksumBytes be True (hdr_bytes be h (mxFrame (index w))) 40 (0, 0);
     let h = h\<lparr>aCksum := c\<rparr>;
     Some (w\<lparr>hdr := h, second_hdr := (h, mxFrame (index w)), live_hdr := h, index := (index w)\<lparr>live_mxFrame := mxFrame (index w)\<rparr>\<rparr>)
   }"

text \<open>The size of a page as the header has it, and back.\<close>

definition hdr_pagesize :: "nat \<Rightarrow> u16" where
  "hdr_pagesize n = (let sz = of_nat n :: u32 in ucast ((sz AND 0xff00) OR drop_bit 16 sz))"

definition walPagesize :: "u16 \<Rightarrow> nat" where
  "walPagesize sz = unat ((ucast sz AND 0xfe00 :: u32) + push_bit 16 (ucast sz AND 0x0001))"

section \<open>Byte order\<close>

text \<open>The checksums of the file do not depend on the machine: they are sums of words in the
  byte order that the magic number of the file names.\<close>

lemma BYTESWAP32_or: "BYTESWAP32 x = push_bit 24 (x AND 0xFF) OR push_bit 8 (x AND 0xFF00)
   OR drop_bit 8 (x AND 0xFF0000) OR drop_bit 24 (x AND 0xFF000000)"
proof -
  let ?a = "push_bit 24 (x AND 0xFF)" and ?b = "push_bit 8 (x AND 0xFF00)"
    and ?c = "drop_bit 8 (x AND 0xFF0000)" and ?d = "drop_bit 24 (x AND 0xFF000000)"
  have "?a AND ?b = 0" "(?a OR ?b) AND ?c = 0" "(?a OR ?b OR ?c) AND ?d = 0"
    by (rule u32_eqI; simp add: bit_simps)+
  then show ?thesis unfolding BYTESWAP32_def by (simp add: disjunctive_add_eq_or or.assoc)
qed

lemma BYTESWAP32_native: "BYTESWAP32 (native_word be b0 b1 b2 b3) = native_word (\<not> be) b0 b1 b2 b3"
  unfolding BYTESWAP32_or native_word_def
  by (cases be; rule u32_eqI; simp add: bit_simps bytes)

lemma map_BYTESWAP32: "map BYTESWAP32 (native_words be a) = native_words (\<not> be) a"
  by (induction be a rule: native_words.induct) (simp_all add: BYTESWAP32_native)

text \<open>The sums over the words, whatever reads them.\<close>

abbreviation fletcher :: "u32 list \<Rightarrow> u32 \<times> u32 \<Rightarrow> u32 \<times> u32" where
  "fletcher \<equiv> cksum_loop (\<lambda>x. x)"

lemma cksum_loop_map: "cksum_loop f ws s = fletcher (map f ws) s"
  by (induction f ws s rule: cksum_loop.induct) (simp_all add: Let_def)

lemma walChecksumBytes_file:
  "walChecksumBytes be (c = be) a n s =
     (if length a < n then None else Some (fletcher (native_words c (take n a)) s))"
  using map_BYTESWAP32 [of be "take n a"]
  by (cases "c = be") (auto simp: walChecksumBytes_def cksum_loop_map [of BYTESWAP32])

section \<open>What a checksum detects\<close>

text \<open>The sums of equal words after different sums differ.\<close>

lemma fletcher_step: "fletcher (x # y # ws) (s1, s2) = fletcher ws (s1 + (x + s2), s2 + (y + (s1 + (x + s2))))"
  by (simp only: cksum_loop.simps Let_def)

lemma fletcher_inj: "fletcher ws s = fletcher ws s' \<Longrightarrow> even (length ws) \<Longrightarrow> s = s'"
proof (induction ws arbitrary: s s' rule: induct_list012)
  case (3 x y ws)
  obtain s1 s2 t1 t2 where s: "s = (s1, s2)" "s' = (t1, t2)" by (cases s, cases s')
  have "even (length ws)" using 3(4) by simp
  with 3(1) [OF 3(3) [unfolded s fletcher_step]]
  have e: "s1 + (x + s2) = t1 + (x + t2)" and f: "s2 + (y + (s1 + (x + s2))) = t2 + (y + (t1 + (x + t2)))"
    by blast+
  from f have "s2 = t2" unfolding e by (rule add_right_imp_eq)
  with e show ?case by (simp add: s)
qed simp_all

lemma fletcher_append: "even (length us) \<Longrightarrow> fletcher (us @ ws) s = fletcher ws (fletcher us s)"
  by (induction "\<lambda>x :: u32. x" us s rule: cksum_loop.induct) (simp_all add: Let_def)

lemma fletcher_group: "fletcher [x, y] s = fletcher [x', y'] s \<Longrightarrow> x = x' \<and> y = y'"
  by (cases s) (auto simp: Let_def)

lemma native_words_append: "4 dvd length a \<Longrightarrow> native_words be (a @ bs) = native_words be a @ native_words be bs"
proof (induction be a rule: native_words.induct)
  case (1 be b0 b1 b2 b3 a)
  have "4 dvd length a" using 1(2) by (simp add: dvd_def) presburger
  then show ?case using 1(1) by simp
qed (auto dest: dvd_imp_le)

lemma length_native_words: "length (native_words be a) = length a div 4"
  by (induction be a rule: native_words.induct) simp_all

lemma native_bytes_word: "native_bytes be (native_word be a b c d) = [a, b, c, d]"
proof -
  let ?v = "push_bit 24 (ucast a) OR push_bit 16 (ucast b) OR push_bit 8 (ucast c) OR ucast d :: u32"
  have "sqlite3Put4byte (push_bit 24 (ucast a) OR push_bit 16 (ucast b) OR push_bit 8 (ucast c) OR ucast d) = [a, b, c, d]"
    for a b c d :: u8
    unfolding sqlite3Put4byte_def list.inject
    by (intro conjI refl; rule bit_word_eqI) (auto simp: bit_simps bit_u8_beyond)
  then show ?thesis by (simp add: native_bytes_def native_word_def)
qed

lemma native_words_inj:
  "native_words be a = native_words be a' \<Longrightarrow> length a = length a' \<Longrightarrow> 4 dvd length a \<Longrightarrow> a = a'"
proof (induction be a arbitrary: a' rule: native_words.induct)
  case (1 be b0 b1 b2 b3 a)
  obtain c0 c1 c2 c3 a'' where a': "a' = c0 # c1 # c2 # c3 # a''"
    using 1(3) by (auto simp: length_Suc_conv Suc_length_conv)
  have "4 dvd length a" using 1(4) by (simp add: dvd_def) presburger
  then have "a = a''" using 1 by (simp add: a')
  moreover have "[b0, b1, b2, b3] = [c0, c1, c2, c3]"
    using 1(2) unfolding a' native_words.simps by (metis list.inject native_bytes_word)
  ultimately show ?case by (simp add: a')
qed (auto dest: dvd_imp_le)

text \<open>One group of eight bytes.\<close>

lemma cksum_group:
  assumes "length g = 8" "length g' = 8" "fletcher (native_words c g) s = fletcher (native_words c g') s"
  shows "g = g'"
proof -
  have two: "\<exists>x y. native_words c h = [x, y]" if "length h = 8" for h
  proof -
    have "length (native_words c h) = 2" by (simp add: length_native_words that)
    then show ?thesis by (auto simp: length_Suc_conv numeral_2_eq_2)
  qed
  obtain x y x' y' where w: "native_words c g = [x, y]" "native_words c g' = [x', y']"
    using two assms(1,2) by metis
  have "native_words c g = native_words c g'"
    using fletcher_group [of x y s x' y'] assms(3) by (simp add: w)
  then show ?thesis using native_words_inj [of c g g'] assms(1,2) by simp
qed

lemma cksum_detects:
  assumes "8 dvd length pre" "8 dvd length post" "length g = 8" "length g' = 8"
    and "fletcher (native_words c (pre @ g @ post)) s = fletcher (native_words c (pre @ g' @ post)) s"
  shows "g = g'"
proof -
  have d: "4 dvd length pre" "4 dvd length g" "4 dvd length g'"
    using assms(1,3,4) dvd_trans [of 4 8 "length pre"] by simp_all
  have ev: "even (length (native_words c h))" if "8 dvd length h" for h
    using that by (simp add: length_native_words) (auto simp: dvd_def)
  have ev': "even (length (native_words c pre))" "even (length (native_words c g))" "even (length (native_words c g'))"
    "even (length (native_words c post))" using ev assms(1-4) by simp_all
  have "fletcher (native_words c g) (fletcher (native_words c pre) s) =
      fletcher (native_words c g') (fletcher (native_words c pre) s)"
    using assms(5) fletcher_inj [OF _ ev'(4)] by (simp add: native_words_append d fletcher_append ev'(1-3))
  then show ?thesis by (rule cksum_group [OF assms(3,4)])
qed

section \<open>Encoding and decoding\<close>

text \<open>The checksum after a frame: over the page number, the size, and the page.\<close>

definition frame_cksum :: "bool \<Rightarrow> u32 \<Rightarrow> u32 \<Rightarrow> u8 list \<Rightarrow> u32 \<times> u32 \<Rightarrow> u32 \<times> u32" where
  "frame_cksum c pgno nTruncate aData s = fletcher (native_words c aData)
     (fletcher (native_words c (sqlite3Put4byte pgno @ sqlite3Put4byte nTruncate)) s)"

lemma length_put4 [simp]: "length (sqlite3Put4byte v) = 4"
  by (simp add: sqlite3Put4byte_def)

text \<open>What the frame of a page is in the file, given the checksum before it.\<close>

definition frame_bytes :: "bool \<Rightarrow> u8 list \<Rightarrow> u32 \<times> u32 \<Rightarrow> u32 \<Rightarrow> u32 \<Rightarrow> u8 list \<Rightarrow> u8 list" where
  "frame_bytes c salt s pgno nTruncate aData =
     (let s' = frame_cksum c pgno nTruncate aData s in
      sqlite3Put4byte pgno @ sqlite3Put4byte nTruncate @ salt @ sqlite3Put4byte (fst s') @ sqlite3Put4byte (snd s') @ aData)"

lemma length_frame_bytes: "length salt = 8 \<Longrightarrow> length (frame_bytes c salt s p n d) = WAL_FRAME_HDRSIZE + length d"
  by (simp add: frame_bytes_def Let_def WAL_FRAME_HDRSIZE_def)

lemma walEncodeFrame_bytes:
  assumes "iReCksum w = 0" "length d = szPage w"
  shows "\<exists>f. walEncodeFrame be w p n d = Some (f, w\<lparr>hdr := (hdr w)\<lparr>aFrameCksum :=
       frame_cksum (bigEndCksum (hdr w)) p n d (aFrameCksum (hdr w))\<rparr>\<rparr>)
     \<and> f @ d = frame_bytes (bigEndCksum (hdr w)) (aSalt (hdr w)) (aFrameCksum (hdr w)) p n d"
  using assms by (simp add: walEncodeFrame_def Let_def walChecksumBytes_file frame_bytes_def frame_cksum_def)

lemma get4_value: "sqlite3Get4byte a = Some v \<Longrightarrow> take 4 a = sqlite3Put4byte v"
proof -
  assume v: "sqlite3Get4byte a = Some v"
  then obtain b0 b1 b2 b3 bs where a: "a = b0 # b1 # b2 # b3 # bs"
    using get4_bound [OF v] by (auto simp: Suc_le_length_iff numeral_eq_Suc)
  then have "v = native_word True b0 b1 b2 b3"
    using v by (simp add: sqlite3Get4byte_def u32_at_def native_word_def)
  then show ?thesis using native_bytes_word [of True b0 b1 b2 b3] by (simp add: a native_bytes_def)
qed

lemma get4_total: "4 \<le> length a \<Longrightarrow> \<exists>v. sqlite3Get4byte a = Some v"
  by (auto simp: sqlite3Get4byte_def u32_at_def byte_at_def)

lemma split_header: "f = take 8 f @ take 8 (drop 8 f) @ take 8 (drop 16 f) @ drop 24 f" for f :: "u8 list"
  using append_take_drop_id [of 8 f] append_take_drop_id [of 8 "drop 8 f"] append_take_drop_id [of 8 "drop 16 f"]
  by simp

lemma split_cksum: "take 8 (drop 16 f) = take 4 (drop 16 f) @ take 4 (drop 20 f)" for f :: "u8 list"
  using take_add [of 4 4 "drop 16 f"] by simp

text \<open>A valid frame is what the encoder writes after the checksum before it, and nothing else is.\<close>

lemma walDecodeFrame_cases:
  assumes len: "length f = WAL_FRAME_HDRSIZE + szPage w"
  obtains (ok) p n where "walDecodeFrame be w f = Some (Some (p, n), w\<lparr>hdr := (hdr w)\<lparr>aFrameCksum :=
         frame_cksum (bigEndCksum (hdr w)) p n (drop WAL_FRAME_HDRSIZE f) (aFrameCksum (hdr w))\<rparr>\<rparr>)"
       "p \<noteq> 0" "f = frame_bytes (bigEndCksum (hdr w)) (aSalt (hdr w)) (aFrameCksum (hdr w)) p n (drop WAL_FRAME_HDRSIZE f)"
     | (bad) w' where "walDecodeFrame be w f = Some (None, w')"
proof (cases "aSalt (hdr w) = take 8 (drop 8 f)")
  case False
  then show thesis using bad [of w] by (simp add: walDecodeFrame_def)
next
  case salt: True
  have l: "24 \<le> length f" using len by (simp add: WAL_FRAME_HDRSIZE_def)
  obtain p n c1 c2 where g: "sqlite3Get4byte f = Some p" "sqlite3Get4byte (drop 4 f) = Some n"
    "sqlite3Get4byte (drop 16 f) = Some c1" "sqlite3Get4byte (drop 20 f) = Some c2"
    using l get4_total [of f] get4_total [of "drop 4 f"] get4_total [of "drop 16 f"] get4_total [of "drop 20 f"]
    unfolding length_drop by force
  let ?d = "drop WAL_FRAME_HDRSIZE f" and ?c = "bigEndCksum (hdr w)"
  let ?s = "frame_cksum ?c p n ?d (aFrameCksum (hdr w))"
  have t8: "take 8 f = sqlite3Put4byte p @ sqlite3Put4byte n"
    using take_add [of 4 4 f] get4_value [OF g(1)] get4_value [OF g(2)] by simp
  show thesis
  proof (cases "p = 0 \<or> ?s \<noteq> (c1, c2)")
    case True
    have "\<exists>w'. walDecodeFrame be w f = Some (None, w')"
    proof (cases "p = 0")
      case True
      then show ?thesis using salt g by (simp add: walDecodeFrame_def)
    next
      case False
      then have "fst ?s \<noteq> c1 \<or> snd ?s \<noteq> c2" using True by (auto simp: prod_eq_iff)
      then show ?thesis using False l len salt g
        by (simp add: walDecodeFrame_def Let_def walChecksumBytes_file t8 frame_cksum_def)
    qed
    then show thesis using bad by blast
  next
    case False
    have "f = take 8 f @ take 8 (drop 8 f) @ (take 4 (drop 16 f) @ take 4 (drop 20 f)) @ ?d"
      unfolding split_cksum [symmetric] WAL_FRAME_HDRSIZE_def by (rule split_header)
    then have "f = frame_bytes ?c (aSalt (hdr w)) (aFrameCksum (hdr w)) p n ?d"
      using False unfolding t8 salt [symmetric] get4_value [OF g(3)] get4_value [OF g(4)] frame_bytes_def Let_def by simp
    moreover have "walDecodeFrame be w f = Some (Some (p, n), w\<lparr>hdr := (hdr w)\<lparr>aFrameCksum := ?s\<rparr>\<rparr>)"
      using False l len salt g
      by (simp add: walDecodeFrame_def Let_def walChecksumBytes_file t8 frame_cksum_def)
    ultimately show thesis using ok False by blast
  qed
qed

lemma hdr_same: "\<exists>s1 s2. w = w\<lparr>hdr := (hdr w)\<lparr>aFrameCksum := (s1, s2)\<rparr>\<rparr>"
  by (rule exI [of _ "fst (aFrameCksum (hdr w))"], rule exI [of _ "snd (aFrameCksum (hdr w))"]) simp

lemma walDecodeFrame_changes:
  "walDecodeFrame be w f = Some (x, w') \<Longrightarrow> \<exists>s. w' = w\<lparr>hdr := (hdr w)\<lparr>aFrameCksum := s\<rparr>\<rparr>"
  unfolding walDecodeFrame_def Let_def
  by (auto split: if_splits Option.bind_splits intro: hdr_same)

lemma walDecodeFrame_bytes:
  assumes "length d = szPage w" "length (aSalt (hdr w)) = 8" "p \<noteq> 0"
  shows "walDecodeFrame be w (frame_bytes (bigEndCksum (hdr w)) (aSalt (hdr w)) (aFrameCksum (hdr w)) p n d) =
    Some (Some (p, n), w\<lparr>hdr := (hdr w)\<lparr>aFrameCksum :=
       frame_cksum (bigEndCksum (hdr w)) p n d (aFrameCksum (hdr w))\<rparr>\<rparr>)"
proof -
  let ?c = "bigEndCksum (hdr w)"
  let ?s = "frame_cksum ?c p n d (aFrameCksum (hdr w))"
  let ?f = "frame_bytes ?c (aSalt (hdr w)) (aFrameCksum (hdr w)) p n d"
  have f: "?f = sqlite3Put4byte p @ sqlite3Put4byte n @ aSalt (hdr w) @ sqlite3Put4byte (fst ?s) @ sqlite3Put4byte (snd ?s) @ d"
    by (simp add: frame_bytes_def Let_def)
  have p: "take 8 ?f = sqlite3Put4byte p @ sqlite3Put4byte n" "take 8 (drop 8 ?f) = aSalt (hdr w)" "drop WAL_FRAME_HDRSIZE ?f = d"
    "sqlite3Get4byte ?f = Some p" "sqlite3Get4byte (drop 4 ?f) = Some n"
    "sqlite3Get4byte (drop 16 ?f) = Some (fst ?s)" "sqlite3Get4byte (drop 20 ?f) = Some (snd ?s)" "8 \<le> length ?f"
    using assms(2) by (simp_all add: f get4_put4 WAL_FRAME_HDRSIZE_def)
  show ?thesis
    using assms(1,3) p by (simp add: walDecodeFrame_def Let_def walChecksumBytes_file frame_cksum_def)
qed

text \<open>A change within one group of eight bytes, wherever it is, makes a frame invalid.\<close>

lemma frame_parts:
  assumes "length salt = 8"
  shows "take 8 (frame_bytes c salt s p n d) = sqlite3Put4byte p @ sqlite3Put4byte n"
    "take 8 (drop 8 (frame_bytes c salt s p n d)) = salt"
    "take 8 (drop 16 (frame_bytes c salt s p n d)) =
       sqlite3Put4byte (fst (frame_cksum c p n d s)) @ sqlite3Put4byte (snd (frame_cksum c p n d s))"
    "drop 24 (frame_bytes c salt s p n d) = d"
  using assms by (simp_all add: frame_bytes_def Let_def)

lemma put4_inj: "sqlite3Put4byte a @ sqlite3Put4byte b = sqlite3Put4byte a' @ sqlite3Put4byte b' \<Longrightarrow> a = a' \<and> b = b'"
  using get4_put4 by (metis append_eq_append_conv length_put4 option.inject)

lemma frame_cksum_inj:
  assumes "frame_cksum c p n d s = frame_cksum c p' n' d s" "8 dvd length d"
  shows "p = p' \<and> n = n'"
proof -
  have ev: "even (length (native_words c d))"
    using assms(2) by (simp add: length_native_words) (auto simp: dvd_def)
  have "fletcher (native_words c (sqlite3Put4byte p @ sqlite3Put4byte n)) s =
      fletcher (native_words c (sqlite3Put4byte p' @ sqlite3Put4byte n')) s"
    using assms(1) fletcher_inj [OF _ ev] by (simp add: frame_cksum_def)
  then have "sqlite3Put4byte p @ sqlite3Put4byte n = sqlite3Put4byte p' @ sqlite3Put4byte n'"
    by (rule cksum_group [rotated 2]) simp_all
  then show ?thesis by (rule put4_inj)
qed

lemma valid_frame_parts:
  assumes "length f = WAL_FRAME_HDRSIZE + szPage w" "walDecodeFrame be w f = Some (Some x, w')"
  shows "length (aSalt (hdr w)) = 8"
    "\<exists>p n. f = frame_bytes (bigEndCksum (hdr w)) (aSalt (hdr w)) (aFrameCksum (hdr w)) p n (drop 24 f)"
proof -
  show x: "\<exists>p n. f = frame_bytes (bigEndCksum (hdr w)) (aSalt (hdr w)) (aFrameCksum (hdr w)) p n (drop 24 f)"
  proof (cases rule: walDecodeFrame_cases [OF assms(1), of be, case_names ok bad])
    case (ok p n)
    then show ?thesis unfolding WAL_FRAME_HDRSIZE_def by blast
  qed (use assms(2) in simp)
  then obtain p n where "f = frame_bytes (bigEndCksum (hdr w)) (aSalt (hdr w)) (aFrameCksum (hdr w)) p n (drop 24 f)"
    by blast
  then have "length f = length (frame_bytes (bigEndCksum (hdr w)) (aSalt (hdr w)) (aFrameCksum (hdr w)) p n (drop 24 f))"
    by (rule arg_cong)
  then show "length (aSalt (hdr w)) = 8"
    using assms(1) by (simp add: WAL_FRAME_HDRSIZE_def frame_bytes_def Let_def)
qed

text \<open>C23: A valid frame in which one aligned group of eight bytes is changed, wherever it lies in the
  header or the page, is rejected\<close>

theorem corruption_detected:
  assumes len: "length (pre @ g @ post) = WAL_FRAME_HDRSIZE + szPage w" "8 dvd szPage w"
    and ok: "walDecodeFrame be w (pre @ g @ post) = Some (Some x, w')"
    and g: "8 dvd length pre" "length g = 8" "length g' = 8" "g' \<noteq> g"
  shows "\<exists>w'. walDecodeFrame be w (pre @ g' @ post) = Some (None, w')"
proof (rule ccontr)
  assume bad: "\<not> ?thesis"
  define f where "f = pre @ g @ post"
  define f' where "f' = pre @ g' @ post"
  let ?c = "bigEndCksum (hdr w)" and ?salt = "aSalt (hdr w)" and ?s = "aFrameCksum (hdr w)"
  have len': "length f = WAL_FRAME_HDRSIZE + szPage w" "length f' = WAL_FRAME_HDRSIZE + szPage w"
    using len g by (simp_all add: f_def f'_def)
  have "walDecodeFrame be w f = Some (Some x, w')" using ok by (simp only: f_def)
  note valid = valid_frame_parts [OF len'(1) this]
  obtain y w'' where "walDecodeFrame be w f' = Some (Some y, w'')"
    using walDecodeFrame_cases [OF len'(2), of be] bad unfolding f'_def by metis
  note valid' = valid_frame_parts [OF len'(2) this]
  obtain p n p' n' where
    x: "f = frame_bytes ?c ?salt ?s p n (drop 24 f)" "f' = frame_bytes ?c ?salt ?s p' n' (drop 24 f')"
    using valid(2) valid'(2) by blast
  note parts = frame_parts [OF valid(1), of ?c ?s p n "drop 24 f", folded x(1)]
    frame_parts [OF valid(1), of ?c ?s p' n' "drop 24 f'", folded x(2)]
  have same: "take k f = take k f'" if "k \<le> length pre" for k using that by (simp add: f_def f'_def)
  have same': "drop k f = drop k f'" if "length pre + 8 \<le> k" for k using that g by (simp add: f_def f'_def)
  let ?t = "frame_cksum ?c p n (drop 24 f) ?s" and ?t' = "frame_cksum ?c p' n' (drop 24 f') ?s"
  have sum: "?t = ?t'" if "take 8 (drop 16 f) = take 8 (drop 16 f')"
    using put4_inj [of "fst ?t" "snd ?t" "fst ?t'" "snd ?t'"] that unfolding parts(3,7) by (simp add: prod_eq_iff)
  have pn: "p = p' \<and> n = n'" if "take 8 f = take 8 f'" using that unfolding parts(1,5) by (rule put4_inj)
  have eq: "f = f'" if "take 8 f = take 8 f'" "take 8 (drop 16 f) = take 8 (drop 16 f')" "drop 24 f = drop 24 f'"
    using split_header [of f] split_header [of f'] that parts(2,6) by metis
  have "8 dvd length (drop 24 f)" using len'(1) len(2) by (simp add: WAL_FRAME_HDRSIZE_def)
  note inj = frame_cksum_inj [OF _ this]
  obtain k where k: "length pre = 8 * k" using g(1) by (auto simp: dvd_def)
  have "f = f'"
  proof (cases "k < 3")
    case True
    then consider "k = 0" | "k = 1" | "k = 2" by linarith
    then show ?thesis
    proof cases
      case 1
      then have d: "drop 16 f = drop 16 f'" "drop 24 f = drop 24 f'" using same' k by simp_all
      then have "?t = ?t'" using sum by simp
      then have "p = p' \<and> n = n'" using inj [of ?c p n ?s p' n'] d(2) by simp
      then show ?thesis using eq d parts(1,5) by simp
    next
      case 2
      then show ?thesis using eq same [of 8] same' [of 16] same' [of 24] k by simp
    next
      case 3
      then have d: "take 8 f = take 8 f'" "drop 24 f = drop 24 f'" using same [of 8] same' [of 24] k by simp_all
      then show ?thesis using eq pn parts(3,7) by simp
    qed
  next
    case False
    then have h: "take 24 f = take 24 f'" using same k by simp
    have "take 8 (take 24 f) = take 8 (take 24 f')" "drop 16 (take 24 f) = drop 16 (take 24 f')" by (simp_all only: h)
    then have h8: "take 8 f = take 8 f'" "take 8 (drop 16 f) = take 8 (drop 16 f')" by (simp_all add: drop_take)
    have d: "drop 24 f = drop 24 pre @ g @ post" "drop 24 f' = drop 24 pre @ g' @ post"
      using False k by (simp_all add: f_def f'_def)
    have pre: "length (drop 24 pre) = 8 * (k - 3)" using k by (simp add: diff_mult_distrib2)
    have "length (drop 24 pre @ g @ post) = szPage w" using len'(1) d(1) by (metis WAL_FRAME_HDRSIZE_def add_diff_cancel_left' length_drop)
    then have "8 dvd length (drop 24 pre) + (8 + length post)" using len(2) g(2) by simp
    then have "8 dvd length post" unfolding pre by (simp add: dvd_add_right_iff)
    moreover have "8 dvd length (drop 24 pre)" unfolding pre by simp
    moreover have "fletcher (native_words ?c (drop 24 pre @ g @ post)) (fletcher (native_words ?c (take 8 f)) ?s)
        = fletcher (native_words ?c (drop 24 pre @ g' @ post)) (fletcher (native_words ?c (take 8 f)) ?s)"
      using sum [OF h8(2)] pn [OF h8(1)] unfolding frame_cksum_def d parts(1) by simp
    ultimately have "g = g'" using cksum_detects g(2,3) by blast
    with g(4) show ?thesis by simp
  qed
  then show False using g(4) by (simp add: f_def f'_def)
qed

text \<open>A log with pages of 512 bytes.\<close>

definition demo_salt :: "u8 list" where "demo_salt = [1, 2, 3, 4, 5, 6, 7, 8]"

definition demo_log :: "u8 list \<Rightarrow> wal_log" where
  "demo_log f = \<lparr>index = demo_wal,
     hdr = \<lparr>iVersion = 0, iChange = 0, isInit = False, bigEndCksum = True, szPage16 = 0, nPage = 0,
       aFrameCksum = (3, 4), aSalt = demo_salt, aCksum = (0, 0)\<rparr>,
     live_hdr = \<lparr>iVersion = 0, iChange = 0, isInit = False, bigEndCksum = True, szPage16 = 0, nPage = 0,
       aFrameCksum = (3, 4), aSalt = demo_salt, aCksum = (0, 0)\<rparr>,
     second_hdr = (\<lparr>iVersion = 0, iChange = 0, isInit = False, bigEndCksum = True, szPage16 = 0, nPage = 0,
       aFrameCksum = (3, 4), aSalt = demo_salt, aCksum = (0, 0)\<rparr>, 0),
     info = \<lparr>nBackfill = 0, aReadMark = (\<lambda>_. 0), nBackfillAttempted = 0\<rparr>,
     szPage = 512, ckptLock = 0, iCallback = 0, iReCksum = 0, truncateOnCommit = False, syncHeader = False,
     padToSectorBoundary = False, mxWalSize = -1, pWalFd = f, calls = 0\<rparr>"

lemma corruption_detected_witness:
  "\<exists>w'. walDecodeFrame False (demo_log []) (take 24 (frame_bytes True demo_salt (3, 4) 5 0 (replicate 512 0))
     @ (replicate 8 1 @ replicate 504 0)) = Some (None, w')"
proof -
  let ?f = "frame_bytes True demo_salt (3, 4) 5 0 (replicate 512 0)" and ?w = "demo_log []"
  have "drop 24 ?f = replicate (8 + 504) 0" using frame_parts(4) [of demo_salt] by (simp add: demo_salt_def)
  then have f: "take 24 ?f @ replicate 8 0 @ replicate 504 0 = ?f"
    unfolding replicate_add [symmetric] by (metis append_take_drop_id)
  have len: "length ?f = WAL_FRAME_HDRSIZE + szPage ?w"
    using length_frame_bytes [of demo_salt True "(3, 4)" 5 0 "replicate 512 0"] by (simp add: demo_salt_def demo_log_def)
  have ok: "walDecodeFrame False ?w (take 24 ?f @ replicate 8 0 @ replicate 504 0) =
      Some (Some (5, 0), ?w\<lparr>hdr := (hdr ?w)\<lparr>aFrameCksum := frame_cksum True 5 0 (replicate 512 0) (3, 4)\<rparr>\<rparr>)"
    unfolding f using walDecodeFrame_bytes [of "replicate 512 0" ?w 5 False 0]
    by (simp add: demo_log_def demo_salt_def)
  have d: "8 dvd length (take 24 ?f)" using len by (simp add: WAL_FRAME_HDRSIZE_def)
  have len': "length (take 24 ?f @ replicate 8 0 @ replicate 504 0) = WAL_FRAME_HDRSIZE + szPage ?w" unfolding f by (rule len)
  have sz: "8 dvd szPage ?w" by (simp add: demo_log_def)
  have ne: "replicate 8 1 \<noteq> (replicate 8 0 :: u8 list)" by (simp add: numeral_eq_Suc)
  show ?thesis by (rule corruption_detected [OF len' sz ok d _ _ ne]) (rule length_replicate)+
qed

end
