(* ===== verification/WalRecover.thy ===== *)
theory WalRecover
  imports WalFrame
begin

text \<open>
  Recovery of the wal-index from the file (\<open>walIndexRecover\<close> of \<open>wal.c\<close>).  The results of the
  locks, of the file operations and of the allocation are parameters; a read of a range inside
  the file delivers its content.
\<close>

section \<open>Code\<close>

abbreviation (input) "SQLITE_CANTOPEN \<equiv> (14 :: rc)"

record log_os =
  index_os :: wal_os
  lock_rc :: "nat \<Rightarrow> nat \<Rightarrow> rc"    \<comment> \<open>an exclusive lock on \<open>n\<close> bytes from an offset\<close>
  size_rc :: rc
  read_rc :: "nat \<Rightarrow> rc"            \<comment> \<open>a read at an offset\<close>
  malloc_ok :: bool

definition walLockExclusive :: "log_os \<Rightarrow> wal_log \<Rightarrow> nat \<Rightarrow> nat \<Rightarrow> rc" where
  "walLockExclusive os w lockIdx n = (if exclusiveMode (index w) \<noteq> 0 then SQLITE_OK else lock_rc os lockIdx n)"

definition zero_hdr :: wal_hdr where
  "zero_hdr = \<lparr>iVersion = 0, iChange = 0, isInit = False, bigEndCksum = False, szPage16 = 0, nPage = 0,
     aFrameCksum = (0, 0), aSalt = replicate 8 0, aCksum = (0, 0)\<rparr>"

text \<open>A commit record moves the header on, and its checksum is kept.\<close>

definition recover_commit :: "u32 \<Rightarrow> nat \<Rightarrow> wal_log \<Rightarrow> wal_log" where
  "recover_commit nTruncate iFrame w =
     w\<lparr>index := (index w)\<lparr>mxFrame := iFrame\<rparr>,
       hdr := (hdr w)\<lparr>nPage := nTruncate, szPage16 := hdr_pagesize (szPage w)\<rparr>\<rparr>"

text \<open>The loop over the frames; \<open>aCk\<close> is the local \<open>aFrameCksum\<close>.\<close>

function recover_loop :: "bool \<Rightarrow> log_os \<Rightarrow> nat \<Rightarrow> nat \<Rightarrow> nat \<Rightarrow> u32 \<times> u32 \<Rightarrow> wal_log
    \<Rightarrow> (rc \<times> (u32 \<times> u32) \<times> wal_log) option" where
  "recover_loop be os nSize iFrame iOffset aCk w =
     (let szFrame = szPage w + WAL_FRAME_HDRSIZE in
      if nSize < iOffset + szFrame then Some (SQLITE_OK, aCk, w)
      else if read_rc os iOffset \<noteq> SQLITE_OK then Some (read_rc os iOffset, aCk, w)
      else case walDecodeFrame be w (take szFrame (drop iOffset (pWalFd w))) of
        None \<Rightarrow> None
      | Some (None, w) \<Rightarrow> Some (SQLITE_OK, aCk, w)
      | Some (Some (pgno, nTruncate), w) \<Rightarrow>
          (case walIndexAppend (index_os os) (index w) (iFrame + 1) pgno of
             None \<Rightarrow> None
           | Some (rc, ix) \<Rightarrow>
               let w = w\<lparr>index := ix\<rparr> in
               if rc \<noteq> SQLITE_OK then Some (rc, aCk, w)
               else if nTruncate \<noteq> 0 then
                 recover_loop be os nSize (iFrame + 1) (iOffset + szFrame) (aFrameCksum (hdr w))
                   (recover_commit nTruncate (iFrame + 1) w)
               else recover_loop be os nSize (iFrame + 1) (iOffset + szFrame) aCk w))"
  by pat_completeness auto
termination
  by (relation "measure (\<lambda>(be, os, nSize, iFrame, iOffset, aCk, w). nSize - iOffset)")
    (auto simp: WAL_FRAME_HDRSIZE_def)

declare recover_loop.simps [simp del]

text \<open>At the label \<open>finished\<close>.\<close>

definition recover_finish :: "bool \<Rightarrow> u32 \<times> u32 \<Rightarrow> wal_log \<Rightarrow> wal_log option" where
  "recover_finish be aCk w = do {
     w \<leftarrow> walIndexWriteHdr be (w\<lparr>hdr := (hdr w)\<lparr>aFrameCksum := aCk\<rparr>\<rparr>);
     let mx = mxFrame (index w);
     Some (w\<lparr>info := \<lparr>nBackfill = 0,
       aReadMark = (\<lambda>i. if i = 0 then 0 else if i = 1 \<and> mx \<noteq> 0 then mx
                        else if i < WAL_NREADER then READMARK_NOT_USED else aReadMark (info w) i),
       nBackfillAttempted = mx\<rparr>\<rparr>)
   }"

text \<open>The header of the file: it may be ignored together with the frames, be an error, or be
  followed by frames.  The page size is wrong when it is no power of two, or not between
  512 and 65536.\<close>

definition bad_pagesize :: "u32 \<Rightarrow> bool" where
  "bad_pagesize sz \<longleftrightarrow> sz AND (sz - 1) \<noteq> 0 \<or> 65536 < sz \<or> sz < 512"

datatype file_header = Skip wal_log | Fail rc wal_log | Frames_follow wal_log

definition recover_header :: "bool \<Rightarrow> log_os \<Rightarrow> wal_log \<Rightarrow> file_header option" where
  "recover_header be os w =
     (if read_rc os 0 \<noteq> SQLITE_OK then Some (Fail (read_rc os 0) w)
      else do {
        let aBuf = take WAL_HDRSIZE (pWalFd w);
        magic \<leftarrow> sqlite3Get4byte aBuf;
        sz \<leftarrow> sqlite3Get4byte (drop 8 aBuf);
        if magic AND 0xFFFFFFFE \<noteq> WAL_MAGIC \<or> bad_pagesize sz then Some (Skip w)
        else do {
          ckpt \<leftarrow> sqlite3Get4byte (drop 12 aBuf);
          let w = w\<lparr>szPage := unat sz, index := (index w)\<lparr>nCkpt := unat ckpt\<rparr>,
            hdr := (hdr w)\<lparr>bigEndCksum := (magic AND 1 = 1), aSalt := take 8 (drop 16 aBuf)\<rparr>\<rparr>;
          c \<leftarrow> walChecksumBytes be (bigEndCksum (hdr w) = be) aBuf (WAL_HDRSIZE - 2 * 4) (0, 0);
          let w = w\<lparr>hdr := (hdr w)\<lparr>aFrameCksum := c\<rparr>\<rparr>;
          c1 \<leftarrow> sqlite3Get4byte (drop 24 aBuf);
          c2 \<leftarrow> sqlite3Get4byte (drop 28 aBuf);
          if fst c \<noteq> c1 \<or> snd c \<noteq> c2 then Some (Skip w)
          else do {
            version \<leftarrow> sqlite3Get4byte (drop 4 aBuf);
            Some (if version \<noteq> WAL_MAX_VERSION then Fail SQLITE_CANTOPEN w
                  else if \<not> malloc_ok os then Fail SQLITE_NOMEM w
                  else Frames_follow w)
          }
        }
      })"

definition walIndexRecover :: "bool \<Rightarrow> log_os \<Rightarrow> wal_log \<Rightarrow> (rc \<times> wal_log) option" where
  "walIndexRecover be os w =
     (let iLock = 1 + ckptLock w;
          rc = walLockExclusive os w iLock (3 - iLock);
          rc = (if rc = SQLITE_OK then walLockExclusive os w 4 (WAL_NREADER - 1) else rc) in
      if rc \<noteq> SQLITE_OK then Some (rc, w)
      else
        let w = w\<lparr>hdr := zero_hdr, index := (index w)\<lparr>mxFrame := 0\<rparr>\<rparr>;
            finished = (\<lambda>aCk w. map_option (Pair SQLITE_OK) (recover_finish be aCk w)) in
        if size_rc os \<noteq> SQLITE_OK then Some (size_rc os, w)
        else if length (pWalFd w) \<le> WAL_HDRSIZE then finished (0, 0) w
        else case recover_header be os w of
          None \<Rightarrow> None
        | Some (Fail rc w) \<Rightarrow> Some (rc, w)
        | Some (Skip w) \<Rightarrow> finished (0, 0) w
        | Some (Frames_follow w) \<Rightarrow> do {
            (rc, aCk, w) \<leftarrow> recover_loop be os (length (pWalFd w)) 0 WAL_HDRSIZE (0, 0) w;
            if rc = SQLITE_OK then finished aCk w else Some (rc, w)
          })"

section \<open>Logs\<close>

text \<open>A frame of the specification: page number, size after a commit or 0, and the page.\<close>

type_synonym frame = "u32 \<times> u32 \<times> u8 list"

fun frames_bytes :: "bool \<Rightarrow> u8 list \<Rightarrow> u32 \<times> u32 \<Rightarrow> frame list \<Rightarrow> u8 list" where
  "frames_bytes c salt s [] = []"
| "frames_bytes c salt s ((p, n, d) # fs) = frame_bytes c salt s p n d @ frames_bytes c salt (frame_cksum c p n d s) fs"

fun frames_cksum :: "bool \<Rightarrow> u32 \<times> u32 \<Rightarrow> frame list \<Rightarrow> u32 \<times> u32" where
  "frames_cksum c s [] = s"
| "frames_cksum c s ((p, n, d) # fs) = frames_cksum c (frame_cksum c p n d s) fs"

definition frame_ok :: "nat \<Rightarrow> frame \<Rightarrow> bool" where
  "frame_ok sz = (\<lambda>(p, n, d). p \<noteq> 0 \<and> length d = sz)"

definition commits :: "frame \<Rightarrow> bool" where
  "commits = (\<lambda>(p, n, d). n \<noteq> 0)"

text \<open>The frames up to the last one that commits.\<close>

definition committed :: "frame list \<Rightarrow> frame list" where
  "committed fs = rev (dropWhile (Not \<circ> commits) (rev fs))"

text \<open>No valid frame begins here.\<close>

definition torn :: "bool \<Rightarrow> u8 list \<Rightarrow> nat \<Rightarrow> u32 \<times> u32 \<Rightarrow> u8 list \<Rightarrow> bool" where
  "torn c salt sz s bs \<longleftrightarrow> length bs < sz + WAL_FRAME_HDRSIZE
     \<or> (\<forall>p n d. frame_ok sz (p, n, d) \<longrightarrow> take (sz + WAL_FRAME_HDRSIZE) bs \<noteq> frame_bytes c salt s p n d)"

text \<open>The header of a file.\<close>

definition header_front :: "bool \<Rightarrow> u32 \<Rightarrow> u32 \<Rightarrow> u8 list \<Rightarrow> u8 list" where
  "header_front c sz ckpt salt = sqlite3Put4byte (WAL_MAGIC OR of_bool c) @ sqlite3Put4byte WAL_MAX_VERSION
     @ sqlite3Put4byte sz @ sqlite3Put4byte ckpt @ salt"

definition header_cksum :: "bool \<Rightarrow> u32 \<Rightarrow> u32 \<Rightarrow> u8 list \<Rightarrow> u32 \<times> u32" where
  "header_cksum c sz ckpt salt = fletcher (native_words c (header_front c sz ckpt salt)) (0, 0)"

definition header_bytes :: "bool \<Rightarrow> u32 \<Rightarrow> u32 \<Rightarrow> u8 list \<Rightarrow> u8 list" where
  "header_bytes c sz ckpt salt = (let s = header_cksum c sz ckpt salt in
     header_front c sz ckpt salt @ sqlite3Put4byte (fst s) @ sqlite3Put4byte (snd s))"

section \<open>Committed frames\<close>

lemma committed_Nil [simp]: "committed [] = []"
  by (simp add: committed_def)

lemma committed_empty_iff: "committed fs = [] \<longleftrightarrow> (\<forall>f \<in> set fs. \<not> commits f)"
  by (auto simp: committed_def dropWhile_eq_Nil_conv)

lemma committed_Cons: "committed (f # fs) =
    (if committed fs \<noteq> [] then f # committed fs else if commits f then [f] else [])"
proof (cases "committed fs = []")
  case True
  then have none: "\<forall>x \<in> set (rev fs). (Not \<circ> commits) x" by (simp add: committed_empty_iff)
  have "dropWhile (Not \<circ> commits) (rev fs @ [f]) = dropWhile (Not \<circ> commits) [f]"
    by (rule dropWhile_append2) (rule none [rule_format])
  then show ?thesis using True by (simp add: committed_def)
next
  case False
  then obtain x where "x \<in> set (rev fs)" "\<not> (Not \<circ> commits) x" by (auto simp: committed_empty_iff)
  then have "dropWhile (Not \<circ> commits) (rev fs @ [f]) = dropWhile (Not \<circ> commits) (rev fs) @ [f]"
    by (rule dropWhile_append1)
  then show ?thesis using False by (simp add: committed_def)
qed

lemma committed_prefix: "\<exists>gs. fs = committed fs @ gs"
proof (induction fs)
  case Nil
  then show ?case by simp
next
  case (Cons f fs)
  then show ?case by (cases "committed fs = []"; cases "commits f") (auto simp: committed_Cons)
qed

lemma committed_last: "committed fs \<noteq> [] \<Longrightarrow> commits (last (committed fs))"
  by (induction fs) (auto simp: committed_Cons split: if_splits)

section \<open>The loop\<close>

text \<open>What recovery leaves alone.\<close>

definition same_log :: "wal_log \<Rightarrow> wal_log \<Rightarrow> bool" where
  "same_log w w' \<longleftrightarrow> szPage w' = szPage w \<and> pWalFd w' = pWalFd w \<and> aSalt (hdr w') = aSalt (hdr w)
     \<and> bigEndCksum (hdr w') = bigEndCksum (hdr w) \<and> info w' = info w \<and> live_hdr w' = live_hdr w
     \<and> ckptLock w' = ckptLock w \<and> iReCksum w' = iReCksum w \<and> exclusiveMode (index w') = exclusiveMode (index w)
     \<and> writeLock (index w') = writeLock (index w) \<and> live_mxFrame (index w') = live_mxFrame (index w)
     \<and> nCkpt (index w') = nCkpt (index w)"

lemma same_log_trans: "same_log w w' \<Longrightarrow> same_log w' w'' \<Longrightarrow> same_log w w''"
  by (simp add: same_log_def)

lemma same_log_refl: "same_log w w"
  by (simp add: same_log_def)

text \<open>The state before a frame: the checksum of the file up to there, and the pages so far.\<close>

definition at_frame :: "log_os \<Rightarrow> bool \<Rightarrow> u8 list \<Rightarrow> nat \<Rightarrow> wal_log \<Rightarrow> u32 \<times> u32 \<Rightarrow> u32 list \<Rightarrow> bool" where
  "at_frame os c salt sz w s L \<longleftrightarrow> szPage w = sz \<and> aSalt (hdr w) = salt \<and> bigEndCksum (hdr w) = c
     \<and> aFrameCksum (hdr w) = s \<and> index_rep (index w) L \<and> grants (index_os os) (index w)"

lemma at_frame_commit: "at_frame os c salt sz w s L \<Longrightarrow> at_frame os c salt sz (recover_commit n m w) s L"
  by (simp add: at_frame_def recover_commit_def index_rep_fields grants_fields)

lemma decode_torn:
  assumes t: "torn (bigEndCksum (hdr w)) (aSalt (hdr w)) (szPage w) (aFrameCksum (hdr w)) bs"
    and len: "\<not> length bs < szPage w + WAL_FRAME_HDRSIZE"
  shows "\<exists>s'. walDecodeFrame be w (take (szPage w + WAL_FRAME_HDRSIZE) bs) =
    Some (None, w\<lparr>hdr := (hdr w)\<lparr>aFrameCksum := s'\<rparr>\<rparr>)"
proof -
  let ?f = "take (szPage w + WAL_FRAME_HDRSIZE) bs"
  have len': "length ?f = WAL_FRAME_HDRSIZE + szPage w" using len by simp
  obtain w' where w': "walDecodeFrame be w ?f = Some (None, w')"
  proof (cases rule: walDecodeFrame_cases [OF len', of be, case_names ok bad])
    case (ok p n)
    have "frame_ok (szPage w) (p, n, drop WAL_FRAME_HDRSIZE ?f)" using ok(2) len' by (simp add: frame_ok_def)
    then have False using t len ok(3) unfolding torn_def by blast
    then show thesis ..
  qed
  then show ?thesis using walDecodeFrame_changes [OF w'] by auto
qed

lemma recover_loop_torn:
  assumes a: "at_frame os c salt sz w s L" and t: "torn c salt sz s (drop iOffset (pWalFd w))"
    and r: "\<forall>i. read_rc os i = SQLITE_OK" and n: "iOffset \<le> length (pWalFd w)"
  shows "\<exists>w'. recover_loop be os (length (pWalFd w)) iFrame iOffset aCk w = Some (SQLITE_OK, aCk, w')
    \<and> same_log w w' \<and> index w' = index w \<and> nPage (hdr w') = nPage (hdr w)"
proof (cases "length (pWalFd w) < iOffset + (sz + WAL_FRAME_HDRSIZE)")
  case True
  then have "recover_loop be os (length (pWalFd w)) iFrame iOffset aCk w = Some (SQLITE_OK, aCk, w)"
    using a by (subst recover_loop.simps) (simp add: at_frame_def Let_def)
  then show ?thesis by (simp add: same_log_refl)
next
  case False
  have nl: "\<not> length (drop iOffset (pWalFd w)) < szPage w + WAL_FRAME_HDRSIZE"
    using False a unfolding at_frame_def length_drop by linarith
  obtain s' where s': "walDecodeFrame be w (take (sz + WAL_FRAME_HDRSIZE) (drop iOffset (pWalFd w))) =
      Some (None, w\<lparr>hdr := (hdr w)\<lparr>aFrameCksum := s'\<rparr>\<rparr>)"
    using decode_torn [OF _ nl, of be] t a by (auto simp: at_frame_def)
  define w' where "w' = w\<lparr>hdr := (hdr w)\<lparr>aFrameCksum := s'\<rparr>\<rparr>"
  then have "same_log w w' \<and> index w' = index w \<and> nPage (hdr w') = nPage (hdr w)" by (simp add: same_log_def)
  moreover have "recover_loop be os (length (pWalFd w)) iFrame iOffset aCk w = Some (SQLITE_OK, aCk, w')"
    using a False r s' w'_def by (subst recover_loop.simps) (simp add: at_frame_def Let_def)
  ultimately show ?thesis by blast
qed

lemma recover_loop_frame:
  assumes a: "at_frame os c salt sz w s L" and f: "drop iOffset (pWalFd w) = frame_bytes c salt s p n d @ bs"
    and r: "\<forall>i. read_rc os i = SQLITE_OK" and ok: "frame_ok sz (p, n, d)" "length salt = 8"
  obtains w' where "at_frame os c salt sz w' (frame_cksum c p n d s) (L @ [p])" "same_log w w'"
    "mxFrame (index w') = mxFrame (index w)" "nPage (hdr w') = nPage (hdr w)"
    "recover_loop be os (length (pWalFd w)) (length L) iOffset aCk w =
      (if n \<noteq> 0 then recover_loop be os (length (pWalFd w)) (length L + 1) (iOffset + (sz + WAL_FRAME_HDRSIZE))
         (frame_cksum c p n d s) (recover_commit n (length L + 1) w')
       else recover_loop be os (length (pWalFd w)) (length L + 1) (iOffset + (sz + WAL_FRAME_HDRSIZE)) aCk w')"
proof -
  let ?fb = "frame_bytes c salt s p n d" and ?sz = "sz + WAL_FRAME_HDRSIZE"
  have p: "p \<noteq> 0" "length d = sz" using ok(1) by (simp_all add: frame_ok_def)
  have len: "length ?fb = ?sz" using length_frame_bytes [OF ok(2)] p by simp
  have le: "\<not> length (pWalFd w) < iOffset + ?sz"
    using arg_cong [OF f, of length] len by (simp add: WAL_FRAME_HDRSIZE_def)
  have tk: "take ?sz (drop iOffset (pWalFd w)) = ?fb" by (simp add: f len)
  define w1 where "w1 = w\<lparr>hdr := (hdr w)\<lparr>aFrameCksum := frame_cksum c p n d s\<rparr>\<rparr>"
  have dec: "walDecodeFrame be w ?fb = Some (Some (p, n), w1)"
    using walDecodeFrame_bytes [of d w p be n] a p ok(2) unfolding at_frame_def w1_def by simp
  have "index_rep (index w1) (L @ [])" "0 \<notin> set ([] :: u32 list)" "[] = [] \<or> mxFrame (index w1) = length L"
    "grants (index_os os) (index w1)"
    using a by (simp_all add: at_frame_def w1_def)
  from walIndexAppend_step [OF this p(1)] obtain ix where
    ix: "walIndexAppend (index_os os) (index w1) (length L + 1) p = Some (SQLITE_OK, ix)"
      "index_rep ix (L @ [p])" "same_conn (index w1) ix" by blast
  define w' where "w' = w1\<lparr>index := ix\<rparr>"
  have "at_frame os c salt sz w' (frame_cksum c p n d s) (L @ [p])"
    using a ix(2) same_conn_grants [OF ix(3), of "index_os os"] by (simp add: at_frame_def w'_def w1_def)
  moreover have "same_log w w'" "mxFrame (index w') = mxFrame (index w)" "nPage (hdr w') = nPage (hdr w)"
    using same_connD [OF ix(3)] by (simp_all add: same_log_def w'_def w1_def)
  moreover have "recover_loop be os (length (pWalFd w)) (length L) iOffset aCk w =
      (if n \<noteq> 0 then recover_loop be os (length (pWalFd w)) (length L + 1) (iOffset + ?sz)
         (frame_cksum c p n d s) (recover_commit n (length L + 1) w')
       else recover_loop be os (length (pWalFd w)) (length L + 1) (iOffset + ?sz) aCk w')"
    using a le r dec ix(1) by (subst recover_loop.simps) (simp add: at_frame_def Let_def tk w'_def w1_def)
  ultimately show thesis by (rule that)
qed

lemma recover_loop_frames:
  assumes "at_frame os c salt sz w s L" "drop iOffset (pWalFd w) = frames_bytes c salt s fs @ bs"
    and "torn c salt sz (frames_cksum c s fs) bs" "\<forall>f \<in> set fs. frame_ok sz f" "iOffset \<le> length (pWalFd w)"
    and r: "\<forall>i. read_rc os i = SQLITE_OK" and salt: "length salt = 8"
  shows "\<exists>w'. recover_loop be os (length (pWalFd w)) (length L) iOffset aCk w =
      Some (SQLITE_OK, if committed fs = [] then aCk else frames_cksum c s (committed fs), w')
    \<and> index_rep (index w') (L @ map fst fs) \<and> grants (index_os os) (index w') \<and> same_log w w'
    \<and> mxFrame (index w') = (if committed fs = [] then mxFrame (index w) else length L + length (committed fs))
    \<and> nPage (hdr w') = (if committed fs = [] then nPage (hdr w) else fst (snd (last (committed fs))))"
  using assms(1-5)
proof (induction fs arbitrary: w s L iOffset aCk)
  case Nil
  from recover_loop_torn [OF Nil(1) _ r Nil(5), of be "length L" aCk] Nil(1-3) show ?case
    by (auto simp: at_frame_def)
next
  case (Cons f fs)
  obtain p n d where f: "f = (p, n, d)" by (cases f)
  let ?sz = "sz + WAL_FRAME_HDRSIZE" and ?s = "frame_cksum c p n d s"
  have ok: "frame_ok sz (p, n, d)" using Cons.prems(4) f by simp
  have dr: "drop iOffset (pWalFd w) = frame_bytes c salt s p n d @ (frames_bytes c salt ?s fs @ bs)"
    using Cons.prems(2) by (simp add: f)
  from recover_loop_frame [OF Cons.prems(1) dr r ok salt, of be aCk] obtain w1 where
    w1: "at_frame os c salt sz w1 ?s (L @ [p])" "same_log w w1" "mxFrame (index w1) = mxFrame (index w)"
      "nPage (hdr w1) = nPage (hdr w)"
      "recover_loop be os (length (pWalFd w)) (length L) iOffset aCk w =
        (if n \<noteq> 0 then recover_loop be os (length (pWalFd w)) (length L + 1) (iOffset + ?sz)
           ?s (recover_commit n (length L + 1) w1)
         else recover_loop be os (length (pWalFd w)) (length L + 1) (iOffset + ?sz) aCk w1)"
    by blast
  define w2 where "w2 = (if n \<noteq> 0 then recover_commit n (length L + 1) w1 else w1)"
  have len: "length (frame_bytes c salt s p n d) = ?sz"
    using length_frame_bytes [OF salt] ok by (simp add: frame_ok_def)
  have at: "at_frame os c salt sz w2 ?s (L @ [p])" using w1(1) at_frame_commit by (cases "n = 0") (simp_all add: w2_def)
  have fd: "pWalFd w2 = pWalFd w" using w1(2) by (simp add: w2_def recover_commit_def same_log_def)
  have dr2: "drop (iOffset + ?sz) (pWalFd w2) = frames_bytes c salt ?s fs @ bs"
    using arg_cong [OF dr, of "drop ?sz"] len by (simp add: fd add.commute)
  have le: "iOffset + ?sz \<le> length (pWalFd w2)"
    using arg_cong [OF dr, of length] len Cons.prems(5) by (simp add: fd)
  let ?aCk = "if n \<noteq> 0 then ?s else aCk"
  obtain w' where w': "recover_loop be os (length (pWalFd w2)) (length (L @ [p])) (iOffset + ?sz) ?aCk w2 =
      Some (SQLITE_OK, if committed fs = [] then ?aCk else frames_cksum c ?s (committed fs), w')"
    "index_rep (index w') ((L @ [p]) @ map fst fs)" "grants (index_os os) (index w')" "same_log w2 w'"
    "mxFrame (index w') = (if committed fs = [] then mxFrame (index w2) else length (L @ [p]) + length (committed fs))"
    "nPage (hdr w') = (if committed fs = [] then nPage (hdr w2) else fst (snd (last (committed fs))))"
    using Cons.IH [OF at dr2 _ _ le, of ?aCk] Cons.prems(3,4) by (auto simp: f)
  have run: "recover_loop be os (length (pWalFd w)) (length L) iOffset aCk w =
      recover_loop be os (length (pWalFd w2)) (length (L @ [p])) (iOffset + ?sz) ?aCk w2"
    unfolding fd w1(5) by (cases "n = 0") (simp_all add: w2_def)
  have same: "same_log w w'"
    using same_log_trans [OF w1(2)] w'(4) by (simp add: w2_def recover_commit_def same_log_def split: if_splits)
  show ?case
    using run w' same w1(3,4)
    by (auto simp: f committed_Cons commits_def w2_def recover_commit_def)
qed

section \<open>The whole recovery\<close>

lemma recover_finish_ok:
  assumes "length (aSalt (hdr w)) = 8" "index_rep (index w) (L @ R)" "0 \<notin> set R" "mxFrame (index w) = length L"
    "writeLock (index w)"
  shows "\<exists>w'. recover_finish be aCk w = Some w' \<and> wal_rep (index w') (L, []) \<and> nPage (hdr w') = nPage (hdr w)
    \<and> aFrameCksum (hdr w') = aCk \<and> live_hdr w' = hdr w'"
proof -
  have len: "length (native_bytes b v) = 4" for b v by (simp add: native_bytes_def)
  have "length (hdr_bytes be ((hdr w)\<lparr>aFrameCksum := aCk, isInit := True, iVersion := WALINDEX_MAX_VERSION\<rparr>)
      (mxFrame (index w))) = 40"
    using assms(1) by (simp add: hdr_bytes_def len Let_def)
  then show ?thesis
    using assms(2-5)
    by (auto simp: recover_finish_def walIndexWriteHdr_def walChecksumBytes_def Let_def index_rep_fields
        intro!: wal_repI [where R = R])
qed

definition page_size_ok :: "nat \<Rightarrow> bool" where
  "page_size_ok sz \<longleftrightarrow> sz \<in> {512, 1024, 2048, 4096, 8192, 16384, 32768, 65536}"

lemma page_size_okD: "page_size_ok sz \<Longrightarrow> \<not> bad_pagesize (of_nat sz) \<and> unat (of_nat sz :: u32) = sz"
  by (auto simp: page_size_ok_def bad_pagesize_def)

lemma magic: "(WAL_MAGIC OR of_bool c) AND 0xFFFFFFFE = WAL_MAGIC" "(WAL_MAGIC OR of_bool c) AND 1 = of_bool c"
  by (cases c; simp add: WAL_MAGIC_def)+

lemma header_fields:
  assumes "length salt = 8"
  shows "length (header_bytes c sz ckpt salt) = WAL_HDRSIZE"
    "sqlite3Get4byte (header_bytes c sz ckpt salt) = Some (WAL_MAGIC OR of_bool c)"
    "sqlite3Get4byte (drop 4 (header_bytes c sz ckpt salt)) = Some WAL_MAX_VERSION"
    "sqlite3Get4byte (drop 8 (header_bytes c sz ckpt salt)) = Some sz"
    "sqlite3Get4byte (drop 12 (header_bytes c sz ckpt salt)) = Some ckpt"
    "take 8 (drop 16 (header_bytes c sz ckpt salt)) = salt"
    "sqlite3Get4byte (drop 24 (header_bytes c sz ckpt salt)) = Some (fst (header_cksum c sz ckpt salt))"
    "sqlite3Get4byte (drop 28 (header_bytes c sz ckpt salt)) = Some (snd (header_cksum c sz ckpt salt))"
    "take 24 (header_bytes c sz ckpt salt) = header_front c sz ckpt salt"
  using assms get4_put4 [of _ "[]"]
  by (simp_all add: header_bytes_def Let_def header_front_def get4_put4 WAL_HDRSIZE_def)

text \<open>The conditions of a recovery: the locks are granted, no operation fails, and the caller
  holds the lock of the writer.\<close>

definition recover_os :: "log_os \<Rightarrow> wal_log \<Rightarrow> bool" where
  "recover_os os w \<longleftrightarrow> (\<forall>l n. lock_rc os l n = SQLITE_OK) \<and> size_rc os = SQLITE_OK
     \<and> (\<forall>i. read_rc os i = SQLITE_OK) \<and> malloc_ok os \<and> grants (index_os os) (index w) \<and> writeLock (index w)"

lemma recover_header_ok:
  assumes os: "recover_os os w'" and sz: "page_size_ok sz" and salt: "length salt = 8"
    and fd: "pWalFd w = header_bytes c (of_nat sz) ckpt salt @ bs"
  shows "recover_header be os w = Some (Frames_follow (w\<lparr>szPage := sz, index := (index w)\<lparr>nCkpt := unat ckpt\<rparr>,
      hdr := (hdr w)\<lparr>bigEndCksum := c, aSalt := salt, aFrameCksum := header_cksum c (of_nat sz) ckpt salt\<rparr>\<rparr>))"
proof -
  let ?H = "header_bytes c (of_nat sz) ckpt salt"
  note H = header_fields [OF salt, of c "of_nat sz" ckpt]
  have buf: "take WAL_HDRSIZE (pWalFd w) = ?H" using H(1) by (simp add: fd)
  have ck: "walChecksumBytes be (c = be) ?H (WAL_HDRSIZE - 2 * 4) (0, 0) = Some (header_cksum c (of_nat sz) ckpt salt)"
    using H(1,9) by (simp add: walChecksumBytes_file WAL_HDRSIZE_def header_cksum_def)
  show ?thesis
    using os page_size_okD [OF sz] ck
    unfolding recover_header_def Let_def buf H
    by (simp add: H magic recover_os_def)
qed

lemma no_lock_fails: "recover_os os w \<Longrightarrow> walLockExclusive os w l n = SQLITE_OK"
  by (simp add: walLockExclusive_def recover_os_def)

lemma recover_short:
  assumes os: "recover_os os w" and short: "length (pWalFd w) \<le> WAL_HDRSIZE"
  shows "\<exists>w'. walIndexRecover be os w = Some (SQLITE_OK, w') \<and> wal_rep (index w') ([], [])
    \<and> nPage (hdr w') = 0 \<and> aFrameCksum (hdr w') = (0, 0) \<and> live_hdr w' = hdr w'"
proof -
  define w0 where "w0 = w\<lparr>hdr := zero_hdr, index := (index w)\<lparr>mxFrame := 0\<rparr>\<rparr>"
  have "length (aSalt (hdr w0)) = 8" "index_rep (index w0) ([] @ [])" "0 \<notin> set ([] :: u32 list)"
    "mxFrame (index w0) = length ([] :: u32 list)" "writeLock (index w0)" "nPage (hdr w0) = 0"
    using os by (simp_all add: w0_def zero_hdr_def index_rep_empty recover_os_def)
  from recover_finish_ok [OF this(1-5), of be "(0, 0)"] this(6) obtain w' where
    w': "recover_finish be (0, 0) w0 = Some w'" "wal_rep (index w') ([], [])" "nPage (hdr w') = 0"
      "aFrameCksum (hdr w') = (0, 0)" "live_hdr w' = hdr w'"
    by auto
  have "walIndexRecover be os w = Some (SQLITE_OK, w')"
    using short os w'(1) no_lock_fails [OF os] by (simp add: walIndexRecover_def Let_def recover_os_def w0_def)
  with w' show ?thesis by blast
qed

lemma recover_log:
  assumes os: "recover_os os w" and sz: "page_size_ok sz" and salt: "length salt = 8"
    and fd: "pWalFd w = header_bytes c (of_nat sz) ckpt salt @ frames_bytes c salt s fs @ bs"
    and s: "s = header_cksum c (of_nat sz) ckpt salt"
    and fs: "\<forall>f \<in> set fs. frame_ok sz f" and t: "torn c salt sz (frames_cksum c s fs) bs"
  shows "\<exists>w'. walIndexRecover be os w = Some (SQLITE_OK, w')
    \<and> wal_rep (index w') (map fst (committed fs), [])
    \<and> nPage (hdr w') = (if committed fs = [] then 0 else fst (snd (last (committed fs))))
    \<and> aFrameCksum (hdr w') = (if committed fs = [] then (0, 0) else frames_cksum c s (committed fs))
    \<and> live_hdr w' = hdr w'"
proof -
  let ?H = "header_bytes c (of_nat sz) ckpt salt"
  define w0 where "w0 = w\<lparr>hdr := zero_hdr, index := (index w)\<lparr>mxFrame := 0\<rparr>\<rparr>"
  note H = header_fields [OF salt, of c "of_nat sz" ckpt]
  show ?thesis
  proof (cases "length (pWalFd w) \<le> WAL_HDRSIZE")
    case True
    have "fs = []"
    proof (cases fs)
      case (Cons f gs)
      obtain p n d where f: "f = (p, n, d)" by (cases f)
      have "0 < length (frames_bytes c salt s fs)"
        using length_frame_bytes [OF salt, of c s p n d] by (simp add: Cons f WAL_FRAME_HDRSIZE_def flip: length_greater_0_conv)
      then show ?thesis using True fd H(1) by simp
    qed simp
    then show ?thesis using recover_short [OF os True, of be] by simp
  next
    case False
    define w2 where "w2 = w0\<lparr>szPage := sz, index := (index w0)\<lparr>nCkpt := unat ckpt\<rparr>,
      hdr := (hdr w0)\<lparr>bigEndCksum := c, aSalt := salt, aFrameCksum := s\<rparr>\<rparr>"
    have at: "at_frame os c salt sz w2 s []"
      using os by (simp add: at_frame_def w2_def w0_def index_rep_empty recover_os_def grants_def)
    have file0: "pWalFd w0 = pWalFd w" and file2: "pWalFd w2 = pWalFd w" by (simp_all add: w2_def w0_def)
    have dr: "drop WAL_HDRSIZE (pWalFd w2) = frames_bytes c salt s fs @ bs" using H(1) by (simp add: fd file2)
    have le: "WAL_HDRSIZE \<le> length (pWalFd w2)" and rd: "\<forall>i. read_rc os i = SQLITE_OK"
      using False os by (simp_all add: file2 recover_os_def)
    obtain w3 where w3: "recover_loop be os (length (pWalFd w2)) (length ([] :: u32 list)) WAL_HDRSIZE (0, 0) w2 =
        Some (SQLITE_OK, if committed fs = [] then (0, 0) else frames_cksum c s (committed fs), w3)"
      "index_rep (index w3) ([] @ map fst fs)" "same_log w2 w3"
      "mxFrame (index w3) = (if committed fs = [] then mxFrame (index w2) else length ([] :: u32 list) + length (committed fs))"
      "nPage (hdr w3) = (if committed fs = [] then nPage (hdr w2) else fst (snd (last (committed fs))))"
      using recover_loop_frames [OF at dr t fs le rd salt, of be "(0, 0)"] by blast
    obtain gs where gs: "fs = committed fs @ gs" using committed_prefix by blast
    let ?aCk = "if committed fs = [] then (0, 0) else frames_cksum c s (committed fs)"
    have a1: "length (aSalt (hdr w3)) = 8" and a5: "writeLock (index w3)"
      using w3(3) salt os by (simp_all add: same_log_def w2_def w0_def recover_os_def)
    have "map fst fs = map fst (committed fs) @ map fst gs" using gs by (metis map_append)
    then have a2: "index_rep (index w3) (map fst (committed fs) @ map fst gs)" using w3(2) by simp
    have "set gs \<subseteq> set fs" using gs by (metis Un_upper2 set_append)
    then have a3: "0 \<notin> set (map fst gs)" using fs by (force simp: frame_ok_def)
    have a4: "mxFrame (index w3) = length (map fst (committed fs))"
      using w3(4) by (simp add: w2_def w0_def split: if_splits)
    obtain w' where
      w': "recover_finish be ?aCk w3 = Some w'" "wal_rep (index w') (map fst (committed fs), [])"
        "nPage (hdr w') = nPage (hdr w3)" "aFrameCksum (hdr w') = ?aCk" "live_hdr w' = hdr w'"
      using recover_finish_ok [OF a1 a2 a3 a4 a5, of be ?aCk] by blast
    have "recover_header be os w0 = Some (Frames_follow w2)"
      using recover_header_ok [OF os sz salt, of w0 c ckpt "frames_bytes c salt s fs @ bs" be]
      by (simp add: w2_def s w0_def fd)
    then have "walIndexRecover be os w = Some (SQLITE_OK, w')"
      using False os w3(1) w'(1) file0 by (simp add: walIndexRecover_def no_lock_fails [OF os] recover_os_def Let_def file2 flip: w0_def)
    moreover have "nPage (hdr w2) = 0" by (simp add: w2_def w0_def zero_hdr_def)
    ultimately show ?thesis using w' w3(5) by auto
  qed
qed

text \<open>The frames that are whole in the first \<open>k\<close> bytes.\<close>

lemma frames_bytes_cut:
  assumes "length salt = 8" "\<forall>f \<in> set fs. frame_ok sz f"
  shows "\<exists>bs. take k (frames_bytes c salt s fs) =
      frames_bytes c salt s (take (k div (sz + WAL_FRAME_HDRSIZE)) fs) @ bs \<and> length bs < sz + WAL_FRAME_HDRSIZE"
  using assms(2)
proof (induction fs arbitrary: s k)
  case Nil
  then show ?case by (simp add: WAL_FRAME_HDRSIZE_def)
next
  case (Cons f fs)
  obtain p n d where f: "f = (p, n, d)" by (cases f)
  let ?sz = "sz + WAL_FRAME_HDRSIZE"
  have len: "length (frame_bytes c salt s p n d) = ?sz"
    using length_frame_bytes [OF assms(1)] Cons.prems by (simp add: frame_ok_def f)
  show ?case
  proof (cases "k < ?sz")
    case True
    then show ?thesis using len by (intro exI [of _ "take k (frame_bytes c salt s p n d)"]) (simp add: f)
  next
    case False
    have pos: "0 < ?sz" by (simp add: WAL_FRAME_HDRSIZE_def)
    have tail: "\<forall>f \<in> set fs. frame_ok sz f" using Cons.prems by simp
    have "k div ?sz = Suc ((k - ?sz) div ?sz)" using False pos by (simp add: le_div_geq)
    moreover obtain bs where "take (k - ?sz) (frames_bytes c salt (frame_cksum c p n d s) fs) =
        frames_bytes c salt (frame_cksum c p n d s) (take ((k - ?sz) div ?sz) fs) @ bs" "length bs < ?sz"
      using Cons.IH [OF tail, of "k - ?sz" "frame_cksum c p n d s"] by blast
    ultimately show ?thesis using False len by (intro exI [of _ bs]) (simp add: f)
  qed
qed

text \<open>C24: Recovery of a log that ends in something that is no valid frame restores exactly the
  transactions that are complete before it, and readers find the latest frames of these\<close>

theorem valid_prefix_recovered:
  assumes "recover_os os w" "page_size_ok sz" "length salt = 8"
    and "pWalFd w = header_bytes c (of_nat sz) ckpt salt
           @ frames_bytes c salt (header_cksum c (of_nat sz) ckpt salt) fs @ bs"
    and "\<forall>f \<in> set fs. frame_ok sz f"
    and "torn c salt sz (frames_cksum c (header_cksum c (of_nat sz) ckpt salt) fs) bs"
    and "n \<le> length (committed fs)" "grants ios r" "readLock r \<noteq> 0"
  shows "\<exists>w'. walIndexRecover be os w = Some (SQLITE_OK, w')
    \<and> mxFrame (index w') = length (committed fs) \<and> live_mxFrame (index w') = length (committed fs)
    \<and> nPage (hdr w') = (if committed fs = [] then 0 else fst (snd (last (committed fs))))
    \<and> live_hdr w' = hdr w'
    \<and> map_option fst (sqlite3WalFindFrame ios (reader_of r (index w') n) p) =
        Some (SQLITE_OK, latest (map fst (committed fs)) (minFrame r) n p)"
proof -
  obtain w' where w': "walIndexRecover be os w = Some (SQLITE_OK, w')"
    "wal_rep (index w') (map fst (committed fs), [])"
    "nPage (hdr w') = (if committed fs = [] then 0 else fst (snd (last (committed fs))))" "live_hdr w' = hdr w'"
    using recover_log [OF assms(1-4) refl assms(5,6), of be] by blast
  have "n \<le> length (map fst (committed fs) @ [])" using assms(7) by simp
  from reader_finds [OF w'(2) this assms(8,9), of p]
  have found: "map_option fst (sqlite3WalFindFrame ios (reader_of r (index w') n) p) =
      Some (SQLITE_OK, latest (map fst (committed fs)) (minFrame r) n p)"
    by simp
  have "mxFrame (index w') = length (committed fs)" "live_mxFrame (index w') = length (committed fs)"
    using w'(2) by (auto simp: wal_rep_def)
  with w'(1,3,4) found show ?thesis by (intro exI [of _ w'] conjI)
qed

text \<open>C9: Wherever a crash cuts the file of a log, recovery restores the transactions whose last frame
  is completely in the file and nothing else\<close>

theorem crash_recovery:
  assumes "recover_os os w" "page_size_ok sz" "length salt = 8"
    and "pWalFd w = take k (header_bytes c (of_nat sz) ckpt salt
           @ frames_bytes c salt (header_cksum c (of_nat sz) ckpt salt) fs)"
    and "\<forall>f \<in> set fs. frame_ok sz f"
    and "whole = committed (take ((k - WAL_HDRSIZE) div (sz + WAL_FRAME_HDRSIZE)) fs)"
    and "n \<le> length whole" "grants ios r" "readLock r \<noteq> 0"
  shows "\<exists>w'. walIndexRecover be os w = Some (SQLITE_OK, w')
    \<and> mxFrame (index w') = length whole \<and> live_mxFrame (index w') = length whole
    \<and> map_option fst (sqlite3WalFindFrame ios (reader_of r (index w') n) p) =
        Some (SQLITE_OK, latest (map fst whole) (minFrame r) n p)"
proof -
  let ?H = "header_bytes c (of_nat sz) ckpt salt" and ?s = "header_cksum c (of_nat sz) ckpt salt"
  have H: "length ?H = WAL_HDRSIZE" using header_fields(1) [OF assms(3)] .
  have "\<exists>w'. walIndexRecover be os w = Some (SQLITE_OK, w') \<and> wal_rep (index w') (map fst whole, [])"
  proof (cases "k \<le> WAL_HDRSIZE")
    case True
    then have "whole = []" "length (pWalFd w) \<le> WAL_HDRSIZE" by (simp_all add: assms(4,6))
    then show ?thesis using recover_short [OF assms(1), of be] by auto
  next
    case False
    let ?fs = "take ((k - WAL_HDRSIZE) div (sz + WAL_FRAME_HDRSIZE)) fs"
    obtain bs where bs: "take (k - WAL_HDRSIZE) (frames_bytes c salt ?s fs) = frames_bytes c salt ?s ?fs @ bs"
      "length bs < sz + WAL_FRAME_HDRSIZE"
      using frames_bytes_cut [OF assms(3,5)] by blast
    have "pWalFd w = ?H @ frames_bytes c salt ?s ?fs @ bs"
      using False H by (simp add: assms(4) bs(1))
    moreover have "\<forall>f \<in> set ?fs. frame_ok sz f" using assms(5) by (meson in_set_takeD)
    moreover have "torn c salt sz (frames_cksum c ?s ?fs) bs" using bs(2) by (simp add: torn_def)
    ultimately show ?thesis using recover_log [OF assms(1-3) _ refl, of c ckpt ?fs bs be] assms(6) by blast
  qed
  then obtain w' where w': "walIndexRecover be os w = Some (SQLITE_OK, w')" "wal_rep (index w') (map fst whole, [])"
    by blast
  have "n \<le> length (map fst whole @ [])" using assms(7) by simp
  from reader_finds [OF w'(2) this assms(8,9), of p] w' show ?thesis
    by (auto simp: wal_rep_def)
qed

section \<open>A crash\<close>

text \<open>A transaction of two frames, and a third frame that is not written completely.\<close>

definition demo_frames :: "frame list" where
  "demo_frames = [(5, 0, replicate 512 1), (7, 9, replicate 512 2), (5, 9, replicate 512 3)]"

definition demo_log_os :: log_os where
  "demo_log_os = \<lparr>index_os = demo_wal_os, lock_rc = (\<lambda>_ _. SQLITE_OK), size_rc = SQLITE_OK,
     read_rc = (\<lambda>_. SQLITE_OK), malloc_ok = True\<rparr>"

lemma demo_recover_facts:
  "recover_os demo_log_os (demo_log f)" "page_size_ok 512" "length demo_salt = 8"
  "\<forall>f \<in> set demo_frames. frame_ok 512 f" "\<forall>f \<in> set (take 2 demo_frames). frame_ok 512 f"
  "committed (take 2 demo_frames) = take 2 demo_frames"
  using demo_wal_facts(2)
  by (auto simp: recover_os_def demo_log_os_def demo_log_def demo_wal_def page_size_ok_def demo_salt_def
      demo_frames_def frame_ok_def committed_Cons commits_def)

definition demo_file :: "frame list \<Rightarrow> u8 list" where
  "demo_file fs = header_bytes True 512 0 demo_salt @ frames_bytes True demo_salt (header_cksum True 512 0 demo_salt) fs"

lemma demo_found: "latest (map fst (take 2 demo_frames)) 1 2 5 = 1" "length (take 2 demo_frames) = 2"
  by (simp_all add: demo_frames_def latest_def upt_rec)

lemma valid_prefix_recovered_witness:
  "\<exists>w'. walIndexRecover False demo_log_os (demo_log (demo_file (take 2 demo_frames) @ [1, 2, 3])) = Some (SQLITE_OK, w')
    \<and> mxFrame (index w') = 2 \<and> live_mxFrame (index w') = 2 \<and> nPage (hdr w') = 9 \<and> live_hdr w' = hdr w'
    \<and> map_option fst (sqlite3WalFindFrame demo_wal_os (reader_of demo_wal (index w') 2) 5) = Some (SQLITE_OK, 1)"
proof -
  let ?w = "demo_log (demo_file (take 2 demo_frames) @ [1, 2, 3])"
  have "pWalFd ?w = header_bytes True (of_nat 512) 0 demo_salt
      @ frames_bytes True demo_salt (header_cksum True (of_nat 512) 0 demo_salt) (take 2 demo_frames) @ [1, 2, 3]"
    by (simp add: demo_log_def demo_file_def)
  moreover have "torn True demo_salt 512 s [1, 2, 3]" for s by (simp add: torn_def)
  moreover have "fst (snd (last (take 2 demo_frames))) = 9" "take 2 demo_frames \<noteq> []" by (simp_all add: demo_frames_def)
  ultimately show ?thesis
    using valid_prefix_recovered [OF demo_recover_facts(1-3) _ demo_recover_facts(5) _ _ demo_wal_facts(2,3),
        of "demo_file (take 2 demo_frames) @ [1, 2, 3]" True 0 "[1, 2, 3]" 2 False 5]
    by (simp only: demo_recover_facts(6) demo_found demo_minFrame if_False le_refl simp_thms)
qed

lemma crash_recovery_witness:
  "\<exists>w'. walIndexRecover False demo_log_os (demo_log (take 1200 (demo_file demo_frames))) = Some (SQLITE_OK, w')
    \<and> mxFrame (index w') = 2 \<and> live_mxFrame (index w') = 2
    \<and> map_option fst (sqlite3WalFindFrame demo_wal_os (reader_of demo_wal (index w') 2) 5) = Some (SQLITE_OK, 1)"
proof -
  let ?w = "demo_log (take 1200 (demo_file demo_frames))"
  have fd: "pWalFd ?w = take 1200 (header_bytes True (of_nat 512) 0 demo_salt
      @ frames_bytes True demo_salt (header_cksum True (of_nat 512) 0 demo_salt) demo_frames)"
    by (simp add: demo_log_def demo_file_def)
  have whole: "take 2 demo_frames = committed (take ((1200 - WAL_HDRSIZE) div (512 + WAL_FRAME_HDRSIZE)) demo_frames)"
    using demo_recover_facts(6) by (simp add: WAL_HDRSIZE_def WAL_FRAME_HDRSIZE_def)
  have "2 \<le> length (take 2 demo_frames)" by (simp only: demo_found)
  from crash_recovery [OF demo_recover_facts(1-3) fd demo_recover_facts(4) whole this demo_wal_facts(2,3), of False 5]
  show ?thesis by (simp only: demo_found demo_minFrame)
qed

end
