(* ===== verification/WalUnreliable.thy ===== *)
theory WalUnreliable
  imports WalRecover
begin

text \<open>
  Reading a log whose shared memory cannot be trusted (\<open>walBeginShmUnreliable\<close> of \<open>wal.c\<close>): the
  index was rebuilt in heap memory, and the file is searched for a transaction that was
  committed since.
\<close>

section \<open>Code\<close>

abbreviation (input) "WAL_RETRY \<equiv> (-1 :: rc)"
abbreviation (input) "SQLITE_READONLY_CANTINIT \<equiv> (1288 :: rc)"

definition sqlite3WalEndWriteTransaction :: "wal_log \<Rightarrow> wal_log" where
  "sqlite3WalEndWriteTransaction w =
     (if writeLock (index w)
      then w\<lparr>index := (index w)\<lparr>writeLock := False\<rparr>, iReCksum := 0, truncateOnCommit := False\<rparr>
      else w)"

definition sqlite3WalEndReadTransaction :: "wal_log \<Rightarrow> wal_log" where
  "sqlite3WalEndReadTransaction w =
     (let w = sqlite3WalEndWriteTransaction w in
      if 0 \<le> readLock (index w) then w\<lparr>index := (index w)\<lparr>readLock := -1\<rparr>\<rparr> else w)"

text \<open>The results of the shared lock and of the request for the first page, besides those of the
  file.\<close>

record shm_os =
  file_os :: log_os
  shared_rc :: rc
  map_rc :: rc

text \<open>The loop over the frames behind the last one of the index; \<open>sz\<close> is \<open>hdr.szPage\<close>.\<close>

function unreliable_loop :: "bool \<Rightarrow> log_os \<Rightarrow> nat \<Rightarrow> nat \<Rightarrow> nat \<Rightarrow> wal_log \<Rightarrow> (rc \<times> wal_log) option" where
  "unreliable_loop be os szWal sz iOffset w =
     (let szFrame = sz + WAL_FRAME_HDRSIZE in
      if szWal < iOffset + szFrame then Some (SQLITE_OK, w)
      else if read_rc os iOffset \<noteq> SQLITE_OK then Some (read_rc os iOffset, w)
      else case walDecodeFrame be w (take szFrame (drop iOffset (pWalFd w))) of
        None \<Rightarrow> None
      | Some (None, w) \<Rightarrow> Some (SQLITE_OK, w)
      | Some (Some (pgno, nTruncate), w) \<Rightarrow>
          if nTruncate \<noteq> 0 then Some (WAL_RETRY, w)
          else unreliable_loop be os szWal sz (iOffset + szFrame) w)"
  by pat_completeness auto
termination
  by (relation "measure (\<lambda>(be, os, szWal, sz, iOffset, w). szWal - iOffset)")
    (auto simp: WAL_FRAME_HDRSIZE_def)

declare unreliable_loop.simps [simp del]

text \<open>At the label \<open>begin_unreliable_shm_out\<close>; the flag is the output \<open>pChanged\<close>.\<close>

definition unreliable_out :: "rc \<Rightarrow> bool \<Rightarrow> wal_log \<Rightarrow> rc \<times> bool \<times> wal_log" where
  "unreliable_out rc chg w =
     (if rc \<noteq> SQLITE_OK then
        (rc, True, sqlite3WalEndReadTransaction (w\<lparr>index := (index w)
           \<lparr>mapped := (\<lambda>i. \<not> i < nWiData (index w) \<and> mapped (index w) i), bShmUnreliable := False\<rparr>\<rparr>))
      else (rc, chg, w))"

definition walBeginShmUnreliable :: "bool \<Rightarrow> shm_os \<Rightarrow> wal_log \<Rightarrow> bool \<Rightarrow> (rc \<times> bool \<times> wal_log) option" where
  "walBeginShmUnreliable be os w chg =
     (let rc = (if exclusiveMode (index w) \<noteq> 0 then SQLITE_OK else shared_rc os); fos = file_os os in
      if rc \<noteq> SQLITE_OK then Some (unreliable_out (if rc = SQLITE_BUSY then WAL_RETRY else rc) chg w)
      else
        let w = w\<lparr>index := (index w)\<lparr>readLock := 0\<rparr>\<rparr> in
        if map_rc os \<noteq> SQLITE_READONLY_CANTINIT
        then Some (unreliable_out (if map_rc os = SQLITE_READONLY then WAL_RETRY else map_rc os) chg w)
        else
          let w = w\<lparr>hdr := live_hdr w, index := (index w)\<lparr>mxFrame := live_mxFrame (index w)\<rparr>\<rparr>;
              szWal = length (pWalFd w) in
          if size_rc fos \<noteq> SQLITE_OK then Some (unreliable_out (size_rc fos) chg w)
          else if szWal < WAL_HDRSIZE
          then Some (unreliable_out (if mxFrame (index w) = 0 then SQLITE_OK else WAL_RETRY) True w)
          else if read_rc fos 0 \<noteq> SQLITE_OK then Some (unreliable_out (read_rc fos 0) chg w)
          else if aSalt (hdr w) \<noteq> take 8 (drop 16 (pWalFd w)) then Some (unreliable_out WAL_RETRY chg w)
          else if \<not> malloc_ok fos then Some (unreliable_out SQLITE_NOMEM chg w)
          else do {
            let sz = unat (szPage16 (hdr w));
            let aSaveCksum = aFrameCksum (hdr w);
            (rc, w) \<leftarrow> unreliable_loop be fos szWal sz (walFrameOffset (mxFrame (index w) + 1) sz) w;
            Some (unreliable_out rc chg (w\<lparr>hdr := (hdr w)\<lparr>aFrameCksum := aSaveCksum\<rparr>\<rparr>))
          })"

section \<open>New transactions are noticed\<close>

lemma unreliable_loop_frames:
  assumes "szPage w = sz" "aSalt (hdr w) = salt" "bigEndCksum (hdr w) = c" "aFrameCksum (hdr w) = s"
    and "drop iOffset (pWalFd w) = frames_bytes c salt s fs @ bs"
    and "torn c salt sz (frames_cksum c s fs) bs" "\<forall>f \<in> set fs. frame_ok sz f" "iOffset \<le> length (pWalFd w)"
    and r: "\<forall>i. read_rc os i = SQLITE_OK" and salt: "length salt = 8"
  shows "\<exists>w'. unreliable_loop be os (length (pWalFd w)) sz iOffset w =
      Some (if committed fs = [] then SQLITE_OK else WAL_RETRY, w') \<and> index w' = index w"
  using assms(1-8)
proof (induction fs arbitrary: w s iOffset)
  case Nil
  show ?case
  proof (cases "length (pWalFd w) < iOffset + (sz + WAL_FRAME_HDRSIZE)")
    case True
    then show ?thesis by (subst unreliable_loop.simps) (simp add: Let_def)
  next
    case False
    then have nl: "\<not> length (drop iOffset (pWalFd w)) < szPage w + WAL_FRAME_HDRSIZE"
      using Nil(1) unfolding length_drop by linarith
    obtain s' where "walDecodeFrame be w (take (sz + WAL_FRAME_HDRSIZE) (drop iOffset (pWalFd w))) =
        Some (None, w\<lparr>hdr := (hdr w)\<lparr>aFrameCksum := s'\<rparr>\<rparr>)"
      using decode_torn [OF _ nl, of be] Nil by auto
    then show ?thesis using False r by (subst unreliable_loop.simps) (simp add: Let_def)
  qed
next
  case (Cons f fs)
  obtain p n d where f: "f = (p, n, d)" by (cases f)
  let ?sz = "sz + WAL_FRAME_HDRSIZE" and ?s = "frame_cksum c p n d s"
  define w1 where "w1 = w\<lparr>hdr := (hdr w)\<lparr>aFrameCksum := ?s\<rparr>\<rparr>"
  have ok: "p \<noteq> 0" "length d = sz" using Cons.prems(7) by (simp_all add: f frame_ok_def)
  have len: "length (frame_bytes c salt s p n d) = ?sz" using length_frame_bytes [OF salt] ok by simp
  have dr: "drop iOffset (pWalFd w) = frame_bytes c salt s p n d @ frames_bytes c salt ?s fs @ bs"
    using Cons.prems(5) by (simp add: f)
  have le: "iOffset + ?sz \<le> length (pWalFd w)"
    using arg_cong [OF dr, of length] len Cons.prems(8) by simp
  have dec: "walDecodeFrame be w (take ?sz (drop iOffset (pWalFd w))) = Some (Some (p, n), w1)"
    using walDecodeFrame_bytes [of d w p be n] ok salt Cons.prems(1-4) by (simp add: dr len w1_def)
  have step: "unreliable_loop be os (length (pWalFd w)) sz iOffset w =
      (if n \<noteq> 0 then Some (WAL_RETRY, w1) else unreliable_loop be os (length (pWalFd w)) sz (iOffset + ?sz) w1)"
    using le r dec by (subst unreliable_loop.simps) (simp add: Let_def)
  show ?case
  proof (cases "n = 0")
    case False
    then show ?thesis unfolding step by (simp add: f committed_Cons commits_def w1_def)
  next
    case True
    have "drop (iOffset + ?sz) (pWalFd w1) = frames_bytes c salt ?s fs @ bs"
      using arg_cong [OF dr, of "drop ?sz"] len by (simp add: w1_def add.commute)
    then have "\<exists>w'. unreliable_loop be os (length (pWalFd w1)) sz (iOffset + ?sz) w1 =
        Some (if committed fs = [] then SQLITE_OK else WAL_RETRY, w') \<and> index w' = index w1"
      using Cons.prems le by (intro Cons.IH) (simp_all add: w1_def f)
    then show ?thesis unfolding step using True
      by (cases "committed fs = []") (simp_all add: f committed_Cons commits_def w1_def)
  qed
qed

lemma frames_bytes_append:
  "frames_bytes c salt s (fs @ gs) = frames_bytes c salt s fs @ frames_bytes c salt (frames_cksum c s fs) gs"
  by (induction c salt s fs rule: frames_bytes.induct) simp_all

lemma length_frames_bytes:
  "length salt = 8 \<Longrightarrow> \<forall>f \<in> set fs. frame_ok sz f \<Longrightarrow>
   length (frames_bytes c salt s fs) = length fs * (sz + WAL_FRAME_HDRSIZE)"
  by (induction c salt s fs rule: frames_bytes.induct) (auto simp: length_frame_bytes frame_ok_def)

text \<open>With a page size in the header, walBeginShmUnreliable asks for a new index exactly if a
  transaction was committed behind the indexed frames\<close>

theorem unreliable_notices_commit:
  assumes "exclusiveMode (index w) = 0" "shared_rc os = SQLITE_OK" "map_rc os = SQLITE_READONLY_CANTINIT"
    and "size_rc (file_os os) = SQLITE_OK" "\<forall>i. read_rc (file_os os) i = SQLITE_OK" "malloc_ok (file_os os)"
    and "live_mxFrame (index w) = length fs" "unat (szPage16 (live_hdr w)) = szPage w"
    and "aSalt (live_hdr w) = salt" "length salt = 8" "bigEndCksum (live_hdr w) = c"
    and "aFrameCksum (live_hdr w) = frames_cksum c (header_cksum c sz ckpt salt) fs"
    and "pWalFd w = header_bytes c sz ckpt salt @ frames_bytes c salt (header_cksum c sz ckpt salt) (fs @ gs) @ bs"
    and "torn c salt (szPage w) (frames_cksum c (header_cksum c sz ckpt salt) (fs @ gs)) bs"
    and "\<forall>f \<in> set (fs @ gs). frame_ok (szPage w) f"
  shows "\<exists>chg' w'. walBeginShmUnreliable be os w chg =
      Some (if committed gs = [] then SQLITE_OK else WAL_RETRY, chg', w')
    \<and> (committed gs = [] \<longrightarrow> chg' = chg \<and> readLock (index w') = 0 \<and> mxFrame (index w') = length fs)
    \<and> (committed gs \<noteq> [] \<longrightarrow> chg' \<and> readLock (index w') = -1 \<and> \<not> bShmUnreliable (index w'))"
proof -
  let ?s = "header_cksum c sz ckpt salt" and ?sz = "szPage w + WAL_FRAME_HDRSIZE"
  let ?off = "WAL_HDRSIZE + length fs * ?sz"
  define v where "v = w\<lparr>hdr := live_hdr w, index := (index w)\<lparr>readLock := 0, mxFrame := live_mxFrame (index w)\<rparr>\<rparr>"
  have H: "length (header_bytes c sz ckpt salt) = WAL_HDRSIZE" "take 8 (drop 16 (pWalFd w)) = salt"
    using header_fields(1,6) [OF assms(10), of c sz ckpt] by (simp_all add: assms(13) WAL_HDRSIZE_def)
  have len: "length (frames_bytes c salt ?s fs) = length fs * ?sz"
    using length_frames_bytes [OF assms(10)] assms(15) by simp
  have dr: "drop ?off (pWalFd v) = frames_bytes c salt (frames_cksum c ?s fs) gs @ bs"
    using H(1) len by (simp add: v_def assms(13) frames_bytes_append)
  have le: "?off \<le> length (pWalFd v)" using H(1) len by (simp add: v_def assms(13) frames_bytes_append)
  have ck: "frames_cksum c s (fs @ gs) = frames_cksum c (frames_cksum c s fs) gs" for s
    by (induction c s fs rule: frames_cksum.induct) simp_all
  obtain w' where w': "unreliable_loop be (file_os os) (length (pWalFd v)) (szPage w) ?off v =
      Some (if committed gs = [] then SQLITE_OK else WAL_RETRY, w')" "index w' = index v"
    using unreliable_loop_frames [OF _ _ _ _ dr _ _ le assms(5,10), of "szPage w" be] assms(9,11,12,14,15)
    by (auto simp: v_def ck)
  have big: "\<not> length (pWalFd w) < WAL_HDRSIZE" using H(1) by (simp add: assms(13))
  have "walBeginShmUnreliable be os w chg = Some (unreliable_out (if committed gs = [] then SQLITE_OK else WAL_RETRY) chg
      (w'\<lparr>hdr := (hdr w')\<lparr>aFrameCksum := aFrameCksum (live_hdr w)\<rparr>\<rparr>))"
    using assms(1-9) H(2) big w'(1)
    by (simp add: walBeginShmUnreliable_def Let_def walFrameOffset_def v_def)
  moreover have "mxFrame (index w') = length fs" "readLock (index w') = 0"
    using w'(2) assms(7) by (simp_all add: v_def)
  ultimately show ?thesis
    by (auto simp: unreliable_out_def sqlite3WalEndReadTransaction_def sqlite3WalEndWriteTransaction_def Let_def)
qed

section \<open>The size of the buffer\<close>

text \<open>The page size of the header is written with a transaction that is committed; until then it is 0,
  also when recovery builds the index of a log whose frames are not committed.  The other facts are
  kept: the file, the page size of the file, and its salts.\<close>

lemma walHashGet_mxFrame: "walHashGet os w h = (rc, l, w') \<Longrightarrow> mxFrame w' = mxFrame w"
  by (auto simp: walHashGet_def walIndexPage_def walIndexPageRealloc_def Let_def split: if_splits prod.splits)

lemma set_loc_mxFrame [simp]: "mxFrame (set_loc l P H w) = mxFrame w"
  by (simp add: set_loc_def Let_def)

lemma walCleanupHash_mxFrame: "walCleanupHash os w = Some w' \<Longrightarrow> mxFrame w' = mxFrame w"
  by (auto simp: walCleanupHash_def Let_def split: if_splits prod.splits option.splits dest: walHashGet_mxFrame)

lemma walIndexAppend_mxFrame: "walIndexAppend os w f p = Some (rc, w') \<Longrightarrow> mxFrame w' = mxFrame w"
  by (auto simp: walIndexAppend_def Let_def split: if_splits prod.splits option.splits Option.bind_splits
      dest!: walHashGet_mxFrame walCleanupHash_mxFrame)

definition recovering :: "u8 list \<Rightarrow> nat \<Rightarrow> u8 list \<Rightarrow> wal_log \<Rightarrow> bool" where
  "recovering fd sz salt w \<longleftrightarrow> pWalFd w = fd \<and> szPage w = sz \<and> aSalt (hdr w) = salt
     \<and> (mxFrame (index w) = 0 \<longrightarrow> szPage16 (hdr w) = 0)"

lemma walDecodeFrame_recovering:
  "walDecodeFrame be w b = Some (r, w') \<Longrightarrow> recovering fd sz salt w \<Longrightarrow> recovering fd sz salt w'"
  by (auto simp: walDecodeFrame_def Let_def recovering_def split: if_splits Option.bind_splits)

lemma recover_loop_recovering:
  "recover_loop be os nSize iFrame iOffset aCk w = Some (rc, aCk', w') \<Longrightarrow> recovering fd sz salt w \<Longrightarrow> recovering fd sz salt w'"
proof (induction be os nSize iFrame iOffset aCk w arbitrary: rc aCk' w' rule: recover_loop.induct)
  case (1 be os nSize iFrame iOffset aCk w)
  let ?szF = "szPage w + WAL_FRAME_HDRSIZE"
  show ?case
  proof (cases "nSize < iOffset + ?szF \<or> read_rc os iOffset \<noteq> SQLITE_OK")
    case True
    then show ?thesis using 1(3,4) by (subst (asm) recover_loop.simps) (auto simp: Let_def split: if_splits)
  next
    case False
    then have go: "\<not> nSize < iOffset + ?szF" "\<not> read_rc os iOffset \<noteq> SQLITE_OK" by simp_all
    obtain r w1 where d: "walDecodeFrame be w (take ?szF (drop iOffset (pWalFd w))) = Some (r, w1)"
      using 1(3) go by (subst (asm) recover_loop.simps) (auto simp: Let_def split: option.splits)
    note w1 = walDecodeFrame_recovering [OF d 1(4)]
    show ?thesis
    proof (cases r)
      case None
      then show ?thesis using 1(3) go d w1 by (subst (asm) recover_loop.simps) (simp add: Let_def)
    next
      case (Some a)
      obtain p n where a: "r = Some (p, n)" using Some by (cases a) simp
      note d = d [unfolded a]
      obtain rc1 ix where ap: "walIndexAppend (index_os os) (index w1) (iFrame + 1) p = Some (rc1, ix)"
        using 1(3) go d by (subst (asm) recover_loop.simps) (auto simp: Let_def split: option.splits)
      let ?w = "w1\<lparr>index := ix\<rparr>"
      have w2: "recovering fd sz salt ?w" using w1 walIndexAppend_mxFrame [OF ap] by (simp add: recovering_def)
      have w3: "recovering fd sz salt (recover_commit n (iFrame + 1) ?w)" using w2 by (simp add: recovering_def recover_commit_def)
      consider (err) "rc1 \<noteq> SQLITE_OK" | (commit) "rc1 = SQLITE_OK" "n \<noteq> 0" | (frame) "rc1 = SQLITE_OK" "n = 0" by blast
      then show ?thesis
      proof cases
        case err
        then show ?thesis using 1(3) go d ap w2 by (subst (asm) recover_loop.simps) (simp add: Let_def)
      next
        case commit
        then have "recover_loop be os nSize (iFrame + 1) (iOffset + ?szF) (aFrameCksum (hdr ?w)) (recover_commit n (iFrame + 1) ?w)
            = Some (rc, aCk', w')" using 1(3) go d ap by (subst (asm) recover_loop.simps) (simp add: Let_def)
        from 1(1) [OF refl go d refl refl refl ap refl refl _ _ this w3] commit show ?thesis by simp
      next
        case frame
        then have "recover_loop be os nSize (iFrame + 1) (iOffset + ?szF) aCk ?w = Some (rc, aCk', w')"
          using 1(3) go d ap by (subst (asm) recover_loop.simps) (simp add: Let_def)
        from 1(2) [OF refl go d refl refl refl ap refl refl _ _ this w2] frame show ?thesis by simp
      qed
    qed
  qed
qed

lemma recover_header_reads:
  assumes "recover_header be os w = Some r" "page_size_ok sz" "length salt = 8" "pWalFd w = header_bytes c (of_nat sz) ckpt salt @ bs"
  obtains (fail) rc w' where "r = Fail rc w'" "rc \<noteq> SQLITE_OK"
  | (frames) w' where "r = Frames_follow w'" "pWalFd w' = pWalFd w" "szPage w' = sz" "aSalt (hdr w') = salt"
      "index w' = (index w)\<lparr>nCkpt := unat ckpt\<rparr>" "szPage16 (hdr w') = szPage16 (hdr w)"
proof -
  let ?H = "header_bytes c (of_nat sz) ckpt salt"
  note H = header_fields [OF assms(3), of c "of_nat sz" ckpt]
  have buf: "take WAL_HDRSIZE (pWalFd w) = ?H" using H(1) by (simp add: assms(4))
  have ck: "walChecksumBytes be (c = be) ?H (WAL_HDRSIZE - 2 * 4) (0, 0) = Some (header_cksum c (of_nat sz) ckpt salt)"
    using H(1,9) by (simp add: walChecksumBytes_file WAL_HDRSIZE_def header_cksum_def)
  show thesis
    using assms(1) page_size_okD [OF assms(2)] ck fail frames
    unfolding recover_header_def Let_def buf H
    by (auto simp: H magic split: if_splits)
qed

lemma recovered_header:
  assumes "walIndexRecover be os w0 = Some (SQLITE_OK, w)" "mxFrame (index w) = 0"
    and fd: "pWalFd w0 = header_bytes c (of_nat sz) ckpt salt @ frame_bytes c salt s p n d @ bs"
    and sz: "page_size_ok sz" and salt: "length salt = 8"
  shows "pWalFd w = pWalFd w0 \<and> szPage w = sz \<and> aSalt (live_hdr w) = salt \<and> szPage16 (live_hdr w) = 0
    \<and> live_mxFrame (index w) = 0"
proof -
  define w1 where "w1 = w0\<lparr>hdr := zero_hdr, index := (index w0)\<lparr>mxFrame := 0\<rparr>\<rparr>"
  have long: "\<not> length (pWalFd w0) \<le> WAL_HDRSIZE"
    using header_fields(1) [OF salt, of c "of_nat sz" ckpt] by (simp add: fd frame_bytes_def Let_def)
  have fd1: "pWalFd w1 = header_bytes c (of_nat sz) ckpt salt @ frame_bytes c salt s p n d @ bs" by (simp add: w1_def fd)
  obtain r where r: "recover_header be os w1 = Some r"
    and run: "(case r of Fail rc w \<Rightarrow> Some (rc, w) | Skip w \<Rightarrow> map_option (Pair SQLITE_OK) (recover_finish be (0, 0) w)
        | Frames_follow w \<Rightarrow> do {
            (rc, aCk, w) \<leftarrow> recover_loop be os (length (pWalFd w)) 0 WAL_HDRSIZE (0, 0) w;
            if rc = SQLITE_OK then map_option (Pair SQLITE_OK) (recover_finish be aCk w) else Some (rc, w)
          }) = Some (SQLITE_OK, w)"
    using assms(1) long fd1 fd unfolding walIndexRecover_def Let_def w1_def [symmetric]
    by (auto split: if_splits option.splits)
  show ?thesis
    using r sz salt fd1
  proof (cases rule: recover_header_reads)
    case (fail rc w')
    then show ?thesis using run by simp
  next
    case (frames w2)
    have w2: "recovering (pWalFd w0) sz salt w2" using frames by (simp add: recovering_def w1_def zero_hdr_def)
    obtain aCk w3 where l: "recover_loop be os (length (pWalFd w2)) 0 WAL_HDRSIZE (0, 0) w2 = Some (SQLITE_OK, aCk, w3)"
      and f: "recover_finish be aCk w3 = Some w" using run frames(1) by (auto split: Option.bind_splits if_splits)
    show ?thesis using recover_loop_recovering [OF l w2] f assms(2)
      by (auto simp: recovering_def recover_finish_def walIndexWriteHdr_def Let_def split: Option.bind_splits)
  qed
qed

text \<open>C29: When recovery rebuilt the index of a log without a committed transaction, walBeginShmUnreliable
  takes 0 for the size of a page: a frame with the salts of the log, which is in the file behind its
  header, gets a buffer of 24 bytes, and its checksum is computed behind the end of the buffer\<close>

theorem unreliable_overread:
  assumes "walIndexRecover be ros w0 = Some (SQLITE_OK, w)" "mxFrame (index w) = 0"
    and "pWalFd w0 = header_bytes c (of_nat sz) ckpt salt @ frame_bytes c salt s p n d @ bs"
    and "page_size_ok sz" "length salt = 8" "frame_ok sz (p, n, d)"
    and "shared_rc os = SQLITE_OK" "map_rc os = SQLITE_READONLY_CANTINIT"
    and "size_rc (file_os os) = SQLITE_OK" "\<forall>i. read_rc (file_os os) i = SQLITE_OK" "malloc_ok (file_os os)"
  shows "walBeginShmUnreliable be os (w\<lparr>index := (index w)\<lparr>exclusiveMode := WAL_NORMAL_MODE\<rparr>\<rparr>) chg = None"
proof -
  let ?H = "header_bytes c (of_nat sz) ckpt salt" and ?fb = "frame_bytes c salt s p n d"
  note rec = recovered_header [OF assms(1,2,3,4,5)]
  define v where "v = w\<lparr>hdr := live_hdr w, index := (index w)\<lparr>exclusiveMode := WAL_NORMAL_MODE, readLock := 0, mxFrame := live_mxFrame (index w)\<rparr>\<rparr>"
  have d: "p \<noteq> 0" "length d = sz" "512 \<le> length d" using assms(4,6) by (auto simp: frame_ok_def page_size_ok_def)
  note H = header_fields(1,6) [OF assms(5), of c "of_nat sz" ckpt]
  have len: "length ?fb = sz + WAL_FRAME_HDRSIZE" using length_frame_bytes [OF assms(5)] d by simp
  have off: "walFrameOffset (mxFrame (index v) + 1) 0 = WAL_HDRSIZE"
    by (simp add: walFrameOffset_def v_def rec)
  let ?b = "take WAL_FRAME_HDRSIZE ?fb"
  have buf: "take WAL_FRAME_HDRSIZE (drop WAL_HDRSIZE (pWalFd v)) = ?b"
    using H(1) len d by (simp add: v_def rec assms(3))
  have fields: "take 8 (drop 8 ?b) = salt" "sqlite3Get4byte ?b = Some p" "\<not> length ?b < 8"
    "length (drop WAL_FRAME_HDRSIZE ?b) < szPage w"
    using assms(5) d by (auto simp: rec frame_bytes_def Let_def WAL_FRAME_HDRSIZE_def drop_take take_Cons' get4_put4)
  have v: "aSalt (hdr v) = salt" "szPage v = szPage w" by (simp_all add: v_def rec)
  then have "walDecodeFrame be v ?b = None"
    using fields d(1) by (simp add: walDecodeFrame_def walChecksumBytes_def Let_def)
  then have "unreliable_loop be (file_os os) (length (pWalFd v)) 0 WAL_HDRSIZE v = None"
    using assms(10) H(1) len d by (subst unreliable_loop.simps) (simp add: Let_def buf v_def rec assms(3))
  moreover have "\<not> length (pWalFd v) < WAL_HDRSIZE" "take 8 (drop 16 (pWalFd v)) = salt"
    using H by (simp_all add: v_def rec assms(3) WAL_HDRSIZE_def)
  ultimately show ?thesis
    using assms(7-11) off v(1)
    by (simp add: walBeginShmUnreliable_def Let_def v_def rec WAL_NORMAL_MODE_def)
qed

section \<open>Two logs\<close>

definition demo_shm_os :: shm_os where
  "demo_shm_os = \<lparr>file_os = demo_log_os, shared_rc = SQLITE_OK, map_rc = SQLITE_READONLY_CANTINIT\<rparr>"

lemma demo_shm_facts:
  "exclusiveMode (index (demo_log f)) = 0" "shared_rc demo_shm_os = SQLITE_OK" "map_rc demo_shm_os = SQLITE_READONLY_CANTINIT"
  "size_rc (file_os demo_shm_os) = SQLITE_OK" "\<forall>i. read_rc (file_os demo_shm_os) i = SQLITE_OK" "malloc_ok (file_os demo_shm_os)"
  "live_mxFrame (index (demo_log f)) = 0" "aSalt (live_hdr (demo_log f)) = demo_salt" "length demo_salt = 8"
  by (simp_all add: demo_log_def demo_wal_def WAL_NORMAL_MODE_def demo_shm_os_def demo_log_os_def demo_salt_def)

text \<open>The file has a frame that is not committed yet.\<close>

lemma unreliable_overread_witness:
  "\<exists>w. walIndexRecover False demo_log_os (demo_log (demo_file [(5, 0, replicate 512 1)])) = Some (SQLITE_OK, w)
    \<and> walBeginShmUnreliable False demo_shm_os (w\<lparr>index := (index w)\<lparr>exclusiveMode := WAL_NORMAL_MODE\<rparr>\<rparr>) False = None"
proof -
  let ?w = "demo_log (demo_file [(5, 0, replicate 512 1)])" and ?s = "header_cksum True (of_nat 512) 0 demo_salt"
  have fd: "pWalFd ?w = header_bytes True (of_nat 512) 0 demo_salt @ frames_bytes True demo_salt ?s [(5, 0, replicate 512 1)] @ []"
    "pWalFd ?w = header_bytes True (of_nat 512) 0 demo_salt @ frame_bytes True demo_salt ?s 5 0 (replicate 512 1) @ []"
    by (simp_all add: demo_log_def demo_file_def)
  have ok: "\<forall>f \<in> set [(5, 0, replicate 512 1) :: frame]. frame_ok 512 f" "frame_ok 512 (5, 0, replicate 512 1)"
    by (simp_all add: frame_ok_def)
  have t: "torn True demo_salt 512 s []" for s by (simp add: torn_def)
  have none: "committed [(5, 0, replicate 512 1) :: frame] = []" by (simp add: committed_Cons commits_def)
  obtain w where w: "walIndexRecover False demo_log_os ?w = Some (SQLITE_OK, w)" "mxFrame (index w) = 0"
    using recover_log [OF demo_recover_facts(1-3) fd(1) refl ok(1) t, of False] unfolding none by (auto simp: wal_rep_def)
  from unreliable_overread [OF w fd(2) demo_recover_facts(2,3) ok(2) demo_shm_facts(2-6)] w(1) show ?thesis by blast
qed

text \<open>A transaction was committed since the index was built.\<close>

definition demo_stale :: wal_log where
  "demo_stale = (demo_log (demo_file (take 2 demo_frames)))\<lparr>live_hdr := \<lparr>iVersion = 0, iChange = 0, isInit = True,
     bigEndCksum = True, szPage16 = 512, nPage = 0, aFrameCksum = header_cksum True 512 0 demo_salt,
     aSalt = demo_salt, aCksum = (0, 0)\<rparr>\<rparr>"

lemma unreliable_notices_commit_witness:
  "\<exists>chg' w'. walBeginShmUnreliable False demo_shm_os demo_stale False = Some (WAL_RETRY, chg', w')
    \<and> chg' \<and> readLock (index w') = -1 \<and> \<not> bShmUnreliable (index w')"
proof -
  have w: "exclusiveMode (index demo_stale) = 0" "live_mxFrame (index demo_stale) = length ([] :: frame list)"
    "unat (szPage16 (live_hdr demo_stale)) = szPage demo_stale" "aSalt (live_hdr demo_stale) = demo_salt"
    "bigEndCksum (live_hdr demo_stale) = True"
    "aFrameCksum (live_hdr demo_stale) = frames_cksum True (header_cksum True 512 0 demo_salt) []"
    "pWalFd demo_stale = header_bytes True 512 0 demo_salt
       @ frames_bytes True demo_salt (header_cksum True 512 0 demo_salt) ([] @ take 2 demo_frames) @ []"
    "torn True demo_salt (szPage demo_stale) s []"
    "\<forall>f \<in> set ([] @ take 2 demo_frames). frame_ok (szPage demo_stale) f" for s
    using demo_shm_facts(1,7) demo_recover_facts(5)
    by (simp_all add: demo_stale_def demo_file_def demo_log_def torn_def)
  have "committed (take 2 demo_frames) \<noteq> []" unfolding demo_recover_facts(6) by (simp add: demo_frames_def)
  then show ?thesis
    using unreliable_notices_commit [OF w(1) demo_shm_facts(2-6) w(2-4) demo_shm_facts(9) w(5-9), of False False] by simp
qed

end
