(* ===== verification/WalRead.thy ===== *)
theory WalRead
  imports WalUnreliable
begin

text \<open>
  Read transactions on the write-ahead log (\<open>wal.c\<close>): reading the header of the wal-index,
  choosing a read mark, and retrying.  Other connections act between any two accesses to shared
  memory: what they do there is a parameter, as are the results of the locks.
\<close>

section \<open>Other connections\<close>

abbreviation (input) "SQLITE_PROTOCOL \<equiv> (15 :: rc)"
abbreviation (input) "SQLITE_BUSY_RECOVERY \<equiv> (261 :: rc)"
abbreviation (input) "SQLITE_BUSY_SNAPSHOT \<equiv> (517 :: rc)"
abbreviation (input) "SQLITE_READONLY_RECOVERY \<equiv> (264 :: rc)"
abbreviation (input) "SQLITE_IOERR_SHORT_READ \<equiv> (522 :: rc)"

definition WAL_WRITE_LOCK :: nat where "WAL_WRITE_LOCK = 0"
definition WAL_RECOVER_LOCK :: nat where "WAL_RECOVER_LOCK = 2"
definition WAL_READ_LOCK :: "nat \<Rightarrow> nat" where "WAL_READ_LOCK i = 3 + i"

record shared =
  sh_pages :: "nat \<Rightarrow> wal_page"
  sh_hdr :: "wal_hdr \<times> nat"
  sh_second :: "wal_hdr \<times> nat"
  sh_info :: walCkptInfo
  sh_file :: "u8 list"

record read_os =
  shm :: shm_os
  others :: "nat \<Rightarrow> shared \<Rightarrow> shared"
  try_lock :: "nat \<Rightarrow> bool \<Rightarrow> nat \<Rightarrow> nat \<Rightarrow> rc"   \<comment> \<open>call, exclusive, first byte, bytes\<close>

text \<open>One step of the others.  Heap memory is private.\<close>

definition tick :: "read_os \<Rightarrow> wal_log \<Rightarrow> wal_log" where
  "tick os w =
     (let s = others os (calls w) \<lparr>sh_pages = apWiData (index w), sh_hdr = (live_hdr w, live_mxFrame (index w)),
          sh_second = second_hdr w, sh_info = info w, sh_file = pWalFd w\<rparr>;
          w = w\<lparr>calls := calls w + 1, pWalFd := sh_file s\<rparr> in
      if exclusiveMode (index w) = WAL_HEAPMEMORY_MODE then w
      else w\<lparr>index := (index w)\<lparr>apWiData := sh_pages s, live_mxFrame := snd (sh_hdr s)\<rparr>,
             live_hdr := fst (sh_hdr s), second_hdr := sh_second s, info := sh_info s\<rparr>)"

definition wal_lock :: "read_os \<Rightarrow> bool \<Rightarrow> nat \<Rightarrow> nat \<Rightarrow> wal_log \<Rightarrow> rc \<times> wal_log" where
  "wal_lock os excl lockIdx n w =
     (if exclusiveMode (index w) \<noteq> 0 then (SQLITE_OK, w)
      else let w = tick os w in (try_lock os (calls w) excl lockIdx n, w))"

section \<open>The header\<close>

definition same_hdr :: "wal_log \<Rightarrow> bool" where
  "same_hdr w \<longleftrightarrow> live_hdr w = hdr w \<and> live_mxFrame (index w) = mxFrame (index w)"

text \<open>Whether the header is bad, and whether it has changed.\<close>

definition walIndexTryHdr :: "bool \<Rightarrow> read_os \<Rightarrow> wal_log \<Rightarrow> bool \<Rightarrow> (bool \<times> bool \<times> wal_log) option" where
  "walIndexTryHdr be os w chg =
     (let w = tick os w; h1 = (live_hdr w, live_mxFrame (index w));
          w = tick os w; h2 = second_hdr w in
      if h1 \<noteq> h2 then Some (True, chg, w)
      else if \<not> isInit (fst h1) then Some (True, chg, w)
      else do {
        c \<leftarrow> walChecksumBytes be True (hdr_bytes be (fst h1) (snd h1)) 40 (0, 0);
        Some (if c \<noteq> aCksum (fst h1) then (True, chg, w)
              else if (hdr w, mxFrame (index w)) \<noteq> h1
              then (False, True, w\<lparr>hdr := fst h1, index := (index w)\<lparr>mxFrame := snd h1\<rparr>,
                      szPage := walPagesize (szPage16 (fst h1))\<rparr>)
              else (False, chg, w))
      })"

text \<open>The first page of the index.  A page of heap memory starts with zeroes, the header in it
  included.\<close>

definition header_page :: "read_os \<Rightarrow> wal_log \<Rightarrow> (rc \<times> bool) \<times> wal_log" where
  "header_page os w =
     (let fresh = (exclusiveMode (index w) = WAL_HEAPMEMORY_MODE \<and> (nWiData (index w) = 0 \<or> \<not> mapped (index w) 0));
          (r, ix) = walIndexPage (index_os (file_os (shm os))) (index w) 0;
          w = w\<lparr>index := ix\<rparr> in
      (r, if fresh \<and> snd r
          then w\<lparr>live_hdr := zero_hdr, index := (index w)\<lparr>live_mxFrame := 0\<rparr>, second_hdr := (zero_hdr, 0),
                 info := \<lparr>nBackfill = 0, aReadMark = (\<lambda>_. 0), nBackfillAttempted = 0\<rparr>\<rparr>
          else w))"

text \<open>Under the lock of the writer.\<close>

definition locked_hdr :: "bool \<Rightarrow> read_os \<Rightarrow> wal_log \<Rightarrow> bool \<Rightarrow> (rc \<times> bool \<times> bool \<times> wal_log) option" where
  "locked_hdr be os w chg =
     (let w = w\<lparr>index := (index w)\<lparr>writeLock := True\<rparr>\<rparr>; ((rc, page0), w) = header_page os w in do {
        (rc, bad, chg, w) \<leftarrow>
          (if rc = SQLITE_OK then do {
             (bad, chg, w) \<leftarrow> (if page0 then walIndexTryHdr be os w chg else None);
             if bad then do { (rc, w) \<leftarrow> walIndexRecover be (file_os (shm os)) w; Some (rc, True, True, w) }
             else Some (rc, False, chg, w)
           }
           else Some (rc, True, chg, w));
        Some (rc, bad, chg, w\<lparr>index := (index w)\<lparr>writeLock := False\<rparr>\<rparr>)
      })"

text \<open>At the end of \<open>walIndexReadHdr\<close>: heap memory that is of no use is freed.\<close>

definition readhdr_out :: "rc \<Rightarrow> wal_log \<Rightarrow> rc \<times> wal_log" where
  "readhdr_out rc w =
     (if bShmUnreliable (index w) then
        let (rc, w) = (if rc \<noteq> SQLITE_OK
              then (if rc = SQLITE_IOERR_SHORT_READ then WAL_RETRY else rc,
                    w\<lparr>index := (index w)\<lparr>mapped := (\<lambda>i. \<not> i < nWiData (index w) \<and> mapped (index w) i),
                                        bShmUnreliable := False\<rparr>\<rparr>)
              else (rc, w))
        in (rc, w\<lparr>index := (index w)\<lparr>exclusiveMode := WAL_NORMAL_MODE\<rparr>\<rparr>)
      else (rc, w))"

definition walIndexReadHdr :: "bool \<Rightarrow> read_os \<Rightarrow> wal_log \<Rightarrow> bool \<Rightarrow> (rc \<times> bool \<times> wal_log) option" where
  "walIndexReadHdr be os w chg =
     (let ((rc, page0), w) = header_page os w in
      if rc \<noteq> SQLITE_OK \<and> rc \<noteq> SQLITE_READONLY_CANTINIT then Some (rc, chg, w)
      else
        let (w, chg) = (if rc \<noteq> SQLITE_OK
              then (w\<lparr>index := (index w)\<lparr>bShmUnreliable := True, exclusiveMode := WAL_HEAPMEMORY_MODE\<rparr>\<rparr>, True)
              else (w, chg)) in do {
          (bad, chg, w) \<leftarrow> (if page0 then walIndexTryHdr be os w chg else Some (True, chg, w));
          (rc, bad, chg, w) \<leftarrow>
            (if \<not> bad then Some (rc, bad, chg, w)
             else if \<not> bShmUnreliable (index w) \<and> readOnly (index w) AND WAL_SHM_RDONLY \<noteq> 0 then
               let (rc, w) = wal_lock os False WAL_WRITE_LOCK 1 w in
               Some (if rc = SQLITE_OK then SQLITE_READONLY_RECOVERY else rc, bad, chg, w)
             else
               let (rc, w) = wal_lock os True WAL_WRITE_LOCK 1 w in
               if rc = SQLITE_OK then locked_hdr be os w chg else Some (rc, bad, chg, w));
          let rc = (if \<not> bad \<and> iVersion (hdr w) \<noteq> WALINDEX_MAX_VERSION then SQLITE_CANTOPEN else rc);
          let (rc, w) = readhdr_out rc w;
          Some (rc, chg, w)
        })"

section \<open>Read marks\<close>

text \<open>The largest mark that is not above the last frame, with its index.\<close>

fun choose_mark :: "read_os \<Rightarrow> nat list \<Rightarrow> wal_log \<Rightarrow> nat \<Rightarrow> nat \<Rightarrow> nat \<times> nat \<times> wal_log" where
  "choose_mark os [] w mxReadMark mxI = (mxReadMark, mxI, w)"
| "choose_mark os (i # is) w mxReadMark mxI =
     (let w = tick os w; thisMark = aReadMark (info w) i in
      if mxReadMark \<le> thisMark \<and> thisMark \<le> mxFrame (index w) then choose_mark os is w thisMark i
      else choose_mark os is w mxReadMark mxI)"

text \<open>A mark that is not in use is set to the last frame.  \<open>None\<close> for the mark when none is
  free.\<close>

fun claim_mark :: "read_os \<Rightarrow> nat list \<Rightarrow> wal_log \<Rightarrow> rc \<times> nat option \<times> wal_log" where
  "claim_mark os [] w = (SQLITE_BUSY, None, w)"
| "claim_mark os (i # is) w =
     (let (rc, w) = wal_lock os True (WAL_READ_LOCK i) 1 w in
      if rc = SQLITE_OK then
        (SQLITE_OK, Some i, w\<lparr>info := (info w)\<lparr>aReadMark := (aReadMark (info w))(i := mxFrame (index w))\<rparr>\<rparr>)
      else if rc \<noteq> SQLITE_BUSY then (rc, None, w)
      else claim_mark os is w)"

definition marks :: "nat list" where "marks = [1 ..< WAL_NREADER]"

text \<open>The part of \<open>walTryBeginRead\<close> behind the test for a log that is completely in the database;
  \<open>rc\<close> is the result of the operations before.\<close>

definition lock_mark :: "read_os \<Rightarrow> rc \<Rightarrow> wal_log \<Rightarrow> rc \<times> wal_log" where
  "lock_mark os rc w =
     (let (mxReadMark, mxI, w) = choose_mark os marks w 0 0;
          rdonly = (readOnly (index w) AND WAL_SHM_RDONLY \<noteq> 0);
          claim = (\<not> rdonly \<and> (mxReadMark < mxFrame (index w) \<or> mxI = 0));
          (rc, got, w) = (if claim then claim_mark os marks w else (rc, None, w)) in
      if claim \<and> rc \<noteq> SQLITE_OK \<and> rc \<noteq> SQLITE_BUSY then (rc, w)
      else
        let (mxReadMark, mxI) = (case got of Some i \<Rightarrow> (mxFrame (index w), i) | None \<Rightarrow> (mxReadMark, mxI)) in
        if mxI = 0 then (if rc = SQLITE_BUSY then WAL_RETRY else SQLITE_READONLY_CANTINIT, w)
        else
          let (rc, w) = wal_lock os False (WAL_READ_LOCK mxI) 1 w in
          if rc \<noteq> SQLITE_OK then (if rc = SQLITE_BUSY then WAL_RETRY else rc, w)
          else
            let w = tick os w;
                w = w\<lparr>index := (index w)\<lparr>minFrame := nBackfill (info w) + 1\<rparr>\<rparr>;
                w = tick os w in
            if aReadMark (info w) mxI \<noteq> mxReadMark \<or> \<not> same_hdr w then (WAL_RETRY, w)
            else (SQLITE_OK, w\<lparr>index := (index w)\<lparr>readLock := int mxI\<rparr>\<rparr>))"

definition walTryBeginRead :: "bool \<Rightarrow> read_os \<Rightarrow> bool \<Rightarrow> nat \<Rightarrow> wal_log \<Rightarrow> bool \<Rightarrow> (rc \<times> bool \<times> wal_log) option" where
  "walTryBeginRead be os useWal cnt w chg =
     (if 100 < cnt then Some (SQLITE_PROTOCOL, chg, w)
      else if useWal then let (rc, w) = lock_mark os SQLITE_OK w in Some (rc, chg, w)
      else do {
        (rc, chg, w) \<leftarrow> (if \<not> bShmUnreliable (index w) then walIndexReadHdr be os w chg else Some (SQLITE_OK, chg, w));
        let (rc, w) =
          (if rc \<noteq> SQLITE_BUSY then (rc, w)
           else if nWiData (index w) = 0 \<or> \<not> mapped (index w) 0 then (WAL_RETRY, w)
           else
             let (rc, w) = wal_lock os False WAL_RECOVER_LOCK 1 w in
             (if rc = SQLITE_OK then WAL_RETRY else if rc = SQLITE_BUSY then SQLITE_BUSY_RECOVERY else rc, w));
        if rc \<noteq> SQLITE_OK then Some (rc, chg, w)
        else if bShmUnreliable (index w) then walBeginShmUnreliable be (shm os) w chg
        else
          let w = tick os w in
          if nBackfill (info w) = mxFrame (index w) then
            let (rc, w) = wal_lock os False (WAL_READ_LOCK 0) 1 w; w = tick os w in
            if rc = SQLITE_OK then
              if \<not> same_hdr w then Some (WAL_RETRY, chg, w)
              else Some (SQLITE_OK, chg, w\<lparr>index := (index w)\<lparr>readLock := 0\<rparr>\<rparr>)
            else if rc \<noteq> SQLITE_BUSY then Some (rc, chg, w)
            else let (rc, w) = lock_mark os rc w in Some (rc, chg, w)
          else let (rc, w) = lock_mark os rc w in Some (rc, chg, w)
      })"

text \<open>The loop of \<open>sqlite3WalBeginReadTransaction\<close>, with fuel; \<open>None\<close> inside stands for no fuel left.\<close>

fun begin_read_loop :: "nat \<Rightarrow> bool \<Rightarrow> read_os \<Rightarrow> nat \<Rightarrow> wal_log \<Rightarrow> bool \<Rightarrow> (rc \<times> bool \<times> wal_log) option option" where
  "begin_read_loop 0 be os cnt w chg = None"
| "begin_read_loop (Suc n) be os cnt w chg =
     (case walTryBeginRead be os False (cnt + 1) w chg of
        None \<Rightarrow> Some None
      | Some (rc, chg, w) \<Rightarrow>
          if rc = WAL_RETRY then begin_read_loop n be os (cnt + 1) w chg else Some (Some (rc, chg, w)))"

definition sqlite3WalBeginReadTransaction :: "bool \<Rightarrow> read_os \<Rightarrow> wal_log \<Rightarrow> bool \<Rightarrow> (rc \<times> bool \<times> wal_log) option option" where
  "sqlite3WalBeginReadTransaction be os w chg = begin_read_loop 101 be os 0 w chg"

section \<open>Write transactions\<close>

definition sqlite3WalBeginWriteTransaction :: "read_os \<Rightarrow> wal_log \<Rightarrow> rc \<times> wal_log" where
  "sqlite3WalBeginWriteTransaction os w =
     (if readOnly (index w) \<noteq> 0 then (SQLITE_READONLY, w)
      else
        let (rc, w) = wal_lock os True WAL_WRITE_LOCK 1 w in
        if rc \<noteq> SQLITE_OK then (rc, w)
        else
          let w = tick os (w\<lparr>index := (index w)\<lparr>writeLock := True\<rparr>\<rparr>) in
          if \<not> same_hdr w then (SQLITE_BUSY_SNAPSHOT, w\<lparr>index := (index w)\<lparr>writeLock := False\<rparr>\<rparr>)
          else (SQLITE_OK, w))"

section \<open>Retrying ends\<close>

lemma walTryBeginRead_gives_up: "100 < cnt \<Longrightarrow> walTryBeginRead be os useWal cnt w chg = Some (SQLITE_PROTOCOL, chg, w)"
  by (simp add: walTryBeginRead_def)

lemma begin_read_loop_ends:
  "0 < n \<Longrightarrow> 101 \<le> cnt + n \<Longrightarrow>
   \<exists>r. begin_read_loop n be os cnt w chg = Some r \<and> (\<forall>rc chg' w'. r = Some (rc, chg', w') \<longrightarrow> rc \<noteq> WAL_RETRY)"
proof (induction n arbitrary: cnt w chg)
  case 0
  then show ?case by simp
next
  case (Suc n)
  show ?case
  proof (cases "walTryBeginRead be os False (cnt + 1) w chg")
    case None
    then show ?thesis by simp
  next
    case (Some x)
    obtain rc chg1 w1 where x: "x = (rc, chg1, w1)" by (cases x)
    show ?thesis
    proof (cases "rc = WAL_RETRY")
      case False
      then show ?thesis using Some x by simp
    next
      case True
      then have "\<not> 100 < cnt + 1" using Some x walTryBeginRead_gives_up [of "cnt + 1" be os False w chg] by auto
      then have "0 < n" "101 \<le> cnt + 1 + n" using Suc.prems by simp_all
      from Suc.IH [OF this, of w1 chg1] show ?thesis using Some x True by simp
    qed
  qed
qed

text \<open>C32: Sqlite3WalBeginReadTransaction returns after at most 101 attempts, whatever other
  connections do and whatever the locks answer, and never returns WAL_RETRY\<close>

theorem begin_read_terminates:
  "\<exists>r. sqlite3WalBeginReadTransaction be os w chg = Some r
     \<and> (case r of None \<Rightarrow> True | Some (rc, _) \<Rightarrow> rc \<noteq> WAL_RETRY)"
  using begin_read_loop_ends [of 101 0 be os w chg]
  by (auto simp: sqlite3WalBeginReadTransaction_def split: option.splits prod.splits)

section \<open>What a read transaction holds\<close>

text \<open>The header is the one in shared memory, and the mark that is locked is not above its last
  frame.\<close>

definition snapshot_taken :: "wal_log \<Rightarrow> bool" where
  "snapshot_taken w \<longleftrightarrow> same_hdr w \<and> (readLock (index w) = 0
     \<or> (\<exists>i. i \<in> set marks \<and> readLock (index w) = int i \<and> aReadMark (info w) i \<le> mxFrame (index w)
          \<and> 0 < minFrame (index w)))"

lemma tick_own [simp]:
  "mxFrame (index (tick os w)) = mxFrame (index w)" "hdr (tick os w) = hdr w" "readOnly (index (tick os w)) = readOnly (index w)"
  "readLock (index (tick os w)) = readLock (index w)" "minFrame (index (tick os w)) = minFrame (index w)"
  "exclusiveMode (index (tick os w)) = exclusiveMode (index w)" "writeLock (index (tick os w)) = writeLock (index w)"
  by (simp_all add: tick_def Let_def)

lemma wal_lock_own:
  "wal_lock os e i n w = (rc, w') \<Longrightarrow> mxFrame (index w') = mxFrame (index w) \<and> hdr w' = hdr w
     \<and> writeLock (index w') = writeLock (index w)"
  by (auto simp: wal_lock_def Let_def split: if_splits)

lemma choose_mark_le:
  "choose_mark os is w m i = (m', i', w') \<Longrightarrow> m \<le> mxFrame (index w) \<Longrightarrow> i = 0 \<or> i \<in> set marks \<Longrightarrow> set is \<subseteq> set marks \<Longrightarrow>
   m' \<le> mxFrame (index w) \<and> (i' = 0 \<or> i' \<in> set marks) \<and> mxFrame (index w') = mxFrame (index w)"
  by (induction os "is" w m i rule: choose_mark.induct) (force simp: Let_def split: if_splits)+

lemma claim_mark_in:
  "claim_mark os is w = (rc, got, w') \<Longrightarrow> set is \<subseteq> set marks \<Longrightarrow>
   mxFrame (index w') = mxFrame (index w) \<and> (\<forall>i. got = Some i \<longrightarrow> i \<in> set marks \<and> rc = SQLITE_OK)"
proof (induction "is" arbitrary: w)
  case Nil
  then show ?case by simp
next
  case (Cons i "is")
  obtain r v where l: "wal_lock os True (WAL_READ_LOCK i) 1 w = (r, v)" by force
  then show ?case using Cons wal_lock_own [OF l] by (auto simp: Let_def split: if_splits)
qed

lemma lock_mark_snapshot:
  assumes "lock_mark os rc w = (SQLITE_OK, w')"
  shows "snapshot_taken w'"
proof -
  obtain m i w1 where c: "choose_mark os marks w 0 0 = (m, i, w1)" by (cases "choose_mark os marks w 0 0")
  have m: "m \<le> mxFrame (index w1)" "i = 0 \<or> i \<in> set marks"
    using choose_mark_le [OF c] by auto
  define claim where "claim = (\<not> readOnly (index w1) AND WAL_SHM_RDONLY \<noteq> 0 \<and> (m < mxFrame (index w1) \<or> i = 0))"
  obtain r got w2 where g: "(if claim then claim_mark os marks w1 else (rc, None, w1)) = (r, got, w2)"
    by (cases "if claim then claim_mark os marks w1 else (rc, None, w1)")
  define m' where "m' = (case got of Some i \<Rightarrow> mxFrame (index w2) | None \<Rightarrow> m)"
  define i' where "i' = (case got of Some i \<Rightarrow> i | None \<Rightarrow> i)"
  have m': "m' \<le> mxFrame (index w2)" "i' = 0 \<or> i' \<in> set marks"
    using g m claim_mark_in [of os marks w1 r got w2] by (auto simp: m'_def i'_def split: if_splits option.splits)
  obtain r3 w3 where l: "wal_lock os False (WAL_READ_LOCK i') 1 w2 = (r3, w3)" by force
  define w4 where "w4 = tick os w3"
  define w5 where "w5 = tick os (w4\<lparr>index := (index w4)\<lparr>minFrame := nBackfill (info w4) + 1\<rparr>\<rparr>)"
  have "lock_mark os rc w =
     (if claim \<and> r \<noteq> SQLITE_OK \<and> r \<noteq> SQLITE_BUSY then (r, w2)
      else if i' = 0 then (if r = SQLITE_BUSY then WAL_RETRY else SQLITE_READONLY_CANTINIT, w2)
      else if r3 \<noteq> SQLITE_OK then (if r3 = SQLITE_BUSY then WAL_RETRY else r3, w3)
      else if aReadMark (info w5) i' \<noteq> m' \<or> \<not> same_hdr w5 then (WAL_RETRY, w5)
      else (SQLITE_OK, w5\<lparr>index := (index w5)\<lparr>readLock := int i'\<rparr>\<rparr>))"
    unfolding lock_mark_def c using g l
    by (cases got) (simp_all add: claim_def Let_def m'_def i'_def w4_def w5_def)
  then have w': "i' \<noteq> 0" "aReadMark (info w5) i' = m'" "same_hdr w5" "w' = w5\<lparr>index := (index w5)\<lparr>readLock := int i'\<rparr>\<rparr>"
    using assms by (auto split: if_splits)
  have "mxFrame (index w5) = mxFrame (index w2)" "minFrame (index w5) = nBackfill (info w4) + 1"
    using wal_lock_own [OF l] by (simp_all add: w5_def w4_def)
  then show ?thesis using w' m' by (auto simp: snapshot_taken_def same_hdr_def)
qed

lemma unreliable_loop_changes:
  "unreliable_loop be os szWal sz iOffset w = Some (rc, w') \<Longrightarrow> \<exists>s. w' = w\<lparr>hdr := (hdr w)\<lparr>aFrameCksum := s\<rparr>\<rparr>"
proof (induction be os szWal sz iOffset w arbitrary: rc w' rule: unreliable_loop.induct)
  case (1 be os szWal sz iOffset w)
  let ?dec = "walDecodeFrame be w (take (sz + WAL_FRAME_HDRSIZE) (drop iOffset (pWalFd w)))"
  show ?case
  proof (cases "szWal < iOffset + (sz + WAL_FRAME_HDRSIZE) \<or> read_rc os iOffset \<noteq> SQLITE_OK")
    case True
    then have "w' = w" using 1(2) by (subst (asm) unreliable_loop.simps) (auto simp: Let_def split: if_splits)
    then show ?thesis using hdr_same by auto
  next
    case False
    then obtain x w1 where d: "?dec = Some (x, w1)"
      using 1(2) by (subst (asm) unreliable_loop.simps) (auto simp: Let_def split: option.splits)
    obtain s where w1: "w1 = w\<lparr>hdr := (hdr w)\<lparr>aFrameCksum := s\<rparr>\<rparr>" using walDecodeFrame_changes [OF d] by blast
    show ?thesis
    proof (cases "\<exists>pgno. x = Some (pgno, 0)")
      case no: False
      then have "w' = w1" using 1(2) False d
        by (subst (asm) unreliable_loop.simps) (auto simp: Let_def split: option.splits if_splits)
      then show ?thesis using w1 by blast
    next
      case True
      then obtain pgno where x: "x = Some (pgno, 0)" by blast
      then have "unreliable_loop be os szWal sz (iOffset + (sz + WAL_FRAME_HDRSIZE)) w1 = Some (rc, w')"
        using 1(2) False d by (subst (asm) unreliable_loop.simps) (auto simp: Let_def)
      then have "\<exists>s. w' = w1\<lparr>hdr := (hdr w1)\<lparr>aFrameCksum := s\<rparr>\<rparr>"
        using 1(1) [OF refl _ _ d refl x refl] False by simp
      then show ?thesis using w1 by auto
    qed
  qed
qed

lemma unreliable_out_ok: "unreliable_out rc chg w = (SQLITE_OK, chg', w') \<Longrightarrow> rc = SQLITE_OK \<and> w' = w"
  by (auto simp: unreliable_out_def split: if_splits)

lemma unreliable_snapshot:
  assumes "map_rc os \<noteq> SQLITE_OK" "walBeginShmUnreliable be os w chg = Some (SQLITE_OK, chg', w')"
  shows "snapshot_taken w'"
  using assms unfolding walBeginShmUnreliable_def Let_def
  by (auto simp: snapshot_taken_def same_hdr_def split: if_splits Option.bind_splits
      dest!: unreliable_out_ok [OF sym] unreliable_out_ok unreliable_loop_changes)

lemma walTryBeginRead_snapshot:
  assumes "map_rc (shm os) \<noteq> SQLITE_OK" "walTryBeginRead be os useWal cnt w chg = Some (SQLITE_OK, chg', w')"
  shows "snapshot_taken w'"
  using assms(2) unfolding walTryBeginRead_def Let_def
  by (auto simp: snapshot_taken_def same_hdr_def split: if_splits Option.bind_splits prod.splits
      dest!: lock_mark_snapshot unreliable_snapshot [OF assms(1)])

lemma begin_read_loop_snapshot:
  "map_rc (shm os) \<noteq> SQLITE_OK \<Longrightarrow> begin_read_loop n be os cnt w chg = Some (Some (SQLITE_OK, chg', w')) \<Longrightarrow> snapshot_taken w'"
  by (induction n arbitrary: cnt w chg)
    (auto split: option.splits if_splits dest: walTryBeginRead_snapshot)

text \<open>C33: A read transaction that has begun holds the header that is in shared memory and a read mark
  that is not above its last frame, whatever other connections did between the steps\<close>

theorem begin_read_snapshot:
  assumes "map_rc (shm os) \<noteq> SQLITE_OK"
    and "sqlite3WalBeginReadTransaction be os w chg = Some (Some (SQLITE_OK, chg', w'))"
  shows "live_hdr w' = hdr w' \<and> live_mxFrame (index w') = mxFrame (index w')
    \<and> (readLock (index w') = 0
       \<or> (\<exists>i. 1 \<le> i \<and> i < WAL_NREADER \<and> readLock (index w') = int i \<and> aReadMark (info w') i \<le> mxFrame (index w')
            \<and> 0 < minFrame (index w')))"
  using begin_read_loop_snapshot [OF assms(1)] assms(2)
  by (fastforce simp: sqlite3WalBeginReadTransaction_def snapshot_taken_def same_hdr_def marks_def)

text \<open>A write begins only when the header of the read transaction is still the latest one.\<close>

theorem write_needs_latest:
  "sqlite3WalBeginWriteTransaction os w = (rc, w') \<Longrightarrow>
     (if rc = SQLITE_OK then writeLock (index w') \<and> live_hdr w' = hdr w \<and> live_mxFrame (index w') = mxFrame (index w)
      else writeLock (index w') \<longrightarrow> writeLock (index w))
     \<and> hdr w' = hdr w \<and> mxFrame (index w') = mxFrame (index w)"
  by (auto simp: sqlite3WalBeginWriteTransaction_def Let_def same_hdr_def split: if_splits prod.splits
      dest!: wal_lock_own)

section \<open>A reader\<close>

text \<open>A header that was written is accepted.\<close>

lemma tick_alone: "(\<And>n s. others os n s = s) \<Longrightarrow> tick os w = w\<lparr>calls := calls w + 1\<rparr>"
  by (simp add: tick_def Let_def)

lemma hdr_bytes_cksum: "hdr_bytes be (h\<lparr>aCksum := c\<rparr>) mx = hdr_bytes be h mx"
  by (simp add: hdr_bytes_def)

lemma written_header_accepted:
  assumes "walIndexWriteHdr be w = Some w'" and o: "\<And>n s. others os n s = s"
  shows "walIndexTryHdr be os w' chg = Some (False, chg, w'\<lparr>calls := calls w' + 2\<rparr>)"
proof -
  define h where "h = (hdr w)\<lparr>isInit := True, iVersion := WALINDEX_MAX_VERSION\<rparr>"
  obtain c where c: "walChecksumBytes be True (hdr_bytes be h (mxFrame (index w))) 40 (0, 0) = Some c"
    and w': "w' = w\<lparr>hdr := h\<lparr>aCksum := c\<rparr>, second_hdr := (h\<lparr>aCksum := c\<rparr>, mxFrame (index w)),
      live_hdr := h\<lparr>aCksum := c\<rparr>, index := (index w)\<lparr>live_mxFrame := mxFrame (index w)\<rparr>\<rparr>"
    using assms(1) by (auto simp: walIndexWriteHdr_def Let_def h_def split: Option.bind_splits)
  have "isInit h" by (simp add: h_def)
  then show ?thesis by (simp add: walIndexTryHdr_def Let_def tick_alone [OF o] w' c hdr_bytes_cksum)
qed

definition demo_read_os :: read_os where
  "demo_read_os = \<lparr>shm = demo_shm_os, others = (\<lambda>_ s. s), try_lock = (\<lambda>_ _ _ _. SQLITE_OK)\<rparr>"

definition demo_before :: wal_log where
  "demo_before = (demo_log [])\<lparr>index := demo_wal\<lparr>mapped := (\<lambda>_. True), nWiData := 1, mxFrame := 2, readLock := -1\<rparr>\<rparr>"

definition demo_shared :: wal_log where
  "demo_shared = the (walIndexWriteHdr False demo_before)"

lemma demo_shared_hdr: "walIndexWriteHdr False demo_before = Some demo_shared"
  by (simp add: demo_shared_def walIndexWriteHdr_def walChecksumBytes_def hdr_bytes_def native_bytes_def Let_def
      demo_before_def demo_log_def demo_salt_def)

lemma walIndexWriteHdr_fields:
  "walIndexWriteHdr be w = Some w' \<Longrightarrow> index w' = (index w)\<lparr>live_mxFrame := mxFrame (index w)\<rparr> \<and> live_hdr w' = hdr w'
     \<and> iVersion (hdr w') = WALINDEX_MAX_VERSION \<and> info w' = info w"
  by (auto simp: walIndexWriteHdr_def Let_def split: Option.bind_splits)

lemma demo_shared_fields:
  "index demo_shared = (index demo_before)\<lparr>live_mxFrame := 2\<rparr>" "live_hdr demo_shared = hdr demo_shared"
  "iVersion (hdr demo_shared) = WALINDEX_MAX_VERSION" "info demo_shared = info demo_before"
  using walIndexWriteHdr_fields [OF demo_shared_hdr] by (simp_all add: demo_before_def)

lemma demo_marks: "marks = [1, 2, 3, 4]"
  by (simp add: marks_def WAL_NREADER_def upt_rec)

lemma demo_alone: "others demo_read_os n s = s" "try_lock demo_read_os n e i k = SQLITE_OK"
  by (simp_all add: demo_read_os_def)

lemma demo_begin_read:
  "\<exists>w'. sqlite3WalBeginReadTransaction False demo_read_os demo_shared False = Some (Some (SQLITE_OK, False, w'))
     \<and> readLock (index w') = 1"
proof -
  have page: "header_page demo_read_os demo_shared = ((SQLITE_OK, True), demo_shared)"
  proof -
    have "nWiData (index demo_shared) = 1" "mapped (index demo_shared) 0" by (simp_all add: demo_shared_fields demo_before_def)
    then show ?thesis by (simp add: header_page_def walIndexPage_def Let_def)
  qed
  have "walIndexReadHdr False demo_read_os demo_shared False =
      Some (SQLITE_OK, False, demo_shared\<lparr>calls := calls demo_shared + 2\<rparr>)"
    by (simp add: walIndexReadHdr_def page written_header_accepted [OF demo_shared_hdr demo_alone(1)] Let_def
        demo_shared_fields readhdr_out_def demo_before_def demo_wal_def)
  then show ?thesis
    by (simp add: sqlite3WalBeginReadTransaction_def numeral_eq_Suc walTryBeginRead_def Let_def tick_alone [OF demo_alone(1)]
        demo_shared_fields demo_before_def demo_wal_def lock_mark_def demo_marks wal_lock_def demo_alone same_hdr_def
        demo_log_def WAL_NORMAL_MODE_def WAL_SHM_RDONLY_def)
qed

lemma begin_read_snapshot_witness:
  "\<exists>w'. sqlite3WalBeginReadTransaction False demo_read_os demo_shared False = Some (Some (SQLITE_OK, False, w'))
     \<and> live_hdr w' = hdr w' \<and> live_mxFrame (index w') = mxFrame (index w') \<and> aReadMark (info w') 1 \<le> mxFrame (index w')"
proof -
  obtain w' where w': "sqlite3WalBeginReadTransaction False demo_read_os demo_shared False = Some (Some (SQLITE_OK, False, w'))"
    "readLock (index w') = 1"
    using demo_begin_read by blast
  have "map_rc (shm demo_read_os) \<noteq> SQLITE_OK" by (simp add: demo_read_os_def demo_shm_os_def)
  from begin_read_snapshot [OF this w'(1)] w' show ?thesis by (intro exI [of _ w']) auto
qed

end
