(* ===== verification/FileBytes.thy ===== *)
theory FileBytes
  imports Prelude
begin

text \<open>
  The content of a file as a list of bytes: writing at an offset (\<open>xWrite\<close>) fills a gap with
  zeroes, truncating (\<open>xTruncate\<close>) may extend the file with zeroes, and a page of the database
  that is not there is read as zeroes, as the pager does.
\<close>

definition write_at :: "u8 list \<Rightarrow> nat \<Rightarrow> u8 list \<Rightarrow> u8 list" where
  "write_at f off bs =
     (if bs = [] then f
      else take off f @ replicate (off - length f) 0 @ bs @ drop (off + length bs) f)"

definition truncate_to :: "u8 list \<Rightarrow> nat \<Rightarrow> u8 list" where
  "truncate_to f n = take n f @ replicate (n - length f) 0"

definition byte :: "u8 list \<Rightarrow> nat \<Rightarrow> u8" where
  "byte f i = (if i < length f then f ! i else 0)"

definition file_page :: "nat \<Rightarrow> u8 list \<Rightarrow> nat \<Rightarrow> u8 list" where
  "file_page sz f p = map (byte f) [(p - 1) * sz ..< (p - 1) * sz + sz]"

lemma length_write_at: "bs \<noteq> [] \<Longrightarrow> length (write_at f off bs) = max (length f) (off + length bs)"
  by (auto simp: write_at_def max_def min_def)

lemma byte_write_at: "byte (write_at f off bs) i = (if off \<le> i \<and> i < off + length bs then bs ! (i - off) else byte f i)"
  by (auto simp: byte_def length_write_at write_at_def nth_append min_def)

lemma byte_truncate: "byte (truncate_to f n) i = (if i < n then byte f i else 0)"
  by (auto simp: byte_def truncate_to_def nth_append min_def)

text \<open>Pages.\<close>

lemma page_disjoint: "0 < p \<Longrightarrow> 0 < q \<Longrightarrow> p \<noteq> q \<Longrightarrow> (p - 1) * sz \<le> i \<Longrightarrow> i < (p - 1) * sz + sz \<Longrightarrow>
    \<not> ((q - 1) * sz \<le> i \<and> i < (q - 1) * sz + sz)" for p q sz i :: nat
proof
  assume a: "0 < p" "0 < q" "p \<noteq> q" "(p - 1) * sz \<le> i" "i < (p - 1) * sz + sz" "(q - 1) * sz \<le> i \<and> i < (q - 1) * sz + sz"
  have "i div sz = p - 1" using a(4,5) by (intro div_nat_eqI) (simp_all add: mult.commute)
  moreover have "i div sz = q - 1" using a(6) by (intro div_nat_eqI) (simp_all add: mult.commute)
  ultimately show False using a(1-3) by simp
qed

lemma file_page_other:
  assumes "0 < p" "0 < q" "p \<noteq> q" "length bs \<le> sz"
  shows "file_page sz (write_at f ((q - 1) * sz) bs) p = file_page sz f p"
  using page_disjoint [OF assms(1-3), of sz] assms(4)
  by (force simp: file_page_def byte_write_at)

lemma file_page_same: "length bs = sz \<Longrightarrow> file_page sz (write_at f ((p - 1) * sz) bs) p = bs"
  by (simp add: file_page_def byte_write_at list_eq_iff_nth_eq)

lemma file_page_truncate: "0 < p \<Longrightarrow> p \<le> n \<Longrightarrow> file_page sz (truncate_to f (n * sz)) p = file_page sz f p"
proof -
  assume p: "0 < p" "p \<le> n"
  have "(p - 1) * sz + sz = p * sz" using p(1) by (cases p) simp_all
  moreover have "p * sz \<le> n * sz" using p(2) by simp
  ultimately have "(p - 1) * sz + sz \<le> n * sz" by simp
  then show ?thesis by (simp add: file_page_def byte_truncate)
qed

end
