(* ===== verification/WalCheckpoint.thy ===== *)
theory WalCheckpoint
  imports WalIterator WalRead FileBytes
begin

text \<open>
  Checkpoints (\<open>walCheckpoint\<close>, \<open>sqlite3WalCheckpoint\<close> of \<open>wal.c\<close>): the content of the log is copied
  back to the database file.  What other connections do in between is the parameter \<open>others\<close> of
  \<open>read_os\<close>; the results of locks, of the busy handler and of the file operations are parameters
  too.  A write that fails may have written a part of the page.
\<close>

section \<open>Code\<close>

abbreviation (input) "SQLITE_INTERRUPT \<equiv> (9 :: rc)"
definition WAL_CKPT_LOCK :: nat where "WAL_CKPT_LOCK = 1"
definition SQLITE_CHECKPOINT_PASSIVE :: nat where "SQLITE_CHECKPOINT_PASSIVE = 0"
definition SQLITE_CHECKPOINT_FULL :: nat where "SQLITE_CHECKPOINT_FULL = 1"
definition SQLITE_CHECKPOINT_RESTART :: nat where "SQLITE_CHECKPOINT_RESTART = 2"
definition SQLITE_CHECKPOINT_TRUNCATE :: nat where "SQLITE_CHECKPOINT_TRUNCATE = 3"

record ckpt_os =
  rd :: read_os
  iter_malloc :: bool
  tmp_malloc :: bool
  log_sync_rc :: rc
  db_size_rc :: rc
  db_write_rc :: "nat \<Rightarrow> rc"
  db_written :: "nat \<Rightarrow> nat"     \<comment> \<open>the number of bytes of a write that fails\<close>
  db_trunc_rc :: rc
  db_sync_rc :: rc
  log_trunc_rc :: rc
  interrupted :: "u32 \<Rightarrow> bool"
  mallocFailed :: bool
  salt1 :: "u8 list"             \<comment> \<open>4 random bytes\<close>

definition log_read_rc :: "ckpt_os \<Rightarrow> nat \<Rightarrow> rc" where
  "log_read_rc os = read_rc (file_os (shm (rd os)))"

text \<open>A busy handler is a function of the time, \<open>None\<close> for a NULL pointer.  The loop need not end.\<close>

type_synonym busy = "(nat \<Rightarrow> bool) option"

partial_function (option) walBusyLock :: "read_os \<Rightarrow> busy \<Rightarrow> nat \<Rightarrow> nat \<Rightarrow> wal_log \<Rightarrow> (rc \<times> wal_log) option" where
  "walBusyLock os xBusy lockIdx n w =
     (let (rc, w) = wal_lock os True lockIdx n w in
      case xBusy of
        None \<Rightarrow> Some (rc, w)
      | Some handler \<Rightarrow>
          if rc = SQLITE_BUSY \<and> handler (calls w) then walBusyLock os xBusy lockIdx n w
          else Some (rc, w))"

text \<open>The first word of the salt is incremented, the second one is random.\<close>

definition walRestartHdr :: "bool \<Rightarrow> u8 list \<Rightarrow> wal_log \<Rightarrow> wal_log option" where
  "walRestartHdr be salt w = do {
     s \<leftarrow> sqlite3Get4byte (aSalt (hdr w));
     w \<leftarrow> walIndexWriteHdr be (w\<lparr>
       index := (index w)\<lparr>nCkpt := nCkpt (index w) + 1, mxFrame := 0\<rparr>,
       hdr := (hdr w)\<lparr>aSalt := sqlite3Put4byte (1 + s) @ salt\<rparr>\<rparr>);
     Some (w\<lparr>info := \<lparr>nBackfill = 0,
       aReadMark = (\<lambda>i. if i = 1 then 0 else if 2 \<le> i \<and> i < WAL_NREADER then READMARK_NOT_USED else aReadMark (info w) i),
       nBackfillAttempted = 0\<rparr>\<rparr>)
   }"

text \<open>The loop over the read marks: the result, whether to leave, the busy handler, \<open>mxSafeFrame\<close>.\<close>

fun ckpt_marks :: "read_os \<Rightarrow> busy \<Rightarrow> nat list \<Rightarrow> rc \<Rightarrow> nat \<Rightarrow> wal_log \<Rightarrow> (rc \<times> bool \<times> busy \<times> nat \<times> wal_log) option" where
  "ckpt_marks os xBusy [] rc mxSafeFrame w = Some (rc, False, xBusy, mxSafeFrame, w)"
| "ckpt_marks os xBusy (i # is) rc mxSafeFrame w =
     (let w = tick os w; y = aReadMark (info w) i in
      if y < mxSafeFrame then do {
        (rc, w) \<leftarrow> walBusyLock os xBusy (WAL_READ_LOCK i) 1 w;
        if rc = SQLITE_OK then
          ckpt_marks os xBusy is rc mxSafeFrame (w\<lparr>info := (info w)\<lparr>aReadMark :=
            (aReadMark (info w))(i := if i = 1 then mxSafeFrame else READMARK_NOT_USED)\<rparr>\<rparr>)
        else if rc = SQLITE_BUSY then ckpt_marks os None is rc y w
        else Some (rc, True, xBusy, mxSafeFrame, w)
      }
      else ckpt_marks os xBusy is rc mxSafeFrame w)"

text \<open>The loop over the pages.\<close>

function copy_loop :: "ckpt_os \<Rightarrow> nat \<Rightarrow> nat \<Rightarrow> u32 \<Rightarrow> nat \<Rightarrow> wal_iterator \<Rightarrow> nat \<Rightarrow> wal_log \<Rightarrow> u8 list
    \<Rightarrow> rc \<times> wal_log \<times> u8 list" where
  "copy_loop os nBackfl mxSafeFrame mxPage sz p piFrame w db =
     (case walIteratorNext p piFrame of
        (True, _) \<Rightarrow> (SQLITE_OK, w, db)
      | (False, iDbpage, iFrame, p) \<Rightarrow>
          if interrupted os iDbpage then (if mallocFailed os then SQLITE_NOMEM else SQLITE_INTERRUPT, w, db)
          else if iFrame \<le> nBackfl \<or> mxSafeFrame < iFrame \<or> mxPage < iDbpage
          then copy_loop os nBackfl mxSafeFrame mxPage sz p iFrame w db
          else
            let w = tick (rd os) w; iOffset = walFrameOffset iFrame sz + WAL_FRAME_HDRSIZE in
            if log_read_rc os iOffset \<noteq> SQLITE_OK then (log_read_rc os iOffset, w, db)
            else
              let zBuf = take sz (drop iOffset (pWalFd w)); iOffset = (unat iDbpage - 1) * sz; rc = db_write_rc os iOffset in
              if rc \<noteq> SQLITE_OK then (rc, w, write_at db iOffset (take (db_written os iOffset) zBuf))
              else copy_loop os nBackfl mxSafeFrame mxPage sz p iFrame w (write_at db iOffset zBuf))"
  by pat_completeness auto
termination
  by (relation "measure (\<lambda>(os, b, m, g, sz, p, f, w, db). 2 ^ 32 - unat (iPrior p))")
    (auto intro: walIteratorNext_less)

declare copy_loop.simps [simp del]

text \<open>Under the exclusive lock on read lock 0.  The hint about the size has no effect here.\<close>

definition ckpt_copy :: "ckpt_os \<Rightarrow> nat \<Rightarrow> u32 \<Rightarrow> nat \<Rightarrow> wal_iterator \<Rightarrow> wal_log \<Rightarrow> u8 list \<Rightarrow> rc \<times> wal_log \<times> u8 list" where
  "ckpt_copy os mxSafeFrame mxPage sz p w db =
     (let w = tick (rd os) w; nBackfl = nBackfill (info w);
          w = w\<lparr>info := (info w)\<lparr>nBackfillAttempted := mxSafeFrame\<rparr>\<rparr>;
          rc = log_sync_rc os;
          rc = (if rc = SQLITE_OK then db_size_rc os else rc);
          (rc, w, db) = (if rc = SQLITE_OK then copy_loop os nBackfl mxSafeFrame mxPage sz p 0 w db else (rc, w, db)) in
      if rc \<noteq> SQLITE_OK then (rc, w, db)
      else
        let w = tick (rd os) w;
            (rc, db) = (if mxSafeFrame = live_mxFrame (index w) then
                if db_trunc_rc os \<noteq> SQLITE_OK then (db_trunc_rc os, db)
                else (db_sync_rc os, truncate_to db (unat (nPage (hdr w)) * sz))
              else (SQLITE_OK, db)) in
        (rc, if rc = SQLITE_OK then w\<lparr>info := (info w)\<lparr>nBackfill := mxSafeFrame\<rparr>\<rparr> else w, db))"

text \<open>The part of \<open>walCheckpoint\<close> for the modes that wait for readers.\<close>

definition ckpt_restart :: "bool \<Rightarrow> ckpt_os \<Rightarrow> nat \<Rightarrow> busy \<Rightarrow> rc \<Rightarrow> wal_log \<Rightarrow> (rc \<times> wal_log) option" where
  "ckpt_restart be os eMode xBusy rc w =
     (if rc \<noteq> SQLITE_OK \<or> eMode = SQLITE_CHECKPOINT_PASSIVE then Some (rc, w)
      else
        let w = tick (rd os) w in
        if nBackfill (info w) < mxFrame (index w) then Some (SQLITE_BUSY, w)
        else if SQLITE_CHECKPOINT_RESTART \<le> eMode then do {
          (rc, w) \<leftarrow> walBusyLock (rd os) xBusy (WAL_READ_LOCK 1) (WAL_NREADER - 1) w;
          if rc = SQLITE_OK \<and> eMode = SQLITE_CHECKPOINT_TRUNCATE then do {
            w \<leftarrow> walRestartHdr be (salt1 os) w;
            Some (log_trunc_rc os, if log_trunc_rc os = SQLITE_OK then w\<lparr>pWalFd := []\<rparr> else w)
          }
          else Some (rc, w)
        }
        else Some (rc, w))"

text \<open>The iterator is allocated when there is something to copy.\<close>

definition ckpt_backfill :: "ckpt_os \<Rightarrow> busy \<Rightarrow> nat \<Rightarrow> u32 \<Rightarrow> nat \<Rightarrow> rc \<Rightarrow> wal_log \<Rightarrow> u8 list \<Rightarrow> (rc \<times> wal_log \<times> u8 list) option" where
  "ckpt_backfill os xBusy mxSafeFrame mxPage sz rc w db =
     (let w = tick (rd os) w in
      if nBackfill (info w) < mxSafeFrame then do {
        (rc, pIter, ix) \<leftarrow> walIteratorInit (index_os (file_os (shm (rd os)))) (iter_malloc os) (tmp_malloc os)
          (index w) (nBackfill (info w));
        let w = w\<lparr>index := ix\<rparr>;
        (case pIter of
           None \<Rightarrow> Some (rc, w, db)
         | Some p \<Rightarrow> do {
             (rc, w) \<leftarrow> walBusyLock (rd os) xBusy (WAL_READ_LOCK 0) 1 w;
             Some (if rc = SQLITE_OK then ckpt_copy os mxSafeFrame mxPage sz p w db else (rc, w, db))
           })
      }
      else Some (rc, w, db))"

definition walCheckpoint :: "bool \<Rightarrow> ckpt_os \<Rightarrow> nat \<Rightarrow> busy \<Rightarrow> wal_log \<Rightarrow> u8 list \<Rightarrow> (rc \<times> wal_log \<times> u8 list) option" where
  "walCheckpoint be os eMode xBusy w db =
     (let sz = walPagesize (szPage16 (hdr w)); w = tick (rd os) w in
      if nBackfill (info w) < mxFrame (index w) then do {
        let mxPage = nPage (hdr w);
        (rc, leave, xBusy, mxSafeFrame, w) \<leftarrow> ckpt_marks (rd os) xBusy [1 ..< WAL_NREADER] SQLITE_OK (mxFrame (index w)) w;
        if leave then Some (rc, w, db)
        else do {
          (rc, w, db) \<leftarrow> ckpt_backfill os xBusy mxSafeFrame mxPage sz rc w db;
          (rc, w) \<leftarrow> ckpt_restart be os eMode xBusy (if rc = SQLITE_BUSY then SQLITE_OK else rc) w;
          Some (rc, w, db)
        }
      }
      else do {
        (rc, w) \<leftarrow> ckpt_restart be os eMode xBusy SQLITE_OK w;
        Some (rc, w, db)
      })"

text \<open>The outputs \<open>pnLog\<close> and \<open>pnCkpt\<close> are \<open>None\<close> when they are not set.\<close>

definition sqlite3WalCheckpoint :: "bool \<Rightarrow> ckpt_os \<Rightarrow> nat \<Rightarrow> busy \<Rightarrow> nat \<Rightarrow> wal_log \<Rightarrow> u8 list
    \<Rightarrow> (rc \<times> (nat \<times> nat) option \<times> wal_log \<times> u8 list) option" where
  "sqlite3WalCheckpoint be os eMode xBusy nBuf w db =
     (if readOnly (index w) \<noteq> 0 then Some (SQLITE_READONLY, None, w, db)
      else
        let (rc, w) = wal_lock (rd os) True WAL_CKPT_LOCK 1 w in
        if rc \<noteq> SQLITE_OK then Some (rc, None, w, db)
        else do {
          let w = w\<lparr>ckptLock := 1\<rparr>;
          (rc, eMode2, xBusy2, w) \<leftarrow>
            (if eMode \<noteq> SQLITE_CHECKPOINT_PASSIVE then do {
               (rc, w) \<leftarrow> walBusyLock (rd os) xBusy WAL_WRITE_LOCK 1 w;
               Some (if rc = SQLITE_OK then (rc, eMode, xBusy, w\<lparr>index := (index w)\<lparr>writeLock := True\<rparr>\<rparr>)
                     else if rc = SQLITE_BUSY then (SQLITE_OK, SQLITE_CHECKPOINT_PASSIVE, None, w)
                     else (rc, eMode, xBusy, w))
             }
             else Some (SQLITE_OK, eMode, xBusy, w));
          (rc, isChanged, w) \<leftarrow> (if rc = SQLITE_OK then walIndexReadHdr be (rd os) w False else Some (rc, False, w));
          (rc, out, w, db) \<leftarrow>
            (if rc = SQLITE_OK then do {
               (rc, w, db) \<leftarrow>
                 (if mxFrame (index w) \<noteq> 0 \<and> walPagesize (szPage16 (hdr w)) \<noteq> nBuf then Some (SQLITE_CORRUPT, w, db)
                  else walCheckpoint be os eMode2 xBusy2 w db);
               Some (rc, if rc = SQLITE_OK \<or> rc = SQLITE_BUSY then Some (mxFrame (index w), nBackfill (info w)) else None, w, db)
             }
             else Some (rc, None, w, db));
          let w = (if isChanged then w\<lparr>hdr := zero_hdr, index := (index w)\<lparr>mxFrame := 0\<rparr>\<rparr> else w);
          let w = (sqlite3WalEndWriteTransaction w)\<lparr>ckptLock := 0\<rparr>;
          Some (if rc = SQLITE_OK \<and> eMode \<noteq> eMode2 then SQLITE_BUSY else rc, out, w, db)
        })"

text \<open>Reading a frame, and limiting the size of the file: an error is only logged.\<close>

definition sqlite3WalReadFrame :: "log_os \<Rightarrow> wal_log \<Rightarrow> nat \<Rightarrow> nat \<Rightarrow> rc \<times> u8 list" where
  "sqlite3WalReadFrame os w iRead nOut =
     (let sz = walPagesize (szPage16 (hdr w)); iOffset = walFrameOffset iRead sz + WAL_FRAME_HDRSIZE in
      (read_rc os iOffset, take (if sz < nOut then sz else nOut) (drop iOffset (pWalFd w))))"

definition walLimitSize :: "rc \<Rightarrow> rc \<Rightarrow> nat \<Rightarrow> wal_log \<Rightarrow> wal_log" where
  "walLimitSize rcSize rcTrunc nMax w =
     (if rcSize = SQLITE_OK \<and> nMax < length (pWalFd w) \<and> rcTrunc = SQLITE_OK
      then w\<lparr>pWalFd := truncate_to (pWalFd w) nMax\<rparr> else w)"

text \<open>Starting the log again, when the reader uses only the database file; \<open>free\<close> is the result of
  the exclusive lock on the read marks.  The loop ends after 101 attempts, see \<open>restart_loop_ends\<close>.\<close>

fun restart_loop :: "nat \<Rightarrow> bool \<Rightarrow> read_os \<Rightarrow> nat \<Rightarrow> wal_log \<Rightarrow> (rc \<times> wal_log) option" where
  "restart_loop 0 be os cnt w = None"
| "restart_loop (Suc n) be os cnt w =
     (case walTryBeginRead be os True (cnt + 1) w False of
        None \<Rightarrow> None
      | Some (rc, chg, w) \<Rightarrow> if rc = WAL_RETRY then restart_loop n be os (cnt + 1) w else Some (rc, w))"

definition walRestartLog :: "bool \<Rightarrow> read_os \<Rightarrow> u8 list \<Rightarrow> wal_log \<Rightarrow> (rc \<times> wal_log) option" where
  "walRestartLog be os salt w =
     (if readLock (index w) \<noteq> 0 then Some (SQLITE_OK, w)
      else do {
        let w = tick os w;
        (rc, w) \<leftarrow>
          (if 0 < nBackfill (info w) then
             let (rc, w) = wal_lock os True (WAL_READ_LOCK 1) (WAL_NREADER - 1) w in
             if rc = SQLITE_OK then do { w \<leftarrow> walRestartHdr be salt w; Some (SQLITE_OK, w) } else Some (rc, w)
           else Some (SQLITE_OK, w));
        if rc \<noteq> SQLITE_OK \<and> rc \<noteq> SQLITE_BUSY then Some (rc, w)
        else restart_loop 101 be os 0 (w\<lparr>index := (index w)\<lparr>readLock := -1\<rparr>\<rparr>)
      })"

section \<open>Other connections\<close>

definition shared_of :: "wal_log \<Rightarrow> shared" where
  "shared_of w = \<lparr>sh_pages = apWiData (index w), sh_hdr = (live_hdr w, live_mxFrame (index w)),
     sh_second = second_hdr w, sh_info = info w, sh_file = pWalFd w\<rparr>"

text \<open>A condition on shared memory that others keep, and that the checkpoint keeps when it changes a
  mark whose lock it got.\<close>

definition stable :: "read_os \<Rightarrow> (shared \<Rightarrow> bool) \<Rightarrow> bool" where
  "stable os J \<longleftrightarrow> (\<forall>k s. J s \<longrightarrow> J (others os k s))
     \<and> (\<forall>k j v s. try_lock os k True (WAL_READ_LOCK j) 1 = SQLITE_OK \<longrightarrow> J s \<longrightarrow>
          J (s\<lparr>sh_info := (sh_info s)\<lparr>aReadMark := (aReadMark (sh_info s))(j := v)\<rparr>\<rparr>))
     \<and> (\<forall>v s. J s \<longrightarrow> J (s\<lparr>sh_info := (sh_info s)\<lparr>nBackfillAttempted := v\<rparr>\<rparr>))"

text \<open>The connection itself: normal mode, its header, and its number of frames.\<close>

definition conn :: "wal_hdr \<Rightarrow> nat \<Rightarrow> wal_log \<Rightarrow> bool" where
  "conn h N w \<longleftrightarrow> exclusiveMode (index w) = WAL_NORMAL_MODE \<and> hdr w = h \<and> mxFrame (index w) = N"

definition ckpt_inv :: "(shared \<Rightarrow> bool) \<Rightarrow> wal_hdr \<Rightarrow> nat \<Rightarrow> wal_log \<Rightarrow> bool" where
  "ckpt_inv J h N w \<longleftrightarrow> conn h N w \<and> J (shared_of w)"

lemma shared_of_tick:
  "exclusiveMode (index w) = WAL_NORMAL_MODE \<Longrightarrow> shared_of (tick os w) = others os (calls w) (shared_of w)"
  by (rule shared.equality) (simp_all add: shared_of_def tick_def Let_def WAL_NORMAL_MODE_def WAL_HEAPMEMORY_MODE_def)

lemma ckpt_inv_tick: "stable os J \<Longrightarrow> ckpt_inv J h N w \<Longrightarrow> ckpt_inv J h N (tick os w)"
  by (auto simp: ckpt_inv_def conn_def shared_of_tick stable_def)

lemma wal_lock_normal:
  "exclusiveMode (index w) = WAL_NORMAL_MODE \<Longrightarrow>
   wal_lock os e i n w = (try_lock os (calls w + 1) e i n, tick os w)"
  by (simp add: wal_lock_def WAL_NORMAL_MODE_def tick_def Let_def)

lemma walBusyLock_result:
  assumes ret: "walBusyLock os xBusy lockIdx n w = Some r"
  shows "stable os J \<Longrightarrow> ckpt_inv J h N w \<Longrightarrow> ckpt_inv J h N (snd r) \<and> (\<exists>k. fst r = try_lock os k True lockIdx n)"
  unfolding atomize_imp
proof (rule walBusyLock.raw_induct [where P = "\<lambda>os xBusy lockIdx n w r. stable os J \<longrightarrow> ckpt_inv J h N w \<longrightarrow>
    ckpt_inv J h N (snd r) \<and> (\<exists>k. fst r = try_lock os k True lockIdx n)", OF _ ret])
  fix lock os xBusy lockIdx n w and r :: "rc \<times> wal_log"
  assume IH: "\<And>os xBusy lockIdx n w r. lock os xBusy lockIdx n w = Some r \<Longrightarrow> stable os J \<longrightarrow> ckpt_inv J h N w \<longrightarrow>
      ckpt_inv J h N (snd r) \<and> (\<exists>k. fst r = try_lock os k True lockIdx n)"
    and eq: "(let (rc, w) = wal_lock os True lockIdx n w in
      case xBusy of None \<Rightarrow> Some (rc, w)
      | Some handler \<Rightarrow> if rc = SQLITE_BUSY \<and> handler (calls w) then lock os xBusy lockIdx n w else Some (rc, w)) = Some r"
  show "stable os J \<longrightarrow> ckpt_inv J h N w \<longrightarrow> ckpt_inv J h N (snd r) \<and> (\<exists>k. fst r = try_lock os k True lockIdx n)"
  proof (intro impI)
    assume st: "stable os J" and inv: "ckpt_inv J h N w"
    have lock: "wal_lock os True lockIdx n w = (try_lock os (calls w + 1) True lockIdx n, tick os w)"
      using inv by (intro wal_lock_normal) (simp add: ckpt_inv_def conn_def)
    have inv1: "ckpt_inv J h N (tick os w)" by (rule ckpt_inv_tick [OF st inv])
    have "r = (try_lock os (calls w + 1) True lockIdx n, tick os w) \<or> lock os xBusy lockIdx n (tick os w) = Some r"
      using eq unfolding lock Let_def prod.case by (cases xBusy) (simp_all split: if_splits)
    then show "ckpt_inv J h N (snd r) \<and> (\<exists>k. fst r = try_lock os k True lockIdx n)"
    proof
      assume "lock os xBusy lockIdx n (tick os w) = Some r"
      from IH [OF this] st inv1 show ?thesis by blast
    qed (use inv1 in auto)
  qed
qed

lemma walBusyLock_returns:
  assumes "\<forall>handler. xBusy = Some handler \<longrightarrow> (\<forall>t. \<exists>t' \<ge> t. \<not> handler t')" "exclusiveMode (index w) = WAL_NORMAL_MODE"
  shows "\<exists>r. walBusyLock os xBusy lockIdx n w = Some r"
proof (cases xBusy)
  case None
  then show ?thesis by (subst walBusyLock.simps) (simp split: prod.splits)
next
  case (Some handler)
  then obtain t' where t': "calls w + 1 \<le> t'" "\<not> handler t'" using assms(1) by blast
  show ?thesis using t' assms(2)
  proof (induction "t' - calls w" arbitrary: w rule: less_induct)
    case less
    have c: "calls (tick os w) = calls w + 1" "exclusiveMode (index (tick os w)) = WAL_NORMAL_MODE"
      using less.prems by (simp_all add: tick_def Let_def)
    show ?case
    proof (cases "handler (calls w + 1)")
      case True
      then have "calls w + 1 \<noteq> t'" using less.prems(2) by auto
      then have "t' - calls (tick os w) < t' - calls w" "calls (tick os w) + 1 \<le> t'" using less.prems(1) c by simp_all
      from less.hyps [OF this less.prems(2) c(2)] show ?thesis using True c
        by (subst walBusyLock.simps) (simp add: wal_lock_normal [OF less.prems(3)] Some)
    next
      case False
      then show ?thesis using c by (subst walBusyLock.simps) (simp add: wal_lock_normal [OF less.prems(3)] Some)
    qed
  qed
qed

section \<open>The marks\<close>

lemma ckpt_inv_mark:
  assumes "stable os J" "ckpt_inv J h N w" "try_lock os k True (WAL_READ_LOCK i) 1 = SQLITE_OK"
  shows "ckpt_inv J h N (w\<lparr>info := (info w)\<lparr>aReadMark := (aReadMark (info w))(i := v)\<rparr>\<rparr>)"
proof -
  have J: "J (shared_of w)" and c: "conn h N w" using assms(2) by (simp_all add: ckpt_inv_def)
  have "J ((shared_of w)\<lparr>sh_info := (sh_info (shared_of w))\<lparr>aReadMark := (aReadMark (sh_info (shared_of w)))(i := v)\<rparr>\<rparr>)"
    using assms(1,3) J unfolding stable_def by blast
  then show ?thesis using c by (simp add: ckpt_inv_def conn_def shared_of_def)
qed

text \<open>A reader that holds mark \<open>i\<close>, at \<open>y\<close>.\<close>

definition holds_mark :: "read_os \<Rightarrow> (shared \<Rightarrow> bool) \<Rightarrow> nat \<Rightarrow> nat \<Rightarrow> bool" where
  "holds_mark os J i y \<longleftrightarrow> (\<forall>k. try_lock os k True (WAL_READ_LOCK i) 1 = SQLITE_BUSY)
     \<and> (\<forall>s. J s \<longrightarrow> aReadMark (sh_info s) i = y)"

lemma ckpt_marks_ok:
  "ckpt_marks os xBusy is rc mx w = Some (rc', leave, xBusy', mx', w') \<Longrightarrow> stable os J \<Longrightarrow> ckpt_inv J h N w \<Longrightarrow>
   ckpt_inv J h N w' \<and> mx' \<le> mx \<and> (\<forall>i y. i \<in> set is \<longrightarrow> holds_mark os J i y \<longrightarrow> \<not> leave \<longrightarrow> mx' \<le> y)"
proof (induction os xBusy "is" rc mx w arbitrary: rc' leave xBusy' mx' w' rule: ckpt_marks.induct)
  case (1 os xBusy rc mx w)
  then show ?case by auto
next
  case (2 os xBusy i "is" rc mx w)
  let ?w = "tick os w" let ?y = "aReadMark (info ?w) i"
  have inv: "ckpt_inv J h N ?w" by (rule ckpt_inv_tick [OF 2(5,6)])
  have y: "?y = y" if "holds_mark os J i y" for y
  proof -
    have "J (shared_of ?w)" using inv by (simp add: ckpt_inv_def)
    then have "aReadMark (sh_info (shared_of ?w)) i = y" using that unfolding holds_mark_def by blast
    then show ?thesis by (simp add: shared_of_def)
  qed
  show ?case
  proof (cases "?y < mx")
    case False
    then have "ckpt_marks os xBusy is rc mx ?w = Some (rc', leave, xBusy', mx', w')" using 2(4) by simp
    from 2(3) [OF refl refl False this 2(5) inv] show ?thesis using y False by fastforce
  next
    case True
    then obtain r v where l: "walBusyLock os xBusy (WAL_READ_LOCK i) 1 ?w = Some (r, v)"
      using 2(4) by (auto simp: Let_def split: Option.bind_splits)
    from walBusyLock_result [OF l 2(5) inv] obtain k where v: "ckpt_inv J h N v" and r: "r = try_lock os k True (WAL_READ_LOCK i) 1" by auto
    consider (ok) "r = SQLITE_OK" | (busy) "r = SQLITE_BUSY" | (err) "r \<noteq> SQLITE_OK" "r \<noteq> SQLITE_BUSY" by blast
    then show ?thesis
    proof cases
      case ok
      let ?v = "v\<lparr>info := (info v)\<lparr>aReadMark := (aReadMark (info v))(i := if i = 1 then mx else READMARK_NOT_USED)\<rparr>\<rparr>"
      have "ckpt_marks os xBusy is r mx ?v = Some (rc', leave, xBusy', mx', w')" using 2(4) True l ok by (simp add: Let_def)
      moreover have "ckpt_inv J h N ?v" using ckpt_inv_mark [OF 2(5) v] ok r by metis
      moreover have "\<not> holds_mark os J i y" for y using ok r by (auto simp: holds_mark_def)
      ultimately show ?thesis using 2(1) [OF refl refl True l refl ok _ 2(5)] by auto
    next
      case busy
      have "ckpt_marks os None is r ?y v = Some (rc', leave, xBusy', mx', w')" using 2(4) True l busy by (simp add: Let_def)
      from 2(2) [OF refl refl True l refl _ busy this 2(5) v] show ?thesis using busy y True by fastforce
    next
      case err
      then show ?thesis using 2(4) True l v by (auto simp: Let_def)
    qed
  qed
qed

section \<open>Copying\<close>

text \<open>The content of a frame, and the pages that a checkpoint up to \<open>s\<close> copies: those whose latest of
  \<open>N\<close> frames has not been copied yet.\<close>

definition frame_content :: "nat \<Rightarrow> u8 list \<Rightarrow> nat \<Rightarrow> u8 list" where
  "frame_content sz F f = take sz (drop (walFrameOffset f sz + WAL_FRAME_HDRSIZE) F)"

definition to_copy :: "u32 list \<Rightarrow> nat \<Rightarrow> nat \<Rightarrow> nat \<Rightarrow> u32 \<Rightarrow> u32 \<Rightarrow> bool" where
  "to_copy L N b s g q \<longleftrightarrow> b < latest L 1 N q \<and> latest L 1 N q \<le> s \<and> q \<le> g"

definition file_kept :: "(shared \<Rightarrow> bool) \<Rightarrow> nat \<Rightarrow> nat \<Rightarrow> u8 list \<Rightarrow> bool" where
  "file_kept J N sz F \<longleftrightarrow> (\<forall>s. J s \<longrightarrow> take (length F) (sh_file s) = F) \<and> walFrameOffset (N + 1) sz \<le> length F"

lemma frame_in_file: "0 < f \<Longrightarrow> f \<le> N \<Longrightarrow> walFrameOffset (N + 1) sz \<le> l \<Longrightarrow> walFrameOffset f sz + WAL_FRAME_HDRSIZE + sz \<le> l"
proof -
  assume a: "0 < f" "f \<le> N" "walFrameOffset (N + 1) sz \<le> l"
  have "f * (sz + WAL_FRAME_HDRSIZE) \<le> N * (sz + WAL_FRAME_HDRSIZE)" using a(2) by (rule mult_le_mono1)
  moreover have "f * (sz + WAL_FRAME_HDRSIZE) = (f - 1) * (sz + WAL_FRAME_HDRSIZE) + (sz + WAL_FRAME_HDRSIZE)"
    using a(1) by (cases f) simp_all
  ultimately show ?thesis using a(3) unfolding walFrameOffset_def add_diff_cancel_right' by linarith
qed

lemma prefix_content:
  fixes f F :: "u8 list"
  assumes "take (length F) f = F" "o1 + sz \<le> length F"
  shows "take sz (drop o1 f) = take sz (drop o1 F)"
proof -
  have "take sz (drop o1 xs) = drop o1 (take (o1 + sz) xs)" for xs :: "u8 list" by (simp add: take_drop add.commute)
  moreover have "take (o1 + sz) f = take (o1 + sz) F" using assms by (metis min.absorb1 take_take)
  ultimately show ?thesis by simp
qed

lemma kept_content:
  assumes "file_kept J N sz F" "ckpt_inv J h N w" "0 < f" "f \<le> N"
  shows "take sz (drop (walFrameOffset f sz + WAL_FRAME_HDRSIZE) (pWalFd w)) = frame_content sz F f"
    "length (frame_content sz F f) = sz"
proof -
  let ?o = "walFrameOffset f sz + WAL_FRAME_HDRSIZE"
  have "J (shared_of w)" using assms(2) by (simp add: ckpt_inv_def)
  then have F: "take (length F) (pWalFd w) = F" using assms(1) by (auto simp: file_kept_def shared_of_def)
  have l: "?o + sz \<le> length F" using frame_in_file [OF assms(3,4)] assms(1) by (simp add: file_kept_def)
  show "take sz (drop ?o (pWalFd w)) = frame_content sz F f" unfolding frame_content_def by (rule prefix_content [OF F l])
  show "length (frame_content sz F f) = sz" using l unfolding frame_content_def length_take length_drop by linarith
qed

lemma copy_loop_ok:
  "copy_loop os b s g sz p f0 w db = (rc, w', db') \<Longrightarrow> iterator_rep (take N L) h0 p \<Longrightarrow> N \<le> length L \<Longrightarrow>
   stable (rd os) J \<Longrightarrow> ckpt_inv J h N w \<Longrightarrow> file_kept J N sz F \<Longrightarrow>
   ckpt_inv J h N w'
   \<and> (\<forall>q > 0. q \<notin> pages_left (take N L) h0 (iPrior p) \<or> \<not> to_copy L N b s g q \<longrightarrow>
         file_page sz db' (unat q) = file_page sz db (unat q))
   \<and> (rc = SQLITE_OK \<longrightarrow> (\<forall>q \<in> pages_left (take N L) h0 (iPrior p). to_copy L N b s g q \<longrightarrow>
         file_page sz db' (unat q) = frame_content sz F (latest L 1 N q)))"
proof (induction os b s g sz p f0 w db arbitrary: rc w' db' rule: copy_loop.induct)
  case (1 os b s g sz p f0 w db)
  obtain e pg f p' where n: "walIteratorNext p f0 = (e, pg, f, p')" by (cases "walIteratorNext p f0")
  show ?case
  proof (cases e)
    case True
    then have "pages_left (take N L) h0 (iPrior p) = {}" "rc = SQLITE_OK" "w' = w" "db' = db"
      using walIteratorNext_ok(2) [OF 1(4) n] 1(3) n by (subst (asm) copy_loop.simps; simp)+
    then show ?thesis using 1(7) by simp
  next
    case False
    then have n': "walIteratorNext p f0 = (False, pg, f, p')" using n by simp
    note step = walIteratorNext_step [OF 1(4) n']
    have f: "f = latest L 1 N pg" using latest_left [of pg N L h0 "iPrior p"] step(4,5) 1(5) by simp
    show ?thesis
    proof (cases "interrupted os pg")
      case True
      then have "rc \<noteq> SQLITE_OK" "w' = w" "db' = db" using 1(3) n' by (subst (asm) copy_loop.simps; simp split: if_splits)+
      then show ?thesis using 1(7) by simp
    next
      case go: False
      have above: "pg \<notin> pages_left (take N L) h0 pg" by (simp add: pages_left_def)
      show ?thesis
      proof (cases "f \<le> b \<or> s < f \<or> g < pg")
        case True
        then have "copy_loop os b s g sz p' f w db = (rc, w', db')"
          using 1(3) n' go by (subst (asm) copy_loop.simps) simp
        from 1(1) [OF n' [symmetric] _ refl refl go True this step(1) 1(5-8)]
        have IH: "ckpt_inv J h N w'
           \<and> (\<forall>q > 0. q \<notin> pages_left (take N L) h0 pg \<or> \<not> to_copy L N b s g q \<longrightarrow>
                 file_page sz db' (unat q) = file_page sz db (unat q))
           \<and> (rc = SQLITE_OK \<longrightarrow> (\<forall>q \<in> pages_left (take N L) h0 pg. to_copy L N b s g q \<longrightarrow>
                 file_page sz db' (unat q) = frame_content sz F (latest L 1 N q)))"
          unfolding step(2) by simp
        have "\<not> to_copy L N b s g pg" using True f by (auto simp: to_copy_def)
        then show ?thesis using IH unfolding step(5) by auto
      next
        case copy: False
        let ?w = "tick (rd os) w" and ?i = "walFrameOffset f sz + WAL_FRAME_HDRSIZE" and ?o = "(unat pg - 1) * sz"
        have inv: "ckpt_inv J h N ?w" by (rule ckpt_inv_tick [OF 1(6,7)])
        have "0 < f" "f \<le> N" using f copy by (cases rule: latest_cases [of L 1 N pg], simp_all)+
        note content = kept_content [OF 1(8) inv this]
        have pg: "pg \<in> pages_left (take N L) h0 (iPrior p)" "to_copy L N b s g pg"
          using step(5) copy f by (auto simp: to_copy_def)
        have pos: "0 < unat pg" using step(3) by (simp add: word_less_nat_alt)
        have other: "file_page sz (write_at db ?o bs) (unat q) = file_page sz db (unat q)"
          if "q \<noteq> pg" "0 < q" "length bs \<le> sz" for q bs
          using that pos unsigned_word_eqI [of q pg, where ?'a = nat]
          by (intro file_page_other) (auto simp: unat_gt_0 word_neq_0_conv [symmetric])
        consider (no_read) "log_read_rc os ?i \<noteq> SQLITE_OK" "rc = log_read_rc os ?i" "w' = ?w" "db' = db"
          | (no_write) "db_write_rc os ?o \<noteq> SQLITE_OK" "rc = db_write_rc os ?o" "w' = ?w"
              "db' = write_at db ?o (take (db_written os ?o) (frame_content sz F f))"
          | (ok) "log_read_rc os ?i = SQLITE_OK" "db_write_rc os ?o = SQLITE_OK"
              "copy_loop os b s g sz p' f ?w (write_at db ?o (frame_content sz F f)) = (rc, w', db')"
          using 1(3) n' go copy content(1) by (subst (asm) copy_loop.simps) (auto simp: Let_def split: if_splits)
        then show ?thesis
        proof cases
          case no_read
          then show ?thesis using inv by simp
        next
          case no_write
          have "file_page sz db' (unat q) = file_page sz db (unat q)" if "0 < q" "q \<noteq> pg" for q
            unfolding no_write(4) using that content(2) by (intro other) simp_all
          then show ?thesis using inv no_write(1-3) pg by auto
        next
          case ok
          let ?db = "write_at db ?o (frame_content sz F f)"
          have IH: "ckpt_inv J h N w'
           \<and> (\<forall>q > 0. q \<notin> pages_left (take N L) h0 pg \<or> \<not> to_copy L N b s g q \<longrightarrow>
                 file_page sz db' (unat q) = file_page sz ?db (unat q))
           \<and> (rc = SQLITE_OK \<longrightarrow> (\<forall>q \<in> pages_left (take N L) h0 pg. to_copy L N b s g q \<longrightarrow>
                 file_page sz db' (unat q) = frame_content sz F (latest L 1 N q)))"
            using 1(2) [OF n' [symmetric] _ refl refl go copy refl refl _ refl refl refl _ _ step(1) 1(5,6) inv 1(8)]
              ok content(1) unfolding step(2) by simp
          have "file_page sz db' (unat pg) = frame_content sz F f"
            using IH above pg pos file_page_same [OF content(2), of db "unat pg"] by (simp add: unat_gt_0 word_neq_0_conv)
          moreover have "file_page sz db' (unat q) = file_page sz db (unat q)"
            if q: "0 < q" "q \<notin> insert pg (pages_left (take N L) h0 pg) \<or> \<not> to_copy L N b s g q" for q
          proof -
            have "q \<noteq> pg" using q(2) pg(2) by auto
            moreover have "file_page sz db' (unat q) = file_page sz ?db (unat q)" using IH q by blast
            ultimately show ?thesis using other [OF _ q(1) eq_refl [OF content(2)]] by simp
          qed
          ultimately show ?thesis using IH f unfolding step(5) by auto
        qed
      qed
    qed
  qed
qed

section \<open>What a checkpoint changes\<close>

text \<open>The log as others leave it: the frames \<open>L\<close> stay, \<open>b\<close> of them are in the database.\<close>

definition log_kept :: "(shared \<Rightarrow> bool) \<Rightarrow> u32 list \<Rightarrow> nat \<Rightarrow> bool" where
  "log_kept J L b \<longleftrightarrow> (\<forall>s. J s \<longrightarrow> nBackfill (sh_info s) = b \<and> (\<exists>ix X. apWiData ix = sh_pages s \<and> index_rep ix (L @ X)))"

definition may_truncate :: "(shared \<Rightarrow> bool) \<Rightarrow> nat \<Rightarrow> bool" where
  "may_truncate J s \<longleftrightarrow> (\<exists>sh. J sh \<and> snd (sh_hdr sh) = s)"

text \<open>The pages of the database after the copying, complete or not.\<close>

definition pages_copied :: "(shared \<Rightarrow> bool) \<Rightarrow> u32 list \<Rightarrow> nat \<Rightarrow> nat \<Rightarrow> nat \<Rightarrow> u32 \<Rightarrow> nat \<Rightarrow> u8 list \<Rightarrow> u8 list \<Rightarrow> bool" where
  "pages_copied J L N b s g sz db db' \<longleftrightarrow>
     (\<forall>q > 0. \<not> to_copy L N b s g q \<longrightarrow> (may_truncate J s \<longrightarrow> q \<le> g) \<longrightarrow> file_page sz db' (unat q) = file_page sz db (unat q))"

definition all_copied :: "u32 list \<Rightarrow> nat \<Rightarrow> nat \<Rightarrow> nat \<Rightarrow> u32 \<Rightarrow> nat \<Rightarrow> u8 list \<Rightarrow> u8 list \<Rightarrow> bool" where
  "all_copied L N b s g sz F db' \<longleftrightarrow>
     (\<forall>q. to_copy L N b s g q \<longrightarrow> q \<noteq> 0xFFFFFFFF \<longrightarrow> file_page sz db' (unat q) = frame_content sz F (latest L 1 N q))"

text \<open>The state at the end: the number of frames in the database may have been raised.\<close>

definition ckpt_out :: "(shared \<Rightarrow> bool) \<Rightarrow> wal_hdr \<Rightarrow> nat \<Rightarrow> nat \<Rightarrow> wal_log \<Rightarrow> bool" where
  "ckpt_out J h N s w' \<longleftrightarrow> (\<exists>v. ckpt_inv J h N v \<and> (w' = v \<or> w' = v\<lparr>info := (info v)\<lparr>nBackfill := s\<rparr>\<rparr>))"

lemma ckpt_outI: "ckpt_inv J h N w \<Longrightarrow> ckpt_out J h N s w"
  unfolding ckpt_out_def by blast

lemma pages_copied_refl: "pages_copied J L N b s g sz db db"
  by (simp add: pages_copied_def)

lemma kept_backfill: "log_kept J L b \<Longrightarrow> ckpt_inv J h N w \<Longrightarrow> nBackfill (info w) = b"
proof -
  assume "log_kept J L b" "ckpt_inv J h N w"
  then have "nBackfill (sh_info (shared_of w)) = b" unfolding log_kept_def ckpt_inv_def by blast
  then show ?thesis by (simp add: shared_of_def)
qed

lemma index_rep_pages: "apWiData w' = apWiData w \<Longrightarrow> index_rep w' L = index_rep w L"
  by (simp add: index_rep_def aPgno_def [abs_def] aHash_def [abs_def])

lemma kept_index: "log_kept J L b \<Longrightarrow> ckpt_inv J h N w \<Longrightarrow> \<exists>X. index_rep (index w) (L @ X)"
proof -
  assume "log_kept J L b" "ckpt_inv J h N w"
  then obtain ix X where "apWiData ix = sh_pages (shared_of w)" "index_rep ix (L @ X)" unfolding log_kept_def ckpt_inv_def by blast
  then show ?thesis using index_rep_pages [of "index w" ix] by (auto simp: shared_of_def)
qed

lemma kept_no_zero: "log_kept J L b \<Longrightarrow> ckpt_inv J h N w \<Longrightarrow> 0 \<notin> set L"
  using kept_index index_no_zero by (metis Un_iff set_append)

lemma ckpt_copy_ok:
  assumes run: "ckpt_copy os s g sz p w db = (rc, w', db')" and st: "stable (rd os) J" and inv: "ckpt_inv J h N w"
    and kept: "log_kept J L b" "file_kept J N sz F" and g: "g = nPage h"
    and p: "iterator_rep (take N L) (walFramePage (b + 1)) p" "iPrior p = 0" "N \<le> length L"
  shows "pages_copied J L N b s g sz db db'"
    "if rc = SQLITE_OK then nBackfill (info w') = s \<and> all_copied L N b s g sz F db' else nBackfill (info w') = b"
    "ckpt_out J h N s w'"
proof -
  define w1 where "w1 = tick (rd os) w"
  define w2 where "w2 = w1\<lparr>info := (info w1)\<lparr>nBackfillAttempted := s\<rparr>\<rparr>"
  have inv1: "ckpt_inv J h N w1" using ckpt_inv_tick [OF st inv] by (simp add: w1_def)
  have "J (shared_of w1)" using inv1 by (simp add: ckpt_inv_def)
  then have "J ((shared_of w1)\<lparr>sh_info := (sh_info (shared_of w1))\<lparr>nBackfillAttempted := s\<rparr>\<rparr>)" using st unfolding stable_def by blast
  then have inv2: "ckpt_inv J h N w2" using inv1 by (simp add: w2_def ckpt_inv_def conn_def shared_of_def)
  have b: "nBackfill (info w1) = b" by (rule kept_backfill [OF kept(1) inv1])
  define rc0 where "rc0 = (if log_sync_rc os = SQLITE_OK then db_size_rc os else log_sync_rc os)"
  obtain rc1 w3 db1 where c: "(if rc0 = SQLITE_OK then copy_loop os b s g sz p 0 w2 db else (rc0, w2, db)) = (rc1, w3, db1)"
    by (cases "if rc0 = SQLITE_OK then copy_loop os b s g sz p 0 w2 db else (rc0, w2, db)")
  have left: "q \<in> pages_left (take N L) (walFramePage (b + 1)) 0" if "to_copy L N b s g q" "q \<noteq> 0xFFFFFFFF" for q
    using latest_visited [OF p(3) kept_no_zero [OF kept(1) inv]] that by (simp add: to_copy_def)
  have copied: "ckpt_inv J h N w3 \<and> (\<forall>q > 0. \<not> to_copy L N b s g q \<longrightarrow> file_page sz db1 (unat q) = file_page sz db (unat q))
      \<and> (rc1 = SQLITE_OK \<longrightarrow> all_copied L N b s g sz F db1)"
  proof (cases "rc0 = SQLITE_OK")
    case True
    then show ?thesis using copy_loop_ok [OF _ p(1,3) st inv2 kept(2), of b s g 0 db rc1 w3 db1] c left
      unfolding p(2) all_copied_def by auto
  next
    case False
    then show ?thesis using c inv2 by auto
  qed
  define w4 where "w4 = tick (rd os) w3"
  have inv4: "ckpt_inv J h N w4" using ckpt_inv_tick [OF st] copied by (simp add: w4_def)
  have b4: "nBackfill (info w3) = b" "nBackfill (info w4) = b" using kept_backfill [OF kept(1)] copied inv4 by blast+
  have hdr4: "hdr w4 = h" using inv4 by (simp add: ckpt_inv_def conn_def)
  have trunc: "may_truncate J s" if "s = live_mxFrame (index w4)"
    using inv4 that unfolding may_truncate_def ckpt_inv_def by (intro exI [of _ "shared_of w4"]) (simp add: shared_of_def)
  consider (fail) "rc1 \<noteq> SQLITE_OK" "rc = rc1" "w' = w3" "db' = db1"
    | (no_trunc) "rc1 = SQLITE_OK" "rc \<noteq> SQLITE_OK" "w' = w4" "db' = db1"
    | (trunc) "rc1 = SQLITE_OK" "s = live_mxFrame (index w4)" "db' = truncate_to db1 (unat g * sz)"
        "w' = (if rc = SQLITE_OK then w4\<lparr>info := (info w4)\<lparr>nBackfill := s\<rparr>\<rparr> else w4)"
    | (all) "rc1 = SQLITE_OK" "rc = SQLITE_OK" "w' = w4\<lparr>info := (info w4)\<lparr>nBackfill := s\<rparr>\<rparr>" "db' = db1"
    using run unfolding ckpt_copy_def Let_def w1_def [symmetric] w2_def [symmetric] b rc0_def [symmetric] c prod.case w4_def [symmetric] hdr4 g [symmetric]
    by (auto split: if_splits)
  note cases = this
  show "pages_copied J L N b s g sz db db'"
    using cases
  proof cases
    case trunc
    have "file_page sz db' (unat q) = file_page sz db1 (unat q)" if "0 < q" "q \<le> g" for q
      unfolding trunc(3) using that by (intro file_page_truncate) (simp_all add: word_less_nat_alt word_le_nat_alt)
    then show ?thesis using copied \<open>s = live_mxFrame (index w4) \<Longrightarrow> may_truncate J s\<close> trunc(2) by (simp add: pages_copied_def)
  qed (use copied in \<open>simp_all add: pages_copied_def\<close>)
  show "if rc = SQLITE_OK then nBackfill (info w') = s \<and> all_copied L N b s g sz F db' else nBackfill (info w') = b"
    using cases
  proof cases
    case trunc
    have "file_page sz db' (unat q) = file_page sz db1 (unat q)" if "to_copy L N b s g q" "q \<noteq> 0xFFFFFFFF" for q
      unfolding trunc(3) using left [OF that] that(1)
      by (intro file_page_truncate) (simp_all add: word_less_nat_alt word_le_nat_alt pages_left_def to_copy_def)
    then show ?thesis using copied trunc(1,4) b4 by (simp add: all_copied_def)
  qed (use copied b4 in simp_all)
  show "ckpt_out J h N s w'"
    using cases by cases (use copied inv4 in \<open>auto simp: ckpt_out_def\<close>)
qed

lemma ckpt_backfill_cases:
  assumes st: "stable (rd os) J" and inv: "ckpt_inv J h N w" and kept: "log_kept J L b" and L: "N \<le> length L" "s \<le> N"
    and gr: "grants (index_os (file_os (shm (rd os)))) (index w)"
  obtains (idle) rc' w' where "ckpt_backfill os xBusy s g sz rc0 w db = Some (rc', w', db)" "ckpt_inv J h N w'"
      "\<not> (b < s \<and> iter_malloc os \<and> tmp_malloc os)"
  | (copy) p w' where "ckpt_backfill os xBusy s g sz rc0 w db = do { (rc, w) \<leftarrow> walBusyLock (rd os) xBusy (WAL_READ_LOCK 0) 1 w';
          Some (if rc = SQLITE_OK then ckpt_copy os s g sz p w db else (rc, w, db)) }"
      "ckpt_inv J h N w'" "b < s" "iterator_rep (take N L) (walFramePage (b + 1)) p" "iPrior p = 0"
proof -
  define w1 where "w1 = tick (rd os) w"
  have inv1: "ckpt_inv J h N w1" using ckpt_inv_tick [OF st inv] by (simp add: w1_def)
  have b: "nBackfill (info w1) = b" by (rule kept_backfill [OF kept(1) inv1])
  have gr1: "grants (index_os (file_os (shm (rd os)))) (index w1)"
    using gr inv inv1 by (simp add: grants_def ckpt_inv_def conn_def)
  have N: "mxFrame (index w1) = N" using inv1 by (simp add: ckpt_inv_def conn_def)
  note code = ckpt_backfill_def Let_def w1_def [symmetric] b
  show thesis
  proof (cases "b < s")
    case False
    then have "ckpt_backfill os xBusy s g sz rc0 w db = Some (rc0, w1, db)" by (simp add: code)
    then show thesis using False by (intro idle [OF _ inv1]) auto
  next
    case True
    let ?init = "walIteratorInit (index_os (file_os (shm (rd os)))) (iter_malloc os) (tmp_malloc os) (index w1) b"
    show thesis
    proof (cases "iter_malloc os \<and> tmp_malloc os")
      case False
      then have "?init = Some (SQLITE_NOMEM, None, index w1)" by (auto simp: walIteratorInit_def Let_def)
      then have "ckpt_backfill os xBusy s g sz rc0 w db = Some (SQLITE_NOMEM, w1, db)" using True by (simp add: code)
      then show thesis using False by (intro idle [OF _ inv1]) auto
    next
      case malloc: True
      obtain X where X: "index_rep (index w1) (L @ X)" using kept_index [OF kept(1) inv1] by blast
      obtain p ix where p: "?init = Some (SQLITE_OK, Some p, ix)" "same_view (index w1) ix"
        "iterator_rep (take N (L @ X)) (walFramePage (b + 1)) p" "iPrior p = 0"
        using walIteratorInit_ok [OF X gr1, of b] malloc N L True by auto
      have inv2: "ckpt_inv J h N (w1\<lparr>index := ix\<rparr>)"
        using inv1 p(2) by (simp add: ckpt_inv_def conn_def shared_of_def same_view_def)
      have p3: "iterator_rep (take N L) (walFramePage (b + 1)) p" using p(3) L(1) by simp
      show thesis by (rule copy [OF _ inv2 True p3 p(4)]) (simp add: code True p(1))
    qed
  qed
qed

lemma ckpt_backfill_ok:
  assumes run: "ckpt_backfill os xBusy s g sz rc0 w db = Some (rc, w', db')" and st: "stable (rd os) J" and inv: "ckpt_inv J h N w"
    and kept: "log_kept J L b" "file_kept J N sz F" and g: "g = nPage h" and L: "N \<le> length L" "s \<le> N"
    and gr: "grants (index_os (file_os (shm (rd os)))) (index w)"
  shows "pages_copied J L N b s g sz db db' \<and>
    (nBackfill (info w') = b \<or> b < s \<and> nBackfill (info w') = s \<and> all_copied L N b s g sz F db') \<and>
    ((\<forall>k. try_lock (rd os) k True (WAL_READ_LOCK 0) 1 \<noteq> SQLITE_OK) \<longrightarrow> db' = db) \<and> ckpt_out J h N s w'"
proof (cases rule: ckpt_backfill_cases [OF st inv kept(1) L gr, of xBusy g sz rc0 db])
  case (1 r v)
  then have "w' = v" "db' = db" using run by auto
  then show ?thesis using kept_backfill [OF kept(1) 1(2)] pages_copied_refl ckpt_outI [OF 1(2)] by simp
next
  case (2 p w2)
  then obtain r v where l: "walBusyLock (rd os) xBusy (WAL_READ_LOCK 0) 1 w2 = Some (r, v)"
    using run by (auto split: Option.bind_splits)
  obtain k where v: "ckpt_inv J h N v" "r = try_lock (rd os) k True (WAL_READ_LOCK 0) 1"
    using walBusyLock_result [OF l st 2(2)] by auto
  show ?thesis
  proof (cases "r = SQLITE_OK")
    case False
    then have "w' = v" "db' = db" using run 2(1) l by auto
    then show ?thesis using kept_backfill [OF kept(1) v(1)] pages_copied_refl ckpt_outI [OF v(1)] by simp
  next
    case ok: True
    then have "ckpt_copy os s g sz p v db = (rc, w', db')" using run 2(1) l by simp
    from ckpt_copy_ok [OF this st v(1) kept g 2(4,5) L(1)] ok v(2) 2(3) show ?thesis by (auto split: if_splits)
  qed
qed

text \<open>The whole of \<open>walCheckpoint\<close>.\<close>

lemma ckpt_restart_passive: "ckpt_restart be os SQLITE_CHECKPOINT_PASSIVE xBusy rc w = Some (rc, w)"
  by (simp add: ckpt_restart_def)

lemma walCheckpoint_ok:
  assumes run: "walCheckpoint be os eMode xBusy w db = Some (rc, w', db')" and st: "stable (rd os) J" and inv: "ckpt_inv J h N w"
    and kept: "log_kept J L b" "file_kept J N sz F" and h: "g = nPage h" "sz = walPagesize (szPage16 h)" and L: "N \<le> length L"
    and gr: "grants (index_os (file_os (shm (rd os)))) (index w)"
  obtains s v rc1 xBusy1 where "s \<le> N" "\<And>i y. i \<in> {1 ..< WAL_NREADER} \<Longrightarrow> holds_mark (rd os) J i y \<Longrightarrow> s \<le> y"
    "pages_copied J L N b s g sz db db'" "(\<forall>k. try_lock (rd os) k True (WAL_READ_LOCK 0) 1 \<noteq> SQLITE_OK) \<Longrightarrow> db' = db"
    "nBackfill (info v) = b \<or> b < s \<and> nBackfill (info v) = s \<and> all_copied L N b s g sz F db'" "ckpt_out J h N s v"
    "(rc, w') = (rc1, v) \<or> ckpt_restart be os eMode xBusy1 rc1 v = Some (rc, w')"
proof -
  define w1 where "w1 = tick (rd os) w"
  have inv1: "ckpt_inv J h N w1" using ckpt_inv_tick [OF st inv] by (simp add: w1_def)
  have b: "nBackfill (info w1) = b" by (rule kept_backfill [OF kept(1) inv1])
  have N: "mxFrame (index w1) = N" "hdr w1 = h" "hdr w = h" using inv inv1 by (simp_all add: ckpt_inv_def conn_def)
  have none: "pages_copied J L N b 0 g sz db db" by (rule pages_copied_refl)
  show thesis
  proof (cases "b < N")
    case False
    then have "ckpt_restart be os eMode xBusy SQLITE_OK w1 = Some (rc, w')" "db' = db"
      using run by (auto simp: walCheckpoint_def Let_def w1_def [symmetric] b N split: Option.bind_splits)
    then show thesis using that [of 0 w1] none b ckpt_outI [OF inv1] by auto
  next
    case True
    obtain rc0 leave xBusy1 s w2 where m: "ckpt_marks (rd os) xBusy [1 ..< WAL_NREADER] SQLITE_OK N w1 = Some (rc0, leave, xBusy1, s, w2)"
      using run True by (auto simp: walCheckpoint_def Let_def w1_def [symmetric] b N simp del: upt_Suc split: Option.bind_splits)
    note marks = ckpt_marks_ok [OF m st inv1]
    have gr2: "grants (index_os (file_os (shm (rd os)))) (index w2)"
      using gr inv marks by (simp add: grants_def ckpt_inv_def conn_def)
    show thesis
    proof (cases leave)
      case True
      then have "(rc, w') = (rc0, w2)" "db' = db"
        using run \<open>b < N\<close> m by (auto simp: walCheckpoint_def Let_def w1_def [symmetric] b N simp del: upt_Suc)
      moreover have "ckpt_inv J h N w2" using marks by blast
      ultimately show thesis using that [of 0 w2] none kept_backfill [OF kept(1), of h N w2] ckpt_outI by auto
    next
      case False
      obtain rc1 v db1 where c: "ckpt_backfill os xBusy1 s g sz rc0 w2 db = Some (rc1, v, db1)"
        "ckpt_restart be os eMode xBusy1 (if rc1 = SQLITE_BUSY then SQLITE_OK else rc1) v = Some (rc, w')" "db' = db1"
        using run True False m
        by (auto simp: walCheckpoint_def Let_def w1_def [symmetric] b N h simp del: upt_Suc split: Option.bind_splits)
      have s: "s \<le> N" "ckpt_inv J h N w2" using marks by blast+
      note bf = ckpt_backfill_ok [OF c(1) st s(2) kept h(1) L s(1) gr2]
      have "s \<le> y" if "i \<in> {1 ..< WAL_NREADER}" "holds_mark (rd os) J i y" for i y
        using marks False that by auto
      then show thesis
        using bf c(3) by (intro that [OF s(1) _ _ _ _ _ disjI2 [OF c(2)]]) auto
    qed
  qed
qed

end
