(* ===== verification/WalSnapshot.thy ===== *)
theory WalSnapshot
  imports WalCheckpoint
begin

text \<open>
  What a checkpoint means for the readers: the pager's \<open>readDbPage\<close> (\<open>pager.c\<close>), which takes a
  page from the log or from the database file, gives a reader the same page before and after a
  checkpoint of another connection; the database file stays current; a checkpoint ends.  The last
  section shows what happens when a writer starts the log again at the moment at which the code does
  not exclude it.
\<close>

section \<open>Reading a page\<close>

text \<open>The result, the content, and the new \<open>dbFileVers\<close> when it is set; \<open>db_rc\<close> is the result of the
  read from the database file, whose missing bytes are zeroes.\<close>

definition readDbPage :: "log_os \<Rightarrow> rc \<Rightarrow> bool \<Rightarrow> wal_log \<Rightarrow> u8 list \<Rightarrow> nat \<Rightarrow> u32
    \<Rightarrow> (rc \<times> u8 list \<times> u8 list option \<times> wal_log) option" where
  "readDbPage os db_rc useWal w db pageSize pgno = do {
     ((rc, iFrame), ix) \<leftarrow> (if useWal then sqlite3WalFindFrame (index_os os) (index w) pgno else Some ((SQLITE_OK, 0), index w));
     let w = w\<lparr>index := ix\<rparr>;
     if rc \<noteq> SQLITE_OK then Some (rc, [], None, w)
     else
       let (rc, pData) = (if iFrame \<noteq> 0 then sqlite3WalReadFrame os w iFrame pageSize
             else (if db_rc = SQLITE_IOERR_SHORT_READ then SQLITE_OK else db_rc, file_page pageSize db (unat pgno)));
           vers = (if pgno = 1 then Some (if rc \<noteq> SQLITE_OK then replicate 16 0xff else take 16 (drop 24 pData)) else None)
       in Some (rc, pData, vers, w)
   }"

section \<open>Readers\<close>

text \<open>A connection that reads \<open>n\<close> frames, and its view of the shared state.\<close>

definition log_reader :: "log_os \<Rightarrow> wal_log \<Rightarrow> nat \<Rightarrow> nat \<Rightarrow> bool" where
  "log_reader os r n sz \<longleftrightarrow> mxFrame (index r) = n \<and> readLock (index r) \<noteq> 0 \<and> grants (index_os os) (index r)
     \<and> walPagesize (szPage16 (hdr r)) = sz"

definition reader_view :: "wal_log \<Rightarrow> wal_log \<Rightarrow> wal_log" where
  "reader_view r w = r\<lparr>index := (index r)\<lparr>apWiData := apWiData (index w)\<rparr>, pWalFd := pWalFd w\<rparr>"

lemma reader_frame:
  assumes "index_rep (index w) (L @ X)" "log_reader os r n sz" "n \<le> length L"
  shows "map_option fst (sqlite3WalFindFrame (index_os os) (index (reader_view r w)) q) =
    Some (SQLITE_OK, latest L (minFrame (index r)) n q)"
proof -
  let ?r = "index (reader_view r w)"
  have "index_rep ?r (take n L @ drop n L @ X)"
    using assms(1) index_rep_pages [of ?r "index w"] unfolding append.assoc [symmetric] append_take_drop_id
    by (simp add: reader_view_def)
  moreover have "grants (index_os os) ?r" "readLock ?r \<noteq> 0" "mxFrame ?r = length (take n L)" "minFrame ?r = minFrame (index r)"
    using assms(2,3) by (simp_all add: log_reader_def reader_view_def grants_def)
  ultimately have "map_option fst (sqlite3WalFindFrame (index_os os) ?r q) =
      Some (SQLITE_OK, latest (take n L) (minFrame (index r)) n q)"
    using find_frame [of ?r "take n L" "drop n L @ X" "index_os os" q] assms(3) by fastforce
  then show ?thesis using latest_prefix [of n "take n L" "drop n L" "minFrame (index r)" q] assms(3) by simp
qed

text \<open>The page of a reader depends on its frame, if it has one, or on the database file.\<close>

definition page_result :: "log_os \<Rightarrow> rc \<Rightarrow> nat \<Rightarrow> u8 list \<Rightarrow> u8 list \<Rightarrow> nat \<Rightarrow> u32 \<Rightarrow> rc \<times> u8 list \<times> u8 list option" where
  "page_result os db_rc sz F db f q =
     (let (rc, d) = (if f \<noteq> 0 then (read_rc os (walFrameOffset f sz + WAL_FRAME_HDRSIZE), frame_content sz F f)
            else (if db_rc = SQLITE_IOERR_SHORT_READ then SQLITE_OK else db_rc, file_page sz db (unat q)))
      in (rc, d, if q = 1 then Some (if rc \<noteq> SQLITE_OK then replicate 16 0xff else take 16 (drop 24 d)) else None))"

lemma find_frame_view:
  "map_option fst (sqlite3WalFindFrame os ix q) = Some (SQLITE_OK, f) \<Longrightarrow>
   \<exists>ix'. sqlite3WalFindFrame os ix q = Some ((SQLITE_OK, f), ix')"
  by auto

lemma reader_page:
  assumes ix: "index_rep (index w) (L @ X)" and r: "log_reader os r n sz" "n \<le> length L"
    and F: "take (length F) (pWalFd w) = F" "walFrameOffset (length L + 1) sz \<le> length F"
  shows "map_option (\<lambda>(rc, d, v, _). (rc, d, v)) (readDbPage os db_rc True (reader_view r w) db sz q) =
    Some (page_result os db_rc sz F db (latest L (minFrame (index r)) n q) q)"
proof -
  let ?f = "latest L (minFrame (index r)) n q"
  obtain ix' where ff: "sqlite3WalFindFrame (index_os os) (index (reader_view r w)) q = Some ((SQLITE_OK, ?f), ix')"
    using find_frame_view [OF reader_frame [OF ix r]] by blast
  have c: "take sz (drop (walFrameOffset ?f sz + WAL_FRAME_HDRSIZE) (pWalFd w)) = frame_content sz F ?f" if "0 < ?f"
  proof -
    have "?f \<le> n" using that by (cases rule: latest_cases [of L "minFrame (index r)" n q]) simp_all
    then have l: "walFrameOffset ?f sz + WAL_FRAME_HDRSIZE + sz \<le> length F"
      using frame_in_file [OF that _ F(2)] r(2) by simp
    then show ?thesis unfolding frame_content_def by (rule prefix_content [OF F(1)])
  qed
  have "walPagesize (szPage16 (hdr r)) = sz" using r(1) by (simp add: log_reader_def)
  then show ?thesis
    using ff c by (cases "?f = 0")
      (simp_all add: readDbPage_def page_result_def sqlite3WalReadFrame_def reader_view_def Let_def)
qed

section \<open>Readers and checkpoints\<close>

text \<open>What others keep while a checkpoint runs and readers hold the marks \<open>H\<close>, as long as none of
  them starts the log again: the count of frames in the database, the marks, and the frames of the
  log \<open>L\<close> with the bytes \<open>F\<close> of the file; the header in shared memory has at least \<open>n\<close> frames.\<close>

definition others_keep :: "u32 list \<Rightarrow> u8 list \<Rightarrow> (nat \<rightharpoonup> nat) \<Rightarrow> nat \<Rightarrow> nat \<Rightarrow> shared \<Rightarrow> bool" where
  "others_keep L F H n b s \<longleftrightarrow> nBackfill (sh_info s) = b \<and> (\<forall>i y. H i = Some y \<longrightarrow> aReadMark (sh_info s) i = y)
     \<and> n \<le> snd (sh_hdr s)
     \<and> (\<exists>ix X. apWiData ix = sh_pages s \<and> index_rep ix (L @ X)) \<and> take (length F) (sh_file s) = F"

text \<open>The locks of the readers are refused.\<close>

definition locks_refused :: "read_os \<Rightarrow> (nat \<rightharpoonup> nat) \<Rightarrow> bool" where
  "locks_refused os H \<longleftrightarrow> (\<forall>i k l n. i \<in> dom H \<and> l \<le> WAL_READ_LOCK i \<and> WAL_READ_LOCK i < l + n \<longrightarrow>
     try_lock os k True l n = SQLITE_BUSY)"

lemma lock_refused_one: "locks_refused os H \<Longrightarrow> i \<in> dom H \<Longrightarrow> try_lock os k True (WAL_READ_LOCK i) 1 = SQLITE_BUSY"
  unfolding locks_refused_def by (metis le_refl less_add_one)

lemma others_keep_stable:
  assumes "locks_refused os H" "\<And>k s. others_keep L F H n b s \<Longrightarrow> others_keep L F H n b (others os k s)"
  shows "stable os (others_keep L F H n b)"
  unfolding stable_def
proof (intro conjI allI impI)
  fix k j v s assume "try_lock os k True (WAL_READ_LOCK j) 1 = SQLITE_OK" "others_keep L F H n b s"
  moreover from this have "j \<notin> dom H" using lock_refused_one [OF assms(1), of j k] by auto
  ultimately show "others_keep L F H n b (s\<lparr>sh_info := (sh_info s)\<lparr>aReadMark := (aReadMark (sh_info s))(j := v)\<rparr>\<rparr>)"
    by (auto simp: others_keep_def)
qed (use assms(2) in \<open>simp_all add: others_keep_def\<close>)

text \<open>Starting the log again (\<open>walRestartHdr\<close>) changes all of this without the lock of the
  checkpointer.  A writer does it under the write lock, with exclusive locks on the marks 1 to 4, and
  only if it reads no frame of the log: \<open>walTryBeginRead\<close> gave it read lock 0 because the whole log was
  in the database, and the header has not changed since.  So it cannot happen while a frame of the
  header in shared memory is not in the database, while a reader holds one of these marks, or while the
  checkpointer holds the write lock, as in all modes but PASSIVE.  Only in these cases is something
  assumed of the others.\<close>

definition writers_wait :: "(nat \<rightharpoonup> nat) \<Rightarrow> wal_log \<Rightarrow> bool" where
  "writers_wait H w \<longleftrightarrow> writeLock (index w) \<or> (\<exists>i \<in> dom H. 1 \<le> i \<and> i < WAL_NREADER)"

text \<open>The setting of a checkpoint by the connection \<open>w\<close>.\<close>

definition ckpt_setting :: "ckpt_os \<Rightarrow> wal_log \<Rightarrow> u32 list \<Rightarrow> u8 list \<Rightarrow> nat \<Rightarrow> (nat \<rightharpoonup> nat) \<Rightarrow> nat \<Rightarrow> bool" where
  "ckpt_setting os w L F sz H n \<longleftrightarrow> exclusiveMode (index w) = WAL_NORMAL_MODE
     \<and> sz = walPagesize (szPage16 (hdr w)) \<and> mxFrame (index w) \<le> length L \<and> n \<le> length L
     \<and> walFrameOffset (length L + 1) sz \<le> length F \<and> grants (index_os (file_os (shm (rd os)))) (index w)
     \<and> others_keep L F H (max n (mxFrame (index w))) (nBackfill (info w)) (shared_of w)
     \<and> (\<forall>b k s. others_keep L F H (max n (mxFrame (index w))) b s \<and> (b < snd (sh_hdr s) \<or> writers_wait H w) \<longrightarrow>
           others_keep L F H (max n (mxFrame (index w))) b (others (rd os) k s))"

text \<open>No other connection can start the log again while the checkpoint runs.\<close>

definition no_restart :: "nat \<Rightarrow> (nat \<rightharpoonup> nat) \<Rightarrow> wal_log \<Rightarrow> bool" where
  "no_restart n H w \<longleftrightarrow> nBackfill (info w) < max n (mxFrame (index w)) \<or> writers_wait H w"

lemma no_restart_held: "i \<in> dom H \<Longrightarrow> 1 \<le> i \<Longrightarrow> i < WAL_NREADER \<Longrightarrow> writers_wait H w" "writers_wait H w \<Longrightarrow> no_restart n H w"
  by (auto simp: writers_wait_def no_restart_def)

lemma ckpt_settingD:
  assumes "ckpt_setting os w L F sz H n" "locks_refused (rd os) H"
  defines "J \<equiv> others_keep L F H (max n (mxFrame (index w)))"
  shows "b < max n (mxFrame (index w)) \<or> writers_wait H w \<Longrightarrow> stable (rd os) (J b)" "ckpt_inv (J (nBackfill (info w))) (hdr w) (mxFrame (index w)) w"
    "log_kept (J b) L b" "file_kept (J b) (mxFrame (index w)) sz F" "may_truncate (J b) s \<Longrightarrow> max n (mxFrame (index w)) \<le> s"
    "sz = walPagesize (szPage16 (hdr w))" "mxFrame (index w) \<le> length L"
    "grants (index_os (file_os (shm (rd os)))) (index w)"
proof -
  show "stable (rd os) (J b)" if b: "b < max n (mxFrame (index w)) \<or> writers_wait H w"
  proof -
    have "b < snd (sh_hdr s) \<or> writers_wait H w" if "J b s" for s using b that by (auto simp: J_def others_keep_def)
    then show ?thesis using assms(1) unfolding J_def ckpt_setting_def by (intro others_keep_stable [OF assms(2)]) blast
  qed
  have "walFrameOffset (mxFrame (index w) + 1) sz \<le> walFrameOffset (length L + 1) sz"
    using assms(1) by (simp add: walFrameOffset_def ckpt_setting_def)
  then show "file_kept (J b) (mxFrame (index w)) sz F"
    using assms(1) by (auto simp: file_kept_def J_def others_keep_def ckpt_setting_def)
  show "log_kept (J b) L b" by (auto simp: log_kept_def J_def others_keep_def)
  show "may_truncate (J b) s \<Longrightarrow> max n (mxFrame (index w)) \<le> s" by (auto simp: may_truncate_def J_def others_keep_def)
qed (use assms(1) in \<open>simp_all add: ckpt_setting_def ckpt_inv_def conn_def J_def\<close>)

lemma checkpoint_pages:
  assumes run: "walCheckpoint be os eMode xBusy w db = Some (rc, w', db')"
    and set: "ckpt_setting os w L F sz H n" "locks_refused (rd os) H" and i: "1 \<le> i" "i < WAL_NREADER" and y: "H i = Some y" "y \<le> n"
    and q: "q > 0" "n = mxFrame (index w) \<Longrightarrow> q \<le> nPage (hdr w)" and m: "m \<le> nBackfill (info w) + 1"
    and db: "latest L m n q = 0"
  shows "file_page sz db' (unat q) = file_page sz db (unat q)"
proof -
  let ?J = "others_keep L F H (max n (mxFrame (index w))) (nBackfill (info w))" let ?N = "mxFrame (index w)"
  have "writers_wait H w" using no_restart_held(1) [OF _ i] y(1) by blast
  note s = ckpt_settingD [OF set] and st = ckpt_settingD(1) [OF set disjI2 [OF this]]
  obtain s where s: "s \<le> ?N" "s \<le> y" "pages_copied ?J L ?N (nBackfill (info w)) s (nPage (hdr w)) sz db db'"
  proof (rule walCheckpoint_ok [OF run st s(2) s(3) s(4) refl s(6-8)])
    fix s assume *: "s \<le> ?N" "\<And>i y'. i \<in> {1 ..< WAL_NREADER} \<Longrightarrow> holds_mark (rd os) ?J i y' \<Longrightarrow> s \<le> y'"
      "pages_copied ?J L ?N (nBackfill (info w)) s (nPage (hdr w)) sz db db'"
    have "holds_mark (rd os) ?J i y"
      using lock_refused_one [OF set(2)] y(1) by (auto simp: holds_mark_def others_keep_def)
    then show thesis using that * i by auto
  qed
  have "\<not> to_copy L ?N (nBackfill (info w)) s (nPage (hdr w)) q"
  proof
    assume c: "to_copy L ?N (nBackfill (info w)) s (nPage (hdr w)) q"
    let ?f = "latest L 1 ?N q"
    have f: "nBackfill (info w) < ?f" "?f \<le> s" using c by (simp_all add: to_copy_def)
    have "L ! (?f - 1) = q" using f(1) by (cases rule: latest_cases [of L 1 ?N q]) simp_all
    moreover have "0 < ?f" "m \<le> ?f" "?f \<le> n" using f m s(2) y(2) by simp_all
    ultimately show False using db by (cases rule: latest_cases [of L m n q]) auto
  qed
  moreover have "q \<le> nPage (hdr w)" if "may_truncate ?J s"
  proof -
    have "max n ?N \<le> s" using ckpt_settingD(5) [OF set] that by blast
    then have "n = ?N" using s(1,2) y(2) by simp
    then show ?thesis by (rule q(2))
  qed
  ultimately show ?thesis using s(3) q(1) unfolding pages_copied_def by blast
qed

lemma ckpt_restart_inv:
  assumes run: "ckpt_restart be os eMode xBusy rc v = Some (rc', w')" and st: "stable (rd os) J" and inv: "ckpt_inv J h N v"
    and no: "\<forall>k. try_lock (rd os) k True (WAL_READ_LOCK 1) (WAL_NREADER - 1) = SQLITE_BUSY"
  shows "ckpt_inv J h N w'"
proof -
  have inv1: "ckpt_inv J h N (tick (rd os) v)" by (rule ckpt_inv_tick [OF st inv])
  consider "w' = v" | "w' = tick (rd os) v"
    | r u where "walBusyLock (rd os) xBusy (WAL_READ_LOCK 1) (WAL_NREADER - 1) (tick (rd os) v) = Some (r, u)"
        "r \<noteq> SQLITE_OK \<longrightarrow> w' = u"
    using run unfolding ckpt_restart_def Let_def
    by (auto split: if_splits Option.bind_splits)
  then show ?thesis
  proof cases
    case (3 r u)
    then show ?thesis using walBusyLock_result [OF 3(1) st inv1] no by auto
  qed (use inv inv1 in auto)
qed

lemma checkpoint_shared:
  assumes run: "walCheckpoint be os eMode xBusy w db = Some (rc, w', db')"
    and set: "ckpt_setting os w L F sz H n" "locks_refused (rd os) H" and i: "i \<in> dom H" "1 \<le> i" "i < WAL_NREADER"
  shows "\<exists>b. others_keep L F H (max n (mxFrame (index w))) b (shared_of w')"
proof -
  let ?J = "others_keep L F H (max n (mxFrame (index w)))" let ?N = "mxFrame (index w)"
  note s = ckpt_settingD [OF set] and st = ckpt_settingD(1) [OF set disjI2 [OF no_restart_held(1) [OF i]]]
  obtain s v rc1 xBusy1 where v: "ckpt_out (?J (nBackfill (info w))) (hdr w) ?N s v"
    "(rc, w') = (rc1, v) \<or> ckpt_restart be os eMode xBusy1 rc1 v = Some (rc, w')"
    by (rule walCheckpoint_ok [OF run st s(2) s(3) s(4) refl s(6-8)])
  obtain b where b: "ckpt_inv (?J b) (hdr w) ?N v"
  proof -
    obtain u where u: "ckpt_inv (?J (nBackfill (info w))) (hdr w) ?N u" "v = u \<or> v = u\<lparr>info := (info u)\<lparr>nBackfill := s\<rparr>\<rparr>"
      using v(1) unfolding ckpt_out_def by blast
    have "ckpt_inv (?J s) (hdr w) ?N (u\<lparr>info := (info u)\<lparr>nBackfill := s\<rparr>\<rparr>)"
      using u(1) by (simp add: ckpt_inv_def conn_def others_keep_def shared_of_def)
    then show thesis using that u by blast
  qed
  have "try_lock (rd os) k True (WAL_READ_LOCK 1) (WAL_NREADER - 1) = SQLITE_BUSY" for k
  proof -
    have "WAL_READ_LOCK 1 \<le> WAL_READ_LOCK i" "WAL_READ_LOCK i < WAL_READ_LOCK 1 + (WAL_NREADER - 1)"
      using i(2,3) by (simp_all add: WAL_READ_LOCK_def)
    then show ?thesis using set(2) i(1) unfolding locks_refused_def by blast
  qed
  then have "ckpt_inv (?J b) (hdr w) ?N w'" using v(2) b ckpt_restart_inv [OF _ st b] by blast
  then show ?thesis unfolding ckpt_inv_def by blast
qed

text \<open>C4: A checkpoint by another connection, complete or broken off by any error, changes no page
  that a reader with a held read mark sees: readDbPage gives the reader the same result and
  the same bytes before and after it\<close>

theorem checkpoint_spares_readers:
  assumes "walCheckpoint be os eMode xBusy w db = Some (rc, w', db')"
    and "ckpt_setting os w L F sz H n" "locks_refused (rd os) H" "1 \<le> i" "i < WAL_NREADER" "H i = Some y" "y \<le> n"
    and "log_reader ros r n sz" "minFrame (index r) \<le> nBackfill (info w) + 1"
    and "q > 0" "n = mxFrame (index w) \<Longrightarrow> q \<le> nPage (hdr w)"
  shows "map_option (\<lambda>(rc, d, v, _). (rc, d, v)) (readDbPage ros db_rc True (reader_view r w') db' sz q) =
    map_option (\<lambda>(rc, d, v, _). (rc, d, v)) (readDbPage ros db_rc True (reader_view r w) db sz q)"
proof -
  let ?f = "latest L (minFrame (index r)) n q"
  have F: "walFrameOffset (length L + 1) sz \<le> length F" "n \<le> length L" using assms(2) unfolding ckpt_setting_def by blast+
  have page: "map_option (\<lambda>(rc, d, v, _). (rc, d, v)) (readDbPage ros db_rc True (reader_view r u) d sz q) =
      Some (page_result ros db_rc sz F d ?f q)"
    if keep: "others_keep L F H k b (shared_of u)" for k b u d
  proof -
    obtain ix X where "apWiData ix = apWiData (index u)" "index_rep ix (L @ X)" and u: "take (length F) (pWalFd u) = F"
      using keep by (auto simp: others_keep_def shared_of_def)
    then have "index_rep (index u) (L @ X)" using index_rep_pages [of "index u" ix] by simp
    from reader_page [OF this assms(8) F(2) u F(1)] show ?thesis .
  qed
  obtain b where w': "others_keep L F H (max n (mxFrame (index w))) b (shared_of w')"
    using checkpoint_shared [OF assms(1-3) _ assms(4,5)] assms(6) by blast
  have w: "others_keep L F H (max n (mxFrame (index w))) (nBackfill (info w)) (shared_of w)"
    using assms(2) by (simp add: ckpt_setting_def)
  have "page_result ros db_rc sz F db' ?f q = page_result ros db_rc sz F db ?f q"
    using checkpoint_pages [OF assms(1-7,10,11,9)] by (cases "?f = 0") (simp_all add: page_result_def)
  then show ?thesis unfolding page [OF w'] page [OF w] by simp
qed

text \<open>A reader that uses only the database file holds read lock 0: nothing is written.\<close>

theorem checkpoint_waits_for_file_readers:
  assumes "walCheckpoint be os eMode xBusy w db = Some (rc, w', db')"
    and "ckpt_setting os w L F sz H n" "locks_refused (rd os) H" "0 \<in> dom H" "no_restart n H w"
  shows "db' = db"
proof -
  note s = ckpt_settingD [OF assms(2,3)] and st = ckpt_settingD(1) [OF assms(2,3,5) [unfolded no_restart_def]]
  have "try_lock (rd os) k True (WAL_READ_LOCK 0) 1 \<noteq> SQLITE_OK" for k
    using lock_refused_one [OF assms(3,4)] by simp
  then show ?thesis by (metis walCheckpoint_ok [OF assms(1) st s(2) s(3) s(4) refl s(6-8)])
qed

section \<open>The database file\<close>

text \<open>Of the frames \<open>L\<close>, the pages whose latest of \<open>N\<close> frames is among the first \<open>b\<close> have its content
  in the file, pages without a frame the old one.\<close>

definition db_current :: "(u32 \<Rightarrow> u8 list) \<Rightarrow> u32 list \<Rightarrow> u8 list \<Rightarrow> nat \<Rightarrow> u32 \<Rightarrow> nat \<Rightarrow> nat \<Rightarrow> u8 list \<Rightarrow> bool" where
  "db_current old L F sz g N b db \<longleftrightarrow>
     (\<forall>q. 0 < q \<and> q \<le> g \<and> q \<noteq> 0xFFFFFFFF \<and> latest L 1 N q \<le> b \<longrightarrow>
        file_page sz db (unat q) = (if latest L 1 N q = 0 then old q else frame_content sz F (latest L 1 N q)))"

lemma db_current_mono: "db_current old L F sz g N b db \<Longrightarrow> b' \<le> b \<Longrightarrow> db_current old L F sz g N b' db"
  unfolding db_current_def using le_trans by blast

lemma walRestartHdr_state:
  "walRestartHdr be salt w = Some w' \<Longrightarrow> nBackfill (info w') = 0 \<and> mxFrame (index w') = 0 \<and> live_mxFrame (index w') = 0
     \<and> apWiData (index w') = apWiData (index w) \<and> pWalFd w' = pWalFd w"
  by (auto simp: walRestartHdr_def walIndexWriteHdr_def Let_def split: Option.bind_splits)

text \<open>At the end of a checkpoint that waits for readers the log is empty or as before.\<close>

lemma ckpt_restart_out:
  assumes run: "ckpt_restart be os eMode xBusy rc v = Some (rc', w')" and st: "stable (rd os) J" and inv: "ckpt_inv J h N v"
    and b: "\<And>s. J s \<Longrightarrow> nBackfill (sh_info s) = b"
  shows "nBackfill (info w') = b \<and> mxFrame (index w') = N \<or> N \<le> b \<and> nBackfill (info w') = 0 \<and> mxFrame (index w') = 0"
proof -
  have st_b: "nBackfill (info u) = b \<and> mxFrame (index u) = N" if "ckpt_inv J h N u" for u
    using that b [of "shared_of u"] by (simp add: ckpt_inv_def conn_def shared_of_def)
  have inv1: "ckpt_inv J h N (tick (rd os) v)" by (rule ckpt_inv_tick [OF st inv])
  note b1 = st_b [OF inv1]
  show ?thesis
  proof (cases "rc = SQLITE_OK \<and> eMode \<noteq> SQLITE_CHECKPOINT_PASSIVE \<and> \<not> b < N \<and> SQLITE_CHECKPOINT_RESTART \<le> eMode")
    case False
    then have "w' = v \<or> w' = tick (rd os) v" using run b1 unfolding ckpt_restart_def Let_def by (auto split: if_splits)
    then show ?thesis using st_b inv inv1 by auto
  next
    case True
    then have run1: "do { (rc, w) \<leftarrow> walBusyLock (rd os) xBusy (WAL_READ_LOCK 1) (WAL_NREADER - 1) (tick (rd os) v);
        if rc = SQLITE_OK \<and> eMode = SQLITE_CHECKPOINT_TRUNCATE then do {
            w \<leftarrow> walRestartHdr be (salt1 os) w;
            Some (log_trunc_rc os, if log_trunc_rc os = SQLITE_OK then w\<lparr>pWalFd := []\<rparr> else w)
          }
        else Some (rc, w) } = Some (rc', w')"
      using run b1 by (simp add: ckpt_restart_def Let_def)
    then obtain r u where l: "walBusyLock (rd os) xBusy (WAL_READ_LOCK 1) (WAL_NREADER - 1) (tick (rd os) v) = Some (r, u)"
      by (auto split: Option.bind_splits)
    have "ckpt_inv J h N u" using walBusyLock_result [OF l st inv1] by simp
    from st_b [OF this] run1 l True show ?thesis
      by (auto split: if_splits Option.bind_splits dest: walRestartHdr_state)
  qed
qed

lemma checkpoint_keeps:
  assumes "walCheckpoint be os eMode xBusy w db = Some (rc, w', db')"
    and "ckpt_setting os w L F sz H n" "locks_refused (rd os) H" "no_restart n H w"
    and "eMode = SQLITE_CHECKPOINT_PASSIVE \<or> writeLock (index w)"
    and "db_current old L F sz (nPage (hdr w)) (mxFrame (index w)) (nBackfill (info w)) db"
  shows "db_current old L F sz (nPage (hdr w)) (mxFrame (index w))
    (if mxFrame (index w') = mxFrame (index w) then nBackfill (info w') else mxFrame (index w)) db'"
proof -
  let ?O = "others_keep L F H (max n (mxFrame (index w)))" let ?J = "?O (nBackfill (info w))"
  let ?N = "mxFrame (index w)" and ?b = "nBackfill (info w)" and ?g = "nPage (hdr w)"
  note s = ckpt_settingD [OF assms(2,3)] and st = ckpt_settingD(1) [OF assms(2,3,4) [unfolded no_restart_def]]
  obtain s v rc1 xBusy1 where c: "pages_copied ?J L ?N ?b s ?g sz db db'"
    "nBackfill (info v) = ?b \<or> ?b < s \<and> nBackfill (info v) = s \<and> all_copied L ?N ?b s ?g sz F db'"
    and out: "ckpt_out ?J (hdr w) ?N s v" "(rc, w') = (rc1, v) \<or> ckpt_restart be os eMode xBusy1 rc1 v = Some (rc, w')"
    by (rule walCheckpoint_ok [OF assms(1) st s(2) s(3) s(4) refl s(6-8)])
  let ?\<beta> = "nBackfill (info v)"
  have same: "file_page sz db' (unat q) = file_page sz db (unat q)" if "0 < q" "q \<le> ?g" "latest L 1 ?N q \<le> ?b" for q
    using c(1) that by (simp add: pages_copied_def to_copy_def)
  have new: "file_page sz db' (unat q) = frame_content sz F (latest L 1 ?N q)"
    if "q \<le> ?g" "q \<noteq> 0xFFFFFFFF" "?b < latest L 1 ?N q" "latest L 1 ?N q \<le> ?\<beta>" for q
    using c(2) that by (auto simp: all_copied_def to_copy_def)
  have cur: "db_current old L F sz ?g ?N ?\<beta> db'"
    unfolding db_current_def
  proof (intro allI impI, elim conjE)
    fix q assume q: "0 < q" "q \<le> ?g" "q \<noteq> 0xFFFFFFFF" "latest L 1 ?N q \<le> ?\<beta>"
    show "file_page sz db' (unat q) = (if latest L 1 ?N q = 0 then old q else frame_content sz F (latest L 1 ?N q))"
    proof (cases "latest L 1 ?N q \<le> ?b")
      case True
      then show ?thesis using same [OF q(1,2)] assms(6) q(1-3) unfolding db_current_def by metis
    next
      case False
      then show ?thesis using new q by simp
    qed
  qed
  have inv: "ckpt_inv (?O ?\<beta>) (hdr w) ?N v"
  proof -
    obtain u where u: "ckpt_inv ?J (hdr w) ?N u" "v = u \<or> v = u\<lparr>info := (info u)\<lparr>nBackfill := s\<rparr>\<rparr>"
      using out(1) unfolding ckpt_out_def by blast
    then show ?thesis by (elim disjE) (simp_all add: ckpt_inv_def conn_def others_keep_def shared_of_def)
  qed
  have "?\<beta> = nBackfill (info w') \<and> mxFrame (index w') = ?N \<or> ?N \<le> ?\<beta> \<and> nBackfill (info w') = 0 \<and> mxFrame (index w') = 0"
  proof (cases "eMode = SQLITE_CHECKPOINT_PASSIVE \<or> (rc, w') = (rc1, v)")
    case True
    then have "w' = v" using out(2) by (auto simp: ckpt_restart_passive)
    then show ?thesis using inv by (simp add: ckpt_inv_def conn_def)
  next
    case False
    then have r: "ckpt_restart be os eMode xBusy1 rc1 v = Some (rc, w')" and "writers_wait H w"
      using out(2) assms(5) by (auto simp: writers_wait_def)
    have kept: "nBackfill (sh_info s) = ?\<beta>" if "?O ?\<beta> s" for s using that by (simp add: others_keep_def)
    from ckpt_restart_out [OF r ckpt_settingD(1) [OF assms(2,3) disjI2 [OF \<open>writers_wait H w\<close>], of ?\<beta>] inv kept]
    show ?thesis by metis
  qed
  then show ?thesis using cur by (auto intro: db_current_mono [OF cur])
qed

text \<open>C17: While no other connection can restart the log - it is not wholly copied when the checkpoint
  starts, a reader holds a mark, or the checkpoint holds the write lock, as all modes but PASSIVE
  do - every checkpoint, whatever locks are refused and whatever operations fail, leaves the pages
  whose latest frame counts as backfilled (all, when TRUNCATE emptied the log) with its content in
  the database file\<close>

theorem checkpoint_keeps_database:
  assumes "walCheckpoint be os eMode xBusy w db = Some (rc, w', db')"
    and "ckpt_setting os w L F sz H n" "locks_refused (rd os) H" "no_restart n H w"
    and "eMode = SQLITE_CHECKPOINT_PASSIVE \<or> writeLock (index w)"
    and "db_current old L F sz (nPage (hdr w)) (mxFrame (index w)) (nBackfill (info w)) db"
  shows "db_current old L F sz (nPage (hdr w)) (mxFrame (index w))
    (if mxFrame (index w') = mxFrame (index w) then nBackfill (info w') else mxFrame (index w)) db'"
  by (rule checkpoint_keeps [OF assms])

section \<open>Checkpoints end\<close>

text \<open>The loop of the busy handler ends: the handler gives up at some time, or no lock is refused.\<close>

definition patient :: "busy \<Rightarrow> bool" where
  "patient xBusy \<longleftrightarrow> (\<forall>handler. xBusy = Some handler \<longrightarrow> (\<forall>t. \<exists>t' \<ge> t. \<not> handler t'))"

definition lock_ends :: "read_os \<Rightarrow> busy \<Rightarrow> bool" where
  "lock_ends os xBusy \<longleftrightarrow> patient xBusy \<or> (\<forall>k l n. try_lock os k True l n = SQLITE_OK)"

lemma lock_ends_None [simp]: "lock_ends os None"
  by (simp add: lock_ends_def patient_def)

lemma busy_returns:
  assumes "lock_ends os xBusy" "stable os J" "ckpt_inv J h N w"
  obtains rc w' where "walBusyLock os xBusy l n w = Some (rc, w')" "ckpt_inv J h N w'" "\<exists>k. rc = try_lock os k True l n"
proof -
  have mode: "exclusiveMode (index w) = WAL_NORMAL_MODE" using assms(3) by (simp add: ckpt_inv_def conn_def)
  have "\<exists>r. walBusyLock os xBusy l n w = Some r"
  proof (cases "patient xBusy")
    case True
    then show ?thesis using walBusyLock_returns [OF _ mode] unfolding patient_def by blast
  next
    case False
    then have "try_lock os k True l n = SQLITE_OK" for k using assms(1) by (simp add: lock_ends_def)
    then show ?thesis by (subst walBusyLock.simps) (simp add: wal_lock_normal [OF mode] split: option.splits)
  qed
  then show ?thesis using that walBusyLock_result [OF _ assms(2,3)] by (metis surj_pair fst_conv snd_conv)
qed

lemma ckpt_marks_returns:
  "lock_ends os xBusy \<Longrightarrow> stable os J \<Longrightarrow> ckpt_inv J h N w \<Longrightarrow>
   \<exists>rc' leave xBusy' mx' w'. ckpt_marks os xBusy is rc mx w = Some (rc', leave, xBusy', mx', w') \<and> lock_ends os xBusy'
     \<and> ((\<forall>k l n. try_lock os k True l n = SQLITE_OK) \<longrightarrow> rc = SQLITE_OK \<longrightarrow> rc' = SQLITE_OK \<and> \<not> leave \<and> mx' = mx)"
proof (induction "is" arbitrary: xBusy rc mx w)
  case Nil
  then show ?case by (intro exI [of _ rc] exI [of _ False] exI [of _ xBusy] exI [of _ mx] exI [of _ w]) simp
next
  case (Cons i "is")
  let ?w = "tick os w" let ?y = "aReadMark (info ?w) i"
  have inv: "ckpt_inv J h N ?w" by (rule ckpt_inv_tick [OF Cons.prems(2,3)])
  obtain r v where l: "walBusyLock os xBusy (WAL_READ_LOCK i) 1 ?w = Some (r, v)" "ckpt_inv J h N v"
    "\<exists>k. r = try_lock os k True (WAL_READ_LOCK i) 1"
    using busy_returns [OF Cons.prems(1,2) inv] by blast
  consider (same) "mx \<le> ?y" | (ok) "?y < mx" "r = SQLITE_OK" | (busy) "?y < mx" "r = SQLITE_BUSY"
    | (err) "?y < mx" "r \<noteq> SQLITE_OK" "r \<noteq> SQLITE_BUSY" by linarith
  then show ?case
  proof cases
    case same
    then show ?thesis using Cons.IH [OF Cons.prems(1,2) inv, of rc mx] by (simp add: Let_def)
  next
    case ok
    obtain k where "try_lock os k True (WAL_READ_LOCK i) 1 = SQLITE_OK" using l(3) ok(2) by metis
    note IH = Cons.IH [OF Cons.prems(1,2) ckpt_inv_mark [OF Cons.prems(2) l(2) this], of r mx "if i = 1 then mx else READMARK_NOT_USED"]
    have eq: "ckpt_marks os xBusy (i # is) rc mx w = ckpt_marks os xBusy is r mx
        (v\<lparr>info := (info v)\<lparr>aReadMark := (aReadMark (info v))(i := if i = 1 then mx else READMARK_NOT_USED)\<rparr>\<rparr>)"
      using ok l(1) by (simp add: Let_def)
    from IH ok(2) show ?thesis unfolding eq by (elim exE conjE) (intro exI conjI, auto)
  next
    case busy
    then show ?thesis using Cons.IH [OF lock_ends_None Cons.prems(2) l(2), of r ?y] l(1,3) by (auto simp: Let_def)
  next
    case err
    then show ?thesis using l(1,3) Cons.prems(1) by (auto simp: Let_def)
  qed
qed

lemma walIndexWriteHdr_returns: "length (aSalt (hdr w)) = 8 \<Longrightarrow> \<exists>w'. walIndexWriteHdr be w = Some w'"
  by (simp add: walIndexWriteHdr_def walChecksumBytes_def hdr_bytes_def native_bytes_def Let_def)

lemma walRestartHdr_returns:
  assumes "length (aSalt (hdr w)) = 8" "length salt = 4"
  shows "\<exists>w'. walRestartHdr be salt w = Some w'"
proof -
  obtain s where s: "sqlite3Get4byte (aSalt (hdr w)) = Some s" using get4_total [of "aSalt (hdr w)"] assms(1) by auto
  let ?w = "w\<lparr>index := (index w)\<lparr>nCkpt := nCkpt (index w) + 1, mxFrame := 0\<rparr>, hdr := (hdr w)\<lparr>aSalt := sqlite3Put4byte (1 + s) @ salt\<rparr>\<rparr>"
  obtain w' where "walIndexWriteHdr be ?w = Some w'" using walIndexWriteHdr_returns [of ?w be] assms(2) by auto
  then show ?thesis using s by (simp add: walRestartHdr_def)
qed

lemma stable_any: "stable os (\<lambda>_. True)"
  by (simp add: stable_def)

lemma ckpt_restart_returns:
  assumes "lock_ends (rd os) xBusy" "ckpt_inv (\<lambda>_. True) h N w" "length (aSalt h) = 8" "length (salt1 os) = 4"
  shows "\<exists>r. ckpt_restart be os eMode xBusy rc w = Some r"
proof -
  note inv = ckpt_inv_tick [OF stable_any assms(2)]
  obtain r v where l: "walBusyLock (rd os) xBusy (WAL_READ_LOCK 1) (WAL_NREADER - 1) (tick (rd os) w) = Some (r, v)"
    "ckpt_inv (\<lambda>_. True) h N v" using busy_returns [OF assms(1) stable_any inv] by blast
  have "length (aSalt (hdr v)) = 8" using l(2) assms(3) by (simp add: ckpt_inv_def conn_def)
  then obtain w' where "walRestartHdr be (salt1 os) v = Some w'" using walRestartHdr_returns assms(4) by blast
  then show ?thesis using l(1) by (simp add: ckpt_restart_def Let_def)
qed

text \<open>The iterator can be set up whatever is in the pages of the index, if a page that the VFS maps
  without an error is there.\<close>

definition pages_mapped :: "wal_os \<Rightarrow> bool" where
  "pages_mapped os \<longleftrightarrow> (\<forall>h. shm_rc os h = SQLITE_OK \<or> shm_rc os h = SQLITE_READONLY \<longrightarrow> shm_present os h)"

lemma walHashGet_returns:
  assumes "pages_mapped os"
  obtains (ok) w' where "walHashGet os w h = (SQLITE_OK, Some (hash_loc h), w')" "exclusiveMode w' = exclusiveMode w" "mxFrame w' = mxFrame w"
  | (err) rc w' where "walHashGet os w h = (rc, None, w')" "rc \<noteq> SQLITE_OK" "exclusiveMode w' = exclusiveMode w" "mxFrame w' = mxFrame w"
proof -
  obtain rc page w' where p: "walIndexPage os w h = ((rc, page), w')" by (metis surj_pair)
  have "(rc = SQLITE_OK \<longrightarrow> page) \<and> exclusiveMode w' = exclusiveMode w \<and> mxFrame w' = mxFrame w"
    using p assms by (auto simp: walIndexPage_def walIndexPageRealloc_def pages_mapped_def Let_def split: if_splits)
  then show thesis using p that(1) [of w'] that(2) [of rc w'] by (cases "rc = SQLITE_OK") (simp_all add: walHashGet_def)
qed

lemma make_segment_returns: "0 < n \<Longrightarrow> n \<le> 4096 \<Longrightarrow> \<exists>s. make_segment w l n = Some s"
  by (rule walMergesort_correct [of n "[0 ..< n]" "\<lambda>j. aPgno w l (j + 1)"]) (simp_all add: make_segment_def)

lemma init_loop_returns:
  assumes os: "pages_mapped os" and N: "0 < N" "k = walFramePage N"
  shows "\<forall>i \<in> set is. i \<le> k \<Longrightarrow> \<exists>rc ss' w'. init_loop os w N (k + 1) is ss = Some (rc, ss', w')
    \<and> exclusiveMode w' = exclusiveMode w \<and> mxFrame w' = mxFrame w"
proof (induction "is" arbitrary: w ss)
  case (Cons i "is")
  have z: "zero_of k < N" "N \<le> zero_of k + npage k" using walFramePage_bounds [OF N(1)] N(2) by simp_all
  let ?n = "if i + 1 = k + 1 then N - iZero (hash_loc i) else HASHTABLE_NPAGE - loc_base (hash_loc i)"
  have n: "0 < ?n" "?n \<le> 4096"
    using z npage_bounds [of k]
    by (auto simp: zero_of_def [symmetric] hash_loc_def [of i] HASHTABLE_NPAGE_def WALINDEX_HDR_SIZE_def)
  show ?case
  proof (cases rule: walHashGet_returns [OF os, of w i])
    case (1 w1)
    obtain s where "make_segment w1 (hash_loc i) ?n = Some s" using make_segment_returns [OF n] by blast
    then show ?thesis using Cons.IH [of w1 "ss[i := s]"] Cons.prems 1 by auto
  next
    case (2 rc w1)
    then show ?thesis by auto
  qed
qed simp

lemma walIteratorInit_returns:
  assumes "pages_mapped os" "0 < mxFrame w"
  obtains rc p w' where "walIteratorInit os m1 m2 w b = Some (rc, p, w')" "exclusiveMode w' = exclusiveMode w" "mxFrame w' = mxFrame w"
proof -
  let ?k = "walFramePage (mxFrame w)"
  have "\<forall>i \<in> set [walFramePage (b + 1) ..< ?k + 1]. i \<le> ?k" by auto
  from init_loop_returns [OF assms(1,2) refl this, of w "replicate (?k + 1) empty_segment"] show thesis
    using that by (cases m1; cases m2) (auto simp: walIteratorInit_def Let_def simp del: upt_Suc replicate_Suc)
qed

lemma copy_loop_conn: "conn h N w \<Longrightarrow> conn h N (fst (snd (copy_loop os b s g sz p f w db)))"
proof (induction os b s g sz p f w db rule: copy_loop.induct)
  case (1 os b s g sz p f w db)
  have t: "conn h N (tick (rd os) w)" using 1(3) by (simp add: conn_def tick_def Let_def)
  show ?case
    by (subst copy_loop.simps) (auto simp: Let_def 1(3) t split: prod.splits bool.splits intro!: 1(1,2))
qed

lemma ckpt_copy_conn: "conn h N w \<Longrightarrow> conn h N (fst (snd (ckpt_copy os s g sz p w db)))"
proof -
  assume c: "conn h N w"
  have t: "conn h N (tick (rd os) v)" if "conn h N v" for v using that by (simp add: conn_def tick_def Let_def)
  have i: "conn h N (v\<lparr>info := i\<rparr>)" if "conn h N v" for v i using that by (simp add: conn_def)
  have "conn h N v" if "copy_loop os b s g sz p f u d = (rc, v, d')" "conn h N u" for b f u d rc v d'
    using copy_loop_conn [OF that(2), of os b s g sz p f d] that(1) by simp
  then show ?thesis using t i c by (auto simp: ckpt_copy_def Let_def split: prod.splits if_splits)
qed

lemma ckpt_backfill_ends:
  assumes "ckpt_inv (\<lambda>_. True) h N w" "0 < N" "pages_mapped (index_os (file_os (shm (rd os))))" "lock_ends (rd os) xBusy"
  shows "\<exists>rc' w' db'. ckpt_backfill os xBusy s g sz rc w db = Some (rc', w', db') \<and> ckpt_inv (\<lambda>_. True) h N w'"
proof -
  let ?w = "tick (rd os) w" let ?I = "\<lambda>w. ckpt_inv (\<lambda>_. True) h N w"
  have inv: "?I ?w" by (rule ckpt_inv_tick [OF stable_any assms(1)])
  have c: "?I u" if "conn h N u" for u using that by (simp add: ckpt_inv_def)
  show ?thesis
  proof (cases "nBackfill (info ?w) < s")
    case False
    then show ?thesis using inv by (simp add: ckpt_backfill_def Let_def)
  next
    case True
    have "0 < mxFrame (index ?w)" using inv assms(2) by (simp add: ckpt_inv_def conn_def)
    then obtain r p ix where p: "walIteratorInit (index_os (file_os (shm (rd os)))) (iter_malloc os) (tmp_malloc os) (index ?w)
        (nBackfill (info ?w)) = Some (r, p, ix)" "exclusiveMode ix = exclusiveMode (index ?w)" "mxFrame ix = mxFrame (index ?w)"
      by (rule walIteratorInit_returns [OF assms(3)])
    have inv1: "?I (?w\<lparr>index := ix\<rparr>)" using inv p(2,3) by (simp add: ckpt_inv_def conn_def)
    obtain r2 v where l: "walBusyLock (rd os) xBusy (WAL_READ_LOCK 0) 1 (?w\<lparr>index := ix\<rparr>) = Some (r2, v)" "?I v"
      by (rule busy_returns [OF assms(4) stable_any inv1])
    have "?I (fst (snd (ckpt_copy os s g sz q v db)))" for q
      using ckpt_copy_conn [of h N v os s g sz q db] l(2) c by (simp add: ckpt_inv_def)
    then show ?thesis using True p(1) inv1 l
      by (cases p; cases "r2 = SQLITE_OK")
        (auto simp: ckpt_backfill_def Let_def split: prod.splits intro!: exI [of _ "fst (ckpt_copy os s g sz (the p) v db)"]
          exI [of _ "fst (snd (ckpt_copy os s g sz (the p) v db))"] exI [of _ "snd (snd (ckpt_copy os s g sz (the p) v db))"])
  qed
qed

lemma walCheckpoint_ends:
  assumes mode: "exclusiveMode (index w) = WAL_NORMAL_MODE" and os: "pages_mapped (index_os (file_os (shm (rd os))))"
    and salt: "length (aSalt (hdr w)) = 8" "length (salt1 os) = 4" and x: "lock_ends (rd os) xBusy"
  shows "\<exists>rc w' db'. walCheckpoint be os eMode xBusy w db = Some (rc, w', db')"
proof -
  let ?N = "mxFrame (index w)" let ?I = "\<lambda>v. ckpt_inv (\<lambda>_. True) (hdr w) ?N v"
  define w1 where "w1 = tick (rd os) w"
  have "?I w" using mode by (simp add: ckpt_inv_def conn_def)
  then have inv1: "?I w1" unfolding w1_def by (rule ckpt_inv_tick [OF stable_any])
  have N: "mxFrame (index w1) = ?N" "hdr w1 = hdr w" using inv1 by (simp_all add: ckpt_inv_def conn_def)
  note code = walCheckpoint_def Let_def w1_def [symmetric] N
  note last = ckpt_restart_returns [OF _ _ salt]
  show ?thesis
  proof (cases "nBackfill (info w1) < ?N")
    case False
    obtain r where "ckpt_restart be os eMode xBusy SQLITE_OK w1 = Some r" using last [OF x inv1] by blast
    then show ?thesis using False by (simp add: code split: prod.splits)
  next
    case True
    obtain rc0 leave xB s w2 where m: "ckpt_marks (rd os) xBusy [1 ..< WAL_NREADER] SQLITE_OK ?N w1 = Some (rc0, leave, xB, s, w2)"
      and xB: "lock_ends (rd os) xB"
      using ckpt_marks_returns [OF x stable_any inv1, of "[1 ..< WAL_NREADER]" SQLITE_OK ?N] by blast
    have w2: "?I w2" using ckpt_marks_ok [OF m stable_any inv1] by blast
    have "0 < ?N" using True by simp
    from ckpt_backfill_ends [OF w2 this os xB] obtain rc1 v db1 where
      c: "ckpt_backfill os xB s (nPage (hdr w)) (walPagesize (szPage16 (hdr w))) rc0 w2 db = Some (rc1, v, db1)" "?I v" by blast
    obtain r where "ckpt_restart be os eMode xB (if rc1 = SQLITE_BUSY then SQLITE_OK else rc1) v = Some r"
      using last [OF xB c(2)] by blast
    then show ?thesis using True m c(1) by (cases leave) (simp_all add: code del: upt_Suc split: prod.splits)
  qed
qed

text \<open>C25: A checkpoint in any mode returns if its busy handler gives up at some time, whatever other
  connections do to the shared memory and the log - nothing is assumed of their steps - and whatever
  locks and operations fail\<close>

theorem checkpoint_ends:
  assumes "exclusiveMode (index w) = WAL_NORMAL_MODE" "pages_mapped (index_os (file_os (shm (rd os))))"
    and "length (aSalt (hdr w)) = 8" "length (salt1 os) = 4"
    and "\<forall>handler. xBusy = Some handler \<longrightarrow> (\<forall>t. \<exists>t' \<ge> t. \<not> handler t')"
  shows "\<exists>rc w' db'. walCheckpoint be os eMode xBusy w db = Some (rc, w', db')"
  by (rule walCheckpoint_ends [OF assms(1-4)]) (simp add: lock_ends_def patient_def assms(5))

section \<open>Checkpoints without readers\<close>

text \<open>No lock, allocation or file operation fails.\<close>

definition no_errors :: "ckpt_os \<Rightarrow> bool" where
  "no_errors os \<longleftrightarrow> (\<forall>k l n. try_lock (rd os) k True l n = SQLITE_OK) \<and> iter_malloc os \<and> tmp_malloc os
     \<and> log_sync_rc os = SQLITE_OK \<and> db_size_rc os = SQLITE_OK \<and> db_trunc_rc os = SQLITE_OK \<and> db_sync_rc os = SQLITE_OK
     \<and> log_trunc_rc os = SQLITE_OK
     \<and> (\<forall>o1. log_read_rc os o1 = SQLITE_OK \<and> db_write_rc os o1 = SQLITE_OK) \<and> (\<forall>q. \<not> interrupted os q)"

lemma no_errors_lock: "no_errors os \<Longrightarrow> lock_ends (rd os) xBusy"
  by (simp add: no_errors_def lock_ends_def)

lemma copy_loop_no_errors: "no_errors os \<Longrightarrow> fst (copy_loop os b s g sz p f w db) = SQLITE_OK"
proof (induction os b s g sz p f w db rule: copy_loop.induct)
  case (1 os b s g sz p f w db)
  have n: "\<not> interrupted os q" "log_read_rc os o1 = SQLITE_OK" "db_write_rc os o1 = SQLITE_OK" for q o1
    using 1(3) by (simp_all add: no_errors_def)
  show ?case
    by (subst copy_loop.simps) (auto simp: Let_def n split: prod.splits bool.splits intro!: 1(1,2) [OF _ _ _ _ _ _ ] simp: 1(3))
qed

lemma copy_loop_rc: "no_errors os \<Longrightarrow> copy_loop os b s g sz p f w db = (rc, w', db') \<Longrightarrow> rc = SQLITE_OK"
  using copy_loop_no_errors [of os b s g sz p f w db] by simp

lemma ckpt_backfill_done:
  assumes st: "stable (rd os) J" and inv: "ckpt_inv J h N w" and kept: "log_kept J L b" and L: "N \<le> length L" "s \<le> N"
    and gr: "grants (index_os (file_os (shm (rd os)))) (index w)" and n: "no_errors os" and s: "b < s"
  shows "\<exists>w' db'. ckpt_backfill os xBusy s g sz rc w db = Some (SQLITE_OK, w', db') \<and> nBackfill (info w') = s"
proof (cases rule: ckpt_backfill_cases [OF st inv kept(1) L gr, of xBusy g sz rc db])
  case (1 r v)
  then show ?thesis using n s by (auto simp: no_errors_def)
next
  case (2 p w2)
  obtain r v where l: "walBusyLock (rd os) xBusy (WAL_READ_LOCK 0) 1 w2 = Some (r, v)" "\<exists>k. r = try_lock (rd os) k True (WAL_READ_LOCK 0) 1"
    using busy_returns [OF no_errors_lock [OF n] st 2(2)] by blast
  have "fst (ckpt_copy os s g sz p v db) = SQLITE_OK \<and> nBackfill (info (fst (snd (ckpt_copy os s g sz p v db)))) = s"
    using n by (auto simp: ckpt_copy_def Let_def no_errors_def split: prod.splits dest: copy_loop_rc [OF n])
  moreover have "r = SQLITE_OK" using n l(2) by (auto simp: no_errors_def)
  ultimately show ?thesis using 2(1) l(1) by (cases "ckpt_copy os s g sz p v db") auto
qed

text \<open>What is left at the end: all frames are counted, or TRUNCATE emptied the log.\<close>

definition ckpt_done :: "nat \<Rightarrow> nat \<Rightarrow> wal_log \<Rightarrow> bool" where
  "ckpt_done eMode N w' \<longleftrightarrow>
     (if eMode = SQLITE_CHECKPOINT_TRUNCATE
      then nBackfill (info w') = 0 \<and> mxFrame (index w') = 0 \<and> live_mxFrame (index w') = 0 \<and> pWalFd w' = []
      else nBackfill (info w') = N \<and> mxFrame (index w') = N)"

lemma ckpt_restart_done:
  assumes n: "no_errors os" and salt: "length (aSalt h) = 8" "length (salt1 os) = 4"
    and st: "eMode \<noteq> SQLITE_CHECKPOINT_PASSIVE \<Longrightarrow> stable (rd os) J"
    and inv: "ckpt_inv J h N v" and b: "\<And>s. J s \<Longrightarrow> nBackfill (sh_info s) = N"
  shows "\<exists>w'. ckpt_restart be os eMode xBusy SQLITE_OK v = Some (SQLITE_OK, w') \<and> ckpt_done eMode N w'"
proof -
  have st_b: "nBackfill (info u) = N" "mxFrame (index u) = N" "hdr u = h" if "ckpt_inv J h N u" for u
    using that b [of "shared_of u"] by (simp_all add: ckpt_inv_def conn_def shared_of_def)
  have modes: "SQLITE_CHECKPOINT_PASSIVE \<noteq> SQLITE_CHECKPOINT_TRUNCATE" "SQLITE_CHECKPOINT_RESTART \<le> SQLITE_CHECKPOINT_TRUNCATE"
    by (simp_all add: SQLITE_CHECKPOINT_PASSIVE_def SQLITE_CHECKPOINT_TRUNCATE_def SQLITE_CHECKPOINT_RESTART_def)
  show ?thesis
  proof (cases "eMode = SQLITE_CHECKPOINT_PASSIVE")
    case True
    then show ?thesis using st_b [OF inv] modes by (simp add: ckpt_restart_passive ckpt_done_def)
  next
    case False
    have inv1: "ckpt_inv J h N (tick (rd os) v)" by (rule ckpt_inv_tick [OF st [OF False] inv])
    obtain r u where l: "walBusyLock (rd os) xBusy (WAL_READ_LOCK 1) (WAL_NREADER - 1) (tick (rd os) v) = Some (r, u)"
      "ckpt_inv J h N u" "\<exists>k. r = try_lock (rd os) k True (WAL_READ_LOCK 1) (WAL_NREADER - 1)"
      by (rule busy_returns [OF no_errors_lock [OF n] st [OF False] inv1])
    have r: "r = SQLITE_OK" "log_trunc_rc os = SQLITE_OK" using l(3) n by (auto simp: no_errors_def)
    obtain u' where u': "walRestartHdr be (salt1 os) u = Some u'"
      using walRestartHdr_returns [of u "salt1 os"] salt st_b(3) [OF l(2)] by auto
    show ?thesis
      using False l(1) r u' walRestartHdr_state [OF u'] st_b [OF l(2)] st_b [OF inv1] modes
      by (auto simp: ckpt_restart_def ckpt_done_def Let_def)
  qed
qed

lemma ckpt_copies_all:
  assumes st: "stable (rd os) J" and inv1: "ckpt_inv J h N (tick (rd os) w)" and kept: "log_kept J L b" "file_kept J N sz F"
    and h: "sz = walPagesize (szPage16 h)" "hdr w = h" "mxFrame (index w) = N" and L: "N \<le> length L" "b < N"
    and gr: "grants (index_os (file_os (shm (rd os)))) (index w)" and n: "no_errors os"
  obtains xB v db1 where "ckpt_out J h N N v" "nBackfill (info v) = N"
    "walCheckpoint be os eMode xBusy w db = do { (rc, w) \<leftarrow> ckpt_restart be os eMode xB SQLITE_OK v; Some (rc, w, db1) }"
proof -
  define w1 where "w1 = tick (rd os) w"
  note inv1 = inv1 [folded w1_def]
  have b1: "nBackfill (info w1) = b" by (rule kept_backfill [OF kept(1) inv1])
  have N: "mxFrame (index w1) = N" "hdr w1 = h" using inv1 by (simp_all add: ckpt_inv_def conn_def)
  obtain xB w2 where m: "ckpt_marks (rd os) xBusy [1 ..< WAL_NREADER] SQLITE_OK N w1 = Some (SQLITE_OK, False, xB, N, w2)"
    using ckpt_marks_returns [OF no_errors_lock [OF n] st inv1, of xBusy "[1 ..< WAL_NREADER]" SQLITE_OK N] n
    unfolding no_errors_def by auto
  have w2: "ckpt_inv J h N w2" using ckpt_marks_ok [OF m st inv1] by blast
  have gr2: "grants (index_os (file_os (shm (rd os)))) (index w2)"
    using gr w2 by (simp add: grants_def ckpt_inv_def conn_def WAL_NORMAL_MODE_def WAL_HEAPMEMORY_MODE_def)
  obtain v db1 where c: "ckpt_backfill os xB N (nPage h) sz SQLITE_OK w2 db = Some (SQLITE_OK, v, db1)" and v: "nBackfill (info v) = N"
    using ckpt_backfill_done [OF st w2 kept(1) L(1) le_refl gr2 n L(2)] by blast
  have "ckpt_out J h N N v" using ckpt_backfill_ok [OF c st w2 kept refl L(1) le_refl gr2] by blast
  moreover have "walCheckpoint be os eMode xBusy w db = do { (rc, w) \<leftarrow> ckpt_restart be os eMode xB SQLITE_OK v; Some (rc, w, db1) }"
    using m c [unfolded h(1)] L(2) b1 by (simp add: walCheckpoint_def Let_def w1_def [symmetric] N h(2) del: upt_Suc)
  ultimately show thesis using that v by blast
qed

lemma walCheckpoint_done:
  assumes set: "ckpt_setting os w L F sz H n" "locks_refused (rd os) H" "no_restart n H w"
    and w: "eMode = SQLITE_CHECKPOINT_PASSIVE \<or> writeLock (index w)" and n: "no_errors os"
    and salt: "length (aSalt (hdr w)) = 8" "length (salt1 os) = 4" and b: "nBackfill (info w) \<le> mxFrame (index w)"
  shows "\<exists>w' db'. walCheckpoint be os eMode xBusy w db = Some (SQLITE_OK, w', db') \<and> ckpt_done eMode (mxFrame (index w)) w'"
proof -
  let ?N = "mxFrame (index w)" and ?b = "nBackfill (info w)" let ?J = "others_keep L F H (max n ?N)"
  note s = ckpt_settingD [OF set(1,2)] and st = ckpt_settingD(1) [OF set(1,2) set(3) [unfolded no_restart_def]]
  have st': "stable (rd os) (?J ?N)" if "eMode \<noteq> SQLITE_CHECKPOINT_PASSIVE"
    using that w ckpt_settingD(1) [OF set(1,2)] by (auto simp: writers_wait_def)
  have kept: "nBackfill (sh_info s) = ?N" if "?J ?N s" for s using that by (simp add: others_keep_def)
  note last = ckpt_restart_done [OF n salt st' _ kept]
  have inv1: "ckpt_inv (?J ?b) (hdr w) ?N (tick (rd os) w)" by (rule ckpt_inv_tick [OF st s(2)])
  show ?thesis
  proof (cases "?b < ?N")
    case False
    then have "?b = ?N" using b by simp
    then have inv: "ckpt_inv (?J ?N) (hdr w) ?N (tick (rd os) w)" using inv1 by simp
    from last [OF _ this] obtain w' where "ckpt_restart be os eMode xBusy SQLITE_OK (tick (rd os) w) = Some (SQLITE_OK, w')"
      "ckpt_done eMode ?N w'" by blast
    moreover have "\<not> nBackfill (info (tick (rd os) w)) < mxFrame (index (tick (rd os) w))"
      using kept_backfill [OF s(3) inv1] inv False by (simp add: ckpt_inv_def conn_def)
    ultimately show ?thesis by (simp add: walCheckpoint_def Let_def)
  next
    case True
    obtain xB v db1 where v: "ckpt_out (?J ?b) (hdr w) ?N ?N v" "nBackfill (info v) = ?N"
      and run: "walCheckpoint be os eMode xBusy w db = do { (rc, w) \<leftarrow> ckpt_restart be os eMode xB SQLITE_OK v; Some (rc, w, db1) }"
      by (rule ckpt_copies_all [OF st inv1 s(3,4,6) refl refl s(7) True s(8) n])
    have "ckpt_inv (?J ?N) (hdr w) ?N v" using v
      unfolding ckpt_out_def by (elim exE conjE disjE) (simp_all add: ckpt_inv_def conn_def others_keep_def shared_of_def)
    from last [OF _ this] obtain w' where "ckpt_restart be os eMode xB SQLITE_OK v = Some (SQLITE_OK, w')" "ckpt_done eMode ?N w'"
      by blast
    then show ?thesis using run by simp
  qed
qed

text \<open>C21: A checkpoint in any mode that meets no reader and no error copies the whole log while no other
  connection can restart it - it is not wholly copied yet, or the checkpoint holds the write lock, as
  all modes but PASSIVE do: every page up to the size of the database then has the content of its
  latest frame, the other pages their old content; TRUNCATE also empties the log\<close>

theorem checkpoint_completes:
  assumes "ckpt_setting os w L F sz Map.empty n" "no_errors os" "length (aSalt (hdr w)) = 8" "length (salt1 os) = 4"
    and "nBackfill (info w) < mxFrame (index w) \<or> nBackfill (info w) = mxFrame (index w) \<and> writeLock (index w)"
    and "eMode = SQLITE_CHECKPOINT_PASSIVE \<or> writeLock (index w)"
    and "db_current old L F sz (nPage (hdr w)) (mxFrame (index w)) (nBackfill (info w)) db"
  shows "\<exists>w' db'. walCheckpoint be os eMode xBusy w db = Some (SQLITE_OK, w', db')
    \<and> (if eMode = SQLITE_CHECKPOINT_TRUNCATE
       then nBackfill (info w') = 0 \<and> mxFrame (index w') = 0 \<and> live_mxFrame (index w') = 0 \<and> pWalFd w' = []
       else nBackfill (info w') = mxFrame (index w))
    \<and> (\<forall>q. 0 < q \<and> q \<le> nPage (hdr w) \<and> q \<noteq> 0xFFFFFFFF \<longrightarrow> file_page sz db' (unat q) =
          (let f = latest L 1 (mxFrame (index w)) q in if f = 0 then old q else frame_content sz F f))"
proof -
  let ?N = "mxFrame (index w)"
  have r: "locks_refused (rd os) Map.empty" by (simp add: locks_refused_def)
  have nr: "no_restart n Map.empty w" and b: "nBackfill (info w) \<le> ?N" using assms(5) by (auto simp: no_restart_def writers_wait_def)
  obtain w' db' where w': "walCheckpoint be os eMode xBusy w db = Some (SQLITE_OK, w', db')" "ckpt_done eMode ?N w'"
    using walCheckpoint_done [OF assms(1) r nr assms(6,2-4) b] by blast
  have "(if mxFrame (index w') = ?N then nBackfill (info w') else ?N) = ?N" using w'(2) by (auto simp: ckpt_done_def split: if_splits)
  with checkpoint_keeps [OF w'(1) assms(1) r nr assms(6,7)]
  have k: "db_current old L F sz (nPage (hdr w)) ?N ?N db'" by simp
  have "latest L 1 ?N q \<le> ?N" for q by (cases rule: latest_cases [of L 1 ?N q]) simp_all
  then have "file_page sz db' (unat q) = (let f = latest L 1 ?N q in if f = 0 then old q else frame_content sz F f)"
    if "0 < q \<and> q \<le> nPage (hdr w) \<and> q \<noteq> 0xFFFFFFFF" for q using k that unfolding db_current_def Let_def by blast
  moreover have "if eMode = SQLITE_CHECKPOINT_TRUNCATE
      then nBackfill (info w') = 0 \<and> mxFrame (index w') = 0 \<and> live_mxFrame (index w') = 0 \<and> pWalFd w' = []
      else nBackfill (info w') = ?N" using w'(2) by (simp add: ckpt_done_def split: if_splits)
  ultimately show ?thesis using w'(1) by blast
qed

section \<open>A restart at the wrong moment\<close>

text \<open>The assumption is needed: \<open>walCheckpoint\<close> compares \<open>nBackfill\<close> with the frames of a header that it
  read before, and does not look whether the log was started again in between.\<close>

text \<open>C40: When another connection starts a wholly copied log again after the checkpoint read the header
  and before it reads nBackfill, a PASSIVE checkpoint without any error ends with nBackfill at the old
  number of frames although the log has none: frames that are written next count as copied\<close>

theorem checkpoint_after_restart:
  assumes "exclusiveMode (index w) = WAL_NORMAL_MODE" "sz = walPagesize (szPage16 (hdr w))"
    and "index_rep (index w) L" "L \<noteq> []" "mxFrame (index w) = length L" "live_mxFrame (index w) = length L"
    and "nBackfill (info w) = length L" "walFrameOffset (length L + 1) sz \<le> length (pWalFd w)"
    and "grants (index_os (file_os (shm (rd os)))) (index w)" "no_errors os"
    and "shared_of c = shared_of w" "walRestartHdr be salt c = Some c'"
    and "\<forall>k s. others (rd os) k s = (if k = calls w \<and> s = shared_of w then shared_of c' else s)"
  shows "\<exists>w' db'. walCheckpoint be os SQLITE_CHECKPOINT_PASSIVE xBusy w db = Some (SQLITE_OK, w', db')
    \<and> live_mxFrame (index w') = 0 \<and> nBackfill (info w') = length L"
proof -
  define J where "J s \<longleftrightarrow> snd (sh_hdr s) = 0 \<and> nBackfill (sh_info s) = 0 \<and> sh_pages s = apWiData (index w) \<and> sh_file s = pWalFd w"
    for s :: shared
  have c: "apWiData (index c) = apWiData (index w)" "pWalFd c = pWalFd w" using assms(11) by (simp_all add: shared_of_def)
  have not: "\<not> J (shared_of w)" using assms(4,6) by (simp add: J_def shared_of_def)
  then have st: "stable (rd os) J" using assms(13) unfolding stable_def by (auto simp: J_def)
  have "shared_of (tick (rd os) w) = shared_of c'" using assms(1,13) by (simp add: shared_of_tick)
  then have inv: "ckpt_inv J (hdr w) (length L) (tick (rd os) w)"
    using walRestartHdr_state [OF assms(12)] c assms(1,5)
    by (simp add: ckpt_inv_def conn_def J_def tick_def Let_def) (simp add: shared_of_def)
  have kept: "log_kept J L 0" "file_kept J (length L) sz (pWalFd w)"
    using assms(3,8) by (auto simp: log_kept_def file_kept_def J_def intro!: exI [of _ "index w"] exI [of _ "[]"])
  have pos: "0 < length L" using assms(4) by simp
  obtain xB v db1 where v: "ckpt_out J (hdr w) (length L) (length L) v" "nBackfill (info v) = length L"
    and run: "walCheckpoint be os SQLITE_CHECKPOINT_PASSIVE xBusy w db =
      do { (rc, w) \<leftarrow> ckpt_restart be os SQLITE_CHECKPOINT_PASSIVE xB SQLITE_OK v; Some (rc, w, db1) }"
    by (rule ckpt_copies_all [OF st inv kept assms(2) refl assms(5) le_refl pos assms(9,10)])
  have "live_mxFrame (index v) = 0"
    using v(1) unfolding ckpt_out_def by (elim exE conjE disjE) (simp_all add: ckpt_inv_def J_def shared_of_def)
  then show ?thesis using run v(2) by (simp add: ckpt_restart_passive)
qed

section \<open>A reader and a checkpoint\<close>

text \<open>Five frames; a reader holds mark 1 at the last one.\<close>

definition demo_F :: "u8 list" where "demo_F = replicate (walFrameOffset (5 + 1) 512) 0"

definition demo_H :: "nat \<rightharpoonup> nat" where "demo_H = [1 \<mapsto> 5]"

definition demo_ckpt_os :: "(nat \<rightharpoonup> nat) \<Rightarrow> ckpt_os" where
  "demo_ckpt_os H = \<lparr>rd = demo_read_os\<lparr>try_lock := (\<lambda>_ _ l n.
       if \<exists>i \<in> {0, 1, 2, 3, 4}. H i \<noteq> None \<and> l \<le> WAL_READ_LOCK i \<and> WAL_READ_LOCK i < l + n then SQLITE_BUSY else SQLITE_OK)\<rparr>,
     iter_malloc = True, tmp_malloc = True, log_sync_rc = SQLITE_OK, db_size_rc = SQLITE_OK, db_write_rc = (\<lambda>_. SQLITE_OK),
     db_written = (\<lambda>_. 0), db_trunc_rc = SQLITE_OK, db_sync_rc = SQLITE_OK, log_trunc_rc = SQLITE_OK,
     interrupted = (\<lambda>_. False), mallocFailed = False, salt1 = [9, 9, 9, 9]\<rparr>"

definition demo_conn :: "bool \<Rightarrow> (nat \<Rightarrow> wal_page) \<Rightarrow> wal_log" where
  "demo_conn wl pages = (demo_log demo_F)\<lparr>index := demo_wal\<lparr>writeLock := wl, apWiData := pages, mxFrame := 5, live_mxFrame := 5\<rparr>,
     info := \<lparr>nBackfill = 0, aReadMark = (\<lambda>i. if i = 1 then 5 else 0), nBackfillAttempted = 0\<rparr>,
     hdr := (hdr (demo_log demo_F))\<lparr>szPage16 := 512, nPage := 9\<rparr>\<rparr>"

lemma demo_pages:
  obtains pages where "\<forall>wl. index_rep (index (demo_conn wl pages)) [5, 7, 5, 5, 9]"
proof -
  obtain w where "index_rep w [5, 7, 5, 5, 9]" by (rule demo_index)
  then have "index_rep (index (demo_conn wl (apWiData w))) [5, 7, 5, 5, 9]" for wl
    using index_rep_pages [of "index (demo_conn wl (apWiData w))" w] by (simp add: demo_conn_def)
  then show thesis using that by blast
qed

lemma demo_setting:
  assumes "index_rep (index (demo_conn wl pages)) [5, 7, 5, 5, 9]" "dom H \<subseteq> {1}" "\<forall>y. H 1 = Some y \<longrightarrow> y = 5"
  shows "ckpt_setting (demo_ckpt_os H) (demo_conn wl pages) [5, 7, 5, 5, 9] demo_F 512 H 5" "locks_refused (rd (demo_ckpt_os H)) H"
proof -
  have sz: "walPagesize 512 = 512" by (simp add: walPagesize_def)
  have F: "walFrameOffset (length [5, 7, 5, 5, 9 :: u32] + 1) 512 \<le> length demo_F"
    unfolding demo_lengths by (simp only: demo_F_def length_replicate)
  have keep: "others_keep [5, 7, 5, 5, 9] demo_F H 5 0 (shared_of (demo_conn wl pages))"
    unfolding others_keep_def
  proof (intro conjI)
    show "\<exists>ix X. apWiData ix = sh_pages (shared_of (demo_conn wl pages)) \<and> index_rep ix ([5, 7, 5, 5, 9] @ X)"
      using assms(1) by (intro exI [of _ "index (demo_conn wl pages)"] exI [of _ "[]"]) (simp add: shared_of_def)
    show "\<forall>i y. H i = Some y \<longrightarrow> aReadMark (sh_info (shared_of (demo_conn wl pages))) i = y"
      using assms(2,3) by (auto simp: shared_of_def demo_conn_def)
  qed (simp_all add: shared_of_def demo_conn_def demo_log_def)
  have "grants demo_wal_os (index (demo_conn wl pages))"
    by (simp add: grants_def demo_conn_def demo_wal_def demo_wal_os_def WAL_NORMAL_MODE_def WAL_HEAPMEMORY_MODE_def)
  then show "ckpt_setting (demo_ckpt_os H) (demo_conn wl pages) [5, 7, 5, 5, 9] demo_F 512 H 5"
    using keep sz F unfolding ckpt_setting_def
    by (simp add: demo_conn_def demo_wal_def demo_log_def demo_ckpt_os_def demo_read_os_def demo_shm_os_def demo_log_os_def)
  show "locks_refused (rd (demo_ckpt_os H)) H"
    unfolding locks_refused_def
  proof (intro allI impI, elim conjE)
    fix i k l n assume i: "i \<in> dom H" "l \<le> WAL_READ_LOCK i" "WAL_READ_LOCK i < l + n"
    then have "\<exists>i \<in> {0, 1, 2, 3, 4}. H i \<noteq> None \<and> l \<le> WAL_READ_LOCK i \<and> WAL_READ_LOCK i < l + n"
      using assms(2) by (intro bexI [of _ i]) auto
    moreover have "try_lock (rd (demo_ckpt_os H)) k True l n =
        (if \<exists>i \<in> {0, 1, 2, 3, 4}. H i \<noteq> None \<and> l \<le> WAL_READ_LOCK i \<and> WAL_READ_LOCK i < l + n then SQLITE_BUSY else SQLITE_OK)"
      by (simp add: demo_ckpt_os_def)
    ultimately show "try_lock (rd (demo_ckpt_os H)) k True l n = SQLITE_BUSY" by (simp only: if_True)
  qed
qed

lemma demo_no_errors: "no_errors (demo_ckpt_os Map.empty)"
  by (simp add: no_errors_def demo_ckpt_os_def log_read_rc_def demo_read_os_def demo_shm_os_def demo_log_os_def)

lemma demo_salts: "length (aSalt (hdr (demo_conn wl pages))) = 8" "length (salt1 (demo_ckpt_os H)) = 4"
  by (simp_all add: demo_conn_def demo_log_def demo_salt_def demo_ckpt_os_def)

lemma demo_conn_facts:
  "nBackfill (info (demo_conn wl pages)) = 0" "mxFrame (index (demo_conn wl pages)) = 5" "nPage (hdr (demo_conn wl pages)) = 9"
  "minFrame (index (demo_conn wl pages)) = 1" "log_reader demo_log_os (demo_conn wl pages) 5 512"
  by (simp_all add: demo_conn_def demo_wal_def log_reader_def demo_log_os_def grants_def demo_wal_os_def walPagesize_def
      WAL_NORMAL_MODE_def WAL_HEAPMEMORY_MODE_def)

lemma demo_mapped: "exclusiveMode (index (demo_conn wl pages)) = WAL_NORMAL_MODE"
    "pages_mapped (index_os (file_os (shm (rd (demo_ckpt_os H)))))"
  by (simp_all add: demo_conn_def demo_wal_def demo_ckpt_os_def demo_read_os_def demo_shm_os_def demo_log_os_def
      demo_wal_os_def pages_mapped_def)

lemma demo_ckpt_run:
  obtains rc w' db' where "walCheckpoint False (demo_ckpt_os H) SQLITE_CHECKPOINT_PASSIVE None (demo_conn wl pages) [] = Some (rc, w', db')"
  using walCheckpoint_ends [OF demo_mapped demo_salts lock_ends_None] by blast

lemma demo_no_restart: "no_restart 5 H (demo_conn wl pages)"
  by (simp add: no_restart_def demo_conn_facts)

lemma checkpoint_spares_readers_witness:
  "\<exists>pages rc w' db'. walCheckpoint False (demo_ckpt_os demo_H) SQLITE_CHECKPOINT_PASSIVE None (demo_conn False pages) [] = Some (rc, w', db')
    \<and> map_option (\<lambda>(rc, d, v, _). (rc, d, v)) (readDbPage demo_log_os SQLITE_OK True (reader_view (demo_conn False pages) w') db' 512 5) =
      map_option (\<lambda>(rc, d, v, _). (rc, d, v)) (readDbPage demo_log_os SQLITE_OK True (reader_view (demo_conn False pages) (demo_conn False pages)) [] 512 5)"
proof -
  obtain pages where "\<forall>wl. index_rep (index (demo_conn wl pages)) [5, 7, 5, 5, 9]" by (rule demo_pages)
  note p = this [rule_format]
  have H: "dom demo_H \<subseteq> {1}" "\<forall>y. demo_H 1 = Some y \<longrightarrow> y = 5" "demo_H 1 = Some 5" by (simp_all add: demo_H_def)
  obtain rc w' db' where run: "walCheckpoint False (demo_ckpt_os demo_H) SQLITE_CHECKPOINT_PASSIVE None (demo_conn False pages) [] = Some (rc, w', db')"
    by (rule demo_ckpt_run)
  have "1 < WAL_NREADER" by (simp add: WAL_NREADER_def)
  from checkpoint_spares_readers [OF run demo_setting [OF p H(1,2)] le_refl this H(3) le_refl demo_conn_facts(5) [of False pages], where q = 5 and db_rc = SQLITE_OK]
  show ?thesis using run by (auto simp: demo_conn_facts)
qed

lemma demo_current: "db_current (\<lambda>_. replicate 512 0) [5, 7, 5, 5, 9] demo_F 512 9 5 0 []"
  by (auto simp: db_current_def file_page_def byte_def map_replicate_const [where k = "0 :: u8", symmetric] intro!: nth_equalityI)

lemma checkpoint_keeps_database_witness:
  "\<exists>pages rc w' db'. walCheckpoint False (demo_ckpt_os demo_H) SQLITE_CHECKPOINT_PASSIVE None (demo_conn False pages) [] = Some (rc, w', db')
    \<and> db_current (\<lambda>_. replicate 512 0) [5, 7, 5, 5, 9] demo_F 512 9 5 (if mxFrame (index w') = 5 then nBackfill (info w') else 5) db'"
proof -
  obtain pages where "\<forall>wl. index_rep (index (demo_conn wl pages)) [5, 7, 5, 5, 9]" by (rule demo_pages)
  note p = this [rule_format]
  have H: "dom demo_H \<subseteq> {1}" "\<forall>y. demo_H 1 = Some y \<longrightarrow> y = 5" by (simp_all add: demo_H_def)
  obtain rc w' db' where run: "walCheckpoint False (demo_ckpt_os demo_H) SQLITE_CHECKPOINT_PASSIVE None (demo_conn False pages) [] = Some (rc, w', db')"
    by (rule demo_ckpt_run)
  from checkpoint_keeps_database [OF run demo_setting [OF p H] demo_no_restart disjI1 [OF refl]] demo_current show ?thesis
    using run unfolding demo_conn_facts by blast
qed

text \<open>The others destroy the index, the marks and the log at every step.\<close>

definition hostile_os :: ckpt_os where
  "hostile_os = (demo_ckpt_os Map.empty)\<lparr>rd := demo_read_os\<lparr>others := (\<lambda>k s. s\<lparr>sh_pages := (\<lambda>_. zero_page), sh_file := [],
     sh_info := \<lparr>nBackfill = k mod 5, aReadMark = (\<lambda>i. k), nBackfillAttempted = 0\<rparr>\<rparr>),
     try_lock := (\<lambda>k _ _ _. if k mod 3 = 0 then SQLITE_BUSY else SQLITE_OK)\<rparr>\<rparr>"

lemma checkpoint_ends_witness:
  "\<exists>rc w' db'. walCheckpoint False hostile_os SQLITE_CHECKPOINT_TRUNCATE (Some (\<lambda>t. t < 100)) (demo_conn True (\<lambda>_. zero_page)) []
    = Some (rc, w', db')"
proof -
  have h: "\<forall>handler. Some (\<lambda>t. t < (100 :: nat)) = Some handler \<longrightarrow> (\<forall>t. \<exists>t' \<ge> t. \<not> handler t')"
  proof (intro allI impI)
    fix handler :: "nat \<Rightarrow> bool" and t :: nat assume "Some (\<lambda>t. t < 100) = Some handler"
    then show "\<exists>t' \<ge> t. \<not> handler t'" by (intro exI [of _ "t + 100"]) auto
  qed
  have m: "pages_mapped (index_os (file_os (shm (rd hostile_os))))" and l: "length (salt1 hostile_os) = 4"
    using demo_mapped(2) [of Map.empty] demo_salts(2) [of Map.empty] by (simp_all add: hostile_os_def demo_ckpt_os_def)
  show ?thesis by (rule checkpoint_ends [OF demo_mapped(1) m demo_salts(1) l h])
qed

lemma checkpoint_completes_witness:
  "\<exists>pages w' db'. walCheckpoint False (demo_ckpt_os Map.empty) SQLITE_CHECKPOINT_TRUNCATE None (demo_conn True pages) [] = Some (SQLITE_OK, w', db')
    \<and> pWalFd w' = [] \<and> file_page 512 db' 5 = frame_content 512 demo_F 4"
proof -
  obtain pages where "\<forall>wl. index_rep (index (demo_conn wl pages)) [5, 7, 5, 5, 9]" by (rule demo_pages)
  note p = this [rule_format]
  have H: "dom Map.empty \<subseteq> {1 :: nat}" "\<forall>y. Map.empty (1 :: nat) = Some y \<longrightarrow> y = (5 :: nat)" by simp_all
  have b: "nBackfill (info (demo_conn True pages)) < mxFrame (index (demo_conn True pages))
      \<or> nBackfill (info (demo_conn True pages)) = mxFrame (index (demo_conn True pages)) \<and> writeLock (index (demo_conn True pages))"
    by (simp add: demo_conn_facts)
  have wl: "SQLITE_CHECKPOINT_TRUNCATE = SQLITE_CHECKPOINT_PASSIVE \<or> writeLock (index (demo_conn True pages))"
    by (simp add: demo_conn_def)
  have cur: "db_current (\<lambda>_. replicate 512 0) [5, 7, 5, 5, 9] demo_F 512 (nPage (hdr (demo_conn True pages)))
      (mxFrame (index (demo_conn True pages))) (nBackfill (info (demo_conn True pages))) []"
    using demo_current by (simp add: demo_conn_facts)
  from checkpoint_completes [OF demo_setting(1) [OF p H] demo_no_errors demo_salts b wl cur, of False None]
  obtain w' db' where w': "walCheckpoint False (demo_ckpt_os Map.empty) SQLITE_CHECKPOINT_TRUNCATE None (demo_conn True pages) [] = Some (SQLITE_OK, w', db')"
    "pWalFd w' = []"
    "\<forall>q. 0 < q \<and> q \<le> 9 \<and> q \<noteq> 0xFFFFFFFF \<longrightarrow> file_page 512 db' (unat q) =
       (let f = latest [5, 7, 5, 5, 9] 1 5 q in if f = 0 then replicate 512 0 else frame_content 512 demo_F f)"
    unfolding demo_conn_facts simp_thms if_True by blast
  have "file_page 512 db' (unat (5 :: u32)) = frame_content 512 demo_F 4" using w'(3) [rule_format, of 5] unfolding demo_latest by simp
  then show ?thesis using w'(1,2) by auto
qed

text \<open>Another connection starts the log again just when the checkpoint begins.\<close>

definition copied_conn :: "(nat \<Rightarrow> wal_page) \<Rightarrow> wal_log" where
  "copied_conn pages = (demo_conn False pages)\<lparr>info := (info (demo_conn False pages))\<lparr>nBackfill := 5\<rparr>\<rparr>"

definition restart_os :: "wal_log \<Rightarrow> wal_log \<Rightarrow> ckpt_os" where
  "restart_os w c' = (demo_ckpt_os Map.empty)\<lparr>rd := (rd (demo_ckpt_os Map.empty))\<lparr>others :=
     (\<lambda>k s. if k = calls w \<and> s = shared_of w then shared_of c' else s)\<rparr>\<rparr>"

lemma demo_len5: "length [5, 7, 5, 5, 9 :: u32] = 5"
  by simp

lemma checkpoint_after_restart_witness:
  "\<exists>pages c' w' db'. walRestartHdr False [1, 2, 3, 4] (copied_conn pages) = Some c' \<and>
    walCheckpoint False (restart_os (copied_conn pages) c') SQLITE_CHECKPOINT_PASSIVE None (copied_conn pages) [] = Some (SQLITE_OK, w', db')
    \<and> live_mxFrame (index w') = 0 \<and> nBackfill (info w') = 5"
proof -
  obtain pages where "\<forall>wl. index_rep (index (demo_conn wl pages)) [5, 7, 5, 5, 9]" by (rule demo_pages)
  note p = this [rule_format]
  let ?w = "copied_conn pages" and ?L = "[5, 7, 5, 5, 9] :: u32 list"
  obtain c' where c': "walRestartHdr False [1, 2, 3, 4] ?w = Some c'"
    using walRestartHdr_returns [of ?w "[1, 2, 3, 4]"] demo_salts(1) [of False pages] by (auto simp: copied_conn_def)
  let ?os = "restart_os ?w c'"
  have w: "exclusiveMode (index ?w) = WAL_NORMAL_MODE" "512 = walPagesize (szPage16 (hdr ?w))" "index_rep (index ?w) ?L" "?L \<noteq> []"
    "mxFrame (index ?w) = length ?L" "live_mxFrame (index ?w) = length ?L" "nBackfill (info ?w) = length ?L"
    using demo_mapped(1) p [of False]
    by (simp_all add: copied_conn_def demo_conn_facts) (simp_all add: demo_conn_def walPagesize_def)
  have f: "walFrameOffset (length ?L + 1) 512 \<le> length (pWalFd ?w)"
    unfolding demo_lengths by (simp only: copied_conn_def demo_conn_def demo_log_def demo_F_def wal_log.simps length_replicate)
  have gr: "grants (index_os (file_os (shm (rd ?os)))) (index ?w)"
    by (simp add: restart_os_def demo_ckpt_os_def demo_read_os_def demo_shm_os_def demo_log_os_def demo_wal_os_def grants_def
        copied_conn_def demo_conn_def demo_wal_def WAL_NORMAL_MODE_def WAL_HEAPMEMORY_MODE_def)
  have ne: "no_errors ?os" using demo_no_errors by (simp add: restart_os_def no_errors_def log_read_rc_def)
  have "\<forall>k s. others (rd ?os) k s = (if k = calls ?w \<and> s = shared_of ?w then shared_of c' else s)"
    by (simp add: restart_os_def)
  from checkpoint_after_restart [OF w f gr ne refl c' this, where xBusy = None and db = "[]"]
  obtain w' db' where "walCheckpoint False ?os SQLITE_CHECKPOINT_PASSIVE None ?w [] = Some (SQLITE_OK, w', db')"
    "live_mxFrame (index w') = 0" "nBackfill (info w') = 5" unfolding demo_len5 by blast
  with c' show ?thesis by blast
qed

end
