(* ===== verification/WalWrite.thy ===== *)
theory WalWrite
  imports WalCheckpoint
begin

text \<open>
  Writing to the log (\<open>sqlite3WalFrames\<close> of \<open>wal.c\<close>): a transaction is appended as frames, pages
  written before in the same transaction are overwritten in place, and then the checksums from there
  on are computed again at the commit.  The results of writes, syncs and reads are parameters; a
  write that fails may have written a part.  The caller holds the lock of the writer, so others change
  neither the file nor the index meanwhile.
\<close>

section \<open>Code\<close>

record write_os =
  wr_read :: read_os
  wr_rc :: "nat \<Rightarrow> rc"          \<comment> \<open>the result of a write, by the number of the call\<close>
  wr_bytes :: "nat \<Rightarrow> nat"      \<comment> \<open>the number of bytes of a write that fails\<close>
  wr_sync_rc :: "nat \<Rightarrow> rc"
  wr_malloc :: bool
  wr_stale :: "u8 list"         \<comment> \<open>8 bytes, what a buffer has when a read fails\<close>
  new_salt :: "u8 list"         \<comment> \<open>8 random bytes\<close>
  next_salt :: "u8 list"        \<comment> \<open>4 random bytes\<close>
  raw_sector :: int
  limit_size_rc :: rc
  limit_trunc_rc :: rc

text \<open>The structure \<open>WalWriter\<close>; \<open>synced\<close> is the content of \<open>pFd\<close> at its last sync that succeeded.\<close>

record wal_writer =
  pWal :: wal_log
  synced :: "u8 list"
  iSyncPoint :: nat
  syncFlags :: nat
  wr_szPage :: nat

type_synonym dirty = "u32 \<times> u8 list"   \<comment> \<open>\<open>pgno\<close> and \<open>pData\<close> of a page\<close>

definition WAL_SYNC_FLAGS :: "nat \<Rightarrow> nat" where "WAL_SYNC_FLAGS X = X AND 0x03"
definition CKPT_SYNC_FLAGS :: "nat \<Rightarrow> nat" where "CKPT_SYNC_FLAGS X = drop_bit 2 X AND 0x03"

definition sqlite3SectorSize :: "int \<Rightarrow> int" where
  "sqlite3SectorSize iRet = (if iRet < 32 then 512 else if 0x10000 < iRet then 0x10000 else iRet)"

definition osWrite :: "write_os \<Rightarrow> wal_writer \<Rightarrow> u8 list \<Rightarrow> nat \<Rightarrow> rc \<times> wal_writer" where
  "osWrite os p bs iOffset =
     (let w = pWal p; rc = wr_rc os (calls w); bs = (if rc = SQLITE_OK then bs else take (wr_bytes os (calls w)) bs) in
      (rc, p\<lparr>pWal := w\<lparr>calls := calls w + 1, pWalFd := write_at (pWalFd w) iOffset bs\<rparr>\<rparr>))"

definition sqlite3OsSync :: "write_os \<Rightarrow> nat \<Rightarrow> wal_writer \<Rightarrow> rc \<times> wal_writer" where
  "sqlite3OsSync os flags p =
     (if flags = 0 then (SQLITE_OK, p)
      else let w = pWal p; rc = wr_sync_rc os (calls w) in
        (rc, p\<lparr>pWal := w\<lparr>calls := calls w + 1\<rparr>, synced := if rc = SQLITE_OK then pWalFd w else synced p\<rparr>))"

text \<open>A read, \<open>None\<close> when it fails.\<close>

definition osRead :: "write_os \<Rightarrow> wal_log \<Rightarrow> nat \<Rightarrow> nat \<Rightarrow> rc \<times> u8 list option" where
  "osRead os w n iOffset =
     (let rc = read_rc (file_os (shm (wr_read os))) iOffset in
      if rc \<noteq> SQLITE_OK then (rc, None)
      else if length (pWalFd w) < iOffset + n then (SQLITE_IOERR_SHORT_READ, None)
      else (SQLITE_OK, Some (take n (drop iOffset (pWalFd w)))))"

definition walWriteToLog :: "write_os \<Rightarrow> wal_writer \<Rightarrow> u8 list \<Rightarrow> nat \<Rightarrow> nat \<Rightarrow> rc \<times> wal_writer" where
  "walWriteToLog os p pContent iAmt iOffset =
     (if iOffset < iSyncPoint p \<and> iSyncPoint p \<le> iOffset + iAmt then
        let iFirstAmt = iSyncPoint p - iOffset;
            (rc, p) = osWrite os p (take iFirstAmt pContent) iOffset in
        if rc \<noteq> SQLITE_OK then (rc, p)
        else
          let iOffset = iOffset + iFirstAmt; iAmt = iAmt - iFirstAmt; pContent = drop iFirstAmt pContent;
              (rc, p) = sqlite3OsSync os (WAL_SYNC_FLAGS (syncFlags p)) p in
          if iAmt = 0 \<or> rc \<noteq> SQLITE_OK then (rc, p)
          else osWrite os p (take iAmt pContent) iOffset
      else osWrite os p (take iAmt pContent) iOffset)"

definition walWriteOneFrame :: "bool \<Rightarrow> write_os \<Rightarrow> wal_writer \<Rightarrow> dirty \<Rightarrow> u32 \<Rightarrow> nat \<Rightarrow> (rc \<times> wal_writer) option" where
  "walWriteOneFrame be os p pPage nTruncate iOffset = do {
     (aFrame, w) \<leftarrow> walEncodeFrame be (pWal p) (fst pPage) nTruncate (snd pPage);
     let (rc, p) = walWriteToLog os (p\<lparr>pWal := w\<rparr>) aFrame WAL_FRAME_HDRSIZE iOffset;
     Some (if rc \<noteq> SQLITE_OK then (rc, p)
           else walWriteToLog os p (snd pPage) (wr_szPage p) (iOffset + WAL_FRAME_HDRSIZE))
   }"

text \<open>The loop of \<open>walRewriteChecksums\<close>.\<close>

function recksum_loop :: "bool \<Rightarrow> write_os \<Rightarrow> nat \<Rightarrow> nat \<Rightarrow> wal_writer \<Rightarrow> (rc \<times> wal_writer) option" where
  "recksum_loop be os iRead iLast p =
     (if iLast < iRead then Some (SQLITE_OK, p)
      else
        let sz = szPage (pWal p); iOff = walFrameOffset iRead sz in
        case osRead os (pWal p) (sz + WAL_FRAME_HDRSIZE) iOff of
          (rc, None) \<Rightarrow> Some (rc, p)
        | (rc, Some aBuf) \<Rightarrow> do {
            iPgno \<leftarrow> sqlite3Get4byte aBuf;
            nDbSize \<leftarrow> sqlite3Get4byte (drop 4 aBuf);
            (aFrame, w) \<leftarrow> walEncodeFrame be (pWal p) iPgno nDbSize (drop WAL_FRAME_HDRSIZE aBuf);
            let (rc, p) = osWrite os (p\<lparr>pWal := w\<rparr>) aFrame iOff;
            if rc \<noteq> SQLITE_OK then Some (rc, p) else recksum_loop be os (iRead + 1) iLast p
          })"
  by pat_completeness auto
termination
  by (relation "measure (\<lambda>(be, os, iRead, iLast, p). iLast + 1 - iRead)") auto

declare recksum_loop.simps [simp del]

definition walRewriteChecksums :: "bool \<Rightarrow> write_os \<Rightarrow> nat \<Rightarrow> wal_writer \<Rightarrow> (rc \<times> wal_writer) option" where
  "walRewriteChecksums be os iLast p =
     (if \<not> wr_malloc os then Some (SQLITE_NOMEM, p)
      else do {
        let w = pWal p;
        let iCksumOff = (if iReCksum w = 1 then 24 else walFrameOffset (iReCksum w - 1) (szPage w) + 16);
        let (rc, r) = osRead os w 8 iCksumOff;
        let aBuf = (case r of None \<Rightarrow> wr_stale os | Some b \<Rightarrow> b);
        c1 \<leftarrow> sqlite3Get4byte aBuf;
        c2 \<leftarrow> sqlite3Get4byte (drop 4 aBuf);
        let iRead = iReCksum w;
        let p = p\<lparr>pWal := w\<lparr>hdr := (hdr w)\<lparr>aFrameCksum := (c1, c2)\<rparr>, iReCksum := 0\<rparr>\<rparr>;
        if rc \<noteq> SQLITE_OK then Some (rc, p) else recksum_loop be os iRead iLast p
      })"

text \<open>The header of a log that is empty.\<close>

definition walWriteHeader :: "bool \<Rightarrow> write_os \<Rightarrow> nat \<Rightarrow> nat \<Rightarrow> wal_writer \<Rightarrow> (rc \<times> wal_writer) option" where
  "walWriteHeader be os sz sync_flags p = do {
     let w = pWal p;
     let ckpt = of_nat (nCkpt (index w));
     let w = (if ckpt = 0 then w\<lparr>hdr := (hdr w)\<lparr>aSalt := new_salt os\<rparr>\<rparr> else w);
     let aWalHdr = sqlite3Put4byte (WAL_MAGIC OR of_bool be) @ sqlite3Put4byte WAL_MAX_VERSION
       @ sqlite3Put4byte (of_nat sz) @ sqlite3Put4byte ckpt @ aSalt (hdr w);
     aCksum \<leftarrow> walChecksumBytes be True aWalHdr (WAL_HDRSIZE - 2 * 4) (0, 0);
     let w = w\<lparr>szPage := sz, hdr := (hdr w)\<lparr>bigEndCksum := be, aFrameCksum := aCksum\<rparr>, truncateOnCommit := True\<rparr>;
     let (rc, p) = osWrite os (p\<lparr>pWal := w\<rparr>)
       (aWalHdr @ sqlite3Put4byte (fst aCksum) @ sqlite3Put4byte (snd aCksum)) 0;
     Some (if rc \<noteq> SQLITE_OK then (rc, p)
           else if syncHeader (pWal p) then sqlite3OsSync os (CKPT_SYNC_FLAGS sync_flags) p
           else (SQLITE_OK, p))
   }"

text \<open>The loop over the dirty pages; besides the result and the state it delivers the pages that were
  appended (those with the flag \<open>PGHDR_WAL_APPEND\<close>, the last one is \<open>pLast\<close>), \<open>iFrame\<close> and
  \<open>iOffset\<close>.\<close>

fun write_frames :: "bool \<Rightarrow> write_os \<Rightarrow> nat \<Rightarrow> u32 \<Rightarrow> bool \<Rightarrow> dirty list \<Rightarrow> nat \<Rightarrow> nat \<Rightarrow> wal_writer
    \<Rightarrow> (rc \<times> dirty list \<times> nat \<times> nat \<times> wal_writer) option" where
  "write_frames be os iFirst nTruncate isCommit [] iFrame iOffset p = Some (SQLITE_OK, [], iFrame, iOffset, p)"
| "write_frames be os iFirst nTruncate isCommit (pg # pgs) iFrame iOffset p = do {
     (iWrite, p) \<leftarrow>
       (if iFirst \<noteq> 0 \<and> (pgs \<noteq> [] \<or> \<not> isCommit) then do {
          ((rc, iWrite), ix) \<leftarrow> sqlite3WalFindFrame (index_os (file_os (shm (wr_read os)))) (index (pWal p)) (fst pg);
          Some (iWrite, p\<lparr>pWal := (pWal p)\<lparr>index := ix\<rparr>\<rparr>)
        }
        else Some (0, p));
     if iFirst \<noteq> 0 \<and> iFirst \<le> iWrite then
       let w = pWal p;
           iOff = walFrameOffset iWrite (wr_szPage p) + WAL_FRAME_HDRSIZE;
           w = (if iReCksum w = 0 \<or> iWrite < iReCksum w then w\<lparr>iReCksum := iWrite\<rparr> else w);
           (rc, p) = osWrite os (p\<lparr>pWal := w\<rparr>) (take (wr_szPage p) (snd pg)) iOff in
       if rc \<noteq> SQLITE_OK then Some (rc, [], iFrame, iOffset, p)
       else write_frames be os iFirst nTruncate isCommit pgs iFrame iOffset p
     else do {
       (rc, p) \<leftarrow> walWriteOneFrame be os p pg (if isCommit \<and> pgs = [] then nTruncate else 0) iOffset;
       if rc \<noteq> SQLITE_OK then Some (rc, [], iFrame + 1, iOffset, p)
       else do {
         (rc, app, iFrame, iOffset, p) \<leftarrow>
           write_frames be os iFirst nTruncate isCommit pgs (iFrame + 1) (iOffset + wr_szPage p + WAL_FRAME_HDRSIZE) p;
         Some (rc, pg # app, iFrame, iOffset, p)
       }
     }
   }"

text \<open>The padding frames: their number is counted in \<open>nExtra\<close>.\<close>

lemma osWrite_fields: "osWrite os p bs off = (rc, q) \<Longrightarrow>
    iSyncPoint q = iSyncPoint p \<and> syncFlags q = syncFlags p \<and> wr_szPage q = wr_szPage p \<and> synced q = synced p"
  by (auto simp: osWrite_def Let_def)

lemma sqlite3OsSync_fields: "sqlite3OsSync os flags p = (rc, q) \<Longrightarrow>
    iSyncPoint q = iSyncPoint p \<and> syncFlags q = syncFlags p \<and> wr_szPage q = wr_szPage p"
  by (auto simp: sqlite3OsSync_def Let_def split: if_splits)

lemma walWriteToLog_fields: "walWriteToLog os p bs n off = (rc, q) \<Longrightarrow>
    iSyncPoint q = iSyncPoint p \<and> syncFlags q = syncFlags p \<and> wr_szPage q = wr_szPage p"
  by (auto simp: walWriteToLog_def Let_def dest!: osWrite_fields sqlite3OsSync_fields split: if_splits prod.splits)

lemma walWriteOneFrame_fields: "walWriteOneFrame be os p pg n off = Some (rc, q) \<Longrightarrow>
    iSyncPoint q = iSyncPoint p \<and> syncFlags q = syncFlags p \<and> wr_szPage q = wr_szPage p"
  by (auto simp: walWriteOneFrame_def Let_def dest!: walWriteToLog_fields split: if_splits prod.splits Option.bind_splits)

function pad_frames :: "bool \<Rightarrow> write_os \<Rightarrow> dirty \<Rightarrow> u32 \<Rightarrow> nat \<Rightarrow> nat \<Rightarrow> wal_writer
    \<Rightarrow> (rc \<times> nat \<times> wal_writer) option" where
  "pad_frames be os pLast nTruncate iOffset nExtra p =
     (if iSyncPoint p \<le> iOffset then Some (SQLITE_OK, nExtra, p)
      else case walWriteOneFrame be os p pLast nTruncate iOffset of
        None \<Rightarrow> None
      | Some (rc, p) \<Rightarrow>
          if rc \<noteq> SQLITE_OK then Some (rc, nExtra, p)
          else pad_frames be os pLast nTruncate (iOffset + wr_szPage p + WAL_FRAME_HDRSIZE) (nExtra + 1) p)"
  by pat_completeness auto
termination
  by (relation "measure (\<lambda>(be, os, l, n, iOffset, nExtra, p). iSyncPoint p - iOffset)")
    (auto simp: WAL_FRAME_HDRSIZE_def dest!: walWriteOneFrame_fields)

declare pad_frames.simps [simp del]

text \<open>Padding and syncing at a commit; the flag says whether the function returns at once.  Without
  an appended page there is no last one to repeat.\<close>

definition frames_sync :: "bool \<Rightarrow> write_os \<Rightarrow> dirty list \<Rightarrow> u32 \<Rightarrow> bool \<Rightarrow> nat \<Rightarrow> wal_writer
    \<Rightarrow> (rc \<times> bool \<times> nat \<times> wal_writer) option" where
  "frames_sync be os app nTruncate isCommit iOffset p =
     (if isCommit \<and> WAL_SYNC_FLAGS (syncFlags p) \<noteq> 0 then do {
        let sectorSize = nat (sqlite3SectorSize (raw_sector os));
        let pad = padToSectorBoundary (pWal p);
        let p = (if pad then p\<lparr>iSyncPoint := ((iOffset + sectorSize - 1) div sectorSize) * sectorSize\<rparr> else p);
        let bSync = (\<not> pad \<or> iSyncPoint p = iOffset);
        (rc, nExtra, p) \<leftarrow>
          (if pad \<and> iOffset < iSyncPoint p then
             if app = [] then None else pad_frames be os (last app) nTruncate iOffset 0 p
           else Some (SQLITE_OK, 0, p));
        if rc \<noteq> SQLITE_OK then Some (rc, True, nExtra, p)
        else
          let (rc, p) = (if bSync then sqlite3OsSync os (WAL_SYNC_FLAGS (syncFlags p)) p else (rc, p)) in
          Some (rc, False, nExtra, p)
      }
      else Some (SQLITE_OK, False, 0, p))"

text \<open>The end: limiting the file, entering the frames in the index, and publishing the header.\<close>

definition frames_limit :: "write_os \<Rightarrow> bool \<Rightarrow> nat \<Rightarrow> wal_log \<Rightarrow> wal_log" where
  "frames_limit os isCommit used w =
     (if isCommit \<and> truncateOnCommit w \<and> 0 \<le> mxWalSize w then
        let lim = (if mxWalSize w < int used then used else nat (mxWalSize w)) in
        (walLimitSize (limit_size_rc os) (limit_trunc_rc os) lim w)\<lparr>truncateOnCommit := False\<rparr>
      else w)"

definition frames_finish :: "bool \<Rightarrow> write_os \<Rightarrow> rc \<Rightarrow> dirty list \<Rightarrow> nat \<Rightarrow> nat \<Rightarrow> u32 \<Rightarrow> bool \<Rightarrow> nat \<Rightarrow> wal_log
    \<Rightarrow> (rc \<times> wal_log) option" where
  "frames_finish be os rc app nExtra iFrame nTruncate isCommit sz w =
     (let w = frames_limit os isCommit (walFrameOffset (iFrame + nExtra + 1) sz) w in
      if rc \<noteq> SQLITE_OK then Some (rc, w)
      else do {
        (rc, ix) \<leftarrow> wal_index_frames (index_os (file_os (shm (wr_read os)))) (index w)
          (map fst app @ replicate nExtra (fst (last app))) isCommit;
        let w = w\<lparr>index := ix\<rparr>;
        if rc \<noteq> SQLITE_OK then Some (rc, w)
        else
          let w = w\<lparr>hdr := (hdr w)\<lparr>szPage16 := hdr_pagesize sz\<rparr>\<rparr> in
          if isCommit then do {
            w \<leftarrow> walIndexWriteHdr be (w\<lparr>hdr := (hdr w)\<lparr>iChange := iChange (hdr w) + 1, nPage := nTruncate\<rparr>\<rparr>);
            Some (SQLITE_OK, w\<lparr>iCallback := mxFrame (index w)\<rparr>)
          }
          else Some (SQLITE_OK, w)
      })"

text \<open>The parts of \<open>sqlite3WalFrames\<close> behind the checksums, behind the header, and behind
  \<open>walRestartLog\<close>.\<close>

definition frames_tail :: "bool \<Rightarrow> write_os \<Rightarrow> dirty list \<Rightarrow> nat \<Rightarrow> u32 \<Rightarrow> bool \<Rightarrow> nat \<Rightarrow> wal_writer \<Rightarrow> (rc \<times> wal_writer) option" where
  "frames_tail be os app iFrame nTruncate isCommit iOffset p = do {
     (rc, leave, nExtra, p) \<leftarrow> frames_sync be os app nTruncate isCommit iOffset p;
     if leave then Some (rc, p)
     else do {
       (rc, w) \<leftarrow> frames_finish be os rc app nExtra iFrame nTruncate isCommit (wr_szPage p) (pWal p);
       Some (rc, p\<lparr>pWal := w\<rparr>)
     }
   }"

definition frames_body :: "bool \<Rightarrow> write_os \<Rightarrow> dirty list \<Rightarrow> u32 \<Rightarrow> bool \<Rightarrow> nat \<Rightarrow> wal_writer \<Rightarrow> (rc \<times> wal_writer) option" where
  "frames_body be os pList nTruncate isCommit iFirst p = do {
     let iFrame = mxFrame (index (pWal p));
     (rc, app, iFrame, iOffset, p) \<leftarrow> write_frames be os iFirst nTruncate isCommit pList iFrame
       (walFrameOffset (iFrame + 1) (wr_szPage p)) p;
     if rc \<noteq> SQLITE_OK then Some (rc, p)
     else do {
       (rc, p) \<leftarrow> (if isCommit \<and> iReCksum (pWal p) \<noteq> 0 then walRewriteChecksums be os iFrame p
                  else Some (SQLITE_OK, p));
       if rc \<noteq> SQLITE_OK then Some (rc, p) else frames_tail be os app iFrame nTruncate isCommit iOffset p
     }
   }"

definition frames_write :: "bool \<Rightarrow> write_os \<Rightarrow> nat \<Rightarrow> dirty list \<Rightarrow> u32 \<Rightarrow> bool \<Rightarrow> nat \<Rightarrow> nat \<Rightarrow> wal_writer
    \<Rightarrow> (rc \<times> wal_writer) option" where
  "frames_write be os sz pList nTruncate isCommit sync_flags iFirst p = do {
     (rc, p) \<leftarrow> (if mxFrame (index (pWal p)) = 0 then walWriteHeader be os sz sync_flags p else Some (SQLITE_OK, p));
     if rc \<noteq> SQLITE_OK then Some (rc, p)
     else frames_body be os pList nTruncate isCommit iFirst
       (p\<lparr>iSyncPoint := 0, syncFlags := sync_flags, wr_szPage := sz\<rparr>)
   }"

definition sqlite3WalFrames :: "bool \<Rightarrow> write_os \<Rightarrow> nat \<Rightarrow> dirty list \<Rightarrow> u32 \<Rightarrow> bool \<Rightarrow> nat \<Rightarrow> wal_writer
    \<Rightarrow> (rc \<times> wal_writer) option" where
  "sqlite3WalFrames be os sz pList nTruncate isCommit sync_flags p =
     (let w = pWal p; iFirst = (if same_hdr w then 0 else live_mxFrame (index w) + 1) in do {
        (rc, w) \<leftarrow> walRestartLog be (wr_read os) (next_salt os) w;
        if rc \<noteq> SQLITE_OK then Some (rc, p\<lparr>pWal := w\<rparr>)
        else frames_write be os sz pList nTruncate isCommit sync_flags iFirst (p\<lparr>pWal := w\<rparr>)
      })"

text \<open>Going back to the start of the transaction or to a savepoint, with the header.\<close>

definition wal_undo :: "wal_os \<Rightarrow> wal_log \<Rightarrow> (rc \<times> u32 list \<times> wal_log) option" where
  "wal_undo os w = do {
     (rc, pages, ix) \<leftarrow> sqlite3WalUndo os (index w);
     Some (rc, pages, w\<lparr>index := ix, hdr := if writeLock (index w) then live_hdr w else hdr w\<rparr>)
   }"

record wal_savepoint =
  sp_index :: savepoint
  sp_cksum :: "u32 \<times> u32"

definition wal_savepoint_of :: "wal_log \<Rightarrow> wal_savepoint" where
  "wal_savepoint_of w = \<lparr>sp_index = sqlite3WalSavepoint (index w), sp_cksum = aFrameCksum (hdr w)\<rparr>"

definition wal_savepoint_undo :: "wal_os \<Rightarrow> wal_log \<Rightarrow> wal_savepoint \<Rightarrow> (rc \<times> wal_log) option" where
  "wal_savepoint_undo os w sp = do {
     (rc, ix) \<leftarrow> sqlite3WalSavepointUndo os (index w) (sp_index sp);
     let mx = (if snd (sp_index sp) \<noteq> nCkpt (index w) then 0 else fst (sp_index sp));
     Some (rc, w\<lparr>index := ix, hdr := if mx < mxFrame (index w) then (hdr w)\<lparr>aFrameCksum := sp_cksum sp\<rparr> else hdr w\<rparr>)
   }"

section \<open>Writing a range\<close>

lemma write_at_append: "write_at (A @ R) (length A) B = A @ B @ drop (length B) R"
  by (simp add: write_at_def)

lemma write_at_compose: "write_at (write_at F off X) (off + length X) Y = write_at F off (X @ Y)"
proof (cases "X = [] \<or> Y = []")
  case True
  then show ?thesis by (auto simp: write_at_def)
next
  case False
  then have "write_at F off X = (take off F @ replicate (off - length F) 0 @ X) @ drop (off + length X) F"
    by (simp add: write_at_def)
  moreover have "length (take off F @ replicate (off - length F) 0 @ X) = off + length X" by simp
  ultimately show ?thesis using False write_at_append [of "take off F @ replicate (off - length F) 0 @ X" "drop (off + length X) F" Y]
    by (simp add: write_at_def add.assoc) (simp add: add.left_commute add.commute)
qed

text \<open>Only the file, the running checksum and the number of calls change.\<close>

definition touched :: "wal_log \<Rightarrow> wal_log \<Rightarrow> bool" where
  "touched w w' \<longleftrightarrow> (\<exists>n F s. w' = w\<lparr>calls := n, pWalFd := F, hdr := (hdr w)\<lparr>aFrameCksum := s\<rparr>\<rparr>)"

lemma touchedI: "touched w (w\<lparr>calls := n, pWalFd := F, hdr := (hdr w)\<lparr>aFrameCksum := s\<rparr>\<rparr>)"
  unfolding touched_def by blast

lemma touched_refl: "touched w w"
  using touchedI [where w = w and n = "calls w" and F = "pWalFd w" and s = "aFrameCksum (hdr w)"] by simp

lemma touched_trans: "touched u v \<Longrightarrow> touched v w \<Longrightarrow> touched u w"
proof -
  assume "touched u v" "touched v w"
  then obtain n F s n' F' s' where
    v: "v = u\<lparr>calls := n, pWalFd := F, hdr := (hdr u)\<lparr>aFrameCksum := s\<rparr>\<rparr>" and
    w: "w = v\<lparr>calls := n', pWalFd := F', hdr := (hdr v)\<lparr>aFrameCksum := s'\<rparr>\<rparr>"
    unfolding touched_def by blast
  have "w = u\<lparr>calls := n', pWalFd := F', hdr := (hdr u)\<lparr>aFrameCksum := s'\<rparr>\<rparr>" by (simp add: v w)
  then show "touched u w" unfolding touched_def by blast
qed

lemma touched_fields:
  assumes "touched w w'"
  shows "index w' = index w" "szPage w' = szPage w" "iReCksum w' = iReCksum w"
    "aSalt (hdr w') = aSalt (hdr w)" "bigEndCksum (hdr w') = bigEndCksum (hdr w)"
    "live_hdr w' = live_hdr w" "padToSectorBoundary w' = padToSectorBoundary w"
    "mxWalSize w' = mxWalSize w" "truncateOnCommit w' = truncateOnCommit w"
    "nPage (hdr w') = nPage (hdr w)"
  using assms by (auto simp: touched_def)

text \<open>The bytes \<open>X\<close> are written from \<open>off\<close> on: all of them, or the first ones when something fails; a
  sync point inside the range is synced.\<close>

definition writes :: "u8 list \<Rightarrow> nat \<Rightarrow> wal_writer \<Rightarrow> rc \<Rightarrow> wal_writer \<Rightarrow> bool" where
  "writes X off p rc q \<longleftrightarrow>
     touched (pWal p) (pWal q)
   \<and> iSyncPoint q = iSyncPoint p \<and> syncFlags q = syncFlags p \<and> wr_szPage q = wr_szPage p
   \<and> (\<exists>j \<le> length X. (rc = SQLITE_OK \<longrightarrow> j = length X)
        \<and> pWalFd (pWal q) = write_at (pWalFd (pWal p)) off (take j X))
   \<and> (rc = SQLITE_OK \<and> WAL_SYNC_FLAGS (syncFlags p) \<noteq> 0 \<longrightarrow>
        synced q = (if off < iSyncPoint p \<and> iSyncPoint p \<le> off + length X
                    then write_at (pWalFd (pWal p)) off (take (iSyncPoint p - off) X) else synced p))"

lemma writes_fields:
  assumes "writes X off p rc q"
  shows "iSyncPoint q = iSyncPoint p" "syncFlags q = syncFlags p" "wr_szPage q = wr_szPage p"
    "touched (pWal p) (pWal q)"
  using assms by (simp_all add: writes_def)

lemma writes_file: "writes X off p rc q \<Longrightarrow> \<exists>j \<le> length X. (rc = SQLITE_OK \<longrightarrow> j = length X)
    \<and> pWalFd (pWal q) = write_at (pWalFd (pWal p)) off (take j X)"
  by (simp add: writes_def)

lemma writes_sync: "writes X off p SQLITE_OK q \<Longrightarrow> WAL_SYNC_FLAGS (syncFlags p) \<noteq> 0 \<Longrightarrow>
    synced q = (if off < iSyncPoint p \<and> iSyncPoint p \<le> off + length X
                    then write_at (pWalFd (pWal p)) off (take (iSyncPoint p - off) X) else synced p)"
  by (simp add: writes_def)

lemma writes_seq:
  assumes 1: "writes X off p SQLITE_OK q" and 2: "writes Y (off + length X) q rc r"
  shows "writes (X @ Y) off p rc r"
proof -
  have f: "pWalFd (pWal q) = write_at (pWalFd (pWal p)) off X" using writes_file [OF 1] by auto
  obtain j where j: "j \<le> length Y" "rc = SQLITE_OK \<longrightarrow> j = length Y"
    "pWalFd (pWal r) = write_at (pWalFd (pWal q)) (off + length X) (take j Y)"
    using writes_file [OF 2] by blast
  have file': "pWalFd (pWal r) = write_at (pWalFd (pWal p)) off (take (length X + j) (X @ Y))"
    using j(3) by (simp add: f write_at_compose)
  have st: "touched (pWal p) (pWal r)" by (rule touched_trans [OF writes_fields(4) [OF 1] writes_fields(4) [OF 2]])
  have sy: "synced r = (if off < iSyncPoint p \<and> iSyncPoint p \<le> off + length (X @ Y)
      then write_at (pWalFd (pWal p)) off (take (iSyncPoint p - off) (X @ Y)) else synced p)"
    if "rc = SQLITE_OK" "WAL_SYNC_FLAGS (syncFlags p) \<noteq> 0"
  proof -
    have "synced r = (if off + length X < iSyncPoint p \<and> iSyncPoint p \<le> off + length X + length Y
        then write_at (pWalFd (pWal q)) (off + length X) (take (iSyncPoint p - (off + length X)) Y) else synced q)"
      using writes_sync [OF 2 [unfolded that(1)]] that(2) by (simp add: writes_fields [OF 1])
    moreover note writes_sync [OF 1 that(2)]
    ultimately show ?thesis by (auto simp: f write_at_compose)
  qed
  have "\<exists>j \<le> length (X @ Y). (rc = SQLITE_OK \<longrightarrow> j = length (X @ Y))
      \<and> pWalFd (pWal r) = write_at (pWalFd (pWal p)) off (take j (X @ Y))"
    by (rule exI [of _ "length X + j"]) (use j file' in auto)
  then show ?thesis unfolding writes_def using st sy writes_fields(1-3) [OF 1] writes_fields(1-3) [OF 2] by simp
qed

lemma writes_fail:
  assumes "writes X off p rc q" "rc \<noteq> SQLITE_OK"
  shows "writes (X @ Y) off p rc q"
proof -
  obtain j where "j \<le> length X" "pWalFd (pWal q) = write_at (pWalFd (pWal p)) off (take j X)"
    using writes_file [OF assms(1)] by blast
  then have "\<exists>j \<le> length (X @ Y). pWalFd (pWal q) = write_at (pWalFd (pWal p)) off (take j (X @ Y))"
    by (intro exI [of _ j]) simp
  then show ?thesis using assms unfolding writes_def by blast
qed

lemma writes_Nil: "writes [] off p SQLITE_OK p"
  by (auto simp: writes_def write_at_def touched_refl)

text \<open>The functions of the code.\<close>

lemma osWrite_one:
  assumes "osWrite os p bs off = (rc, q)" "\<not> (off < iSyncPoint p \<and> iSyncPoint p \<le> off + length bs)"
  shows "writes bs off p rc q"
proof -
  have q: "q = p\<lparr>pWal := (pWal p)\<lparr>calls := calls (pWal p) + 1, pWalFd := pWalFd (pWal q)\<rparr>\<rparr>" "rc = wr_rc os (calls (pWal p))"
    "pWalFd (pWal q) = write_at (pWalFd (pWal p)) off (if rc = SQLITE_OK then bs else take (wr_bytes os (calls (pWal p))) bs)"
    using assms(1) by (auto simp: osWrite_def Let_def)
  have "touched (pWal p) (pWal q)"
    using touchedI [where w = "pWal p" and n = "calls (pWal p) + 1" and F = "pWalFd (pWal q)" and s = "aFrameCksum (hdr (pWal p))"]
    by (subst q(1)) simp
  moreover have "\<exists>j \<le> length bs. (rc = SQLITE_OK \<longrightarrow> j = length bs)
      \<and> pWalFd (pWal q) = write_at (pWalFd (pWal p)) off (take j bs)"
    unfolding q(3) by (rule exI [of _ "if rc = SQLITE_OK then length bs else min (length bs) (wr_bytes os (calls (pWal p)))"])
      (simp add: min_def)
  moreover have "iSyncPoint q = iSyncPoint p \<and> syncFlags q = syncFlags p \<and> wr_szPage q = wr_szPage p \<and> synced q = synced p"
    by (rule osWrite_fields [OF assms(1)])
  ultimately show ?thesis using assms(2) unfolding writes_def by auto
qed


lemma walWriteToLog_writes:
  assumes run: "walWriteToLog os p bs n off = (rc, q)" and n: "n = length bs"
  shows "writes bs off p rc q"
proof (cases "off < iSyncPoint p \<and> iSyncPoint p \<le> off + n")
  case False
  have "osWrite os p bs off = (rc, q)" using run unfolding walWriteToLog_def if_not_P [OF False] by (simp add: n)
  then show ?thesis using False n by (intro osWrite_one) simp_all
next
  case True
  let ?k = "iSyncPoint p - off"
  obtain rc1 p1 where w1: "osWrite os p (take ?k bs) off = (rc1, p1)" by (metis prod.exhaust)
  obtain rc2 p2 where s: "sqlite3OsSync os (WAL_SYNC_FLAGS (syncFlags p1)) p1 = (rc2, p2)" by (metis prod.exhaust)
  note f1 = osWrite_fields [OF w1]
  have "?k \<le> length bs" using True n by linarith
  then have len: "length (take ?k bs) = ?k" by simp
  have at: "off + ?k = iSyncPoint p" using True by simp
  have d1: "touched (pWal p) (pWal p1) \<and> (\<exists>j \<le> ?k. (rc1 = SQLITE_OK \<longrightarrow> j = ?k)
      \<and> pWalFd (pWal p1) = write_at (pWalFd (pWal p)) off (take j bs))"
  proof -
    have "writes (take ?k bs) off (p\<lparr>iSyncPoint := 0\<rparr>) rc1 (p1\<lparr>iSyncPoint := 0\<rparr>)"
      using w1 by (intro osWrite_one [where os = os]) (auto simp: osWrite_def Let_def)
    from writes_fields(4) [OF this] writes_file [OF this] len show ?thesis by (auto simp: min_def)
  qed
  show ?thesis
  proof (cases "rc1 = SQLITE_OK")
    case False
    then have "rc = rc1 \<and> q = p1" using run True w1 by (simp add: walWriteToLog_def Let_def)
    moreover obtain j where "j \<le> ?k" "pWalFd (pWal p1) = write_at (pWalFd (pWal p)) off (take j bs)" using d1 by blast
    moreover have "?k \<le> length bs" using len by simp
    ultimately show ?thesis using False d1 f1 by (auto simp: writes_def intro!: exI [of _ j])
  next
    case ok1: True
    then have F1: "pWalFd (pWal p1) = write_at (pWalFd (pWal p)) off (take ?k bs)" using d1 by auto
    have s2: "touched (pWal p1) (pWal p2)" "pWalFd (pWal p2) = pWalFd (pWal p1)"
      "rc2 = SQLITE_OK \<and> WAL_SYNC_FLAGS (syncFlags p1) \<noteq> 0 \<longrightarrow> synced p2 = pWalFd (pWal p1)"
      using s touchedI [where w = "pWal p1" and n = "calls (pWal p1) + 1" and F = "pWalFd (pWal p1)" and s = "aFrameCksum (hdr (pWal p1))"]
      by (auto simp: sqlite3OsSync_def Let_def touched_refl split: if_splits)
    have f2: "iSyncPoint p2 = iSyncPoint p \<and> syncFlags p2 = syncFlags p \<and> wr_szPage p2 = wr_szPage p"
      using sqlite3OsSync_fields [OF s] f1 by simp
    have t2: "touched (pWal p) (pWal p2)" using d1 s2(1) touched_trans by blast
    show ?thesis
    proof (cases "n - ?k = 0 \<or> rc2 \<noteq> SQLITE_OK")
      case True
      then have q: "rc = rc2" "q = p2" using run \<open>off < iSyncPoint p \<and> iSyncPoint p \<le> off + n\<close> w1 ok1 s
        by (simp_all add: walWriteToLog_def Let_def)
      have "?k \<le> length bs" "rc2 = SQLITE_OK \<longrightarrow> ?k = length bs" using True len n by auto
      then have "\<exists>j \<le> length bs. (rc = SQLITE_OK \<longrightarrow> j = length bs)
          \<and> pWalFd (pWal q) = write_at (pWalFd (pWal p)) off (take j bs)"
        unfolding q s2(2) F1 by (intro exI [of _ ?k]) simp
      then show ?thesis using t2 f2 s2(3) at True \<open>off < iSyncPoint p \<and> iSyncPoint p \<le> off + n\<close> n
        by (simp add: writes_def q F1 f1)
    next
      case False
      then have w2: "osWrite os p2 (drop ?k bs) (off + ?k) = (rc, q)"
        using run \<open>off < iSyncPoint p \<and> iSyncPoint p \<le> off + n\<close> w1 ok1 s n by (simp add: walWriteToLog_def Let_def)
      have "writes (drop ?k bs) (off + ?k) p2 rc q"
        using osWrite_one [OF w2] f2 at by simp
      moreover have "writes (take ?k bs) off p SQLITE_OK p2"
        using t2 f2 F1 s2 False len at f1 True by (simp add: writes_def)
      ultimately show ?thesis using writes_seq [of "take ?k bs" off p p2 "drop ?k bs" rc q] len by simp
    qed
  qed
qed


lemma touched_encode: "writes X off (p\<lparr>pWal := (pWal p)\<lparr>hdr := (hdr (pWal p))\<lparr>aFrameCksum := s\<rparr>\<rparr>\<rparr>) rc q \<Longrightarrow> writes X off p rc q"
proof -
  assume w: "writes X off (p\<lparr>pWal := (pWal p)\<lparr>hdr := (hdr (pWal p))\<lparr>aFrameCksum := s\<rparr>\<rparr>\<rparr>) rc q"
  have "touched (pWal p) ((pWal p)\<lparr>hdr := (hdr (pWal p))\<lparr>aFrameCksum := s\<rparr>\<rparr>)"
    using touchedI [where w = "pWal p" and n = "calls (pWal p)" and F = "pWalFd (pWal p)" and s = s] by simp
  then have "touched (pWal p) (pWal q)" using writes_fields(4) [OF w] touched_trans by simp
  then show ?thesis using w by (simp add: writes_def)
qed

lemma osWrite_cksum: "osWrite os p bs off = (rc, q) \<Longrightarrow> aFrameCksum (hdr (pWal q)) = aFrameCksum (hdr (pWal p))"
  by (auto simp: osWrite_def Let_def)

lemma walWriteToLog_cksum: "walWriteToLog os p bs n off = (rc, q) \<Longrightarrow> aFrameCksum (hdr (pWal q)) = aFrameCksum (hdr (pWal p))"
proof -
  have s: "sqlite3OsSync os f p = (rc, q) \<Longrightarrow> aFrameCksum (hdr (pWal q)) = aFrameCksum (hdr (pWal p))" for f p rc q
    by (auto simp: sqlite3OsSync_def Let_def split: if_splits)
  show "walWriteToLog os p bs n off = (rc, q) \<Longrightarrow> ?thesis"
    unfolding walWriteToLog_def Let_def by (auto dest!: osWrite_cksum s split: if_splits prod.splits)
qed

text \<open>What a frame is in the file: with a checksum, or with zeroes when checksums are computed later.\<close>

definition plain_bytes :: "u32 \<Rightarrow> u32 \<Rightarrow> u8 list \<Rightarrow> u8 list" where
  "plain_bytes p n d = sqlite3Put4byte p @ sqlite3Put4byte n @ replicate 16 0 @ d"

lemma write_frame_parts:
  assumes enc: "walEncodeFrame be (pWal p) pg n d = Some (f, (pWal p)\<lparr>hdr := (hdr (pWal p))\<lparr>aFrameCksum := s\<rparr>\<rparr>)"
    and len: "length f = WAL_FRAME_HDRSIZE" "length d = wr_szPage p"
  shows "\<exists>rc q. walWriteOneFrame be os p (pg, d) n off = Some (rc, q) \<and> writes (f @ d) off p rc q
    \<and> aFrameCksum (hdr (pWal q)) = s"
proof -
  let ?p = "p\<lparr>pWal := (pWal p)\<lparr>hdr := (hdr (pWal p))\<lparr>aFrameCksum := s\<rparr>\<rparr>\<rparr>"
  obtain rc1 p1 where w1: "walWriteToLog os ?p f WAL_FRAME_HDRSIZE off = (rc1, p1)" by (metis prod.exhaust)
  note 1 = touched_encode [OF walWriteToLog_writes [OF w1 len(1) [symmetric]]]
  have s1: "aFrameCksum (hdr (pWal p1)) = s" using walWriteToLog_cksum [OF w1] by simp
  show ?thesis
  proof (cases "rc1 = SQLITE_OK")
    case False
    then have "walWriteOneFrame be os p (pg, d) n off = Some (rc1, p1)"
      using enc w1 by (simp add: walWriteOneFrame_def)
    then show ?thesis using writes_fail [OF 1 False] s1 by blast
  next
    case True
    obtain rc2 p2 where w2: "walWriteToLog os p1 d (wr_szPage p1) (off + WAL_FRAME_HDRSIZE) = (rc2, p2)" by (metis prod.exhaust)
    have "wr_szPage p1 = length d" using writes_fields(3) [OF 1] len(2) by simp
    note 2 = walWriteToLog_writes [OF w2 this]
    have "walWriteOneFrame be os p (pg, d) n off = Some (rc2, p2)"
      using enc w1 True w2 by (simp add: walWriteOneFrame_def)
    moreover have "writes (f @ d) off p rc2 p2" using writes_seq [OF 1 [unfolded True]] 2 len(1) by simp
    moreover have "aFrameCksum (hdr (pWal p2)) = s" using walWriteToLog_cksum [OF w2] s1 by simp
    ultimately show ?thesis by blast
  qed
qed

definition encoded :: "wal_writer \<Rightarrow> u32 \<Rightarrow> u32 \<Rightarrow> u8 list \<Rightarrow> u8 list" where
  "encoded p pg n d = (let h = hdr (pWal p) in
     if iReCksum (pWal p) = 0 then frame_bytes (bigEndCksum h) (aSalt h) (aFrameCksum h) pg n d else plain_bytes pg n d)"

lemma walWriteOneFrame_writes:
  assumes "length d = wr_szPage p" "szPage (pWal p) = wr_szPage p" "length (aSalt (hdr (pWal p))) = 8"
  shows "\<exists>rc q. walWriteOneFrame be os p (pg, d) n off = Some (rc, q) \<and> writes (encoded p pg n d) off p rc q
    \<and> aFrameCksum (hdr (pWal q)) = (if iReCksum (pWal p) = 0
        then frame_cksum (bigEndCksum (hdr (pWal p))) pg n d (aFrameCksum (hdr (pWal p))) else aFrameCksum (hdr (pWal p)))"
proof (cases "iReCksum (pWal p) = 0")
  case True
  have "length d = szPage (pWal p)" using assms by simp
  from walEncodeFrame_bytes [OF True this, of be pg n] obtain f where
    f: "walEncodeFrame be (pWal p) pg n d = Some (f, (pWal p)\<lparr>hdr := (hdr (pWal p))\<lparr>aFrameCksum :=
       frame_cksum (bigEndCksum (hdr (pWal p))) pg n d (aFrameCksum (hdr (pWal p)))\<rparr>\<rparr>)"
      "f @ d = frame_bytes (bigEndCksum (hdr (pWal p))) (aSalt (hdr (pWal p))) (aFrameCksum (hdr (pWal p))) pg n d"
    by blast
  have "length (f @ d) = WAL_FRAME_HDRSIZE + length d" unfolding f(2) by (rule length_frame_bytes [OF assms(3)])
  then have "length f = WAL_FRAME_HDRSIZE" by simp
  from write_frame_parts [OF f(1) this assms(1), of os off] show ?thesis
    using f(2) True by (simp add: encoded_def Let_def)
next
  case False
  let ?f = "sqlite3Put4byte pg @ sqlite3Put4byte n @ replicate 16 0"
  have "walEncodeFrame be (pWal p) pg n d = Some (?f, (pWal p)\<lparr>hdr := (hdr (pWal p))\<lparr>aFrameCksum := aFrameCksum (hdr (pWal p))\<rparr>\<rparr>)"
    using False by (simp add: walEncodeFrame_def Let_def)
  moreover have "length ?f = WAL_FRAME_HDRSIZE" by (simp add: WAL_FRAME_HDRSIZE_def)
  ultimately show ?thesis using write_frame_parts [of be p pg n d ?f _ os off] assms(1) False
    by (simp add: encoded_def Let_def plain_bytes_def)
qed

section \<open>Appending a transaction\<close>

fun tx_frames :: "u32 \<Rightarrow> dirty list \<Rightarrow> frame list" where
  "tx_frames n [] = []"
| "tx_frames n (pg # pgs) = (fst pg, if pgs = [] then n else 0, snd pg) # tx_frames n pgs"

text \<open>A writer at the end of a chain of checksums.\<close>

definition writer_ok :: "bool \<Rightarrow> u8 list \<Rightarrow> nat \<Rightarrow> u32 \<times> u32 \<Rightarrow> wal_writer \<Rightarrow> bool" where
  "writer_ok c salt sz s p \<longleftrightarrow> szPage (pWal p) = sz \<and> wr_szPage p = sz \<and> aSalt (hdr (pWal p)) = salt \<and> length salt = 8
     \<and> bigEndCksum (hdr (pWal p)) = c \<and> iReCksum (pWal p) = 0 \<and> aFrameCksum (hdr (pWal p)) = s"

lemma append_frame:
  assumes "writer_ok c salt sz s p" "length d = sz"
  shows "\<exists>rc q. walWriteOneFrame be os p (pg, d) n off = Some (rc, q) \<and> writes (frame_bytes c salt s pg n d) off p rc q
    \<and> writer_ok c salt sz (frame_cksum c pg n d s) q"
proof -
  have a: "length d = wr_szPage p" "szPage (pWal p) = wr_szPage p" "length (aSalt (hdr (pWal p))) = 8" "iReCksum (pWal p) = 0"
    using assms by (simp_all add: writer_ok_def)
  obtain rc q where q: "walWriteOneFrame be os p (pg, d) n off = Some (rc, q)" "writes (encoded p pg n d) off p rc q"
    "aFrameCksum (hdr (pWal q)) = frame_cksum (bigEndCksum (hdr (pWal p))) pg n d (aFrameCksum (hdr (pWal p)))"
    using walWriteOneFrame_writes [OF a(1-3), of be os pg n off] a(4) by auto
  have "writer_ok c salt sz (frame_cksum c pg n d s) q"
    using assms q(3) writes_fields(1-3) [OF q(2)] touched_fields [OF writes_fields(4) [OF q(2)]]
    by (simp add: writer_ok_def)
  then show ?thesis using q(1,2) assms(1) by (auto simp: encoded_def writer_ok_def Let_def)
qed

lemma length_frames_data: "length salt = 8 \<Longrightarrow> \<forall>f \<in> set fs. length (snd (snd f)) = sz \<Longrightarrow>
    length (frames_bytes c salt s fs) = length fs * (sz + WAL_FRAME_HDRSIZE)"
  by (induction c salt s fs rule: frames_bytes.induct) (simp_all add: length_frame_bytes)

lemma write_frames_append:
  assumes "writer_ok c salt sz s p" "\<forall>pg \<in> set pgs. length (snd pg) = sz"
  shows "\<exists>rc app iF iO q. write_frames be os 0 n isCommit pgs iFrame off p = Some (rc, app, iF, iO, q)
    \<and> writes (frames_bytes c salt s (tx_frames (if isCommit then n else 0) pgs)) off p rc q
    \<and> (rc = SQLITE_OK \<longrightarrow> app = pgs \<and> iF = iFrame + length pgs \<and> iO = off + length pgs * (sz + WAL_FRAME_HDRSIZE)
        \<and> writer_ok c salt sz (frames_cksum c s (tx_frames (if isCommit then n else 0) pgs)) q)"
  using assms
proof (induction pgs arbitrary: s p iFrame off)
  case Nil
  then show ?case by (simp add: writes_Nil)
next
  case (Cons pg pgs)
  let ?n = "if isCommit then n else 0" and ?k = "if isCommit \<and> pgs = [] then n else 0"
  have k: "?k = (if pgs = [] then ?n else 0)" by simp
  have d: "length (snd pg) = sz" using Cons.prems(2) by simp
  from append_frame [OF Cons.prems(1) d, of be os "fst pg" ?k off] obtain rc1 p1 where
    1: "walWriteOneFrame be os p pg ?k off = Some (rc1, p1)" "writes (frame_bytes c salt s (fst pg) ?k (snd pg)) off p rc1 p1"
      "writer_ok c salt sz (frame_cksum c (fst pg) ?k (snd pg) s) p1"
    by auto
  have tx: "frames_bytes c salt s (tx_frames ?n (pg # pgs)) = frame_bytes c salt s (fst pg) ?k (snd pg)
      @ frames_bytes c salt (frame_cksum c (fst pg) ?k (snd pg) s) (tx_frames ?n pgs)"
    by (simp add: k)
  show ?case
  proof (cases "rc1 = SQLITE_OK")
    case False
    then have "write_frames be os 0 n isCommit (pg # pgs) iFrame off p = Some (rc1, [], iFrame + 1, off, p1)"
      using 1(1) by (simp add: Let_def)
    then show ?thesis using writes_fail [OF 1(2) False] False unfolding tx by blast
  next
    case True
    let ?off = "off + wr_szPage p1 + WAL_FRAME_HDRSIZE"
    have sz: "wr_szPage p1 = sz" "length salt = 8" using 1(3) by (simp_all add: writer_ok_def)
    have "\<forall>pg \<in> set pgs. length (snd pg) = sz" using Cons.prems(2) by simp
    from Cons.IH [OF 1(3) this, of "iFrame + 1" ?off] obtain rc app iF iO q where
      2: "write_frames be os 0 n isCommit pgs (iFrame + 1) ?off p1 = Some (rc, app, iF, iO, q)"
        "writes (frames_bytes c salt (frame_cksum c (fst pg) ?k (snd pg) s) (tx_frames ?n pgs)) ?off p1 rc q"
        "rc = SQLITE_OK \<longrightarrow> app = pgs \<and> iF = iFrame + 1 + length pgs \<and> iO = ?off + length pgs * (sz + WAL_FRAME_HDRSIZE)
          \<and> writer_ok c salt sz (frames_cksum c (frame_cksum c (fst pg) ?k (snd pg) s) (tx_frames ?n pgs)) q"
      by blast
    have run: "write_frames be os 0 n isCommit (pg # pgs) iFrame off p = Some (rc, pg # app, iF, iO, q)"
      using 1(1) 2(1) True by (simp add: Let_def)
    have off: "off + length (frame_bytes c salt s (fst pg) ?k (snd pg)) = ?off"
      using length_frame_bytes [OF sz(2)] d sz(1) by simp
    have "writes (frames_bytes c salt s (tx_frames ?n (pg # pgs))) off p rc q"
      unfolding tx by (rule writes_seq [OF 1(2) [unfolded True]], unfold off, rule 2(2))
    moreover have "iO = off + length (pg # pgs) * (sz + WAL_FRAME_HDRSIZE)" if "rc = SQLITE_OK"
      using 2(3) that sz(1) by simp
    ultimately show ?thesis using run 2(3) k
      by (intro exI [of _ rc] exI [of _ "pg # app"] exI [of _ iF] exI [of _ iO] exI [of _ q]) simp
  qed
qed


text \<open>Padding repeats the last frame.\<close>

lemma pad_frames_append:
  assumes "writer_ok c salt sz s p" "length (snd pg) = sz"
  shows "\<exists>rc k q. pad_frames be os pg n off nExtra p = Some (rc, nExtra + k, q)
    \<and> (\<exists>m. writes (frames_bytes c salt s (replicate m (fst pg, n, snd pg))) off p rc q \<and> (rc = SQLITE_OK \<longrightarrow>
         m = k \<and> iSyncPoint p \<le> off + k * (sz + WAL_FRAME_HDRSIZE)
       \<and> writer_ok c salt sz (frames_cksum c s (replicate k (fst pg, n, snd pg))) q))"
  using assms
proof (induction "iSyncPoint p - off" arbitrary: s p off nExtra rule: less_induct)
  case less
  show ?case
  proof (cases "iSyncPoint p \<le> off")
    case True
    then have "pad_frames be os pg n off nExtra p = Some (SQLITE_OK, nExtra + 0, p)" by (subst pad_frames.simps) simp
    then show ?thesis using True less.prems(1)
      by (intro exI [of _ SQLITE_OK] exI [of _ 0] exI [of _ p] conjI exI [of _ 0]) (simp_all add: writes_Nil)
  next
    case False
    from append_frame [OF less.prems, of be os "fst pg" n off] obtain rc1 p1 where
      1: "walWriteOneFrame be os p pg n off = Some (rc1, p1)" "writes (frame_bytes c salt s (fst pg) n (snd pg)) off p rc1 p1"
        "writer_ok c salt sz (frame_cksum c (fst pg) n (snd pg) s) p1"
      by auto
    show ?thesis
    proof (cases "rc1 = SQLITE_OK")
      case bad: False
      then have "pad_frames be os pg n off nExtra p = Some (rc1, nExtra + 0, p1)"
        using False 1(1) by (subst pad_frames.simps) simp
      moreover have "writes (frames_bytes c salt s (replicate 1 (fst pg, n, snd pg))) off p rc1 p1" using 1(2) by simp
      ultimately show ?thesis using bad by blast
    next
      case True
      let ?off = "off + wr_szPage p1 + WAL_FRAME_HDRSIZE"
      have sz: "wr_szPage p1 = sz" "length salt = 8" using 1(3) by (simp_all add: writer_ok_def)
      have sp: "iSyncPoint p1 = iSyncPoint p" by (rule writes_fields(1) [OF 1(2)])
      have "iSyncPoint p1 - ?off < iSyncPoint p - off" using False sp by (simp add: WAL_FRAME_HDRSIZE_def)
      from less.hyps [OF this 1(3) less.prems(2), of "nExtra + 1"] obtain rc k q m where
        2: "pad_frames be os pg n ?off (nExtra + 1) p1 = Some (rc, nExtra + 1 + k, q)"
          "writes (frames_bytes c salt (frame_cksum c (fst pg) n (snd pg) s) (replicate m (fst pg, n, snd pg))) ?off p1 rc q"
          "rc = SQLITE_OK \<longrightarrow> m = k \<and> iSyncPoint p1 \<le> ?off + k * (sz + WAL_FRAME_HDRSIZE)
            \<and> writer_ok c salt sz (frames_cksum c (frame_cksum c (fst pg) n (snd pg) s) (replicate k (fst pg, n, snd pg))) q"
        by blast
      have run: "pad_frames be os pg n off nExtra p = Some (rc, nExtra + Suc k, q)"
        using False 1(1) True 2(1) by (subst pad_frames.simps) simp
      have off: "off + length (frame_bytes c salt s (fst pg) n (snd pg)) = ?off"
        using length_frame_bytes [OF sz(2)] less.prems(2) sz(1) by simp
      have rep: "frames_bytes c salt s (replicate (Suc m) (fst pg, n, snd pg)) = frame_bytes c salt s (fst pg) n (snd pg)
          @ frames_bytes c salt (frame_cksum c (fst pg) n (snd pg) s) (replicate m (fst pg, n, snd pg))" by simp
      have "writes (frames_bytes c salt s (replicate (Suc m) (fst pg, n, snd pg))) off p rc q"
        unfolding rep by (rule writes_seq [OF 1(2) [unfolded True]], unfold off, rule 2(2))
      then show ?thesis using run 2(3) sp sz(1)
        by (intro exI [of _ rc] exI [of _ "Suc k"] exI [of _ q] conjI exI [of _ "Suc m"]) auto
    qed
  qed
qed

lemma tx_frames_Nil_iff [simp]: "tx_frames n pgs = [] \<longleftrightarrow> pgs = []"
  by (cases pgs) simp_all

lemma tx_frames_last: "pgs \<noteq> [] \<Longrightarrow> last (tx_frames n pgs) = (fst (last pgs), n, snd (last pgs))"
  by (induction n pgs rule: tx_frames.induct) auto

lemma length_tx_frames [simp]: "length (tx_frames n pgs) = length pgs"
  by (induction n pgs rule: tx_frames.induct) auto

lemma tx_frames_pages: "map fst (tx_frames n pgs) = map fst pgs"
  by (induction n pgs rule: tx_frames.induct) auto

lemma tx_frames_ok: "\<forall>pg \<in> set pgs. fst pg \<noteq> 0 \<and> length (snd pg) = sz \<Longrightarrow> \<forall>f \<in> set (tx_frames n pgs). frame_ok sz f"
  by (induction n pgs rule: tx_frames.induct) (auto simp: frame_ok_def)

lemma frames_cksum_append: "frames_cksum c s (fs @ gs) = frames_cksum c (frames_cksum c s fs) gs"
  by (induction c s fs rule: frames_cksum.induct) simp_all

end
