(* ===== verification/WalCommit.thy ===== *)
theory WalCommit
  imports WalWrite
begin

text \<open>
  Commits (\<open>sqlite3WalFrames\<close>): what a crash leaves of a transaction that is appended to the log, and
  what the disk has when the function reports success.
\<close>

section \<open>Without faults\<close>

definition healthy :: "write_os \<Rightarrow> bool" where
  "healthy os \<longleftrightarrow> (\<forall>k. wr_rc os k = SQLITE_OK \<and> wr_sync_rc os k = SQLITE_OK)"

lemma healthy_write: "healthy os \<Longrightarrow> osWrite os p bs off = (rc, q) \<Longrightarrow> rc = SQLITE_OK"
  by (auto simp: osWrite_def Let_def healthy_def)

lemma healthy_sync: "healthy os \<Longrightarrow> sqlite3OsSync os f p = (rc, q) \<Longrightarrow> rc = SQLITE_OK"
  by (auto simp: sqlite3OsSync_def Let_def healthy_def split: if_splits)

lemma healthy_log: "healthy os \<Longrightarrow> walWriteToLog os p bs n off = (rc, q) \<Longrightarrow> rc = SQLITE_OK"
  unfolding walWriteToLog_def Let_def by (auto dest: healthy_write healthy_sync split: if_splits prod.splits)

lemma healthy_frame: "healthy os \<Longrightarrow> walWriteOneFrame be os p pg n off = Some (rc, q) \<Longrightarrow> rc = SQLITE_OK"
  unfolding walWriteOneFrame_def by (auto dest: healthy_log split: if_splits prod.splits Option.bind_splits)

lemma healthy_frames: "healthy os \<Longrightarrow> write_frames be os iFirst n c pgs iFrame off p = Some (rc, r) \<Longrightarrow> rc = SQLITE_OK"
proof (induction pgs arbitrary: iFirst c iFrame off p r)
  case (Cons pg pgs)
  from Cons.prems show ?case
    by (auto simp: Let_def dest: healthy_frame healthy_write Cons.IH split: if_splits prod.splits Option.bind_splits)
qed simp

lemma healthy_pad: "healthy os \<Longrightarrow> pad_frames be os l n off e p = Some (rc, r) \<Longrightarrow> rc = SQLITE_OK"
proof (induction "iSyncPoint p - off" arbitrary: off e p r rule: less_induct)
  case less
  show ?case
  proof (cases "iSyncPoint p \<le> off")
    case False
    then obtain rc1 p1 where w: "walWriteOneFrame be os p l n off = Some (rc1, p1)"
      using less.prems(2) by (subst (asm) pad_frames.simps) (auto split: option.splits)
    then have 1: "rc1 = SQLITE_OK" "iSyncPoint p1 = iSyncPoint p" using healthy_frame [OF less.prems(1)] walWriteOneFrame_fields by blast+
    have "pad_frames be os l n (off + wr_szPage p1 + WAL_FRAME_HDRSIZE) (e + 1) p1 = Some (rc, r)"
      using less.prems(2) False w 1 by (subst (asm) pad_frames.simps) simp
    then show ?thesis using less.hyps [of p1 "off + wr_szPage p1 + WAL_FRAME_HDRSIZE"] less.prems(1) False 1 by (simp add: WAL_FRAME_HDRSIZE_def)
  qed (use less.prems(2) in \<open>subst (asm) pad_frames.simps, simp\<close>)
qed

lemma healthy_end: "healthy os \<Longrightarrow> frames_sync be os app n c off p = Some (rc, r) \<Longrightarrow> rc = SQLITE_OK"
  unfolding frames_sync_def Let_def by (auto dest: healthy_pad healthy_sync split: if_splits prod.splits Option.bind_splits)

lemma healthy_header: "healthy os \<Longrightarrow> walWriteHeader be os sz fl p = Some (rc, q) \<Longrightarrow> rc = SQLITE_OK"
  unfolding walWriteHeader_def Let_def by (auto dest: healthy_write healthy_sync split: if_splits prod.splits Option.bind_splits)

section \<open>Padding and syncing\<close>

lemma sector_bound: "0 < nat (sqlite3SectorSize x)"
  by (simp add: sqlite3SectorSize_def)

lemma round_up: "0 < k \<Longrightarrow> n \<le> ((n + k - 1) div k) * k" for n k :: nat
proof -
  assume "0 < k"
  have "n + k - 1 = ((n + k - 1) div k) * k + (n + k - 1) mod k" by simp
  moreover have "(n + k - 1) mod k < k" using \<open>0 < k\<close> by simp
  ultimately show ?thesis by linarith
qed

lemma sync_result:
  assumes "sqlite3OsSync os f p = (rc, q)"
  shows "touched (pWal p) (pWal q) \<and> pWalFd (pWal q) = pWalFd (pWal p) \<and> iSyncPoint q = iSyncPoint p
    \<and> syncFlags q = syncFlags p \<and> wr_szPage q = wr_szPage p \<and> aFrameCksum (hdr (pWal q)) = aFrameCksum (hdr (pWal p))
    \<and> (f \<noteq> 0 \<and> rc = SQLITE_OK \<longrightarrow> synced q = pWalFd (pWal p))"
  using assms touchedI [where w = "pWal p" and n = "calls (pWal p) + 1" and F = "pWalFd (pWal p)" and s = "aFrameCksum (hdr (pWal p))"]
  by (auto simp: sqlite3OsSync_def Let_def touched_refl split: if_splits)

lemma writer_ok_touched: "writer_ok c salt sz s p \<Longrightarrow> touched (pWal p) (pWal q) \<Longrightarrow> wr_szPage q = wr_szPage p \<Longrightarrow>
    aFrameCksum (hdr (pWal q)) = s' \<Longrightarrow> writer_ok c salt sz s' q"
  by (simp add: writer_ok_def touched_fields)

text \<open>The padding frames \<open>P m\<close> are written behind the offset, and everything before it is synced.\<close>

lemma frames_sync_commit:
  assumes w: "writer_ok c salt sz s p" and app: "app \<noteq> []" "length (snd (last app)) = sz" and off: "iSyncPoint p = 0"
    and P: "P = (\<lambda>m. frames_bytes c salt s (replicate m (fst (last app), n, snd (last app))))"
  shows "\<exists>rc leave e q m j. frames_sync be os app n True off p = Some (rc, leave, e, q)
    \<and> touched (pWal p) (pWal q) \<and> wr_szPage q = sz \<and> (leave \<longrightarrow> rc \<noteq> SQLITE_OK)
    \<and> j \<le> length (P m) \<and> pWalFd (pWal q) = write_at (pWalFd (pWal p)) off (take j (P m))
    \<and> (\<not> leave \<longrightarrow> e = m \<and> j = length (P m)
         \<and> aFrameCksum (hdr (pWal q)) = frames_cksum c s (replicate e (fst (last app), n, snd (last app))))
    \<and> (rc = SQLITE_OK \<and> WAL_SYNC_FLAGS (syncFlags p) \<noteq> 0 \<longrightarrow>
         (\<exists>k. synced q = write_at (pWalFd (pWal p)) off (take k (P e))))"
proof -
  let ?ss = "nat (sqlite3SectorSize (raw_sector os))"
  let ?sp = "((off + ?ss - 1) div ?ss) * ?ss"
  have s0: "aFrameCksum (hdr (pWal p)) = s" "wr_szPage p = sz" using w by (simp_all add: writer_ok_def)
  have P0: "P 0 = []" by (simp add: P)
  have none: "write_at F off [] = F" for F by (simp add: write_at_def)
  consider (off) "WAL_SYNC_FLAGS (syncFlags p) = 0" | (pad) "WAL_SYNC_FLAGS (syncFlags p) \<noteq> 0" "padToSectorBoundary (pWal p)" "off < ?sp"
    | (sync) "WAL_SYNC_FLAGS (syncFlags p) \<noteq> 0" "\<not> (padToSectorBoundary (pWal p) \<and> off < ?sp)" by blast
  then show ?thesis
  proof cases
    case off
    then have "frames_sync be os app n True off p = Some (SQLITE_OK, False, 0, p)" by (simp add: frames_sync_def)
    then show ?thesis using off s0
      by (intro exI [of _ SQLITE_OK] exI [of _ False] exI [of _ 0] exI [of _ p] conjI) (simp_all add: touched_refl P0 none)
  next
    case sync
    let ?p = "if padToSectorBoundary (pWal p) then p\<lparr>iSyncPoint := ?sp\<rparr> else p"
    have b: "\<not> padToSectorBoundary (pWal p) \<or> ?sp = off"
      using sync(2) round_up [OF sector_bound [of "raw_sector os"], of off] by linarith
    obtain rc q where q: "sqlite3OsSync os (WAL_SYNC_FLAGS (syncFlags p)) ?p = (rc, q)" by (metis prod.exhaust)
    have run: "frames_sync be os app n True off p = Some (rc, False, 0, q)"
      using sync b q by (cases "padToSectorBoundary (pWal p)") (simp_all add: frames_sync_def Let_def)
    have pp: "pWal ?p = pWal p" "wr_szPage ?p = wr_szPage p" "syncFlags ?p = syncFlags p" by simp_all
    from sync_result [OF q] pp sync(1) s0 show ?thesis unfolding run
      by (intro exI [of _ rc] exI [of _ False] exI [of _ 0] exI [of _ q] conjI) (simp_all add: P0 none)
  next
    case pad
    let ?p = "p\<lparr>iSyncPoint := ?sp\<rparr>"
    have wp: "writer_ok c salt sz s ?p" using w by (simp add: writer_ok_def)
    from pad_frames_append [OF wp app(2), of be os n off 0, folded P] obtain rc k q m where
      q: "pad_frames be os (last app) n off 0 ?p = Some (rc, k, q)" and wr: "writes (P m) off ?p rc q"
      and ok: "rc = SQLITE_OK \<longrightarrow> m = k \<and> ?sp \<le> off + k * (sz + WAL_FRAME_HDRSIZE)
          \<and> writer_ok c salt sz (frames_cksum c s (replicate k (fst (last app), n, snd (last app)))) q"
      by (auto simp: P)
    obtain j where j: "j \<le> length (P m)" "rc = SQLITE_OK \<longrightarrow> j = length (P m)"
      "pWalFd (pWal q) = write_at (pWalFd (pWal p)) off (take j (P m))"
      using writes_file [OF wr] by auto
    have t: "touched (pWal p) (pWal q)" "wr_szPage q = sz" "syncFlags q = syncFlags p"
      using writes_fields [OF wr] s0 by simp_all
    show ?thesis
    proof (cases "rc = SQLITE_OK")
      case False
      then have "frames_sync be os app n True off p = Some (rc, True, k, q)"
        using pad q app by (simp add: frames_sync_def Let_def)
      then show ?thesis using False t j by blast
    next
      case True
      have ne: "iSyncPoint q \<noteq> off" using writes_fields(1) [OF wr] pad(3) by simp
      have sp: "padToSectorBoundary (pWal p)" "off < iSyncPoint ?p" using pad by simp_all
      have run: "frames_sync be os app n True off p = Some (SQLITE_OK, False, k, q)"
        using pad q app True by (simp add: frames_sync_def Let_def)
      have len: "length (P k) = k * (sz + WAL_FRAME_HDRSIZE)"
        unfolding P using w app(2) by (subst length_frames_data [where sz = sz]) (simp_all add: writer_ok_def)
      have m: "m = k" "?sp \<le> off + length (P k)" using ok True len by auto
      have "synced q = write_at (pWalFd (pWal p)) off (take (?sp - off) (P k))"
        using writes_sync [OF wr [unfolded True]] pad m by simp
      moreover have "aFrameCksum (hdr (pWal q)) = frames_cksum c s (replicate k (fst (last app), n, snd (last app)))"
        using ok True by (simp add: writer_ok_def)
      ultimately show ?thesis using run True t j m by blast
    qed
  qed
qed


section \<open>The end of a commit\<close>

lemma walLimitSize_cut: "used \<le> lim \<Longrightarrow> \<exists>l \<ge> used. pWalFd (walLimitSize r1 r2 lim w) = take l (pWalFd w)
    \<and> walLimitSize r1 r2 lim w = w\<lparr>pWalFd := take l (pWalFd w)\<rparr>"
proof (cases "r1 = SQLITE_OK \<and> lim < length (pWalFd w) \<and> r2 = SQLITE_OK")
  case True
  moreover assume "used \<le> lim"
  ultimately show ?thesis by (intro exI [of _ lim]) (simp add: walLimitSize_def truncate_to_def)
next
  case False
  then show ?thesis by (intro exI [of _ "max used (length (pWalFd w))"]) (auto simp: walLimitSize_def)
qed

lemma length_hdr_bytes: "length (aSalt h) = 8 \<Longrightarrow> length (hdr_bytes be h mx) = 40"
  by (simp add: hdr_bytes_def native_bytes_def Let_def)

lemma walIndexWriteHdr_ok:
  assumes "length (aSalt (hdr w)) = 8"
  shows "\<exists>w'. walIndexWriteHdr be w = Some w' \<and> live_hdr w' = hdr w' \<and> pWalFd w' = pWalFd w \<and> szPage w' = szPage w
    \<and> index w' = (index w)\<lparr>live_mxFrame := mxFrame (index w)\<rparr> \<and> iReCksum w' = iReCksum w
    \<and> aFrameCksum (hdr w') = aFrameCksum (hdr w) \<and> aSalt (hdr w') = aSalt (hdr w)
    \<and> bigEndCksum (hdr w') = bigEndCksum (hdr w) \<and> nPage (hdr w') = nPage (hdr w)"
  using length_hdr_bytes [of "(hdr w)\<lparr>isInit := True, iVersion := WALINDEX_MAX_VERSION\<rparr>" be "mxFrame (index w)"] assms
  by (simp add: walIndexWriteHdr_def walChecksumBytes_def Let_def)

lemma frames_limit_cut: "\<exists>l \<ge> used. \<exists>t. frames_limit os True used w = w\<lparr>pWalFd := take l (pWalFd w), truncateOnCommit := t\<rparr>"
proof (cases "truncateOnCommit w \<and> 0 \<le> mxWalSize w")
  case True
  have "used \<le> (if mxWalSize w < int used then used else nat (mxWalSize w))" by auto
  from walLimitSize_cut [OF this, of "limit_size_rc os" "limit_trunc_rc os" w] obtain l where
    "used \<le> l" "walLimitSize (limit_size_rc os) (limit_trunc_rc os) (if mxWalSize w < int used then used else nat (mxWalSize w)) w
      = w\<lparr>pWalFd := take l (pWalFd w)\<rparr>" by blast
  then show ?thesis using True unfolding frames_limit_def Let_def by (intro exI [of _ l]) auto
next
  case False
  then have "frames_limit os True used w = w" by (simp only: frames_limit_def if_False simp_thms)
  also have "w = w\<lparr>pWalFd := take (max used (length (pWalFd w))) (pWalFd w), truncateOnCommit := truncateOnCommit w\<rparr>" by simp
  finally show ?thesis by (metis max.cobounded1)
qed

lemma frames_finish_commit:
  assumes rep: "wal_rep (index w) (L, T)" and g: "grants (index_os (file_os (shm (wr_read os)))) (index w)"
    and app: "app \<noteq> []" "0 \<notin> fst ` set app" and salt: "length (aSalt (hdr w)) = 8"
  shows "\<exists>l w'. frames_finish be os rc app e iFrame n True sz w = Some (rc, w')
    \<and> walFrameOffset (iFrame + e + 1) sz \<le> l \<and> pWalFd w' = take l (pWalFd w)
    \<and> (rc = SQLITE_OK \<longrightarrow> wal_rep (index w') (L @ T @ map fst app @ replicate e (fst (last app)), [])
        \<and> grants (index_os (file_os (shm (wr_read os)))) (index w')
        \<and> live_hdr w' = hdr w' \<and> nPage (hdr w') = n \<and> szPage w' = szPage w \<and> iReCksum w' = iReCksum w
        \<and> aFrameCksum (hdr w') = aFrameCksum (hdr w) \<and> aSalt (hdr w') = aSalt (hdr w)
        \<and> bigEndCksum (hdr w') = bigEndCksum (hdr w))"
proof -
  obtain l t where l: "walFrameOffset (iFrame + e + 1) sz \<le> l"
    and lim: "frames_limit os True (walFrameOffset (iFrame + e + 1) sz) w = w\<lparr>pWalFd := take l (pWalFd w), truncateOnCommit := t\<rparr>"
    using frames_limit_cut by blast
  let ?w = "w\<lparr>pWalFd := take l (pWalFd w), truncateOnCommit := t\<rparr>"
  show ?thesis
  proof (cases "rc = SQLITE_OK")
    case False
    then have "frames_finish be os rc app e iFrame n True sz w = Some (rc, ?w)"
      unfolding frames_finish_def lim by simp
    then show ?thesis using False l by (intro exI [of _ l] exI [of _ ?w]) simp
  next
    case True
    let ?ps = "map fst app @ replicate e (fst (last app))"
    have "0 \<notin> set ?ps" using app by (auto simp: image_iff dest: last_in_set)
    from frames_step [OF rep g this, of True] obtain ix where
      ix: "wal_index_frames (index_os (file_os (shm (wr_read os)))) (index w) ?ps True = Some (SQLITE_OK, ix)"
        "wal_rep ix (L @ T @ ?ps, [])" "grants (index_os (file_os (shm (wr_read os)))) ix"
      by auto
    define v where "v = ?w\<lparr>index := ix, hdr := (hdr w)\<lparr>szPage16 := hdr_pagesize sz, iChange := iChange (hdr w) + 1, nPage := n\<rparr>\<rparr>"
    have "length (aSalt (hdr v)) = 8" using salt by (simp add: v_def)
    from walIndexWriteHdr_ok [OF this, of be] obtain v' where v': "walIndexWriteHdr be v = Some v'" "live_hdr v' = hdr v'"
      "pWalFd v' = pWalFd v" "szPage v' = szPage v" "index v' = (index v)\<lparr>live_mxFrame := mxFrame (index v)\<rparr>" "iReCksum v' = iReCksum v"
      "aFrameCksum (hdr v') = aFrameCksum (hdr v)" "aSalt (hdr v') = aSalt (hdr v)"
      "bigEndCksum (hdr v') = bigEndCksum (hdr v)" "nPage (hdr v') = nPage (hdr v)" by blast
    have same: "index v' = ix"
      using ix(2) v'(5) by (cases ix) (auto simp: v_def wal_rep_def)
    have "frames_finish be os rc app e iFrame n True sz w = Some (SQLITE_OK, v'\<lparr>iCallback := mxFrame (index v')\<rparr>)"
      using True ix(1) v'(1) unfolding frames_finish_def lim by (simp add: v_def Let_def)
    then show ?thesis using True l ix v' same
      by (intro exI [of _ l] exI [of _ "v'\<lparr>iCallback := mxFrame (index v')\<rparr>"]) (simp add: v_def)
  qed
qed


section \<open>The transaction\<close>

text \<open>The frames of a transaction with its padding.\<close>

definition padded :: "u32 \<Rightarrow> dirty list \<Rightarrow> nat \<Rightarrow> frame list" where
  "padded n pgs m = tx_frames n pgs @ replicate m (last (tx_frames n pgs))"

lemma padded_pages: "pgs \<noteq> [] \<Longrightarrow> map fst (padded n pgs m) = map fst pgs @ replicate m (fst (last pgs))"
  by (simp add: padded_def tx_frames_pages tx_frames_last)

lemma padded_ok: "pgs \<noteq> [] \<Longrightarrow> \<forall>pg \<in> set pgs. fst pg \<noteq> 0 \<and> length (snd pg) = sz \<Longrightarrow> \<forall>f \<in> set (padded n pgs m). frame_ok sz f"
  using tx_frames_ok [of pgs sz n] by (auto simp: padded_def dest: last_in_set)

lemma walFrameOffset_add: "walFrameOffset (n + k + 1) sz = walFrameOffset (n + 1) sz + k * (sz + WAL_FRAME_HDRSIZE)"
  by (simp add: walFrameOffset_def algebra_simps)

lemma write_at_end: "write_at F (length F) X = F @ X"
  using write_at_append [of F "[]" X] by simp

text \<open>The end of a commit, when the chain of checksums is complete and reaches the end of the file.\<close>

lemma frames_tail_commit:
  assumes w: "writer_ok c salt sz s q" and F: "pWalFd (pWal q) = F" "length F = walFrameOffset (iF + 1) sz"
    and rep: "wal_rep (index (pWal q)) (L, T)" and g: "grants (index_os (file_os (shm (wr_read os)))) (index (pWal q))"
    and app: "app \<noteq> []" "\<forall>pg \<in> set app. fst pg \<noteq> 0 \<and> length (snd pg) = sz" and sp: "iSyncPoint q = 0"
    and P: "P = (\<lambda>m. frames_bytes c salt s (replicate m (fst (last app), n, snd (last app))))"
  shows "\<exists>rc r m j. frames_tail be os app iF n True (length F) q = Some (rc, r) \<and> (healthy os \<longrightarrow> rc = SQLITE_OK)
    \<and> j \<le> length (P m) \<and> pWalFd (pWal r) = F @ take j (P m)
    \<and> (rc = SQLITE_OK \<longrightarrow> j = length (P m) \<and> wal_rep (index (pWal r)) (L @ T @ map fst app @ replicate m (fst (last app)), [])
        \<and> live_hdr (pWal r) = hdr (pWal r) \<and> nPage (hdr (pWal r)) = n
        \<and> writer_ok c salt sz (frames_cksum c s (replicate m (fst (last app), n, snd (last app)))) r
        \<and> (WAL_SYNC_FLAGS (syncFlags q) \<noteq> 0 \<longrightarrow> (\<exists>k. synced r = F @ take k (P m))))"
proof -
  have salt: "length salt = 8" using w by (simp add: writer_ok_def)
  have lq: "length (snd (last app)) = sz" using app by simp
  from frames_sync_commit [OF w app(1) lq sp P, of be os "length F"] obtain rc leave e q2 m i where
    1: "frames_sync be os app n True (length F) q = Some (rc, leave, e, q2)" "touched (pWal q) (pWal q2)" "wr_szPage q2 = sz"
      "leave \<longrightarrow> rc \<noteq> SQLITE_OK" "i \<le> length (P m)" "pWalFd (pWal q2) = write_at (pWalFd (pWal q)) (length F) (take i (P m))"
    and stay: "\<not> leave \<longrightarrow> e = m \<and> i = length (P m)
       \<and> aFrameCksum (hdr (pWal q2)) = frames_cksum c s (replicate e (fst (last app), n, snd (last app)))"
    and sync: "rc = SQLITE_OK \<and> WAL_SYNC_FLAGS (syncFlags q) \<noteq> 0 \<longrightarrow>
       (\<exists>k. synced q2 = write_at (pWalFd (pWal q)) (length F) (take k (P e)))"
    by blast
  note f = touched_fields [OF 1(2)]
  have F2: "pWalFd (pWal q2) = F @ take i (P m)" using 1(6) by (simp add: F(1) write_at_end)
  have ok: "healthy os \<longrightarrow> rc = SQLITE_OK" using healthy_end [OF _ 1(1)] by blast
  show ?thesis
  proof (cases leave)
    case leave: True
    then have "frames_tail be os app iF n True (length F) q = Some (rc, q2)" using 1(1) by (simp add: frames_tail_def)
    moreover have "rc \<noteq> SQLITE_OK" using leave 1(4) by simp
    ultimately show ?thesis using F2 1(5) ok by blast
  next
    case False
    then have e: "e = m" "i = length (P m)" using stay by simp_all
    have rep2: "wal_rep (index (pWal q2)) (L, T)" and g2: "grants (index_os (file_os (shm (wr_read os)))) (index (pWal q2))"
      using rep g by (simp_all add: f)
    have no0: "0 \<notin> fst ` set app" and salt2: "length (aSalt (hdr (pWal q2))) = 8" using app(2) w by (auto simp: f writer_ok_def)
    from frames_finish_commit [OF rep2 g2 app(1) no0 salt2, of be rc e iF n sz] obtain l w' where
      2: "frames_finish be os rc app e iF n True sz (pWal q2) = Some (rc, w')"
        "walFrameOffset (iF + e + 1) sz \<le> l" "pWalFd w' = take l (pWalFd (pWal q2))"
      and ok2: "rc = SQLITE_OK \<longrightarrow> wal_rep (index w') (L @ T @ map fst app @ replicate e (fst (last app)), [])
        \<and> live_hdr w' = hdr w' \<and> nPage (hdr w') = n \<and> szPage w' = szPage (pWal q2) \<and> iReCksum w' = iReCksum (pWal q2)
        \<and> aFrameCksum (hdr w') = aFrameCksum (hdr (pWal q2)) \<and> aSalt (hdr w') = aSalt (hdr (pWal q2))
        \<and> bigEndCksum (hdr w') = bigEndCksum (hdr (pWal q2))"
      by blast
    have run: "frames_tail be os app iF n True (length F) q = Some (rc, q2\<lparr>pWal := w'\<rparr>)"
      using 1(1,3) False 2(1) by (simp add: frames_tail_def)
    have "length (P m) = m * (sz + WAL_FRAME_HDRSIZE)"
      unfolding P using lq by (subst length_frames_data [OF salt, where sz = sz]) simp_all
    then have "length (F @ P m) \<le> l" using 2(2) F(2) e walFrameOffset_add [of iF m sz] by simp
    then have F': "pWalFd w' = F @ P m" using 2(3) F2 e by simp
    have "wal_rep (index w') (L @ T @ map fst app @ replicate m (fst (last app)), []) \<and> live_hdr w' = hdr w' \<and> nPage (hdr w') = n
        \<and> writer_ok c salt sz (frames_cksum c s (replicate m (fst (last app), n, snd (last app)))) (q2\<lparr>pWal := w'\<rparr>)
        \<and> (WAL_SYNC_FLAGS (syncFlags q) \<noteq> 0 \<longrightarrow> (\<exists>k. synced q2 = F @ take k (P m)))" if rc: "rc = SQLITE_OK"
    proof (intro conjI impI)
      note ok2 = ok2 [rule_format, OF rc]
      show "wal_rep (index w') (L @ T @ map fst app @ replicate m (fst (last app)), [])" "live_hdr w' = hdr w'" "nPage (hdr w') = n"
        using ok2 e by simp_all
      show "writer_ok c salt sz (frames_cksum c s (replicate m (fst (last app), n, snd (last app)))) (q2\<lparr>pWal := w'\<rparr>)"
        using ok2 stay False w e 1(3) unfolding writer_ok_def by (simp add: f)
      assume fl: "WAL_SYNC_FLAGS (syncFlags q) \<noteq> 0"
      show "\<exists>k. synced q2 = F @ take k (P m)" using sync rc fl e F(1) by (auto simp: write_at_end)
    qed
    then have "rc = SQLITE_OK \<longrightarrow> length (P m) = length (P m)
        \<and> wal_rep (index (pWal (q2\<lparr>pWal := w'\<rparr>))) (L @ T @ map fst app @ replicate m (fst (last app)), [])
        \<and> live_hdr (pWal (q2\<lparr>pWal := w'\<rparr>)) = hdr (pWal (q2\<lparr>pWal := w'\<rparr>)) \<and> nPage (hdr (pWal (q2\<lparr>pWal := w'\<rparr>))) = n
        \<and> writer_ok c salt sz (frames_cksum c s (replicate m (fst (last app), n, snd (last app)))) (q2\<lparr>pWal := w'\<rparr>)
        \<and> (WAL_SYNC_FLAGS (syncFlags q) \<noteq> 0 \<longrightarrow> (\<exists>k. synced (q2\<lparr>pWal := w'\<rparr>) = F @ take k (P m)))" by simp
    moreover have "pWalFd (pWal (q2\<lparr>pWal := w'\<rparr>)) = F @ take (length (P m)) (P m)" using F' by simp
    ultimately show ?thesis
      by - (rule exI [of _ rc], rule exI [of _ "q2\<lparr>pWal := w'\<rparr>"], rule exI [of _ m], rule exI [of _ "length (P m)"],
          intro conjI, rule run, rule ok, rule order_refl)
  qed
qed

text \<open>A transaction that is appended at the end of the file.\<close>

lemma frames_body_end:
  assumes w: "writer_ok c salt sz s p" and F: "pWalFd (pWal p) = A" "length A = walFrameOffset (length L + 1) sz"
    and rep: "wal_rep (index (pWal p)) (L, [])" and g: "grants (index_os (file_os (shm (wr_read os)))) (index (pWal p))"
    and pgs: "pgs \<noteq> []" "\<forall>pg \<in> set pgs. fst pg \<noteq> 0 \<and> length (snd pg) = sz" and sp: "iSyncPoint p = 0"
    and B: "B = (\<lambda>m. frames_bytes c salt s (padded n pgs m))"
  shows "\<exists>rc q m j. frames_body be os pgs n True 0 p = Some (rc, q) \<and> (healthy os \<longrightarrow> rc = SQLITE_OK) \<and> j \<le> length (B m)
    \<and> pWalFd (pWal q) = A @ take j (B m)
    \<and> (rc = SQLITE_OK \<longrightarrow> j = length (B m) \<and> wal_rep (index (pWal q)) (L @ map fst (padded n pgs m), [])
        \<and> live_hdr (pWal q) = hdr (pWal q) \<and> nPage (hdr (pWal q)) = n
        \<and> writer_ok c salt sz (frames_cksum c s (padded n pgs m)) q
        \<and> (WAL_SYNC_FLAGS (syncFlags p) \<noteq> 0 \<longrightarrow> (\<exists>k. length (B 0) \<le> k \<and> synced q = A @ take k (B m))))"
proof -
  let ?X = "frames_bytes c salt s (tx_frames n pgs)" and ?szF = "sz + WAL_FRAME_HDRSIZE"
  let ?s = "frames_cksum c s (tx_frames n pgs)"
  define P where "P = (\<lambda>m. frames_bytes c salt ?s (replicate m (fst (last pgs), n, snd (last pgs))))"
  have BP: "B m = ?X @ P m" for m
    by (simp add: B P_def padded_def frames_bytes_append tx_frames_last [OF pgs(1)])
  have salt: "length salt = 8" and fields: "szPage (pWal p) = sz" "wr_szPage p = sz" "iReCksum (pWal p) = 0"
    using w by (simp_all add: writer_ok_def)
  have mx: "mxFrame (index (pWal p)) = length L" using rep by (auto simp: wal_rep_def)
  have lenX: "length ?X = length pgs * ?szF"
    using tx_frames_ok [OF pgs(2), of n] by (subst length_frames_data [OF salt]) (auto simp: frame_ok_def)
  have "\<forall>pg \<in> set pgs. length (snd pg) = sz" using pgs(2) by blast
  from write_frames_append [OF w this, of be os n True "length L" "walFrameOffset (length L + 1) sz"] obtain rc app iF iO q where
    1: "write_frames be os 0 n True pgs (length L) (walFrameOffset (length L + 1) sz) p = Some (rc, app, iF, iO, q)"
      "writes ?X (length A) p rc q"
    and ok1: "rc = SQLITE_OK \<Longrightarrow> app = pgs \<and> iF = length L + length pgs \<and> iO = length (A @ ?X) \<and> writer_ok c salt sz ?s q"
    using F(2) lenX by auto
  have h1: "healthy os \<longrightarrow> rc = SQLITE_OK" using healthy_frames [OF _ 1(1)] by blast
  obtain j where j: "j \<le> length ?X" "rc = SQLITE_OK \<longrightarrow> j = length ?X" "pWalFd (pWal q) = A @ take j ?X"
    using writes_file [OF 1(2)] F(1) by (auto simp: write_at_end)
  show ?thesis
  proof (cases "rc = SQLITE_OK")
    case False
    then have "frames_body be os pgs n True 0 p = Some (rc, q)"
      using 1(1) by (simp add: frames_body_def Let_def mx fields)
    moreover have "pWalFd (pWal q) = A @ take j (B 0)" "j \<le> length (B 0)" using j(1,3) by (simp_all add: BP P_def)
    ultimately show ?thesis using False h1 by blast
  next
    case True
    note ok1 = ok1 [OF True]
    note t = writes_fields [OF 1(2)]
    note f = touched_fields [OF t(4)]
    have wq: "writer_ok c salt sz ?s q" and Fq: "pWalFd (pWal q) = A @ ?X" using ok1 j True by simp_all
    have len: "length (A @ ?X) = walFrameOffset (iF + 1) sz"
      using ok1 F(2) walFrameOffset_add [of "length L" "length pgs" sz] lenX by simp
    have rep2: "wal_rep (index (pWal q)) (L, [])" and g2: "grants (index_os (file_os (shm (wr_read os)))) (index (pWal q))"
      and sp2: "iSyncPoint q = 0" using rep g sp t(1) by (simp_all add: f)
    from frames_tail_commit [OF wq Fq len rep2 g2 pgs sp2 P_def, of be] obtain rc2 r m i where
      2: "frames_tail be os pgs iF n True (length (A @ ?X)) q = Some (rc2, r)" "healthy os \<longrightarrow> rc2 = SQLITE_OK"
        "i \<le> length (P m)" "pWalFd (pWal r) = (A @ ?X) @ take i (P m)"
      and ok2: "rc2 = SQLITE_OK \<longrightarrow> i = length (P m) \<and> wal_rep (index (pWal r)) (L @ [] @ map fst pgs @ replicate m (fst (last pgs)), [])
        \<and> live_hdr (pWal r) = hdr (pWal r) \<and> nPage (hdr (pWal r)) = n
        \<and> writer_ok c salt sz (frames_cksum c ?s (replicate m (fst (last pgs), n, snd (last pgs)))) r
        \<and> (WAL_SYNC_FLAGS (syncFlags q) \<noteq> 0 \<longrightarrow> (\<exists>k. synced r = (A @ ?X) @ take k (P m)))"
      by blast
    have "\<not> (True \<and> iReCksum (pWal q) \<noteq> 0)" using wq by (simp add: writer_ok_def)
    then have run: "frames_body be os pgs n True 0 p = Some (rc2, r)"
      using 1(1) 2(1) True ok1 by (simp add: frames_body_def Let_def mx fields)
    have part: "(A @ ?X) @ take i (P m) = A @ take (length ?X + i) (B m)" for i m by (simp add: BP)
    have file': "pWalFd (pWal r) = A @ take (length ?X + i) (B m)" "length ?X + i \<le> length (B m)"
      using 2(3,4) unfolding part by (simp_all add: BP)
    have ok: "length ?X + i = length (B m) \<and> wal_rep (index (pWal r)) (L @ map fst (padded n pgs m), [])
        \<and> live_hdr (pWal r) = hdr (pWal r) \<and> nPage (hdr (pWal r)) = n
        \<and> writer_ok c salt sz (frames_cksum c s (padded n pgs m)) r
        \<and> (WAL_SYNC_FLAGS (syncFlags p) \<noteq> 0 \<longrightarrow> (\<exists>k. length (B 0) \<le> k \<and> synced r = A @ take k (B m)))" if rc2: "rc2 = SQLITE_OK"
    proof (intro conjI impI)
      note ok2 = ok2 [rule_format, OF rc2]
      show "length ?X + i = length (B m)" "wal_rep (index (pWal r)) (L @ map fst (padded n pgs m), [])"
        "live_hdr (pWal r) = hdr (pWal r)" "nPage (hdr (pWal r)) = n"
        "writer_ok c salt sz (frames_cksum c s (padded n pgs m)) r"
        using ok2 by (simp_all add: BP padded_def frames_cksum_append tx_frames_last [OF pgs(1)] tx_frames_pages)
      assume "WAL_SYNC_FLAGS (syncFlags p) \<noteq> 0"
      then obtain k where "synced r = A @ take (length ?X + k) (B m)" using ok2 t(2) unfolding part by auto
      moreover have "length (B 0) \<le> length ?X + k" by (simp add: BP P_def)
      ultimately show "\<exists>k. length (B 0) \<le> k \<and> synced r = A @ take k (B m)" by blast
    qed
    show ?thesis
      by (rule exI [of _ rc2], rule exI [of _ r], rule exI [of _ m], rule exI [of _ "length ?X + i"], intro conjI)
        (rule run, rule 2(2), rule file'(2), rule file'(1), use ok in blast)
  qed
qed

section \<open>The header of a new log\<close>

lemma walWriteHeader_result:
  assumes sz: "sz < 2 ^ 32" and ck: "ckpt = of_nat (nCkpt (index (pWal p)))"
    and salt: "salt = (if ckpt = 0 then new_salt os else aSalt (hdr (pWal p)))" "length salt = 8"
    and H: "H = header_bytes be (of_nat sz) ckpt salt"
  shows "\<exists>rc q j. walWriteHeader be os sz fl p = Some (rc, q) \<and> j \<le> length H
    \<and> pWalFd (pWal q) = write_at (pWalFd (pWal p)) 0 (take j H) \<and> (rc = SQLITE_OK \<longrightarrow> j = length H)
    \<and> index (pWal q) = index (pWal p) \<and> iReCksum (pWal q) = iReCksum (pWal p) \<and> szPage (pWal q) = sz
    \<and> aSalt (hdr (pWal q)) = salt \<and> bigEndCksum (hdr (pWal q)) = be
    \<and> aFrameCksum (hdr (pWal q)) = header_cksum be (of_nat sz) ckpt salt"
proof -
  define w1 where "w1 = (if ckpt = 0 then (pWal p)\<lparr>hdr := (hdr (pWal p))\<lparr>aSalt := new_salt os\<rparr>\<rparr> else pWal p)"
  have w1: "aSalt (hdr w1) = salt" "index w1 = index (pWal p)" "iReCksum w1 = iReCksum (pWal p)" "pWalFd w1 = pWalFd (pWal p)"
    using salt(1) by (simp_all add: w1_def)
  let ?ck = "header_cksum be (of_nat sz) ckpt salt"
  define w2 where "w2 = w1\<lparr>szPage := sz, hdr := (hdr w1)\<lparr>bigEndCksum := be, aFrameCksum := ?ck\<rparr>, truncateOnCommit := True\<rparr>"
  have front: "header_front be (of_nat sz) ckpt salt = sqlite3Put4byte (WAL_MAGIC OR of_bool be) @ sqlite3Put4byte WAL_MAX_VERSION
       @ sqlite3Put4byte (of_nat sz) @ sqlite3Put4byte ckpt @ aSalt (hdr w1)"
    by (simp add: header_front_def w1)
  have "length (header_front be (of_nat sz) ckpt salt) = 24" using salt(2) by (simp add: header_front_def)
  then have sum: "walChecksumBytes be True (header_front be (of_nat sz) ckpt salt) (WAL_HDRSIZE - 2 * 4) (0, 0) = Some ?ck"
    by (simp add: walChecksumBytes_def header_cksum_def WAL_HDRSIZE_def)
  obtain rc1 p1 where o: "osWrite os (p\<lparr>pWal := w2\<rparr>) H 0 = (rc1, p1)" by (metis prod.exhaust)
  have Hb: "H = header_front be (of_nat sz) ckpt salt @ sqlite3Put4byte (fst ?ck) @ sqlite3Put4byte (snd ?ck)"
    by (simp add: H header_bytes_def Let_def)
  have run: "walWriteHeader be os sz fl p = Some (if rc1 \<noteq> SQLITE_OK then (rc1, p1)
      else if syncHeader (pWal p1) then sqlite3OsSync os (CKPT_SYNC_FLAGS fl) p1 else (SQLITE_OK, p1))"
    using sum o unfolding walWriteHeader_def ck [symmetric] Let_def w1_def [symmetric] front [symmetric]
    by (simp add: w2_def Hb)
  have p1: "pWal p1 = w2\<lparr>calls := calls w2 + 1, pWalFd := pWalFd (pWal p1)\<rparr>"
    "pWalFd (pWal p1) = write_at (pWalFd (pWal p)) 0 (if rc1 = SQLITE_OK then H else take (wr_bytes os (calls w2)) H)"
    using o by (auto simp: osWrite_def Let_def w2_def w1)
  define j where "j = (if rc1 = SQLITE_OK then length H else min (length H) (wr_bytes os (calls w2)))"
  have j: "j \<le> length H" "pWalFd (pWal p1) = write_at (pWalFd (pWal p)) 0 (take j H)" "rc1 = SQLITE_OK \<longrightarrow> j = length H"
    using p1(2) by (simp_all add: j_def min_def)
  obtain rc q where q: "walWriteHeader be os sz fl p = Some (rc, q)" "rc = SQLITE_OK \<longrightarrow> rc1 = SQLITE_OK"
    "touched (pWal p1) (pWal q)" "pWalFd (pWal q) = pWalFd (pWal p1)" "aFrameCksum (hdr (pWal q)) = aFrameCksum (hdr (pWal p1))"
  proof (cases "rc1 = SQLITE_OK \<and> syncHeader (pWal p1)")
    case True
    obtain rc q where s: "sqlite3OsSync os (CKPT_SYNC_FLAGS fl) p1 = (rc, q)" by (metis prod.exhaust)
    show thesis using that [of rc q] run True s sync_result [OF s] by simp
  next
    case False
    then show thesis using that [of rc1 p1] run by (cases "rc1 = SQLITE_OK") (simp_all add: touched_refl)
  qed
  note f = touched_fields [OF q(3)]
  have h: "index (pWal p1) = index (pWal p)" "iReCksum (pWal p1) = iReCksum (pWal p)" "szPage (pWal p1) = sz"
    "aSalt (hdr (pWal p1)) = salt" "bigEndCksum (hdr (pWal p1)) = be" "aFrameCksum (hdr (pWal p1)) = ?ck"
    by (subst p1(1), simp add: w2_def w1)+
  show ?thesis using q j by (intro exI [of _ rc] exI [of _ q] exI [of _ j]) (simp add: f h)
qed

section \<open>Which frames are committed\<close>

lemma committed_none: "\<forall>g \<in> set gs. \<not> commits g \<Longrightarrow> committed (fs @ gs) = committed fs"
proof -
  assume "\<forall>g \<in> set gs. \<not> commits g"
  then have "\<And>x. x \<in> set (rev gs) \<Longrightarrow> (Not \<circ> commits) x" by simp
  then show ?thesis unfolding committed_def rev_append by (subst dropWhile_append2) auto
qed

lemma committed_all: "gs \<noteq> [] \<Longrightarrow> commits (last gs) \<Longrightarrow> committed (fs @ gs) = fs @ gs"
  by (cases gs rule: rev_cases) (simp_all add: committed_def)

lemma tx_frames_commit: "i < length pgs \<Longrightarrow> \<forall>f \<in> set (take i (tx_frames n pgs)). \<not> commits f"
proof (induction n pgs arbitrary: i rule: tx_frames.induct)
  case (2 n pg pgs)
  then show ?case by (cases i) (auto simp: commits_def)
qed simp

lemma padded_cut:
  assumes "committed fs = fs" "pgs \<noteq> []" "n \<noteq> 0"
  shows "committed (fs @ take i (padded n pgs m)) = (if i < length pgs then fs else fs @ padded n pgs (min (i - length pgs) m))"
proof (cases "i < length pgs")
  case True
  then have "take i (padded n pgs m) = take i (tx_frames n pgs)" by (simp add: padded_def)
  then show ?thesis using committed_none [OF tx_frames_commit [OF True, of n], of fs] assms(1) True by simp
next
  case False
  then have t: "take i (padded n pgs m) = padded n pgs (min (i - length pgs) m)" by (simp add: padded_def)
  have "last (padded n pgs k) = (fst (last pgs), n, snd (last pgs))" for k
    using assms(2) by (cases k) (simp_all add: padded_def tx_frames_last replicate_append_same flip: replicate_Suc)
  then have "commits (last (padded n pgs k))" for k using assms(3) by (simp add: commits_def)
  moreover have "padded n pgs k \<noteq> []" for k using assms(2) by (simp add: padded_def)
  ultimately show ?thesis using False t committed_all by simp
qed


section \<open>A commit\<close>

text \<open>The log before a transaction: its file is made of the frames \<open>fs\<close> and nothing else, or is empty,
  and the connection is at their end.\<close>

definition full_log :: "nat \<Rightarrow> bool \<Rightarrow> u32 \<Rightarrow> u8 list \<Rightarrow> frame list \<Rightarrow> u8 list" where
  "full_log sz c ckpt salt fs = header_bytes c (of_nat sz) ckpt salt
     @ frames_bytes c salt (header_cksum c (of_nat sz) ckpt salt) fs"

definition log_at :: "write_os \<Rightarrow> bool \<Rightarrow> nat \<Rightarrow> bool \<Rightarrow> u32 \<Rightarrow> u8 list \<Rightarrow> frame list \<Rightarrow> wal_log \<Rightarrow> bool" where
  "log_at os be sz c ckpt salt fs w \<longleftrightarrow> wal_rep (index w) (map fst fs, []) \<and> iReCksum w = 0 \<and> same_hdr w \<and> length salt = 8
     \<and> (if fs = [] then pWalFd w = [] \<and> c = be \<and> ckpt = of_nat (nCkpt (index w))
            \<and> salt = (if ckpt = 0 then new_salt os else aSalt (hdr w))
        else pWalFd w = full_log sz c ckpt salt fs \<and> szPage w = sz \<and> aSalt (hdr w) = salt \<and> bigEndCksum (hdr w) = c
            \<and> aFrameCksum (hdr w) = frames_cksum c (header_cksum c (of_nat sz) ckpt salt) fs)"

text \<open>The pages of a transaction, and a connection that need not start the log again.\<close>

definition tx_ok :: "nat \<Rightarrow> dirty list \<Rightarrow> bool" where
  "tx_ok sz pgs \<longleftrightarrow> pgs \<noteq> [] \<and> (\<forall>pg \<in> set pgs. fst pg \<noteq> 0 \<and> length (snd pg) = sz)"

definition appends :: "write_os \<Rightarrow> wal_log \<Rightarrow> bool" where
  "appends os w \<longleftrightarrow> readLock (index w) \<noteq> 0 \<and> grants (index_os (file_os (shm (wr_read os)))) (index w)"

lemma full_log_append: "full_log sz c ckpt salt (fs @ gs) =
    full_log sz c ckpt salt fs @ frames_bytes c salt (frames_cksum c (header_cksum c (of_nat sz) ckpt salt) fs) gs"
  by (simp add: full_log_def frames_bytes_append)

lemma length_full_log: "length salt = 8 \<Longrightarrow> \<forall>f \<in> set fs. frame_ok sz f \<Longrightarrow>
    length (full_log sz c ckpt salt fs) = walFrameOffset (length fs + 1) sz"
  by (simp add: full_log_def header_fields(1) walFrameOffset_def length_frames_data frame_ok_def split_beta)

text \<open>The first frames of a transaction: the header is written when the log is empty.\<close>

lemma frames_write_start:
  assumes at: "log_at os be sz c ckpt salt fs (pWal p)" and sz: "page_size_ok sz"
  shows "(\<exists>rc p1 j. frames_write be os sz pgs n cm fl iFirst p = Some (rc, p1) \<and> rc \<noteq> SQLITE_OK \<and> \<not> healthy os
      \<and> pWalFd (pWal p1) = take j (full_log sz c ckpt salt fs) \<and> length (pWalFd (pWal p)) \<le> j)
    \<or> (\<exists>p1. frames_write be os sz pgs n cm fl iFirst p
          = frames_body be os pgs n cm iFirst (p1\<lparr>iSyncPoint := 0, syncFlags := fl, wr_szPage := sz\<rparr>)
      \<and> pWalFd (pWal p1) = full_log sz c ckpt salt fs \<and> index (pWal p1) = index (pWal p) \<and> szPage (pWal p1) = sz
      \<and> aSalt (hdr (pWal p1)) = salt \<and> bigEndCksum (hdr (pWal p1)) = c \<and> iReCksum (pWal p1) = 0
      \<and> aFrameCksum (hdr (pWal p1)) = frames_cksum c (header_cksum c (of_nat sz) ckpt salt) fs)"
proof -
  let ?s = "header_cksum c (of_nat sz) ckpt salt" and ?H = "header_bytes c (of_nat sz) ckpt salt"
  have salt: "length salt = 8" and ck: "iReCksum (pWal p) = 0" and mx: "mxFrame (index (pWal p)) = length fs"
    using at by (auto simp: log_at_def wal_rep_def)
  show ?thesis
  proof (cases "fs = []")
    case False
    then have "pWalFd (pWal p) = full_log sz c ckpt salt fs" "szPage (pWal p) = sz" "aSalt (hdr (pWal p)) = salt"
      "bigEndCksum (hdr (pWal p)) = c" "aFrameCksum (hdr (pWal p)) = frames_cksum c ?s fs"
      using at by (simp_all add: log_at_def)
    moreover have "frames_write be os sz pgs n cm fl iFirst p
        = frames_body be os pgs n cm iFirst (p\<lparr>iSyncPoint := 0, syncFlags := fl, wr_szPage := sz\<rparr>)"
      using False mx by (simp add: frames_write_def)
    ultimately show ?thesis using ck by blast
  next
    case True
    have e: "pWalFd (pWal p) = []" "c = be" "ckpt = of_nat (nCkpt (index (pWal p)))"
      "salt = (if ckpt = 0 then new_salt os else aSalt (hdr (pWal p)))" using at True by (auto simp: log_at_def)
    have "sz < 2 ^ 32" using sz by (auto simp: page_size_ok_def)
    from walWriteHeader_result [OF this e(3,4) salt refl, where be = be and fl = fl] obtain rc1 p1 j where
      h: "walWriteHeader be os sz fl p = Some (rc1, p1)" "j \<le> length ?H" "rc1 = SQLITE_OK \<longrightarrow> j = length ?H"
        "pWalFd (pWal p1) = write_at [] 0 (take j ?H)" "index (pWal p1) = index (pWal p)" "iReCksum (pWal p1) = 0"
        "szPage (pWal p1) = sz" "aSalt (hdr (pWal p1)) = salt" "bigEndCksum (hdr (pWal p1)) = c" "aFrameCksum (hdr (pWal p1)) = ?s"
      unfolding e(1,2) using ck by auto
    have file1: "pWalFd (pWal p1) = take j ?H" using h(4) by (simp add: write_at_def)
    show ?thesis
    proof (cases "rc1 = SQLITE_OK")
      case False
      then have "frames_write be os sz pgs n cm fl iFirst p = Some (rc1, p1)" using h(1) mx True by (simp add: frames_write_def)
      moreover have "pWalFd (pWal p1) = take j (full_log sz c ckpt salt fs)" using file1 h(2) by (simp add: True full_log_def)
      moreover have "\<not> healthy os" using healthy_header [OF _ h(1)] False by blast
      ultimately show ?thesis using False e(1) by auto
    next
      case ok: True
      then have "frames_write be os sz pgs n cm fl iFirst p
          = frames_body be os pgs n cm iFirst (p1\<lparr>iSyncPoint := 0, syncFlags := fl, wr_szPage := sz\<rparr>)"
        using h(1) mx True by (simp add: frames_write_def)
      moreover have "pWalFd (pWal p1) = full_log sz c ckpt salt fs" using file1 h(3) ok True by (simp add: full_log_def)
      ultimately show ?thesis using h(5-10) True by auto
    qed
  qed
qed

text \<open>Whatever fails, the file grows by a part of the transaction.\<close>

lemma commit_written:
  assumes at: "log_at os be sz c ckpt salt fs (pWal p)" and fs: "\<forall>f \<in> set fs. frame_ok sz f" and sz: "page_size_ok sz"
    and tx: "tx_ok sz pgs" and ap: "appends os (pWal p)"
  shows "\<exists>rc q m K. sqlite3WalFrames be os sz pgs n True fl p = Some (rc, q) \<and> (healthy os \<longrightarrow> rc = SQLITE_OK)
    \<and> pWalFd (pWal q) = take K (full_log sz c ckpt salt (fs @ padded n pgs m)) \<and> length (pWalFd (pWal p)) \<le> K
    \<and> (rc = SQLITE_OK \<longrightarrow> K = length (full_log sz c ckpt salt (fs @ padded n pgs m))
        \<and> log_at os be sz c ckpt salt (fs @ padded n pgs m) (pWal q) \<and> nPage (hdr (pWal q)) = n
        \<and> (WAL_SYNC_FLAGS fl \<noteq> 0 \<longrightarrow>
             (\<exists>k. length (full_log sz c ckpt salt (fs @ padded n pgs 0)) \<le> k
                \<and> synced q = take k (full_log sz c ckpt salt (fs @ padded n pgs m)))))"
proof -
  let ?s = "header_cksum c (of_nat sz) ckpt salt" and ?H = "header_bytes c (of_nat sz) ckpt salt"
  let ?full = "\<lambda>m. full_log sz c ckpt salt (fs @ padded n pgs m)"
  have salt: "length salt = 8" and rep: "wal_rep (index (pWal p)) (map fst fs, [])" and sh: "same_hdr (pWal p)"
    and ck: "iReCksum (pWal p) = 0" using at by (simp_all add: log_at_def)
  have g: "grants (index_os (file_os (shm (wr_read os)))) (index (pWal p))" and rl: "readLock (index (pWal p)) \<noteq> 0"
    using ap by (simp_all add: appends_def)
  have pgs: "pgs \<noteq> []" "\<forall>pg \<in> set pgs. fst pg \<noteq> 0 \<and> length (snd pg) = sz" using tx by (simp_all add: tx_ok_def)
  have mx: "mxFrame (index (pWal p)) = length fs" using rep by (auto simp: wal_rep_def)
  have run: "sqlite3WalFrames be os sz pgs n True fl p = frames_write be os sz pgs n True fl 0 p"
    using rl sh by (simp add: sqlite3WalFrames_def walRestartLog_def Let_def)
  have HL: "length ?H = WAL_HDRSIZE" by (rule header_fields(1) [OF salt])
  have old: "length (pWalFd (pWal p)) \<le> length (full_log sz c ckpt salt fs)"
    using at by (cases "fs = []") (simp_all add: log_at_def)
  have main: "\<exists>rc q m K. frames_body be os pgs n True 0 (p1\<lparr>iSyncPoint := 0, syncFlags := fl, wr_szPage := sz\<rparr>) = Some (rc, q) \<and> (healthy os \<longrightarrow> rc = SQLITE_OK)
      \<and> pWalFd (pWal q) = take K (?full m) \<and> length (pWalFd (pWal p)) \<le> K
      \<and> (rc = SQLITE_OK \<longrightarrow> K = length (?full m) \<and> log_at os be sz c ckpt salt (fs @ padded n pgs m) (pWal q)
          \<and> nPage (hdr (pWal q)) = n
          \<and> (WAL_SYNC_FLAGS fl \<noteq> 0 \<longrightarrow> (\<exists>k. length (?full 0) \<le> k \<and> synced q = take k (?full m))))"
    if p1: "pWalFd (pWal p1) = full_log sz c ckpt salt fs" "index (pWal p1) = index (pWal p)" "szPage (pWal p1) = sz"
      "aSalt (hdr (pWal p1)) = salt" "bigEndCksum (hdr (pWal p1)) = c" "iReCksum (pWal p1) = 0"
      "aFrameCksum (hdr (pWal p1)) = frames_cksum c ?s fs" for p1
  proof -
    let ?p = "p1\<lparr>iSyncPoint := 0, syncFlags := fl, wr_szPage := sz\<rparr>" and ?A = "full_log sz c ckpt salt fs"
    define B where "B = (\<lambda>m. frames_bytes c salt (frames_cksum c ?s fs) (padded n pgs m))"
    have w: "writer_ok c salt sz (frames_cksum c ?s fs) ?p" using p1 salt by (simp add: writer_ok_def)
    have F: "pWalFd (pWal ?p) = ?A" "length ?A = walFrameOffset (length (map fst fs) + 1) sz"
      using p1(1) length_full_log [OF salt fs] by simp_all
    have r: "wal_rep (index (pWal ?p)) (map fst fs, [])" and g': "grants (index_os (file_os (shm (wr_read os)))) (index (pWal ?p))"
      and sp: "iSyncPoint ?p = 0" using rep g p1(2) by simp_all
    from frames_body_end [OF w F r g' pgs sp B_def, of be] obtain rc q m j where
      1: "frames_body be os pgs n True 0 ?p = Some (rc, q)" "j \<le> length (B m)" "pWalFd (pWal q) = ?A @ take j (B m)"
        "healthy os \<longrightarrow> rc = SQLITE_OK"
      and ok: "rc = SQLITE_OK \<longrightarrow> j = length (B m) \<and> wal_rep (index (pWal q)) (map fst fs @ map fst (padded n pgs m), [])
        \<and> live_hdr (pWal q) = hdr (pWal q) \<and> nPage (hdr (pWal q)) = n
        \<and> writer_ok c salt sz (frames_cksum c (frames_cksum c ?s fs) (padded n pgs m)) q
        \<and> (WAL_SYNC_FLAGS fl \<noteq> 0 \<longrightarrow> (\<exists>k. length (B 0) \<le> k \<and> synced q = ?A @ take k (B m)))"
      by (elim exE conjE) simp
    have full: "?full m = ?A @ B m" for m by (simp add: full_log_append B_def)
    have file': "pWalFd (pWal q) = take (length ?A + j) (?full m)" by (simp add: 1(3) full)
    have "log_at os be sz c ckpt salt (fs @ padded n pgs m) (pWal q)" if rc: "rc = SQLITE_OK"
    proof -
      note ok = ok [rule_format, OF rc]
      have "pWalFd (pWal q) = ?full m" using 1(3) ok full by simp
      moreover have "same_hdr (pWal q)" using ok by (auto simp: same_hdr_def wal_rep_def)
      moreover have ne: "fs @ padded n pgs m \<noteq> []" using pgs(1) by (simp add: padded_def)
      ultimately show ?thesis using ok salt unfolding log_at_def if_not_P [OF ne]
        by (simp add: writer_ok_def frames_cksum_append)
    qed
    moreover have "\<exists>k. length (?full 0) \<le> k \<and> synced q = take k (?full m)" if rc: "rc = SQLITE_OK" and fl: "WAL_SYNC_FLAGS fl \<noteq> 0"
    proof -
      obtain k where "length (B 0) \<le> k" "synced q = ?A @ take k (B m)" using ok [THEN mp, OF rc] fl by (elim conjE impE exE) assumption+
      then show ?thesis by (intro exI [of _ "length ?A + k"]) (simp add: full)
    qed
    moreover have "rc = SQLITE_OK \<longrightarrow> length ?A + j = length (?full m) \<and> nPage (hdr (pWal q)) = n"
      using ok by (simp add: full)
    ultimately show ?thesis using 1(1,4) file'
      by - (rule exI [of _ rc], rule exI [of _ q], rule exI [of _ m], rule exI [of _ "length ?A + j"], use old in simp)
  qed
  from frames_write_start [OF at sz, of pgs n True fl 0] show ?thesis
  proof (elim disjE exE)
    fix rc p1 j
    assume h: "frames_write be os sz pgs n True fl 0 p = Some (rc, p1) \<and> rc \<noteq> SQLITE_OK \<and> \<not> healthy os
      \<and> pWalFd (pWal p1) = take j (full_log sz c ckpt salt fs) \<and> length (pWalFd (pWal p)) \<le> j"
    have "take j (full_log sz c ckpt salt fs) = take (min j (length (full_log sz c ckpt salt fs))) (?full 0)"
      by (simp add: full_log_append min_def)
    with h old show ?thesis unfolding run
      by (intro exI [of _ rc] exI [of _ p1]) (rule exI [of _ 0], rule exI [of _ "min j (length (full_log sz c ckpt salt fs))"], simp)
  qed (use main run in auto)
qed


section \<open>A crash\<close>

lemma take_drop_append: "x + n \<le> length Y \<Longrightarrow> take n (drop x (Y @ bs)) = take n (drop x Y)"
  by simp

text \<open>The content of the frames of a log.\<close>

lemma frames_bytes_drop:
  assumes "length salt = 8" "\<forall>f \<in> set fs. length (snd (snd f)) = sz" "i < length fs"
  shows "take sz (drop (i * (sz + WAL_FRAME_HDRSIZE) + WAL_FRAME_HDRSIZE) (frames_bytes c salt s fs)) = snd (snd (fs ! i))"
  using assms(2,3)
proof (induction fs arbitrary: i s)
  case (Cons f fs)
  obtain p n d where f: "f = (p, n, d)" by (cases f)
  have len: "length (frame_bytes c salt s p n d) = sz + WAL_FRAME_HDRSIZE"
    using length_frame_bytes [OF assms(1)] Cons.prems(1) by (simp add: f)
  show ?case
  proof (cases i)
    case 0
    then show ?thesis using frame_parts(4) [OF assms(1), of c s p n d] len Cons.prems(1) by (simp add: f WAL_FRAME_HDRSIZE_def)
  next
    case (Suc j)
    then have "take sz (drop (j * (sz + WAL_FRAME_HDRSIZE) + WAL_FRAME_HDRSIZE) (frames_bytes c salt (frame_cksum c p n d s) fs))
        = snd (snd (fs ! j))" using Cons.IH [of j "frame_cksum c p n d s"] Cons.prems by simp
    then show ?thesis using len Suc by (simp add: f add.assoc)
  qed
qed simp

lemma full_log_content:
  assumes "length salt = 8" "\<forall>f \<in> set fs. frame_ok sz f" "i < length fs"
  shows "frame_content sz (full_log sz c ckpt salt fs @ bs) (i + 1) = snd (snd (fs ! i))"
proof -
  let ?s = "header_cksum c (of_nat sz) ckpt salt" and ?x = "i * (sz + WAL_FRAME_HDRSIZE) + WAL_FRAME_HDRSIZE"
  have d: "\<forall>f \<in> set fs. length (snd (snd f)) = sz" using assms(2) by (auto simp: frame_ok_def)
  have "Suc i * (sz + WAL_FRAME_HDRSIZE) \<le> length fs * (sz + WAL_FRAME_HDRSIZE)" using assms(3) by (intro mult_le_mono1) simp
  then have le: "?x + sz \<le> length (frames_bytes c salt ?s fs)" by (simp add: length_frames_data [OF assms(1) d])
  have "walFrameOffset (i + 1) sz + WAL_FRAME_HDRSIZE = length (header_bytes c (of_nat sz) ckpt salt) + ?x"
    by (simp add: walFrameOffset_def header_fields(1) [OF assms(1)])
  then have "frame_content sz (full_log sz c ckpt salt fs @ bs) (i + 1) = take sz (drop ?x (frames_bytes c salt ?s fs @ bs))"
    by (simp add: frame_content_def full_log_def)
  also have "\<dots> = snd (snd (fs ! i))"
    unfolding take_drop_append [OF le] by (rule frames_bytes_drop [OF assms(1) d assms(3)])
  finally show ?thesis .
qed

text \<open>What a crash leaves, as recovery and the readers after it see it: the frames \<open>whole\<close>, with their
  content.\<close>

definition recovers :: "bool \<Rightarrow> log_os \<Rightarrow> nat \<Rightarrow> wal_log \<Rightarrow> frame list \<Rightarrow> bool" where
  "recovers be los sz v whole \<longleftrightarrow> (\<exists>v'. walIndexRecover be los v = Some (SQLITE_OK, v')
     \<and> mxFrame (index v') = length whole \<and> live_mxFrame (index v') = length whole
     \<and> (\<forall>ios r n p. grants ios r \<and> readLock r \<noteq> 0 \<and> n \<le> length whole \<longrightarrow>
          map_option fst (sqlite3WalFindFrame ios (reader_of r (index v') n) p) =
            Some (SQLITE_OK, latest (map fst whole) (minFrame r) n p))
     \<and> (\<forall>i < length whole. frame_content sz (pWalFd v) (i + 1) = snd (snd (whole ! i))))"

lemma recoversI:
  assumes "walIndexRecover be los v = Some (SQLITE_OK, v')" "wal_rep (index v') (map fst whole, [])"
    and "\<And>i. i < length whole \<Longrightarrow> frame_content sz (pWalFd v) (i + 1) = snd (snd (whole ! i))"
  shows "recovers be los sz v whole"
proof -
  have "map_option fst (sqlite3WalFindFrame ios (reader_of r (index v') n) p) =
      Some (SQLITE_OK, latest (map fst whole) (minFrame r) n p)"
    if "grants ios r" "readLock r \<noteq> 0" "n \<le> length whole" for ios r n p
    using reader_finds [OF assms(2) _ that(1,2), of n p] that(3) by simp
  then show ?thesis using assms by (auto simp: recovers_def wal_rep_def)
qed

lemma full_log_cut:
  assumes salt: "length salt = 8" and fs: "\<forall>f \<in> set fs. frame_ok sz f" and os: "recover_os los v" and sz: "page_size_ok sz"
    and F: "pWalFd v = take k (full_log sz c ckpt salt fs)"
  shows "recovers be los sz v (committed (take ((k - WAL_HDRSIZE) div (sz + WAL_FRAME_HDRSIZE)) fs))"
proof (cases "k \<le> WAL_HDRSIZE")
  case True
  then have short: "length (pWalFd v) \<le> WAL_HDRSIZE" by (simp add: F)
  obtain v' where "walIndexRecover be los v = Some (SQLITE_OK, v')" "wal_rep (index v') ([], [])"
    using recover_short [OF os short, of be] by blast
  then show ?thesis using True by (intro recoversI) simp_all
next
  case False
  let ?H = "header_bytes c (of_nat sz) ckpt salt" and ?s = "header_cksum c (of_nat sz) ckpt salt"
  let ?fs = "take ((k - WAL_HDRSIZE) div (sz + WAL_FRAME_HDRSIZE)) fs"
  obtain bs where bs: "take (k - WAL_HDRSIZE) (frames_bytes c salt ?s fs) = frames_bytes c salt ?s ?fs @ bs"
    "length bs < sz + WAL_FRAME_HDRSIZE"
    using frames_bytes_cut [OF salt fs] by blast
  have Fv: "pWalFd v = ?H @ frames_bytes c salt ?s ?fs @ bs"
    using False header_fields(1) [OF salt] by (simp add: F full_log_def bs(1))
  have ok: "\<forall>f \<in> set ?fs. frame_ok sz f" using fs by (meson in_set_takeD)
  have "torn c salt sz (frames_cksum c ?s ?fs) bs" using bs(2) by (simp add: torn_def)
  from recover_log [OF os sz salt Fv refl ok this, of be] obtain v' where
    v': "walIndexRecover be los v = Some (SQLITE_OK, v')" "wal_rep (index v') (map fst (committed ?fs), [])" by blast
  obtain gs where gs: "?fs = committed ?fs @ gs" using committed_prefix by blast
  have "frame_content sz (pWalFd v) (i + 1) = snd (snd (committed ?fs ! i))" if "i < length (committed ?fs)" for i
  proof -
    have "committed ?fs ! i = ?fs ! i" "i < length ?fs"
      using that arg_cong [OF gs, of "\<lambda>l. l ! i"] arg_cong [OF gs, of length] by (simp_all add: nth_append)
    then show ?thesis using full_log_content [OF salt ok, of i c ckpt bs] by (simp add: Fv full_log_def)
  qed
  with v' show ?thesis by (rule recoversI)
qed

lemma commit_crash:
  assumes at: "log_at os be sz c ckpt salt fs w" and fs: "\<forall>f \<in> set fs. frame_ok sz f" "committed fs = fs"
    and sz: "page_size_ok sz" and tx: "tx_ok sz pgs" "n \<noteq> 0" and old: "length (pWalFd w) \<le> k"
    and los: "recover_os los v" "pWalFd v = take k (full_log sz c ckpt salt (fs @ padded n pgs m))"
  shows "\<exists>i. recovers be' los sz v (if (k - WAL_HDRSIZE) div (sz + WAL_FRAME_HDRSIZE) < length fs + length pgs then fs
    else fs @ padded n pgs i)"
proof -
  let ?K = "(k - WAL_HDRSIZE) div (sz + WAL_FRAME_HDRSIZE)" and ?szF = "sz + WAL_FRAME_HDRSIZE"
  have salt: "length salt = 8" using at by (simp add: log_at_def)
  have pgs: "pgs \<noteq> []" "\<forall>pg \<in> set pgs. fst pg \<noteq> 0 \<and> length (snd pg) = sz" using tx by (simp_all add: tx_ok_def)
  have ok: "\<forall>f \<in> set (fs @ padded n pgs m). frame_ok sz f" using fs(1) padded_ok [OF pgs] by auto
  have "length fs \<le> ?K"
  proof (cases "fs = []")
    case False
    then have "length (pWalFd w) = walFrameOffset (length fs + 1) sz"
      using at length_full_log [OF salt fs(1)] by (simp add: log_at_def)
    then have "length fs * ?szF \<le> k - WAL_HDRSIZE" using old by (simp add: walFrameOffset_def)
    moreover have "0 < ?szF" by (simp add: WAL_FRAME_HDRSIZE_def)
    ultimately show ?thesis by (simp add: less_eq_div_iff_mult_less_eq)
  qed simp
  then have "take ?K (fs @ padded n pgs m) = fs @ take (?K - length fs) (padded n pgs m)" by simp
  then have "committed (take ?K (fs @ padded n pgs m)) = (if ?K < length fs + length pgs then fs
      else fs @ padded n pgs (min (?K - length fs - length pgs) m))"
    using padded_cut [OF fs(2) pgs(1) tx(2), of "?K - length fs" m] \<open>length fs \<le> ?K\<close> by auto
  moreover have "recovers be' los sz v (committed (take ?K (fs @ padded n pgs m)))"
    by (rule full_log_cut [OF salt ok los(1) sz los(2)])
  ultimately show ?thesis by (intro exI [of _ "min (?K - length fs - length pgs) m"]) simp
qed

text \<open>C2: Whatever writes or syncs of sqlite3WalFrames fail, and wherever a crash then cuts the file
  behind its old end, recovery finds either exactly the transactions before or these and the
  complete new transaction, with the content of all pages\<close>

theorem commit_atomic:
  assumes "log_at os be sz c ckpt salt fs (pWal p)" "\<forall>f \<in> set fs. frame_ok sz f" "committed fs = fs"
    and "page_size_ok sz" "tx_ok sz pgs" "n \<noteq> 0" "appends os (pWal p)"
    and "sqlite3WalFrames be os sz pgs n True fl p = Some (rc, q)"
    and "recover_os los v" "length (pWalFd (pWal p)) \<le> k" "pWalFd v = take k (pWalFd (pWal q))"
  shows "\<exists>whole. recovers be' los sz v whole \<and> (whole = fs \<or> (\<exists>m. whole = fs @ padded n pgs m))"
proof -
  obtain m K where K: "pWalFd (pWal q) = take K (full_log sz c ckpt salt (fs @ padded n pgs m))" "length (pWalFd (pWal p)) \<le> K"
    using commit_written [OF assms(1,2,4,5,7), of n fl] assms(8) by auto
  have "pWalFd v = take (min k K) (full_log sz c ckpt salt (fs @ padded n pgs m))" using assms(11) K(1) by simp
  from commit_crash [OF assms(1-6) _ assms(9) this, of be'] K(2) assms(10) show ?thesis by (auto split: if_splits)
qed

text \<open>C5: When sqlite3WalFrames reports success for a commit with syncing, a crash that keeps what was
  synced cannot lose the transaction, whatever the sector size and the padding\<close>

theorem commit_durable:
  assumes "log_at os be sz c ckpt salt fs (pWal p)" "\<forall>f \<in> set fs. frame_ok sz f" "committed fs = fs"
    and "page_size_ok sz" "tx_ok sz pgs" "n \<noteq> 0" "appends os (pWal p)"
    and "sqlite3WalFrames be os sz pgs n True fl p = Some (SQLITE_OK, q)" "WAL_SYNC_FLAGS fl \<noteq> 0"
    and "recover_os los v" "length (synced q) \<le> k" "pWalFd v = take k (pWalFd (pWal q))"
  shows "\<exists>m. recovers be' los sz v (fs @ padded n pgs m)"
proof -
  have salt: "length salt = 8" using assms(1) by (simp add: log_at_def)
  obtain m k0 where K: "pWalFd (pWal q) = full_log sz c ckpt salt (fs @ padded n pgs m)"
    "length (full_log sz c ckpt salt (fs @ padded n pgs 0)) \<le> k0" "synced q = take k0 (full_log sz c ckpt salt (fs @ padded n pgs m))"
    using commit_written [OF assms(1,2,4,5,7), of n fl] assms(8,9) by auto
  have pgs: "pgs \<noteq> []" "\<forall>pg \<in> set pgs. fst pg \<noteq> 0 \<and> length (snd pg) = sz" using assms(5) by (simp_all add: tx_ok_def)
  have ok: "\<forall>f \<in> set (fs @ padded n pgs m). frame_ok sz f" for m using assms(2) padded_ok [OF pgs] by auto
  have len: "length (full_log sz c ckpt salt (fs @ padded n pgs m)) = walFrameOffset (length fs + length pgs + m + 1) sz" for m
    using length_full_log [OF salt ok [of m]] by (simp add: padded_def add.assoc)
  have "walFrameOffset (length fs + length pgs + 1) sz \<le> length (synced q)"
    using K(2,3) len [of 0] len [of m] by (simp add: walFrameOffset_def)
  then have k: "walFrameOffset (length fs + length pgs + 1) sz \<le> k" using assms(11) by simp
  have pos: "0 < sz + WAL_FRAME_HDRSIZE" by (simp add: WAL_FRAME_HDRSIZE_def)
  have "length fs + length pgs \<le> (k - WAL_HDRSIZE) div (sz + WAL_FRAME_HDRSIZE)"
    using k pos by (simp add: walFrameOffset_def less_eq_div_iff_mult_less_eq)
  moreover have "length (pWalFd (pWal p)) \<le> k"
  proof (cases "fs = []")
    case True
    then show ?thesis using assms(1) by (simp add: log_at_def)
  next
    case False
    then have "length (pWalFd (pWal p)) = walFrameOffset (length fs + 1) sz"
      using assms(1) length_full_log [OF salt assms(2)] by (simp add: log_at_def)
    also have "\<dots> \<le> walFrameOffset (length fs + length pgs + 1) sz" by (simp add: walFrameOffset_def)
    finally show ?thesis using k by simp
  qed
  ultimately show ?thesis
    using commit_crash [OF assms(1-6) _ assms(10), of k m be'] assms(12) K(1) by auto
qed


section \<open>An instance\<close>

text \<open>An empty log; the second write fails after 100 bytes, or nothing fails.\<close>

definition demo_read_os :: read_os where
  "demo_read_os = \<lparr>shm = \<lparr>file_os = demo_log_os, shared_rc = SQLITE_OK, map_rc = SQLITE_OK\<rparr>,
     others = (\<lambda>_ s. s), try_lock = (\<lambda>_ _ _ _. SQLITE_OK)\<rparr>"

definition demo_write_os :: "bool \<Rightarrow> write_os" where
  "demo_write_os fails = \<lparr>wr_read = demo_read_os, wr_rc = (\<lambda>k. if fails \<and> k = 1 then 778 else SQLITE_OK), wr_bytes = (\<lambda>_. 100),
     wr_sync_rc = (\<lambda>_. SQLITE_OK), wr_malloc = True, wr_stale = replicate 8 0, new_salt = demo_salt, next_salt = [1, 2, 3, 4],
     raw_sector = 4096, limit_size_rc = SQLITE_OK, limit_trunc_rc = SQLITE_OK\<rparr>"

definition demo_writer :: wal_writer where
  "demo_writer = \<lparr>pWal = (demo_log [])\<lparr>padToSectorBoundary := True\<rparr>, synced = [], iSyncPoint = 0, syncFlags = 0, wr_szPage = 0\<rparr>"

definition demo_tx :: "dirty list" where
  "demo_tx = [(1, replicate 512 7), (2, replicate 512 8)]"

lemma demo_commit_facts:
  "log_at (demo_write_os b) True 512 True 0 demo_salt [] (pWal demo_writer)"
  "tx_ok 512 demo_tx" "appends (demo_write_os b) (pWal demo_writer)" "page_size_ok 512" "healthy (demo_write_os False)"
  using demo_wal_facts new_wal_rep [of demo_wal]
  by (auto simp: log_at_def demo_writer_def demo_log_def demo_write_os_def demo_read_os_def demo_log_os_def tx_ok_def demo_tx_def
      appends_def page_size_ok_def healthy_def same_hdr_def new_wal_def demo_salt_def demo_wal_def)


lemma commit_atomic_witness:
  "\<exists>rc q whole. sqlite3WalFrames True (demo_write_os True) 512 demo_tx 9 True 2 demo_writer = Some (rc, q)
    \<and> recovers False demo_log_os 512 (demo_log (take 700 (pWalFd (pWal q)))) whole
    \<and> (whole = [] \<or> (\<exists>m. whole = [] @ padded 9 demo_tx m))"
proof -
  have fs: "\<forall>f \<in> set []. frame_ok 512 f" "committed [] = []" by simp_all
  have n: "(9 :: u32) \<noteq> 0" by simp
  obtain rc q where q: "sqlite3WalFrames True (demo_write_os True) 512 demo_tx 9 True 2 demo_writer = Some (rc, q)"
    using commit_written [OF demo_commit_facts(1) fs(1) demo_commit_facts(4,2,3), where n = 9 and fl = 2] by blast
  have old: "length (pWalFd (pWal demo_writer)) \<le> 700"
    and file': "pWalFd (demo_log (take 700 (pWalFd (pWal q)))) = take 700 (pWalFd (pWal q))"
    by (simp_all add: demo_writer_def demo_log_def)
  from commit_atomic [OF demo_commit_facts(1) fs demo_commit_facts(4,2) n demo_commit_facts(3) q demo_recover_facts(1) old file', of False]
  show ?thesis using q by blast
qed

lemma commit_durable_witness:
  "\<exists>q m. sqlite3WalFrames True (demo_write_os False) 512 demo_tx 9 True 2 demo_writer = Some (SQLITE_OK, q)
    \<and> recovers False demo_log_os 512 (demo_log (take (length (synced q)) (pWalFd (pWal q)))) ([] @ padded 9 demo_tx m)"
proof -
  have fs: "\<forall>f \<in> set []. frame_ok 512 f" "committed [] = []" by simp_all
  have n: "(9 :: u32) \<noteq> 0" "WAL_SYNC_FLAGS 2 \<noteq> 0" by (simp_all add: WAL_SYNC_FLAGS_def)
  obtain q where q: "sqlite3WalFrames True (demo_write_os False) 512 demo_tx 9 True 2 demo_writer = Some (SQLITE_OK, q)"
    using commit_written [OF demo_commit_facts(1) fs(1) demo_commit_facts(4,2,3), where n = 9 and fl = 2] demo_commit_facts(5) by blast
  have file': "pWalFd (demo_log (take (length (synced q)) (pWalFd (pWal q)))) = take (length (synced q)) (pWalFd (pWal q))"
    by (simp add: demo_log_def)
  from commit_durable [OF demo_commit_facts(1) fs demo_commit_facts(4,2) n(1) demo_commit_facts(3) q n(2) demo_recover_facts(1) order_refl file', of False]
  show ?thesis using q by blast
qed

end
