(* ===== verification/WalRewrite.thy ===== *)
theory WalRewrite
  imports WalCommit
begin

text \<open>
  Transactions that reach the log in several steps (\<open>sqlite3WalFrames\<close> without a commit, when the cache
  spills): frames are overwritten in place, from the first one on their checksums are wrong, and the
  commit computes them again (\<open>walRewriteChecksums\<close>).
\<close>

section \<open>Frames without checksums\<close>

text \<open>Bytes that carry frames, whatever stands in the places of salt and checksum.\<close>

fun carries :: "nat \<Rightarrow> u8 list \<Rightarrow> frame list \<Rightarrow> bool" where
  "carries sz bs [] \<longleftrightarrow> bs = []"
| "carries sz bs ((p, n, d) # fs) \<longleftrightarrow>
     (\<exists>ck b2. bs = sqlite3Put4byte p @ sqlite3Put4byte n @ ck @ d @ b2 \<and> length ck = 16 \<and> length d = sz \<and> carries sz b2 fs)"

lemma carries_append: "carries sz b1 fs \<Longrightarrow> carries sz b2 gs \<Longrightarrow> carries sz (b1 @ b2) (fs @ gs)"
proof (induction fs arbitrary: b1)
  case (Cons f fs)
  obtain p n d where f: "f = (p, n, d)" by (cases f)
  from Cons.prems(1) obtain ck b where
    b: "b1 = sqlite3Put4byte p @ sqlite3Put4byte n @ ck @ d @ b" "length ck = 16" "length d = sz" "carries sz b fs"
    by (auto simp: f)
  have "carries sz (b @ b2) (fs @ gs)" by (rule Cons.IH [OF b(4) Cons.prems(2)])
  then show ?case using b(2,3) by (simp add: f b(1)) blast
qed simp

lemma carries_split: "carries sz bs (fs @ gs) \<Longrightarrow> \<exists>b1 b2. bs = b1 @ b2 \<and> carries sz b1 fs \<and> carries sz b2 gs"
proof (induction fs arbitrary: bs)
  case (Cons f fs)
  obtain p n d where f: "f = (p, n, d)" by (cases f)
  from Cons.prems obtain ck b where
    b: "bs = sqlite3Put4byte p @ sqlite3Put4byte n @ ck @ d @ b" "length ck = 16" "length d = sz" "carries sz b (fs @ gs)"
    by (auto simp: f)
  obtain b1 b2 where b12: "b = b1 @ b2" "carries sz b1 fs" "carries sz b2 gs" using Cons.IH [OF b(4)] by blast
  have "carries sz (sqlite3Put4byte p @ sqlite3Put4byte n @ ck @ d @ b1) (f # fs)" using b(2,3) b12(2) by (simp add: f) blast
  then show ?case using b12 by (intro exI [of _ "sqlite3Put4byte p @ sqlite3Put4byte n @ ck @ d @ b1"] exI [of _ b2]) (simp add: b(1))
qed simp

lemma carries_length: "carries sz bs fs \<Longrightarrow> length bs = length fs * (sz + WAL_FRAME_HDRSIZE)"
  by (induction sz bs fs rule: carries.induct) (auto simp: WAL_FRAME_HDRSIZE_def)

lemma carries_frame: "length salt = 8 \<Longrightarrow> length d = sz \<Longrightarrow> carries sz (frame_bytes c salt s p n d) [(p, n, d)]"
  unfolding frame_bytes_def Let_def carries.simps
  by (rule exI [of _ "salt @ sqlite3Put4byte (fst (frame_cksum c p n d s)) @ sqlite3Put4byte (snd (frame_cksum c p n d s))"]) simp

lemma carries_plain: "length d = sz \<Longrightarrow> carries sz (plain_bytes p n d) [(p, n, d)]"
  by (simp add: plain_bytes_def)

lemma carries_chain: "length salt = 8 \<Longrightarrow> \<forall>f \<in> set fs. length (snd (snd f)) = sz \<Longrightarrow> carries sz (frames_bytes c salt s fs) fs"
proof (induction c salt s fs rule: frames_bytes.induct)
  case (2 c salt s p n d fs)
  then show ?case using carries_append [OF carries_frame, of salt d sz "frames_bytes c salt (frame_cksum c p n d s) fs" fs c s p n] by simp
qed simp

lemma write_at_shift: "write_at (H @ bs) (length H + x) d = H @ write_at bs x d"
  by (simp add: write_at_def add.assoc)

text \<open>The frame \<open>i\<close> with another content.\<close>

definition replaced :: "nat \<Rightarrow> u8 list \<Rightarrow> frame list \<Rightarrow> frame list" where
  "replaced i d fs = fs[i := (fst (fs ! i), fst (snd (fs ! i)), d)]"

lemma carries_overwrite:
  "carries sz bs fs \<Longrightarrow> i < length fs \<Longrightarrow> length d = sz \<Longrightarrow>
   carries sz (write_at bs (i * (sz + WAL_FRAME_HDRSIZE) + WAL_FRAME_HDRSIZE) d) (replaced i d fs)"
proof (induction fs arbitrary: bs i)
  case (Cons f fs)
  obtain p n d0 where f: "f = (p, n, d0)" by (cases f)
  from Cons.prems(1) obtain ck b where
    b: "bs = sqlite3Put4byte p @ sqlite3Put4byte n @ ck @ d0 @ b" "length ck = 16" "length d0 = sz" "carries sz b fs"
    by (auto simp: f)
  let ?h = "sqlite3Put4byte p @ sqlite3Put4byte n @ ck"
  show ?case
  proof (cases i)
    case 0
    have "write_at (?h @ d0 @ b) (length ?h) d = ?h @ d @ drop (length d) (d0 @ b)" by (rule write_at_append)
    then have "write_at bs WAL_FRAME_HDRSIZE d = sqlite3Put4byte p @ sqlite3Put4byte n @ ck @ d @ b"
      using b(2,3) Cons.prems(3) by (simp add: b(1) WAL_FRAME_HDRSIZE_def)
    then show ?thesis using b(2,4) Cons.prems(3) by (simp add: 0 f replaced_def) blast
  next
    case (Suc j)
    let ?X = "?h @ d0"
    have len: "length ?X = sz + WAL_FRAME_HDRSIZE" using b(2,3) by (simp add: WAL_FRAME_HDRSIZE_def)
    have "carries sz (write_at b (j * (sz + WAL_FRAME_HDRSIZE) + WAL_FRAME_HDRSIZE) d) (replaced j d fs)"
      using Cons.IH [OF b(4)] Cons.prems(2,3) Suc by simp
    moreover have "write_at bs (i * (sz + WAL_FRAME_HDRSIZE) + WAL_FRAME_HDRSIZE) d
        = ?X @ write_at b (j * (sz + WAL_FRAME_HDRSIZE) + WAL_FRAME_HDRSIZE) d"
    proof -
      have "i * (sz + WAL_FRAME_HDRSIZE) + WAL_FRAME_HDRSIZE = length ?X + (j * (sz + WAL_FRAME_HDRSIZE) + WAL_FRAME_HDRSIZE)"
        by (simp only: len Suc mult_Suc add.assoc)
      then show ?thesis using write_at_shift [of ?X b] by (simp only: b(1) append_assoc)
    qed
    moreover have "replaced i d (f # fs) = f # replaced j d fs" by (simp add: replaced_def Suc)
    ultimately show ?thesis using b(2,3) by (simp add: f) blast
  qed
qed simp

text \<open>The checksums of the first \<open>k\<close> frames are right.\<close>

definition chain :: "bool \<Rightarrow> u8 list \<Rightarrow> nat \<Rightarrow> u32 \<times> u32 \<Rightarrow> nat \<Rightarrow> u8 list \<Rightarrow> frame list \<Rightarrow> bool" where
  "chain c salt sz s k bs fs \<longleftrightarrow> k \<le> length fs \<and> (\<forall>f \<in> set fs. length (snd (snd f)) = sz)
     \<and> (\<exists>b2. bs = frames_bytes c salt s (take k fs) @ b2 \<and> carries sz b2 (drop k fs))"

lemma chain_all: "chain c salt sz s (length fs) bs fs \<longleftrightarrow>
    (\<forall>f \<in> set fs. length (snd (snd f)) = sz) \<and> bs = frames_bytes c salt s fs"
  by (auto simp: chain_def)

lemma chain_length: "length salt = 8 \<Longrightarrow> chain c salt sz s k bs fs \<Longrightarrow> length bs = length fs * (sz + WAL_FRAME_HDRSIZE)"
proof -
  assume salt: "length salt = 8" and ch: "chain c salt sz s k bs fs"
  then obtain b2 where b: "bs = frames_bytes c salt s (take k fs) @ b2" "carries sz b2 (drop k fs)" "k \<le> length fs"
    and d: "\<forall>f \<in> set fs. length (snd (snd f)) = sz" by (auto simp: chain_def)
  have "\<forall>f \<in> set (take k fs). length (snd (snd f)) = sz" using d by (meson in_set_takeD)
  from length_frames_data [OF salt this] carries_length [OF b(2)] b(3) show ?thesis
    by (simp add: b(1) flip: distrib_right)
qed

lemma chain_less:
  assumes ch: "chain c salt sz s k bs fs" and j: "j \<le> k" and salt: "length salt = 8"
  shows "chain c salt sz s j bs fs"
proof -
  obtain b2 where b: "bs = frames_bytes c salt s (take k fs) @ b2" "carries sz b2 (drop k fs)" "k \<le> length fs"
    and d: "\<forall>f \<in> set fs. length (snd (snd f)) = sz" using ch by (auto simp: chain_def)
  let ?g = "take (k - j) (drop j fs)"
  have t: "take k fs = take j fs @ ?g" using j by (metis le_add_diff_inverse take_add)
  have "\<forall>f \<in> set ?g. length (snd (snd f)) = sz" using d by (meson in_set_dropD in_set_takeD)
  then have "carries sz (frames_bytes c salt (frames_cksum c s (take j fs)) ?g @ b2) (?g @ drop k fs)"
    by (intro carries_append carries_chain salt b(2))
  moreover have "?g @ drop k fs = drop j fs" using j by (metis append_take_drop_id drop_drop le_add_diff_inverse2)
  ultimately have "carries sz (frames_bytes c salt (frames_cksum c s (take j fs)) ?g @ b2) (drop j fs)" by simp
  then show ?thesis using d j b(3)
    by (auto simp: chain_def b(1) t frames_bytes_append intro!: exI [of _ "frames_bytes c salt (frames_cksum c s (take j fs)) ?g @ b2"])
qed

lemma chain_extend:
  assumes ch: "chain c salt sz s k bs fs" and f: "carries sz b [f]" "length (snd (snd f)) = sz"
  shows "chain c salt sz s k (bs @ b) (fs @ [f])"
proof -
  obtain b2 where b2: "bs = frames_bytes c salt s (take k fs) @ b2" "carries sz b2 (drop k fs)" "k \<le> length fs"
    using ch by (auto simp: chain_def)
  have "carries sz (b2 @ b) (drop k fs @ [f])" by (rule carries_append [OF b2(2) f(1)])
  then show ?thesis using ch f(2) b2(3) by (auto simp: chain_def b2(1) intro!: exI [of _ "b2 @ b"])
qed

lemma chain_overwrite:
  assumes ch: "chain c salt sz s k bs fs" and i: "k \<le> i" "i < length fs" and d: "length d = sz" and salt: "length salt = 8"
  shows "chain c salt sz s k (write_at bs (i * (sz + WAL_FRAME_HDRSIZE) + WAL_FRAME_HDRSIZE) d) (replaced i d fs)"
proof -
  obtain b2 where b: "bs = frames_bytes c salt s (take k fs) @ b2" "carries sz b2 (drop k fs)" "k \<le> length fs"
    and ds: "\<forall>f \<in> set fs. length (snd (snd f)) = sz" using ch by (auto simp: chain_def)
  have "\<forall>f \<in> set (take k fs). length (snd (snd f)) = sz" using ds by (meson in_set_takeD)
  from length_frames_data [OF salt this] b(3)
  have len: "length (frames_bytes c salt s (take k fs)) = k * (sz + WAL_FRAME_HDRSIZE)" by simp
  obtain j where j: "i = k + j" using i(1) by (metis le_add_diff_inverse)
  have "carries sz (write_at b2 (j * (sz + WAL_FRAME_HDRSIZE) + WAL_FRAME_HDRSIZE) d) (replaced j d (drop k fs))"
    using i(2) j d by (intro carries_overwrite [OF b(2)]) simp_all
  moreover have "replaced j d (drop k fs) = drop k (replaced i d fs)" using i(2) j by (simp add: replaced_def drop_update_swap)
  moreover have "take k (replaced i d fs) = take k fs" using j by (simp add: replaced_def)
  moreover have "write_at bs (i * (sz + WAL_FRAME_HDRSIZE) + WAL_FRAME_HDRSIZE) d
      = frames_bytes c salt s (take k fs) @ write_at b2 (j * (sz + WAL_FRAME_HDRSIZE) + WAL_FRAME_HDRSIZE) d"
    using write_at_shift [of "frames_bytes c salt s (take k fs)" b2 "j * (sz + WAL_FRAME_HDRSIZE) + WAL_FRAME_HDRSIZE" d]
    by (simp add: b(1) len j distrib_right add.assoc)
  moreover have "\<forall>f \<in> set (replaced i d fs). length (snd (snd f)) = sz"
    using ds d set_update_subset_insert [of fs i "(fst (fs ! i), fst (snd (fs ! i)), d)"] by (auto simp: replaced_def)
  ultimately show ?thesis using b(3) by (simp add: chain_def replaced_def)
qed


section \<open>Writing a part of a transaction\<close>

text \<open>The file has the frames \<open>fs\<close>; from \<open>iReCksum\<close> on, if it is not 0, the checksums are to be
  computed again.\<close>

definition valid_frames :: "wal_log \<Rightarrow> frame list \<Rightarrow> nat" where
  "valid_frames w fs = (if iReCksum w = 0 then length fs else iReCksum w - 1)"

definition tx_inv :: "bool \<Rightarrow> u8 list \<Rightarrow> nat \<Rightarrow> u8 list \<Rightarrow> u32 \<times> u32 \<Rightarrow> frame list \<Rightarrow> wal_writer \<Rightarrow> bool" where
  "tx_inv c salt sz H s fs p \<longleftrightarrow> szPage (pWal p) = sz \<and> wr_szPage p = sz \<and> aSalt (hdr (pWal p)) = salt \<and> length salt = 8
     \<and> bigEndCksum (hdr (pWal p)) = c \<and> length H = WAL_HDRSIZE \<and> iReCksum (pWal p) \<le> length fs
     \<and> (iReCksum (pWal p) = 0 \<longrightarrow> aFrameCksum (hdr (pWal p)) = frames_cksum c s fs)
     \<and> (\<exists>bs. pWalFd (pWal p) = H @ bs \<and> chain c salt sz s (valid_frames (pWal p) fs) bs fs)"

definition kept :: "wal_writer \<Rightarrow> wal_writer \<Rightarrow> bool" where
  "kept p q \<longleftrightarrow> same_view (index (pWal p)) (index (pWal q)) \<and> iSyncPoint q = iSyncPoint p \<and> syncFlags q = syncFlags p"

lemma kept_refl: "kept p p"
  by (simp add: kept_def same_view_refl)

lemma kept_trans: "kept p q \<Longrightarrow> kept q r \<Longrightarrow> kept p r"
  by (auto simp: kept_def intro: same_view_trans)

lemma kept_writes: "writes X off p rc q \<Longrightarrow> kept p q"
  using writes_fields [of X off p rc q] by (simp add: kept_def touched_fields same_view_refl)

lemma tx_index: "tx_inv c salt sz H s fs p \<Longrightarrow> tx_inv c salt sz H s fs (p\<lparr>pWal := (pWal p)\<lparr>index := ix\<rparr>\<rparr>)"
proof -
  have "valid_frames ((pWal p)\<lparr>index := ix\<rparr>) fs = valid_frames (pWal p) fs" by (simp add: valid_frames_def)
  then show "tx_inv c salt sz H s fs p \<Longrightarrow> ?thesis" by (simp add: tx_inv_def)
qed

lemma tx_length: "tx_inv c salt sz H s fs p \<Longrightarrow> length (pWalFd (pWal p)) = walFrameOffset (length fs + 1) sz"
proof -
  assume tx: "tx_inv c salt sz H s fs p"
  then obtain bs where "pWalFd (pWal p) = H @ bs" "chain c salt sz s (valid_frames (pWal p) fs) bs fs" by (auto simp: tx_inv_def)
  moreover have "length salt = 8" "length H = WAL_HDRSIZE" using tx by (simp_all add: tx_inv_def)
  ultimately show ?thesis using chain_length by (simp add: walFrameOffset_def)
qed

lemma tx_append:
  assumes tx: "tx_inv c salt sz H s fs p" and d: "length d = sz"
  shows "\<exists>rc q. walWriteOneFrame be os p (pg, d) n (length (pWalFd (pWal p))) = Some (rc, q) \<and> kept p q
    \<and> (rc = SQLITE_OK \<longrightarrow> tx_inv c salt sz H s (fs @ [(pg, n, d)]) q)"
proof -
  obtain bs where bs: "pWalFd (pWal p) = H @ bs" "chain c salt sz s (valid_frames (pWal p) fs) bs fs"
    and F: "szPage (pWal p) = sz" "wr_szPage p = sz" "aSalt (hdr (pWal p)) = salt" "length salt = 8" "bigEndCksum (hdr (pWal p)) = c"
      "length H = WAL_HDRSIZE" "iReCksum (pWal p) \<le> length fs"
      "iReCksum (pWal p) = 0 \<longrightarrow> aFrameCksum (hdr (pWal p)) = frames_cksum c s fs" using tx by (auto simp: tx_inv_def)
  let ?off = "length (pWalFd (pWal p))" and ?f = "(pg, n, d)"
  have a: "length d = wr_szPage p" "szPage (pWal p) = wr_szPage p" "length (aSalt (hdr (pWal p))) = 8"
    using d F by simp_all
  from walWriteOneFrame_writes [OF a, of be os pg n ?off] obtain rc q where
    q: "walWriteOneFrame be os p (pg, d) n ?off = Some (rc, q)" "writes (encoded p pg n d) ?off p rc q"
      "aFrameCksum (hdr (pWal q)) = (if iReCksum (pWal p) = 0
        then frame_cksum (bigEndCksum (hdr (pWal p))) pg n d (aFrameCksum (hdr (pWal p))) else aFrameCksum (hdr (pWal p)))"
    by blast
  note t = writes_fields [OF q(2)]
  note f = touched_fields [OF t(4)]
  have "tx_inv c salt sz H s (fs @ [?f]) q" if rc: "rc = SQLITE_OK"
  proof -
    have fd: "pWalFd (pWal q) = H @ bs @ encoded p pg n d"
      using writes_file [OF q(2)] rc write_at_end [of "H @ bs"] by (auto simp: bs(1))
    have "chain c salt sz s (valid_frames (pWal q) (fs @ [?f])) (bs @ encoded p pg n d) (fs @ [?f])"
    proof (cases "iReCksum (pWal p) = 0")
      case True
      then have "chain c salt sz s (length fs) bs fs" using bs(2) by (simp add: valid_frames_def)
      then have "bs = frames_bytes c salt s fs" "\<forall>f \<in> set fs. length (snd (snd f)) = sz" by (simp_all add: chain_all)
      then show ?thesis using True F d
        by (simp add: valid_frames_def f chain_all [of _ _ _ _ "fs @ [?f]", simplified] encoded_def Let_def frames_bytes_append)
    next
      case False
      then have "encoded p pg n d = plain_bytes pg n d" by (simp add: encoded_def)
      moreover have "valid_frames (pWal q) (fs @ [?f]) = valid_frames (pWal p) fs" using False by (simp add: valid_frames_def f)
      ultimately show ?thesis using chain_extend [OF bs(2) carries_plain [OF d, of pg n]] d by simp
    qed
    then show ?thesis using F q(3) t(3) fd by (auto simp: tx_inv_def f frames_cksum_append)
  qed
  then show ?thesis using q(1) kept_writes [OF q(2)] by blast
qed

lemma tx_overwrite:
  assumes tx: "tx_inv c salt sz H s fs p" and d: "length d = sz" and i: "0 < i" "i \<le> length fs"
    and w: "w = (if iReCksum (pWal p) = 0 \<or> i < iReCksum (pWal p) then (pWal p)\<lparr>iReCksum := i\<rparr> else pWal p)"
    and run: "osWrite os (p\<lparr>pWal := w\<rparr>) d (walFrameOffset i sz + WAL_FRAME_HDRSIZE) = (rc, q)" and sp: "iSyncPoint p = 0"
  shows "kept p q \<and> (rc = SQLITE_OK \<longrightarrow> tx_inv c salt sz H s (replaced (i - 1) d fs) q)"
proof -
  obtain bs where bs: "pWalFd (pWal p) = H @ bs" "chain c salt sz s (valid_frames (pWal p) fs) bs fs"
    and F: "szPage (pWal p) = sz" "wr_szPage p = sz" "aSalt (hdr (pWal p)) = salt" "length salt = 8" "bigEndCksum (hdr (pWal p)) = c"
      "length H = WAL_HDRSIZE" "iReCksum (pWal p) \<le> length fs" using tx by (auto simp: tx_inv_def)
  have wr: "writes d (walFrameOffset i sz + WAL_FRAME_HDRSIZE) (p\<lparr>pWal := w\<rparr>) rc q"
    using sp by (intro osWrite_one [OF run]) simp
  note t = writes_fields [OF wr]
  note f = touched_fields [OF t(4)]
  have w': "index w = index (pWal p)" "pWalFd w = pWalFd (pWal p)" "szPage w = szPage (pWal p)" "hdr w = hdr (pWal p)"
    "iReCksum w \<noteq> 0" "iReCksum w \<le> i" "valid_frames w fs \<le> valid_frames (pWal p) fs" "iReCksum w \<le> length fs"
    using i F(7) by (auto simp: w valid_frames_def)
  have "tx_inv c salt sz H s (replaced (i - 1) d fs) q" if rc: "rc = SQLITE_OK"
  proof -
    have off: "walFrameOffset i sz + WAL_FRAME_HDRSIZE = length H + ((i - 1) * (sz + WAL_FRAME_HDRSIZE) + WAL_FRAME_HDRSIZE)"
      by (simp add: walFrameOffset_def F(6))
    have fd: "pWalFd (pWal q) = H @ write_at bs ((i - 1) * (sz + WAL_FRAME_HDRSIZE) + WAL_FRAME_HDRSIZE) d"
      using writes_file [OF wr] rc by (auto simp: w'(2) bs(1) off write_at_shift)
    have "chain c salt sz s (valid_frames w fs) bs fs" by (rule chain_less [OF bs(2) w'(7) F(4)])
    then have "chain c salt sz s (valid_frames w fs) (write_at bs ((i - 1) * (sz + WAL_FRAME_HDRSIZE) + WAL_FRAME_HDRSIZE) d) (replaced (i - 1) d fs)"
      using i w'(5,6) by (intro chain_overwrite F(4) d) (auto simp: valid_frames_def)
    moreover have "valid_frames (pWal q) (replaced (i - 1) d fs) = valid_frames w fs" using w'(5) by (simp add: valid_frames_def f)
    ultimately show ?thesis using F t(3) fd w' by (auto simp: tx_inv_def f replaced_def)
  qed
  moreover have "kept p q" using kept_writes [OF wr] by (simp add: kept_def w'(1))
  ultimately show ?thesis by blast
qed

text \<open>The specification: a page that the transaction has in the log replaces the content of its last
  frame, other pages are appended, and so is the last page of a commit.\<close>

fun tx_write :: "(u32 \<Rightarrow> nat) \<Rightarrow> nat \<Rightarrow> u32 \<Rightarrow> bool \<Rightarrow> dirty list \<Rightarrow> frame list \<Rightarrow> frame list" where
  "tx_write look iFirst n c [] fs = fs"
| "tx_write look iFirst n c (pg # pgs) fs =
     (if (pgs \<noteq> [] \<or> \<not> c) \<and> iFirst \<le> look (fst pg) then tx_write look iFirst n c pgs (replaced (look (fst pg) - 1) (snd pg) fs)
      else tx_write look iFirst n c pgs (fs @ [(fst pg, if c \<and> pgs = [] then n else 0, snd pg)]))"

lemma replaced_pages: "map fst (replaced i d fs) = map fst fs"
proof -
  have "map fst (replaced i d fs) = (map fst fs)[i := fst (fs ! i)]" by (simp add: replaced_def map_update)
  also have "\<dots> = map fst fs"
  proof (cases "i < length fs")
    case True
    then have "fst (fs ! i) = map fst fs ! i" by simp
    then show ?thesis by (simp only: list_update_id)
  qed (simp add: list_update_beyond)
  finally show ?thesis .
qed

lemma length_replaced [simp]: "length (replaced i d fs) = length fs"
  by (simp add: replaced_def)

lemma wal_rep_view: "same_view w w' \<Longrightarrow> wal_rep w l \<Longrightarrow> wal_rep w' l"
proof -
  assume v: "same_view w w'" and rep: "wal_rep w l"
  have "index_rep w' L = index_rep w L" for L using same_view_table [OF v] by (simp add: index_rep_def)
  then show ?thesis using rep v by (cases l) (simp add: wal_rep_def same_view_def)
qed

lemma wal_rep_finds:
  assumes "wal_rep w (C, T)" "grants os w" "readLock w \<noteq> 0"
  shows "\<exists>w'. sqlite3WalFindFrame os w p = Some ((SQLITE_OK, latest (C @ T) (minFrame w) (length (C @ T)) p), w') \<and> same_view w w'"
proof -
  obtain R where "index_rep w ((C @ T) @ R)" "mxFrame w = length (C @ T)" using assms(1) by (auto simp: wal_rep_def)
  from find_frame [OF this assms(2,3)] show ?thesis .
qed


lemma latest_le: "latest L mn mx p \<le> mx"
  by (rule latest_cases [of L mn mx p]) simp_all

lemma write_frames_tx:
  assumes tx: "tx_inv c salt sz H s fs p" and sp: "iSyncPoint p = 0" and iFirst: "iFirst \<noteq> 0"
    and rep: "wal_rep (index (pWal p)) (C, T)" and g: "grants (index_os (file_os (shm (wr_read os)))) (index (pWal p))"
    and rd: "readLock (index (pWal p)) \<noteq> 0" and len: "length (C @ T) \<le> length fs"
    and look: "look = latest (C @ T) (minFrame (index (pWal p))) (length (C @ T))"
    and pgs: "\<forall>pg \<in> set pgs. length (snd pg) = sz"
  shows "\<exists>rc app iF iO q. write_frames be os iFirst n cm pgs (length fs) (length (pWalFd (pWal p))) p = Some (rc, app, iF, iO, q)
    \<and> kept p q \<and> (rc = SQLITE_OK \<longrightarrow> (let fs' = tx_write look iFirst n cm pgs fs in
         tx_inv c salt sz H s fs' q \<and> iF = length fs' \<and> iO = length (pWalFd (pWal q))
       \<and> map fst fs' = map fst fs @ map fst app \<and> set app \<subseteq> set pgs
       \<and> (cm \<and> pgs \<noteq> [] \<longrightarrow> app \<noteq> [] \<and> last app = last pgs \<and> last fs' = (fst (last pgs), n, snd (last pgs)))))"
  using assms
proof (induction pgs arbitrary: fs p)
  case Nil
  then show ?case by (simp add: kept_refl Let_def)
next
  case (Cons pg pgs)
  let ?ios = "index_os (file_os (shm (wr_read os)))" and ?off = "length (pWalFd (pWal p))"
  let ?ask = "pgs \<noteq> [] \<or> \<not> cm" and ?i = "look (fst pg)"
  have sz: "wr_szPage p = sz" and d: "length (snd pg) = sz" "\<forall>pg \<in> set pgs. length (snd pg) = sz"
    using Cons.prems(1,9) by (simp_all add: tx_inv_def)
  obtain ix where ix: "sqlite3WalFindFrame ?ios (index (pWal p)) (fst pg) = Some ((SQLITE_OK, ?i), ix)" "same_view (index (pWal p)) ix"
    using wal_rep_finds [OF Cons.prems(4,5,6), of "fst pg"] by (auto simp: Cons.prems(8))
  define p1 where "p1 = (if ?ask then p\<lparr>pWal := (pWal p)\<lparr>index := ix\<rparr>\<rparr> else p)"
  have k1: "kept p p1" using ix(2) by (simp add: p1_def kept_def same_view_refl)
  have tx1: "tx_inv c salt sz H s fs p1" "pWalFd (pWal p1) = pWalFd (pWal p)" "iSyncPoint p1 = 0" "wr_szPage p1 = sz"
    using Cons.prems(2) sz tx_index [OF Cons.prems(1), of ix] Cons.prems(1) by (simp_all only: p1_def split: if_split) simp_all
  have asked: "(if iFirst \<noteq> 0 \<and> ?ask then do {
          ((rc, iWrite), ix) \<leftarrow> sqlite3WalFindFrame ?ios (index (pWal p)) (fst pg);
          Some (iWrite, p\<lparr>pWal := (pWal p)\<lparr>index := ix\<rparr>\<rparr>)
        }
        else Some (0, p)) = Some (if ?ask then ?i else 0, p1)"
  proof (cases ?ask)
    case True
    then have "iFirst \<noteq> 0 \<and> ?ask" using Cons.prems(3) by blast
    then show ?thesis unfolding p1_def if_P [OF True] by (simp only: if_True simp_thms not_False_eq_True ix(1) Option.bind.simps prod.case)
  next
    case False
    then show ?thesis unfolding p1_def if_not_P [OF False] by (simp only: simp_thms if_False)
  qed
  text \<open>The rest of the loop from a state that keeps the index.\<close>
  have rest: "\<exists>rc app iF iO q. write_frames be os iFirst n cm pgs (length fs1) (length (pWalFd (pWal q1))) q1 = Some (rc, app, iF, iO, q)
      \<and> kept p q \<and> (rc = SQLITE_OK \<longrightarrow> (let fs' = tx_write look iFirst n cm pgs fs1 in
           tx_inv c salt sz H s fs' q \<and> iF = length fs' \<and> iO = length (pWalFd (pWal q))
         \<and> map fst fs' = map fst fs1 @ map fst app \<and> set app \<subseteq> set pgs
         \<and> (cm \<and> pgs \<noteq> [] \<longrightarrow> app \<noteq> [] \<and> last app = last pgs \<and> last fs' = (fst (last pgs), n, snd (last pgs)))))"
    if q1: "kept p q1" "tx_inv c salt sz H s fs1 q1" "length fs \<le> length fs1" for q1 fs1
  proof -
    have v: "same_view (index (pWal p)) (index (pWal q1))" using q1(1) by (simp add: kept_def)
    have i: "iSyncPoint q1 = 0" "wal_rep (index (pWal q1)) (C, T)" "grants ?ios (index (pWal q1))"
      "readLock (index (pWal q1)) \<noteq> 0" "length (C @ T) \<le> length fs1"
      "look = latest (C @ T) (minFrame (index (pWal q1))) (length (C @ T))"
      using q1 Cons.prems(2,4-8) wal_rep_view [OF v] same_view_grants [OF v] v by (simp_all add: kept_def same_view_def)
    from Cons.IH [OF q1(2) i(1) Cons.prems(3) i(2-6) d(2)] show ?thesis using kept_trans [OF q1(1)] by blast
  qed
  show ?case
  proof (cases "?ask \<and> iFirst \<le> ?i")
    case True
    define w where "w = (if iReCksum (pWal p1) = 0 \<or> ?i < iReCksum (pWal p1) then (pWal p1)\<lparr>iReCksum := ?i\<rparr> else pWal p1)"
    obtain rc1 q1 where o: "osWrite os (p1\<lparr>pWal := w\<rparr>) (snd pg) (walFrameOffset ?i sz + WAL_FRAME_HDRSIZE) = (rc1, q1)"
      by (metis prod.exhaust)
    have i: "0 < ?i" "?i \<le> length fs" using True Cons.prems(3,7) latest_le [of "C @ T"] by (auto simp: Cons.prems(8) intro: order_trans)
    note 1 = tx_overwrite [OF tx1(1) d(1) i w_def o tx1(3)]
    have kq: "kept p q1" using k1 1 kept_trans by blast
    have run: "write_frames be os iFirst n cm (pg # pgs) (length fs) ?off p =
        (if rc1 \<noteq> SQLITE_OK then Some (rc1, [], length fs, ?off, q1) else write_frames be os iFirst n cm pgs (length fs) ?off q1)"
      using True Cons.prems(3) o d(1) tx1(4) unfolding write_frames.simps asked by (simp add: Let_def flip: w_def)
    show ?thesis
    proof (cases "rc1 = SQLITE_OK")
      case False
      then show ?thesis using run kq by simp
    next
      case ok: True
      have tx2: "tx_inv c salt sz H s (replaced (?i - 1) (snd pg) fs) q1" using 1 ok by blast
      have "length (pWalFd (pWal q1)) = ?off" using tx_length [OF tx2] tx_length [OF Cons.prems(1)] by simp
      moreover have "tx_write look iFirst n cm (pg # pgs) fs = tx_write look iFirst n cm pgs (replaced (?i - 1) (snd pg) fs)"
        using True by simp
      ultimately show ?thesis using rest [OF kq tx2] run ok True by (auto simp: replaced_pages Let_def)
    qed
  next
    case False
    let ?n = "if cm \<and> pgs = [] then n else 0"
    from tx_append [OF tx1(1) d(1), of be os "fst pg" ?n] obtain rc1 q1 where
      1: "walWriteOneFrame be os p1 pg ?n ?off = Some (rc1, q1)" "kept p1 q1"
        "rc1 = SQLITE_OK \<longrightarrow> tx_inv c salt sz H s (fs @ [(fst pg, ?n, snd pg)]) q1"
      by (auto simp: tx1(2))
    have kq: "kept p q1" using k1 1(2) kept_trans by blast
    have nf: "\<not> (iFirst \<noteq> 0 \<and> iFirst \<le> (if ?ask then ?i else 0))" using False Cons.prems(3) by auto
    have step: "write_frames be os iFirst n cm (pg # pgs) (length fs) ?off p =
        (if rc1 \<noteq> SQLITE_OK then Some (rc1, [], length fs + 1, ?off, q1)
         else do {
           (rc, app, iFrame, iOffset, p) \<leftarrow>
             write_frames be os iFirst n cm pgs (length fs + 1) (?off + wr_szPage q1 + WAL_FRAME_HDRSIZE) q1;
           Some (rc, pg # app, iFrame, iOffset, p)
         })"
      unfolding write_frames.simps asked Option.bind.simps prod.case if_not_P [OF nf] 1(1) by (rule refl)
    show ?thesis
    proof (cases "rc1 = SQLITE_OK")
      case bad: False
      then have "write_frames be os iFirst n cm (pg # pgs) (length fs) ?off p = Some (rc1, [], length fs + 1, ?off, q1)"
        unfolding step by simp
      then show ?thesis using bad kq by simp
    next
      case ok: True
      let ?fs = "fs @ [(fst pg, ?n, snd pg)]"
      have tx2: "tx_inv c salt sz H s ?fs q1" using 1(3) ok by blast
      have "length (pWalFd (pWal q1)) = ?off + wr_szPage q1 + WAL_FRAME_HDRSIZE"
        using tx_length [OF tx2] tx_length [OF Cons.prems(1)] tx2 walFrameOffset_add [of "length fs" 1 sz] by (simp add: tx_inv_def)
      then have off: "?off + wr_szPage q1 + WAL_FRAME_HDRSIZE = length (pWalFd (pWal q1))" by simp
      obtain rc app iF iO q where
        2: "write_frames be os iFirst n cm pgs (length ?fs) (length (pWalFd (pWal q1))) q1 = Some (rc, app, iF, iO, q)" "kept p q"
          "rc = SQLITE_OK \<longrightarrow> (let fs' = tx_write look iFirst n cm pgs ?fs in
           tx_inv c salt sz H s fs' q \<and> iF = length fs' \<and> iO = length (pWalFd (pWal q))
         \<and> map fst fs' = map fst ?fs @ map fst app \<and> set app \<subseteq> set pgs
         \<and> (cm \<and> pgs \<noteq> [] \<longrightarrow> app \<noteq> [] \<and> last app = last pgs \<and> last fs' = (fst (last pgs), n, snd (last pgs))))"
        using rest [OF kq tx2] by auto
      have len1: "length fs + 1 = length ?fs" by simp
      have run: "write_frames be os iFirst n cm (pg # pgs) (length fs) ?off p = Some (rc, pg # app, iF, iO, q)"
        using ok unfolding step off len1 2(1) by simp
      have spec: "tx_write look iFirst n cm (pg # pgs) fs = tx_write look iFirst n cm pgs ?fs" using False by auto
      have last: "pgs = [] \<and> cm \<Longrightarrow> rc = SQLITE_OK \<Longrightarrow> app = []" using 2(1) by simp
      show ?thesis
      proof (intro exI conjI, rule run, rule 2(2), intro impI)
        assume rc: "rc = SQLITE_OK"
        then show "let fs' = tx_write look iFirst n cm (pg # pgs) fs in
           tx_inv c salt sz H s fs' q \<and> iF = length fs' \<and> iO = length (pWalFd (pWal q))
         \<and> map fst fs' = map fst fs @ map fst (pg # app) \<and> set (pg # app) \<subseteq> set (pg # pgs)
         \<and> (cm \<and> pg # pgs \<noteq> [] \<longrightarrow> pg # app \<noteq> [] \<and> last (pg # app) = last (pg # pgs)
              \<and> last fs' = (fst (last (pg # pgs)), n, snd (last (pg # pgs))))"
          using 2(3) last unfolding spec Let_def by (cases "pgs = []") auto
      qed
    qed
  qed
qed


section \<open>Computing the checksums again\<close>

definition reads_ok :: "write_os \<Rightarrow> bool" where
  "reads_ok os \<longleftrightarrow> wr_malloc os \<and> (\<forall>i. read_rc (file_os (shm (wr_read os))) i = SQLITE_OK)"

lemma osRead_cases:
  obtains (fail) rc where "osRead os w n off = (rc, None)" "rc \<noteq> SQLITE_OK"
    "\<not> reads_ok os \<or> length (pWalFd w) < off + n"
  | (ok) "osRead os w n off = (SQLITE_OK, Some (take n (drop off (pWalFd w))))" "off + n \<le> length (pWalFd w)"
  by (cases "read_rc (file_os (shm (wr_read os))) off = SQLITE_OK"; cases "length (pWalFd w) < off + n")
    (auto simp: osRead_def reads_ok_def)

text \<open>The state before frame \<open>i + 1\<close> is encoded again.\<close>

definition re_inv :: "bool \<Rightarrow> u8 list \<Rightarrow> nat \<Rightarrow> u8 list \<Rightarrow> u32 \<times> u32 \<Rightarrow> frame list \<Rightarrow> nat \<Rightarrow> wal_writer \<Rightarrow> bool" where
  "re_inv c salt sz H s fs i p \<longleftrightarrow> szPage (pWal p) = sz \<and> wr_szPage p = sz \<and> aSalt (hdr (pWal p)) = salt \<and> length salt = 8
     \<and> bigEndCksum (hdr (pWal p)) = c \<and> length H = WAL_HDRSIZE \<and> iReCksum (pWal p) = 0 \<and> iSyncPoint p = 0
     \<and> aFrameCksum (hdr (pWal p)) = frames_cksum c s (take i fs)
     \<and> (\<exists>bs. pWalFd (pWal p) = H @ bs \<and> chain c salt sz s i bs fs)"

lemma re_inv_done: "re_inv c salt sz H s fs (length fs) p \<Longrightarrow> tx_inv c salt sz H s fs p"
  by (simp add: re_inv_def tx_inv_def valid_frames_def)

lemma recksum_step:
  assumes inv: "re_inv c salt sz H s fs i p" and i: "i < length fs"
  shows "\<exists>rc q. (recksum_loop be os (i + 1) (length fs) p = Some (rc, q) \<and> rc \<noteq> SQLITE_OK \<and> \<not> (healthy os \<and> reads_ok os) \<and> kept p q)
    \<or> (recksum_loop be os (i + 1) (length fs) p = recksum_loop be os (i + 1 + 1) (length fs) q \<and> kept p q
       \<and> re_inv c salt sz H s fs (i + 1) q)"
proof -
  obtain bs where bs: "pWalFd (pWal p) = H @ bs" "chain c salt sz s i bs fs"
    and F: "szPage (pWal p) = sz" "wr_szPage p = sz" "aSalt (hdr (pWal p)) = salt" "length salt = 8" "bigEndCksum (hdr (pWal p)) = c"
      "length H = WAL_HDRSIZE" "iReCksum (pWal p) = 0" "iSyncPoint p = 0" "aFrameCksum (hdr (pWal p)) = frames_cksum c s (take i fs)"
    using inv by (auto simp: re_inv_def)
  let ?X = "frames_bytes c salt s (take i fs)" and ?off = "walFrameOffset (i + 1) sz" and ?szF = "sz + WAL_FRAME_HDRSIZE"
  obtain b2 where b2: "bs = ?X @ b2" "carries sz b2 (drop i fs)" and d: "\<forall>f \<in> set fs. length (snd (snd f)) = sz"
    using bs(2) by (auto simp: chain_def)
  obtain pg n dt where f: "fs ! i = (pg, n, dt)" by (cases "fs ! i")
  have dr: "drop i fs = (pg, n, dt) # drop (i + 1) fs" using i f by (simp add: Cons_nth_drop_Suc [symmetric])
  obtain ck b3 where b3: "b2 = sqlite3Put4byte pg @ sqlite3Put4byte n @ ck @ dt @ b3" "length ck = 16" "length dt = sz"
    "carries sz b3 (drop (i + 1) fs)"
    using b2(2) unfolding dr by auto
  have "\<forall>f \<in> set (take i fs). length (snd (snd f)) = sz" using d by (meson in_set_takeD)
  from length_frames_data [OF F(4) this] i have lenX: "length ?X = i * ?szF" by simp
  have off: "?off = length (H @ ?X)" by (simp add: walFrameOffset_def F(6) lenX)
  have Fp: "pWalFd (pWal p) = (H @ ?X) @ b2" by (simp add: bs(1) b2(1))
  let ?buf = "sqlite3Put4byte pg @ sqlite3Put4byte n @ ck @ dt"
  have buf: "take ?szF (drop ?off (pWalFd (pWal p))) = ?buf"
    unfolding Fp off using b3(2,3) by (simp add: b3(1) WAL_FRAME_HDRSIZE_def)
  have g: "sqlite3Get4byte ?buf = Some pg" "sqlite3Get4byte (drop 4 ?buf) = Some n" "drop WAL_FRAME_HDRSIZE ?buf = dt"
    using b3(2) by (simp_all add: get4_put4 WAL_FRAME_HDRSIZE_def)
  have "length dt = szPage (pWal p)" using b3(3) F(1) by simp
  from walEncodeFrame_bytes [OF F(7) this, of be pg n] obtain fr where
    fr: "walEncodeFrame be (pWal p) pg n dt = Some (fr, (pWal p)\<lparr>hdr := (hdr (pWal p))\<lparr>aFrameCksum :=
        frame_cksum c pg n dt (frames_cksum c s (take i fs))\<rparr>\<rparr>)"
      "fr @ dt = frame_bytes c salt (frames_cksum c s (take i fs)) pg n dt"
    unfolding F(3,5,9) by blast
  let ?p = "p\<lparr>pWal := (pWal p)\<lparr>hdr := (hdr (pWal p))\<lparr>aFrameCksum := frame_cksum c pg n dt (frames_cksum c s (take i fs))\<rparr>\<rparr>\<rparr>"
  have len: "length fr = WAL_FRAME_HDRSIZE"
    using arg_cong [OF fr(2), of length] length_frame_bytes [OF F(4)] by simp
  obtain rc q where o: "osWrite os ?p fr ?off = (rc, q)" by (metis prod.exhaust)
  have wr: "writes fr ?off ?p rc q" using F(8) by (intro osWrite_one [OF o]) simp
  note t = writes_fields [OF wr]
  note u = touched_fields [OF t(4)]
  have k: "kept p q" using kept_writes [OF wr] by (simp add: kept_def)
  from osRead_cases [of os "pWal p" ?szF ?off] show ?thesis
  proof cases
    case (fail rc)
    have "?off + ?szF \<le> length (pWalFd (pWal p))" unfolding Fp off using b3(2,3) by (simp add: b3(1) WAL_FRAME_HDRSIZE_def)
    then have "\<not> reads_ok os" using fail(3) by simp
    moreover have "recksum_loop be os (i + 1) (length fs) p = Some (rc, p)"
      using i fail(1) by (subst recksum_loop.simps) (simp add: F(1) Let_def)
    ultimately show ?thesis using fail(2) kept_refl by blast
  next
    case ok
    have run: "recksum_loop be os (i + 1) (length fs) p =
        (if rc \<noteq> SQLITE_OK then Some (rc, q) else recksum_loop be os (i + 1 + 1) (length fs) q)"
      using i ok(1) g fr(1) o unfolding buf by (subst recksum_loop.simps) (simp add: F(1) Let_def)
    show ?thesis
    proof (cases "rc = SQLITE_OK")
      case False
      then show ?thesis using run healthy_write [OF _ o] k by auto
    next
      case True
      have tk: "take (i + 1) fs = take i fs @ [(pg, n, dt)]" using i f by (simp add: take_Suc_conv_app_nth)
      have "pWalFd (pWal q) = write_at ((H @ ?X) @ b2) (length (H @ ?X)) fr"
        using writes_file [OF wr] True unfolding off by (auto simp: Fp simp del: append_assoc)
      also have "\<dots> = (H @ ?X) @ fr @ drop (length fr) b2" by (rule write_at_append)
      also have "drop (length fr) b2 = dt @ b3" using b3(2) len by (simp add: b3(1) WAL_FRAME_HDRSIZE_def)
      also have "(H @ ?X) @ fr @ dt @ b3 = H @ frames_bytes c salt s (take (i + 1) fs) @ b3"
        using fr(2) unfolding tk frames_bytes_append by simp
      finally have fd: "pWalFd (pWal q) = H @ frames_bytes c salt s (take (i + 1) fs) @ b3" .
      have "aFrameCksum (hdr (pWal q)) = frames_cksum c s (take (i + 1) fs)"
        using osWrite_cksum [OF o] unfolding tk frames_cksum_append by simp
      then have "re_inv c salt sz H s fs (i + 1) q"
        using F t(1,3) fd b3(4) d i by (simp add: re_inv_def u chain_def)
      then show ?thesis using run True k by auto
    qed
  qed
qed

lemma recksum_loop_chain:
  assumes "re_inv c salt sz H s fs i p" "i \<le> length fs"
  shows "\<exists>rc q. recksum_loop be os (i + 1) (length fs) p = Some (rc, q) \<and> kept p q
    \<and> (healthy os \<and> reads_ok os \<longrightarrow> rc = SQLITE_OK) \<and> (rc = SQLITE_OK \<longrightarrow> re_inv c salt sz H s fs (length fs) q)"
  using assms
proof (induction "length fs - i" arbitrary: i p)
  case 0
  then have "i = length fs" by simp
  then show ?case using 0(2) by (subst recksum_loop.simps) (simp add: kept_refl)
next
  case (Suc k)
  then have i: "i < length fs" "k = length fs - (i + 1)" "i + 1 \<le> length fs" by simp_all
  from recksum_step [OF Suc.prems(1) i(1), of be os] obtain rc q where
    "(recksum_loop be os (i + 1) (length fs) p = Some (rc, q) \<and> rc \<noteq> SQLITE_OK \<and> \<not> (healthy os \<and> reads_ok os) \<and> kept p q)
    \<or> (recksum_loop be os (i + 1) (length fs) p = recksum_loop be os (i + 1 + 1) (length fs) q \<and> kept p q
       \<and> re_inv c salt sz H s fs (i + 1) q)" by blast
  then show ?case
  proof
    assume n: "recksum_loop be os (i + 1) (length fs) p = recksum_loop be os (i + 1 + 1) (length fs) q \<and> kept p q
       \<and> re_inv c salt sz H s fs (i + 1) q"
    from Suc.hyps(1) [OF i(2) conjunct2 [OF conjunct2 [OF n]] i(3)] n kept_trans show ?thesis by metis
  qed blast
qed


text \<open>The checksum before the first frame that is encoded again is read from the file: from the header or
  from the frame before.\<close>

lemma read_cksum:
  assumes ch: "chain c salt sz (header_cksum c (of_nat sz) ckpt salt) i bs fs" and i: "i \<le> length fs" and salt: "length salt = 8"
  shows "let off = if i = 0 then 24 else walFrameOffset i sz + 16; F = header_bytes c (of_nat sz) ckpt salt @ bs;
      b = take 8 (drop off F); s = frames_cksum c (header_cksum c (of_nat sz) ckpt salt) (take i fs) in
    off + 8 \<le> length F \<and> sqlite3Get4byte b = Some (fst s) \<and> sqlite3Get4byte (drop 4 b) = Some (snd s)"
proof (cases i)
  case 0
  let ?H = "header_bytes c (of_nat sz) ckpt salt"
  note h = header_fields [OF salt, of c "of_nat sz" ckpt]
  have "take 8 (drop 24 (?H @ bs)) = drop 24 ?H" using h(1) by (simp add: WAL_HDRSIZE_def)
  then show ?thesis using 0 h(1,7,8) by (simp add: Let_def WAL_HDRSIZE_def)
next
  case (Suc k)
  let ?H = "header_bytes c (of_nat sz) ckpt salt" and ?s = "header_cksum c (of_nat sz) ckpt salt" and ?szF = "sz + WAL_FRAME_HDRSIZE"
  obtain b2 where b2: "bs = frames_bytes c salt ?s (take i fs) @ b2" and d: "\<forall>f \<in> set fs. length (snd (snd f)) = sz"
    using ch by (auto simp: chain_def)
  obtain pg n dt where f: "fs ! k = (pg, n, dt)" by (cases "fs ! k")
  have tk: "take i fs = take k fs @ [(pg, n, dt)]" using i f by (simp add: Suc take_Suc_conv_app_nth)
  let ?sk = "frames_cksum c ?s (take k fs)"
  let ?fr = "frame_bytes c salt ?sk pg n dt"
  let ?X = "?H @ frames_bytes c salt ?s (take k fs)"
  have F: "?H @ bs = ?X @ ?fr @ b2" by (simp add: b2 tk frames_bytes_append)
  have "\<forall>f \<in> set (take k fs). length (snd (snd f)) = sz" using d by (meson in_set_takeD)
  from length_frames_data [OF salt this] i have X: "length ?X = walFrameOffset i sz"
    by (simp add: walFrameOffset_def header_fields(1) [OF salt] Suc)
  have len: "length ?fr = WAL_FRAME_HDRSIZE + length dt" by (rule length_frame_bytes [OF salt])
  have "drop (walFrameOffset i sz + 16) (?H @ bs) = drop 16 (?fr @ b2)" unfolding F X [symmetric] by simp
  then have b: "take 8 (drop (walFrameOffset i sz + 16) (?H @ bs)) = take 8 (drop 16 ?fr)"
    using len by (simp add: WAL_FRAME_HDRSIZE_def)
  have le: "walFrameOffset i sz + 16 + 8 \<le> length (?H @ bs)"
    using len X by (simp only: F length_append) (simp add: WAL_FRAME_HDRSIZE_def)
  have sk: "frames_cksum c ?s (take i fs) = frame_cksum c pg n dt ?sk" unfolding tk frames_cksum_append by simp
  have i0: "i \<noteq> 0" by (simp add: Suc)
  have "sqlite3Get4byte (take 8 (drop (walFrameOffset i sz + 16) (?H @ bs))) = Some (fst (frames_cksum c ?s (take i fs)))"
    "sqlite3Get4byte (drop 4 (take 8 (drop (walFrameOffset i sz + 16) (?H @ bs)))) = Some (snd (frames_cksum c ?s (take i fs)))"
    unfolding b frame_parts(3) [OF salt] sk by (simp_all add: get4_put4 get4_put4 [where bs = "[]", simplified])
  with le show ?thesis unfolding Let_def if_not_P [OF i0] by blast
qed

lemma walRewriteChecksums_chain:
  assumes tx: "tx_inv c salt sz (header_bytes c (of_nat sz) ckpt salt) (header_cksum c (of_nat sz) ckpt salt) fs p"
    and re: "iReCksum (pWal p) \<noteq> 0" and sp: "iSyncPoint p = 0" and stale: "length (wr_stale os) = 8"
  shows "\<exists>rc q. walRewriteChecksums be os (length fs) p = Some (rc, q) \<and> kept p q \<and> (healthy os \<and> reads_ok os \<longrightarrow> rc = SQLITE_OK)
    \<and> (rc = SQLITE_OK \<longrightarrow>
         tx_inv c salt sz (header_bytes c (of_nat sz) ckpt salt) (header_cksum c (of_nat sz) ckpt salt) fs q \<and> iReCksum (pWal q) = 0)"
proof (cases "wr_malloc os")
  case False
  then show ?thesis by (simp add: walRewriteChecksums_def kept_refl reads_ok_def)
next
  case mem: True
  let ?H = "header_bytes c (of_nat sz) ckpt salt" and ?s = "header_cksum c (of_nat sz) ckpt salt"
  obtain i where i: "iReCksum (pWal p) = i + 1" using re by (metis Suc_eq_plus1 not0_implies_Suc)
  obtain bs where bs: "pWalFd (pWal p) = ?H @ bs" "chain c salt sz ?s i bs fs"
    and F: "szPage (pWal p) = sz" "wr_szPage p = sz" "aSalt (hdr (pWal p)) = salt" "length salt = 8" "bigEndCksum (hdr (pWal p)) = c"
      "length ?H = WAL_HDRSIZE" "i < length fs" using tx i by (auto simp: tx_inv_def valid_frames_def)
  define x where "x = (if i = 0 then 24 else walFrameOffset i sz + 16)"
  have off: "(if iReCksum (pWal p) = 1 then 24 else walFrameOffset (iReCksum (pWal p) - 1) (szPage (pWal p)) + 16) = x"
    by (simp add: i F(1) x_def)
  from read_cksum [OF bs(2) less_imp_le [OF F(7)] F(4)]
  have rd: "x + 8 \<le> length (pWalFd (pWal p))"
    "sqlite3Get4byte (take 8 (drop x (pWalFd (pWal p)))) = Some (fst (frames_cksum c ?s (take i fs)))"
    "sqlite3Get4byte (drop 4 (take 8 (drop x (pWalFd (pWal p))))) = Some (snd (frames_cksum c ?s (take i fs)))"
    unfolding Let_def bs(1) x_def by blast+
  from osRead_cases [of os "pWal p" 8 x] show ?thesis
  proof cases
    case (fail rc)
    obtain c1 c2 where c: "sqlite3Get4byte (wr_stale os) = Some c1" "sqlite3Get4byte (drop 4 (wr_stale os)) = Some c2"
      using get4_total [of "wr_stale os"] get4_total [of "drop 4 (wr_stale os)"] stale by auto
    let ?p = "p\<lparr>pWal := (pWal p)\<lparr>hdr := (hdr (pWal p))\<lparr>aFrameCksum := (c1, c2)\<rparr>, iReCksum := 0\<rparr>\<rparr>"
    have "walRewriteChecksums be os (length fs) p = Some (rc, ?p)"
      using mem fail(1,2) c unfolding walRewriteChecksums_def Let_def off by simp
    moreover have "kept p ?p" by (simp add: kept_def same_view_refl)
    moreover have "\<not> reads_ok os" using fail(3) rd(1) by linarith
    ultimately show ?thesis using fail(2) by blast
  next
    case ok
    let ?p = "p\<lparr>pWal := (pWal p)\<lparr>hdr := (hdr (pWal p))\<lparr>aFrameCksum := frames_cksum c ?s (take i fs)\<rparr>, iReCksum := 0\<rparr>\<rparr>"
    have inv: "re_inv c salt sz ?H ?s fs i ?p" using bs F sp by (simp add: re_inv_def)
    have run: "walRewriteChecksums be os (length fs) p = recksum_loop be os (i + 1) (length fs) ?p"
      using mem ok(1) rd(2,3) unfolding walRewriteChecksums_def Let_def off unfolding i by simp
    have k: "kept p ?p" by (simp add: kept_def same_view_refl)
    from recksum_loop_chain [OF inv less_imp_le [OF F(7)], of be os] obtain rc q where
      q: "recksum_loop be os (i + 1) (length fs) ?p = Some (rc, q)" "kept ?p q" "healthy os \<and> reads_ok os \<longrightarrow> rc = SQLITE_OK"
        "rc = SQLITE_OK \<longrightarrow> re_inv c salt sz ?H ?s fs (length fs) q"
      by blast
    have "tx_inv c salt sz ?H ?s fs q \<and> iReCksum (pWal q) = 0" if "rc = SQLITE_OK"
      using q(4) that re_inv_done [of c salt sz ?H ?s fs q] by (simp add: re_inv_def)
    then show ?thesis unfolding run using q kept_trans [OF k q(2)] by blast
  qed
qed

end
