(* ===== verification/WalSpill.thy ===== *)
theory WalSpill
  imports WalRewrite
begin

text \<open>
  Whole transactions that reach the log in several calls of \<open>sqlite3WalFrames\<close>: the state between the
  calls, what a crash leaves then, and the commit at the end.
\<close>

section \<open>The content of pages\<close>

text \<open>The content of the pages after frames.\<close>

definition newest :: "frame list \<Rightarrow> u32 \<rightharpoonup> u8 list" where
  "newest fs = map_of (rev (map (\<lambda>(p, n, d). (p, d)) fs))"

lemma newest_Nil [simp]: "newest [] = Map.empty"
  by (simp add: newest_def)

lemma newest_snoc [simp]: "newest (fs @ [(p, n, d)]) = (newest fs)(p \<mapsto> d)"
  by (simp add: newest_def)

lemma newest_append: "newest (fs @ gs) = newest fs ++ newest gs"
  by (simp add: newest_def)

lemma newest_repeat: "fs \<noteq> [] \<Longrightarrow> newest (fs @ replicate m (last fs)) = newest fs"
proof (induction m)
  case (Suc m)
  obtain p n d where f: "last fs = (p, n, d)" by (cases "last fs")
  have "fs = butlast fs @ [(p, n, d)]" using Suc.prems f by (metis append_butlast_last_id)
  then have l: "(newest fs)(p \<mapsto> d) = newest fs" by (metis fun_upd_upd newest_snoc)
  have "fs @ replicate (Suc m) (last fs) = (fs @ replicate m (last fs)) @ [(p, n, d)]"
    by (simp add: f replicate_append_same)
  then show ?case using Suc l by (metis newest_snoc)
qed simp

lemma newest_not: "p \<notin> fst ` set fs \<Longrightarrow> newest fs p = None"
  by (force simp: newest_def map_of_eq_None_iff)

text \<open>A look-up that finds nothing, or the last frame of the page.\<close>

definition looks :: "(u32 \<Rightarrow> nat) \<Rightarrow> nat \<Rightarrow> frame list \<Rightarrow> u32 \<Rightarrow> bool" where
  "looks look k fs p \<longleftrightarrow> k < look p \<longrightarrow> look p \<le> length fs \<and> fst (fs ! (look p - 1)) = p
     \<and> (\<forall>j < length fs. look p \<le> j \<longrightarrow> fst (fs ! j) \<noteq> p)"

lemma newest_replaced:
  assumes i: "i < length fs" "fst (fs ! i) = p" and after: "\<forall>j < length fs. i < j \<longrightarrow> fst (fs ! j) \<noteq> p"
  shows "newest (replaced i d fs) = (newest fs)(p \<mapsto> d)"
proof -
  obtain n d0 where f: "fs ! i = (p, n, d0)" using i(2) by (cases "fs ! i") auto
  let ?a = "take i fs" and ?b = "drop (Suc i) fs"
  have fs: "fs = ?a @ [(p, n, d0)] @ ?b" using id_take_nth_drop [OF i(1)] f by simp
  have "replaced i d fs = ?a @ [(p, n, d)] @ ?b" using i(1) f by (simp add: replaced_def upd_conv_take_nth_drop)
  moreover have "p \<notin> dom (newest ?b)"
  proof -
    have "fst (?b ! j) \<noteq> p" if "j < length ?b" for j using after that by simp
    then have "p \<notin> fst ` set ?b" by (metis (no_types, lifting) imageE in_set_conv_nth)
    then show ?thesis using newest_not [of p ?b] by (simp add: domIff)
  qed
  then have "(m(p \<mapsto> x)) ++ newest ?b = (m ++ newest ?b)(p \<mapsto> x)" for m x by (simp add: map_add_upd_left)
  moreover have "newest fs = ((newest ?a)(p \<mapsto> d0)) ++ newest ?b"
    by (subst fs) (simp only: append_assoc [symmetric] newest_append [of "?a @ [(p, n, d0)]"] newest_snoc)
  moreover have "newest (?a @ [(p, n, d)] @ ?b) = ((newest ?a)(p \<mapsto> d)) ++ newest ?b"
    by (simp only: append_assoc [symmetric] newest_append [of "?a @ [(p, n, d)]"] newest_snoc)
  ultimately show ?thesis by simp
qed

lemma drop_replaced: "k \<le> i \<Longrightarrow> drop k (replaced i d fs) = replaced (i - k) d (drop k fs)" if "i < length fs"
  using that by (simp add: replaced_def drop_update_swap)

text \<open>After the pages are written, the transaction has their content.\<close>

lemma tx_write_newest:
  "distinct (map fst pgs) \<Longrightarrow> \<forall>pg \<in> set pgs. looks look k fs (fst pg) \<Longrightarrow> k \<le> length fs \<Longrightarrow>
   newest (drop k (tx_write look (k + 1) n c pgs fs)) = newest (drop k fs) ++ map_of pgs"
proof (induction pgs arbitrary: fs)
  case (Cons pg pgs)
  obtain p d where pg: "pg = (p, d)" by (cases pg)
  have new: "p \<notin> dom (map_of pgs)" "distinct (map fst pgs)" using Cons.prems(1) by (auto simp: pg dom_map_of_conv_image_fst)
  have goal: "newest (drop k (tx_write look (k + 1) n c (pg # pgs) fs)) = newest (drop k fs) ++ map_of (pg # pgs)"
    if eq: "tx_write look (k + 1) n c (pg # pgs) fs = tx_write look (k + 1) n c pgs gs" and gs: "k \<le> length gs"
      "newest (drop k gs) = (newest (drop k fs))(p \<mapsto> d)" "\<forall>pg \<in> set pgs. looks look k gs (fst pg)" for gs
    unfolding eq Cons.IH [OF new(2) gs(3,1)] gs(2) map_add_upd_left [OF new(1)] by (simp add: pg)
  show ?case
  proof (cases "(pgs \<noteq> [] \<or> \<not> c) \<and> k + 1 \<le> look p")
    case True
    then have l: "k < look p" "look p \<le> length fs" "fst (fs ! (look p - 1)) = p" "\<forall>j < length fs. look p \<le> j \<longrightarrow> fst (fs ! j) \<noteq> p"
      using Cons.prems(2) by (auto simp: pg looks_def)
    have i: "look p - 1 < length fs" "k \<le> look p - 1" using l(1,2) by simp_all
    have "newest (replaced (look p - 1 - k) d (drop k fs)) = (newest (drop k fs))(p \<mapsto> d)"
    proof (rule newest_replaced)
      show "look p - 1 - k < length (drop k fs)" "fst (drop k fs ! (look p - 1 - k)) = p"
        using i l(3) le_add_diff_inverse [OF i(2)] by (simp_all del: diff_diff_left One_nat_def)
      have "look p \<le> k + j" if "look p - 1 - k < j" for j using that l(1) by linarith
      then show "\<forall>j < length (drop k fs). look p - 1 - k < j \<longrightarrow> fst (drop k fs ! j) \<noteq> p" using l(4) by simp
    qed
    then have "newest (drop k (replaced (look p - 1) d fs)) = (newest (drop k fs))(p \<mapsto> d)"
      using drop_replaced [OF i] by simp
    moreover have "fst (replaced (look p - 1) d fs ! j) = fst (fs ! j)" if "j < length fs" for j
      using arg_cong [OF replaced_pages [of "look p - 1" d fs], of "\<lambda>l. l ! j"] that by simp
    then have "\<forall>pg \<in> set pgs. looks look k (replaced (look p - 1) d fs) (fst pg)"
      using Cons.prems(2) by (auto simp: looks_def)
    ultimately show ?thesis using True Cons.prems(3) by (intro goal [of "replaced (look p - 1) d fs"]) (simp_all add: pg)
  next
    case False
    let ?f = "(p, if c \<and> pgs = [] then n else 0, d)"
    have "looks look k (fs @ [?f]) (fst q)" if "q \<in> set pgs" for q
    proof -
      have "fst q \<noteq> p" using that new(1) by (auto simp: dom_map_of_conv_image_fst)
      then show ?thesis using Cons.prems(2) that by (auto simp: looks_def nth_append)
    qed
    then show ?thesis using False Cons.prems(3) by (intro goal [of "fs @ [?f]"]) (auto simp: pg)
  qed
qed simp

text \<open>The other frames stay, and the new ones do not commit before the last.\<close>

lemma tx_write_take:
  "k \<le> length fs \<Longrightarrow> take k (tx_write look (k + 1) n c pgs fs) = take k fs \<and> length fs \<le> length (tx_write look (k + 1) n c pgs fs)"
proof (induction pgs arbitrary: fs)
  case (Cons pg pgs)
  have "take k (replaced (look (fst pg) - 1) (snd pg) fs) = take k fs" if "k + 1 \<le> look (fst pg)"
    using that by (simp add: replaced_def)
  with Cons.IH [of "replaced (look (fst pg) - 1) (snd pg) fs"] Cons.prems
    Cons.IH [of "fs @ [(fst pg, if c \<and> pgs = [] then n else 0, snd pg)]"] show ?case by auto
qed simp

lemma in_set_replaced: "f \<in> set (replaced i d fs) \<Longrightarrow> i < length fs \<Longrightarrow> f \<in> set fs \<or> f = (fst (fs ! i), fst (snd (fs ! i)), d)"
  using set_update_subset_insert [of fs i "(fst (fs ! i), fst (snd (fs ! i)), d)"] by (auto simp: replaced_def)

lemma tx_write_ok:
  "\<forall>f \<in> set fs. frame_ok sz f \<Longrightarrow> \<forall>pg \<in> set pgs. fst pg \<noteq> 0 \<and> length (snd pg) = sz \<Longrightarrow> \<forall>p. look p \<le> length fs \<Longrightarrow>
   \<forall>f \<in> set (tx_write look (k + 1) n c pgs fs). frame_ok sz f"
proof (induction pgs arbitrary: fs)
  case (Cons pg pgs)
  let ?r = "replaced (look (fst pg) - 1) (snd pg) fs" and ?a = "fs @ [(fst pg, if c \<and> pgs = [] then n else 0, snd pg)]"
  have d: "fst pg \<noteq> 0" "length (snd pg) = sz" "\<forall>pg \<in> set pgs. fst pg \<noteq> 0 \<and> length (snd pg) = sz" using Cons.prems(2) by simp_all
  show ?case
  proof (cases "(pgs \<noteq> [] \<or> \<not> c) \<and> k + 1 \<le> look (fst pg)")
    case True
    then have i: "look (fst pg) - 1 < length fs" using Cons.prems(3) [rule_format, of "fst pg"] by linarith
    have "fst (fs ! (look (fst pg) - 1)) \<noteq> 0" using bspec [OF Cons.prems(1) nth_mem [OF i]] by (auto simp: frame_ok_def split: prod.splits)
    then have "\<forall>f \<in> set ?r. frame_ok sz f" using in_set_replaced [OF _ i] Cons.prems(1) d(2) by (fastforce simp: frame_ok_def)
    then show ?thesis using Cons.IH [of ?r] d(3) Cons.prems(3) True by simp
  next
    case False
    have "\<forall>f \<in> set ?a. frame_ok sz f" using Cons.prems(1) d by (auto simp: frame_ok_def)
    moreover have "\<forall>p. look p \<le> length ?a" using Cons.prems(3) by (simp add: le_SucI)
    ultimately have "\<forall>f \<in> set (tx_write look (k + 1) n c pgs ?a). frame_ok sz f" by (intro Cons.IH d(3))
    then show ?thesis using False by auto
  qed
qed simp

definition no_commit :: "frame list \<Rightarrow> bool" where
  "no_commit fs \<longleftrightarrow> (\<forall>f \<in> set fs. fst (snd f) = 0)"

lemma tx_write_no_commit:
  "no_commit (drop k fs) \<Longrightarrow> k \<le> length fs \<Longrightarrow> \<forall>p. look p \<le> length fs \<Longrightarrow>
   no_commit (drop k (tx_write look (k + 1) n False pgs fs))"
proof (induction pgs arbitrary: fs)
  case (Cons pg pgs)
  let ?r = "replaced (look (fst pg) - 1) (snd pg) fs" and ?a = "fs @ [(fst pg, 0, snd pg)]"
  show ?case
  proof (cases "k + 1 \<le> look (fst pg)")
    case True
    then have i: "look (fst pg) - 1 < length fs" "k \<le> look (fst pg) - 1"
      using Cons.prems(3) [rule_format, of "fst pg"] by linarith+
    have "no_commit (drop k ?r)"
      unfolding no_commit_def drop_replaced [OF i]
    proof
      fix f assume "f \<in> set (replaced (look (fst pg) - 1 - k) (snd pg) (drop k fs))"
      moreover have j: "look (fst pg) - 1 - k < length (drop k fs)" using i by simp
      ultimately show "fst (snd f) = 0" using in_set_replaced [OF _ j] Cons.prems(1) nth_mem [OF j] unfolding no_commit_def by fastforce
    qed
    then show ?thesis using Cons.IH [of ?r] Cons.prems True by simp
  next
    case False
    have "no_commit (drop k ?a)" using Cons.prems(1,2) by (simp add: no_commit_def)
    moreover have "\<forall>p. look p \<le> length ?a" using Cons.prems(3) by (simp add: le_SucI)
    ultimately have "no_commit (drop k (tx_write look (k + 1) n False pgs ?a))" using Cons.prems(2) by (intro Cons.IH) simp_all
    then show ?thesis using False by auto
  qed
qed simp

lemma latest_looks:
  assumes "look = latest (map fst fs) mn (length fs)"
  shows "looks look k fs p" "look p \<le> length fs"
proof -
  show "look p \<le> length fs" using latest_le [of "map fst fs" mn "length fs" p] assms by simp
  show "looks look k fs p"
  proof (cases rule: latest_cases [of "map fst fs" mn "length fs" p])
    case 1
    then show ?thesis by (simp add: looks_def assms)
  next
    case 2
    have "fst (fs ! j) \<noteq> p" if "j < length fs" "look p \<le> j" for j using 2(5) [of "j + 1"] that by (simp add: assms)
    moreover have "fst (fs ! (look p - 1)) = p" using 2(1,3,4) by (simp add: assms)
    ultimately show ?thesis using 2(3) by (simp add: looks_def assms)
  qed
qed


section \<open>Between the calls\<close>

text \<open>The first \<open>k\<close> of the frames \<open>fs\<close> are committed, the others are written by the transaction.\<close>

definition tx_writer :: "nat \<Rightarrow> wal_log \<Rightarrow> wal_writer" where
  "tx_writer sz w = \<lparr>pWal = w, synced = [], iSyncPoint = 0, syncFlags = 0, wr_szPage = sz\<rparr>"

definition spilled :: "nat \<Rightarrow> bool \<Rightarrow> u32 \<Rightarrow> u8 list \<Rightarrow> nat \<Rightarrow> frame list \<Rightarrow> wal_log \<Rightarrow> bool" where
  "spilled sz c ckpt salt k fs w \<longleftrightarrow> k < length fs
     \<and> wal_rep (index w) (map fst (take k fs), map fst (drop k fs)) \<and> (iReCksum w = 0 \<or> k < iReCksum w)
     \<and> tx_inv c salt sz (header_bytes c (of_nat sz) ckpt salt) (header_cksum c (of_nat sz) ckpt salt) fs (tx_writer sz w)"

lemma tx_inv_writer: "wr_szPage p = sz \<Longrightarrow> tx_inv c salt sz H s fs (tx_writer sz (pWal p)) = tx_inv c salt sz H s fs p"
  by (simp add: tx_inv_def tx_writer_def)

lemma osWrite_recksum: "osWrite os p bs off = (rc, q) \<Longrightarrow> iReCksum (pWal q) = iReCksum (pWal p)"
  by (auto simp: osWrite_def Let_def)

lemma sqlite3OsSync_recksum: "sqlite3OsSync os f p = (rc, q) \<Longrightarrow> iReCksum (pWal q) = iReCksum (pWal p)"
  by (auto simp: sqlite3OsSync_def Let_def split: if_splits)

lemma walWriteToLog_recksum: "walWriteToLog os p bs n off = (rc, q) \<Longrightarrow> iReCksum (pWal q) = iReCksum (pWal p)"
  by (auto simp: walWriteToLog_def Let_def dest!: osWrite_recksum sqlite3OsSync_recksum split: if_splits prod.splits)

lemma walEncodeFrame_recksum: "walEncodeFrame be w pg n d = Some (f, w') \<Longrightarrow> iReCksum w' = iReCksum w"
  by (auto simp: walEncodeFrame_def Let_def split: if_splits Option.bind_splits)

lemma walWriteOneFrame_recksum: "walWriteOneFrame be os p pg n off = Some (rc, q) \<Longrightarrow> iReCksum (pWal q) = iReCksum (pWal p)"
  by (auto simp: walWriteOneFrame_def Let_def dest!: walWriteToLog_recksum walEncodeFrame_recksum
      split: if_splits prod.splits Option.bind_splits)

text \<open>Only frames of the transaction are overwritten.\<close>

lemma write_frames_recksum:
  "write_frames be os iFirst n cm pgs iF off p = Some (rc, app, iF', off', q) \<Longrightarrow>
   iReCksum (pWal p) = 0 \<or> iFirst \<le> iReCksum (pWal p) \<Longrightarrow> iReCksum (pWal q) = 0 \<or> iFirst \<le> iReCksum (pWal q)"
proof (induction pgs arbitrary: iF off p rc app iF' off' q)
  case (Cons pg pgs)
  obtain iWrite p1 where ask: "(if iFirst \<noteq> 0 \<and> (pgs \<noteq> [] \<or> \<not> cm) then do {
        ((rc, iWrite), ix) \<leftarrow> sqlite3WalFindFrame (index_os (file_os (shm (wr_read os)))) (index (pWal p)) (fst pg);
        Some (iWrite, p\<lparr>pWal := (pWal p)\<lparr>index := ix\<rparr>\<rparr>)
      } else Some (0, p)) = Some (iWrite, p1)"
    using Cons.prems(1) by (auto split: Option.bind_splits)
  then have p1: "iReCksum (pWal p1) = iReCksum (pWal p)" by (auto split: if_splits Option.bind_splits)
  note run = Cons.prems(1) [unfolded write_frames.simps ask Option.bind.simps prod.case]
  show ?case
  proof (cases "iFirst \<noteq> 0 \<and> iFirst \<le> iWrite")
    case True
    define w where "w = (if iReCksum (pWal p1) = 0 \<or> iWrite < iReCksum (pWal p1) then (pWal p1)\<lparr>iReCksum := iWrite\<rparr> else pWal p1)"
    obtain rc1 q1 where o: "osWrite os (p1\<lparr>pWal := w\<rparr>) (take (wr_szPage p1) (snd pg))
        (walFrameOffset iWrite (wr_szPage p1) + WAL_FRAME_HDRSIZE) = (rc1, q1)" by (metis prod.exhaust)
    have "iReCksum (pWal q1) = 0 \<or> iFirst \<le> iReCksum (pWal q1)"
      using osWrite_recksum [OF o] True Cons.prems(2) p1 by (auto simp: w_def)
    then show ?thesis using run True o Cons.IH by (auto simp: Let_def w_def split: if_splits)
  next
    case False
    obtain rc1 q1 where o: "walWriteOneFrame be os p1 pg (if cm \<and> pgs = [] then n else 0) off = Some (rc1, q1)"
      using run unfolding if_not_P [OF False] by (auto split: Option.bind_splits)
    have "iReCksum (pWal q1) = 0 \<or> iFirst \<le> iReCksum (pWal q1)"
      using walWriteOneFrame_recksum [OF o] p1 Cons.prems(2) by simp
    then show ?thesis using run unfolding if_not_P [OF False] o
      by (auto dest: Cons.IH split: if_splits Option.bind_splits)
  qed
qed auto

text \<open>The loop over the pages in this state.\<close>

lemma spilled_frames:
  assumes sp: "spilled sz c ckpt salt k fs (pWal p)" and ap: "appends os (pWal p)" and pgs: "\<forall>pg \<in> set pgs. length (snd pg) = sz"
    and look: "look = latest (map fst fs) (minFrame (index (pWal p))) (length fs)"
    and p': "p' = p\<lparr>iSyncPoint := 0, syncFlags := fl, wr_szPage := sz\<rparr>"
  shows "\<exists>rc app iF iO q. sqlite3WalFrames be os sz pgs n cm fl p =
      (if rc \<noteq> SQLITE_OK then Some (rc, q)
       else do {
         (rc, q) \<leftarrow> (if cm \<and> iReCksum (pWal q) \<noteq> 0 then walRewriteChecksums be os iF q else Some (SQLITE_OK, q));
         if rc \<noteq> SQLITE_OK then Some (rc, q) else frames_tail be os app iF n cm iO q
       })
    \<and> (healthy os \<longrightarrow> rc = SQLITE_OK) \<and> kept p' q
    \<and> (rc = SQLITE_OK \<longrightarrow> (let fs' = tx_write look (k + 1) n cm pgs fs in
         tx_inv c salt sz (header_bytes c (of_nat sz) ckpt salt) (header_cksum c (of_nat sz) ckpt salt) fs' q
       \<and> iF = length fs' \<and> iO = length (pWalFd (pWal q)) \<and> map fst fs' = map fst fs @ map fst app \<and> set app \<subseteq> set pgs
       \<and> (cm \<and> pgs \<noteq> [] \<longrightarrow> app \<noteq> [] \<and> last app = last pgs \<and> last fs' = (fst (last pgs), n, snd (last pgs)))))
    \<and> (iReCksum (pWal q) = 0 \<or> k < iReCksum (pWal q))"
proof -
  let ?H = "header_bytes c (of_nat sz) ckpt salt" and ?s = "header_cksum c (of_nat sz) ckpt salt"
  have rep: "wal_rep (index (pWal p)) (map fst (take k fs), map fst (drop k fs))" and k: "k < length fs"
    and re: "iReCksum (pWal p) = 0 \<or> k < iReCksum (pWal p)" using sp by (simp_all add: spilled_def)
  have "tx_inv c salt sz ?H ?s fs (tx_writer sz (pWal p'))" using sp by (simp add: spilled_def p')
  then have tx: "tx_inv c salt sz ?H ?s fs p'" by (subst (asm) tx_inv_writer) (simp_all add: p')
  have mx: "mxFrame (index (pWal p)) = length fs" "live_mxFrame (index (pWal p)) = k" using rep k by (auto simp: wal_rep_def)
  have "\<not> same_hdr (pWal p)" using mx k by (simp add: same_hdr_def)
  moreover have "readLock (index (pWal p)) \<noteq> 0" and g: "grants (index_os (file_os (shm (wr_read os)))) (index (pWal p'))"
    using ap by (simp_all add: appends_def p')
  moreover have "length fs \<noteq> 0" using k by auto
  ultimately have run: "sqlite3WalFrames be os sz pgs n cm fl p = frames_body be os pgs n cm (k + 1) p'"
    using mx by (simp add: sqlite3WalFrames_def walRestartLog_def frames_write_def p')
  have off: "walFrameOffset (mxFrame (index (pWal p')) + 1) (wr_szPage p') = length (pWalFd (pWal p'))"
    using tx_length [OF tx] mx by (simp add: p')
  have "wal_rep (index (pWal p')) (map fst (take k fs), map fst (drop k fs))" "iSyncPoint p' = 0" "k + 1 \<noteq> 0"
    "readLock (index (pWal p')) \<noteq> 0" using rep ap by (simp_all add: appends_def p')
  moreover have "map fst (take k fs) @ map fst (drop k fs) = map fst fs" by (metis append_take_drop_id map_append)
  ultimately obtain rc app iF iO q where
    1: "write_frames be os (k + 1) n cm pgs (length fs) (length (pWalFd (pWal p'))) p' = Some (rc, app, iF, iO, q)" "kept p' q"
      "rc = SQLITE_OK \<longrightarrow> (let fs' = tx_write look (k + 1) n cm pgs fs in
         tx_inv c salt sz ?H ?s fs' q \<and> iF = length fs' \<and> iO = length (pWalFd (pWal q))
       \<and> map fst fs' = map fst fs @ map fst app \<and> set app \<subseteq> set pgs
       \<and> (cm \<and> pgs \<noteq> [] \<longrightarrow> app \<noteq> [] \<and> last app = last pgs \<and> last fs' = (fst (last pgs), n, snd (last pgs))))"
    using write_frames_tx [OF tx _ _ _ g, of "k + 1" "map fst (take k fs)" "map fst (drop k fs)" look pgs be n cm] pgs
    by (auto simp: look p')
  have "sqlite3WalFrames be os sz pgs n cm fl p =
      (if rc \<noteq> SQLITE_OK then Some (rc, q)
       else do {
         (rc, q) \<leftarrow> (if cm \<and> iReCksum (pWal q) \<noteq> 0 then walRewriteChecksums be os iF q else Some (SQLITE_OK, q));
         if rc \<noteq> SQLITE_OK then Some (rc, q) else frames_tail be os app iF n cm iO q
       })"
    unfolding run frames_body_def Let_def off using 1(1) mx(1) by (simp add: p')
  moreover have "iReCksum (pWal p') = 0 \<or> k + 1 \<le> iReCksum (pWal p')" using re by (auto simp: p')
  from write_frames_recksum [OF 1(1) this] have "iReCksum (pWal q) = 0 \<or> k < iReCksum (pWal q)" by auto
  ultimately show ?thesis using 1(2,3) healthy_frames [OF _ 1(1)]
    by - (rule exI [of _ rc], rule exI [of _ app], rule exI [of _ iF], rule exI [of _ iO], rule exI [of _ q], blast)
qed


text \<open>The end of a call without a commit.\<close>

definition conn_fields :: "wal \<Rightarrow> wal \<Rightarrow> bool" where
  "conn_fields w w' \<longleftrightarrow> readLock w' = readLock w \<and> minFrame w' = minFrame w \<and> nCkpt w' = nCkpt w"

lemma frames_tail_spill:
  assumes rep: "wal_rep (index (pWal q)) (L, T)" and g: "grants (index_os (file_os (shm (wr_read os)))) (index (pWal q))"
    and app: "0 \<notin> fst ` set app"
  shows "\<exists>ix h. frames_tail be os app iF n False off q =
        Some (SQLITE_OK, q\<lparr>pWal := (pWal q)\<lparr>index := ix, hdr := (hdr (pWal q))\<lparr>szPage16 := h\<rparr>\<rparr>\<rparr>)
    \<and> wal_rep ix (L, T @ map fst app) \<and> grants (index_os (file_os (shm (wr_read os)))) ix
    \<and> conn_fields (index (pWal q)) ix"
proof -
  have "0 \<notin> set (map fst app)" using app by simp
  from frames_step [OF rep g this, of False] obtain ix where
    ix: "wal_index_frames (index_os (file_os (shm (wr_read os)))) (index (pWal q)) (map fst app) False = Some (SQLITE_OK, ix)"
      "wal_rep ix (L, T @ map fst app)" "grants (index_os (file_os (shm (wr_read os)))) ix" "conn_fields (index (pWal q)) ix"
    by (auto simp: conn_fields_def)
  have "frames_tail be os app iF n False off q = Some (SQLITE_OK, q\<lparr>pWal := (pWal q)\<lparr>index := ix,
      hdr := (hdr (pWal q))\<lparr>szPage16 := hdr_pagesize (wr_szPage q)\<rparr>\<rparr>\<rparr>)"
    using ix(1) by (simp add: frames_tail_def frames_sync_def frames_finish_def frames_limit_def Let_def)
  then show ?thesis using ix by blast
qed

lemma same_view_fields: "same_view w w' \<Longrightarrow> conn_fields w w'"
  by (simp add: same_view_def conn_fields_def)

lemma conn_fields_trans: "conn_fields u v \<Longrightarrow> conn_fields v w \<Longrightarrow> conn_fields u w"
  by (simp add: conn_fields_def)

text \<open>The state after a call without a commit.\<close>

lemma spilledI:
  assumes tx: "tx_inv c salt sz (header_bytes c (of_nat sz) ckpt salt) (header_cksum c (of_nat sz) ckpt salt) fs q"
    and k: "k < length fs" and rep: "wal_rep ix (map fst (take k fs), map fst (drop k fs))"
    and re: "iReCksum (pWal q) = 0 \<or> k < iReCksum (pWal q)"
  shows "spilled sz c ckpt salt k fs ((pWal q)\<lparr>index := ix, hdr := (hdr (pWal q))\<lparr>szPage16 := h\<rparr>\<rparr>)"
proof -
  let ?w = "(pWal q)\<lparr>index := ix, hdr := (hdr (pWal q))\<lparr>szPage16 := h\<rparr>\<rparr>"
  have "valid_frames ?w fs = valid_frames (pWal q) fs" by (simp add: valid_frames_def)
  then have "tx_inv c salt sz (header_bytes c (of_nat sz) ckpt salt) (header_cksum c (of_nat sz) ckpt salt) fs (tx_writer sz ?w)"
    using tx by (simp add: tx_inv_def tx_writer_def)
  then show ?thesis using k rep re by (simp add: spilled_def)
qed

lemma spill_next:
  assumes sp: "spilled sz c ckpt salt k fs (pWal p)" and ap: "appends os (pWal p)" and tx: "tx_ok sz pgs"
    and look: "look = latest (map fst fs) (minFrame (index (pWal p))) (length fs)"
  shows "\<exists>rc q. sqlite3WalFrames be os sz pgs n False fl p = Some (rc, q) \<and> (healthy os \<longrightarrow> rc = SQLITE_OK)
    \<and> (rc = SQLITE_OK \<longrightarrow> spilled sz c ckpt salt k (tx_write look (k + 1) n False pgs fs) (pWal q) \<and> appends os (pWal q)
        \<and> conn_fields (index (pWal p)) (index (pWal q)))"
proof -
  define p' where "p' = p\<lparr>iSyncPoint := 0, syncFlags := fl, wr_szPage := sz\<rparr>"
  define fs' where "fs' = tx_write look (k + 1) n False pgs fs"
  have pgs: "\<forall>pg \<in> set pgs. length (snd pg) = sz" "\<forall>pg \<in> set pgs. fst pg \<noteq> 0" using tx by (simp_all add: tx_ok_def)
  from spilled_frames [OF sp ap pgs(1) look p'_def, of be n False] obtain rc app iF iO q where
    r: "sqlite3WalFrames be os sz pgs n False fl p = (if rc \<noteq> SQLITE_OK then Some (rc, q)
       else do {
         (rc, q) \<leftarrow> (if False \<and> iReCksum (pWal q) \<noteq> 0 then walRewriteChecksums be os iF q else Some (SQLITE_OK, q));
         if rc \<noteq> SQLITE_OK then Some (rc, q) else frames_tail be os app iF n False iO q
       })"
      "rc = SQLITE_OK \<longrightarrow> (let fs' = tx_write look (k + 1) n False pgs fs in
         tx_inv c salt sz (header_bytes c (of_nat sz) ckpt salt) (header_cksum c (of_nat sz) ckpt salt) fs' q
       \<and> iF = length fs' \<and> iO = length (pWalFd (pWal q)) \<and> map fst fs' = map fst fs @ map fst app \<and> set app \<subseteq> set pgs
       \<and> (False \<and> pgs \<noteq> [] \<longrightarrow> app \<noteq> [] \<and> last app = last pgs \<and> last fs' = (fst (last pgs), n, snd (last pgs))))"
    and q: "healthy os \<longrightarrow> rc = SQLITE_OK" "kept p' q" "iReCksum (pWal q) = 0 \<or> k < iReCksum (pWal q)"
    by blast
  have 1: "sqlite3WalFrames be os sz pgs n False fl p = (if rc \<noteq> SQLITE_OK then Some (rc, q) else frames_tail be os app iF n False iO q)"
      "healthy os \<longrightarrow> rc = SQLITE_OK" "kept p' q" "iReCksum (pWal q) = 0 \<or> k < iReCksum (pWal q)"
    using r(1) q by simp_all
  have ok: "rc = SQLITE_OK \<longrightarrow>
         tx_inv c salt sz (header_bytes c (of_nat sz) ckpt salt) (header_cksum c (of_nat sz) ckpt salt) fs' q
       \<and> map fst fs' = map fst fs @ map fst app \<and> set app \<subseteq> set pgs"
    using r(2) by (simp add: Let_def fs'_def)
  show ?thesis
  proof (cases "rc = SQLITE_OK")
    case False
    then show ?thesis using 1 by auto
  next
    case True
    have k: "k < length fs" and rep: "wal_rep (index (pWal p)) (map fst (take k fs), map fst (drop k fs))"
      using sp by (simp_all add: spilled_def)
    have v: "same_view (index (pWal p)) (index (pWal q))" using 1(3) by (simp add: kept_def p'_def)
    have rep2: "wal_rep (index (pWal q)) (map fst (take k fs), map fst (drop k fs))"
      and g2: "grants (index_os (file_os (shm (wr_read os)))) (index (pWal q))"
      using wal_rep_view [OF v rep] same_view_grants [OF v] ap by (simp_all add: appends_def)
    have "0 \<notin> fst ` set app" using ok True pgs(2) by fastforce
    from frames_tail_spill [OF rep2 g2 this, of be iF n iO] obtain ix h where
      2: "frames_tail be os app iF n False iO q = Some (SQLITE_OK, q\<lparr>pWal := (pWal q)\<lparr>index := ix, hdr := (hdr (pWal q))\<lparr>szPage16 := h\<rparr>\<rparr>\<rparr>)"
        "wal_rep ix (map fst (take k fs), map fst (drop k fs) @ map fst app)"
        "grants (index_os (file_os (shm (wr_read os)))) ix" "conn_fields (index (pWal q)) ix" by blast
    have t: "take k fs' = take k fs" "length fs \<le> length fs'" using tx_write_take [of k fs look n False pgs] k by (simp_all add: fs'_def)
    have "map fst (drop k fs') = map fst (drop k fs) @ map fst app"
      using arg_cong [OF conjunct1 [OF conjunct2 [OF ok [THEN mp, OF True]]], of "drop k"] k by (simp add: drop_map)
    then have "spilled sz c ckpt salt k fs' (pWal (q\<lparr>pWal := (pWal q)\<lparr>index := ix, hdr := (hdr (pWal q))\<lparr>szPage16 := h\<rparr>\<rparr>\<rparr>))"
      using spilledI [OF conjunct1 [OF ok [THEN mp, OF True]] _ _ 1(4), of ix h] 2(2) t k by simp
    moreover have "appends os (pWal (q\<lparr>pWal := (pWal q)\<lparr>index := ix, hdr := (hdr (pWal q))\<lparr>szPage16 := h\<rparr>\<rparr>\<rparr>))"
      using ap 2(3,4) same_view_fields [OF v] by (simp add: appends_def conn_fields_def)
    ultimately show ?thesis using 1(1) 2(1) True conn_fields_trans [OF same_view_fields [OF v] 2(4)] by (simp add: fs'_def)
  qed
qed

lemma chain_of_log: "writer_ok c salt sz (frames_cksum c s fs) q \<Longrightarrow> length H = WAL_HDRSIZE \<Longrightarrow>
    pWalFd (pWal q) = H @ frames_bytes c salt s fs \<Longrightarrow> \<forall>f \<in> set fs. length (snd (snd f)) = sz \<Longrightarrow> tx_inv c salt sz H s fs q"
  by (simp add: writer_ok_def tx_inv_def valid_frames_def chain_all)

lemma spill_first:
  assumes at: "log_at os be sz c ckpt salt fs (pWal p)" and fs: "\<forall>f \<in> set fs. frame_ok sz f" and sz: "page_size_ok sz"
    and tx: "tx_ok sz pgs" and ap: "appends os (pWal p)"
  shows "\<exists>rc q. sqlite3WalFrames be os sz pgs n False fl p = Some (rc, q) \<and> (healthy os \<longrightarrow> rc = SQLITE_OK)
    \<and> (rc = SQLITE_OK \<longrightarrow> spilled sz c ckpt salt (length fs) (fs @ tx_frames 0 pgs) (pWal q) \<and> appends os (pWal q)
        \<and> conn_fields (index (pWal p)) (index (pWal q)) \<and> iReCksum (pWal q) = 0)"
proof -
  let ?s = "header_cksum c (of_nat sz) ckpt salt" and ?H = "header_bytes c (of_nat sz) ckpt salt"
  let ?A = "full_log sz c ckpt salt fs" and ?X = "frames_bytes c salt (frames_cksum c (header_cksum c (of_nat sz) ckpt salt) fs) (tx_frames 0 pgs)"
  have salt: "length salt = 8" and rep: "wal_rep (index (pWal p)) (map fst fs, [])" and sh: "same_hdr (pWal p)"
    using at by (simp_all add: log_at_def)
  have g: "grants (index_os (file_os (shm (wr_read os)))) (index (pWal p))" and rl: "readLock (index (pWal p)) \<noteq> 0"
    using ap by (simp_all add: appends_def)
  have pgs: "pgs \<noteq> []" "\<forall>pg \<in> set pgs. fst pg \<noteq> 0 \<and> length (snd pg) = sz" "\<forall>pg \<in> set pgs. length (snd pg) = sz"
    using tx by (simp_all add: tx_ok_def)
  have mx: "mxFrame (index (pWal p)) = length fs" using rep by (auto simp: wal_rep_def)
  have run: "sqlite3WalFrames be os sz pgs n False fl p = frames_write be os sz pgs n False fl 0 p"
    using rl sh by (simp add: sqlite3WalFrames_def walRestartLog_def Let_def)
  from frames_write_start [OF at sz, of pgs n False fl 0] show ?thesis
  proof (elim disjE exE)
    fix p1 :: wal_writer
    let ?p = "p1\<lparr>iSyncPoint := 0, syncFlags := fl, wr_szPage := sz\<rparr>"
    assume p1: "frames_write be os sz pgs n False fl 0 p = frames_body be os pgs n False 0 ?p
      \<and> pWalFd (pWal p1) = ?A \<and> index (pWal p1) = index (pWal p) \<and> szPage (pWal p1) = sz \<and> aSalt (hdr (pWal p1)) = salt
      \<and> bigEndCksum (hdr (pWal p1)) = c \<and> iReCksum (pWal p1) = 0 \<and> aFrameCksum (hdr (pWal p1)) = frames_cksum c ?s fs"
    then have w: "writer_ok c salt sz (frames_cksum c ?s fs) ?p" using salt by (simp add: writer_ok_def)
    have off: "walFrameOffset (mxFrame (index (pWal ?p)) + 1) (wr_szPage ?p) = length ?A"
      using length_full_log [OF salt fs] p1 mx by simp
    from write_frames_append [OF w pgs(3), of be os n False "length fs" "length ?A"] obtain rc app iF iO q where
      1: "write_frames be os 0 n False pgs (length fs) (length ?A) ?p = Some (rc, app, iF, iO, q)" "writes ?X (length ?A) ?p rc q"
      and ok: "rc = SQLITE_OK \<longrightarrow> app = pgs \<and> writer_ok c salt sz (frames_cksum c (frames_cksum c ?s fs) (tx_frames 0 pgs)) q"
      by auto
    have body: "sqlite3WalFrames be os sz pgs n False fl p =
        (if rc \<noteq> SQLITE_OK then Some (rc, q) else frames_tail be os app iF n False iO q)"
      using 1(1) p1 mx unfolding run frames_body_def Let_def off by (simp add: frames_body_def Let_def off)
    have h: "healthy os \<longrightarrow> rc = SQLITE_OK" using healthy_frames [OF _ 1(1)] by blast
    show ?thesis
    proof (cases "rc = SQLITE_OK")
      case False
      then show ?thesis using body h by simp
    next
      case True
      note t = writes_fields [OF 1(2)]
      note f = touched_fields [OF t(4)]
      have fs': "\<forall>f \<in> set (fs @ tx_frames 0 pgs). length (snd (snd f)) = sz"
        using fs tx_frames_ok [OF pgs(2), of 0] by (auto simp: frame_ok_def)
      have "pWalFd (pWal q) = ?A @ ?X" using writes_file [OF 1(2)] True p1 by (auto simp: write_at_end)
      then have "pWalFd (pWal q) = ?H @ frames_bytes c salt ?s (fs @ tx_frames 0 pgs)"
        by (simp add: full_log_def frames_bytes_append)
      moreover have "writer_ok c salt sz (frames_cksum c ?s (fs @ tx_frames 0 pgs)) q" using ok True by (simp add: frames_cksum_append)
      ultimately have inv: "tx_inv c salt sz ?H ?s (fs @ tx_frames 0 pgs) q"
        using chain_of_log header_fields(1) [OF salt] fs' by blast
      have rep2: "wal_rep (index (pWal q)) (map fst fs, [])" and g2: "grants (index_os (file_os (shm (wr_read os)))) (index (pWal q))"
        and rl2: "readLock (index (pWal q)) \<noteq> 0" using rep g rl p1 by (simp_all add: f)
      have "0 \<notin> fst ` set app" using ok True pgs(2) by auto
      from frames_tail_spill [OF rep2 g2 this, of be iF n iO] obtain ix h where
        2: "frames_tail be os app iF n False iO q = Some (SQLITE_OK, q\<lparr>pWal := (pWal q)\<lparr>index := ix, hdr := (hdr (pWal q))\<lparr>szPage16 := h\<rparr>\<rparr>\<rparr>)"
          "wal_rep ix (map fst fs, [] @ map fst app)"
          "grants (index_os (file_os (shm (wr_read os)))) ix" "conn_fields (index (pWal q)) ix" by blast
      have "wal_rep ix (map fst (take (length fs) (fs @ tx_frames 0 pgs)), map fst (drop (length fs) (fs @ tx_frames 0 pgs)))"
        using 2(2) ok True by (simp add: tx_frames_pages)
      then have "spilled sz c ckpt salt (length fs) (fs @ tx_frames 0 pgs) (pWal (q\<lparr>pWal := (pWal q)\<lparr>index := ix, hdr := (hdr (pWal q))\<lparr>szPage16 := h\<rparr>\<rparr>\<rparr>))"
        using spilledI [OF inv, of "length fs" ix h] ok True pgs(1) by (simp add: writer_ok_def)
      moreover have "appends os (pWal (q\<lparr>pWal := (pWal q)\<lparr>index := ix, hdr := (hdr (pWal q))\<lparr>szPage16 := h\<rparr>\<rparr>\<rparr>))"
        using rl2 2(3,4) by (simp add: appends_def conn_fields_def)
      moreover have "conn_fields (index (pWal p)) ix" "iReCksum (pWal q) = 0"
        using 2(4) p1 ok True by (simp_all add: f conn_fields_def writer_ok_def)
      ultimately show ?thesis using body 2(1) True by simp
    qed
  qed (use run in auto)
qed


section \<open>The commit\<close>

lemma tx_inv_done:
  "tx_inv c salt sz H s fs q \<Longrightarrow> iReCksum (pWal q) = 0 \<Longrightarrow>
   writer_ok c salt sz (frames_cksum c s fs) q \<and> pWalFd (pWal q) = H @ frames_bytes c salt s fs"
  by (auto simp: tx_inv_def writer_ok_def valid_frames_def chain_all)

lemma commit_checksums:
  assumes tx: "tx_inv c salt sz (header_bytes c (of_nat sz) ckpt salt) (header_cksum c (of_nat sz) ckpt salt) fs p"
    and sp: "iSyncPoint p = 0" and stale: "length (wr_stale os) = 8"
  shows "\<exists>rc q. (if iReCksum (pWal p) \<noteq> 0 then walRewriteChecksums be os (length fs) p else Some (SQLITE_OK, p)) = Some (rc, q)
    \<and> kept p q \<and> (healthy os \<and> reads_ok os \<longrightarrow> rc = SQLITE_OK)
    \<and> (rc = SQLITE_OK \<longrightarrow> pWalFd (pWal q) = full_log sz c ckpt salt fs
        \<and> writer_ok c salt sz (frames_cksum c (header_cksum c (of_nat sz) ckpt salt) fs) q)"
proof (cases "iReCksum (pWal p) = 0")
  case True
  then show ?thesis using tx_inv_done [OF tx] by (simp add: kept_refl full_log_def)
next
  case False
  from walRewriteChecksums_chain [OF tx False sp stale, of be] obtain rc q where
    q: "walRewriteChecksums be os (length fs) p = Some (rc, q)" "kept p q" "healthy os \<and> reads_ok os \<longrightarrow> rc = SQLITE_OK"
      "rc = SQLITE_OK \<longrightarrow>
         tx_inv c salt sz (header_bytes c (of_nat sz) ckpt salt) (header_cksum c (of_nat sz) ckpt salt) fs q \<and> iReCksum (pWal q) = 0"
    by blast
  have "pWalFd (pWal q) = full_log sz c ckpt salt fs
      \<and> writer_ok c salt sz (frames_cksum c (header_cksum c (of_nat sz) ckpt salt) fs) q" if "rc = SQLITE_OK"
    using tx_inv_done [OF conjunct1 [OF q(4) [THEN mp, OF that]]] q(4) that by (simp add: full_log_def)
  then show ?thesis using q(1-3) False by simp
qed

lemma spill_commit:
  assumes sp: "spilled sz c ckpt salt k fs (pWal p)" and ap: "appends os (pWal p)" and tx: "tx_ok sz pgs"
    and fs: "\<forall>f \<in> set fs. frame_ok sz f" and stale: "length (wr_stale os) = 8"
    and look: "look = latest (map fst fs) (minFrame (index (pWal p))) (length fs)"
    and fs': "fs' = tx_write look (k + 1) n True pgs fs"
  shows "\<exists>rc q m. sqlite3WalFrames be os sz pgs n True fl p = Some (rc, q) \<and> (healthy os \<and> reads_ok os \<longrightarrow> rc = SQLITE_OK)
    \<and> last fs' = (fst (last pgs), n, snd (last pgs))
    \<and> (rc = SQLITE_OK \<longrightarrow> pWalFd (pWal q) = full_log sz c ckpt salt (fs' @ replicate m (last fs'))
        \<and> log_at os be sz c ckpt salt (fs' @ replicate m (last fs')) (pWal q) \<and> nPage (hdr (pWal q)) = n
        \<and> (WAL_SYNC_FLAGS fl \<noteq> 0 \<longrightarrow>
             (\<exists>j \<ge> length (full_log sz c ckpt salt fs'). synced q = take j (full_log sz c ckpt salt (fs' @ replicate m (last fs'))))))"
proof -
  let ?s = "header_cksum c (of_nat sz) ckpt salt" and ?H = "header_bytes c (of_nat sz) ckpt salt"
  define p' where "p' = p\<lparr>iSyncPoint := 0, syncFlags := fl, wr_szPage := sz\<rparr>"
  have pgs: "\<forall>pg \<in> set pgs. length (snd pg) = sz" "\<forall>pg \<in> set pgs. fst pg \<noteq> 0 \<and> length (snd pg) = sz" "pgs \<noteq> []"
    using tx by (simp_all add: tx_ok_def)
  have k: "k < length fs" and rep: "wal_rep (index (pWal p)) (map fst (take k fs), map fst (drop k fs))"
    using sp by (simp_all add: spilled_def)
  have lst: "last fs' = (fst (last pgs), n, snd (last pgs))"
    using pgs(3) unfolding fs' by (induction pgs arbitrary: fs) auto
  from spilled_frames [OF sp ap pgs(1) look p'_def, of be n True] obtain rc app iF iO q where
    r: "sqlite3WalFrames be os sz pgs n True fl p = (if rc \<noteq> SQLITE_OK then Some (rc, q)
       else do {
         (rc, q) \<leftarrow> (if True \<and> iReCksum (pWal q) \<noteq> 0 then walRewriteChecksums be os iF q else Some (SQLITE_OK, q));
         if rc \<noteq> SQLITE_OK then Some (rc, q) else frames_tail be os app iF n True iO q
       })"
      "rc = SQLITE_OK \<longrightarrow> (let fs' = tx_write look (k + 1) n True pgs fs in
         tx_inv c salt sz ?H ?s fs' q
       \<and> iF = length fs' \<and> iO = length (pWalFd (pWal q)) \<and> map fst fs' = map fst fs @ map fst app \<and> set app \<subseteq> set pgs
       \<and> (True \<and> pgs \<noteq> [] \<longrightarrow> app \<noteq> [] \<and> last app = last pgs \<and> last fs' = (fst (last pgs), n, snd (last pgs))))"
    and q: "healthy os \<longrightarrow> rc = SQLITE_OK" "kept p' q"
    by blast
  show ?thesis
  proof (cases "rc = SQLITE_OK")
    case False
    then show ?thesis using r(1) q(1) lst by simp
  next
    case True
    have ok: "tx_inv c salt sz ?H ?s fs' q" "iF = length fs'" "iO = length (pWalFd (pWal q))" "map fst fs' = map fst fs @ map fst app"
      "set app \<subseteq> set pgs" "app \<noteq> []" "last app = last pgs"
      using r(2) True pgs(3) by (simp_all add: Let_def fs')
    have sp0: "iSyncPoint q = 0" and v: "same_view (index (pWal p)) (index (pWal q))" and fl: "syncFlags q = fl"
      using q(2) by (simp_all add: kept_def p'_def)
    have salt: "length salt = 8" using ok(1) by (simp add: tx_inv_def)
    from commit_checksums [OF ok(1) sp0 stale, of be] obtain rc2 q2 where
      2: "(if iReCksum (pWal q) \<noteq> 0 then walRewriteChecksums be os (length fs') q else Some (SQLITE_OK, q)) = Some (rc2, q2)"
        "kept q q2" "healthy os \<and> reads_ok os \<longrightarrow> rc2 = SQLITE_OK"
        "rc2 = SQLITE_OK \<longrightarrow> pWalFd (pWal q2) = full_log sz c ckpt salt fs' \<and> writer_ok c salt sz (frames_cksum c ?s fs') q2"
      by blast
    have run: "sqlite3WalFrames be os sz pgs n True fl p =
        (if rc2 \<noteq> SQLITE_OK then Some (rc2, q2) else frames_tail be os app (length fs') n True iO q2)"
      unfolding r(1) ok(2) by (simp only: True simp_thms if_False 2(1) Option.bind.simps prod.case)
    show ?thesis
    proof (cases "rc2 = SQLITE_OK")
      case False
      then show ?thesis using run 2(3) lst by simp
    next
      case ok2: True
      let ?F = "full_log sz c ckpt salt fs'"
      define P where "P = (\<lambda>m. frames_bytes c salt (frames_cksum c ?s fs') (replicate m (fst (last app), n, snd (last app))))"
      have la: "(fst (last app), n, snd (last app)) = last fs'" by (simp add: ok(7) lst)
      have F: "pWalFd (pWal q2) = ?F" and w: "writer_ok c salt sz (frames_cksum c ?s fs') q2" using 2(4) ok2 by simp_all
      have v2: "same_view (index (pWal p)) (index (pWal q2))" and sp2: "iSyncPoint q2 = 0" and fl2: "syncFlags q2 = fl"
        using 2(2) same_view_trans [OF v] sp0 fl by (simp_all add: kept_def)
      have iO: "iO = length ?F"
      proof -
        have "length (pWalFd (pWal q)) = walFrameOffset (length fs' + 1) sz" by (rule tx_length [OF ok(1)])
        moreover have "\<forall>f \<in> set fs'. frame_ok sz f"
          unfolding fs' by (rule tx_write_ok [OF fs pgs(2)]) (use latest_looks [OF look] in blast)
        ultimately show ?thesis using ok(3) length_full_log [OF salt, of fs' sz c ckpt] by simp
      qed
      have len: "length ?F = walFrameOffset (length fs' + 1) sz" using iO ok(3) tx_length [OF ok(1)] by simp
      have rep2: "wal_rep (index (pWal q2)) (map fst (take k fs), map fst (drop k fs))"
        and g2: "grants (index_os (file_os (shm (wr_read os)))) (index (pWal q2))"
        using wal_rep_view [OF v2 rep] same_view_grants [OF v2] ap by (simp_all add: appends_def)
      have app: "\<forall>pg \<in> set app. fst pg \<noteq> 0 \<and> length (snd pg) = sz" using ok(5) pgs(2) by blast
      from frames_tail_commit [OF w F len rep2 g2 ok(6) app sp2 P_def, of be] obtain rc3 t m j where
        3: "frames_tail be os app (length fs') n True (length ?F) q2 = Some (rc3, t)" "healthy os \<longrightarrow> rc3 = SQLITE_OK"
          "j \<le> length (P m)" "pWalFd (pWal t) = ?F @ take j (P m)"
          "rc3 = SQLITE_OK \<longrightarrow> j = length (P m)
            \<and> wal_rep (index (pWal t)) (map fst (take k fs) @ map fst (drop k fs) @ map fst app @ replicate m (fst (last app)), [])
            \<and> live_hdr (pWal t) = hdr (pWal t) \<and> nPage (hdr (pWal t)) = n
            \<and> writer_ok c salt sz (frames_cksum c (frames_cksum c ?s fs') (replicate m (fst (last app), n, snd (last app)))) t
            \<and> (WAL_SYNC_FLAGS (syncFlags q2) \<noteq> 0 \<longrightarrow> (\<exists>k. synced t = ?F @ take k (P m)))"
        by blast
      let ?whole = "fs' @ replicate m (last fs')"
      have full: "full_log sz c ckpt salt ?whole = ?F @ P m" by (simp add: full_log_append P_def la)
      have "pWalFd (pWal t) = full_log sz c ckpt salt ?whole \<and> log_at os be sz c ckpt salt ?whole (pWal t) \<and> nPage (hdr (pWal t)) = n
          \<and> (WAL_SYNC_FLAGS fl \<noteq> 0 \<longrightarrow> (\<exists>j \<ge> length ?F. synced t = take j (full_log sz c ckpt salt ?whole)))"
        if rc3: "rc3 = SQLITE_OK"
      proof -
        note ok3 = 3(5) [THEN mp, OF rc3]
        have fd: "pWalFd (pWal t) = full_log sz c ckpt salt ?whole" using 3(4) ok3 full by simp
        have "map fst (take k fs) @ map fst (drop k fs) @ map fst app @ replicate m (fst (last app)) = map fst ?whole"
        proof -
          have "map fst (take k fs) @ map fst (drop k fs) @ x = map fst fs @ x" for x
            by (metis append.assoc append_take_drop_id map_append)
          then show ?thesis by (simp add: ok(4) ok(7) lst)
        qed
        then have "wal_rep (index (pWal t)) (map fst ?whole, [])" using ok3 by (metis (no_types, lifting))
        moreover then have "same_hdr (pWal t)" using ok3 by (auto simp: same_hdr_def wal_rep_def)
        moreover have ne: "?whole \<noteq> []" using tx_write_take [of k fs look n True pgs] k by (auto simp: fs')
        moreover have "writer_ok c salt sz (frames_cksum c ?s ?whole) t" using ok3 by (simp add: frames_cksum_append la)
        ultimately have "log_at os be sz c ckpt salt ?whole (pWal t)"
          using fd salt unfolding log_at_def if_not_P [OF ne] by (simp add: writer_ok_def)
        moreover have "\<exists>j \<ge> length ?F. synced t = take j (full_log sz c ckpt salt ?whole)" if sync: "WAL_SYNC_FLAGS fl \<noteq> 0"
        proof -
          obtain j where "synced t = ?F @ take j (P m)" using ok3 sync fl2 by auto
          then show ?thesis by (intro exI [of _ "length ?F + j"]) (simp add: full)
        qed
        ultimately show ?thesis using fd ok3 by blast
      qed
      then show ?thesis using run ok2 3(1,2) iO lst
        by - (rule exI [of _ rc3], rule exI [of _ t], rule exI [of _ m], simp)
    qed
  qed
qed


section \<open>Transactions\<close>

text \<open>The calls of the pager: the cache spills dirty pages, and the commit writes the last ones.\<close>

fun spill_all :: "bool \<Rightarrow> write_os \<Rightarrow> nat \<Rightarrow> nat \<Rightarrow> dirty list list \<Rightarrow> wal_writer \<Rightarrow> (rc \<times> wal_writer) option" where
  "spill_all be os sz fl [] p = Some (SQLITE_OK, p)"
| "spill_all be os sz fl (b # bs) p = do {
     (rc, p) \<leftarrow> sqlite3WalFrames be os sz b 0 False fl p;
     if rc \<noteq> SQLITE_OK then Some (rc, p) else spill_all be os sz fl bs p
   }"

definition transaction :: "bool \<Rightarrow> write_os \<Rightarrow> nat \<Rightarrow> nat \<Rightarrow> dirty list list \<Rightarrow> dirty list \<Rightarrow> u32 \<Rightarrow> wal_writer
    \<Rightarrow> (rc \<times> wal_writer) option" where
  "transaction be os sz fl bs pgs n p = do {
     (rc, p) \<leftarrow> spill_all be os sz fl bs p;
     if rc \<noteq> SQLITE_OK then Some (rc, p) else sqlite3WalFrames be os sz pgs n True fl p
   }"

definition batch_ok :: "nat \<Rightarrow> dirty list \<Rightarrow> bool" where
  "batch_ok sz b \<longleftrightarrow> tx_ok sz b \<and> distinct (map fst b)"

text \<open>The pages that a transaction has written.\<close>

definition written :: "(u32 \<rightharpoonup> u8 list) \<Rightarrow> dirty list list \<Rightarrow> (u32 \<rightharpoonup> u8 list)" where
  "written m bs = foldl (\<lambda>m b. m ++ map_of b) m bs"

lemma written_simps [simp]: "written m [] = m" "written m (b # bs) = written (m ++ map_of b) bs"
  "written m (bs @ [b]) = written m bs ++ map_of b"
  by (simp_all add: written_def)

definition tx_state :: "write_os \<Rightarrow> nat \<Rightarrow> bool \<Rightarrow> u32 \<Rightarrow> u8 list \<Rightarrow> frame list \<Rightarrow> (u32 \<rightharpoonup> u8 list) \<Rightarrow> frame list \<Rightarrow> wal_log \<Rightarrow> bool" where
  "tx_state os sz c ckpt salt old m fs w \<longleftrightarrow> spilled sz c ckpt salt (length old) fs w \<and> appends os w
     \<and> take (length old) fs = old \<and> (\<forall>f \<in> set fs. frame_ok sz f) \<and> no_commit (drop (length old) fs)
     \<and> newest (drop (length old) fs) = m"

lemma tx_write_nonempty: "k < length fs \<Longrightarrow> k < length (tx_write look (k + 1) n c pgs fs)"
  using tx_write_take [of k fs look n c pgs] by simp

lemma spill_batch:
  assumes st: "tx_state os sz c ckpt salt old m fs (pWal p)" and b: "batch_ok sz b"
  shows "\<exists>rc q. sqlite3WalFrames be os sz b n False fl p = Some (rc, q) \<and> (healthy os \<longrightarrow> rc = SQLITE_OK)
    \<and> (rc = SQLITE_OK \<longrightarrow> (\<exists>fs'. tx_state os sz c ckpt salt old (m ++ map_of b) fs' (pWal q)))"
proof -
  define look where "look = latest (map fst fs) (minFrame (index (pWal p))) (length fs)"
  let ?k = "length old" and ?fs = "tx_write look (length old + 1) n False b fs"
  have sp: "spilled sz c ckpt salt ?k fs (pWal p)" and ap: "appends os (pWal p)" and old: "take ?k fs = old"
    and fs: "\<forall>f \<in> set fs. frame_ok sz f" "no_commit (drop ?k fs)" "newest (drop ?k fs) = m" using st by (simp_all add: tx_state_def)
  have tx: "tx_ok sz b" "distinct (map fst b)" "\<forall>pg \<in> set b. fst pg \<noteq> 0 \<and> length (snd pg) = sz" using b by (simp_all add: batch_ok_def tx_ok_def)
  have k: "?k \<le> length fs" using sp by (simp add: spilled_def)
  from spill_next [OF sp ap tx(1) look_def, of be n fl] obtain rc q where
    q: "sqlite3WalFrames be os sz b n False fl p = Some (rc, q)" "healthy os \<longrightarrow> rc = SQLITE_OK"
      "rc = SQLITE_OK \<longrightarrow> spilled sz c ckpt salt ?k ?fs (pWal q) \<and> appends os (pWal q)"
    by blast
  have le: "\<forall>p. look p \<le> length fs" using latest_looks(2) [OF look_def] by blast
  have new: "newest (drop ?k ?fs) = m ++ map_of b"
    using tx_write_newest [OF tx(2) _ k] latest_looks(1) [OF look_def] fs(3) by blast
  have "tx_state os sz c ckpt salt old (m ++ map_of b) ?fs (pWal q)" if "rc = SQLITE_OK"
    unfolding tx_state_def using q(3) that tx_write_take [OF k] old new
      tx_write_ok [OF fs(1) tx(3) le] tx_write_no_commit [OF fs(2) k le] by auto
  then show ?thesis using q(1,2) by blast
qed

lemma newest_tx_frames: "distinct (map fst pgs) \<Longrightarrow> newest (tx_frames n pgs) = map_of pgs"
proof (induction n pgs rule: tx_frames.induct)
  case (2 n pg pgs)
  obtain p d where pg: "pg = (p, d)" by (cases pg)
  let ?f = "(fst pg, if pgs = [] then n else 0, snd pg)"
  have "newest ([?f] @ tx_frames n pgs) = newest [?f] ++ newest (tx_frames n pgs)" by (rule newest_append)
  moreover have "newest [?f] = [p \<mapsto> d]" using newest_snoc [of "[]"] by (simp add: pg)
  moreover have "p \<notin> dom (map_of pgs)" using 2(2) by (simp add: pg dom_map_of_conv_image_fst)
  ultimately show ?case using 2 map_add_upd_left [of p "map_of pgs" Map.empty d] by (simp add: pg)
qed simp

lemma tx_frames_no_commit: "no_commit (tx_frames 0 pgs)"
  by (induction "0 :: u32" pgs rule: tx_frames.induct) (auto simp: no_commit_def)

lemma spill_begin:
  assumes at: "log_at os be sz c ckpt salt fs (pWal p)" and fs: "\<forall>f \<in> set fs. frame_ok sz f" and sz: "page_size_ok sz"
    and b: "batch_ok sz b" and ap: "appends os (pWal p)"
  shows "\<exists>rc q. sqlite3WalFrames be os sz b n False fl p = Some (rc, q) \<and> (healthy os \<longrightarrow> rc = SQLITE_OK)
    \<and> (rc = SQLITE_OK \<longrightarrow> tx_state os sz c ckpt salt fs (map_of b) (fs @ tx_frames 0 b) (pWal q))"
proof -
  have tx: "tx_ok sz b" "distinct (map fst b)" "\<forall>pg \<in> set b. fst pg \<noteq> 0 \<and> length (snd pg) = sz" using b by (simp_all add: batch_ok_def tx_ok_def)
  have "\<forall>f \<in> set (fs @ tx_frames 0 b). frame_ok sz f" using fs tx_frames_ok [OF tx(3)] by auto
  then show ?thesis using spill_first [OF at fs sz tx(1) ap, of n fl] newest_tx_frames [OF tx(2), of 0] tx_frames_no_commit [of b]
    by (fastforce simp: tx_state_def)
qed

lemma spill_more:
  assumes "tx_state os sz c ckpt salt old m fs (pWal p)" "\<forall>b \<in> set bs. batch_ok sz b"
  shows "\<exists>rc q. spill_all be os sz fl bs p = Some (rc, q) \<and> (healthy os \<longrightarrow> rc = SQLITE_OK)
    \<and> (rc = SQLITE_OK \<longrightarrow> (\<exists>fs'. tx_state os sz c ckpt salt old (written m bs) fs' (pWal q)))"
  using assms
proof (induction bs arbitrary: m fs p)
  case (Cons b bs)
  then have b: "batch_ok sz b" "\<forall>b \<in> set bs. batch_ok sz b" by simp_all
  from spill_batch [OF Cons.prems(1) b(1), of be 0 fl] obtain rc q where
    1: "sqlite3WalFrames be os sz b 0 False fl p = Some (rc, q)" "healthy os \<longrightarrow> rc = SQLITE_OK"
      "rc = SQLITE_OK \<longrightarrow> (\<exists>fs'. tx_state os sz c ckpt salt old (m ++ map_of b) fs' (pWal q))" by blast
  show ?case
  proof (cases "rc = SQLITE_OK")
    case True
    then obtain fs' where "tx_state os sz c ckpt salt old (m ++ map_of b) fs' (pWal q)" using 1(3) by blast
    from Cons.IH [OF this b(2)] show ?thesis using 1(1) True by simp
  qed (use 1 in simp)
qed auto

lemma spill_sequence:
  assumes at: "log_at os be sz c ckpt salt fs (pWal p)" and fs: "\<forall>f \<in> set fs. frame_ok sz f" and sz: "page_size_ok sz"
    and bs: "\<forall>b \<in> set bs. batch_ok sz b" "bs \<noteq> []" and ap: "appends os (pWal p)"
  shows "\<exists>rc q. spill_all be os sz fl bs p = Some (rc, q) \<and> (healthy os \<longrightarrow> rc = SQLITE_OK)
    \<and> (rc = SQLITE_OK \<longrightarrow> (\<exists>fs'. tx_state os sz c ckpt salt fs (written Map.empty bs) fs' (pWal q)))"
proof -
  obtain b r where b: "bs = b # r" using bs(2) by (cases bs) auto
  have ok: "batch_ok sz b" "\<forall>b \<in> set r. batch_ok sz b" using bs(1) by (simp_all add: b)
  from spill_begin [OF at fs sz ok(1) ap, of 0 fl] obtain rc q where
    1: "sqlite3WalFrames be os sz b 0 False fl p = Some (rc, q)" "healthy os \<longrightarrow> rc = SQLITE_OK"
      "rc = SQLITE_OK \<longrightarrow> tx_state os sz c ckpt salt fs (map_of b) (fs @ tx_frames 0 b) (pWal q)" by blast
  show ?thesis
  proof (cases "rc = SQLITE_OK")
    case True
    then show ?thesis using spill_more [OF _ ok(2), of os c ckpt salt fs "map_of b" "fs @ tx_frames 0 b" q be fl] 1(1,3) by (simp add: b)
  qed (use 1 in \<open>simp add: b\<close>)
qed

lemma repeat_last: "xs \<noteq> [] \<Longrightarrow> last (xs @ replicate m (last xs)) = last xs"
  by (induction m) (simp_all flip: replicate_append_same append_assoc)

lemma committed_repeat:
  assumes "fs \<noteq> []" "commits (last fs)" "length fs \<le> K"
  shows "\<exists>i. committed (take K (fs @ replicate m (last fs))) = fs @ replicate i (last fs)"
proof -
  have "take K (fs @ replicate m (last fs)) = fs @ replicate (min (K - length fs) m) (last fs)" using assms(3) by simp
  moreover have "committed (fs @ replicate i (last fs)) = fs @ replicate i (last fs)" for i
    using committed_all [of "fs @ replicate i (last fs)" "[]"] repeat_last [OF assms(1), of i] assms(1,2) by simp
  ultimately show ?thesis by auto
qed

text \<open>What recovery finds in a file that a commit has written.\<close>

lemma recovers_whole:
  assumes salt: "length salt = 8" and fs: "\<forall>f \<in> set fs. frame_ok sz f" "fs \<noteq> []" "commits (last fs)"
    and los: "recover_os los v" and sz: "page_size_ok sz"
    and F: "pWalFd v = take j (full_log sz c ckpt salt (fs @ replicate m (last fs)))" and j: "length (full_log sz c ckpt salt fs) \<le> j"
  shows "\<exists>i. recovers be los sz v (fs @ replicate i (last fs))"
proof -
  have ok: "\<forall>f \<in> set (fs @ replicate m (last fs)). frame_ok sz f" using fs(1,2) by auto
  have "length fs \<le> (j - WAL_HDRSIZE) div (sz + WAL_FRAME_HDRSIZE)"
    using j length_full_log [OF salt fs(1), of c ckpt] by (simp add: walFrameOffset_def less_eq_div_iff_mult_less_eq WAL_FRAME_HDRSIZE_def)
  from committed_repeat [OF fs(2,3) this, of m] full_log_cut [OF salt ok los sz F, of be] show ?thesis by metis
qed


text \<open>The file after a transaction: the frames \<open>fs\<close> and its own, with the padding.\<close>

definition tx_file :: "nat \<Rightarrow> bool \<Rightarrow> u32 \<Rightarrow> u8 list \<Rightarrow> frame list \<Rightarrow> (u32 \<rightharpoonup> u8 list) \<Rightarrow> nat \<Rightarrow> wal_writer \<Rightarrow> bool" where
  "tx_file sz c ckpt salt old m fl q \<longleftrightarrow> (\<exists>fs i. take (length old) fs = old \<and> length old < length fs
     \<and> (\<forall>f \<in> set fs. frame_ok sz f) \<and> commits (last fs) \<and> newest (drop (length old) fs) = m
     \<and> pWalFd (pWal q) = full_log sz c ckpt salt (fs @ replicate i (last fs))
     \<and> (WAL_SYNC_FLAGS fl \<noteq> 0 \<longrightarrow>
          (\<exists>j \<ge> length (full_log sz c ckpt salt fs). synced q = take j (full_log sz c ckpt salt (fs @ replicate i (last fs))))))"

lemma transaction_written:
  assumes at: "log_at os be sz c ckpt salt fs (pWal p)" and fs: "\<forall>f \<in> set fs. frame_ok sz f" and sz: "page_size_ok sz"
    and bs: "\<forall>b \<in> set bs. batch_ok sz b" and pgs: "batch_ok sz pgs" and n: "n \<noteq> 0" and ap: "appends os (pWal p)"
    and stale: "length (wr_stale os) = 8"
  shows "\<exists>rc q. transaction be os sz fl bs pgs n p = Some (rc, q) \<and> (healthy os \<and> reads_ok os \<longrightarrow> rc = SQLITE_OK)
    \<and> (rc = SQLITE_OK \<longrightarrow> tx_file sz c ckpt salt fs (written Map.empty (bs @ [pgs])) fl q)"
proof (cases "bs = []")
  case True
  have tx: "tx_ok sz pgs" "distinct (map fst pgs)" "pgs \<noteq> []" "\<forall>pg \<in> set pgs. fst pg \<noteq> 0 \<and> length (snd pg) = sz"
    using pgs by (simp_all add: batch_ok_def tx_ok_def)
  from commit_written [OF at fs sz tx(1) ap, of n fl] obtain rc q m K where
    1: "sqlite3WalFrames be os sz pgs n True fl p = Some (rc, q)" "healthy os \<longrightarrow> rc = SQLITE_OK"
      "pWalFd (pWal q) = take K (full_log sz c ckpt salt (fs @ padded n pgs m))"
      "rc = SQLITE_OK \<longrightarrow> K = length (full_log sz c ckpt salt (fs @ padded n pgs m))
        \<and> log_at os be sz c ckpt salt (fs @ padded n pgs m) (pWal q) \<and> nPage (hdr (pWal q)) = n
        \<and> (WAL_SYNC_FLAGS fl \<noteq> 0 \<longrightarrow>
             (\<exists>k. length (full_log sz c ckpt salt (fs @ padded n pgs 0)) \<le> k
                \<and> synced q = take k (full_log sz c ckpt salt (fs @ padded n pgs m))))" by blast
  let ?fs = "fs @ tx_frames n pgs"
  have pad: "fs @ padded n pgs i = ?fs @ replicate i (last ?fs)" for i using tx(3) by (simp add: padded_def)
  have "\<forall>f \<in> set ?fs. frame_ok sz f" "commits (last ?fs)" "newest (drop (length fs) ?fs) = map_of pgs"
    using fs tx_frames_ok [OF tx(4), of n] tx_frames_last [OF tx(3), of n] tx(3) n newest_tx_frames [OF tx(2), of n]
    by (auto simp: commits_def)
  then have "tx_file sz c ckpt salt fs (map_of pgs) fl q" if "rc = SQLITE_OK"
    unfolding tx_file_def using 1(3,4) that tx(3) unfolding pad by (intro exI [of _ ?fs] exI [of _ m]) auto
  then show ?thesis using 1(1,2) True by (simp add: transaction_def)
next
  case False
  from spill_sequence [OF at fs sz bs False ap, of fl] obtain rc q where
    1: "spill_all be os sz fl bs p = Some (rc, q)" "healthy os \<longrightarrow> rc = SQLITE_OK"
      "rc = SQLITE_OK \<longrightarrow> (\<exists>fs'. tx_state os sz c ckpt salt fs (written Map.empty bs) fs' (pWal q))" by blast
  show ?thesis
  proof (cases "rc = SQLITE_OK")
    case False
    then show ?thesis using 1 by (simp add: transaction_def)
  next
    case ok: True
    then obtain gs where "tx_state os sz c ckpt salt fs (written Map.empty bs) gs (pWal q)" using 1(3) by blast
    then have sp: "spilled sz c ckpt salt (length fs) gs (pWal q)" and ap2: "appends os (pWal q)" and old: "take (length fs) gs = fs"
      and gs: "\<forall>f \<in> set gs. frame_ok sz f" "newest (drop (length fs) gs) = written Map.empty bs" by (simp_all add: tx_state_def)
    have k: "length fs < length gs" using sp by (simp add: spilled_def)
    have tx: "tx_ok sz pgs" "distinct (map fst pgs)" "\<forall>pg \<in> set pgs. fst pg \<noteq> 0 \<and> length (snd pg) = sz"
      using pgs by (simp_all add: batch_ok_def tx_ok_def)
    define look where "look = latest (map fst gs) (minFrame (index (pWal q))) (length gs)"
    define fs' where "fs' = tx_write look (length fs + 1) n True pgs gs"
    from spill_commit [OF sp ap2 tx(1) gs(1) stale look_def fs'_def, of be fl] obtain rc2 r m where
      2: "sqlite3WalFrames be os sz pgs n True fl q = Some (rc2, r)" "healthy os \<and> reads_ok os \<longrightarrow> rc2 = SQLITE_OK"
        "last fs' = (fst (last pgs), n, snd (last pgs))"
        "rc2 = SQLITE_OK \<longrightarrow> pWalFd (pWal r) = full_log sz c ckpt salt (fs' @ replicate m (last fs'))
        \<and> log_at os be sz c ckpt salt (fs' @ replicate m (last fs')) (pWal r) \<and> nPage (hdr (pWal r)) = n
        \<and> (WAL_SYNC_FLAGS fl \<noteq> 0 \<longrightarrow>
             (\<exists>j \<ge> length (full_log sz c ckpt salt fs'). synced r = take j (full_log sz c ckpt salt (fs' @ replicate m (last fs')))))"
      by blast
    have le: "\<forall>p. look p \<le> length gs" using latest_looks(2) [OF look_def] by blast
    have "newest (drop (length fs) fs') = written Map.empty (bs @ [pgs])"
      using tx_write_newest [OF tx(2) _ less_imp_le [OF k], of look n True] latest_looks(1) [OF look_def] gs(2) by (simp add: fs'_def)
    moreover have "\<forall>f \<in> set fs'. frame_ok sz f" unfolding fs'_def by (rule tx_write_ok [OF gs(1) tx(3) le])
    moreover have "take (length fs) fs' = fs" "length fs < length fs'"
      using tx_write_take [OF less_imp_le [OF k], of look n True pgs] old k by (simp_all add: fs'_def)
    moreover have "commits (last fs')" using n by (simp add: 2(3) commits_def)
    ultimately have "tx_file sz c ckpt salt fs (written Map.empty (bs @ [pgs])) fl r" if "rc2 = SQLITE_OK"
      unfolding tx_file_def using 2(4) that by (intro exI [of _ fs'] exI [of _ m]) simp
    then show ?thesis using 1(1) 2(1,2) ok by (simp add: transaction_def)
  qed
qed

text \<open>C6: A transaction of any number of spills and a commit returns, without faults with success; when it
  reports success then recovery of the file, or of what was synced of it, finds the frames before and
  behind them the transaction with the content written last of every page, however often pages were
  overwritten in the log in between\<close>

theorem spilled_commit:
  assumes "log_at os be sz c ckpt salt fs (pWal p)" "\<forall>f \<in> set fs. frame_ok sz f"
    and "page_size_ok sz" "\<forall>b \<in> set bs. batch_ok sz b" "batch_ok sz pgs" "n \<noteq> 0" "appends os (pWal p)"
    and "length (wr_stale os) = 8"
  shows "\<exists>rc q. transaction be os sz fl bs pgs n p = Some (rc, q) \<and> (healthy os \<and> reads_ok os \<longrightarrow> rc = SQLITE_OK)
    \<and> (rc = SQLITE_OK \<longrightarrow> (\<forall>be' los v. recover_os los v
          \<and> (pWalFd v = pWalFd (pWal q) \<or> WAL_SYNC_FLAGS fl \<noteq> 0 \<and> pWalFd v = synced q) \<longrightarrow>
        (\<exists>new. recovers be' los sz v (fs @ new) \<and> newest new = written Map.empty (bs @ [pgs]))))"
proof -
  have salt: "length salt = 8" using assms(1) by (simp add: log_at_def)
  from transaction_written [OF assms(1-8), of fl] obtain rc q where
    1: "transaction be os sz fl bs pgs n p = Some (rc, q)" "healthy os \<and> reads_ok os \<longrightarrow> rc = SQLITE_OK"
      "rc = SQLITE_OK \<longrightarrow> tx_file sz c ckpt salt fs (written Map.empty (bs @ [pgs])) fl q" by blast
  have "\<exists>new. recovers be' los sz v (fs @ new) \<and> newest new = written Map.empty (bs @ [pgs])"
    if ok: "rc = SQLITE_OK" and los: "recover_os los v"
      and v: "pWalFd v = pWalFd (pWal q) \<or> WAL_SYNC_FLAGS fl \<noteq> 0 \<and> pWalFd v = synced q" for be' los v
  proof -
    obtain gs i where gs: "take (length fs) gs = fs" "length fs < length gs" "\<forall>f \<in> set gs. frame_ok sz f" "commits (last gs)"
      "newest (drop (length fs) gs) = written Map.empty (bs @ [pgs])"
      and F: "pWalFd (pWal q) = full_log sz c ckpt salt (gs @ replicate i (last gs))"
        "WAL_SYNC_FLAGS fl \<noteq> 0 \<longrightarrow>
          (\<exists>j \<ge> length (full_log sz c ckpt salt gs). synced q = take j (full_log sz c ckpt salt (gs @ replicate i (last gs))))"
      using 1(3) ok unfolding tx_file_def by blast
    have ne: "gs \<noteq> []" using gs(2) by auto
    have "length (full_log sz c ckpt salt gs) \<le> length (full_log sz c ckpt salt (gs @ replicate i (last gs)))"
      by (simp add: full_log_append)
    then obtain j where j: "pWalFd v = take j (full_log sz c ckpt salt (gs @ replicate i (last gs)))" "length (full_log sz c ckpt salt gs) \<le> j"
      using v F by (metis take_all order_refl)
    from recovers_whole [OF salt gs(3) ne gs(4) los assms(3) j, of be'] obtain l where
      l: "recovers be' los sz v (gs @ replicate l (last gs))" by blast
    have d: "drop (length fs) gs \<noteq> []" "last (drop (length fs) gs) = last gs" using gs(2) by simp_all
    have "gs @ replicate l (last gs) = fs @ drop (length fs) gs @ replicate l (last gs)"
      by (metis append.assoc append_take_drop_id gs(1))
    then show ?thesis using l newest_repeat [OF d(1), of l] d(2) gs(5) by metis
  qed
  then show ?thesis using 1(1,2) by blast
qed

section \<open>A crash between the calls\<close>

lemma carries_parse:
  "carries sz bs fs \<Longrightarrow> no_commit fs \<Longrightarrow> \<exists>gs b. take K bs = frames_bytes c salt s gs @ b
     \<and> torn c salt sz (frames_cksum c s gs) b \<and> (\<forall>g \<in> set gs. frame_ok sz g) \<and> no_commit gs"
proof (induction fs arbitrary: bs s K)
  case Nil
  then show ?case by (intro exI [of _ "[]"] exI [of _ "[]"]) (simp add: torn_def no_commit_def WAL_FRAME_HDRSIZE_def)
next
  case (Cons f fs)
  let ?szF = "sz + WAL_FRAME_HDRSIZE"
  obtain p n d where f: "f = (p, n, d)" by (cases f)
  from Cons.prems obtain ck b2 where
    b: "bs = sqlite3Put4byte p @ sqlite3Put4byte n @ ck @ d @ b2" "length ck = 16" "length d = sz" "carries sz b2 fs"
    and n: "n = 0" "no_commit fs" by (auto simp: f no_commit_def)
  let ?fr = "sqlite3Put4byte p @ sqlite3Put4byte n @ ck @ d"
  have len: "length ?fr = ?szF" using b(2,3) by (simp add: WAL_FRAME_HDRSIZE_def)
  have bs: "bs = ?fr @ b2" by (simp add: b(1))
  show ?case
  proof (cases "\<exists>p' n' d'. frame_ok sz (p', n', d') \<and> take ?szF (take K bs) = frame_bytes c salt s p' n' d' \<and> ?szF \<le> length (take K bs)")
    case False
    then have "torn c salt sz s (take K bs)" unfolding torn_def by (meson not_less)
    then show ?thesis by (intro exI [of _ "[]"] exI [of _ "take K bs"]) (simp add: no_commit_def)
  next
    case True
    then obtain p' n' d' where g: "frame_ok sz (p', n', d')" "take ?szF (take K bs) = frame_bytes c salt s p' n' d'" "?szF \<le> K" by auto
    have fr: "?fr = frame_bytes c salt s p' n' d'"
    proof -
      have "take ?szF (take K bs) = take ?szF bs" using g(3) by (simp add: min_absorb1)
      also have "\<dots> = ?fr" unfolding bs len [symmetric] by simp
      finally show ?thesis using g(2) by simp
    qed
    have "drop 4 ?fr = sqlite3Put4byte n @ ck @ d" by simp
    then have "sqlite3Get4byte (drop 4 (frame_bytes c salt s p' n' d')) = Some n"
      using get4_put4 [of n "ck @ d"] unfolding fr [symmetric] by simp
    moreover have "sqlite3Get4byte (drop 4 (frame_bytes c salt s p' n' d')) = Some n'"
      by (simp add: frame_bytes_def Let_def get4_put4)
    ultimately have n': "n' = 0" using n(1) by simp
    from Cons.IH [OF b(4) n(2), of "K - ?szF" "frame_cksum c p' n' d' s"] obtain gs r where
      1: "take (K - ?szF) b2 = frames_bytes c salt (frame_cksum c p' n' d' s) gs @ r"
        "torn c salt sz (frames_cksum c (frame_cksum c p' n' d' s) gs) r" "\<forall>g \<in> set gs. frame_ok sz g" "no_commit gs"
      by blast
    have "take K bs = ?fr @ take (K - ?szF) b2" using g(3) len unfolding bs take_append by simp
    then have "take K bs = frames_bytes c salt s ((p', n', d') # gs) @ r" by (simp add: fr 1(1))
    then show ?thesis using 1 g(1) n'
      by (intro exI [of _ "(p', n', d') # gs"] exI [of _ r]) (simp add: no_commit_def)
  qed
qed

text \<open>C11: Between the spills of a transaction a crash, wherever it cuts the file behind the committed
  frames, and although overwritten frames have no valid checksum, leaves exactly the committed
  transactions\<close>

theorem spill_crash:
  assumes "log_at os be sz c ckpt salt fs (pWal p)" "\<forall>f \<in> set fs. frame_ok sz f" "committed fs = fs"
    and "page_size_ok sz" "\<forall>b \<in> set bs. batch_ok sz b" "bs \<noteq> []" "appends os (pWal p)"
    and "spill_all be os sz fl bs p = Some (SQLITE_OK, q)"
    and "recover_os los v" "length (full_log sz c ckpt salt fs) \<le> K" "pWalFd v = take K (pWalFd (pWal q))"
  shows "recovers be' los sz v fs"
proof -
  let ?H = "header_bytes c (of_nat sz) ckpt salt" and ?s = "header_cksum c (of_nat sz) ckpt salt"
  have salt: "length salt = 8" using assms(1) by (simp add: log_at_def)
  obtain gs where "tx_state os sz c ckpt salt fs (written Map.empty bs) gs (pWal q)"
    using spill_sequence [OF assms(1,2,4,5,6,7), of fl] assms(8) by auto
  then have tx: "tx_inv c salt sz ?H ?s gs (tx_writer sz (pWal q))" and re: "iReCksum (pWal q) = 0 \<or> length fs < iReCksum (pWal q)"
    and gs: "length fs < length gs" "take (length fs) gs = fs" "no_commit (drop (length fs) gs)" by (simp_all add: tx_state_def spilled_def)
  obtain bs where F: "pWalFd (pWal q) = ?H @ bs" and ch: "chain c salt sz ?s (valid_frames (pWal q) gs) bs gs"
    using tx by (auto simp: tx_inv_def tx_writer_def)
  have "length fs \<le> valid_frames (pWal q) gs" using re gs(1) by (auto simp: valid_frames_def)
  from chain_less [OF ch this salt] obtain b2 where b2: "bs = frames_bytes c salt ?s fs @ b2" "carries sz b2 (drop (length fs) gs)"
    by (auto simp: chain_def gs(2))
  let ?L = "full_log sz c ckpt salt fs"
  have Fv: "pWalFd v = ?L @ take (K - length ?L) b2" using assms(10,11) by (simp add: F b2(1) full_log_def)
  from carries_parse [OF b2(2) gs(3), of "K - length ?L" c salt "frames_cksum c ?s fs"] obtain hs b where
    h: "take (K - length ?L) b2 = frames_bytes c salt (frames_cksum c ?s fs) hs @ b"
      "torn c salt sz (frames_cksum c (frames_cksum c ?s fs) hs) b" "\<forall>g \<in> set hs. frame_ok sz g" "no_commit hs" by blast
  have fd: "pWalFd v = ?H @ frames_bytes c salt ?s (fs @ hs) @ b" unfolding Fv h(1) by (simp add: full_log_def frames_bytes_append)
  have ok: "\<forall>f \<in> set (fs @ hs). frame_ok sz f" using assms(2) h(3) by auto
  have "torn c salt sz (frames_cksum c ?s (fs @ hs)) b" using h(2) by (simp add: frames_cksum_append)
  from recover_log [OF assms(9,4) salt fd refl ok this, of be'] obtain v' where
    v': "walIndexRecover be' los v = Some (SQLITE_OK, v')" "wal_rep (index v') (map fst (committed (fs @ hs)), [])" by blast
  have "committed (fs @ hs) = fs" using committed_none [of hs fs] h(4) assms(3) by (auto simp: no_commit_def commits_def split_beta)
  then show ?thesis using v' full_log_content [OF salt assms(2), of _ c ckpt "take (K - length ?L) b2"]
    by (intro recoversI [of be' los v v']) (simp_all add: Fv)
qed


section \<open>An instance\<close>

lemma spilled_commit_witness:
  "\<exists>q new. transaction True (demo_write_os False) 512 2 [demo_tx, [(2, replicate 512 5)]] [(1, replicate 512 6)] 9 demo_writer = Some (SQLITE_OK, q)
    \<and> recovers False demo_log_os 512 (demo_log (synced q)) ([] @ new) \<and> newest new 1 = Some (replicate 512 6) \<and> newest new 2 = Some (replicate 512 5)"
proof -
  have b: "\<forall>b \<in> set [demo_tx, [(2, replicate 512 5)]]. batch_ok 512 b" "batch_ok 512 [(1, replicate 512 6)]" "(9 :: u32) \<noteq> 0"
    "length (wr_stale (demo_write_os False)) = 8" "reads_ok (demo_write_os False)" "WAL_SYNC_FLAGS 2 \<noteq> 0"
    by (simp_all add: batch_ok_def tx_ok_def demo_tx_def WAL_SYNC_FLAGS_def reads_ok_def demo_write_os_def demo_read_os_def demo_log_os_def)
  have "\<forall>f \<in> set []. frame_ok 512 f" by simp
  from spilled_commit [OF demo_commit_facts(1) this demo_commit_facts(4) b(1-3) demo_commit_facts(3) b(4), where fl = 2]
  obtain q where q: "transaction True (demo_write_os False) 512 2 [demo_tx, [(2, replicate 512 5)]] [(1, replicate 512 6)] 9 demo_writer = Some (SQLITE_OK, q)"
    "\<forall>be' los v. recover_os los v \<and> (pWalFd v = pWalFd (pWal q) \<or> WAL_SYNC_FLAGS 2 \<noteq> 0 \<and> pWalFd v = synced q) \<longrightarrow>
       (\<exists>new. recovers be' los 512 v ([] @ new) \<and> newest new = written Map.empty ([demo_tx, [(2, replicate 512 5)]] @ [[(1, replicate 512 6)]]))"
    using demo_commit_facts(5) b(5) by blast
  have "pWalFd (demo_log (synced q)) = synced q" by (simp add: demo_log_def)
  then obtain new where "recovers False demo_log_os 512 (demo_log (synced q)) ([] @ new)"
    "newest new = written Map.empty ([demo_tx, [(2, replicate 512 5)]] @ [[(1, replicate 512 6)]])"
    using q(2) demo_recover_facts(1) b(6) by blast
  then show ?thesis using q(1) by (intro exI [of _ q] exI [of _ new]) (simp add: demo_tx_def)
qed

lemma spill_crash_witness:
  "\<exists>q. spill_all True (demo_write_os False) 512 2 [demo_tx, [(2, replicate 512 5)]] demo_writer = Some (SQLITE_OK, q)
    \<and> recovers False demo_log_os 512 (demo_log (take 900 (pWalFd (pWal q)))) []"
proof -
  have b: "\<forall>b \<in> set [demo_tx, [(2, replicate 512 5)]]. batch_ok 512 b" "[demo_tx, [(2, replicate 512 5)]] \<noteq> []"
    by (simp_all add: batch_ok_def tx_ok_def demo_tx_def)
  have fs: "\<forall>f \<in> set []. frame_ok 512 f" "committed [] = []" by simp_all
  obtain q where q: "spill_all True (demo_write_os False) 512 2 [demo_tx, [(2, replicate 512 5)]] demo_writer = Some (SQLITE_OK, q)"
    using spill_sequence [OF demo_commit_facts(1) fs(1) demo_commit_facts(4) b demo_commit_facts(3), of False 2] demo_commit_facts(5) by auto
  have "length (full_log 512 True 0 demo_salt []) \<le> 900" "pWalFd (demo_log (take 900 (pWalFd (pWal q)))) = take 900 (pWalFd (pWal q))"
    by (simp_all add: full_log_def header_fields(1) demo_salt_def WAL_HDRSIZE_def demo_log_def)
  from spill_crash [OF demo_commit_facts(1) fs demo_commit_facts(4) b demo_commit_facts(3) q demo_recover_facts(1) this, of False]
  show ?thesis using q by blast
qed

end
