(* ===== verification/WalLost.thy ===== *)
theory WalLost
  imports WalSpill
begin

text \<open>
  A defect of \<open>sqlite3WalSavepointUndo\<close>: it moves the end of the log back, but \<open>iReCksum\<close> stays where
  an overwritten frame was.  The next frames then get no checksum, the commit computes none because they
  are all before \<open>iReCksum\<close>, and the transaction is lost although it is reported as committed.
\<close>

section \<open>A frame that is overwritten\<close>

lemma overwrite_recksum:
  assumes sp: "spilled sz c ckpt salt k fs (pWal p)" and ap: "appends os (pWal p)" and re: "iReCksum (pWal p) = 0"
    and i: "i = latest (map fst fs) (minFrame (index (pWal p))) (length fs) (fst pg)" "k < i"
    and run: "sqlite3WalFrames be os sz [pg] n False fl p = Some (SQLITE_OK, q)"
  shows "iReCksum (pWal q) = i"
proof -
  let ?ios = "index_os (file_os (shm (wr_read os)))"
  define p' where "p' = p\<lparr>iSyncPoint := 0, syncFlags := fl, wr_szPage := sz\<rparr>"
  have rep: "wal_rep (index (pWal p)) (map fst (take k fs), map fst (drop k fs))" and k: "k < length fs" using sp by (simp_all add: spilled_def)
  have mx: "mxFrame (index (pWal p)) = length fs" "live_mxFrame (index (pWal p)) = k" using rep k by (auto simp: wal_rep_def)
  have rl: "readLock (index (pWal p)) \<noteq> 0" and g: "grants ?ios (index (pWal p))" using ap by (simp_all add: appends_def)
  have "\<not> same_hdr (pWal p)" using mx k by (simp add: same_hdr_def)
  moreover have "length fs \<noteq> 0" using k by auto
  ultimately have body: "sqlite3WalFrames be os sz [pg] n False fl p = frames_body be os [pg] n False (k + 1) p'"
    using mx rl by (simp add: sqlite3WalFrames_def walRestartLog_def frames_write_def p'_def)
  have "map fst (take k fs) @ map fst (drop k fs) = map fst fs" by (metis append_take_drop_id map_append)
  then obtain ix where ix: "sqlite3WalFindFrame ?ios (index (pWal p)) (fst pg) = Some ((SQLITE_OK, i), ix)"
    using wal_rep_finds [OF rep g rl, of "fst pg"] by (auto simp: i(1))
  define w where "w = (pWal p)\<lparr>index := ix, iReCksum := i\<rparr>"
  obtain rc1 q1 where o: "osWrite os (p'\<lparr>pWal := w\<rparr>) (take sz (snd pg)) (walFrameOffset i sz + WAL_FRAME_HDRSIZE) = (rc1, q1)"
    by (metis prod.exhaust)
  have wf: "write_frames be os (k + 1) n False [pg] iF off p' =
      Some (if rc1 \<noteq> SQLITE_OK then (rc1, [], iF, off, q1) else (SQLITE_OK, [], iF, off, q1))" for iF off
    using ix i(2) re o by (simp add: Let_def w_def p'_def)
  have rc1: "rc1 = SQLITE_OK" using run unfolding body frames_body_def Let_def wf by (auto split: if_splits)
  have "frames_tail be os [] (length fs) n False (walFrameOffset (length fs + 1) sz) q1 = Some (SQLITE_OK, q)"
    using run mx unfolding body frames_body_def Let_def wf by (simp add: rc1 p'_def)
  moreover have "iReCksum (pWal q1) = i" using osWrite_recksum [OF o] by (simp add: w_def)
  ultimately show ?thesis
    by (auto simp: frames_tail_def frames_sync_def frames_finish_def frames_limit_def Let_def split: if_splits Option.bind_splits)
qed

text \<open>Two pages are spilled, then the second one again.\<close>

lemma spilled_twice:
  assumes at: "log_at os be sz c ckpt salt fs (pWal p)" and fs: "\<forall>f \<in> set fs. frame_ok sz f" and sz: "page_size_ok sz"
    and ap: "appends os (pWal p)" and mn: "minFrame (index (pWal p)) \<le> length fs + 1"
    and b: "batch_ok sz [pg1, pg2]" "length d = sz"
    and run: "spill_all be os sz fl [[pg1, pg2], [(fst pg2, d)]] p = Some (SQLITE_OK, q)"
  shows "\<exists>gs. spilled sz c ckpt salt (length fs) gs (pWal q) \<and> take (length fs) gs = fs \<and> length gs = length fs + 2
    \<and> appends os (pWal q) \<and> iReCksum (pWal q) = length fs + 2 \<and> conn_fields (index (pWal p)) (index (pWal q))"
proof -
  let ?fs = "fs @ tx_frames 0 [pg1, pg2]" and ?k = "length fs"
  have tx: "tx_ok sz [pg1, pg2]" "tx_ok sz [(fst pg2, d)]" using b by (simp_all add: batch_ok_def tx_ok_def)
  from spill_first [OF at fs sz tx(1) ap, of 0 fl] obtain rc p1 where
    1: "sqlite3WalFrames be os sz [pg1, pg2] 0 False fl p = Some (rc, p1)"
      "rc = SQLITE_OK \<longrightarrow> spilled sz c ckpt salt ?k ?fs (pWal p1) \<and> appends os (pWal p1)
        \<and> conn_fields (index (pWal p)) (index (pWal p1)) \<and> iReCksum (pWal p1) = 0" by blast
  have rc: "rc = SQLITE_OK" using run 1(1) by (auto split: if_splits)
  have sp: "spilled sz c ckpt salt ?k ?fs (pWal p1)" and ap1: "appends os (pWal p1)"
    and cf: "conn_fields (index (pWal p)) (index (pWal p1))" and re: "iReCksum (pWal p1) = 0" using 1(2) rc by simp_all
  have run2: "sqlite3WalFrames be os sz [(fst pg2, d)] 0 False fl p1 = Some (SQLITE_OK, q)"
    using run 1(1) rc by (auto split: Option.bind_splits if_splits)
  define look where "look = latest (map fst ?fs) (minFrame (index (pWal p1))) (length ?fs)"
  have i: "look (fst pg2) = ?k + 2"
  proof (cases rule: latest_cases [of "map fst ?fs" "minFrame (index (pWal p1))" "length ?fs" "fst pg2"])
    case 1
    have "minFrame (index (pWal p1)) \<le> ?k + 2" using mn cf by (simp add: conn_fields_def)
    then show ?thesis using 1(2) [of "?k + 2"] by (simp add: nth_append)
  next
    case 2
    have "\<not> look (fst pg2) < ?k + 2" using 2(5) [of "?k + 2"] by (auto simp: look_def nth_append)
    then show ?thesis using 2(3) by (simp add: look_def)
  qed
  from spill_next [OF sp ap1 tx(2) look_def, of be 0 fl] run2 have
    2: "spilled sz c ckpt salt ?k (tx_write look (?k + 1) 0 False [(fst pg2, d)] ?fs) (pWal q)" "appends os (pWal q)"
      "conn_fields (index (pWal p1)) (index (pWal q))" by auto
  have j: "?k + 2 = latest (map fst ?fs) (minFrame (index (pWal p1))) (length ?fs) (fst (fst pg2, d))" "?k < ?k + 2"
    using i by (simp_all add: look_def)
  have "iReCksum (pWal q) = ?k + 2" by (rule overwrite_recksum [OF sp ap1 re j run2])
  moreover have "tx_write look (?k + 1) 0 False [(fst pg2, d)] ?fs = replaced (?k + 1) d ?fs" by (simp add: i)
  moreover have "take ?k (replaced (?k + 1) d ?fs) = fs" by (simp add: replaced_def)
  ultimately show ?thesis using 2 conn_fields_trans [OF cf 2(3)] by (intro exI [of _ "replaced (?k + 1) d ?fs"]) simp
qed


section \<open>The commit that is lost\<close>

lemma savepoint_back:
  assumes sp: "spilled sz c ckpt salt k fs w" and ap: "appends os w"
    and s: "sp_index s = (k, nCkpt (index w))"
  shows "\<exists>ix. wal_savepoint_undo (index_os (file_os (shm (wr_read os)))) w s =
        Some (SQLITE_OK, w\<lparr>index := ix, hdr := (hdr w)\<lparr>aFrameCksum := sp_cksum s\<rparr>\<rparr>)
    \<and> wal_rep ix (map fst (take k fs), []) \<and> grants (index_os (file_os (shm (wr_read os)))) ix \<and> readLock ix \<noteq> 0"
proof -
  let ?ios = "index_os (file_os (shm (wr_read os)))"
  have rep: "wal_rep (index w) (map fst (take k fs), map fst (drop k fs))" and k: "k < length fs" using sp by (simp_all add: spilled_def)
  have mx: "mxFrame (index w) = length fs" using rep k by (auto simp: wal_rep_def)
  from savepoint_step [OF rep, of ?ios "sp_index s"] obtain ix where
    ix: "sqlite3WalSavepointUndo ?ios (index w) (sp_index s) = Some (SQLITE_OK, ix)"
      "wal_rep ix (map fst (take k fs), [])" "grants ?ios ix" "readLock ix = readLock (index w)"
    using ap k by (auto simp: s appends_def)
  then show ?thesis using ap mx k by (intro exI [of _ ix]) (simp add: wal_savepoint_undo_def s appends_def)
qed

text \<open>A frame without salt is no valid frame.\<close>

lemma plain_torn:
  assumes "salt \<noteq> replicate 8 0" "length salt = 8" "length d = sz"
  shows "torn c salt sz s (plain_bytes pg n d @ bs)"
proof -
  have "take (sz + WAL_FRAME_HDRSIZE) (plain_bytes pg n d @ bs) = plain_bytes pg n d"
    using assms(3) by (simp add: plain_bytes_def WAL_FRAME_HDRSIZE_def)
  moreover have "take 8 (drop 8 (plain_bytes pg n d)) = replicate 8 0" by (simp add: plain_bytes_def)
  ultimately show ?thesis using frame_parts(2) [OF assms(2)] assms(1) by (metis torn_def)
qed

lemma stale_checksums:
  assumes "reads_ok os" "length (wr_stale os) = 8" "iReCksum (pWal p) = iLast + 1" "iLast \<noteq> 0" "szPage (pWal p) = sz"
    and "walFrameOffset (iLast + 1) sz \<le> length (pWalFd (pWal p))"
  shows "\<exists>s. walRewriteChecksums be os iLast p =
    Some (SQLITE_OK, p\<lparr>pWal := (pWal p)\<lparr>hdr := (hdr (pWal p))\<lparr>aFrameCksum := s\<rparr>, iReCksum := 0\<rparr>\<rparr>)"
proof -
  let ?off = "walFrameOffset iLast sz + 16"
  have "walFrameOffset (iLast + 1) sz = walFrameOffset iLast sz + sz + WAL_FRAME_HDRSIZE"
    using assms(4) by (cases iLast) (simp_all add: walFrameOffset_def)
  then have le: "?off + 8 \<le> length (pWalFd (pWal p))" using assms(6) by (simp add: WAL_FRAME_HDRSIZE_def)
  let ?b = "take 8 (drop ?off (pWalFd (pWal p)))"
  have rd: "osRead os (pWal p) 8 ?off = (SQLITE_OK, Some ?b)"
    using osRead_cases [of os "pWal p" 8 ?off] assms(1) le by (metis not_less)
  have "length ?b = 8" using le by simp
  then obtain c1 c2 where c: "sqlite3Get4byte ?b = Some c1" "sqlite3Get4byte (drop 4 ?b) = Some c2"
    using get4_total [of ?b] get4_total [of "drop 4 ?b"] by auto
  have off: "(if iReCksum (pWal p) = 1 then 24 else walFrameOffset (iReCksum (pWal p) - 1) (szPage (pWal p)) + 16) = ?off"
    using assms(3-5) by simp
  have loop: "recksum_loop be os (iLast + 1) iLast q = Some (SQLITE_OK, q)" for q by (subst recksum_loop.simps) simp
  have "wr_malloc os" using assms(1) by (simp add: reads_ok_def)
  then have "walRewriteChecksums be os iLast p =
      Some (SQLITE_OK, p\<lparr>pWal := (pWal p)\<lparr>hdr := (hdr (pWal p))\<lparr>aFrameCksum := (c1, c2)\<rparr>, iReCksum := 0\<rparr>\<rparr>)"
    unfolding walRewriteChecksums_def Let_def off using rd c loop assms(3) by simp
  then show ?thesis by blast
qed

lemma lost_write:
  assumes rep: "wal_rep (index (pWal p)) (map fst fs, [])" and ap: "appends os (pWal p)" and fs: "fs \<noteq> []" "\<forall>f \<in> set fs. frame_ok sz f"
    and re: "iReCksum (pWal p) = length fs + 2" and w: "szPage (pWal p) = sz" "aSalt (hdr (pWal p)) = salt" "length salt = 8"
    and F: "pWalFd (pWal p) = full_log sz c ckpt salt fs @ bs" "length bs = 2 * (sz + WAL_FRAME_HDRSIZE)"
    and pg: "tx_ok sz [pg]" and fl: "WAL_SYNC_FLAGS fl = 0" and ok: "healthy os" "reads_ok os" "length (wr_stale os) = 8"
  shows "\<exists>q bs. sqlite3WalFrames be os sz [pg] n True fl p = Some (SQLITE_OK, q)
    \<and> live_mxFrame (index (pWal q)) = length fs + 1
    \<and> pWalFd (pWal q) = full_log sz c ckpt salt fs @ plain_bytes (fst pg) n (snd pg) @ bs"
proof -
  let ?ios = "index_os (file_os (shm (wr_read os)))" and ?L = "full_log sz c ckpt salt fs"
  let ?f = "plain_bytes (fst pg) n (snd pg)"
  define iFirst where "iFirst = (if same_hdr (pWal p) then 0 else live_mxFrame (index (pWal p)) + 1)"
  define p' where "p' = p\<lparr>iSyncPoint := 0, syncFlags := fl, wr_szPage := sz\<rparr>"
  have d: "length (snd pg) = sz" "fst pg \<noteq> 0" using pg by (simp_all add: tx_ok_def)
  have mx: "mxFrame (index (pWal p)) = length fs" "length fs \<noteq> 0" using rep fs(1) by (auto simp: wal_rep_def)
  have rl: "readLock (index (pWal p)) \<noteq> 0" and g: "grants ?ios (index (pWal p))" using ap by (simp_all add: appends_def)
  have body: "sqlite3WalFrames be os sz [pg] n True fl p = frames_body be os [pg] n True iFirst p'"
    using mx rl by (simp add: sqlite3WalFrames_def walRestartLog_def frames_write_def p'_def iFirst_def Let_def)
  have off: "walFrameOffset (length fs + 1) sz = length ?L" using length_full_log [OF w(3) fs(2)] by simp
  have a: "length (snd pg) = wr_szPage p'" "szPage (pWal p') = wr_szPage p'" "length (aSalt (hdr (pWal p'))) = 8"
    using d w by (simp_all add: p'_def)
  from walWriteOneFrame_writes [OF a, of be os "fst pg" n "length ?L"] obtain rc q1 where
    1: "walWriteOneFrame be os p' pg n (length ?L) = Some (rc, q1)" "writes (encoded p' (fst pg) n (snd pg)) (length ?L) p' rc q1"
    by auto
  have rc: "rc = SQLITE_OK" by (rule healthy_frame [OF ok(1) 1(1)])
  have enc: "encoded p' (fst pg) n (snd pg) = ?f" using re by (simp add: encoded_def Let_def p'_def)
  note t = writes_fields [OF 1(2)]
  note f = touched_fields [OF t(4)]
  have lf: "length ?f = sz + WAL_FRAME_HDRSIZE" using d by (simp add: plain_bytes_def WAL_FRAME_HDRSIZE_def)
  have F0: "pWalFd (pWal p') = ?L @ bs" using F(1) by (simp add: p'_def)
  have F1: "pWalFd (pWal q1) = ?L @ ?f @ drop (length ?f) bs"
    using writes_file [OF 1(2)] rc write_at_append [of ?L bs ?f] by (auto simp: enc F0)
  have "write_frames be os iFirst n True [pg] (length fs) (length ?L) p' =
      Some (SQLITE_OK, [pg], length fs + 1, length ?L + wr_szPage q1 + WAL_FRAME_HDRSIZE, q1)"
    using 1(1) rc by (simp add: iFirst_def)
  then have wf: "write_frames be os iFirst n True [pg] (mxFrame (index (pWal p'))) (walFrameOffset (mxFrame (index (pWal p')) + 1) (wr_szPage p')) p' =
      Some (SQLITE_OK, [pg], length fs + 1, length ?L + wr_szPage q1 + WAL_FRAME_HDRSIZE, q1)"
    using mx off by (simp add: p'_def)
  have re1: "iReCksum (pWal q1) = length fs + 1 + 1" using re by (simp add: f p'_def)
  have "szPage (pWal q1) = sz" using w by (simp add: f p'_def)
  moreover have "walFrameOffset (length fs + 1 + 1) sz \<le> length (pWalFd (pWal q1))"
    using F(2) lf off walFrameOffset_add [of "length fs" 1 sz] by (simp add: F1)
  ultimately obtain s where
    2: "walRewriteChecksums be os (length fs + 1) q1 =
      Some (SQLITE_OK, q1\<lparr>pWal := (pWal q1)\<lparr>hdr := (hdr (pWal q1))\<lparr>aFrameCksum := s\<rparr>, iReCksum := 0\<rparr>\<rparr>)"
    using stale_checksums [OF ok(2,3) re1, of sz be] by auto
  define v where "v = (pWal q1)\<lparr>hdr := (hdr (pWal q1))\<lparr>aFrameCksum := s\<rparr>, iReCksum := 0\<rparr>"
  have rep1: "wal_rep (index v) (map fst fs, [])" and g1: "grants ?ios (index v)" and salt: "length (aSalt (hdr v)) = 8"
    using rep g w by (simp_all add: v_def f p'_def)
  have app: "[pg] \<noteq> []" "0 \<notin> fst ` set [pg]" using d by simp_all
  from frames_finish_commit [OF rep1 g1 app salt, of be SQLITE_OK 0 "length fs + 1" n sz] obtain l w' where
    3: "frames_finish be os SQLITE_OK [pg] 0 (length fs + 1) n True sz v = Some (SQLITE_OK, w')"
      "walFrameOffset (length fs + 1 + 0 + 1) sz \<le> l" "pWalFd w' = take l (pWalFd v)"
      "wal_rep (index w') (map fst fs @ [] @ map fst [pg] @ replicate 0 (fst (last [pg])), [])" by blast
  have sf: "syncFlags q1 = fl" "wr_szPage q1 = sz" using t(2,3) by (simp_all add: p'_def)
  have tail: "frames_tail be os [pg] (length fs + 1) n True iO (q1\<lparr>pWal := v\<rparr>) = Some (SQLITE_OK, q1\<lparr>pWal := w'\<rparr>)" for iO
    using 3(1) fl sf by (simp add: frames_tail_def frames_sync_def)
  have "sqlite3WalFrames be os sz [pg] n True fl p = Some (SQLITE_OK, q1\<lparr>pWal := w'\<rparr>)"
    unfolding body frames_body_def Let_def wf using 2 tail re1 by (simp add: v_def)
  moreover have "live_mxFrame (index w') = length fs + 1" using 3(4) by (auto simp: wal_rep_def)
  moreover have "\<exists>bs. pWalFd w' = ?L @ ?f @ bs"
  proof -
    have "length (?L @ ?f) \<le> l" using 3(2) off lf walFrameOffset_add [of "length fs" 1 sz] by simp
    then show ?thesis using 3(3) by (simp add: v_def F1)
  qed
  ultimately show ?thesis by (metis wal_writer.select_convs(1) wal_writer.surjective wal_writer.update_convs(1))
qed


text \<open>C10: A transaction spills two pages and then the second of them again, and goes back to a savepoint
  at its start; the commit of one page after that reports success and is visible to all readers of the
  index, and yet recovery of the complete file finds only the transactions before it\<close>

theorem savepoint_loses_commit:
  assumes "log_at os be sz c ckpt salt fs (pWal p)" "fs \<noteq> []" "\<forall>f \<in> set fs. frame_ok sz f" "committed fs = fs"
    and "page_size_ok sz" "appends os (pWal p)" "minFrame (index (pWal p)) \<le> length fs + 1"
    and "batch_ok sz [pg1, pg2]" "length d = sz" "tx_ok sz [pg]" "WAL_SYNC_FLAGS fl = 0" "salt \<noteq> replicate 8 0"
    and "healthy os" "reads_ok os" "length (wr_stale os) = 8"
  shows "\<exists>p1 w q. spill_all be os sz fl [[pg1, pg2], [(fst pg2, d)]] p = Some (SQLITE_OK, p1)
    \<and> wal_savepoint_undo (index_os (file_os (shm (wr_read os)))) (pWal p1) (wal_savepoint_of (pWal p)) = Some (SQLITE_OK, w)
    \<and> sqlite3WalFrames be os sz [pg] n True fl (p1\<lparr>pWal := w\<rparr>) = Some (SQLITE_OK, q)
    \<and> live_mxFrame (index (pWal q)) = length fs + 1
    \<and> (\<forall>be' los v. recover_os los v \<and> pWalFd v = pWalFd (pWal q) \<longrightarrow> recovers be' los sz v fs)"
proof -
  let ?H = "header_bytes c (of_nat sz) ckpt salt" and ?s = "header_cksum c (of_nat sz) ckpt salt"
  let ?L = "full_log sz c ckpt salt fs" and ?sp = "wal_savepoint_of (pWal p)"
  have "\<forall>b \<in> set [[pg1, pg2], [(fst pg2, d)]]. batch_ok sz b" using assms(8,9) by (simp add: batch_ok_def tx_ok_def)
  from spill_sequence [OF assms(1,3,5) this _ assms(6), of fl] assms(13) obtain p1 where
    run1: "spill_all be os sz fl [[pg1, pg2], [(fst pg2, d)]] p = Some (SQLITE_OK, p1)" by auto
  from spilled_twice [OF assms(1,3,5,6,7,8,9) run1] obtain gs where
    g: "spilled sz c ckpt salt (length fs) gs (pWal p1)" "take (length fs) gs = fs" "length gs = length fs + 2" "appends os (pWal p1)"
      "iReCksum (pWal p1) = length fs + 2" "conn_fields (index (pWal p)) (index (pWal p1))" by blast
  have "mxFrame (index (pWal p)) = length fs" using assms(1) by (auto simp: log_at_def wal_rep_def)
  then have "sp_index ?sp = (length fs, nCkpt (index (pWal p1)))"
    using g(6) by (simp add: wal_savepoint_of_def sqlite3WalSavepoint_def conn_fields_def)
  from savepoint_back [OF g(1,4) this] obtain ix where
    run2: "wal_savepoint_undo (index_os (file_os (shm (wr_read os)))) (pWal p1) ?sp =
        Some (SQLITE_OK, (pWal p1)\<lparr>index := ix, hdr := (hdr (pWal p1))\<lparr>aFrameCksum := sp_cksum ?sp\<rparr>\<rparr>)"
      and ix: "wal_rep ix (map fst fs, [])" "grants (index_os (file_os (shm (wr_read os)))) ix" "readLock ix \<noteq> 0"
    by (auto simp: g(2))
  let ?w = "(pWal p1)\<lparr>index := ix, hdr := (hdr (pWal p1))\<lparr>aFrameCksum := sp_cksum ?sp\<rparr>\<rparr>"
  have tx: "tx_inv c salt sz ?H ?s gs (tx_writer sz (pWal p1))" using g(1) by (simp add: spilled_def)
  then have w: "szPage (pWal p1) = sz" "aSalt (hdr (pWal p1)) = salt" "length salt = 8" by (simp_all add: tx_inv_def tx_writer_def)
  obtain bs where bs: "pWalFd (pWal p1) = ?H @ bs" "chain c salt sz ?s (valid_frames (pWal p1) gs) bs gs"
    using tx by (auto simp: tx_inv_def tx_writer_def)
  have "length fs \<le> valid_frames (pWal p1) gs" by (simp add: valid_frames_def g(5))
  from chain_less [OF bs(2) this w(3)] obtain b2 where
    b2: "bs = frames_bytes c salt ?s fs @ b2" "carries sz b2 (drop (length fs) gs)" by (auto simp: chain_def g(2))
  have F: "pWalFd (pWal p1) = ?L @ b2" "length b2 = 2 * (sz + WAL_FRAME_HDRSIZE)"
    using carries_length [OF b2(2)] g(3) by (simp_all add: bs(1) b2(1) full_log_def)
  let ?p = "p1\<lparr>pWal := ?w\<rparr>"
  have pre: "wal_rep (index (pWal ?p)) (map fst fs, [])" "appends os (pWal ?p)" "iReCksum (pWal ?p) = length fs + 2"
    "szPage (pWal ?p) = sz" "aSalt (hdr (pWal ?p)) = salt" "pWalFd (pWal ?p) = ?L @ b2"
    using ix g(5) w F(1) by (simp_all add: appends_def)
  from lost_write [OF pre(1,2) assms(2,3) pre(3-5) w(3) pre(6) F(2) assms(10,11,13-15), of be n] obtain q bs where
    run3: "sqlite3WalFrames be os sz [pg] n True fl ?p = Some (SQLITE_OK, q)" "live_mxFrame (index (pWal q)) = length fs + 1"
      "pWalFd (pWal q) = ?L @ plain_bytes (fst pg) n (snd pg) @ bs" by blast
  have "recovers be' los sz v fs" if los: "recover_os los v" and v: "pWalFd v = pWalFd (pWal q)" for be' los v
  proof -
    have fd: "pWalFd v = ?H @ frames_bytes c salt ?s fs @ plain_bytes (fst pg) n (snd pg) @ bs"
      by (simp add: v run3(3) full_log_def)
    have "torn c salt sz (frames_cksum c ?s fs) (plain_bytes (fst pg) n (snd pg) @ bs)"
      using plain_torn [OF assms(12) w(3)] assms(10) by (simp add: tx_ok_def)
    from recover_log [OF los assms(5) w(3) fd refl assms(3) this, of be'] obtain v' where
      v': "walIndexRecover be' los v = Some (SQLITE_OK, v')" "wal_rep (index v') (map fst fs, [])"
      by (auto simp: assms(4))
    then show ?thesis using full_log_content [OF w(3) assms(3), of _ c ckpt "plain_bytes (fst pg) n (snd pg) @ bs"]
      by (intro recoversI [of be' los v v']) (simp_all add: v run3(3))
  qed
  then show ?thesis using run1 run2 run3(1,2) by blast
qed


section \<open>An instance\<close>

text \<open>A log of one transaction with one page.\<close>

definition one_frame :: "frame list" where
  "one_frame = [(1, 3, replicate 512 9)]"

definition one_writer :: "wal \<Rightarrow> wal_writer" where
  "one_writer ix = \<lparr>pWal = (let w = demo_log (full_log 512 True 0 demo_salt one_frame);
       h = (hdr w)\<lparr>aFrameCksum := frames_cksum True (header_cksum True 512 0 demo_salt) one_frame\<rparr> in
       w\<lparr>index := ix, hdr := h, live_hdr := h\<rparr>), synced = [], iSyncPoint = 0, syncFlags = 0, wr_szPage = 0\<rparr>"

lemma one_frame_facts:
  "one_frame \<noteq> []" "\<forall>f \<in> set one_frame. frame_ok 512 f" "committed one_frame = one_frame"
  by (simp_all add: one_frame_def frame_ok_def committed_def commits_def)

lemma one_writer_facts:
  obtains ix where "log_at (demo_write_os b) True 512 True 0 demo_salt one_frame (pWal (one_writer ix))"
    "appends (demo_write_os b) (pWal (one_writer ix))" "minFrame (index (pWal (one_writer ix))) \<le> length one_frame + 1"
proof -
  let ?ios = "index_os (file_os (shm (wr_read (demo_write_os b))))"
  have ios: "?ios = demo_wal_os" by (simp add: demo_write_os_def demo_read_os_def demo_log_os_def)
  have "wal_rep demo_wal ([], [])" by (rule new_wal_rep [OF demo_wal_facts(1)])
  from frames_step [OF this demo_wal_facts(2), of "[1]" True] obtain ix where
    ix: "wal_rep ix ([1], [])" "grants demo_wal_os ix" "readLock ix = readLock demo_wal" "minFrame ix = minFrame demo_wal" by auto
  show thesis
  proof (rule that [of ix])
    have "mxFrame ix = live_mxFrame ix" using ix(1) by (auto simp: wal_rep_def)
    then show "log_at (demo_write_os b) True 512 True 0 demo_salt one_frame (pWal (one_writer ix))"
      using ix(1) one_frame_facts(1) by (simp add: log_at_def one_writer_def one_frame_def same_hdr_def demo_log_def Let_def demo_salt_def)
    show "appends (demo_write_os b) (pWal (one_writer ix))" "minFrame (index (pWal (one_writer ix))) \<le> length one_frame + 1"
      unfolding appends_def ios using ix(2-4) demo_wal_facts(3) by (simp_all add: one_writer_def Let_def demo_wal_def)
  qed
qed

lemma savepoint_loses_commit_witness:
  "\<exists>ix p1 w q. spill_all True (demo_write_os False) 512 0 [demo_tx, [(2, replicate 512 5)]] (one_writer ix) = Some (SQLITE_OK, p1)
    \<and> wal_savepoint_undo demo_wal_os (pWal p1) (wal_savepoint_of (pWal (one_writer ix))) = Some (SQLITE_OK, w)
    \<and> sqlite3WalFrames True (demo_write_os False) 512 [(3, replicate 512 6)] 4 True 0 (p1\<lparr>pWal := w\<rparr>) = Some (SQLITE_OK, q)
    \<and> live_mxFrame (index (pWal q)) = 2 \<and> recovers False demo_log_os 512 (demo_log (pWalFd (pWal q))) one_frame"
proof -
  obtain ix where ix: "log_at (demo_write_os False) True 512 True 0 demo_salt one_frame (pWal (one_writer ix))"
    "appends (demo_write_os False) (pWal (one_writer ix))" "minFrame (index (pWal (one_writer ix))) \<le> length one_frame + 1"
    using one_writer_facts by blast
  have ios: "index_os (file_os (shm (wr_read (demo_write_os False)))) = demo_wal_os"
    by (simp add: demo_write_os_def demo_read_os_def demo_log_os_def)
  have salt: "demo_salt \<noteq> replicate 8 0" by (simp add: demo_salt_def replicate.simps(2) [of 7, simplified])
  have h: "batch_ok 512 [(1, replicate 512 7), (2, replicate 512 8)]" "length (replicate 512 (5 :: u8)) = 512"
    "tx_ok 512 [(3, replicate 512 6)]" "WAL_SYNC_FLAGS 0 = 0" "reads_ok (demo_write_os False)"
    "length (wr_stale (demo_write_os False)) = 8"
    by (simp_all add: batch_ok_def tx_ok_def WAL_SYNC_FLAGS_def reads_ok_def demo_write_os_def demo_read_os_def demo_log_os_def)
  from savepoint_loses_commit [OF ix(1) one_frame_facts demo_commit_facts(4) ix(2,3) h(1-4) salt demo_commit_facts(5) h(5,6), of 4]
  obtain p1 w q where
    1: "spill_all True (demo_write_os False) 512 0 [demo_tx, [(2, replicate 512 5)]] (one_writer ix) = Some (SQLITE_OK, p1)"
      "wal_savepoint_undo demo_wal_os (pWal p1) (wal_savepoint_of (pWal (one_writer ix))) = Some (SQLITE_OK, w)"
      "sqlite3WalFrames True (demo_write_os False) 512 [(3, replicate 512 6)] 4 True 0 (p1\<lparr>pWal := w\<rparr>) = Some (SQLITE_OK, q)"
      "live_mxFrame (index (pWal q)) = length one_frame + 1"
      "\<forall>be' los v. recover_os los v \<and> pWalFd v = pWalFd (pWal q) \<longrightarrow> recovers be' los 512 v one_frame"
    unfolding ios demo_tx_def [symmetric] fst_conv by blast
  have "pWalFd (demo_log (pWalFd (pWal q))) = pWalFd (pWal q)" by (simp add: demo_log_def)
  then have "recovers False demo_log_os 512 (demo_log (pWalFd (pWal q))) one_frame" using 1(5) demo_recover_facts(1) by blast
  moreover have "length one_frame + 1 = 2" by (simp add: one_frame_def)
  ultimately show ?thesis using 1(1-4) by metis
qed

end
