(* ===== verification/SerialType.thy ===== *)
theory SerialType
  imports Varint
begin

text \<open>
  Values in records (\<open>vdbeaux.c\<close>, \<open>vdbemem.c\<close>): the serial type of a value, writing its bytes and reading them
  back.  The fields of \<open>Mem\<close> that matter here: the members \<open>i\<close> and \<open>r\<close> of the union are the word \<open>mem_u\<close> (a double
  is its bits), \<open>nZero\<close> is a field of its own; \<open>mem_z\<close> is what is readable from the pointer \<open>z\<close>.
\<close>

section \<open>Code\<close>

definition MEM_Null :: u16 where "MEM_Null = 0x0001"
definition MEM_Str :: u16 where "MEM_Str = 0x0002"
definition MEM_Int :: u16 where "MEM_Int = 0x0004"
definition MEM_Real :: u16 where "MEM_Real = 0x0008"
definition MEM_Blob :: u16 where "MEM_Blob = 0x0010"
definition MEM_Term :: u16 where "MEM_Term = 0x0200"
definition MEM_Ephem :: u16 where "MEM_Ephem = 0x1000"
definition MEM_Zero :: u16 where "MEM_Zero = 0x4000"

lemmas mem_masks = MEM_Null_def MEM_Str_def MEM_Int_def MEM_Real_def MEM_Blob_def MEM_Term_def MEM_Ephem_def MEM_Zero_def

record mem =
  mem_flags :: u16
  mem_u :: u64
  mem_nZero :: u32
  mem_n :: u32               \<comment> \<open>an \<open>int\<close>\<close>
  mem_z :: "u8 list"
  mem_uTemp :: u32

definition has :: "mem \<Rightarrow> u16 \<Rightarrow> bool" where
  "has m f \<longleftrightarrow> mem_flags m AND f \<noteq> 0"

definition MAX_6BYTE :: u64 where "MAX_6BYTE = push_bit 32 0x00008000 - 1"

text \<open>The serial type and the number of bytes.\<close>

definition sqlite3VdbeSerialType :: "mem \<Rightarrow> nat \<Rightarrow> (u32 \<times> u32) option" where
  "sqlite3VdbeSerialType m file_format =
     (if has m MEM_Null then Some (0, 0)
      else if has m MEM_Int then
        let i = mem_u m; u = (if i <s 0 then NOT i else i) in
        Some (if u \<le> 127 then (if i AND 1 = i \<and> 4 \<le> file_format then (8 + ucast u, 0) else (1, 1))
          else if u \<le> 32767 then (2, 2)
          else if u \<le> 8388607 then (3, 3)
          else if u \<le> 2147483647 then (4, 4)
          else if u \<le> MAX_6BYTE then (5, 6)
          else (6, 8))
      else if has m MEM_Real then Some (7, 8)
      else if \<not> has m (MEM_Str OR MEM_Blob) \<or> bit (mem_n m) 31 then None
      else
        let n = mem_n m + (if has m MEM_Zero then mem_nZero m else 0) in
        Some (n * 2 + 12 + of_bool (has m MEM_Str), n))"

definition sqlite3SmallTypeSizes :: "u8 list" where
  "sqlite3SmallTypeSizes =
   [0, 1, 2, 3, 4, 6, 8, 8, 0, 0, 0, 0, 0, 0, 1, 1, 2, 2, 3, 3,
    4, 4, 5, 5, 6, 6, 7, 7, 8, 8, 9, 9, 10, 10, 11, 11, 12, 12, 13, 13,
    14, 14, 15, 15, 16, 16, 17, 17, 18, 18, 19, 19, 20, 20, 21, 21, 22, 22, 23, 23,
    24, 24, 25, 25, 26, 26, 27, 27, 28, 28, 29, 29, 30, 30, 31, 31, 32, 32, 33, 33,
    34, 34, 35, 35, 36, 36, 37, 37, 38, 38, 39, 39, 40, 40, 41, 41, 42, 42, 43, 43,
    44, 44, 45, 45, 46, 46, 47, 47, 48, 48, 49, 49, 50, 50, 51, 51, 52, 52, 53, 53,
    54, 54, 55, 55, 56, 56, 57, 57]"

definition sqlite3VdbeSerialTypeLen :: "u32 \<Rightarrow> u32" where
  "sqlite3VdbeSerialTypeLen t =
     (if 128 \<le> t then (t - 12) div 2 else ucast (sqlite3SmallTypeSizes ! unat t))"

text \<open>The loop that writes bytes from the last to the first.\<close>

fun put_int :: "nat \<Rightarrow> u64 \<Rightarrow> u8 list \<Rightarrow> u8 list" where
  "put_int 0 v buf = buf"
| "put_int (Suc i) v buf = put_int i (drop_bit 8 v) (ucast (v AND 0xFF) # buf)"

text \<open>The bytes that are written; their number is the result.\<close>

definition sqlite3VdbeSerialPut :: "mem \<Rightarrow> u32 \<Rightarrow> u8 list option" where
  "sqlite3VdbeSerialPut m t =
     (if t \<le> 7 \<and> 0 < t then Some (put_int (unat (sqlite3SmallTypeSizes ! unat t)) (mem_u m) [])
      else if 12 \<le> t then
        if mem_n m + (if has m MEM_Zero then mem_nZero m else 0) \<noteq> sqlite3VdbeSerialTypeLen t
          \<or> length (mem_z m) < unat (mem_n m) then None
        else Some (take (unat (mem_n m)) (mem_z m))
      else Some [])"

definition ONE_BYTE_INT :: "u8 list \<Rightarrow> u32 option" where
  "ONE_BYTE_INT x = do { x0 \<leftarrow> byte_at x 0; Some (scast x0) }"

definition TWO_BYTE_INT :: "u8 list \<Rightarrow> u32 option" where
  "TWO_BYTE_INT x = do { x0 \<leftarrow> byte_at x 0; x1 \<leftarrow> byte_at x 1; Some (256 * scast x0 OR ucast x1) }"

definition THREE_BYTE_INT :: "u8 list \<Rightarrow> u32 option" where
  "THREE_BYTE_INT x = do {
     x0 \<leftarrow> byte_at x 0; x1 \<leftarrow> byte_at x 1; x2 \<leftarrow> byte_at x 2;
     Some (65536 * scast x0 OR push_bit 8 (ucast x1) OR ucast x2)
   }"

definition FOUR_BYTE_UINT :: "u8 list \<Rightarrow> u32 option" where
  "FOUR_BYTE_UINT x = do {
     x0 \<leftarrow> byte_at x 0; x1 \<leftarrow> byte_at x 1; x2 \<leftarrow> byte_at x 2; x3 \<leftarrow> byte_at x 3;
     Some (push_bit 24 (ucast x0) OR push_bit 16 (ucast x1) OR push_bit 8 (ucast x2) OR ucast x3)
   }"

definition FOUR_BYTE_INT :: "u8 list \<Rightarrow> u32 option" where
  "FOUR_BYTE_INT x = do {
     x0 \<leftarrow> byte_at x 0; x1 \<leftarrow> byte_at x 1; x2 \<leftarrow> byte_at x 2; x3 \<leftarrow> byte_at x 3;
     Some (16777216 * scast x0 OR push_bit 16 (ucast x1) OR push_bit 8 (ucast x2) OR ucast x3)
   }"

text \<open>On the bits of a double (binary64): the exponent is full and the fraction is not 0.\<close>

definition sqlite3IsNaN :: "u64 \<Rightarrow> bool" where
  "sqlite3IsNaN r \<longleftrightarrow> drop_bit 52 r AND 0x7ff = 0x7ff \<and> r AND mask 52 \<noteq> 0"

definition serialGet :: "u8 list \<Rightarrow> u32 \<Rightarrow> mem \<Rightarrow> (u32 \<times> mem) option" where
  "serialGet buf t m = do {
     x \<leftarrow> FOUR_BYTE_UINT buf;
     y \<leftarrow> FOUR_BYTE_UINT (drop 4 buf);
     let x = push_bit 32 (ucast x) + ucast y;
     Some (8, if t = 6 then m\<lparr>mem_u := x, mem_flags := MEM_Int\<rparr>
              else m\<lparr>mem_u := x, mem_flags := if sqlite3IsNaN x then MEM_Null else MEM_Real\<rparr>)
   }"

definition sqlite3VdbeSerialGet :: "u8 list \<Rightarrow> u32 \<Rightarrow> mem \<Rightarrow> (u32 \<times> mem) option" where
  "sqlite3VdbeSerialGet buf t m =
     (if t = 10 then Some (0, m\<lparr>mem_flags := MEM_Null OR MEM_Zero, mem_n := 0, mem_nZero := 0\<rparr>)
      else if t = 11 \<or> t = 0 then Some (0, m\<lparr>mem_flags := MEM_Null\<rparr>)
      else if t = 1 then do { x \<leftarrow> ONE_BYTE_INT buf; Some (1, m\<lparr>mem_u := scast x, mem_flags := MEM_Int\<rparr>) }
      else if t = 2 then do { x \<leftarrow> TWO_BYTE_INT buf; Some (2, m\<lparr>mem_u := scast x, mem_flags := MEM_Int\<rparr>) }
      else if t = 3 then do { x \<leftarrow> THREE_BYTE_INT buf; Some (3, m\<lparr>mem_u := scast x, mem_flags := MEM_Int\<rparr>) }
      else if t = 4 then do { x \<leftarrow> FOUR_BYTE_INT buf; Some (4, m\<lparr>mem_u := scast x, mem_flags := MEM_Int\<rparr>) }
      else if t = 5 then do {
        x \<leftarrow> FOUR_BYTE_UINT (drop 2 buf);
        y \<leftarrow> TWO_BYTE_INT buf;
        Some (6, m\<lparr>mem_u := ucast x + push_bit 32 1 * scast y, mem_flags := MEM_Int\<rparr>)
      }
      else if t = 6 \<or> t = 7 then serialGet buf t m
      else if t = 8 \<or> t = 9 then Some (0, m\<lparr>mem_u := ucast (t - 8), mem_flags := MEM_Int\<rparr>)
      else let n = (t - 12) div 2 in
        Some (n, m\<lparr>mem_z := buf, mem_n := n, mem_flags := (if t AND 1 = 0 then MEM_Blob else MEM_Str) OR MEM_Ephem\<rparr>))"

section \<open>Integers\<close>

text \<open>The value is the sign extension of its lower \<open>k + 1\<close> bits.\<close>

definition narrow :: "nat \<Rightarrow> u64 \<Rightarrow> bool" where
  "narrow k v \<longleftrightarrow> (\<forall>n. k \<le> n \<and> n < 64 \<longrightarrow> bit v n = bit v 63)"

lemma negative_bit: "v <s 0 \<longleftrightarrow> bit v 63" for v :: u64
  using bit_last_iff [of v] by (simp add: word_sless_alt)

lemma below_mask: "w \<le> mask k \<longleftrightarrow> (\<forall>n. k \<le> n \<longrightarrow> \<not> bit w n)" if "k \<le> 63" for w :: u64
proof -
  have "uint (mask k :: u64) = 2 ^ k - 1" using that by (simp only: uint_mask_eq) (simp add: min_def mask_eq_exp_minus_1)
  then have "w \<le> mask k \<longleftrightarrow> uint w < 2 ^ k" by (simp add: word_le_def)
  also have "\<dots> \<longleftrightarrow> unat w < 2 ^ k"
    by (simp flip: of_nat_less_iff [where ?'a = int])
  also have "\<dots> \<longleftrightarrow> drop_bit k w = 0" by (rule shift_right_eq_0_iff [symmetric])
  also have "\<dots> \<longleftrightarrow> (\<forall>n. k \<le> n \<longrightarrow> \<not> bit w n)"
  proof -
    have "drop_bit k w = 0 \<longleftrightarrow> (\<forall>n. \<not> bit (drop_bit k w) n)" by (auto intro: bit_word_eqI)
    then show ?thesis unfolding bit_drop_bit_eq comp_def by (metis le_add1 le_Suc_ex)
  qed
  finally show ?thesis .
qed

lemma magnitude_narrow: "(if v <s 0 then NOT v else v) \<le> mask k \<longleftrightarrow> narrow k v" if "k \<le> 63" for v :: u64
proof -
  have len: "n < 64" if "bit v n" for n using bit_imp_le_length [OF that] by simp
  have neg: "bit (NOT v) n \<longleftrightarrow> n < 64 \<and> \<not> bit v n" for n by (simp add: bit_not_iff)
  show ?thesis
  proof (cases "bit v 63")
    case True
    then have "(if v <s 0 then NOT v else v) \<le> mask k \<longleftrightarrow> (\<forall>n. k \<le> n \<longrightarrow> \<not> bit (NOT v) n)"
      by (simp only: negative_bit if_True below_mask [OF that])
    then show ?thesis unfolding narrow_def neg using True by blast
  next
    case False
    then have "(if v <s 0 then NOT v else v) \<le> mask k \<longleftrightarrow> (\<forall>n. k \<le> n \<longrightarrow> \<not> bit v n)"
      by (simp only: negative_bit if_False below_mask [OF that])
    then show ?thesis unfolding narrow_def using False len by blast
  qed
qed

lemma narrow_min: "narrow k v \<Longrightarrow> k \<le> 63 \<Longrightarrow> n < 64 \<Longrightarrow> bit v (min k n) = bit v n"
proof (cases "n \<le> k")
  case False
  assume v: "narrow k v" "k \<le> 63" "n < 64"
  have "bit v k = bit v 63" by (rule v(1) [unfolded narrow_def, rule_format]) (use v in simp)
  moreover have "bit v n = bit v 63" by (rule v(1) [unfolded narrow_def, rule_format]) (use v False in simp)
  moreover have "min k n = k" using False by simp
  ultimately show ?thesis by (simp only:)
qed (simp add: min_absorb2)

text \<open>The upper byte with its sign, and the lower ones.\<close>

lemma sign_extend:
  fixes v :: u64
  assumes j: "j \<le> 24" and n: "n < 64"
  shows "bit (scast (push_bit j (scast (ucast (drop_bit j v) :: u8)) OR take_bit j (ucast v) :: u32) :: u64) n = bit v (min (j + 7) n)"
proof (cases "n < j")
  case True
  then show ?thesis using j n by (simp add: bit_simps min_absorb2 not_le)
next
  case False
  have m: "min 31 n < 32" "j \<le> min 31 n" "min 31 n < 64" "j + min 7 (min 31 n - j) = min (j + 7) n" "min 7 (min 31 n - j) < 8"
    "min 31 n - j < 32" "\<not> min 31 n < j"
    using j False by (simp_all add: min_def, presburger+)
  then show ?thesis using j n False by (simp add: bit_simps)
qed

lemma lower_bytes:
  fixes v :: u64
  shows "(ucast (ucast (v AND 0xFF) :: u8) :: u32) = take_bit 8 (ucast v)"
    "(push_bit 8 (ucast (ucast (drop_bit 8 v AND 0xFF) :: u8)) OR ucast (ucast (v AND 0xFF) :: u8) :: u32) = take_bit 16 (ucast v)"
    "(push_bit 16 (ucast (ucast (drop_bit 16 v AND 0xFF) :: u8)) OR push_bit 8 (ucast (ucast (drop_bit 8 v AND 0xFF) :: u8))
       OR ucast (ucast (v AND 0xFF) :: u8) :: u32) = take_bit 24 (ucast v)"
    "(push_bit 24 (ucast (ucast (drop_bit 24 v AND 0xFF) :: u8)) OR push_bit 16 (ucast (ucast (drop_bit 16 v AND 0xFF) :: u8))
       OR push_bit 8 (ucast (ucast (drop_bit 8 v AND 0xFF) :: u8)) OR ucast (ucast (v AND 0xFF) :: u8) :: u32) = ucast v"
  by (rule u32_eqI; simp add: bit_simps mask_ff)+


lemma small_types: "sqlite3SmallTypeSizes = [0, 1, 2, 3, 4, 6, 8, 8, 0, 0, 0, 0] @ map (\<lambda>i. of_nat (i div 2)) [0..<116]"
  by code_simp

lemma type_sizes [simp]:
  "sqlite3SmallTypeSizes ! Suc 0 = 1" "sqlite3SmallTypeSizes ! 2 = 2" "sqlite3SmallTypeSizes ! 3 = 3"
  "sqlite3SmallTypeSizes ! 4 = 4" "sqlite3SmallTypeSizes ! 5 = 6" "sqlite3SmallTypeSizes ! 6 = 8" "sqlite3SmallTypeSizes ! 7 = 8"
  by (simp_all add: small_types)

lemma put_int_simps:
  "put_int 1 v [] = [ucast (v AND 0xFF)]"
  "put_int 2 v [] = [ucast (drop_bit 8 v AND 0xFF), ucast (v AND 0xFF)]"
  "put_int 3 v [] = [ucast (drop_bit 16 v AND 0xFF), ucast (drop_bit 8 v AND 0xFF), ucast (v AND 0xFF)]"
  "put_int 4 v [] = [ucast (drop_bit 24 v AND 0xFF), ucast (drop_bit 16 v AND 0xFF), ucast (drop_bit 8 v AND 0xFF), ucast (v AND 0xFF)]"
  "put_int 6 v [] = put_int 2 (drop_bit 32 v) (put_int 4 v [])"
  "put_int 8 v [] = put_int 4 (drop_bit 32 v) (put_int 4 v [])"
  by (simp_all add: numeral_eq_Suc drop_bit_drop_bit)

lemma put_int_append: "put_int k v (bs @ cs) = put_int k v bs @ cs"
  by (induction k v bs rule: put_int.induct) simp_all

lemma put_int_pre: "put_int k v bs = put_int k v [] @ bs"
  using put_int_append [of k v "[]" bs] by simp

lemma length_put_int [simp]: "length (put_int k v bs) = k + length bs"
  by (induction k v bs rule: put_int.induct) simp_all

text \<open>What the macros read of these bytes.\<close>

lemma shifted_byte: "(256 :: u32) * x = push_bit 8 x" "(65536 :: u32) * x = push_bit 16 x" "(16777216 :: u32) * x = push_bit 24 x"
  by (simp_all add: push_bit_eq_mult)

lemma and_ff_u8: "(ucast (w AND 0xFF) :: u8) = ucast w" for w :: u64
  by (rule bit_word_eqI) (simp add: bit_simps mask_ff)

lemma get_bytes:
  "ONE_BYTE_INT (put_int 1 v [] @ r) = Some (scast (ucast v :: u8))"
  "TWO_BYTE_INT (put_int 2 v [] @ r) = Some (push_bit 8 (scast (ucast (drop_bit 8 v) :: u8)) OR take_bit 8 (ucast v))"
  "THREE_BYTE_INT (put_int 3 v [] @ r) = Some (push_bit 16 (scast (ucast (drop_bit 16 v) :: u8)) OR take_bit 16 (ucast v))"
  "FOUR_BYTE_INT (put_int 4 v [] @ r) = Some (push_bit 24 (scast (ucast (drop_bit 24 v) :: u8)) OR take_bit 24 (ucast v))"
  "FOUR_BYTE_UINT (put_int 4 v [] @ r) = Some (ucast v)"
  using lower_bytes [of v] unfolding put_int_simps and_ff_u8
  by (simp_all add: ONE_BYTE_INT_def TWO_BYTE_INT_def THREE_BYTE_INT_def FOUR_BYTE_INT_def FOUR_BYTE_UINT_def shifted_byte or.assoc)

lemma drop_put_int: "drop k (put_int k v bs) = bs"
  using put_int_pre [of k v bs] length_put_int [of k v "[]"] by (metis add.right_neutral append_eq_conv_conj list.size(3))

lemma extended: "scast (push_bit j (scast (ucast (drop_bit j v) :: u8)) OR take_bit j (ucast v) :: u32) = v"
  if "j \<le> 24" "narrow (j + 7) v" for v :: u64
  using sign_extend [OF that(1), of _ v] narrow_min [OF that(2)] that(1) by (intro bit_word_eqI) simp

lemma extended_6: "ucast (ucast v :: u32) + push_bit 32 1 *
    scast (push_bit 8 (scast (ucast (drop_bit 8 (drop_bit 32 v)) :: u8)) OR take_bit 8 (ucast (drop_bit 32 v)) :: u32) = v"
  if "narrow 47 v" for v :: u64
proof -
  let ?y = "scast (push_bit 8 (scast (ucast (drop_bit 8 (drop_bit 32 v)) :: u8)) OR take_bit 8 (ucast (drop_bit 32 v)) :: u32) :: u64"
  have y: "bit ?y n = bit v (32 + min 15 n)" if "n < 64" for n
    using sign_extend [OF _ that, of 8 "drop_bit 32 v"] by (simp add: bit_drop_bit_eq)
  have e: "push_bit 32 1 * y = push_bit 32 y" for y :: u64 by (simp add: push_bit_eq_mult)
  have "ucast (ucast v :: u32) + push_bit 32 1 * ?y = ucast (ucast v :: u32) OR push_bit 32 ?y"
    unfolding e [of ?y] by (rule disjunctive_add) (simp add: bit_ucast_iff bit_push_bit_iff)
  also have "\<dots> = v"
  proof (rule bit_word_eqI)
    fix n assume n: "n < LENGTH(64)"
    show "bit (ucast (ucast v :: u32) OR push_bit 32 ?y) n = bit v n"
    proof (cases "n < 32")
      case True
      then show ?thesis by (simp add: bit_simps)
    next
      case False
      then have "32 + min 15 (n - 32) = min 47 n" by (simp add: min_def, presburger)
      then show ?thesis using False n y [of "n - 32"] narrow_min [OF that, of n] by (simp add: bit_or_iff bit_ucast_iff bit_push_bit_iff)
    qed
  qed
  finally show ?thesis .
qed

lemma extended_8: "push_bit 32 (ucast (ucast (drop_bit 32 v) :: u32)) + ucast (ucast v :: u32) = v" for v :: u64
proof -
  have "push_bit 32 (ucast (ucast (drop_bit 32 v) :: u32)) + ucast (ucast v :: u32)
      = push_bit 32 (ucast (ucast (drop_bit 32 v) :: u32)) OR (ucast (ucast v :: u32) :: u64)"
    by (rule disjunctive_add) (auto simp: bit_simps)
  also have "\<dots> = v" by (rule bit_word_eqI) (auto simp: bit_simps not_less)
  finally show ?thesis .
qed

text \<open>Reading an integer that was written at its width.\<close>

lemma get_put_int:
  fixes v :: u64
  shows "narrow 7 v \<Longrightarrow> sqlite3VdbeSerialGet (put_int 1 v [] @ r) 1 m = Some (1, m\<lparr>mem_u := v, mem_flags := MEM_Int\<rparr>)"
    "narrow 15 v \<Longrightarrow> sqlite3VdbeSerialGet (put_int 2 v [] @ r) 2 m = Some (2, m\<lparr>mem_u := v, mem_flags := MEM_Int\<rparr>)"
    "narrow 23 v \<Longrightarrow> sqlite3VdbeSerialGet (put_int 3 v [] @ r) 3 m = Some (3, m\<lparr>mem_u := v, mem_flags := MEM_Int\<rparr>)"
    "narrow 31 v \<Longrightarrow> sqlite3VdbeSerialGet (put_int 4 v [] @ r) 4 m = Some (4, m\<lparr>mem_u := v, mem_flags := MEM_Int\<rparr>)"
    "narrow 47 v \<Longrightarrow> sqlite3VdbeSerialGet (put_int 6 v [] @ r) 5 m = Some (6, m\<lparr>mem_u := v, mem_flags := MEM_Int\<rparr>)"
    "sqlite3VdbeSerialGet (put_int 8 v [] @ r) 6 m = Some (8, m\<lparr>mem_u := v, mem_flags := MEM_Int\<rparr>)"
    "sqlite3VdbeSerialGet (put_int 8 v [] @ r) 7 m = Some (8, m\<lparr>mem_u := v, mem_flags := if sqlite3IsNaN v then MEM_Null else MEM_Real\<rparr>)"
proof -
  have d: "drop 2 (put_int 2 w (put_int 4 v []) @ r) = put_int 4 v [] @ r"
    "drop 4 (put_int 4 w (put_int 4 v []) @ r) = put_int 4 v [] @ r"
    "put_int 2 w (put_int 4 v []) @ r = put_int 2 w [] @ put_int 4 v [] @ r"
    "put_int 4 w (put_int 4 v []) @ r = put_int 4 w [] @ put_int 4 v [] @ r" for w
    using drop_put_int [of 2 w "put_int 4 v [] @ r"] drop_put_int [of 4 w "put_int 4 v [] @ r"]
      put_int_append [of 2 w "put_int 4 v []" r] put_int_append [of 4 w "put_int 4 v []" r]
      put_int_pre [of 2 w "put_int 4 v []"] put_int_pre [of 4 w "put_int 4 v []"] by simp_all
  show "narrow 7 v \<Longrightarrow> sqlite3VdbeSerialGet (put_int 1 v [] @ r) 1 m = Some (1, m\<lparr>mem_u := v, mem_flags := MEM_Int\<rparr>)"
    using extended [of 0 v] by (simp add: sqlite3VdbeSerialGet_def get_bytes(1) [simplified])
  show "narrow 15 v \<Longrightarrow> sqlite3VdbeSerialGet (put_int 2 v [] @ r) 2 m = Some (2, m\<lparr>mem_u := v, mem_flags := MEM_Int\<rparr>)"
    using extended [of 8 v] by (simp add: sqlite3VdbeSerialGet_def get_bytes)
  show "narrow 23 v \<Longrightarrow> sqlite3VdbeSerialGet (put_int 3 v [] @ r) 3 m = Some (3, m\<lparr>mem_u := v, mem_flags := MEM_Int\<rparr>)"
    using extended [of 16 v] by (simp add: sqlite3VdbeSerialGet_def get_bytes)
  show "narrow 31 v \<Longrightarrow> sqlite3VdbeSerialGet (put_int 4 v [] @ r) 4 m = Some (4, m\<lparr>mem_u := v, mem_flags := MEM_Int\<rparr>)"
    using extended [of 24 v] by (simp add: sqlite3VdbeSerialGet_def get_bytes)
  show "narrow 47 v \<Longrightarrow> sqlite3VdbeSerialGet (put_int 6 v [] @ r) 5 m = Some (6, m\<lparr>mem_u := v, mem_flags := MEM_Int\<rparr>)"
    using extended_6 [of v] by (simp add: sqlite3VdbeSerialGet_def put_int_simps(5) d get_bytes)
  show "sqlite3VdbeSerialGet (put_int 8 v [] @ r) 6 m = Some (8, m\<lparr>mem_u := v, mem_flags := MEM_Int\<rparr>)"
    "sqlite3VdbeSerialGet (put_int 8 v [] @ r) 7 m = Some (8, m\<lparr>mem_u := v, mem_flags := if sqlite3IsNaN v then MEM_Null else MEM_Real\<rparr>)"
    by (simp_all add: sqlite3VdbeSerialGet_def serialGet_def put_int_simps(6) d get_bytes extended_8 Let_def)
qed


section \<open>Values\<close>

datatype sqlval = Null_val | Int_val u64 | Real_val u64 | Text_val "u8 list" | Blob_val "u8 list"

definition mem_bytes :: "mem \<Rightarrow> u8 list" where
  "mem_bytes m = take (unat (mem_n m)) (mem_z m) @ (if has m MEM_Zero then replicate (unat (mem_nZero m)) 0 else [])"

definition val :: "mem \<Rightarrow> sqlval" where
  "val m = (if has m MEM_Null then Null_val else if has m MEM_Int then Int_val (mem_u m)
     else if has m MEM_Real then Real_val (mem_u m)
     else if has m MEM_Str then Text_val (mem_bytes m) else Blob_val (mem_bytes m))"

text \<open>A value as the virtual machine has it: a real is not NaN, a zero-filled tail belongs to a blob, and
  texts and blobs are no longer than \<open>SQLITE_MAX_LENGTH\<close>.\<close>

definition zeros :: "mem \<Rightarrow> nat" where
  "zeros m = (if has m MEM_Zero then unat (mem_nZero m) else 0)"

definition bytes_ok :: "mem \<Rightarrow> bool" where
  "bytes_ok m \<longleftrightarrow> has m (MEM_Str OR MEM_Blob) \<and> (has m MEM_Zero \<longrightarrow> has m MEM_Blob) \<and> unat (mem_n m) \<le> length (mem_z m)
     \<and> unat (mem_n m) + zeros m \<le> 1000000000"

definition mem_ok :: "mem \<Rightarrow> bool" where
  "mem_ok m \<longleftrightarrow> (if has m MEM_Null \<or> has m MEM_Int then \<not> has m MEM_Zero
     else if has m MEM_Real then \<not> has m MEM_Zero \<and> \<not> sqlite3IsNaN (mem_u m)
     else bytes_ok m)"

lemma has_flags:
  "has (m\<lparr>mem_u := v, mem_flags := MEM_Int\<rparr>) MEM_Null = False" "has (m\<lparr>mem_u := v, mem_flags := MEM_Int\<rparr>) MEM_Int"
  "has (m\<lparr>mem_u := v, mem_flags := MEM_Real\<rparr>) MEM_Null = False" "has (m\<lparr>mem_u := v, mem_flags := MEM_Real\<rparr>) MEM_Int = False"
  "has (m\<lparr>mem_u := v, mem_flags := MEM_Real\<rparr>) MEM_Real" "has (m\<lparr>mem_flags := MEM_Null\<rparr>) MEM_Null"
  by (simp_all add: has_def mem_masks)

lemma val_flags:
  "val (m\<lparr>mem_u := v, mem_flags := MEM_Int\<rparr>) = Int_val v" "val (m\<lparr>mem_u := v, mem_flags := MEM_Real\<rparr>) = Real_val v"
  "val (m\<lparr>mem_flags := MEM_Null\<rparr>) = Null_val"
  "val (m\<lparr>mem_z := z, mem_n := n, mem_flags := MEM_Blob OR MEM_Ephem\<rparr>) = Blob_val (take (unat n) z)"
  "val (m\<lparr>mem_z := z, mem_n := n, mem_flags := MEM_Str OR MEM_Ephem\<rparr>) = Text_val (take (unat n) z)"
  by (simp_all add: val_def has_def mem_masks mem_bytes_def)

text \<open>The type of an integer, and that its bytes carry it.\<close>

lemma int_masks: "(127 :: u64) = mask 7" "(32767 :: u64) = mask 15" "(8388607 :: u64) = mask 23" "(2147483647 :: u64) = mask 31"
  "MAX_6BYTE = mask 47"
  by (simp_all add: mask_eq_exp_minus_1 MAX_6BYTE_def push_bit_eq_mult)

text \<open>What is true of the type and of the bytes that are written: the value comes back.\<close>

definition stored :: "mem \<Rightarrow> u32 \<Rightarrow> u32 \<Rightarrow> u8 list \<Rightarrow> bool" where
  "stored m t len bs \<longleftrightarrow> sqlite3VdbeSerialPut m t = Some bs \<and> length bs + zeros m = unat len
     \<and> t \<noteq> 10 \<and> unat len \<le> 1000000000 \<and> len = sqlite3VdbeSerialTypeLen t
     \<and> (\<forall>r m'. \<exists>m2. sqlite3VdbeSerialGet (bs @ replicate (zeros m) 0 @ r) t m' = Some (len, m2) \<and> val m2 = val m)"

lemma stored_int:
  assumes "\<not> has m MEM_Zero" "0 < t" "t \<le> 7" "bs = put_int (unat (sqlite3SmallTypeSizes ! unat t)) (mem_u m) []"
    "len = sqlite3VdbeSerialTypeLen t"
    "\<And>r m'. \<exists>m2. sqlite3VdbeSerialGet (bs @ r) t m' = Some (len, m2) \<and> val m2 = val m"
  shows "stored m t len bs"
proof -
  have z: "zeros m = 0" using assms(1) by (simp add: zeros_def)
  have l: "len = ucast (sqlite3SmallTypeSizes ! unat t)"
    using assms(3,5) by (simp add: sqlite3VdbeSerialTypeLen_def word_le_nat_alt)
  have "unat (ucast (sqlite3SmallTypeSizes ! unat t) :: u32) = unat (sqlite3SmallTypeSizes ! unat t)"
    by (simp add: unsigned_ucast_eq take_bit_nat_eq_self unsigned_less [where ?'a = nat and ?'b = 8, THEN less_trans])
  moreover have "unat (sqlite3SmallTypeSizes ! unat t) < 256"
    using unsigned_less [where ?'a = nat, of "sqlite3SmallTypeSizes ! unat t"] by simp
  moreover have "t \<noteq> 10" using assms(3) by auto
  ultimately show ?thesis using assms z l by (simp add: stored_def sqlite3VdbeSerialPut_def)
qed


lemma type_len_small: "sqlite3VdbeSerialTypeLen 1 = 1" "sqlite3VdbeSerialTypeLen 2 = 2" "sqlite3VdbeSerialTypeLen 3 = 3"
  "sqlite3VdbeSerialTypeLen 4 = 4" "sqlite3VdbeSerialTypeLen 5 = 6" "sqlite3VdbeSerialTypeLen 6 = 8" "sqlite3VdbeSerialTypeLen 7 = 8"
  "sqlite3VdbeSerialTypeLen 8 = 0" "sqlite3VdbeSerialTypeLen 9 = 0" "sqlite3VdbeSerialTypeLen 0 = 0"
  by code_simp+

lemma type_len_bytes: "sqlite3VdbeSerialTypeLen t = (t - 12) div 2" if "12 \<le> t"
proof (cases "128 \<le> t")
  case False
  define i where "i = unat t - 12"
  have i: "unat t = 12 + i" "i < 116" using that False by (simp_all add: i_def word_le_nat_alt)
  have "unat (t - 12) = i" using that by (simp add: i_def unat_sub_if' word_le_nat_alt)
  then have "unat ((t - 12) div 2) = i div 2" by (simp add: unat_div)
  moreover have "sqlite3VdbeSerialTypeLen t = ucast (of_nat (i div 2) :: u8)"
    using False i by (simp add: sqlite3VdbeSerialTypeLen_def small_types nth_append)
  moreover have "unat (ucast (of_nat (i div 2) :: u8) :: u32) = i div 2"
    using i(2) by (simp add: unsigned_ucast_eq take_bit_nat_eq_self unat_of_nat)
  ultimately show ?thesis by (metis word_unat_eq_iff)
qed (simp add: sqlite3VdbeSerialTypeLen_def)

lemma serial_int:
  assumes m: "mem_ok m" "has m MEM_Int" "\<not> has m MEM_Null"
  shows "\<exists>t len bs. sqlite3VdbeSerialType m ff = Some (t, len) \<and> stored m t len bs"
proof -
  let ?v = "mem_u m"
  let ?u = "if ?v <s 0 then NOT ?v else ?v"
  have z: "\<not> has m MEM_Zero" using m by (simp add: mem_ok_def)
  have v: "val m = Int_val ?v" using m by (simp add: val_def)
  have nar: "?u \<le> 127 \<longleftrightarrow> narrow 7 ?v" "?u \<le> 32767 \<longleftrightarrow> narrow 15 ?v" "?u \<le> 8388607 \<longleftrightarrow> narrow 23 ?v"
    "?u \<le> 2147483647 \<longleftrightarrow> narrow 31 ?v" "?u \<le> MAX_6BYTE \<longleftrightarrow> narrow 47 ?v"
    unfolding int_masks by (rule magnitude_narrow, simp)+
  have type: "sqlite3VdbeSerialType m ff = Some (if ?u \<le> 127 then (if ?v AND 1 = ?v \<and> 4 \<le> ff then (8 + ucast ?u, 0) else (1, 1))
          else if ?u \<le> 32767 then (2, 2) else if ?u \<le> 8388607 then (3, 3)
          else if ?u \<le> 2147483647 then (4, 4) else if ?u \<le> MAX_6BYTE then (5, 6) else (6, 8))"
    using m by (simp only: sqlite3VdbeSerialType_def if_True if_False Let_def)
  have get: "\<exists>m2. Some (l, m'\<lparr>mem_u := ?v, mem_flags := MEM_Int\<rparr>) = Some (l, m2) \<and> val m2 = val m" for m' l
    by (simp add: v val_flags)
  consider (const) "narrow 7 ?v" "?v AND 1 = ?v" "4 \<le> ff" | (1) "narrow 7 ?v" "\<not> (?v AND 1 = ?v \<and> 4 \<le> ff)"
    | (2) "\<not> narrow 7 ?v" "narrow 15 ?v" | (3) "\<not> narrow 7 ?v" "\<not> narrow 15 ?v" "narrow 23 ?v"
    | (4) "\<not> narrow 7 ?v" "\<not> narrow 15 ?v" "\<not> narrow 23 ?v" "narrow 31 ?v"
    | (6) "\<not> narrow 7 ?v" "\<not> narrow 15 ?v" "\<not> narrow 23 ?v" "\<not> narrow 31 ?v" "narrow 47 ?v"
    | (8) "\<not> narrow 7 ?v" "\<not> narrow 15 ?v" "\<not> narrow 23 ?v" "\<not> narrow 31 ?v" "\<not> narrow 47 ?v" by blast
  then show ?thesis
  proof cases
    case const
    have v01: "?v = 0 \<or> ?v = 1"
    proof -
      have "?v = of_bool (odd ?v)" using const(2) by (simp add: and_one_eq mod_2_eq_odd)
      then show ?thesis by (metis of_bool_eq)
    qed
    then have u: "?u = ?v" by (auto simp: negative_bit)
    have "sqlite3VdbeSerialType m ff = Some (8 + ucast ?v, 0)" unfolding type nar using const by (simp add: u)
    moreover have "stored m 8 0 []" if "mem_u m = 0"
      using z by (simp add: stored_def sqlite3VdbeSerialPut_def zeros_def type_len_small sqlite3VdbeSerialGet_def v val_flags that)
    moreover have "stored m 9 0 []" if "mem_u m = 1"
      using z by (simp add: stored_def sqlite3VdbeSerialPut_def zeros_def type_len_small sqlite3VdbeSerialGet_def v val_flags that)
    moreover have "8 + ucast (0 :: u64) = (8 :: u32)" "8 + ucast (1 :: u64) = (9 :: u32)" by simp_all
    ultimately have "stored m (8 + ucast ?v) 0 []" "sqlite3VdbeSerialType m ff = Some (8 + ucast ?v, 0)"
      using v01 by metis+
    then show ?thesis by blast
  next
    case 1
    have "stored m 1 1 (put_int 1 ?v [])"
      using z get get_put_int(1) [OF 1(1)] by (intro stored_int) (simp_all add: type_len_small)
    then show ?thesis using 1 unfolding type nar by auto
  next
    case 2
    have "stored m 2 2 (put_int 2 ?v [])"
      using z get get_put_int(2) [OF 2(2)] by (intro stored_int) (simp_all add: type_len_small)
    then show ?thesis using 2 unfolding type nar by auto
  next
    case 3
    have "stored m 3 3 (put_int 3 ?v [])"
      using z get get_put_int(3) [OF 3(3)] by (intro stored_int) (simp_all add: type_len_small)
    then show ?thesis using 3 unfolding type nar by auto
  next
    case 4
    have "stored m 4 4 (put_int 4 ?v [])"
      using z get get_put_int(4) [OF 4(4)] by (intro stored_int) (simp_all add: type_len_small)
    then show ?thesis using 4 unfolding type nar by auto
  next
    case 6
    have "stored m 5 6 (put_int 6 ?v [])"
      using z get get_put_int(5) [OF 6(5)] by (intro stored_int) (simp_all add: type_len_small)
    then show ?thesis using 6 unfolding type nar by auto
  next
    case 8
    have "stored m 6 8 (put_int 8 ?v [])"
      using z get get_put_int(6) [of ?v] by (intro stored_int) (simp_all add: type_len_small)
    then show ?thesis using 8 unfolding type nar by auto
  qed
qed


lemma serial_bytes:
  assumes m: "mem_ok m" "\<not> has m MEM_Null" "\<not> has m MEM_Int" "\<not> has m MEM_Real"
  shows "\<exists>t len bs. sqlite3VdbeSerialType m ff = Some (t, len) \<and> stored m t len bs"
proof -
  let ?N = "mem_n m + (if has m MEM_Zero then mem_nZero m else 0)" and ?s = "of_bool (has m MEM_Str) :: u32"
  have ok: "has m (MEM_Str OR MEM_Blob)" "unat (mem_n m) \<le> length (mem_z m)" "unat (mem_n m) + zeros m \<le> 1000000000"
    using m by (simp_all add: mem_ok_def bytes_ok_def)
  have N: "unat ?N = unat (mem_n m) + zeros m" using ok(3) by (auto simp: zeros_def unat_add_lem [symmetric])
  have len: "unat ?N \<le> 1000000000" using N ok(3) by simp
  have "unat (mem_n m) < 2 ^ 31" using ok(3) by simp
  then have n31: "\<not> bit (mem_n m) 31" using shift_right_eq_0_iff [of 31 "mem_n m"] by (simp add: bit_iff_odd_drop_bit)
  define t where "t = ?N * 2 + 12 + ?s"
  have tn: "unat t = unat ?N * 2 + 12 + of_bool (has m MEM_Str)"
  proof -
    have "unat (?N * 2) = unat ?N * 2" using len by (subst unat_mult_lem [THEN iffD1]) simp_all
    then have a: "unat (?N * 2 + 12) = unat ?N * 2 + 12" using len by (subst unat_add_lem [THEN iffD1]) simp_all
    show ?thesis unfolding t_def using a len by (cases "has m MEM_Str") (subst unat_add_lem [THEN iffD1]; simp)+
  qed
  have t12: "12 \<le> t" using tn by (simp add: word_le_nat_alt)
  have "unat (t - 12) = unat ?N * 2 + of_bool (has m MEM_Str)" using tn t12 by (simp add: unat_sub)
  then have "unat ((t - 12) div 2) = unat ?N" by (simp add: unat_div)
  then have half: "(t - 12) div 2 = ?N" by (simp only: word_unat_eq_iff)
  have odd: "t AND 1 = 0 \<longleftrightarrow> \<not> has m MEM_Str"
  proof -
    have "t AND 1 = 0 \<longleftrightarrow> unat (t mod 2) = 0" by (simp add: and_one_eq unat_eq_zero)
    also have "\<dots> \<longleftrightarrow> even (unat t)" by (simp only: unat_mod) (simp add: even_iff_mod_2_eq_zero)
    finally have "t AND 1 = 0 \<longleftrightarrow> even (unat t)" .
    then show ?thesis by (simp add: tn)
  qed
  have type: "sqlite3VdbeSerialType m ff = Some (t, ?N)"
    using m ok(1) n31 by (simp add: sqlite3VdbeSerialType_def t_def Let_def)
  let ?bs = "take (unat (mem_n m)) (mem_z m)"
  have neq: "t \<noteq> 0" "t \<noteq> 1" "t \<noteq> 2" "t \<noteq> 3" "t \<noteq> 4" "t \<noteq> 5" "t \<noteq> 6" "t \<noteq> 7" "t \<noteq> 8" "t \<noteq> 9" "t \<noteq> 10" "t \<noteq> 11"
    using tn by auto
  have "\<not> t \<le> 7" using tn by (simp add: word_le_nat_alt)
  then have put: "sqlite3VdbeSerialPut m t = Some ?bs"
    using t12 ok(2) by (simp add: sqlite3VdbeSerialPut_def type_len_bytes half not_less)
  have get: "sqlite3VdbeSerialGet r t m' = Some (?N, m'\<lparr>mem_z := r, mem_n := ?N,
      mem_flags := (if has m MEM_Str then MEM_Str else MEM_Blob) OR MEM_Ephem\<rparr>)" for r m'
    using neq by (simp add: sqlite3VdbeSerialGet_def half odd Let_def)
  have l: "length ?bs + zeros m = unat ?N" using N ok(2) by simp
  have b: "mem_bytes m = ?bs @ replicate (zeros m) 0" by (simp add: mem_bytes_def zeros_def)
  have "val m = (if has m MEM_Str then Text_val (?bs @ replicate (zeros m) 0) else Blob_val (?bs @ replicate (zeros m) 0))"
    using m by (simp add: val_def b)
  moreover have "take (unat ?N) (?bs @ replicate (zeros m) 0 @ r) = ?bs @ replicate (zeros m) 0" for r
  proof -
    have "unat ?N = length (?bs @ replicate (zeros m) 0)" using l by (simp only: length_append length_replicate)
    then show ?thesis by (metis append_assoc append_eq_conv_conj)
  qed
  ultimately have v: "val (m'\<lparr>mem_z := ?bs @ replicate (zeros m) 0 @ r, mem_n := ?N,
      mem_flags := (if has m MEM_Str then MEM_Str else MEM_Blob) OR MEM_Ephem\<rparr>) = val m" for m' r
    by (cases "has m MEM_Str") (simp_all only: if_True if_False val_flags)
  have "stored m t ?N ?bs"
    unfolding stored_def using put l neq len v get by (simp add: type_len_bytes [OF t12] half)
  then show ?thesis using type by blast
qed

lemma serial_stored:
  assumes m: "mem_ok m"
  shows "\<exists>t len bs. sqlite3VdbeSerialType m ff = Some (t, len) \<and> stored m t len bs"
proof -
  consider (null) "has m MEM_Null" | (int) "\<not> has m MEM_Null" "has m MEM_Int"
    | (real) "\<not> has m MEM_Null" "\<not> has m MEM_Int" "has m MEM_Real"
    | (bytes) "\<not> has m MEM_Null" "\<not> has m MEM_Int" "\<not> has m MEM_Real" by blast
  then show ?thesis
  proof cases
    case null
    have "stored m 0 0 []" using m null
      by (simp add: stored_def sqlite3VdbeSerialPut_def zeros_def mem_ok_def type_len_small sqlite3VdbeSerialGet_def val_flags val_def has_flags)
    then show ?thesis using null by (auto simp: sqlite3VdbeSerialType_def)
  next
    case real
    have z: "\<not> has m MEM_Zero" "\<not> sqlite3IsNaN (mem_u m)" using m real by (simp_all add: mem_ok_def)
    have "val m = Real_val (mem_u m)" using real by (simp add: val_def)
    then have "stored m 7 8 (put_int 8 (mem_u m) [])"
      using z get_put_int(7) [of "mem_u m"] by (intro stored_int) (simp_all add: type_len_small val_flags)
    then show ?thesis using real by (auto simp: sqlite3VdbeSerialType_def)
  qed (use m serial_int serial_bytes in blast)+
qed


text \<open>The widths that are chosen for an integer.\<close>

lemma int_type:
  assumes "has m MEM_Int" "\<not> has m MEM_Null"
  defines "v \<equiv> mem_u m"
  shows "\<exists>t len. sqlite3VdbeSerialType m ff = Some (t, len) \<and> len = (if narrow 7 v then (if v AND 1 = v \<and> 4 \<le> ff then 0 else 1)
      else if narrow 15 v then 2 else if narrow 23 v then 3 else if narrow 31 v then 4 else if narrow 47 v then 6 else 8)"
proof -
  let ?u = "if v <s 0 then NOT v else v"
  have nar: "?u \<le> 127 \<longleftrightarrow> narrow 7 v" "?u \<le> 32767 \<longleftrightarrow> narrow 15 v" "?u \<le> 8388607 \<longleftrightarrow> narrow 23 v"
    "?u \<le> 2147483647 \<longleftrightarrow> narrow 31 v" "?u \<le> MAX_6BYTE \<longleftrightarrow> narrow 47 v"
    unfolding int_masks by (rule magnitude_narrow, simp)+
  have "sqlite3VdbeSerialType m ff = Some (if ?u \<le> 127 then (if v AND 1 = v \<and> 4 \<le> ff then (8 + ucast ?u, 0) else (1, 1))
          else if ?u \<le> 32767 then (2, 2) else if ?u \<le> 8388607 then (3, 3)
          else if ?u \<le> 2147483647 then (4, 4) else if ?u \<le> MAX_6BYTE then (5, 6) else (6, 8))"
    using assms(1,2) by (simp only: sqlite3VdbeSerialType_def if_True if_False Let_def v_def)
  then show ?thesis unfolding nar by (simp split: if_splits)
qed

end
