(* ===== verification/RecordFormat.thy ===== *)
theory RecordFormat
  imports SerialType
begin

text \<open>
  Records: rows of tables and entries of indices (\<open>OP_MakeRecord\<close> of \<open>vdbe.c\<close>, behind the affinities, and
  \<open>sqlite3VdbeRecordUnpack\<close>).  The number of columns is at most 32767, so the counters that are \<open>int\<close>, \<open>i64\<close> and \<open>u64\<close>
  in the code do not overflow and are natural numbers here.
\<close>

section \<open>Code\<close>

abbreviation (input) "SQLITE_TOOBIG \<equiv> (18 :: rc)"

definition putVarint32 :: "u32 \<Rightarrow> u8 list" where
  "putVarint32 v = (if v < 0x80 then [ucast v] else snd (sqlite3PutVarint (ucast v)))"

text \<open>\<open>None\<close> when there is no memory.\<close>

definition sqlite3VdbeMemExpandBlob :: "bool \<Rightarrow> mem \<Rightarrow> mem option" where
  "sqlite3VdbeMemExpandBlob grow_ok m =
     (if \<not> grow_ok then None
      else Some (m\<lparr>mem_z := take (unat (mem_n m)) (mem_z m) @ replicate (unat (mem_nZero m)) 0,
        mem_n := mem_n m + mem_nZero m, mem_flags := mem_flags m AND NOT (MEM_Zero OR MEM_Term)\<rparr>))"

definition sqlite3VdbeMemSetNull :: "mem \<Rightarrow> mem" where
  "sqlite3VdbeMemSetNull m = m\<lparr>mem_flags := MEM_Null\<rparr>"

text \<open>One round of the loop that computes the sizes: a field with its serial type, \<open>nData\<close>, \<open>nHdr\<close>, \<open>nZero\<close>.\<close>

definition size_field :: "bool \<Rightarrow> nat \<Rightarrow> mem \<Rightarrow> nat \<Rightarrow> nat \<Rightarrow> nat \<Rightarrow> (rc \<times> mem \<times> nat \<times> nat \<times> nat) option" where
  "size_field grow_ok file_format m nData nHdr nZero = do {
     (t, len) \<leftarrow> sqlite3VdbeSerialType m file_format;
     let finish = (\<lambda>m t len nZero. Some (SQLITE_OK, m\<lparr>mem_uTemp := t\<rparr>, nData + unat len,
       nHdr + (if t \<le> 127 then 1 else sqlite3VarintLen (ucast t)), nZero));
     if has m MEM_Zero then
       if t = 0 then finish m 10 len nZero
       else if nData \<noteq> 0 then
         (case sqlite3VdbeMemExpandBlob grow_ok m of
            None \<Rightarrow> Some (SQLITE_NOMEM, m, nData, nHdr, nZero)
          | Some m \<Rightarrow> finish m t len nZero)
       else finish m t (len - mem_nZero m) (nZero + unat (mem_nZero m))
     else finish m t len nZero
   }"

text \<open>The loop, over the fields from the last to the first; it delivers them in their order.\<close>

fun size_fields :: "(nat \<Rightarrow> bool) \<Rightarrow> nat \<Rightarrow> mem list \<Rightarrow> (rc \<times> mem list \<times> nat \<times> nat \<times> nat) option" where
  "size_fields grow_ok file_format [] = Some (SQLITE_OK, [], 0, 0, 0)"
| "size_fields grow_ok file_format (m # ms) = do {
     (rc, sized, nData, nHdr, nZero) \<leftarrow> size_fields grow_ok file_format ms;
     if rc \<noteq> SQLITE_OK then Some (rc, [], nData, nHdr, nZero)
     else do {
       (rc, m, nData, nHdr, nZero) \<leftarrow> size_field (grow_ok (length ms)) file_format m nData nHdr nZero;
       Some (rc, m # sized, nData, nHdr, nZero)
     }
   }"

definition header_size :: "nat \<Rightarrow> nat" where
  "header_size nHdr =
     (if nHdr \<le> 126 then nHdr + 1
      else
        let nVarint = sqlite3VarintLen (of_nat nHdr); nHdr = nHdr + nVarint in
        if nVarint < sqlite3VarintLen (of_nat nHdr) then nHdr + 1 else nHdr)"

text \<open>The types and the contents.\<close>

fun put_fields :: "mem list \<Rightarrow> (u8 list \<times> u8 list) option" where
  "put_fields [] = Some ([], [])"
| "put_fields (m # ms) = do {
     b \<leftarrow> sqlite3VdbeSerialPut m (mem_uTemp m);
     (H, D) \<leftarrow> put_fields ms;
     Some (putVarint32 (mem_uTemp m) @ H, b @ D)
   }"

record new_record =
  zNewRecord :: "u8 list"
  rec_nZero :: nat           \<comment> \<open>the flag \<open>MEM_Zero\<close> is set when it is not 0\<close>

definition make_record :: "(nat \<Rightarrow> bool) \<Rightarrow> bool \<Rightarrow> nat \<Rightarrow> nat \<Rightarrow> nat \<Rightarrow> mem list \<Rightarrow> (rc \<times> new_record) option" where
  "make_record grow_ok resize_ok szMalloc limit file_format ms = do {
     (rc, ms, nData, nHdr, nZero) \<leftarrow> size_fields grow_ok file_format ms;
     if rc \<noteq> SQLITE_OK then Some (rc, \<lparr>zNewRecord = [], rec_nZero = 0\<rparr>)
     else
       let nHdr = header_size nHdr; nByte = nHdr + nData in
       if \<not> nByte + nZero \<le> szMalloc \<and> limit < nByte + nZero then Some (SQLITE_TOOBIG, \<lparr>zNewRecord = [], rec_nZero = 0\<rparr>)
       else if \<not> nByte + nZero \<le> szMalloc \<and> \<not> resize_ok then Some (SQLITE_NOMEM, \<lparr>zNewRecord = [], rec_nZero = 0\<rparr>)
       else do {
         (H, D) \<leftarrow> put_fields ms;
         let H = putVarint32 (of_nat nHdr) @ H;
         if length H \<noteq> nHdr \<or> nHdr + length D \<noteq> nByte then None
         else Some (SQLITE_OK, \<lparr>zNewRecord = H @ D, rec_nZero = nZero\<rparr>)
       }
   }"

text \<open>The loop of \<open>sqlite3VdbeRecordUnpack\<close> over the cells \<open>aMem\<close>; it delivers \<open>d\<close> and the cells that are set.\<close>

fun unpack_fields :: "u8 list \<Rightarrow> u32 \<Rightarrow> u32 \<Rightarrow> u32 \<Rightarrow> u32 \<Rightarrow> mem list \<Rightarrow> (u32 \<times> mem list) option" where
  "unpack_fields aKey nKey szHdr idx d [] = (if idx < szHdr \<and> d \<le> nKey then None else Some (d, []))"
| "unpack_fields aKey nKey szHdr idx d (c # cs) =
     (if idx < szHdr \<and> d \<le> nKey then do {
        (n, t) \<leftarrow> getVarint32 (drop (unat idx) aKey);
        (len, c) \<leftarrow> sqlite3VdbeSerialGet (drop (unat d) aKey) t (c\<lparr>mem_z := []\<rparr>);
        if cs = [] then Some (d + len, [c])
        else do {
          (d, ms) \<leftarrow> unpack_fields aKey nKey szHdr (idx + of_nat n) (d + len) cs;
          Some (d, c # ms)
        }
      }
      else Some (d, []))"

definition sqlite3VdbeRecordUnpack :: "u32 \<Rightarrow> u8 list \<Rightarrow> mem list \<Rightarrow> mem list option" where
  "sqlite3VdbeRecordUnpack nKey aKey cs = do {
     (n, szHdr) \<leftarrow> getVarint32 aKey;
     (d, ms) \<leftarrow> unpack_fields aKey nKey szHdr (of_nat n) szHdr cs;
     Some (if nKey < d \<and> ms \<noteq> [] then butlast ms @ [sqlite3VdbeMemSetNull (last ms)] else ms)
   }"

section \<open>Lengths of integers in the header\<close>

lemma varint_len: "sqlite3VarintLen v = (if unat v < 2 ^ 7 then 1 else if unat v < 2 ^ 14 then 2 else 3)"
  if "unat v < 2 ^ 21" for v :: u64
  using that length_buf_le [of v 1] length_buf_le [of v 2] length_buf_le [of v 3] length_buf_ge [of 1 v] length_buf_ge [of 2 v]
    VarintLen_bounds [of v] unfolding VarintLen_eq_buf by (auto simp: not_less)

text \<open>The size in the header counts its own length.\<close>

lemma header_size_fixpoint:
  assumes "h \<le> 200000"
  shows "header_size h = h + sqlite3VarintLen (of_nat (header_size h))" "header_size h \<le> h + 3"
proof -
  have u: "unat (of_nat k :: u64) = k" if "k \<le> 200010" for k using that by (simp add: unat_of_nat)
  have len: "sqlite3VarintLen (of_nat k) = (if k < 2 ^ 7 then 1 else if k < 2 ^ 14 then 2 else 3)" if "k \<le> 200010" for k
    using varint_len [of "of_nat k"] u [OF that] that by simp
  consider "h \<le> 126" | "h = 127" | "127 < h" "h + 2 < 2 ^ 14" | "h < 2 ^ 14" "2 ^ 14 \<le> h + 2" | "2 ^ 14 \<le> h" by force
  then show "header_size h = h + sqlite3VarintLen (of_nat (header_size h))" "header_size h \<le> h + 3"
    using assms by (cases; simp add: header_size_def Let_def len del: of_nat_add of_nat_Suc of_nat_numeral)+
qed

lemma putVarint32_eq: "putVarint32 v = snd (sqlite3PutVarint (ucast v))"
proof -
  have "(ucast v :: u64) \<le> 0x7f" "(ucast v :: u8) = ucast (ucast v AND 0x7f :: u64)" if "v < 0x80"
  proof -
    have l: "unat v < 2 ^ 7" using that by (simp add: word_less_nat_alt)
    then show "(ucast v :: u64) \<le> 0x7f" by (simp add: word_le_nat_alt unsigned_ucast_eq take_bit_nat_eq_self)
    have "take_bit 7 v = v" using l by (simp add: word_unat_eq_iff unsigned_take_bit_eq take_bit_nat_eq_self)
    then have "bit v n \<Longrightarrow> n < 7" for n by (metis bit_take_bit_iff)
    then show "(ucast v :: u8) = ucast (ucast v AND 0x7f :: u64)"
      unfolding mask_7f by (intro bit_word_eqI) (auto simp: bit_simps)
  qed
  then show ?thesis by (simp add: putVarint32_def sqlite3PutVarint_def)
qed

lemma wide_u32: "unat (ucast v :: u64) = unat v" "(ucast (ucast v :: u64) :: u32) = v" for v :: u32
  by (simp add: unsigned_ucast_eq take_bit_nat_eq_self unsigned_less [where ?'a = nat, THEN less_trans])
    (rule bit_word_eqI, simp add: bit_simps)

lemma getVarint32_put: "getVarint32 (putVarint32 v @ r) = Some (length (putVarint32 v), v)"
  using unsigned_less [where ?'a = nat, of v]
  by (simp add: putVarint32_eq getVarint32_saturates get_put_varint length_put wide_u32)

lemma length_putVarint32: "length (putVarint32 v) = (if v \<le> 127 then 1 else sqlite3VarintLen (ucast v))"
  "length (putVarint32 v) = sqlite3VarintLen (ucast v)" "length (putVarint32 v) \<le> 5" "0 < length (putVarint32 v)"
proof -
  have l: "unat (ucast v :: u64) < 2 ^ 32" using unsigned_less [where ?'a = nat, of v] by (simp add: wide_u32)
  have "sqlite3VarintLen (ucast v) = fst (sqlite3PutVarint (ucast v))" by (rule VarintLen_below_63 [OF order_less_trans [OF l]]) simp
  then show a: "length (putVarint32 v) = sqlite3VarintLen (ucast v)" by (simp only: putVarint32_eq length_put)
  have "unat (ucast v :: u64) < 2 ^ (7 * 5)" by (rule order_less_trans [OF l]) simp
  then show "length (putVarint32 v) \<le> 5" unfolding a VarintLen_eq_buf by (rule length_buf_le) simp
  show "0 < length (putVarint32 v)" using VarintLen_bounds [of "ucast v"] unfolding a by simp
  have "length (putVarint32 v) = 1" if "v \<le> 127"
  proof -
    have "v < 0x80" using that by (simp add: word_less_nat_alt word_le_nat_alt)
    then show ?thesis by (simp add: putVarint32_def)
  qed
  then show "length (putVarint32 v) = (if v \<le> 127 then 1 else sqlite3VarintLen (ucast v))" using a by simp
qed


section \<open>Writing and reading the fields\<close>

text \<open>The bytes of a field of a type carry a value, whatever follows them.\<close>

definition carries :: "u32 \<Rightarrow> u8 list \<Rightarrow> sqlval \<Rightarrow> bool" where
  "carries t bs v \<longleftrightarrow> (\<forall>r m'. \<exists>len m2. sqlite3VdbeSerialGet (bs @ r) t m' = Some (len, m2) \<and> val m2 = v \<and> unat len = length bs)"

lemma stored_carries: "stored m t len bs \<Longrightarrow> carries t (bs @ replicate (zeros m) 0) (val m)"
  unfolding stored_def carries_def by (metis append_assoc length_append length_replicate)

lemma stored_plain: "stored m t len bs \<Longrightarrow> zeros m = 0 \<Longrightarrow> carries t bs (val m)"
  using stored_carries by fastforce

lemma has_uTemp [simp]: "has (m\<lparr>mem_uTemp := t\<rparr>) f = has m f" "sqlite3VdbeSerialPut (m\<lparr>mem_uTemp := t\<rparr>) t' = sqlite3VdbeSerialPut m t'"
  by (simp_all add: has_def sqlite3VdbeSerialPut_def)

lemma zero_is_bytes:
  assumes "mem_ok m" "has m MEM_Zero"
  shows "\<not> has m MEM_Null" "\<not> has m MEM_Int" "\<not> has m MEM_Real" "bytes_ok m" "zeros m = unat (mem_nZero m)"
  using assms by (auto simp: mem_ok_def zeros_def split: if_splits)

text \<open>Filling in the zeros of a blob keeps the value, its type and its length.\<close>

lemma expand_has:
  assumes "sqlite3VdbeMemExpandBlob True m = Some m'"
  shows "\<not> has m' MEM_Zero" "f AND (MEM_Zero OR MEM_Term) = 0 \<Longrightarrow> has m' f = has m f"
proof -
  have m': "mem_flags m' = mem_flags m AND NOT (MEM_Zero OR MEM_Term)" using assms by (auto simp: sqlite3VdbeMemExpandBlob_def)
  show "\<not> has m' MEM_Zero" unfolding has_def m' by (simp add: mem_masks and.assoc)
  show "has m' f = has m f" if "f AND (MEM_Zero OR MEM_Term) = 0"
  proof -
    have "NOT (MEM_Zero OR MEM_Term) AND f = f"
    proof (rule bit_word_eqI)
      fix n assume "n < LENGTH(16)"
      have "\<not> bit (f AND (MEM_Zero OR MEM_Term)) n" using that by simp
      then show "bit (NOT (MEM_Zero OR MEM_Term) AND f) n = bit f n" using \<open>n < LENGTH(16)\<close> by (auto simp: bit_simps)
    qed
    then show ?thesis unfolding has_def m' by (simp only: and.assoc)
  qed
qed

lemma expand_ok:
  assumes "mem_ok m" "has m MEM_Zero" "sqlite3VdbeMemExpandBlob True m = Some m'"
  shows "mem_ok m'" "val m' = val m" "zeros m' = 0" "sqlite3VdbeSerialType m' ff = sqlite3VdbeSerialType m ff"
proof -
  have z: "\<not> has m' MEM_Zero" using expand_has [OF assms(3)] by blast
  have f: "has m' MEM_Null = has m MEM_Null" "has m' MEM_Int = has m MEM_Int" "has m' MEM_Real = has m MEM_Real"
    "has m' MEM_Str = has m MEM_Str" "has m' MEM_Blob = has m MEM_Blob" "has m' (MEM_Str OR MEM_Blob) = has m (MEM_Str OR MEM_Blob)"
    by (rule expand_has(2) [OF assms(3)], simp add: mem_masks)+
  note m = zero_is_bytes [OF assms(1,2)]
  have m': "mem_z m' = take (unat (mem_n m)) (mem_z m) @ replicate (unat (mem_nZero m)) 0" "mem_n m' = mem_n m + mem_nZero m"
    using assms(3) by (auto simp: sqlite3VdbeMemExpandBlob_def)
  have b: "unat (mem_n m) \<le> length (mem_z m)" "unat (mem_n m) + unat (mem_nZero m) \<le> 1000000000"
    using m(4,5) by (simp_all add: bytes_ok_def)
  have n: "unat (mem_n m') = unat (mem_n m) + unat (mem_nZero m)" using b(2) unfolding m' by (subst unat_add_lem [THEN iffD1]) simp_all
  show zz: "zeros m' = 0" using z by (simp add: zeros_def)
  show "mem_ok m'" using m z zz n b by (simp add: mem_ok_def bytes_ok_def f m'(1))
  have "mem_bytes m' = mem_bytes m" using b z assms(2) by (simp add: mem_bytes_def n m'(1))
  then show "val m' = val m" using m by (simp add: val_def f)
  have small: "\<not> bit w 31" if "unat w \<le> 1000000000" for w :: u32
    using shift_right_eq_0_iff [of 31 w] that by (simp add: bit_iff_odd_drop_bit)
  have "\<not> bit (mem_n m') 31" "\<not> bit (mem_n m) 31" using b n by (intro small; simp)+
  then show "sqlite3VdbeSerialType m' ff = sqlite3VdbeSerialType m ff"
    using m z assms(2) by (simp add: sqlite3VdbeSerialType_def f m'(2) Let_def)
qed

text \<open>The layout: the types in the header, the contents behind each other.\<close>

type_synonym fld = "u32 \<times> u8 list \<times> sqlval"

definition heads :: "fld list \<Rightarrow> u8 list" where "heads fs = concat (map (\<lambda>(t, bs, v). putVarint32 t) fs)"
definition bodies :: "fld list \<Rightarrow> u8 list" where "bodies fs = concat (map (\<lambda>(t, bs, v). bs) fs)"
definition fields_ok :: "fld list \<Rightarrow> bool" where "fields_ok fs \<longleftrightarrow> (\<forall>(t, bs, v) \<in> set fs. carries t bs v)"

lemma layout_simps [simp]:
  "heads [] = []" "heads ((t, bs, v) # fs) = putVarint32 t @ heads fs"
  "bodies [] = []" "bodies ((t, bs, v) # fs) = bs @ bodies fs"
  "fields_ok []" "fields_ok ((t, bs, v) # fs) \<longleftrightarrow> carries t bs v \<and> fields_ok fs"
  by (simp_all add: heads_def bodies_def fields_ok_def)

text \<open>The size of the record of some values.\<close>

definition type_of :: "nat \<Rightarrow> mem \<Rightarrow> u32" where "type_of ff m = fst (the (sqlite3VdbeSerialType m ff))"
definition len_of :: "nat \<Rightarrow> mem \<Rightarrow> nat" where "len_of ff m = unat (snd (the (sqlite3VdbeSerialType m ff)))"

definition record_size :: "nat \<Rightarrow> mem list \<Rightarrow> nat" where
  "record_size ff ms = header_size (\<Sum>m\<leftarrow>ms. length (putVarint32 (type_of ff m))) + (\<Sum>m\<leftarrow>ms. len_of ff m)"

text \<open>The loop over the sizes.\<close>

lemma size_field_finish:
  "nHdr + (if t \<le> 127 then 1 else sqlite3VarintLen (ucast t)) = nHdr + length (putVarint32 t)"
  by (simp add: length_putVarint32(1))

lemma size_field_ok:
  assumes m: "mem_ok m" and fs: "fields_ok fs" "length D = nData" "D @ replicate nZero 0 = bodies fs"
  shows "\<exists>m' t bs D' nData' nZero'. size_field True ff m nData nHdr nZero = Some (SQLITE_OK, m', nData', nHdr + length (putVarint32 t), nZero')
    \<and> mem_uTemp m' = t \<and> carries t bs (val m) \<and> (\<exists>b. sqlite3VdbeSerialPut m' t = Some b \<and> D' = b @ D) \<and> length D' = nData'
    \<and> D' @ replicate nZero' 0 = bs @ bodies fs \<and> type_of ff m = t \<and> length bs = len_of ff m"
proof -
  obtain t len b where s: "sqlite3VdbeSerialType m ff = Some (t, len)" "stored m t len b" using serial_stored [OF m] by blast
  have put: "sqlite3VdbeSerialPut m t = Some b" "length b + zeros m = unat len" "unat len \<le> 1000000000" "carries t (b @ replicate (zeros m) 0) (val m)"
    using s(2) stored_carries by (auto simp: stored_def)
  have sz: "type_of ff m = t" "len_of ff m = unat len" using s(1) by (simp_all add: type_of_def len_of_def)
  have t0: "t \<noteq> 0" if "has m MEM_Zero"
  proof
    note zb = zero_is_bytes [OF m that]
    assume "t = 0"
    then have "sqlite3VdbeSerialGet [] t m = Some (0, m\<lparr>mem_flags := MEM_Null\<rparr>)" for m by (simp add: sqlite3VdbeSerialGet_def)
    moreover obtain len m2 where "sqlite3VdbeSerialGet ((b @ replicate (zeros m) 0) @ []) t m = Some (len, m2)" "val m2 = val m"
      using put(4) unfolding carries_def by blast
    ultimately have "val m = Null_val" using \<open>t = 0\<close> by (auto simp: sqlite3VdbeSerialGet_def val_flags)
    then show False using zb by (simp add: val_def split: if_splits)
  qed
  consider (plain) "\<not> has m MEM_Zero" | (tail) "has m MEM_Zero" "nData = 0" | (expand) "has m MEM_Zero" "nData \<noteq> 0" by blast
  then show ?thesis
  proof cases
    case plain
    then have z: "zeros m = 0" by (simp add: zeros_def)
    have "size_field True ff m nData nHdr nZero = Some (SQLITE_OK, m\<lparr>mem_uTemp := t\<rparr>, nData + length b, nHdr + length (putVarint32 t), nZero)"
      using s put(2) plain z by (simp add: size_field_def length_putVarint32(1) Let_def)
    then show ?thesis using put z fs sz
      by - (rule exI [of _ "m\<lparr>mem_uTemp := t\<rparr>"], rule exI [of _ t], rule exI [of _ b], rule exI [of _ "b @ D"], rule exI [of _ "nData + length b"], rule exI [of _ nZero], simp)
  next
    case tail
    note zb = zero_is_bytes [OF m tail(1)]
    have "unat (len - mem_nZero m) = length b" using put(2) zb(5) by (simp add: unat_sub word_le_nat_alt)
    then have "size_field True ff m nData nHdr nZero
        = Some (SQLITE_OK, m\<lparr>mem_uTemp := t\<rparr>, length b, nHdr + length (putVarint32 t), nZero + zeros m)"
      using s tail t0 [OF tail(1)] zb(5) by (simp add: size_field_def length_putVarint32(1) Let_def)
    moreover have "D = []" "bodies fs = replicate nZero 0" using fs tail by simp_all
    ultimately show ?thesis using put sz
      by - (rule exI [of _ "m\<lparr>mem_uTemp := t\<rparr>"], rule exI [of _ t], rule exI [of _ "b @ replicate (zeros m) 0"], rule exI [of _ b], rule exI [of _ "length b"], rule exI [of _ "nZero + zeros m"], simp add: add.commute flip: replicate_add)
  next
    case expand
    obtain m' where m': "sqlite3VdbeMemExpandBlob True m = Some m'" by (simp add: sqlite3VdbeMemExpandBlob_def)
    note e = expand_ok [OF m expand(1) m']
    obtain t' len' b' where "sqlite3VdbeSerialType m' ff = Some (t', len')" "stored m' t' len' b'" using serial_stored [OF e(1)] by blast
    then have s': "stored m' t len b'" using e(4) s by simp
    have put': "sqlite3VdbeSerialPut m' t = Some b'" "length b' = unat len" "carries t b' (val m)"
      using s' e(2,3) stored_plain [OF s'] by (auto simp: stored_def)
    have "size_field True ff m nData nHdr nZero = Some (SQLITE_OK, m'\<lparr>mem_uTemp := t\<rparr>, nData + length b', nHdr + length (putVarint32 t), nZero)"
      using s expand m' t0 [OF expand(1)] put'(2) by (simp add: size_field_def length_putVarint32(1) Let_def)
    then show ?thesis using put put' fs sz
      by - (rule exI [of _ "m'\<lparr>mem_uTemp := t\<rparr>"], rule exI [of _ t], rule exI [of _ b'], rule exI [of _ "b' @ D"], rule exI [of _ "nData + length b'"], rule exI [of _ nZero], simp)
  qed
qed

lemma size_fields_ok:
  assumes "\<forall>m \<in> set ms. mem_ok m"
  shows "\<exists>ms' nData nHdr nZero fs D. size_fields (\<lambda>_. True) ff ms = Some (SQLITE_OK, ms', nData, nHdr, nZero)
    \<and> put_fields ms' = Some (heads fs, D) \<and> length (heads fs) = nHdr \<and> length D = nData \<and> D @ replicate nZero 0 = bodies fs
    \<and> fields_ok fs \<and> map (\<lambda>(t, bs, v). v) fs = map val ms \<and> nHdr \<le> 5 * length ms
    \<and> nHdr = (\<Sum>m\<leftarrow>ms. length (putVarint32 (type_of ff m))) \<and> length (bodies fs) = (\<Sum>m\<leftarrow>ms. len_of ff m)"
  using assms
proof (induction ms)
  case (Cons m ms)
  then obtain ms' nData nHdr nZero fs D where IH: "size_fields (\<lambda>_. True) ff ms = Some (SQLITE_OK, ms', nData, nHdr, nZero)"
    "put_fields ms' = Some (heads fs, D)" "length (heads fs) = nHdr" "length D = nData" "D @ replicate nZero 0 = bodies fs"
    "fields_ok fs" "map (\<lambda>(t, bs, v). v) fs = map val ms" "nHdr \<le> 5 * length ms"
    "nHdr = (\<Sum>m\<leftarrow>ms. length (putVarint32 (type_of ff m)))" "length (bodies fs) = (\<Sum>m\<leftarrow>ms. len_of ff m)" by auto
  obtain m' t bs D' nData' nZero' b where step:
    "size_field True ff m nData nHdr nZero = Some (SQLITE_OK, m', nData', nHdr + length (putVarint32 t), nZero')"
    "mem_uTemp m' = t" "carries t bs (val m)" "sqlite3VdbeSerialPut m' t = Some b" "D' = b @ D" "length D' = nData'"
    "D' @ replicate nZero' 0 = bs @ bodies fs" "type_of ff m = t" "length bs = len_of ff m"
    using size_field_ok [OF _ IH(6,4,5), of m ff nHdr] Cons.prems by auto
  have "heads ((t, bs, val m) # fs) = putVarint32 t @ heads fs" "bodies ((t, bs, val m) # fs) = bs @ bodies fs" by simp_all
  then show ?case using IH step length_putVarint32(3) [of t]
    by - (rule exI [of _ "m' # ms'"], rule exI [of _ nData'], rule exI [of _ "nHdr + length (putVarint32 t)"], rule exI [of _ nZero'],
        rule exI [of _ "(t, bs, val m) # fs"], rule exI [of _ D'], simp)
qed simp

text \<open>The loop that reads the fields back.\<close>

lemma unpack_fields_layout:
  assumes "fields_ok fs" "drop (unat idx) aKey = heads fs @ r1" "drop (unat d) aKey = bodies fs @ r2"
    "unat idx + length (heads fs) = unat szHdr" "unat d + length (bodies fs) \<le> unat nKey" "cs \<noteq> []"
  shows "\<exists>d' ms. unpack_fields aKey nKey szHdr idx d cs = Some (d', ms) \<and> d' \<le> nKey \<and> map val ms = take (length cs) (map (\<lambda>(t, bs, v). v) fs)"
  using assms
proof (induction fs arbitrary: idx d cs)
  case Nil
  then have "\<not> idx < szHdr" "d \<le> nKey" by (simp_all add: word_less_nat_alt word_le_nat_alt)
  then show ?case by (cases cs) simp_all
next
  case (Cons f fs)
  obtain t bs v where f: "f = (t, bs, v)" by (cases f)
  obtain c cs' where cs: "cs = c # cs'" using Cons.prems(6) by (cases cs) auto
  let ?n = "length (putVarint32 t)"
  have g: "getVarint32 (drop (unat idx) aKey) = Some (?n, t)" using Cons.prems(2) by (simp add: f getVarint32_put)
  have car: "carries t bs v" "fields_ok fs" using Cons.prems(1) by (simp_all add: f)
  obtain len m2 where get: "sqlite3VdbeSerialGet (drop (unat d) aKey) t (c\<lparr>mem_z := []\<rparr>) = Some (len, m2)" "val m2 = v" "unat len = length bs"
    using car(1) Cons.prems(3) unfolding carries_def f by (metis append_assoc layout_simps(4))
  have "unat idx < unat szHdr" "unat d \<le> unat nKey"
    using Cons.prems(4,5) length_putVarint32(4) [of t] unfolding f layout_simps length_append by linarith+
  then have cond: "idx < szHdr" "d \<le> nKey" by (simp_all add: word_less_nat_alt word_le_nat_alt)
  have le: "unat szHdr < 2 ^ 32" "unat nKey < 2 ^ 32" using unsigned_less [where ?'a = nat, of szHdr] unsigned_less [where ?'a = nat, of nKey] by simp_all
  have idx: "unat (idx + of_nat ?n) = unat idx + ?n"
    using Cons.prems(4) le by (subst unat_add_lem [THEN iffD1]) (simp_all add: f unat_of_nat)
  have d: "unat (d + len) = unat d + length bs"
    using Cons.prems(5) le get(3) by (subst unat_add_lem [THEN iffD1]) (simp_all add: f)
  have drops: "drop (unat (idx + of_nat ?n)) aKey = heads fs @ r1" "drop (unat (d + len)) aKey = bodies fs @ r2"
    using Cons.prems(2,3) drop_drop [of ?n "unat idx" aKey] drop_drop [of "length bs" "unat d" aKey] unfolding idx d by (simp_all add: f add.commute)
  show ?case
  proof (cases "cs' = []")
    case True
    have "d + len \<le> nKey" using d Cons.prems(5) by (simp add: f word_le_nat_alt)
    then show ?thesis using g get cond True by (simp add: cs f)
  next
    case False
    have "\<exists>d' ms. unpack_fields aKey nKey szHdr (idx + of_nat ?n) (d + len) cs' = Some (d', ms) \<and> d' \<le> nKey
        \<and> map val ms = take (length cs') (map (\<lambda>(t, bs, v). v) fs)"
      by (rule Cons.IH [OF car(2) drops]) (use idx d Cons.prems(4,5) False in \<open>simp_all add: f\<close>)
    then show ?thesis using g get cond False by (auto simp: cs f)
  qed
qed

section \<open>Running out of memory\<close>

lemma size_field_nomem:
  "size_field g ff m nData nHdr nZero = size_field True ff m nData nHdr nZero
   \<or> \<not> g \<and> (\<exists>x. size_field g ff m nData nHdr nZero = Some (SQLITE_NOMEM, x))"
  by (cases "sqlite3VdbeSerialType m ff"; cases g)
    (simp_all add: size_field_def sqlite3VdbeMemExpandBlob_def Let_def split_beta split: if_splits)

lemma size_fields_nomem:
  "size_fields g ff ms = size_fields (\<lambda>_. True) ff ms
   \<or> (\<exists>i < length ms. \<not> g i) \<and> (\<exists>x. size_fields g ff ms = Some (SQLITE_NOMEM, x))"
proof (induction ms)
  case (Cons m ms)
  show ?case
  proof (cases "size_fields g ff ms = size_fields (\<lambda>_. True) ff ms")
    case False
    then show ?thesis using Cons by (auto simp: less_Suc_eq)
  next
    case True
    show ?thesis
    proof (cases "size_fields (\<lambda>_. True) ff ms")
      case (Some x)
      obtain rc ms' nData nHdr nZero where x: "x = (rc, ms', nData, nHdr, nZero)" by (cases x)
      show ?thesis using size_field_nomem [of "g (length ms)" ff m nData nHdr nZero] True Some x by auto
    qed (simp add: True)
  qed
qed simp

section \<open>Reading records that are not well-formed\<close>

lemma getVarint32_total:
  assumes "9 \<le> length p"
  shows "\<exists>n v. getVarint32 p = Some (n, v)"
proof -
  obtain b0 b1 b2 b3 b4 b5 b6 b7 b8 q where p: "p = b0 # b1 # b2 # b3 # b4 # b5 # b6 # b7 # b8 # q"
    using assms by (auto simp: numeral_eq_Suc Suc_le_length_iff)
  have "\<exists>n v. varint_value 0 0 p = Some (n, v)"
    unfolding p by (simp add: varint_value_Cons varint_value_8)
  then show ?thesis by (auto simp: getVarint32_saturates getVarint_eq)
qed

text \<open>Eight bytes are enough, and texts and blobs begin where the bytes begin.\<close>

lemma serialGet_total:
  assumes "8 \<le> length buf"
  shows "\<exists>len m2. sqlite3VdbeSerialGet buf t m = Some (len, m2) \<and> unat len < 2 ^ 31
    \<and> (has m2 (MEM_Str OR MEM_Blob) \<longrightarrow> mem_z m2 = buf \<and> mem_n m2 = len)"
proof -
  obtain b0 b1 b2 b3 b4 b5 b6 b7 q where buf: "buf = b0 # b1 # b2 # b3 # b4 # b5 # b6 # b7 # q"
    using assms by (auto simp: numeral_eq_Suc Suc_le_length_iff)
  have l: "unat ((t - 12) div 2) < 2 ^ 31" using unsigned_less [where ?'a = nat, of "t - 12"] by (simp add: unat_div)
  have f: "has (x\<lparr>mem_flags := MEM_Int\<rparr>) (MEM_Str OR MEM_Blob) = False" "has (x\<lparr>mem_flags := MEM_Null\<rparr>) (MEM_Str OR MEM_Blob) = False"
    "has (x\<lparr>mem_flags := MEM_Real\<rparr>) (MEM_Str OR MEM_Blob) = False" "has (x\<lparr>mem_flags := MEM_Null OR MEM_Zero\<rparr>) (MEM_Str OR MEM_Blob) = False" for x
    by (simp_all add: has_def mem_masks)
  have g: "\<exists>x y z. FOUR_BYTE_UINT buf = Some x \<and> FOUR_BYTE_UINT (drop 4 buf) = Some y \<and> FOUR_BYTE_UINT (drop 2 buf) = Some z"
    "\<exists>x1 x2 x3 x4. ONE_BYTE_INT buf = Some x1 \<and> TWO_BYTE_INT buf = Some x2 \<and> THREE_BYTE_INT buf = Some x3 \<and> FOUR_BYTE_INT buf = Some x4"
    by (simp_all add: buf FOUR_BYTE_UINT_def ONE_BYTE_INT_def TWO_BYTE_INT_def THREE_BYTE_INT_def FOUR_BYTE_INT_def numeral_eq_Suc)
  then show ?thesis using l by (auto simp: sqlite3VdbeSerialGet_def serialGet_def Let_def has_def mem_masks)
qed

definition inside :: "u8 list \<Rightarrow> u32 \<Rightarrow> mem \<Rightarrow> bool" where
  "inside aKey nKey c \<longleftrightarrow> (has c (MEM_Str OR MEM_Blob) \<longrightarrow> (\<exists>d. mem_z c = drop d aKey \<and> d + unat (mem_n c) \<le> unat nKey))"

lemma unpack_fields_safe:
  assumes "unat nKey + 9 \<le> length aKey" "unat nKey < 2 ^ 31" "szHdr \<le> d" "cs \<noteq> []"
  shows "\<exists>d' ms. unpack_fields aKey nKey szHdr idx d cs = Some (d', ms) \<and> length ms \<le> length cs \<and> (ms \<noteq> [] \<longrightarrow> d \<le> nKey)
    \<and> (ms = [] \<longrightarrow> d' = d) \<and> (\<forall>c \<in> set (butlast ms). inside aKey nKey c) \<and> (d' \<le> nKey \<longrightarrow> (\<forall>c \<in> set ms. inside aKey nKey c))"
  using assms(3,4)
proof (induction cs arbitrary: idx d)
  case (Cons c cs)
  show ?case
  proof (cases "idx < szHdr \<and> d \<le> nKey")
    case True
    then have le: "unat idx < unat nKey" "unat d \<le> unat nKey"
      using Cons.prems(1) by (simp_all add: word_less_nat_alt word_le_nat_alt)
    have long: "9 \<le> length (drop (unat idx) aKey)" "8 \<le> length (drop (unat d) aKey)" using assms(1) le by simp_all
    obtain n t where g: "getVarint32 (drop (unat idx) aKey) = Some (n, t)" using getVarint32_total [OF long(1)] by blast
    obtain len m where s: "sqlite3VdbeSerialGet (drop (unat d) aKey) t (c\<lparr>mem_z := []\<rparr>) = Some (len, m)" "unat len < 2 ^ 31"
      "has m (MEM_Str OR MEM_Blob) \<longrightarrow> mem_z m = drop (unat d) aKey \<and> mem_n m = len"
      using serialGet_total [OF long(2)] by blast
    have d: "unat (d + len) = unat d + unat len" using le s(2) assms(2) by (subst unat_add_lem [THEN iffD1]) simp_all
    have ins: "inside aKey nKey m" if "d + len \<le> nKey" using s(3) that d by (auto simp: inside_def word_le_nat_alt)
    show ?thesis
    proof (cases "cs = []")
      case True
      then show ?thesis using \<open>idx < szHdr \<and> d \<le> nKey\<close> g s(1) ins by auto
    next
      case False
      have "szHdr \<le> d + len" using Cons.prems(1) d by (simp add: word_le_nat_alt)
      from Cons.IH [OF this False, of "idx + of_nat n"] obtain d' ms where
        r: "unpack_fields aKey nKey szHdr (idx + of_nat n) (d + len) cs = Some (d', ms)" "length ms \<le> length cs" "ms \<noteq> [] \<longrightarrow> d + len \<le> nKey"
        "ms = [] \<longrightarrow> d' = d + len" "\<forall>c \<in> set (butlast ms). inside aKey nKey c" "d' \<le> nKey \<longrightarrow> (\<forall>c \<in> set ms. inside aKey nKey c)" by blast
      have "inside aKey nKey m" if "ms \<noteq> [] \<or> d' \<le> nKey" using that r(3,4) ins by auto
      then show ?thesis using True False g s(1) r by auto
    qed
  next
    case False
    then show ?thesis by auto
  qed
qed simp

section \<open>Properties\<close>

text \<open>C15: OP_MakeRecord succeeds or reports missing memory or a record over the limit; on success the
  record has the size of its header and values, and sqlite3VdbeRecordUnpack reads the values
  back from it, whatever bytes follow it and however many cells are asked for\<close>

theorem record_round_trip:
  assumes "\<forall>m \<in> set ms. mem_ok m" "length ms \<le> 32767" "limit < 2 ^ 31" "szMalloc < 2 ^ 31"
  shows "\<exists>rc r. make_record grow_ok resize_ok szMalloc limit ff ms = Some (rc, r)
    \<and> (rc = SQLITE_NOMEM \<and> \<not> (resize_ok \<and> (\<forall>i < length ms. grow_ok i))
       \<or> rc = SQLITE_TOOBIG \<and> limit < record_size ff ms
       \<or> rc = SQLITE_OK \<and> length (zNewRecord r) + rec_nZero r = record_size ff ms
         \<and> (\<forall>cs rest. cs \<noteq> [] \<longrightarrow> (\<exists>cells.
              sqlite3VdbeRecordUnpack (of_nat (record_size ff ms)) (zNewRecord r @ replicate (rec_nZero r) 0 @ rest) cs = Some cells
              \<and> map val cells = take (length cs) (map val ms))))"
proof (cases "size_fields grow_ok ff ms = size_fields (\<lambda>_. True) ff ms")
  case False
  then show ?thesis using size_fields_nomem [of grow_ok ff ms] by (auto simp: make_record_def)
next
  case True
  obtain ms' nData nHdr nZero fs D where s: "size_fields (\<lambda>_. True) ff ms = Some (SQLITE_OK, ms', nData, nHdr, nZero)"
    "put_fields ms' = Some (heads fs, D)" "length (heads fs) = nHdr" "length D = nData" "D @ replicate nZero 0 = bodies fs"
    "fields_ok fs" "map (\<lambda>(t, bs, v). v) fs = map val ms" "nHdr \<le> 5 * length ms"
    "nHdr = (\<Sum>m\<leftarrow>ms. length (putVarint32 (type_of ff m)))" "length (bodies fs) = (\<Sum>m\<leftarrow>ms. len_of ff m)"
    using size_fields_ok [OF assms(1), of ff] by blast
  define h where "h = header_size nHdr"
  have "nHdr \<le> 200000" using s(8) assms(2) by simp
  note hs = header_size_fixpoint [OF this, folded h_def]
  have h_le: "h \<le> 200003" using hs(2) \<open>nHdr \<le> 200000\<close> by simp
  have size: "record_size ff ms = h + length (bodies fs)" unfolding record_size_def h_def s(9) s(10) ..
  have body: "length (bodies fs) = nData + nZero" using s(4,5) by (metis length_append length_replicate)
  have u: "unat (of_nat h :: u32) = h" "unat (of_nat h :: u64) = h" using h_le by (simp_all add: unat_of_nat)
  have "ucast (of_nat h :: u32) = (of_nat h :: u64)" by (rule word_unat_eq_iff [THEN iffD2]) (simp add: wide_u32 u)
  then have lh: "length (putVarint32 (of_nat h)) + nHdr = h" using hs(1) by (simp add: length_putVarint32(2))
  let ?R = "putVarint32 (of_nat h) @ heads fs @ D"
  have make: "make_record grow_ok resize_ok szMalloc limit ff ms = Some
    (if \<not> record_size ff ms \<le> szMalloc \<and> limit < record_size ff ms then (SQLITE_TOOBIG, \<lparr>zNewRecord = [], rec_nZero = 0\<rparr>)
     else if \<not> record_size ff ms \<le> szMalloc \<and> \<not> resize_ok then (SQLITE_NOMEM, \<lparr>zNewRecord = [], rec_nZero = 0\<rparr>)
     else (SQLITE_OK, \<lparr>zNewRecord = ?R, rec_nZero = nZero\<rparr>))"
    using s(2,3,4) lh by (simp add: make_record_def True s(1) size body Let_def add.assoc flip: h_def)
  have unpack: "\<exists>cells. sqlite3VdbeRecordUnpack (of_nat (record_size ff ms)) (?R @ replicate nZero 0 @ rest) cs = Some cells
      \<and> map val cells = take (length cs) (map val ms)" if cs: "cs \<noteq> []" "record_size ff ms < 2 ^ 31" for cs rest
  proof -
    have n: "unat (of_nat (record_size ff ms) :: u32) = record_size ff ms" using cs(2) by (simp add: unat_of_nat)
    have bytes: "?R @ replicate nZero 0 @ rest = putVarint32 (of_nat h) @ heads fs @ bodies fs @ rest" by (simp flip: s(5))
    have l: "unat (of_nat (length (putVarint32 (of_nat h))) :: u32) = length (putVarint32 (of_nat h))"
      using lh h_le by (simp add: unat_of_nat)
    have d: "drop (unat (of_nat h :: u32)) (putVarint32 (of_nat h) @ heads fs @ bodies fs @ rest) = bodies fs @ rest"
      unfolding u using lh s(3) by (metis append_assoc append_eq_conv_conj length_append)
    obtain d' cells where "unpack_fields (putVarint32 (of_nat h) @ heads fs @ bodies fs @ rest) (of_nat (record_size ff ms)) (of_nat h)
        (of_nat (length (putVarint32 (of_nat h)))) (of_nat h) cs = Some (d', cells)"
      "d' \<le> of_nat (record_size ff ms)" "map val cells = take (length cs) (map (\<lambda>(t, bs, v). v) fs)"
      using unpack_fields_layout [OF s(6) _ d _ _ cs(1), of "of_nat (length (putVarint32 (of_nat h)))" "bodies fs @ rest" "of_nat h" "of_nat (record_size ff ms)"]
        lh s(3) size n [unfolded size] by (auto simp: l u simp del: of_nat_add)
    then show ?thesis unfolding bytes by (simp add: sqlite3VdbeRecordUnpack_def getVarint32_put s(7) leD)
  qed
  have len: "length ?R + nZero = record_size ff ms" using lh s(3,4) size body by simp
  show ?thesis using make unpack len assms(3,4) by (auto split: if_splits)
qed

definition ex_mem :: "u16 \<Rightarrow> u64 \<Rightarrow> u8 list \<Rightarrow> u32 \<Rightarrow> mem" where
  "ex_mem f u z k = \<lparr>mem_flags = f, mem_u = u, mem_nZero = k, mem_n = of_nat (length z), mem_z = z, mem_uTemp = 0\<rparr>"

definition ex_row :: "mem list" where
  "ex_row = [ex_mem MEM_Int 1 [] 0, ex_mem MEM_Int (- 2) [] 0, ex_mem MEM_Str 0 [0x61, 0x62] 0, ex_mem (MEM_Blob OR MEM_Zero) 0 [7] 2]"

theorem record_round_trip_witness:
  "\<exists>cells. sqlite3VdbeRecordUnpack 11 [5, 9, 1, 17, 18, 0xFE, 0x61, 0x62, 7, 0, 0] (replicate 4 (ex_mem 0 0 [] 0)) = Some cells
   \<and> map val cells = [Int_val 1, Int_val (- 2), Text_val [0x61, 0x62], Blob_val [7, 0, 0]]"
proof -
  have ok: "\<forall>m \<in> set ex_row. mem_ok m"
    by (simp add: ex_row_def ex_mem_def mem_ok_def has_def mem_masks bytes_ok_def zeros_def)
  have make: "make_record (\<lambda>_. True) True 0 1000 4 ex_row
      = Some (SQLITE_OK, \<lparr>zNewRecord = [5, 9, 1, 17, 18, 0xFE, 0x61, 0x62, 7], rec_nZero = 2\<rparr>)" by code_simp
  have size: "record_size 4 ex_row = 11" by code_simp
  have vals: "take 4 (map val ex_row) = [Int_val 1, Int_val (- 2), Text_val [0x61, 0x62], Blob_val [7, 0, 0]]" by code_simp
  have l: "length ex_row \<le> 32767" by (simp add: ex_row_def)
  have "\<forall>cs rest. cs \<noteq> [] \<longrightarrow> (\<exists>cells.
      sqlite3VdbeRecordUnpack (of_nat 11) ([5, 9, 1, 17, 18, 0xFE, 0x61, 0x62, 7] @ replicate 2 0 @ rest) cs = Some cells
      \<and> map val cells = take (length cs) (map val ex_row))"
    using record_round_trip [OF ok l, of 1000 0 "\<lambda>_. True" True 4] unfolding make size by simp
  from this [rule_format, of "replicate 4 (ex_mem 0 0 [] 0)" "[]"] show ?thesis
    by (simp only: length_replicate vals) (simp add: numeral_2_eq_2)
qed

text \<open>C28: Whatever the bytes of a record are, sqlite3VdbeRecordUnpack reads nothing more than 9 bytes
  behind them, sets no more cells than it was given, and the texts and blobs it delivers lie
  within the record\<close>

theorem unpack_safe:
  assumes "unat nKey + 9 \<le> length aKey" "unat nKey < 2 ^ 31" "cs \<noteq> []"
  shows "\<exists>cells. sqlite3VdbeRecordUnpack nKey aKey cs = Some cells \<and> length cells \<le> length cs
    \<and> (\<forall>c \<in> set cells. has c (MEM_Str OR MEM_Blob) \<longrightarrow> (\<exists>d. mem_z c = drop d aKey \<and> d + unat (mem_n c) \<le> unat nKey))"
proof -
  obtain n szHdr where g: "getVarint32 aKey = Some (n, szHdr)" using getVarint32_total [of aKey] assms(1) by auto
  obtain d' ms where r: "unpack_fields aKey nKey szHdr (of_nat n) szHdr cs = Some (d', ms)" "length ms \<le> length cs"
    "\<forall>c \<in> set (butlast ms). inside aKey nKey c" "d' \<le> nKey \<longrightarrow> (\<forall>c \<in> set ms. inside aKey nKey c)"
    using unpack_fields_safe [OF assms(1,2) order_refl assms(3), of szHdr "of_nat n"] by blast
  have "inside aKey nKey (sqlite3VdbeMemSetNull c)" for c by (simp add: inside_def sqlite3VdbeMemSetNull_def has_def mem_masks)
  then show ?thesis using g r unfolding inside_def [symmetric] by (auto simp: sqlite3VdbeRecordUnpack_def not_less)
qed

theorem unpack_safe_witness:
  "\<exists>cells. sqlite3VdbeRecordUnpack 4 ([3, 0x80, 0xFF, 0xFF] @ replicate 9 0xFF) [ex_mem 0 0 [] 0] = Some cells \<and> length cells \<le> 1"
  using unpack_safe [of 4 "[3, 0x80, 0xFF, 0xFF] @ replicate 9 0xFF" "[ex_mem 0 0 [] 0]"] by auto

section \<open>Integers take no more bytes than they need\<close>

definition fits :: "nat \<Rightarrow> u64 \<Rightarrow> bool" where
  "fits k v \<longleftrightarrow> - (2 ^ (8 * k - 1)) \<le> sint v \<and> sint v < 2 ^ (8 * k - 1)"

lemma sint_nonneg: "sint v = uint v" if "\<not> bit v 63" for v :: u64
proof (rule bit_eqI)
  fix n
  have "\<not> bit v n" if "63 \<le> n" using \<open>\<not> bit v 63\<close> bit_imp_le_length [of v n] that by (cases "n = 63") auto
  then show "bit (sint v) n = bit (uint v) n" using that bit_imp_le_length [of v n] by (auto simp: bit_sint_iff bit_uint_iff not_le)
qed

lemma sint_magnitude: "sint v = (if v <s 0 then - uint (NOT v) - 1 else uint v)" for v :: u64
proof -
  have "sint (NOT v) = NOT (sint v)" by (rule bit_eqI) (simp add: bit_simps min_def)
  then have "sint v = - sint (NOT v) - 1" by (simp add: not_int_def)
  then show ?thesis using sint_nonneg [of v] sint_nonneg [of "NOT v"] by (auto simp: negative_bit bit_not_iff)
qed

lemma fits_narrow: "fits k v \<longleftrightarrow> narrow (8 * k - 1) v" if "0 < k" "k \<le> 8"
proof -
  let ?u = "if v <s 0 then NOT v else v"
  have le: "8 * k - 1 \<le> 63" using that by simp
  have m: "uint (mask (8 * k - 1) :: u64) = 2 ^ (8 * k - 1) - 1" using le by (simp only: uint_mask_eq) (simp add: min_def mask_eq_exp_minus_1)
  have n: "narrow (8 * k - 1) v \<longleftrightarrow> uint ?u < 2 ^ (8 * k - 1)" using magnitude_narrow [OF le, of v] m by (simp add: word_le_def)
  define p :: int where "p = 2 ^ (8 * k - 1)"
  have "0 < p" by (simp add: p_def)
  moreover have "0 \<le> uint v" "0 \<le> uint (NOT v)" by simp_all
  ultimately show ?thesis unfolding fits_def sint_magnitude n by (simp flip: p_def, linarith)
qed

text \<open>An integer gets the shortest of the widths 1, 2, 3, 4, 6 and 8 that holds it, and no byte at
  all exactly when it is 0 or 1 in file format 4\<close>

theorem serial_type_shortest:
  assumes "has m MEM_Int" "\<not> has m MEM_Null"
  shows "\<exists>t len. sqlite3VdbeSerialType m ff = Some (t, len)
    \<and> (len = 0 \<longleftrightarrow> 4 \<le> ff \<and> (mem_u m = 0 \<or> mem_u m = 1))
    \<and> (len \<noteq> 0 \<longrightarrow> unat len \<in> {1, 2, 3, 4, 6, 8} \<and> fits (unat len) (mem_u m))
    \<and> (\<forall>k \<in> {1, 2, 3, 4, 6, 8}. fits k (mem_u m) \<longrightarrow> unat len \<le> k)"
proof -
  let ?v = "mem_u m"
  obtain t len where s: "sqlite3VdbeSerialType m ff = Some (t, len)" "len = (if narrow 7 ?v then (if ?v AND 1 = ?v \<and> 4 \<le> ff then 0 else 1)
      else if narrow 15 ?v then 2 else if narrow 23 ?v then 3 else if narrow 31 ?v then 4 else if narrow 47 ?v then 6 else 8)"
    using int_type [OF assms] by blast
  have f: "fits 1 ?v = narrow 7 ?v" "fits 2 ?v = narrow 15 ?v" "fits 3 ?v = narrow 23 ?v" "fits 4 ?v = narrow 31 ?v"
    "fits 6 ?v = narrow 47 ?v" "fits 8 ?v = narrow 63 ?v"
    by (simp_all add: fits_narrow)
  have "n = 63" if "63 \<le> n \<and> n < 64" for n :: nat using that by simp
  then have "narrow 63 ?v" unfolding narrow_def by blast
  have up: "narrow j v \<Longrightarrow> j \<le> k \<Longrightarrow> narrow k v" for j k v unfolding narrow_def by (meson order_trans)
  have n01: "narrow 7 0" "narrow 7 1" by (auto simp: narrow_def bit_1_iff)
  have one: "?v AND 1 = ?v \<longleftrightarrow> ?v = 0 \<or> ?v = 1"
  proof
    assume "?v AND 1 = ?v"
    then have "?v = of_bool (odd ?v)" by (simp add: and_one_eq mod_2_eq_odd)
    then show "?v = 0 \<or> ?v = 1" by (metis of_bool_eq)
  qed auto
  show ?thesis
    using s(1) f n01 \<open>narrow 63 ?v\<close> up [of 7 ?v 15] up [of 15 ?v 23] up [of 23 ?v 31] up [of 31 ?v 47] unfolding s(2) one
    by (auto split: if_splits)
qed

theorem serial_type_shortest_witness:
  "\<exists>t len. sqlite3VdbeSerialType (ex_mem MEM_Int (- 129) [] 0) 4 = Some (t, len) \<and> len \<noteq> 0 \<and> unat len \<le> 2"
  using serial_type_shortest [of "ex_mem MEM_Int (- 129) [] 0" 4] by (auto simp: ex_mem_def has_def mem_masks fits_def)

end
