(* ===== verification/Utf.thy ===== *)
theory Utf
  imports SerialType
begin

text \<open>
  Text encodings (\<open>utf.c\<close>): reading and writing characters in UTF-8 and UTF-16, and the translation of a string.  A
  pointer is the list of the bytes from it to the end of the buffer; reading behind the end is \<open>None\<close>.
\<close>

section \<open>Code\<close>

definition sqlite3Utf8Trans1 :: "u8 list" where
  "sqlite3Utf8Trans1 =
   [0x00, 0x01, 0x02, 0x03, 0x04, 0x05, 0x06, 0x07,
    0x08, 0x09, 0x0a, 0x0b, 0x0c, 0x0d, 0x0e, 0x0f,
    0x10, 0x11, 0x12, 0x13, 0x14, 0x15, 0x16, 0x17,
    0x18, 0x19, 0x1a, 0x1b, 0x1c, 0x1d, 0x1e, 0x1f,
    0x00, 0x01, 0x02, 0x03, 0x04, 0x05, 0x06, 0x07,
    0x08, 0x09, 0x0a, 0x0b, 0x0c, 0x0d, 0x0e, 0x0f,
    0x00, 0x01, 0x02, 0x03, 0x04, 0x05, 0x06, 0x07,
    0x00, 0x01, 0x02, 0x03, 0x00, 0x01, 0x00, 0x00]"

definition WRITE_UTF8 :: "u32 \<Rightarrow> u8 list" where
  "WRITE_UTF8 c =
     (if c < 0x80 then [ucast (c AND 0xFF)]
      else if c < 0x800 then [0xC0 + ucast (drop_bit 6 c AND 0x1F), 0x80 + ucast (c AND 0x3F)]
      else if c < 0x10000 then
        [0xE0 + ucast (drop_bit 12 c AND 0x0F), 0x80 + ucast (drop_bit 6 c AND 0x3F), 0x80 + ucast (c AND 0x3F)]
      else
        [0xF0 + ucast (drop_bit 18 c AND 0x07), 0x80 + ucast (drop_bit 12 c AND 0x3F),
         0x80 + ucast (drop_bit 6 c AND 0x3F), 0x80 + ucast (c AND 0x3F)])"

definition WRITE_UTF16LE :: "u32 \<Rightarrow> u8 list" where
  "WRITE_UTF16LE c =
     (if c \<le> 0xFFFF then [ucast (c AND 0xFF), ucast (drop_bit 8 c AND 0xFF)]
      else
        [ucast ((drop_bit 10 c AND 0x3F) + (drop_bit 10 (c - 0x10000) AND 0xC0)), ucast (0xD8 + (drop_bit 18 (c - 0x10000) AND 0x03)),
         ucast (c AND 0xFF), ucast (0xDC + (drop_bit 8 c AND 0x03))])"

definition WRITE_UTF16BE :: "u32 \<Rightarrow> u8 list" where
  "WRITE_UTF16BE c =
     (if c \<le> 0xFFFF then [ucast (drop_bit 8 c AND 0xFF), ucast (c AND 0xFF)]
      else
        [ucast (0xD8 + (drop_bit 18 (c - 0x10000) AND 0x03)), ucast ((drop_bit 10 c AND 0x3F) + (drop_bit 10 (c - 0x10000) AND 0xC0)),
         ucast (0xDC + (drop_bit 8 c AND 0x03)), ucast (c AND 0xFF)])"

text \<open>\<open>TERM\<close> is whether there are bytes left, where the macros are used.\<close>

definition surrogates :: "u32 \<Rightarrow> u32 \<Rightarrow> u32" where
  "surrogates c c2 = (c2 AND 0x03FF) + push_bit 10 (c AND 0x003F) + push_bit 10 ((c AND 0x03C0) + 0x0040)"

definition READ_UTF16LE :: "u8 list \<Rightarrow> (u32 \<times> u8 list) option" where
  "READ_UTF16LE z = (case z of
       b0 # b1 # z \<Rightarrow>
         let c = ucast b0 + push_bit 8 (ucast b1) in
         if 0xD800 \<le> c \<and> c < 0xE000 \<and> z \<noteq> [] then
           (case z of b2 # b3 # z \<Rightarrow> Some (surrogates c (ucast b2 + push_bit 8 (ucast b3)), z) | _ \<Rightarrow> None)
         else Some (c, z)
     | _ \<Rightarrow> None)"

definition READ_UTF16BE :: "u8 list \<Rightarrow> (u32 \<times> u8 list) option" where
  "READ_UTF16BE z = (case z of
       b0 # b1 # z \<Rightarrow>
         let c = push_bit 8 (ucast b0) + ucast b1 in
         if 0xD800 \<le> c \<and> c < 0xE000 \<and> z \<noteq> [] then
           (case z of b2 # b3 # z \<Rightarrow> Some (surrogates c (push_bit 8 (ucast b2) + ucast b3), z) | _ \<Rightarrow> None)
         else Some (c, z)
     | _ \<Rightarrow> None)"

text \<open>The loop over the bytes that continue a character.\<close>

fun utf8_tail :: "u32 \<Rightarrow> u8 list \<Rightarrow> u32 \<times> u8 list" where
  "utf8_tail c [] = (c, [])"
| "utf8_tail c (b # z) = (if b AND 0xC0 = 0x80 then utf8_tail (push_bit 6 c + ucast (0x3F AND b)) z else (c, b # z))"

definition utf8_replace :: "u32 \<Rightarrow> u32" where
  "utf8_replace c = (if c < 0x80 \<or> c AND 0xFFFFF800 = 0xD800 \<or> c AND 0xFFFFFFFE = 0xFFFE then 0xFFFD else c)"

definition READ_UTF8 :: "u8 list \<Rightarrow> (u32 \<times> u8 list) option" where
  "READ_UTF8 z = (case z of
       [] \<Rightarrow> None
     | b # z \<Rightarrow>
         if 0xC0 \<le> b then
           let (c, z) = utf8_tail (ucast (sqlite3Utf8Trans1 ! unat (b - 0xC0))) z in Some (utf8_replace c, z)
         else Some (ucast b, z))"

text \<open>The same without \<open>zTerm\<close>: the loop ends at the zero byte behind the string at the latest.\<close>

fun utf8_tail_z :: "u32 \<Rightarrow> u8 list \<Rightarrow> (u32 \<times> u8 list) option" where
  "utf8_tail_z c [] = None"
| "utf8_tail_z c (b # z) = (if b AND 0xC0 = 0x80 then utf8_tail_z (push_bit 6 c + ucast (0x3F AND b)) z else Some (c, b # z))"

definition sqlite3Utf8Read :: "u8 list \<Rightarrow> (u32 \<times> u8 list) option" where
  "sqlite3Utf8Read z = (case z of
       [] \<Rightarrow> None
     | b # z \<Rightarrow>
         if 0xC0 \<le> b then do {
           (c, z) \<leftarrow> utf8_tail_z (ucast (sqlite3Utf8Trans1 ! unat (b - 0xC0))) z;
           Some (utf8_replace c, z)
         }
         else Some (ucast b, z))"

text \<open>The translation of a string.  The loops deliver what they write; \<open>zTerm\<close> is the end of the list.\<close>

definition SQLITE_UTF8 :: u8 where "SQLITE_UTF8 = 1"
definition SQLITE_UTF16LE :: u8 where "SQLITE_UTF16LE = 2"
definition SQLITE_UTF16BE :: u8 where "SQLITE_UTF16BE = 3"

definition MEM_AffMask :: u16 where "MEM_AffMask = 0x001f"
definition MEM_Subtype :: u16 where "MEM_Subtype = 0x8000"

record text_mem = mem +
  mem_enc :: u8

lemma utf8_tail_shorter: "length (snd (utf8_tail c z)) \<le> length z"
  by (induction c z rule: utf8_tail.induct) auto

lemma utf8_tail_z_shorter: "utf8_tail_z c z = Some (d, y) \<Longrightarrow> length y \<le> length z"
  by (induction c z rule: utf8_tail_z.induct) (auto split: if_splits)

lemma READ_UTF8_shorter: "READ_UTF8 z = Some (c, y) \<Longrightarrow> length y < length z"
  by (auto simp: READ_UTF8_def Let_def split_beta less_Suc_eq_le utf8_tail_shorter split: list.splits if_splits)

lemma READ_UTF16_shorter:
  "READ_UTF16LE z = Some (c, y) \<Longrightarrow> length y < length z" "READ_UTF16BE z = Some (c, y) \<Longrightarrow> length y < length z"
  by (auto simp: READ_UTF16LE_def READ_UTF16BE_def Let_def split: list.splits if_splits)

function utf8_to_utf16 :: "bool \<Rightarrow> u8 list \<Rightarrow> u8 list option" where
  "utf8_to_utf16 le zIn =
     (if zIn = [] then Some []
      else do {
        (c, zIn) \<leftarrow> READ_UTF8 zIn;
        out \<leftarrow> utf8_to_utf16 le zIn;
        Some ((if le then WRITE_UTF16LE c else WRITE_UTF16BE c) @ out)
      })"
  by auto
termination by (relation "measure (\<lambda>(le, z). length z)") (auto dest: READ_UTF8_shorter)

function utf16_to_utf8 :: "bool \<Rightarrow> u8 list \<Rightarrow> u8 list option" where
  "utf16_to_utf8 le zIn =
     (if zIn = [] then Some []
      else do {
        (c, zIn) \<leftarrow> (if le then READ_UTF16LE zIn else READ_UTF16BE zIn);
        out \<leftarrow> utf16_to_utf8 le zIn;
        Some (WRITE_UTF8 c @ out)
      })"
  by auto
termination by (relation "measure (\<lambda>(le, z). length z)") (auto dest: READ_UTF16_shorter split: if_splits)

text \<open>The loop that swaps the bytes of a string in UTF-16.\<close>

fun swap_pairs :: "u8 list \<Rightarrow> u8 list" where
  "swap_pairs (a # b # z) = b # a # swap_pairs z"
| "swap_pairs z = z"

text \<open>\<open>alloc_ok\<close>: whether there is memory.  The number of bytes is an \<open>int\<close> that is not negative.\<close>

definition sqlite3VdbeMemTranslate :: "bool \<Rightarrow> text_mem \<Rightarrow> u8 \<Rightarrow> (rc \<times> text_mem) option" where
  "sqlite3VdbeMemTranslate alloc_ok m desiredEnc =
     (if length (mem_z m) < unat (mem_n m) then None
      else if mem_enc m \<noteq> SQLITE_UTF8 \<and> desiredEnc \<noteq> SQLITE_UTF8 then
        if \<not> alloc_ok then Some (SQLITE_NOMEM, m)
        else
          let zTerm = unat (mem_n m AND NOT 1) in
          Some (SQLITE_OK, m\<lparr>mem_z := swap_pairs (take zTerm (mem_z m)) @ drop zTerm (mem_z m), mem_enc := desiredEnc\<rparr>)
      else
        let n = (if desiredEnc = SQLITE_UTF8 then mem_n m AND NOT 1 else mem_n m);
            len = unat n * 2 + (if desiredEnc = SQLITE_UTF8 then 1 else 2) in
        if 2 ^ 31 \<le> len then None
        else if \<not> alloc_ok then Some (SQLITE_NOMEM, m\<lparr>mem_n := n\<rparr>)
        else do {
          zOut \<leftarrow> (if mem_enc m = SQLITE_UTF8 then utf8_to_utf16 (desiredEnc = SQLITE_UTF16LE) (take (unat n) (mem_z m))
                   else utf16_to_utf8 (mem_enc m = SQLITE_UTF16LE) (take (unat n) (mem_z m)));
          let zeros = (if desiredEnc = SQLITE_UTF8 then [0] else [0, 0]);
          if len < length (zOut @ zeros) then None
          else Some (SQLITE_OK, m\<lparr>mem_n := of_nat (length zOut), mem_z := zOut @ zeros, mem_enc := desiredEnc,
            mem_flags := MEM_Str OR MEM_Term OR (mem_flags m AND (MEM_AffMask OR MEM_Subtype))\<rparr>)
        })"

section \<open>Characters\<close>

lemma trans1: "x < 32 \<Longrightarrow> sqlite3Utf8Trans1 ! x = of_nat x" "x < 16 \<Longrightarrow> sqlite3Utf8Trans1 ! (32 + x) = of_nat x"
  "x < 8 \<Longrightarrow> sqlite3Utf8Trans1 ! (48 + x) = of_nat x"
proof -
  have "list_all (\<lambda>x. sqlite3Utf8Trans1 ! x = of_nat x) [0..<32]" "list_all (\<lambda>x. sqlite3Utf8Trans1 ! (32 + x) = of_nat x) [0..<16]"
    "list_all (\<lambda>x. sqlite3Utf8Trans1 ! (48 + x) = of_nat x) [0..<8]" by code_simp+
  then show "x < 32 \<Longrightarrow> sqlite3Utf8Trans1 ! x = of_nat x" "x < 16 \<Longrightarrow> sqlite3Utf8Trans1 ! (32 + x) = of_nat x"
    "x < 8 \<Longrightarrow> sqlite3Utf8Trans1 ! (48 + x) = of_nat x" by (simp_all add: list_all_iff)
qed

text \<open>Parts of a character as numbers.\<close>

lemma part: "drop_bit j c AND mask m = of_nat (unat c div 2 ^ j mod 2 ^ m)" for c :: u32
proof (rule word_unat_eq_iff [THEN iffD2])
  have "unat c div 2 ^ j mod 2 ^ m \<le> unat c" by (meson div_le_dividend mod_less_eq_dividend order_trans)
  then have "unat c div 2 ^ j mod 2 ^ m < 2 ^ 32" using unsigned_less [where ?'a = nat, of c] by simp
  then have "unat (of_nat (unat c div 2 ^ j mod 2 ^ m) :: u32) = unat c div 2 ^ j mod 2 ^ m" by (simp add: unat_of_nat)
  moreover have "unat (take_bit m (drop_bit j c)) = unat c div 2 ^ j mod 2 ^ m"
    by (simp only: unsigned_take_bit_eq unat_shift_right) (simp only: take_bit_eq_mod)
  ultimately show "unat (drop_bit j c AND mask m) = unat (of_nat (unat c div 2 ^ j mod 2 ^ m) :: u32)"
    by (simp only: take_bit_eq_mask)
qed

lemma part_0: "c AND mask m = of_nat (unat c mod 2 ^ m)" for c :: u32
  using part [of 0 c m] by simp

lemma byte_of_nat: "ucast (of_nat a :: u32) = (of_nat a :: u8)"
  by (rule bit_word_eqI) (simp add: bit_simps)

lemma small_byte: "ucast (of_nat y :: u8) = (of_nat y :: u32)" if "y < 256"
proof -
  have "(of_nat (unat (of_nat y :: u8)) :: u32) = of_nat y" using that by (simp add: unat_of_nat)
  then show ?thesis by (simp only: of_nat_unat)
qed

lemma part_up: "c AND push_bit j (mask m) = of_nat (2 ^ j * (unat c div 2 ^ j mod 2 ^ m))" for c :: u32
proof -
  have "c AND push_bit j (mask m) = push_bit j (drop_bit j c AND mask m)" by (rule bit_word_eqI) (auto simp: bit_simps)
  then show ?thesis by (simp add: part push_bit_eq_mult mult.commute)
qed

text \<open>The lead bytes and the bytes that continue.\<close>

lemma byte_tables:
  "list_all (\<lambda>y. (0x80 + of_nat y :: u8) AND 0xC0 = 0x80 \<and> unat (0x3F AND (0x80 + of_nat y :: u8)) = y) [0..<64]"
  "list_all (\<lambda>y. 0xC0 \<le> (0xC0 + of_nat y :: u8) \<and> unat ((0xC0 + of_nat y :: u8) - 0xC0) = y) [0..<32]"
  "list_all (\<lambda>y. 0xC0 \<le> (0xE0 + of_nat y :: u8) \<and> unat ((0xE0 + of_nat y :: u8) - 0xC0) = 32 + y) [0..<16]"
  "list_all (\<lambda>y. 0xC0 \<le> (0xF0 + of_nat y :: u8) \<and> unat ((0xF0 + of_nat y :: u8) - 0xC0) = 48 + y) [0..<8]"
  by code_simp+

lemma tail_byte:
  assumes "y < 64"
  shows "(0x80 + of_nat y :: u8) AND 0xC0 = 0x80" "ucast (0x3F AND (0x80 + of_nat y :: u8)) = (of_nat y :: u32)"
proof -
  have u: "(0x80 + of_nat y :: u8) AND 0xC0 = 0x80 \<and> unat (0x3F AND (0x80 + of_nat y :: u8)) = y"
    using byte_tables(1) assms by (simp add: list_all_iff)
  then show "(0x80 + of_nat y :: u8) AND 0xC0 = 0x80" by blast
  have "ucast (0x3F AND (0x80 + of_nat y :: u8)) = (of_nat (unat (0x3F AND (0x80 + of_nat y :: u8))) :: u32)"
    by (simp only: of_nat_unat)
  then show "ucast (0x3F AND (0x80 + of_nat y :: u8)) = (of_nat y :: u32)" using u by simp
qed

lemma lead_byte:
  "y < 32 \<Longrightarrow> 0xC0 \<le> (0xC0 + of_nat y :: u8) \<and> ucast (sqlite3Utf8Trans1 ! unat ((0xC0 + of_nat y :: u8) - 0xC0)) = (of_nat y :: u32)"
  "y < 16 \<Longrightarrow> 0xC0 \<le> (0xE0 + of_nat y :: u8) \<and> ucast (sqlite3Utf8Trans1 ! unat ((0xE0 + of_nat y :: u8) - 0xC0)) = (of_nat y :: u32)"
  "y < 8 \<Longrightarrow> 0xC0 \<le> (0xF0 + of_nat y :: u8) \<and> ucast (sqlite3Utf8Trans1 ! unat ((0xF0 + of_nat y :: u8) - 0xC0)) = (of_nat y :: u32)"
proof -
  show "y < 32 \<Longrightarrow> 0xC0 \<le> (0xC0 + of_nat y :: u8) \<and> ucast (sqlite3Utf8Trans1 ! unat ((0xC0 + of_nat y :: u8) - 0xC0)) = (of_nat y :: u32)"
    using byte_tables(2) by (simp only: list_all_iff set_upt) (simp add: trans1 small_byte)
  show "y < 16 \<Longrightarrow> 0xC0 \<le> (0xE0 + of_nat y :: u8) \<and> ucast (sqlite3Utf8Trans1 ! unat ((0xE0 + of_nat y :: u8) - 0xC0)) = (of_nat y :: u32)"
    using byte_tables(3) by (simp only: list_all_iff set_upt) (simp add: trans1 small_byte)
  show "y < 8 \<Longrightarrow> 0xC0 \<le> (0xF0 + of_nat y :: u8) \<and> ucast (sqlite3Utf8Trans1 ! unat ((0xF0 + of_nat y :: u8) - 0xC0)) = (of_nat y :: u32)"
    using byte_tables(4) by (simp only: list_all_iff set_upt) (simp add: trans1 small_byte)
qed

lemma next_six: "push_bit 6 (of_nat a :: u32) + of_nat y = of_nat (64 * a + y)"
  by (simp add: push_bit_eq_mult)

lemma tail_step [simp]:
  assumes "y < 64"
  shows "utf8_tail (of_nat a) ((0x80 + of_nat y) # z) = utf8_tail (of_nat (64 * a + y)) z"
    "utf8_tail_z (of_nat a) ((0x80 + of_nat y) # z) = utf8_tail_z (of_nat (64 * a + y)) z"
  using assms by (simp_all add: tail_byte next_six del: of_nat_add of_nat_mult)

lemma utf8_masks: "0xFF = (mask 8 :: u32)" "0x3F = (mask 6 :: u32)" "0x1F = (mask 5 :: u32)" "0x0F = (mask 4 :: u32)" "0x07 = (mask 3 :: u32)"
  by (simp_all add: mask_eq_exp_minus_1)

lemma WRITE_UTF8_nat:
  fixes c :: u32
  defines "k \<equiv> unat c"
  shows "WRITE_UTF8 c =
     (if k < 0x80 then [of_nat k]
      else if k < 0x800 then [0xC0 + of_nat (k div 64 mod 32), 0x80 + of_nat (k mod 64)]
      else if k < 0x10000 then [0xE0 + of_nat (k div 4096 mod 16), 0x80 + of_nat (k div 64 mod 64), 0x80 + of_nat (k mod 64)]
      else [0xF0 + of_nat (k div 262144 mod 8), 0x80 + of_nat (k div 4096 mod 64), 0x80 + of_nat (k div 64 mod 64), 0x80 + of_nat (k mod 64)])"
  unfolding WRITE_UTF8_def utf8_masks part unfolding part_0 byte_of_nat k_def by (simp add: word_less_nat_alt)

text \<open>A byte behind a character must not continue it.\<close>

definition starts :: "u8 list \<Rightarrow> bool" where
  "starts z \<longleftrightarrow> (case z of [] \<Rightarrow> True | b # _ \<Rightarrow> b AND 0xC0 \<noteq> 0x80)"

lemma tail_stops:
  assumes "starts z"
  shows "utf8_tail c z = (c, z)" "z \<noteq> [] \<Longrightarrow> utf8_tail_z c z = Some (c, z)"
  using assms by (cases z; simp add: starts_def)+

text \<open>The character that a written one is read as.\<close>

definition readable :: "u32 \<Rightarrow> u32" where
  "readable c = (if c < 0x80 then c else utf8_replace c)"

lemma read_write_utf8:
  assumes "c < 0x110000" "starts z"
  shows "READ_UTF8 (WRITE_UTF8 c @ z) = Some (readable c, z)" "z \<noteq> [] \<Longrightarrow> sqlite3Utf8Read (WRITE_UTF8 c @ z) = Some (readable c, z)"
proof -
  define k where "k = unat c"
  have c: "c = of_nat k" by (simp add: k_def)
  have k: "k < 0x110000" using assms(1) by (simp add: k_def word_less_nat_alt)
  have u: "unat c = k" by (simp add: k_def)
  have lt: "c < 0x80 \<longleftrightarrow> k < 128" by (simp add: word_less_nat_alt u)
  have st: "b AND 0xC0 \<noteq> 0x80" if "starts (b # z)" for b :: u8 and z using that by (simp add: starts_def)
  have low: "\<not> 0xC0 \<le> (of_nat k :: u8)" if "k < 128" using that by (simp add: word_le_nat_alt unat_of_nat)
  have val: "(ucast (of_nat k :: u8) :: u32) = c" if "k < 128" using that unfolding c by (simp add: small_byte)
  have sum: "64 * (k div 64) + k mod 64 = k" "64 * (64 * (k div 4096) + k div 64 mod 64) + k mod 64 = k"
    "64 * (64 * (64 * (k div 262144) + k div 4096 mod 64) + k div 64 mod 64) + k mod 64 = k"
    using div_mult_mod_eq [of k 64] div_mult_mod_eq [of "k div 64" 64] div_mult_mod_eq [of "k div 4096" 64]
    by (simp_all add: div_mult2_eq [of k 64 64, simplified] div_mult2_eq [of k 4096 64, simplified])
  consider (1) "k < 0x80" | (2) "0x80 \<le> k" "k < 0x800" | (3) "0x800 \<le> k" "k < 0x10000" | (4) "0x10000 \<le> k" by linarith
  then have "READ_UTF8 (WRITE_UTF8 c @ z) = Some (readable c, z) \<and> (z \<noteq> [] \<longrightarrow> sqlite3Utf8Read (WRITE_UTF8 c @ z) = Some (readable c, z))"
  proof cases
    case 1
    then show ?thesis using low val by (simp add: WRITE_UTF8_nat u READ_UTF8_def sqlite3Utf8Read_def readable_def lt)
  next
    case 2
    then have "k div 64 < 32" "k mod 64 < 64" by auto
    then show ?thesis using 2 sum(1) lead_byte(1) [of "k div 64"] tail_stops [OF assms(2), of c]
      by (simp add: WRITE_UTF8_nat u READ_UTF8_def sqlite3Utf8Read_def readable_def lt flip: c del: of_nat_add of_nat_mult utf8_tail.simps(2) utf8_tail_z.simps(2))
  next
    case 3
    then have "k div 4096 < 16" "k div 64 mod 64 < 64" "k mod 64 < 64" by auto
    then show ?thesis using 3 sum(2) lead_byte(2) [of "k div 4096"] tail_stops [OF assms(2), of c]
      by (simp add: WRITE_UTF8_nat u READ_UTF8_def sqlite3Utf8Read_def readable_def lt flip: c del: of_nat_add of_nat_mult utf8_tail.simps(2) utf8_tail_z.simps(2))
  next
    case 4
    then have "k div 262144 < 8" "k div 4096 mod 64 < 64" "k div 64 mod 64 < 64" "k mod 64 < 64" using k by auto
    then show ?thesis using 4 sum(3) lead_byte(3) [of "k div 262144"] tail_stops [OF assms(2), of c]
      by (simp add: WRITE_UTF8_nat u READ_UTF8_def sqlite3Utf8Read_def readable_def lt flip: c del: of_nat_add of_nat_mult utf8_tail.simps(2) utf8_tail_z.simps(2))
  qed
  then show "READ_UTF8 (WRITE_UTF8 c @ z) = Some (readable c, z)" "z \<noteq> [] \<Longrightarrow> sqlite3Utf8Read (WRITE_UTF8 c @ z) = Some (readable c, z)"
    by blast+
qed

section \<open>UTF-16\<close>

lemma WRITE_UTF16LE_nat:
  fixes c :: u32
  defines "k \<equiv> unat c"
  assumes "c < 0x110000"
  shows "WRITE_UTF16LE c =
     (if k \<le> 0xFFFF then [of_nat (k mod 256), of_nat (k div 256 mod 256)]
      else [of_nat ((k - 0x10000) div 1024 mod 256), of_nat (0xD8 + (k - 0x10000) div 262144 mod 4), of_nat (k mod 256), of_nat (0xDC + k div 256 mod 4)])"
proof -
  have m: "0xC0 = push_bit 6 (mask 2 :: u32)" "0x03 = (mask 2 :: u32)" by (simp_all add: mask_eq_exp_minus_1 push_bit_eq_mult)
  have k: "k < 0x110000" using assms by (simp add: word_less_nat_alt)
  have le: "c \<le> 0xFFFF \<longleftrightarrow> k \<le> 0xFFFF" by (simp add: word_le_nat_alt k_def)
  have s: "unat (c - 0x10000) = k - 0x10000" if "\<not> k \<le> 0xFFFF" using that by (simp add: unat_sub word_le_nat_alt k_def)
  have b0: "k div 1024 mod 64 + 64 * ((k - 0x10000) div 1024 div 64 mod 4) = (k - 0x10000) div 1024 mod 256" if "\<not> k \<le> 0xFFFF"
  proof -
    define d where "d = k - 0x10000"
    have "k = d + 64 * 1024" using that by (simp add: d_def)
    then have "k div 1024 = 64 + d div 1024" using div_mult_self1 [of 1024 d 64] by simp
    then have "k div 1024 mod 64 = d div 1024 mod 64" by simp
    then show ?thesis unfolding d_def [symmetric] using mod_mult2_eq [of "d div 1024" 64 4] by simp
  qed
  have "(drop_bit 10 c AND 0x3F) + (drop_bit 10 (c - 0x10000) AND 0xC0) = of_nat ((k - 0x10000) div 1024 mod 256)" if "\<not> k \<le> 0xFFFF"
    unfolding m utf8_masks part part_up unat_shift_right s [OF that] k_def [symmetric] b0 [OF that, symmetric] by simp
  moreover have "drop_bit 18 (c - 0x10000) AND 0x03 = of_nat ((k - 0x10000) div 262144 mod 4)" if "\<not> k \<le> 0xFFFF"
    unfolding m part s [OF that] by simp
  moreover have "drop_bit 8 c AND 0x03 = of_nat (k div 256 mod 4)" "drop_bit 8 c AND 0xFF = of_nat (k div 256 mod 256)"
    "c AND 0xFF = of_nat (k mod 256)"
    unfolding m utf8_masks part unfolding part_0 k_def by simp_all
  moreover have "(0xD8 + of_nat a :: u32) = of_nat (0xD8 + a)" "(0xDC + of_nat a :: u32) = of_nat (0xDC + a)" for a by simp_all
  ultimately show ?thesis unfolding WRITE_UTF16LE_def le by (cases "k \<le> 0xFFFF") (simp_all only: byte_of_nat if_False if_True not_False_eq_True)
qed

lemma surrogates_nat:
  assumes "d < 0x100000"
  shows "surrogates (of_nat (0xD800 + d div 1024)) (of_nat (0xDC00 + d mod 1024)) = of_nat (0x10000 + d)"
proof -
  have m: "0x03FF = (mask 10 :: u32)" "0x03C0 = push_bit 6 (mask 4 :: u32)" by (simp_all add: mask_eq_exp_minus_1 push_bit_eq_mult)
  have q: "d div 1024 < 1024" using assms by simp
  have u: "unat (of_nat (0xD800 + d div 1024) :: u32) = 0xD800 + d div 1024" "unat (of_nat (0xDC00 + d mod 1024) :: u32) = 0xDC00 + d mod 1024"
    using q by (simp_all add: unat_of_nat del: of_nat_add)
  have "(0xDC00 + d mod 1024) mod 1024 + 1024 * ((0xD800 + d div 1024) mod 64) + 1024 * (64 * ((0xD800 + d div 1024) div 64 mod 16) + 64)
    = 0x10000 + d"
  proof -
    define e where "e = d div 1024"
    have m1: "(0xD800 + e) mod 64 = e mod 64" using mod_mult_self1 [of e 864 64] by (simp add: add.commute)
    have m2: "(0xDC00 + d mod 1024) mod 1024 = d mod 1024" using mod_mult_self1 [of "d mod 1024" 55 1024] by (simp add: add.commute)
    have m3: "(0xD800 + e) div 64 mod 16 = e div 64"
    proof -
      have "(0xD800 + e) div 64 = 864 + e div 64" using div_mult_self1 [of 64 e 864] by (simp add: add.commute)
      moreover have "e div 64 < 16" using q by (simp add: e_def)
      moreover have "(864 + e div 64) mod 16 = e div 64 mod 16" using mod_mult_self1 [of "e div 64" 54 16] by (simp add: add.commute)
      ultimately show ?thesis by simp
    qed
    have "1024 * e + d mod 1024 = d" "64 * (e div 64) + e mod 64 = e" by (simp_all add: e_def)
    moreover have "1024 * e + r = d \<Longrightarrow> 64 * y + x = e \<Longrightarrow> r + 1024 * x + 1024 * (64 * y + 64) = 65536 + d" for r x y :: nat by simp
    ultimately show ?thesis unfolding e_def [symmetric] m1 m2 m3 by blast
  qed
  then have s: "(0xDC00 + d mod 1024) mod 2 ^ 10 + 1024 * ((0xD800 + d div 1024) mod 2 ^ 6) + 1024 * (2 ^ 6 * ((0xD800 + d div 1024) div 2 ^ 6 mod 2 ^ 4) + 64)
    = 0x10000 + d" by simp
  have p: "push_bit 10 (of_nat a :: u32) = of_nat (1024 * a)" for a by (simp add: push_bit_eq_mult)
  have n: "0x40 = (of_nat 64 :: u32)" by simp
  show ?thesis
    unfolding surrogates_def m utf8_masks part_0 part_up u n by (simp only: p s flip: of_nat_add)
qed

lemma unit_nat: "a < 256 \<Longrightarrow> b < 256 \<Longrightarrow> ucast (of_nat a :: u8) + push_bit 8 (ucast (of_nat b :: u8)) = (of_nat (a + 256 * b) :: u32)"
  by (simp add: small_byte push_bit_eq_mult)

definition scalar :: "u32 \<Rightarrow> bool" where
  "scalar c \<longleftrightarrow> c < 0x110000 \<and> \<not> (0xD800 \<le> c \<and> c < 0xE000)"

lemma read_write_utf16le:
  assumes "scalar c"
  shows "READ_UTF16LE (WRITE_UTF16LE c @ z) = Some (c, z)"
proof -
  define k where "k = unat c"
  have c: "c = of_nat k" by (simp add: k_def)
  have lt: "c < 0x110000" using assms by (simp add: scalar_def)
  then have k: "k < 0x110000" by (simp add: k_def word_less_nat_alt)
  show ?thesis
  proof (cases "k \<le> 0xFFFF")
    case True
    have b: "k div 256 mod 256 = k div 256" using True by simp
    have "ucast (of_nat (k mod 256) :: u8) + push_bit 8 (ucast (of_nat (k div 256) :: u8)) = c"
      using unit_nat [of "k mod 256" "k div 256"] True by (simp add: c del: of_nat_add of_nat_mult)
    then show ?thesis using assms True unfolding READ_UTF16LE_def WRITE_UTF16LE_nat [OF lt] k_def [symmetric] b
      by (auto simp: scalar_def simp del: of_nat_mod)
  next
    case False
    define d where "d = k - 0x10000"
    have d: "d < 0x100000" "k = 0x10000 + d" using k False by (simp_all add: d_def)
    have q: "d div 262144 mod 4 = d div 262144" "d div 262144 < 4" using d(1) by simp_all
    have "256 * (d div 262144) + d div 1024 mod 256 = d div 1024" using div_mult_mod_eq [of "d div 1024" 256] by (simp add: div_mult2_eq [of d 1024 256, simplified])
    then have hi: "ucast (of_nat (d div 1024 mod 256) :: u8) + push_bit 8 (ucast (of_nat (0xD8 + d div 262144) :: u8)) = (of_nat (0xD800 + d div 1024) :: u32)"
      using unit_nat [of "d div 1024 mod 256" "0xD8 + d div 262144"] q by (simp add: add.commute add.left_commute del: of_nat_add of_nat_mult)
    have km: "k mod 256 = d mod 256" "k div 256 mod 4 = d div 256 mod 4"
    proof -
      show "k mod 256 = d mod 256" using mod_mult_self1 [of d 256 256] by (simp add: d(2) add.commute)
      have "k div 256 = d div 256 + 256" using div_mult_self1 [of 256 d 256] by (simp add: d(2) add.commute)
      then show "k div 256 mod 4 = d div 256 mod 4" using mod_mult_self1 [of "d div 256" 64 4] by simp
    qed
    have "d mod 256 + 256 * (0xDC + d div 256 mod 4) = 0xDC00 + d mod 1024" using mod_mult2_eq [of d 256 4] by simp
    moreover have "d mod 256 < 256" "0xDC + d div 256 mod 4 < 256" by simp_all
    ultimately have lo: "ucast (of_nat (d mod 256) :: u8) + push_bit 8 (ucast (of_nat (0xDC + d div 256 mod 4) :: u8)) = (of_nat (0xDC00 + d mod 1024) :: u32)"
      using unit_nat [of "d mod 256" "0xDC + d div 256 mod 4"] by (simp only:)
    have "d div 1024 < 1024" using d(1) by simp
    then have u: "0xD800 \<le> (of_nat (0xD800 + d div 1024) :: u32)" "of_nat (0xD800 + d div 1024) < (0xE000 :: u32)"
      by (simp_all add: word_le_nat_alt word_less_nat_alt unat_of_nat del: of_nat_add)
    show ?thesis
      using surrogates_nat [OF d(1)] u False
      unfolding READ_UTF16LE_def WRITE_UTF16LE_nat [OF lt] k_def [symmetric] d_def [symmetric] q(1) km
      by (simp add: hi lo c d(2) del: of_nat_add of_nat_mod)
  qed
qed

text \<open>Big-endian is the same with the bytes of every unit swapped.\<close>

lemma swap_pairs_append: "even (length x) \<Longrightarrow> swap_pairs (x @ y) = swap_pairs x @ swap_pairs y"
  by (induction x rule: swap_pairs.induct) simp_all

lemma swap_pairs_swap [simp]: "swap_pairs (swap_pairs x) = x" "length (swap_pairs x) = length x"
  by (induction x rule: swap_pairs.induct) simp_all

lemma WRITE_UTF16BE_swap: "WRITE_UTF16BE c = swap_pairs (WRITE_UTF16LE c)" "WRITE_UTF16LE c = swap_pairs (WRITE_UTF16BE c)"
  by (simp_all add: WRITE_UTF16BE_def WRITE_UTF16LE_def)

lemma READ_UTF16BE_swap: "READ_UTF16BE (swap_pairs z) = map_option (\<lambda>(c, z). (c, swap_pairs z)) (READ_UTF16LE z)"
proof -
  consider "z = []" | a where "z = [a]" | a b where "z = [a, b]" | a b c where "z = [a, b, c]" | a b c d r where "z = a # b # c # d # r"
    by (metis list.exhaust)
  then show ?thesis by cases (simp_all add: READ_UTF16BE_def READ_UTF16LE_def add.commute Let_def)
qed

lemma even_WRITE_UTF16 [simp]: "even (length (WRITE_UTF16LE c))" "even (length (WRITE_UTF16BE c))" "WRITE_UTF16LE c \<noteq> []" "WRITE_UTF16BE c \<noteq> []"
  by (simp_all add: WRITE_UTF16LE_def WRITE_UTF16BE_def)

lemma read_write_utf16be:
  assumes "scalar c"
  shows "READ_UTF16BE (WRITE_UTF16BE c @ z) = Some (c, z)"
proof -
  have "WRITE_UTF16BE c @ z = swap_pairs (WRITE_UTF16LE c @ swap_pairs z)"
    by (simp add: swap_pairs_append WRITE_UTF16BE_swap(1))
  then show ?thesis by (simp add: READ_UTF16BE_swap read_write_utf16le [OF assms])
qed

section \<open>The size of the output\<close>

lemma trans1_small: "b < 64 \<Longrightarrow> sqlite3Utf8Trans1 ! b < 0x80"
proof -
  have "list_all (\<lambda>b. sqlite3Utf8Trans1 ! b < 0x80) [0..<64]" by code_simp
  then show "b < 64 \<Longrightarrow> sqlite3Utf8Trans1 ! b < 0x80" by (simp add: list_all_iff)
qed

text \<open>One byte gives one unit of UTF-16; so does every character of two bytes and more that has not more than two.\<close>

lemma READ_UTF8_single:
  assumes "READ_UTF8 z = Some (c, y)" "length z = Suc (length y)"
  shows "c \<le> 0xFFFF"
proof -
  obtain b x where z: "z = b # x" using assms(2) by (cases z) auto
  show ?thesis
  proof (cases "0xC0 \<le> b")
    case False
    then have "c = ucast b" using assms(1) by (simp add: READ_UTF8_def z)
    moreover have "unat (ucast b :: u32) < 256" using unsigned_less [where ?'a = nat, of b]
      by (simp add: unsigned_ucast_eq take_bit_nat_eq_self)
    ultimately show ?thesis by (simp add: word_le_nat_alt)
  next
    case True
    let ?t = "sqlite3Utf8Trans1 ! unat (b - 0xC0)"
    have "unat (b - 0xC0) < 64" using True unsigned_less [where ?'a = nat, of b] by (simp add: unat_sub word_le_nat_alt)
    then have "?t < 0x80" by (rule trans1_small)
    then have t: "(ucast ?t :: u32) < 0x80" by (simp add: word_less_nat_alt unsigned_ucast_eq take_bit_nat_eq_self)
    obtain d where d: "utf8_tail (ucast ?t) x = (d, y)" "c = utf8_replace d"
      using assms(1) True by (auto simp: READ_UTF8_def z Let_def split: prod.splits)
    have "length x = length y" using assms(2) z by simp
    then have "d = ucast ?t"
    proof (cases x)
      case (Cons a w)
      then show ?thesis using d(1) \<open>length x = length y\<close> utf8_tail_shorter [of "push_bit 6 (ucast ?t) + ucast (0x3F AND a)" w]
        by (auto split: if_splits)
    qed (use d(1) in simp)
    then show ?thesis using t d(2) by (simp add: utf8_replace_def)
  qed
qed

lemma write_lengths: "length (WRITE_UTF16LE c) \<le> 4" "c \<le> 0xFFFF \<Longrightarrow> length (WRITE_UTF16LE c) = 2" "length (WRITE_UTF16BE c) = length (WRITE_UTF16LE c)"
  "length (WRITE_UTF8 c) \<le> 4" "c \<le> 0xFFFF \<Longrightarrow> length (WRITE_UTF8 c) \<le> 3"
  by (auto simp: WRITE_UTF16LE_def WRITE_UTF16BE_def WRITE_UTF8_def word_less_nat_alt word_le_nat_alt)

declare utf8_to_utf16.simps [simp del] utf16_to_utf8.simps [simp del]

lemma READ_UTF8_some: "z \<noteq> [] \<Longrightarrow> \<exists>c y. READ_UTF8 z = Some (c, y)"
  by (cases z) (simp_all add: READ_UTF8_def split_beta)

lemma utf8_to_utf16_fits: "\<exists>out. utf8_to_utf16 le z = Some out \<and> length out \<le> 2 * length z"
proof (induction "length z" arbitrary: z rule: less_induct)
  case less
  show ?case
  proof (cases "z = []")
    case False
    then obtain c y where r: "READ_UTF8 z = Some (c, y)" using READ_UTF8_some by blast
    then have y: "length y < length z" by (rule READ_UTF8_shorter)
    obtain out where out: "utf8_to_utf16 le y = Some out" "length out \<le> 2 * length y" using less [OF y] by blast
    have "length (WRITE_UTF16LE c) + 2 * length y \<le> 2 * length z"
    proof (cases "length z = Suc (length y)")
      case True
      then show ?thesis using READ_UTF8_single [OF r] write_lengths(2) by simp
    next
      case False
      then show ?thesis using write_lengths(1) [of c] y by simp
    qed
    then show ?thesis using False r out by (simp add: utf8_to_utf16.simps [of le z] write_lengths(3))
  qed (simp add: utf8_to_utf16.simps)
qed

lemma READ_UTF16LE_even:
  assumes "even (length z)" "z \<noteq> []"
  shows "\<exists>c y. READ_UTF16LE z = Some (c, y) \<and> even (length y) \<and> (length y + 2 = length z \<and> c \<le> 0xFFFF \<or> length y + 4 = length z)"
proof -
  obtain a b x where z: "z = a # b # x" using assms by (cases z rule: swap_pairs.cases) auto
  let ?c = "ucast a + push_bit 8 (ucast b) :: u32"
  have "a = of_nat (unat a)" "b = of_nat (unat b)" "unat a < 256" "unat b < 256"
    using unsigned_less [where ?'a = nat, of a] unsigned_less [where ?'a = nat, of b] by simp_all
  then have "?c = of_nat (unat a + 256 * unat b)" using unit_nat by metis
  moreover have "unat a + 256 * unat b \<le> 65535" using \<open>unat a < 256\<close> \<open>unat b < 256\<close> by linarith
  ultimately have c: "?c \<le> 0xFFFF" by (simp add: word_le_nat_alt unat_of_nat del: of_nat_add of_nat_mult)
  show ?thesis
  proof (cases "0xD800 \<le> ?c \<and> ?c < 0xE000 \<and> x \<noteq> []")
    case True
    then obtain d e w where "x = d # e # w" using assms(1) z by (cases x rule: swap_pairs.cases) auto
    then show ?thesis using True assms(1) by (simp add: READ_UTF16LE_def z Let_def)
  next
    case False
    then show ?thesis using assms(1) c by (auto simp: READ_UTF16LE_def z Let_def)
  qed
qed

lemma READ_UTF16_even:
  assumes "even (length z)" "z \<noteq> []"
  shows "\<exists>c y. (if le then READ_UTF16LE z else READ_UTF16BE z) = Some (c, y) \<and> even (length y)
    \<and> (length y + 2 = length z \<and> c \<le> 0xFFFF \<or> length y + 4 = length z)"
proof (cases le)
  case False
  have "swap_pairs z \<noteq> []" using assms by (cases z rule: swap_pairs.cases) auto
  then obtain c y where "READ_UTF16LE (swap_pairs z) = Some (c, y)" "even (length y)"
    "length y + 2 = length z \<and> c \<le> 0xFFFF \<or> length y + 4 = length z"
    using READ_UTF16LE_even [of "swap_pairs z"] assms by auto
  then show ?thesis using READ_UTF16BE_swap [of "swap_pairs z"] False by simp
qed (use READ_UTF16LE_even [OF assms] in simp)

lemma utf16_to_utf8_fits: "even (length z) \<Longrightarrow> \<exists>out. utf16_to_utf8 le z = Some out \<and> length out \<le> 2 * length z"
proof (induction "length z" arbitrary: z rule: less_induct)
  case less
  show ?case
  proof (cases "z = []")
    case False
    then obtain c y where r: "(if le then READ_UTF16LE z else READ_UTF16BE z) = Some (c, y)" "even (length y)"
      "length y + 2 = length z \<and> c \<le> 0xFFFF \<or> length y + 4 = length z"
      using READ_UTF16_even [OF less.prems] by blast
    then have y: "length y < length z" by auto
    obtain out where out: "utf16_to_utf8 le y = Some out" "length out \<le> 2 * length y" using less.hyps [OF y r(2)] by blast
    have "length (WRITE_UTF8 c) + 2 * length y \<le> 2 * length z" using r(3) write_lengths(4) [of c] write_lengths(5) [of c] by auto
    then show ?thesis using False r out by (simp add: utf16_to_utf8.simps [of le z])
  qed (simp add: utf16_to_utf8.simps)
qed

section \<open>The characters of a string\<close>

definition write_as :: "u8 \<Rightarrow> u32 \<Rightarrow> u8 list" where
  "write_as e c = (if e = SQLITE_UTF8 then WRITE_UTF8 c else if e = SQLITE_UTF16LE then WRITE_UTF16LE c else WRITE_UTF16BE c)"

definition encoding :: "u8 \<Rightarrow> bool" where
  "encoding e \<longleftrightarrow> e = SQLITE_UTF8 \<or> e = SQLITE_UTF16LE \<or> e = SQLITE_UTF16BE"

text \<open>The string holds these characters; none of them is one that readers replace.\<close>

definition holds :: "text_mem \<Rightarrow> u32 list \<Rightarrow> bool" where
  "holds m cs \<longleftrightarrow> encoding (mem_enc m) \<and> unat (mem_n m) \<le> length (mem_z m)
     \<and> take (unat (mem_n m)) (mem_z m) = concat (map (write_as (mem_enc m)) cs)
     \<and> (\<forall>c \<in> set cs. scalar c \<and> c \<noteq> 0xFFFE \<and> c \<noteq> 0xFFFF)"

lemma encodings_distinct [simp]: "SQLITE_UTF8 \<noteq> SQLITE_UTF16LE" "SQLITE_UTF8 \<noteq> SQLITE_UTF16BE" "SQLITE_UTF16LE \<noteq> SQLITE_UTF16BE"
  "SQLITE_UTF16LE \<noteq> SQLITE_UTF8" "SQLITE_UTF16BE \<noteq> SQLITE_UTF8" "SQLITE_UTF16BE \<noteq> SQLITE_UTF16LE"
  by (simp_all add: SQLITE_UTF8_def SQLITE_UTF16LE_def SQLITE_UTF16BE_def)

lemma and_split: "(x AND m) + (x AND NOT m) = x" for x :: u32
proof -
  have "(x AND m) + (x AND NOT m) = (x AND m) OR (x AND NOT m)" by (rule disjunctive_add) (auto simp: bit_simps)
  also have "\<dots> = x" by (rule bit_word_eqI) (auto simp: bit_simps)
  finally show ?thesis .
qed

lemma readable_id:
  assumes "scalar c" "c \<noteq> 0xFFFE" "c \<noteq> 0xFFFF"
  shows "readable c = c"
proof -
  have s: "c AND 0xFFFFF800 = 0xD800 \<Longrightarrow> 0xD800 \<le> c \<and> c < 0xE000"
  proof -
    assume a: "c AND 0xFFFFF800 = 0xD800"
    have "0xFFFFF800 = (NOT (mask 11) :: u32)" by (simp add: mask_eq_exp_minus_1)
    then have "c AND NOT (mask 11) = 0xD800" using a by (simp only:)
    then have "c = 0xD800 + (c AND mask 11)" using and_split [of c "NOT (mask 11)"] unfolding bit.double_compl by (simp only:)
    then have "c = 0xD800 + of_nat (unat c mod 2048)" by (simp add: part_0)
    moreover have "unat (0xD800 + of_nat (unat c mod 2048) :: u32) = 0xD800 + unat c mod 2048"
    proof -
      have "unat (of_nat (0xD800 + unat c mod 2048) :: u32) = 0xD800 + unat c mod 2048" by (simp add: unat_of_nat del: of_nat_add)
      then show ?thesis by simp
    qed
    ultimately have "unat c = 0xD800 + unat c mod 2048" by metis
    moreover have "unat c mod 2048 < 2048" by simp
    ultimately have "0xD800 \<le> unat c" "unat c < 0xE000" by linarith+
    then show ?thesis by (simp add: word_le_nat_alt word_less_nat_alt)
  qed
  have f: "c AND 0xFFFFFFFE = 0xFFFE \<Longrightarrow> c = 0xFFFE \<or> c = 0xFFFF"
  proof -
    assume a: "c AND 0xFFFFFFFE = 0xFFFE"
    have "0xFFFFFFFE = (NOT (mask 1) :: u32)" by (simp add: mask_eq_exp_minus_1)
    then have "c AND NOT (mask 1) = 0xFFFE" using a by (simp only:)
    then have "c = 0xFFFE + (c AND mask 1)" using and_split [of c "NOT (mask 1)"] unfolding bit.double_compl by (simp only:)
    then have c: "c = 0xFFFE + of_nat (unat c mod 2 ^ 1)" unfolding part_0 .
    have "unat c mod 2 ^ 1 = 0 \<or> unat c mod 2 ^ 1 = 1" by auto
    then show ?thesis
    proof
      assume "unat c mod 2 ^ 1 = 0"
      then show ?thesis using c by simp
    next
      assume "unat c mod 2 ^ 1 = 1"
      from c [unfolded this] show ?thesis by simp
    qed
  qed
  show ?thesis using assms s f unfolding readable_def utf8_replace_def scalar_def by (auto simp: not_less)
qed

lemma WRITE_UTF8_starts: "z = [] \<or> starts z \<Longrightarrow> starts (WRITE_UTF8 c @ z)" if "c < 0x110000"
proof -
  define k where "k = unat c"
  have k: "k < 0x110000" using that by (simp add: k_def word_less_nat_alt)
  have t: "list_all (\<lambda>y. (of_nat y :: u8) AND 0xC0 \<noteq> 0x80) [0..<128]" "list_all (\<lambda>y. (0xC0 + of_nat y :: u8) AND 0xC0 \<noteq> 0x80) [0..<32]"
    "list_all (\<lambda>y. (0xE0 + of_nat y :: u8) AND 0xC0 \<noteq> 0x80) [0..<16]" "list_all (\<lambda>y. (0xF0 + of_nat y :: u8) AND 0xC0 \<noteq> 0x80) [0..<8]"
    by code_simp+
  show ?thesis unfolding WRITE_UTF8_nat k_def [symmetric] using t unfolding list_all_iff starts_def by simp
qed

lemma text_starts: "\<forall>c \<in> set cs. scalar c \<Longrightarrow> starts (concat (map WRITE_UTF8 cs))"
proof (induction cs)
  case (Cons c cs)
  then show ?case using WRITE_UTF8_starts [of c "concat (map WRITE_UTF8 cs)"] by (simp add: scalar_def)
qed (simp add: starts_def)

lemma utf8_to_utf16_text:
  assumes "\<forall>c \<in> set cs. scalar c \<and> c \<noteq> 0xFFFE \<and> c \<noteq> 0xFFFF"
  shows "utf8_to_utf16 le (concat (map WRITE_UTF8 cs)) = Some (concat (map (if le then WRITE_UTF16LE else WRITE_UTF16BE) cs))"
  using assms
proof (induction cs)
  case (Cons c cs)
  have "WRITE_UTF8 c \<noteq> []" by (simp add: WRITE_UTF8_def)
  moreover have "READ_UTF8 (WRITE_UTF8 c @ concat (map WRITE_UTF8 cs)) = Some (c, concat (map WRITE_UTF8 cs))"
    using Cons.prems read_write_utf8(1) [of c "concat (map WRITE_UTF8 cs)"] text_starts [of cs] readable_id [of c] by (simp add: scalar_def)
  ultimately show ?case using Cons by (simp add: utf8_to_utf16.simps [of le "WRITE_UTF8 c @ _"])
qed (simp add: utf8_to_utf16.simps)

lemma utf16_to_utf8_text:
  assumes "\<forall>c \<in> set cs. scalar c"
  shows "utf16_to_utf8 le (concat (map (if le then WRITE_UTF16LE else WRITE_UTF16BE) cs)) = Some (concat (map WRITE_UTF8 cs))"
  using assms
proof (induction cs)
  case (Cons c cs)
  then show ?case using read_write_utf16le read_write_utf16be by (cases le) (simp_all add: utf16_to_utf8.simps [of _ "_ @ _"])
qed (simp add: utf16_to_utf8.simps)

lemma readable_replaced:
  assumes "0xD800 \<le> c \<and> c < 0xE000 \<or> c = 0xFFFE \<or> c = 0xFFFF"
  shows "readable c = 0xFFFD"
proof -
  have "c AND 0xFFFFF800 = 0xD800" if "0xD800 \<le> c \<and> c < 0xE000"
  proof -
    define r where "r = unat c - 0xD800"
    have "0xD800 \<le> unat c" "unat c < 0xE000" using that by (simp_all add: word_le_nat_alt word_less_nat_alt)
    then have r: "unat c = 0xD800 + r" "r < 2048" unfolding r_def by linarith+
    have "unat c mod 2 ^ 11 = r" using mod_mult_self1 [of r 27 2048] r by (simp add: add.commute)
    then have low: "c AND mask 11 = of_nat r" by (simp add: part_0)
    have "c = of_nat (unat c)" by simp
    then have "c = 0xD800 + of_nat r" unfolding r(1) by (metis of_nat_add of_nat_numeral)
    moreover have "(c AND NOT (mask 11)) + (c AND mask 11) = c" using and_split [of c "NOT (mask 11)"] unfolding bit.double_compl .
    ultimately have "c AND NOT (mask 11) = 0xD800" unfolding low by (metis add_right_cancel)
    moreover have "0xFFFFF800 = (NOT (mask 11) :: u32)" by (simp add: mask_eq_exp_minus_1)
    ultimately show ?thesis by (simp only:)
  qed
  moreover have "\<not> c < 0x80" using assms by (auto simp: word_less_nat_alt word_le_nat_alt)
  ultimately show ?thesis using assms by (auto simp: readable_def utf8_replace_def)
qed

lemma even_part: "even (unat (n AND NOT 1))" "unat (n AND NOT 1) \<le> unat n" "even (unat n) \<Longrightarrow> n AND NOT 1 = n" for n :: u32
proof -
  have s: "(n AND 1) + (n AND NOT 1) = n" by (rule and_split)
  have b: "n AND 1 = of_nat (unat n mod 2)" using part_0 [of n 1] by (simp add: mask_eq_exp_minus_1)
  have "n = of_nat (unat n)" by simp
  then have "n AND NOT 1 = of_nat (unat n) - of_nat (unat n mod 2)" using s unfolding b by (metis add_diff_cancel_left')
  also have "\<dots> = of_nat (unat n - unat n mod 2)" by (simp only: of_nat_diff [OF mod_less_eq_dividend])
  finally have e: "n AND NOT 1 = of_nat (unat n - unat n mod 2)" .
  have "unat n - unat n mod 2 < 2 ^ 32" using unsigned_less [where ?'a = nat, of n] by simp
  then have u: "unat (n AND NOT 1) = unat n - unat n mod 2" unfolding e by (simp add: unat_of_nat del: of_nat_diff)
  show "even (unat (n AND NOT 1))" "unat (n AND NOT 1) \<le> unat n" unfolding u by (simp_all add: even_iff_mod_2_eq_zero minus_mod_eq_mult_div)
  show "even (unat n) \<Longrightarrow> n AND NOT 1 = n" using u by (simp add: word_unat_eq_iff even_iff_mod_2_eq_zero)
qed

lemma even_text: "e \<noteq> SQLITE_UTF8 \<Longrightarrow> even (length (concat (map (write_as e) cs)))"
  by (induction cs) (simp_all add: write_as_def)

lemma swap_text: "swap_pairs (concat (map WRITE_UTF16LE cs)) = concat (map WRITE_UTF16BE cs)"
  "swap_pairs (concat (map WRITE_UTF16BE cs)) = concat (map WRITE_UTF16LE cs)"
  by (induction cs) (simp_all add: swap_pairs_append flip: WRITE_UTF16BE_swap)

section \<open>Properties\<close>

text \<open>For each of the 0x110000 code points, the assertions of sqlite3UtfSelfTest: sqlite3Utf8Read
  reads what WRITE_UTF8 wrote, as 0xFFFD for surrogates, 0xFFFE and 0xFFFF, and stops at the
  zero byte; the macros for UTF-16 read back, in both byte orders, every code point that is no
  surrogate\<close>

theorem utf_self_test:
  assumes "c < 0x110000"
  shows "sqlite3Utf8Read (WRITE_UTF8 c @ 0 # z)
      = Some (if 0xD800 \<le> c \<and> c < 0xE000 \<or> c = 0xFFFE \<or> c = 0xFFFF then 0xFFFD else c, 0 # z)
    \<and> (\<not> (0xD800 \<le> c \<and> c < 0xE000) \<longrightarrow>
        READ_UTF16LE (WRITE_UTF16LE c @ z) = Some (c, z) \<and> READ_UTF16BE (WRITE_UTF16BE c @ z) = Some (c, z))"
proof -
  have "starts (0 # z)" by (simp add: starts_def)
  then show ?thesis
    using read_write_utf8(2) [OF assms, of "0 # z"] readable_replaced [of c] readable_id [of c] assms
      read_write_utf16le [of c z] read_write_utf16be [of c z] by (auto simp: scalar_def)
qed

theorem utf_self_test_witness:
  "sqlite3Utf8Read (WRITE_UTF8 0x20AC @ [0, 0x41]) = Some (0x20AC, [0, 0x41])
   \<and> READ_UTF16LE (WRITE_UTF16LE 0x20AC @ [0x41]) = Some (0x20AC, [0x41])"
  using utf_self_test [where c = "0x20AC" and z = "[0x41]"] by simp

text \<open>C18: Sqlite3VdbeMemTranslate, from any of the three encodings to any other, leaves a string of
  the same characters: UTF-8 and the two byte orders of UTF-16 are representations of one list
  of code points\<close>

theorem translate_text:
  assumes "holds m cs" "unat (mem_n m) \<le> 1000000000" "encoding e" "e \<noteq> mem_enc m"
  shows "\<exists>m'. sqlite3VdbeMemTranslate True m e = Some (SQLITE_OK, m') \<and> holds m' cs \<and> mem_enc m' = e"
proof -
  let ?n = "unat (mem_n m)" and ?z = "take (unat (mem_n m)) (mem_z m)"
  have h: "encoding (mem_enc m)" "?n \<le> length (mem_z m)" "?z = concat (map (write_as (mem_enc m)) cs)"
    "\<forall>c \<in> set cs. scalar c \<and> c \<noteq> 0xFFFE \<and> c \<noteq> 0xFFFF" using assms(1) by (simp_all add: holds_def)
  have lz: "length ?z = ?n" using h(2) by simp
  have ev: "mem_n m AND NOT 1 = mem_n m" if "mem_enc m \<noteq> SQLITE_UTF8"
    using even_text [OF that, of cs] lz h(3) even_part(3) by metis
  show ?thesis
  proof (cases "mem_enc m \<noteq> SQLITE_UTF8 \<and> e \<noteq> SQLITE_UTF8")
    case True
    then have w: "write_as e = WRITE_UTF16LE \<and> write_as (mem_enc m) = WRITE_UTF16BE \<or> write_as e = WRITE_UTF16BE \<and> write_as (mem_enc m) = WRITE_UTF16LE"
      using assms(3,4) h(1) by (auto simp: encoding_def write_as_def fun_eq_iff)
    have s: "swap_pairs ?z = concat (map (write_as e) cs)" using w h(3) swap_text by auto
    then have "length (concat (map (write_as e) cs)) = ?n" using lz swap_pairs_swap(2) by metis
    then show ?thesis using s True h(2,4) ev assms(3) by (simp add: sqlite3VdbeMemTranslate_def holds_def Let_def)
  next
    case False
    let ?nz = "if e = SQLITE_UTF8 then [0] else [0, 0] :: u8 list"
    have out: "(if mem_enc m = SQLITE_UTF8 then utf8_to_utf16 (e = SQLITE_UTF16LE) ?z else utf16_to_utf8 (mem_enc m = SQLITE_UTF16LE) ?z)
      = Some (concat (map (write_as e) cs))"
    proof (cases "mem_enc m = SQLITE_UTF8")
      case True
      have "write_as e = (if e = SQLITE_UTF16LE then WRITE_UTF16LE else WRITE_UTF16BE)" "write_as SQLITE_UTF8 = WRITE_UTF8"
        using assms(4) True by (auto simp: write_as_def fun_eq_iff)
      then show ?thesis using utf8_to_utf16_text [OF h(4)] h(3) True by simp
    next
      case 2: False
      have "write_as (mem_enc m) = (if mem_enc m = SQLITE_UTF16LE then WRITE_UTF16LE else WRITE_UTF16BE)" "write_as e = WRITE_UTF8"
        using False 2 h(1) by (auto simp: write_as_def fun_eq_iff encoding_def)
      then show ?thesis using utf16_to_utf8_text [of cs "mem_enc m = SQLITE_UTF16LE"] h(3,4) 2 by simp
    qed
    have fit: "length (concat (map (write_as e) cs)) \<le> 2 * ?n"
    proof (cases "mem_enc m = SQLITE_UTF8")
      case True
      then show ?thesis using utf8_to_utf16_fits [of "e = SQLITE_UTF16LE" ?z] out lz by auto
    next
      case 2: False
      then have "even (length ?z)" using even_text h(3) by metis
      then show ?thesis using utf16_to_utf8_fits [of ?z "mem_enc m = SQLITE_UTF16LE"] out lz 2 by auto
    qed
    have n: "(if e = SQLITE_UTF8 then mem_n m AND NOT 1 else mem_n m) = mem_n m" using False ev assms(4) by auto
    have u: "unat (of_nat (length (concat (map (write_as e) cs))) :: u32) = length (concat (map (write_as e) cs))"
      using fit assms(2) by (simp add: unat_of_nat)
    have l31: "\<not> 2 ^ 31 \<le> ?n * 2 + (if e = SQLITE_UTF8 then 1 else 2)" using assms(2) by simp
    have "sqlite3VdbeMemTranslate True m e = Some (SQLITE_OK, m\<lparr>mem_n := of_nat (length (concat (map (write_as e) cs))),
        mem_z := concat (map (write_as e) cs) @ ?nz, mem_enc := e, mem_flags := MEM_Str OR MEM_Term OR (mem_flags m AND (MEM_AffMask OR MEM_Subtype))\<rparr>)"
      unfolding sqlite3VdbeMemTranslate_def Let_def n out using h(2) False l31 fit by (cases "e = SQLITE_UTF8") auto
    then show ?thesis using u h(4) assms(3) by (simp add: holds_def)
  qed
qed

definition ex_text :: "u8 \<Rightarrow> u8 list \<Rightarrow> text_mem" where
  "ex_text e z = \<lparr>mem_flags = MEM_Str, mem_u = 0, mem_nZero = 0, mem_n = of_nat (length z), mem_z = z, mem_uTemp = 0, mem_enc = e\<rparr>"

theorem translate_text_witness:
  "\<exists>m'. sqlite3VdbeMemTranslate True (ex_text SQLITE_UTF8 [0x61, 0xE2, 0x82, 0xAC, 0xF0, 0x9F, 0x98, 0x80]) SQLITE_UTF16LE = Some (SQLITE_OK, m')
    \<and> holds m' [0x61, 0x20AC, 0x1F600]"
proof -
  have "holds (ex_text SQLITE_UTF8 [0x61, 0xE2, 0x82, 0xAC, 0xF0, 0x9F, 0x98, 0x80]) [0x61, 0x20AC, 0x1F600]"
    by (simp add: holds_def ex_text_def encoding_def write_as_def scalar_def) (simp add: WRITE_UTF8_def)
  from translate_text [OF this, of SQLITE_UTF16LE] show ?thesis by (auto simp: ex_text_def encoding_def)
qed

text \<open>C31: Whatever the bytes of a string are, sqlite3VdbeMemTranslate reads no byte behind the string
  and writes no byte behind the buffer it allocates, terminator included\<close>

theorem translate_fits:
  assumes "unat (mem_n m) \<le> length (mem_z m)" "unat (mem_n m) \<le> 1000000000" "encoding e" "encoding (mem_enc m)" "e \<noteq> mem_enc m"
  shows "\<exists>rc m'. sqlite3VdbeMemTranslate ok m e = Some (rc, m') \<and> (rc = SQLITE_NOMEM \<longleftrightarrow> \<not> ok)
    \<and> (rc \<noteq> SQLITE_NOMEM \<longrightarrow> rc = SQLITE_OK \<and> mem_enc m' = e \<and> unat (mem_n m') \<le> length (mem_z m') \<and> unat (mem_n m') \<le> 2 * unat (mem_n m))"
proof (cases "mem_enc m \<noteq> SQLITE_UTF8 \<and> e \<noteq> SQLITE_UTF8")
  case True
  then show ?thesis using assms(1) even_part(2) [of "mem_n m"] by (simp add: sqlite3VdbeMemTranslate_def Let_def)
next
  case False
  let ?n = "if e = SQLITE_UTF8 then mem_n m AND NOT 1 else mem_n m"
  let ?z = "take (unat ?n) (mem_z m)"
  have n: "unat ?n \<le> unat (mem_n m)" using even_part(2) by simp
  have lz: "length ?z = unat ?n" using n assms(1) by simp
  obtain out where out: "(if mem_enc m = SQLITE_UTF8 then utf8_to_utf16 (e = SQLITE_UTF16LE) ?z else utf16_to_utf8 (mem_enc m = SQLITE_UTF16LE) ?z) = Some out"
    "length out \<le> 2 * unat ?n"
  proof (cases "mem_enc m = SQLITE_UTF8")
    case True
    then show ?thesis using utf8_to_utf16_fits [of "e = SQLITE_UTF16LE" ?z] lz that by auto
  next
    case 2: False
    then have "even (length ?z)" unfolding lz using even_part(1) False by simp
    then show ?thesis using utf16_to_utf8_fits [of ?z "mem_enc m = SQLITE_UTF16LE"] lz that 2 by auto
  qed
  have u: "unat (of_nat (length out) :: u32) = length out" using out(2) n assms(2) by (simp add: unat_of_nat)
  have l31: "\<not> 2 ^ 31 \<le> unat ?n * 2 + (if e = SQLITE_UTF8 then 1 else 2)" using assms(2) n by (cases "e = SQLITE_UTF8") simp_all
  show ?thesis
  proof (cases ok)
    case True
    have "length out \<le> 2 * unat (mem_n m)" using out(2) n by linarith
    moreover have "sqlite3VdbeMemTranslate ok m e = Some (SQLITE_OK, m\<lparr>mem_n := of_nat (length out),
        mem_z := out @ (if e = SQLITE_UTF8 then [0] else [0, 0]), mem_enc := e, mem_flags := MEM_Str OR MEM_Term OR (mem_flags m AND (MEM_AffMask OR MEM_Subtype))\<rparr>)"
      unfolding sqlite3VdbeMemTranslate_def Let_def out(1) using assms(1) False l31 out(2) True by (cases "e = SQLITE_UTF8") auto
    ultimately show ?thesis using True u by simp
  next
    case 2: False
    then show ?thesis using assms(1) False l31 by (cases "e = SQLITE_UTF8") (auto simp: sqlite3VdbeMemTranslate_def Let_def)
  qed
qed

theorem translate_fits_witness:
  "\<exists>rc m'. sqlite3VdbeMemTranslate True (ex_text SQLITE_UTF16LE [0x00, 0xD8, 0xFF]) SQLITE_UTF8 = Some (rc, m') \<and> unat (mem_n m') \<le> 6"
  using translate_fits [of "ex_text SQLITE_UTF16LE [0x00, 0xD8, 0xFF]" SQLITE_UTF8 True] by (auto simp: ex_text_def encoding_def)

end
