(* ===== verification/Glob.thy ===== *)
theory Glob
  imports Utf "HOL-Library.Sublist"
begin

text \<open>
  The operators \<open>LIKE\<close> and \<open>GLOB\<close> (\<open>func.c\<close>).  Pattern and string are zero-terminated; a pointer is the list of
  the bytes that can be read from it, the terminator included, and reading behind them is \<open>None\<close>.
\<close>

section \<open>Code\<close>

record compareInfo =
  matchAll :: u8
  matchOne :: u8
  matchSet :: u8
  noCase :: bool

definition globInfo :: compareInfo where
  "globInfo = \<lparr>matchAll = 0x2A, matchOne = 0x3F, matchSet = 0x5B, noCase = False\<rparr>"   \<comment> \<open>\<open>*\<close> \<open>?\<close> \<open>[\<close>\<close>

definition likeInfoNorm :: compareInfo where
  "likeInfoNorm = \<lparr>matchAll = 0x25, matchOne = 0x5F, matchSet = 0, noCase = True\<rparr>"   \<comment> \<open>\<open>%\<close> \<open>_\<close>\<close>

definition likeInfoAlt :: compareInfo where
  "likeInfoAlt = \<lparr>matchAll = 0x25, matchOne = 0x5F, matchSet = 0, noCase = False\<rparr>"

definition SQLITE_MATCH :: int where "SQLITE_MATCH = 0"
definition SQLITE_NOMATCH :: int where "SQLITE_NOMATCH = 1"
definition SQLITE_NOWILDCARDMATCH :: int where "SQLITE_NOWILDCARDMATCH = 2"

definition Utf8Read :: "u8 list \<Rightarrow> (u32 \<times> u8 list) option" where
  "Utf8Read A = do {
     b \<leftarrow> byte_at A 0;
     if b < 0x80 then Some (ucast b, tl A) else sqlite3Utf8Read A
   }"

definition SQLITE_SKIP_UTF8 :: "u8 list \<Rightarrow> u8 list option" where
  "SQLITE_SKIP_UTF8 zIn = do {
     b \<leftarrow> byte_at zIn 0;
     if 0xC0 \<le> b then
       let z = dropWhile (\<lambda>b. b AND 0xC0 = 0x80) (tl zIn) in if z = [] then None else Some z
     else Some (tl zIn)
   }"

text \<open>Upper and lower case; bit \<open>0x20\<close> of \<open>sqlite3CtypeMap\<close> belongs to the lower-case letters.\<close>

definition sqlite3UpperToLower :: "u8 list" where
  "sqlite3UpperToLower =
   [0, 1, 2, 3, 4, 5, 6, 7, 8, 9, 10, 11, 12, 13, 14, 15, 16, 17,
    18, 19, 20, 21, 22, 23, 24, 25, 26, 27, 28, 29, 30, 31, 32, 33, 34, 35,
    36, 37, 38, 39, 40, 41, 42, 43, 44, 45, 46, 47, 48, 49, 50, 51, 52, 53,
    54, 55, 56, 57, 58, 59, 60, 61, 62, 63, 64, 97, 98, 99, 100, 101, 102, 103,
    104, 105, 106, 107, 108, 109, 110, 111, 112, 113, 114, 115, 116, 117, 118, 119, 120, 121,
    122, 91, 92, 93, 94, 95, 96, 97, 98, 99, 100, 101, 102, 103, 104, 105, 106, 107,
    108, 109, 110, 111, 112, 113, 114, 115, 116, 117, 118, 119, 120, 121, 122, 123, 124, 125,
    126, 127, 128, 129, 130, 131, 132, 133, 134, 135, 136, 137, 138, 139, 140, 141, 142, 143,
    144, 145, 146, 147, 148, 149, 150, 151, 152, 153, 154, 155, 156, 157, 158, 159, 160, 161,
    162, 163, 164, 165, 166, 167, 168, 169, 170, 171, 172, 173, 174, 175, 176, 177, 178, 179,
    180, 181, 182, 183, 184, 185, 186, 187, 188, 189, 190, 191, 192, 193, 194, 195, 196, 197,
    198, 199, 200, 201, 202, 203, 204, 205, 206, 207, 208, 209, 210, 211, 212, 213, 214, 215,
    216, 217, 218, 219, 220, 221, 222, 223, 224, 225, 226, 227, 228, 229, 230, 231, 232, 233,
    234, 235, 236, 237, 238, 239, 240, 241, 242, 243, 244, 245, 246, 247, 248, 249, 250, 251,
    252, 253, 254, 255]"

definition sqlite3Tolower :: "u32 \<Rightarrow> u8" where
  "sqlite3Tolower x = sqlite3UpperToLower ! unat (ucast x :: u8)"

definition sqlite3CtypeMap :: "u8 list" where
  "sqlite3CtypeMap =
   [0x00, 0x00, 0x00, 0x00, 0x00, 0x00, 0x00, 0x00,
    0x00, 0x01, 0x01, 0x01, 0x01, 0x01, 0x00, 0x00,
    0x00, 0x00, 0x00, 0x00, 0x00, 0x00, 0x00, 0x00,
    0x00, 0x00, 0x00, 0x00, 0x00, 0x00, 0x00, 0x00,
    0x01, 0x00, 0x80, 0x00, 0x40, 0x00, 0x00, 0x80,
    0x00, 0x00, 0x00, 0x00, 0x00, 0x00, 0x00, 0x00,
    0x0c, 0x0c, 0x0c, 0x0c, 0x0c, 0x0c, 0x0c, 0x0c,
    0x0c, 0x0c, 0x00, 0x00, 0x00, 0x00, 0x00, 0x00,
    0x00, 0x0a, 0x0a, 0x0a, 0x0a, 0x0a, 0x0a, 0x02,
    0x02, 0x02, 0x02, 0x02, 0x02, 0x02, 0x02, 0x02,
    0x02, 0x02, 0x02, 0x02, 0x02, 0x02, 0x02, 0x02,
    0x02, 0x02, 0x02, 0x80, 0x00, 0x00, 0x00, 0x40,
    0x80, 0x2a, 0x2a, 0x2a, 0x2a, 0x2a, 0x2a, 0x22,
    0x22, 0x22, 0x22, 0x22, 0x22, 0x22, 0x22, 0x22,
    0x22, 0x22, 0x22, 0x22, 0x22, 0x22, 0x22, 0x22,
    0x22, 0x22, 0x22, 0x00, 0x00, 0x00, 0x00, 0x00,
    0x40, 0x40, 0x40, 0x40, 0x40, 0x40, 0x40, 0x40,
    0x40, 0x40, 0x40, 0x40, 0x40, 0x40, 0x40, 0x40,
    0x40, 0x40, 0x40, 0x40, 0x40, 0x40, 0x40, 0x40,
    0x40, 0x40, 0x40, 0x40, 0x40, 0x40, 0x40, 0x40,
    0x40, 0x40, 0x40, 0x40, 0x40, 0x40, 0x40, 0x40,
    0x40, 0x40, 0x40, 0x40, 0x40, 0x40, 0x40, 0x40,
    0x40, 0x40, 0x40, 0x40, 0x40, 0x40, 0x40, 0x40,
    0x40, 0x40, 0x40, 0x40, 0x40, 0x40, 0x40, 0x40,
    0x40, 0x40, 0x40, 0x40, 0x40, 0x40, 0x40, 0x40,
    0x40, 0x40, 0x40, 0x40, 0x40, 0x40, 0x40, 0x40,
    0x40, 0x40, 0x40, 0x40, 0x40, 0x40, 0x40, 0x40,
    0x40, 0x40, 0x40, 0x40, 0x40, 0x40, 0x40, 0x40,
    0x40, 0x40, 0x40, 0x40, 0x40, 0x40, 0x40, 0x40,
    0x40, 0x40, 0x40, 0x40, 0x40, 0x40, 0x40, 0x40,
    0x40, 0x40, 0x40, 0x40, 0x40, 0x40, 0x40, 0x40,
    0x40, 0x40, 0x40, 0x40, 0x40, 0x40, 0x40, 0x40]"

definition sqlite3Toupper :: "u32 \<Rightarrow> u32" where
  "sqlite3Toupper x = x AND NOT (ucast (sqlite3CtypeMap ! unat (ucast x :: u8) AND 0x20))"

text \<open>The library function: the bytes of a string in front of the first one of \<open>zStop\<close>, or of the terminator.\<close>

fun strcspn_skip :: "u8 list \<Rightarrow> u8 list \<Rightarrow> u8 list option" where
  "strcspn_skip zStop [] = None"
| "strcspn_skip zStop (b # z) = (if b = 0 \<or> b \<in> set zStop then Some (b # z) else strcspn_skip zStop z)"

lemma strcspn_skip_shorter: "strcspn_skip zStop z = Some y \<Longrightarrow> length y \<le> length z"
  by (induction zStop z rule: strcspn_skip.induct) (auto split: if_splits)

lemma sqlite3Utf8Read_shorter: "sqlite3Utf8Read z = Some (c, y) \<Longrightarrow> length y < length z"
  by (auto simp: sqlite3Utf8Read_def less_Suc_eq_le dest!: utf8_tail_z_shorter split: list.splits if_splits bind_splits)

lemma Utf8Read_shorter: "Utf8Read z = Some (c, y) \<Longrightarrow> length y < length z"
  using sqlite3Utf8Read_shorter [of z c y] by (cases z) (auto simp: Utf8Read_def split: if_splits)

lemma SQLITE_SKIP_UTF8_shorter: "SQLITE_SKIP_UTF8 z = Some y \<Longrightarrow> length y < length z"
  by (cases z) (auto simp: SQLITE_SKIP_UTF8_def Let_def less_Suc_eq_le length_dropWhile_le split: if_splits)

text \<open>The \<open>*\<close> of a pattern: further ones are skipped, and \<open>?\<close> with a character of the string each.  The result is
  the value of \<open>patternCompare\<close>, or \<open>c\<close>, the pattern from \<open>c\<close> on, the pattern behind it, and the string.\<close>

function skip_wildcards :: "compareInfo \<Rightarrow> u8 list \<Rightarrow> u8 list \<Rightarrow> (int + u32 \<times> u8 list \<times> u8 list \<times> u8 list) option" where
  "skip_wildcards pInfo zPattern zString = do {
     (c, z) \<leftarrow> Utf8Read zPattern;
     if c = ucast (matchAll pInfo) then skip_wildcards pInfo z zString
     else if c = ucast (matchOne pInfo) then do {
       (c2, zString) \<leftarrow> sqlite3Utf8Read zString;
       if c2 = 0 then Some (Inl SQLITE_NOWILDCARDMATCH) else skip_wildcards pInfo z zString
     }
     else Some (Inr (c, zPattern, z, zString))
   }"
  by auto
termination by (relation "measure (\<lambda>(i, p, s). length p)") (auto dest: Utf8Read_shorter)

declare skip_wildcards.simps [simp del]

text \<open>The loop over the characters between the brackets; \<open>c2\<close> has been read.\<close>

function set_loop :: "u32 \<Rightarrow> u32 \<Rightarrow> u32 \<Rightarrow> bool \<Rightarrow> u8 list \<Rightarrow> (bool \<times> u32 \<times> u8 list) option" where
  "set_loop c c2 prior_c seen zPattern =
     (if c2 = 0 \<or> c2 = 0x5D then Some (seen, c2, zPattern)
      else do {
        b \<leftarrow> byte_at zPattern 0;
        if c2 = 0x2D \<and> b \<noteq> 0x5D \<and> b \<noteq> 0 \<and> 0 < prior_c then do {
          (c2, zPattern) \<leftarrow> sqlite3Utf8Read zPattern;
          let seen = (seen \<or> prior_c \<le> c \<and> c \<le> c2);
          (c2, zPattern) \<leftarrow> sqlite3Utf8Read zPattern;
          set_loop c c2 0 seen zPattern
        }
        else do {
          let seen = (seen \<or> c = c2);
          let prior_c = c2;
          (c2, zPattern) \<leftarrow> sqlite3Utf8Read zPattern;
          set_loop c c2 prior_c seen zPattern
        }
      })"
  by auto
termination by (relation "measure (\<lambda>(c, c2, pr, s, p). length p)") (auto dest!: sqlite3Utf8Read_shorter)

declare set_loop.simps [simp del]

text \<open>The searches behind a \<open>*\<close>; \<open>rest\<close> compares the rest of the pattern with a string.\<close>

function search_set :: "(u8 list \<Rightarrow> int option) \<Rightarrow> u8 list \<Rightarrow> int option" where
  "search_set rest zString = do {
     b \<leftarrow> byte_at zString 0;
     if b = 0 then Some SQLITE_NOWILDCARDMATCH
     else do {
       bMatch \<leftarrow> rest zString;
       if bMatch \<noteq> SQLITE_NOMATCH then Some bMatch
       else do { zString \<leftarrow> SQLITE_SKIP_UTF8 zString; search_set rest zString }
     }
   }"
  by auto
termination by (relation "measure (\<lambda>(f, s). length s)") (auto dest: SQLITE_SKIP_UTF8_shorter)

lemma byte_at_tl: "byte_at z 0 = Some b \<Longrightarrow> length (tl z) < length z"
  by (cases z) auto

function search_stop :: "u8 list \<Rightarrow> (u8 list \<Rightarrow> int option) \<Rightarrow> u8 list \<Rightarrow> int option" where
  "search_stop zStop rest zString = do {
     zString \<leftarrow> strcspn_skip zStop zString;
     b \<leftarrow> byte_at zString 0;
     if b = 0 then Some SQLITE_NOWILDCARDMATCH
     else do {
       let zString = tl zString;
       bMatch \<leftarrow> rest zString;
       if bMatch \<noteq> SQLITE_NOMATCH then Some bMatch else search_stop zStop rest zString
     }
   }"
  by auto
termination
  by (relation "measure (\<lambda>(st, f, s). length s)")
    (auto dest!: strcspn_skip_shorter byte_at_tl)

function search_char :: "u32 \<Rightarrow> (u8 list \<Rightarrow> int option) \<Rightarrow> u8 list \<Rightarrow> int option" where
  "search_char c rest zString = do {
     (c2, zString) \<leftarrow> Utf8Read zString;
     if c2 = 0 then Some SQLITE_NOWILDCARDMATCH
     else if c2 \<noteq> c then search_char c rest zString
     else do {
       bMatch \<leftarrow> rest zString;
       if bMatch \<noteq> SQLITE_NOMATCH then Some bMatch else search_char c rest zString
     }
   }"
  by auto
termination by (relation "measure (\<lambda>(c, f, s). length s)") (auto dest: Utf8Read_shorter)

declare search_set.simps [simp del] search_stop.simps [simp del] search_char.simps [simp del]

text \<open>The brackets: \<open>None\<close> of the inner option says that there is no match, otherwise the rest of pattern and string.\<close>

definition match_set :: "u8 list \<Rightarrow> u8 list \<Rightarrow> (u8 list \<times> u8 list) option option" where
  "match_set zPattern zString = do {
     (c, zString) \<leftarrow> sqlite3Utf8Read zString;
     if c = 0 then Some None
     else do {
       (c2, zPattern) \<leftarrow> sqlite3Utf8Read zPattern;
       let invert = (c2 = 0x5E);
       (c2, zPattern) \<leftarrow> (if invert then sqlite3Utf8Read zPattern else Some (c2, zPattern));
       let seen = (c2 = 0x5D \<and> c = 0x5D);
       (c2, zPattern) \<leftarrow> (if c2 = 0x5D then sqlite3Utf8Read zPattern else Some (c2, zPattern));
       (seen, c2, zPattern) \<leftarrow> set_loop c c2 0 seen zPattern;
       Some (if c2 = 0 \<or> seen = invert then None else Some (zPattern, zString))
     }
   }"

lemma skip_wildcards_shorter:
  "skip_wildcards pInfo zPattern zString = Some (Inr (c, z0, z, s)) \<Longrightarrow> length z < length z0 \<and> length z0 \<le> length zPattern"
proof (induction "length zPattern" arbitrary: zPattern zString rule: less_induct)
  case less
  obtain d y where r: "Utf8Read zPattern = Some (d, y)"
    using less.prems by (auto simp: skip_wildcards.simps [of pInfo zPattern] bind_eq_Some_conv)
  then have y: "length y < length zPattern" by (rule Utf8Read_shorter)
  consider "z0 = zPattern" "z = y" | s' where "skip_wildcards pInfo y s' = Some (Inr (c, z0, z, s))"
  proof (cases "d = ucast (matchAll pInfo) \<or> d = ucast (matchOne pInfo)")
    case True
    then show ?thesis using less.prems that(2) unfolding skip_wildcards.simps [of pInfo zPattern] r
      by (auto simp: bind_eq_Some_conv split: if_splits)
  next
    case False
    then show ?thesis using less.prems that(1) unfolding skip_wildcards.simps [of pInfo zPattern] r by simp
  qed
  then show ?case
  proof cases
    case 2
    then show ?thesis using less.hyps [OF y 2] y by simp
  qed (use y in simp)
qed

lemma set_loop_shorter: "set_loop c c2 prior_c seen zPattern = Some (x, y, z) \<Longrightarrow> length z \<le> length zPattern"
proof (induction "length zPattern" arbitrary: c2 prior_c seen zPattern rule: less_induct)
  case less
  have "z = zPattern \<or> (\<exists>c2 p s w. set_loop c c2 p s w = Some (x, y, z) \<and> length w < length zPattern)"
    using less.prems unfolding set_loop.simps [of c c2]
    by (auto simp: bind_eq_Some_conv Let_def split: if_splits dest!: sqlite3Utf8Read_shorter dest: less_trans)
  then show ?case using less.hyps by (meson less_imp_le order_trans order_refl)
qed

lemma match_set_shorter: "match_set zPattern zString = Some (Some (z, s)) \<Longrightarrow> length z < length zPattern"
  by (auto simp: match_set_def Let_def bind_eq_Some_conv split: if_splits dest!: sqlite3Utf8Read_shorter set_loop_shorter)

text \<open>The loop of \<open>patternCompare\<close>.  The pointer \<open>zEscaped\<close> is the number of bytes behind it.  In the recursive call for
  a set, \<open>zPattern[-1]\<close> is the bracket itself, a single byte by the assertion.\<close>

function patternCompare_loop :: "compareInfo \<Rightarrow> u32 \<Rightarrow> nat option \<Rightarrow> u8 list \<Rightarrow> u8 list \<Rightarrow> int option" where
  "patternCompare_loop pInfo matchOther zEscaped zPattern zString = do {
     (c, z) \<leftarrow> Utf8Read zPattern;
     if c = 0 then do { b \<leftarrow> byte_at zString 0; Some (if b = 0 then SQLITE_MATCH else SQLITE_NOMATCH) }
     else if c = ucast (matchAll pInfo) then do {
       r \<leftarrow> skip_wildcards pInfo z zString;
       (case r of
          Inl rc \<Rightarrow> Some rc
        | Inr (c, z0, z, zString) \<Rightarrow>
            if c = 0 then Some SQLITE_MATCH
            else if c = matchOther \<and> matchSet pInfo \<noteq> 0 then
              if \<not> matchOther < 0x80 then None
              else search_set (patternCompare_loop pInfo matchOther None z0) zString
            else do {
              (c, z) \<leftarrow> (if c = matchOther then sqlite3Utf8Read z else Some (c, z));
              if c = 0 then Some SQLITE_NOWILDCARDMATCH
              else if c \<le> 0x80 then
                search_stop (if noCase pInfo then [ucast (sqlite3Toupper c), sqlite3Tolower c] else [ucast c])
                  (patternCompare_loop pInfo matchOther None z) zString
              else search_char c (patternCompare_loop pInfo matchOther None z) zString
            })
     }
     else if c = matchOther \<and> matchSet pInfo \<noteq> 0 then do {
       m \<leftarrow> match_set z zString;
       (case m of
          None \<Rightarrow> Some SQLITE_NOMATCH
        | Some (z, zString) \<Rightarrow> patternCompare_loop pInfo matchOther zEscaped z zString)
     }
     else do {
       (c', z) \<leftarrow> (if c = matchOther then sqlite3Utf8Read z else Some (c, z));
       if c' = 0 then Some SQLITE_NOMATCH
       else do {
         let zEscaped = (if c = matchOther then Some (length z) else zEscaped);
         (c2, zString) \<leftarrow> Utf8Read zString;
         if c' = c2 \<or> noCase pInfo \<and> sqlite3Tolower c' = sqlite3Tolower c2 \<and> c' < 0x80 \<and> c2 < 0x80
           \<or> c' = ucast (matchOne pInfo) \<and> zEscaped \<noteq> Some (length z) \<and> c2 \<noteq> 0
         then patternCompare_loop pInfo matchOther zEscaped z zString
         else Some SQLITE_NOMATCH
       }
     }
   }"
  by auto
termination by (relation "measure (\<lambda>(i, m, e, p, s). length p)") (auto dest!: Utf8Read_shorter sqlite3Utf8Read_shorter skip_wildcards_shorter match_set_shorter split: if_splits)

declare patternCompare_loop.simps [simp del]

definition patternCompare :: "u8 list \<Rightarrow> u8 list \<Rightarrow> compareInfo \<Rightarrow> u32 \<Rightarrow> int option" where
  "patternCompare zPattern zString pInfo matchOther = patternCompare_loop pInfo matchOther None zPattern zString"

definition sqlite3_strglob :: "u8 list \<Rightarrow> u8 list \<Rightarrow> int option" where
  "sqlite3_strglob zGlobPattern zString = patternCompare zGlobPattern zString globInfo 0x5B"

definition sqlite3_strlike :: "u8 list \<Rightarrow> u8 list \<Rightarrow> u32 \<Rightarrow> int option" where
  "sqlite3_strlike zPattern zStr esc = patternCompare zPattern zStr likeInfoNorm esc"

text \<open>The number of characters, where \<open>nByte\<close> is negative.\<close>

function sqlite3Utf8CharLen :: "u8 list \<Rightarrow> nat option" where
  "sqlite3Utf8CharLen z = do {
     b \<leftarrow> byte_at z 0;
     if b = 0 then Some 0
     else do { z \<leftarrow> SQLITE_SKIP_UTF8 z; r \<leftarrow> sqlite3Utf8CharLen z; Some (r + 1) }
   }"
  by auto
termination by (relation "measure length") (auto dest: SQLITE_SKIP_UTF8_shorter)

declare sqlite3Utf8CharLen.simps [simp del]

text \<open>The SQL function.  The texts of the arguments are given, \<open>None\<close> for a NULL pointer; the third argument is there
  with \<open>ESCAPE\<close> only; \<open>nPat\<close> is the number of bytes of the pattern.\<close>

datatype like_result = No_result | Result_int bool | Pattern_too_complex | Escape_not_single

definition likeFunc :: "int \<Rightarrow> compareInfo \<Rightarrow> u8 list option \<Rightarrow> int \<Rightarrow> u8 list option \<Rightarrow> u8 list option option \<Rightarrow> like_result option" where
  "likeFunc limit pInfo zB nPat zA argv2 =
     (if limit < nPat then Some Pattern_too_complex
      else do {
        escape \<leftarrow> (case argv2 of
            None \<Rightarrow> Some (Inr (ucast (matchSet pInfo)))
          | Some None \<Rightarrow> Some (Inl No_result)
          | Some (Some zEsc) \<Rightarrow> do {
              n \<leftarrow> sqlite3Utf8CharLen zEsc;
              if n \<noteq> 1 then Some (Inl Escape_not_single) else do { (c, _) \<leftarrow> sqlite3Utf8Read zEsc; Some (Inr c) }
            });
        (case escape of
           Inl r \<Rightarrow> Some r
         | Inr escape \<Rightarrow>
             (case (zA, zB) of
                (Some zA, Some zB) \<Rightarrow> do { r \<leftarrow> patternCompare zB zA pInfo escape; Some (Result_int (r = SQLITE_MATCH)) }
              | _ \<Rightarrow> Some No_result))
      })"

section \<open>What patterns mean\<close>

text \<open>A pattern is a list of tokens, a string a list of characters.\<close>

datatype tok = Any | One | Chr u32 | Set bool "(u32 \<times> u32) list" | Bad

definition lower :: "u32 \<Rightarrow> u32" where
  "lower c = (if 0x41 \<le> c \<and> c \<le> 0x5A then c + 0x20 else c)"

definition same :: "bool \<Rightarrow> u32 \<Rightarrow> u32 \<Rightarrow> bool" where
  "same nc a b \<longleftrightarrow> a = b \<or> nc \<and> a < 0x80 \<and> b < 0x80 \<and> lower a = lower b"

definition in_set :: "bool \<Rightarrow> (u32 \<times> u32) list \<Rightarrow> u32 \<Rightarrow> bool" where
  "in_set neg items c \<longleftrightarrow> (\<exists>(lo, hi) \<in> set items. lo \<le> c \<and> c \<le> hi) \<noteq> neg"

fun matches :: "bool \<Rightarrow> tok list \<Rightarrow> u32 list \<Rightarrow> bool" where
  "matches nc [] s \<longleftrightarrow> s = []"
| "matches nc (Any # p) s \<longleftrightarrow> (\<exists>t \<in> set (suffixes s). matches nc p t)"
| "matches nc (Bad # p) s \<longleftrightarrow> False"
| "matches nc (t # p) [] \<longleftrightarrow> False"
| "matches nc (One # p) (c # s) \<longleftrightarrow> matches nc p s"
| "matches nc (Chr k # p) (c # s) \<longleftrightarrow> same nc k c \<and> matches nc p s"
| "matches nc (Set neg items # p) (c # s) \<longleftrightarrow> in_set neg items c \<and> matches nc p s"

text \<open>Ranges and single characters of a set up to the bracket that closes it.\<close>

function set_items :: "u32 \<Rightarrow> u32 list \<Rightarrow> ((u32 \<times> u32) list \<times> u32 list) option" where
  "set_items prior [] = None"
| "set_items prior (c # cs) =
     (if c = 0x5D then Some ([], cs)
      else if c = 0x2D \<and> 0 < prior \<and> cs \<noteq> [] \<and> hd cs \<noteq> 0x5D then
        map_option (\<lambda>(items, r). ((prior, hd cs) # items, r)) (set_items 0 (tl cs))
      else map_option (\<lambda>(items, r). ((c, c) # items, r)) (set_items c cs))"
  by pat_completeness auto
termination by (relation "measure (\<lambda>(p, cs). length cs)") auto

definition set_token :: "u32 list \<Rightarrow> (bool \<times> (u32 \<times> u32) list \<times> u32 list) option" where
  "set_token cs = (
     let neg = (cs \<noteq> [] \<and> hd cs = 0x5E); cs = (if neg then tl cs else cs) in
     if cs \<noteq> [] \<and> hd cs = 0x5D then map_option (\<lambda>(items, r). (neg, (0x5D, 0x5D) # items, r)) (set_items 0 (tl cs))
     else map_option (\<lambda>(items, r). (neg, items, r)) (set_items 0 cs))"

lemma set_items_shorter: "set_items prior cs = Some (items, r) \<Longrightarrow> length r < length cs"
  by (induction prior cs arbitrary: items rule: set_items.induct) (auto split: if_splits)

lemma set_token_shorter: "set_token cs = Some (neg, items, r) \<Longrightarrow> length r < length cs"
  by (auto simp: set_token_def Let_def dest!: set_items_shorter split: if_splits)

function tokens :: "compareInfo \<Rightarrow> u32 \<Rightarrow> u32 list \<Rightarrow> tok list" where
  "tokens info esc [] = []"
| "tokens info esc (c # cs) =
     (if c = ucast (matchAll info) then Any # tokens info esc cs
      else if c = esc \<and> matchSet info \<noteq> 0 then
        (case set_token cs of None \<Rightarrow> [Bad] | Some (neg, items, r) \<Rightarrow> Set neg items # tokens info esc r)
      else if c = esc then (if cs = [] then [Bad] else Chr (hd cs) # tokens info esc (tl cs))
      else if c = ucast (matchOne info) then One # tokens info esc cs
      else Chr c # tokens info esc cs)"
  by pat_completeness auto
termination by (relation "measure (\<lambda>(i, e, cs). length cs)") (auto dest: set_token_shorter)

text \<open>The characters of a zero-terminated string.\<close>

function chars :: "u8 list \<Rightarrow> u32 list" where
  "chars z = (case sqlite3Utf8Read z of None \<Rightarrow> [] | Some (c, y) \<Rightarrow> if c = 0 then [] else c # chars y)"
  by auto
termination by (relation "measure length") (auto dest: sqlite3Utf8Read_shorter)

declare chars.simps [simp del]

section \<open>Reading characters of a zero-terminated string\<close>

abbreviation terminated :: "u8 list \<Rightarrow> bool" where "terminated z \<equiv> 0 \<in> set z"

abbreviation cont :: "u8 \<Rightarrow> bool" where "cont b \<equiv> b AND 0xC0 = 0x80"

lemma cont_80: "cont b \<Longrightarrow> 0x80 \<le> b"
proof -
  assume c: "cont b"
  have "bit b 7"
  proof (rule ccontr)
    assume "\<not> bit b 7"
    then have "\<not> bit (b AND 0xC0) 7" by (simp add: bit_and_iff)
    then show False unfolding c by simp
  qed
  then show ?thesis using u8_less_80_iff [of b] by (simp add: not_less)
qed

lemma cont_0: "\<not> cont 0" by simp

lemma utf8_tail_z_read: "terminated z \<Longrightarrow> \<exists>d. utf8_tail_z c z = Some (d, dropWhile cont z)"
  using cont_0 by (induction c z rule: utf8_tail_z.induct) auto

lemma skipped:
  assumes "terminated z"
  shows "terminated (dropWhile cont z)" "dropWhile cont z \<noteq> []" "\<forall>e \<in> set (takeWhile cont z). 0x80 \<le> e"
proof -
  have "0 \<notin> set (takeWhile cont z)" using cont_0 set_takeWhileD by fast
  then show "terminated (dropWhile cont z)" using assms by (metis Un_iff set_append takeWhile_dropWhile_id)
  then show "dropWhile cont z \<noteq> []" by (metis empty_iff list.set(1))
  show "\<forall>e \<in> set (takeWhile cont z). 0x80 \<le> e" using cont_80 set_takeWhileD by fast
qed

lemma replaced_80: "0x80 \<le> utf8_replace d"
  by (auto simp: utf8_replace_def not_less word_le_nat_alt)

text \<open>One character: its bytes, and what the other ways of reading make of it.\<close>

lemma wide_u8: "unat (ucast b :: u32) = unat b" for b :: u8
  by (simp add: unsigned_ucast_eq take_bit_nat_eq_self unsigned_less [where ?'a = nat, THEN less_trans])

lemma read_step:
  assumes "terminated (b # x)"
  obtains c pre y where "sqlite3Utf8Read (b # x) = Some (c, y)" "x = pre @ y" "\<forall>e \<in> set pre. 0x80 \<le> e"
    "SQLITE_SKIP_UTF8 (b # x) = Some y" "b < 0x80 \<longrightarrow> c = ucast b \<and> pre = []" "0x80 \<le> b \<longrightarrow> 0x80 \<le> c"
    "b \<noteq> 0 \<longrightarrow> terminated y" "c = 0 \<longleftrightarrow> b = 0"
proof (cases "0xC0 \<le> b")
  case True
  then have b: "b \<noteq> 0" "\<not> b < 0x80" by (auto simp: word_le_nat_alt word_less_nat_alt)
  then have x: "terminated x" using assms by auto
  obtain d where r: "utf8_tail_z (ucast (sqlite3Utf8Trans1 ! unat (b - 0xC0))) x = Some (d, dropWhile cont x)"
    using utf8_tail_z_read [OF x] by blast
  show ?thesis
  proof (rule that [of "utf8_replace d" "dropWhile cont x" "takeWhile cont x"])
    show "sqlite3Utf8Read (b # x) = Some (utf8_replace d, dropWhile cont x)" using True r by (simp add: sqlite3Utf8Read_def)
    show "SQLITE_SKIP_UTF8 (b # x) = Some (dropWhile cont x)" using True skipped(2) [OF x] by (simp add: SQLITE_SKIP_UTF8_def)
    show "utf8_replace d = 0 \<longleftrightarrow> b = 0" using b(1) replaced_80 [of d] by auto
  qed (use b replaced_80 skipped [OF x] in simp_all)
next
  case False
  have c: "(ucast b :: u32) = 0 \<longleftrightarrow> b = 0" by (simp add: word_unat_eq_iff wide_u8)
  have "0x80 \<le> (ucast b :: u32)" if "0x80 \<le> b" using that by (simp add: word_le_nat_alt wide_u8)
  then show ?thesis using that [of "ucast b" x "[]"] False assms c by (auto simp: sqlite3Utf8Read_def SQLITE_SKIP_UTF8_def)
qed

lemma Utf8Read_eq: "Utf8Read = sqlite3Utf8Read"
proof
  show "Utf8Read z = sqlite3Utf8Read z" for z
  proof (cases z)
    case (Cons b x)
    have "\<not> 0xC0 \<le> b" if "b < 0x80" using that by (auto simp: word_le_nat_alt word_less_nat_alt)
    then show ?thesis by (simp add: Utf8Read_def sqlite3Utf8Read_def Cons)
  qed (simp add: Utf8Read_def sqlite3Utf8Read_def)
qed

lemma chars_step:
  assumes "terminated z"
  obtains "sqlite3Utf8Read z = Some (0, tl z)" "byte_at z 0 = Some 0" "chars z = []" "z \<noteq> []"
  | c y b where "sqlite3Utf8Read z = Some (c, y)" "c \<noteq> 0" "terminated y" "chars z = c # chars y" "byte_at z 0 = Some b" "b \<noteq> 0"
      "\<And>k. k < 0x80 \<Longrightarrow> b = k \<longleftrightarrow> c = ucast k" "SQLITE_SKIP_UTF8 z = Some y"
proof -
  obtain b x where z: "z = b # x" using assms by (cases z) auto
  obtain c pre y where r: "sqlite3Utf8Read (b # x) = Some (c, y)" "SQLITE_SKIP_UTF8 (b # x) = Some y"
    "b < 0x80 \<longrightarrow> c = ucast b \<and> pre = []" "0x80 \<le> b \<longrightarrow> 0x80 \<le> c"
    "b \<noteq> 0 \<longrightarrow> terminated y" "c = 0 \<longleftrightarrow> b = 0" "x = pre @ y"
    using read_step [of b x] assms z by metis
  show ?thesis
  proof (cases "b = 0")
    case True
    then show ?thesis using that(1) r by (simp add: z chars.simps [of "0 # _"])
  next
    case False
    have "b = k \<longleftrightarrow> c = ucast k" if "k < 0x80" for k
    proof (cases "b < 0x80")
      case True
      then show ?thesis using r(3) by (simp add: word_unat_eq_iff wide_u8)
    next
      case 2: False
      have "(ucast k :: u32) < 0x80" using that by (simp add: word_less_nat_alt wide_u8)
      moreover have "0x80 \<le> c" using 2 r(4) by (simp add: not_less)
      ultimately show ?thesis using 2 that by (metis leD)
    qed
    moreover have "chars (b # x) = c # chars y" using r(1,6) False by (subst chars.simps) simp
    ultimately show ?thesis using that(2) [of c y b] r False by (simp add: z)
  qed
qed

section \<open>The searches\<close>

text \<open>What a result says; \<open>SQLITE_NOWILDCARDMATCH\<close> excludes every rest of the string.\<close>

definition tells :: "bool \<Rightarrow> tok list \<Rightarrow> u32 list \<Rightarrow> int \<Rightarrow> bool" where
  "tells nc p s r \<longleftrightarrow> r = SQLITE_MATCH \<and> matches nc p s \<or> r = SQLITE_NOMATCH \<and> \<not> matches nc p s
     \<or> r = SQLITE_NOWILDCARDMATCH \<and> (\<forall>t. suffix t s \<longrightarrow> \<not> matches nc p t)"

definition decides :: "bool \<Rightarrow> tok list \<Rightarrow> u32 list \<Rightarrow> int \<Rightarrow> bool" where
  "decides nc p s r \<longleftrightarrow> r = SQLITE_MATCH \<and> matches nc p s \<or> r = SQLITE_NOWILDCARDMATCH \<and> \<not> matches nc p s"

lemma any_suffix: "matches nc (Any # p) s \<longleftrightarrow> (\<exists>t. suffix t s \<and> matches nc p t)"
  by (auto simp: in_set_suffixes)

declare matches.simps(2) [simp del]

lemma any_step: "matches nc (Any # p) (c # s) \<longleftrightarrow> matches nc p (c # s) \<or> matches nc (Any # p) s"
  unfolding any_suffix by (auto simp: suffix_Cons)

lemma any_Nil: "matches nc (Any # p) [] \<longleftrightarrow> matches nc p []"
  unfolding any_suffix by auto

lemma any_tells: "decides nc (Any # p) s r \<Longrightarrow> tells nc (Any # p) s r"
  unfolding decides_def tells_def any_suffix using suffix_order.order_trans by blast

lemma results [simp]: "SQLITE_MATCH \<noteq> SQLITE_NOMATCH" "SQLITE_MATCH \<noteq> SQLITE_NOWILDCARDMATCH" "SQLITE_NOMATCH \<noteq> SQLITE_NOWILDCARDMATCH"
  "SQLITE_NOMATCH \<noteq> SQLITE_MATCH" "SQLITE_NOWILDCARDMATCH \<noteq> SQLITE_MATCH" "SQLITE_NOWILDCARDMATCH \<noteq> SQLITE_NOMATCH"
  by (simp_all add: SQLITE_MATCH_def SQLITE_NOMATCH_def SQLITE_NOWILDCARDMATCH_def)

text \<open>A position where the character fits: the rest decides, or the search goes on.\<close>

lemma decide_here:
  assumes "tells nc p s r" "same nc k c"
  shows "r \<noteq> SQLITE_NOMATCH \<Longrightarrow> decides nc (Any # Chr k # p) (c # s) r"
    "r = SQLITE_NOMATCH \<Longrightarrow> decides nc (Any # Chr k # p) s q \<Longrightarrow> decides nc (Any # Chr k # p) (c # s) q"
proof -
  have "\<not> matches nc (Chr k # p) t" if "\<forall>t. suffix t s \<longrightarrow> \<not> matches nc p t" "suffix t (c # s)" for t
    using that by (cases t) (auto simp: suffix_Cons dest: suffix_ConsD)
  then show "r \<noteq> SQLITE_NOMATCH \<Longrightarrow> decides nc (Any # Chr k # p) (c # s) r"
    using assms unfolding tells_def decides_def any_suffix by fastforce
  show "r = SQLITE_NOMATCH \<Longrightarrow> decides nc (Any # Chr k # p) s q \<Longrightarrow> decides nc (Any # Chr k # p) (c # s) q"
    using assms unfolding tells_def decides_def any_step by auto
qed

lemma decide_elsewhere:
  "\<not> same nc k c \<Longrightarrow> decides nc (Any # Chr k # p) s q \<Longrightarrow> decides nc (Any # Chr k # p) (c # s) q"
  unfolding decides_def any_step by auto

lemma decide_end: "decides nc (Any # Chr k # p) [] SQLITE_NOWILDCARDMATCH"
  unfolding decides_def any_Nil by simp

lemma search_char_correct:
  assumes rest: "\<And>y. terminated y \<Longrightarrow> \<exists>r. rest y = Some r \<and> tells nc p (chars y) r" and k: "0x80 \<le> k" and s: "terminated s"
  shows "\<exists>r. search_char k rest s = Some r \<and> decides nc (Any # Chr k # p) (chars s) r"
  using s
proof (induction "length s" arbitrary: s rule: less_induct)
  case less
  have same: "same nc k c \<longleftrightarrow> c = k" for c using k by (auto simp: same_def)
  show ?case
  proof (rule chars_step [OF less.prems], goal_cases)
    case 1
    then show ?thesis by (subst search_char.simps) (simp add: Utf8Read_eq decide_end)
  next
    case (2 c y b)
    have y: "length y < length s" using 2(1) by (rule sqlite3Utf8Read_shorter)
    obtain q where q: "search_char k rest y = Some q" "decides nc (Any # Chr k # p) (chars y) q" using less.hyps [OF y 2(3)] by blast
    obtain r where r: "rest y = Some r" "tells nc p (chars y) r" using rest [OF 2(3)] by blast
    have step: "search_char k rest s = Some (if c \<noteq> k then q else if r \<noteq> SQLITE_NOMATCH then r else q)"
      by (subst search_char.simps) (simp add: Utf8Read_eq 2(1,2) q(1) r(1))
    show ?thesis
    proof (cases "c = k")
      case True
      then show ?thesis using step decide_here [OF r(2), of k c] q(2) same by (cases "r = SQLITE_NOMATCH") (simp_all add: 2(4))
    next
      case False
      then show ?thesis using step decide_elsewhere [of nc k c p "chars y" q] q(2) same by (simp add: 2(4))
    qed
  qed
qed

lemma search_set_correct:
  assumes rest: "\<And>y. terminated y \<Longrightarrow> \<exists>r. rest y = Some r \<and> tells nc q (chars y) r" and q: "\<not> matches nc q []" and s: "terminated s"
  shows "\<exists>r. search_set rest s = Some r \<and> decides nc (Any # q) (chars s) r"
  using s
proof (induction "length s" arbitrary: s rule: less_induct)
  case less
  obtain r where r: "rest s = Some r" "tells nc q (chars s) r" using rest [OF less.prems] by blast
  show ?case
  proof (rule chars_step [OF less.prems], goal_cases)
    case 1
    then show ?thesis using q by (subst search_set.simps) (simp add: decides_def any_Nil)
  next
    case (2 c y b)
    have y: "length y < length s" using 2(1) by (rule sqlite3Utf8Read_shorter)
    obtain q' where q': "search_set rest y = Some q'" "decides nc (Any # q) (chars y) q'" using less.hyps [OF y 2(3)] by blast
    have step: "search_set rest s = Some (if r \<noteq> SQLITE_NOMATCH then r else q')"
      by (subst search_set.simps) (simp add: 2(5,6,8) q'(1) r(1))
    show ?thesis
    proof (cases "r = SQLITE_NOMATCH")
      case True
      then show ?thesis using step q'(2) r(2) unfolding tells_def decides_def 2(4) any_step by auto
    next
      case False
      then have "decides nc (Any # q) (chars s) r" using r(2) unfolding tells_def decides_def any_suffix by auto
      then show ?thesis using step False by simp
    qed
  qed
qed

text \<open>The search for a byte: it passes over the other bytes of the characters.\<close>

lemma search_stop_pass: "strcspn_skip zStop s = strcspn_skip zStop t \<Longrightarrow> search_stop zStop rest s = search_stop zStop rest t"
  by (subst (1 2) search_stop.simps) simp

lemma strcspn_pass: "\<forall>e \<in> set pre. e \<noteq> 0 \<and> e \<notin> set zStop \<Longrightarrow> strcspn_skip zStop (pre @ y) = strcspn_skip zStop y"
  by (induction pre) simp_all

lemma search_stop_correct:
  assumes rest: "\<And>y. terminated y \<Longrightarrow> \<exists>r. rest y = Some r \<and> tells nc p (chars y) r"
    and stop: "\<And>b. b \<in> set zStop \<longleftrightarrow> b < 0x80 \<and> same nc k (ucast b)" and k: "k < 0x80" and s: "terminated s"
  shows "\<exists>r. search_stop zStop rest s = Some r \<and> decides nc (Any # Chr k # p) (chars s) r"
  using s
proof (induction "length s" arbitrary: s rule: less_induct)
  case less
  obtain b x where z: "s = b # x" using less.prems by (cases s) auto
  obtain c pre y where r: "sqlite3Utf8Read (b # x) = Some (c, y)" "x = pre @ y" "\<forall>e \<in> set pre. 0x80 \<le> e"
    "b < 0x80 \<longrightarrow> c = ucast b \<and> pre = []" "0x80 \<le> b \<longrightarrow> 0x80 \<le> c" "b \<noteq> 0 \<longrightarrow> terminated y" "c = 0 \<longleftrightarrow> b = 0"
    using read_step [of b x] less.prems z by metis
  show ?case
  proof (cases "b = 0")
    case True
    have "chars s = []" using r(1,7) True by (subst chars.simps) (simp add: z)
    then show ?thesis using True by (subst search_stop.simps) (simp add: z decide_end)
  next
    case False
    then have y: "terminated y" "length y < length s" using r by (simp_all add: z)
    have ch: "chars s = c # chars y" using r(1,7) False by (subst chars.simps) (simp add: z)
    obtain q where q: "search_stop zStop rest y = Some q" "decides nc (Any # Chr k # p) (chars y) q" using less.hyps [OF y(2,1)] by blast
    show ?thesis
    proof (cases "b \<in> set zStop")
      case True
      then have b: "c = ucast b" "x = y" "same nc k c" using stop r by simp_all
      obtain r where r: "rest y = Some r" "tells nc p (chars y) r" using rest [OF y(1)] by blast
      have "search_stop zStop rest s = Some (if r \<noteq> SQLITE_NOMATCH then r else q)"
        by (subst search_stop.simps) (use True False in \<open>simp add: z b(2) r(1) q(1) Let_def\<close>)
      then show ?thesis using decide_here [OF r(2) b(3)] q(2) unfolding ch by (cases "r = SQLITE_NOMATCH") simp_all
    next
      case 2: False
      have "\<forall>e \<in> set (b # pre). e \<noteq> 0 \<and> e \<notin> set zStop" using False 2 r(3) stop by (auto simp: not_less)
      then have "strcspn_skip zStop s = strcspn_skip zStop y" using strcspn_pass [of "b # pre" zStop y] by (simp add: z r(2))
      then have "search_stop zStop rest s = Some q" using search_stop_pass q(1) by metis
      moreover have "\<not> same nc k c"
      proof (cases "b < 0x80")
        case True
        then show ?thesis using 2 stop r(4) by simp
      next
        case False
        then have "0x80 \<le> c" using r(5) by (simp add: not_less)
        then show ?thesis using k by (auto simp: same_def)
      qed
      ultimately show ?thesis using decide_elsewhere q(2) unfolding ch by blast
    qed
  qed
qed

section \<open>Upper and lower case\<close>

lemma case_tables:
  "list_all (\<lambda>i. sqlite3Tolower (of_nat i) = of_nat (if 65 \<le> i \<and> i \<le> 90 then i + 32 else i)) [0..<128]"
  "list_all (\<lambda>i. sqlite3Toupper (of_nat i) = of_nat (if 97 \<le> i \<and> i \<le> 122 then i - 32 else i)) [0..<128]"
  by code_simp+

lemma case_nat:
  fixes k :: u32
  assumes "k < 0x80"
  shows "sqlite3Tolower k = of_nat (if 65 \<le> unat k \<and> unat k \<le> 90 then unat k + 32 else unat k)"
    "sqlite3Toupper k = of_nat (if 97 \<le> unat k \<and> unat k \<le> 122 then unat k - 32 else unat k)"
    "lower k = of_nat (if 65 \<le> unat k \<and> unat k \<le> 90 then unat k + 32 else unat k)" "unat k < 128"
proof -
  show k: "unat k < 128" using assms by (simp add: word_less_nat_alt)
  then show "sqlite3Tolower k = of_nat (if 65 \<le> unat k \<and> unat k \<le> 90 then unat k + 32 else unat k)"
    "sqlite3Toupper k = of_nat (if 97 \<le> unat k \<and> unat k \<le> 122 then unat k - 32 else unat k)"
    using case_tables unfolding list_all_iff by (metis atLeastLessThan_iff le0 of_nat_unat set_upt ucast_id)+
  show "lower k = of_nat (if 65 \<le> unat k \<and> unat k \<le> 90 then unat k + 32 else unat k)"
    by (simp add: lower_def word_le_nat_alt)
qed

lemma byte_eq: "(of_nat m :: u8) = of_nat n \<longleftrightarrow> m = n" "(of_nat m :: u32) = of_nat n \<longleftrightarrow> m = n" if "m < 256" "n < 256" for m n
  using that by (simp_all add: word_unat_eq_iff unat_of_nat)

text \<open>The comparison of two characters in the loop.\<close>

lemma same_compare: "c = d \<or> nc \<and> sqlite3Tolower c = sqlite3Tolower d \<and> c < 0x80 \<and> d < 0x80 \<longleftrightarrow> same nc c d"
proof -
  have "sqlite3Tolower c = sqlite3Tolower d \<longleftrightarrow> lower c = lower d" if "c < 0x80" "d < 0x80"
    unfolding case_nat [OF that(1)] case_nat [OF that(2)] using case_nat(4) [OF that(1)] case_nat(4) [OF that(2)] by (simp add: byte_eq)
  then show ?thesis by (auto simp: same_def)
qed

text \<open>The bytes at which the search stops.\<close>

lemma stop_bytes:
  fixes b :: u8
  assumes k: "k < 0x80"
  shows "b \<in> set (if nc then [ucast (sqlite3Toupper k), sqlite3Tolower k] else [ucast k]) \<longleftrightarrow> b < 0x80 \<and> same nc k (ucast b)"
proof -
  define i j where "i = unat k" and "j = unat b"
  have ij: "i < 128" "j < 256" "b = of_nat j" "k = of_nat i" using case_nat(4) [OF k] unsigned_less [where ?'a = nat, of b] by (simp_all add: i_def j_def)
  have b: "(ucast b :: u32) = of_nat j" using ij small_byte by simp
  have lt: "b < 0x80 \<longleftrightarrow> j < 128" by (simp add: word_less_nat_alt j_def)
  have low: "lower (of_nat n) = of_nat (if 65 \<le> n \<and> n \<le> 90 then n + 32 else n)" if "n < 128" for n
    using that case_nat(3) [of "of_nat n"] by (simp add: unat_of_nat word_less_nat_alt)
  have u: "sqlite3Toupper k = of_nat (if 97 \<le> i \<and> i \<le> 122 then i - 32 else i)" "sqlite3Tolower k = of_nat (if 65 \<le> i \<and> i \<le> 90 then i + 32 else i)"
    using case_nat(1,2) [OF k] by (simp_all add: i_def)
  have kb: "k = of_nat j \<longleftrightarrow> i = j" "ucast k = (of_nat i :: u8)" using ij by (simp_all add: byte_eq byte_of_nat)
  have small: "(of_nat j :: u32) < 0x80 \<longleftrightarrow> j < 128" using ij by (simp add: word_less_nat_alt unat_of_nat)
  show ?thesis
  proof (cases nc)
    case False
    then show ?thesis using ij(1,2) unfolding same_def b lt kb by (auto simp: kb ij(3) byte_eq)
  next
    case True
    have "b \<in> {ucast (sqlite3Toupper k), sqlite3Tolower k} \<longleftrightarrow> j = (if 97 \<le> i \<and> i \<le> 122 then i - 32 else i) \<or> j = (if 65 \<le> i \<and> i \<le> 90 then i + 32 else i)"
    proof -
      define U L where "U = (if 97 \<le> i \<and> i \<le> 122 then i - 32 else i)" and "L = (if 65 \<le> i \<and> i \<le> 90 then i + 32 else i)"
      have "U < 256" "L < 256" using ij(1) by (auto simp: U_def L_def)
      then show ?thesis unfolding u byte_of_nat U_def [symmetric] L_def [symmetric] ij(3) using ij(2) by (simp add: byte_eq)
    qed
    also have "\<dots> \<longleftrightarrow> j < 128 \<and> (i = j \<or> (if 65 \<le> i \<and> i \<le> 90 then i + 32 else i) = (if 65 \<le> j \<and> j \<le> 90 then j + 32 else j))"
      using ij(1,2) by auto
    also have "\<dots> \<longleftrightarrow> b < 0x80 \<and> same nc k (ucast b)"
    proof (cases "j < 128")
      case j: True
      then show ?thesis using True k low [OF j] low [OF ij(1)] ij(1) unfolding same_def b lt kb small ij(4) by (auto simp: byte_eq)
    qed (simp add: lt)
    finally show ?thesis using True by simp
  qed
qed

section \<open>Wildcards and sets\<close>

lemma any_any: "matches nc (Any # Any # p) s \<longleftrightarrow> matches nc (Any # p) s"
  unfolding any_suffix [of nc "Any # p"] unfolding any_suffix using suffix_order.order_trans by blast

lemma any_one: "matches nc (Any # One # p) [] \<longleftrightarrow> False" "matches nc (Any # One # p) (c # s) \<longleftrightarrow> matches nc (Any # p) s"
proof -
  show "matches nc (Any # One # p) [] \<longleftrightarrow> False" by (simp add: any_Nil)
  show "matches nc (Any # One # p) (c # s) \<longleftrightarrow> matches nc (Any # p) s"
  proof (induction s arbitrary: c)
    case Nil
    then show ?case by (simp add: any_step any_Nil)
  next
    case (Cons d s)
    then show ?case unfolding any_step [of nc "One # p" c] any_step [of nc p d] by simp
  qed
qed

definition skips_to :: "bool \<Rightarrow> compareInfo \<Rightarrow> u32 \<Rightarrow> u8 list \<Rightarrow> u8 list \<Rightarrow> int + u32 \<times> u8 list \<times> u8 list \<times> u8 list \<Rightarrow> bool" where
  "skips_to nc info esc zP s r \<longleftrightarrow> (case r of
      Inl rc \<Rightarrow> rc = SQLITE_NOWILDCARDMATCH \<and> \<not> matches nc (Any # tokens info esc (chars zP)) (chars s)
    | Inr (c, z0, z, s') \<Rightarrow> sqlite3Utf8Read z0 = Some (c, z) \<and> terminated z0 \<and> terminated s' \<and> c \<noteq> ucast (matchAll info) \<and> c \<noteq> ucast (matchOne info)
        \<and> set (chars z0) \<subseteq> set (chars zP) \<and> length z0 \<le> length zP
        \<and> (matches nc (Any # tokens info esc (chars zP)) (chars s) \<longleftrightarrow> matches nc (Any # tokens info esc (chars z0)) (chars s')))"

lemma skips_to_step:
  assumes "skips_to nc info esc y s' r" "set (chars y) \<subseteq> set (chars zP)" "length y \<le> length zP"
    "matches nc (Any # tokens info esc (chars zP)) (chars s) \<longleftrightarrow> matches nc (Any # tokens info esc (chars y)) (chars s')"
  shows "skips_to nc info esc zP s r"
  using assms unfolding skips_to_def by (cases r) (auto dest: order_trans)

lemma skip_wildcards_correct:
  assumes one: "matchOne info \<noteq> matchAll info" "ucast (matchOne info) \<noteq> esc" and w: "matchOne info \<noteq> 0" "matchAll info \<noteq> 0"
    and zP: "terminated zP" and s: "terminated s"
  shows "\<exists>r. skip_wildcards info zP s = Some r \<and> skips_to nc info esc zP s r"
  using zP s
proof (induction "length zP" arbitrary: zP s rule: less_induct)
  case less
  have w0: "(ucast (matchOne info) :: u32) \<noteq> 0" "(ucast (matchAll info) :: u32) \<noteq> 0" "(ucast (matchOne info) :: u32) \<noteq> ucast (matchAll info)"
    using w one(1) by (simp_all add: word_unat_eq_iff wide_u8)
  show ?case
  proof (rule chars_step [OF less.prems(1)], goal_cases)
    case 1
    then show ?thesis using w0 less.prems by (subst skip_wildcards.simps) (simp add: Utf8Read_eq skips_to_def)
  next
    case (2 c y b)
    have y: "length y < length zP" using 2(1) by (rule sqlite3Utf8Read_shorter)
    have sub: "set (chars y) \<subseteq> set (chars zP)" by (auto simp: 2(4))
    note IH = less.hyps [OF y 2(3)]
    consider (all) "c = ucast (matchAll info)" | (one) "c = ucast (matchOne info)" "c \<noteq> ucast (matchAll info)"
      | (other) "c \<noteq> ucast (matchAll info)" "c \<noteq> ucast (matchOne info)" by blast
    then show ?thesis
    proof cases
      case all
      then have t: "tokens info esc (chars zP) = Any # tokens info esc (chars y)" by (simp add: 2(4))
      have "skip_wildcards info zP s = skip_wildcards info y s" by (subst skip_wildcards.simps) (simp add: Utf8Read_eq 2(1) all)
      moreover have "matches nc (Any # tokens info esc (chars zP)) (chars s) \<longleftrightarrow> matches nc (Any # tokens info esc (chars y)) (chars s)"
        unfolding t any_any ..
      ultimately show ?thesis using IH [OF less.prems(2)] skips_to_step [OF _ sub less_imp_le [OF y]] by auto
    next
      case one
      then have t: "tokens info esc (chars zP) = One # tokens info esc (chars y)" using assms(2) by (simp add: 2(4))
      show ?thesis
      proof (rule chars_step [OF less.prems(2)], goal_cases)
        case 1
        have "skip_wildcards info zP s = Some (Inl SQLITE_NOWILDCARDMATCH)"
          by (subst skip_wildcards.simps) (simp add: Utf8Read_eq 2(1) one w0 1(1))
        then show ?thesis by (simp add: skips_to_def t 1(3) any_one)
      next
        case s: (2 d s' b')
        have "skip_wildcards info zP s = skip_wildcards info y s'"
          by (subst skip_wildcards.simps) (simp add: Utf8Read_eq 2(1) one w0 s(1,2))
        moreover have "matches nc (Any # tokens info esc (chars zP)) (chars s) \<longleftrightarrow> matches nc (Any # tokens info esc (chars y)) (chars s')"
          unfolding t s(4) any_one ..
        ultimately show ?thesis using IH [OF s(3)] skips_to_step [OF _ sub less_imp_le [OF y]] by auto
      qed
    next
      case other
      have "skip_wildcards info zP s = Some (Inr (c, zP, y, s))" using other by (subst skip_wildcards.simps) (simp add: Utf8Read_eq 2(1))
      then show ?thesis using other 2(1) less.prems by (simp add: skips_to_def)
    qed
  qed
qed

text \<open>A character that has been read, and the rest.\<close>

definition char_from :: "u32 \<Rightarrow> u8 list \<Rightarrow> u32 list" where
  "char_from c z = (if c = 0 then [] else c # chars z)"

lemma read_char_from:
  assumes "terminated z"
  shows "\<exists>c y. sqlite3Utf8Read z = Some (c, y) \<and> char_from c y = chars z \<and> (c \<noteq> 0 \<longrightarrow> terminated y) \<and> length y < length z"
proof (rule chars_step [OF assms], goal_cases)
  case 1
  then show ?thesis by (simp add: char_from_def)
next
  case (2 c y b)
  then show ?thesis using sqlite3Utf8Read_shorter [OF 2(1)] by (simp add: char_from_def)
qed

definition covers :: "(u32 \<times> u32) list \<Rightarrow> u32 \<Rightarrow> bool" where
  "covers items c \<longleftrightarrow> (\<exists>(lo, hi) \<in> set items. lo \<le> c \<and> c \<le> hi)"

lemma covers_simps [simp]: "\<not> covers [] c" "covers ((lo, hi) # items) c \<longleftrightarrow> lo \<le> c \<and> c \<le> hi \<or> covers items c"
  by (simp_all add: covers_def)

definition set_result :: "u32 \<Rightarrow> bool \<Rightarrow> ((u32 \<times> u32) list \<times> u32 list) option \<Rightarrow> bool \<times> u32 \<times> u8 list \<Rightarrow> bool" where
  "set_result c seen p r \<longleftrightarrow> (case r of (seen', c2, z) \<Rightarrow> (case p of
      None \<Rightarrow> c2 = 0
    | Some (items, rest) \<Rightarrow> c2 = 0x5D \<and> seen' = (seen \<or> covers items c) \<and> terminated z \<and> chars z = rest))"

lemma first_byte:
  assumes "terminated z"
  shows "\<exists>b. byte_at z 0 = Some b \<and> (b \<noteq> 0x5D \<and> b \<noteq> 0 \<longleftrightarrow> chars z \<noteq> [] \<and> hd (chars z) \<noteq> 0x5D) \<and> (b = 0 \<longleftrightarrow> chars z = [])"
proof (rule chars_step [OF assms], goal_cases)
  case (2 c y b)
  have "b = 0x5D \<longleftrightarrow> c = 0x5D" using 2(7) [of "0x5D"] by simp
  then show ?thesis using 2 by simp
qed simp

lemma char_from_0 [simp]: "char_from 0 z = []" by (simp add: char_from_def)

lemma set_loop_correct:
  assumes "c2 \<noteq> 0 \<Longrightarrow> terminated z"
  shows "\<exists>r. set_loop c c2 prior seen z = Some r \<and> set_result c seen (set_items prior (char_from c2 z)) r"
  using assms
proof (induction "length z" arbitrary: c2 prior seen z rule: less_induct)
  case less
  show ?case
  proof (cases "c2 = 0 \<or> c2 = 0x5D")
    case True
    then show ?thesis using less.prems by (subst set_loop.simps) (auto simp: char_from_def set_result_def)
  next
    case False
    then have z: "terminated z" using less.prems by blast
    obtain b where b: "byte_at z 0 = Some b" "b \<noteq> 0x5D \<and> b \<noteq> 0 \<longleftrightarrow> chars z \<noteq> [] \<and> hd (chars z) \<noteq> 0x5D"
      using first_byte [OF z] by blast
    obtain d y where d: "sqlite3Utf8Read z = Some (d, y)" "char_from d y = chars z" "d \<noteq> 0 \<longrightarrow> terminated y" "length y < length z"
      using read_char_from [OF z] by blast
    have from_c2: "char_from c2 z = c2 # chars z" using False by (simp add: char_from_def)
    show ?thesis
    proof (cases "c2 = 0x2D \<and> b \<noteq> 0x5D \<and> b \<noteq> 0 \<and> 0 < prior")
      case True
      then have hd: "chars z \<noteq> []" "hd (chars z) \<noteq> 0x5D" using b(2) by simp_all
      then have "d \<noteq> 0" using d(2) by auto
      then have y: "terminated y" "hd (chars z) = d" "tl (chars z) = chars y" using d(2,3) by (auto simp: char_from_def dest: sym)
      obtain e x where e: "sqlite3Utf8Read y = Some (e, x)" "char_from e x = chars y" "e \<noteq> 0 \<longrightarrow> terminated x" "length x < length y"
        using read_char_from [OF y(1)] by blast
      let ?seen = "seen \<or> prior \<le> c \<and> c \<le> d"
      obtain r where r: "set_loop c e 0 ?seen x = Some r" "set_result c ?seen (set_items 0 (chars y)) r"
        using less.hyps [of x e 0 ?seen] d(4) e by auto
      have "set_loop c c2 prior seen z = Some r"
        by (subst set_loop.simps) (use True b(1) d(1) e(1) r(1) in simp)
      moreover have "set_items prior (char_from c2 z) = map_option (\<lambda>(items, w). ((prior, d) # items, w)) (set_items 0 (chars y))"
        unfolding from_c2 using True hd y by simp
      ultimately show ?thesis using r(2) by (auto simp: set_result_def split: prod.splits option.splits)
    next
      case 2: False
      let ?seen = "seen \<or> c = c2"
      obtain r where r: "set_loop c d c2 ?seen y = Some r" "set_result c ?seen (set_items c2 (chars z)) r"
        using less.hyps [of y d c2 ?seen] d by auto
      have "set_loop c c2 prior seen z = Some r"
        by (subst set_loop.simps) (use False 2 b(1) d(1) r(1) in auto)
      moreover have "set_items prior (char_from c2 z) = map_option (\<lambda>(items, w). ((c2, c2) # items, w)) (set_items c2 (chars z))"
        using False 2 b(2) by (auto simp: from_c2)
      moreover have "c2 \<le> c \<and> c \<le> c2 \<longleftrightarrow> c = c2" by auto
      ultimately show ?thesis using r(2) by (auto simp: set_result_def split: prod.splits option.splits)
    qed
  qed
qed

lemma in_set_covers: "in_set neg items c \<longleftrightarrow> covers items c \<noteq> neg"
  by (simp add: in_set_def covers_def)

lemma match_set_correct:
  assumes zP: "terminated zP" and s: "terminated s"
  shows "\<exists>r. match_set zP s = Some r \<and> (case r of
      None \<Rightarrow> (case set_token (chars zP) of None \<Rightarrow> True | Some (neg, items, w) \<Rightarrow> chars s = [] \<or> \<not> in_set neg items (hd (chars s)))
    | Some (z, s') \<Rightarrow> (\<exists>neg items. set_token (chars zP) = Some (neg, items, chars z) \<and> chars s \<noteq> [] \<and> in_set neg items (hd (chars s))
        \<and> chars s' = tl (chars s)) \<and> terminated z \<and> terminated s')"
proof (rule chars_step [OF s], goal_cases)
  case 1
  then have "match_set zP s = Some None" by (simp add: match_set_def)
  then show ?thesis using 1(3) by (auto split: option.splits)
next
  case (2 c s' b)
  obtain c1 y1 where r1: "sqlite3Utf8Read zP = Some (c1, y1)" "char_from c1 y1 = chars zP" "c1 \<noteq> 0 \<longrightarrow> terminated y1"
    using read_char_from [OF zP] by blast
  let ?neg = "c1 = 0x5E"
  obtain c2 y2 where r2: "(if ?neg then sqlite3Utf8Read y1 else Some (c1, y1)) = Some (c2, y2)"
    "char_from c2 y2 = (if ?neg then tl (chars zP) else chars zP)" "c2 \<noteq> 0 \<longrightarrow> terminated y2"
  proof (cases ?neg)
    case True
    then show ?thesis using read_char_from [of y1] r1(2,3) that by (auto simp: char_from_def dest: sym)
  qed (use r1 that in auto)
  have neg: "?neg \<longleftrightarrow> chars zP \<noteq> [] \<and> hd (chars zP) = 0x5E" using r1(2) by (auto simp: char_from_def split: if_splits dest: sym)
  define cs where "cs = char_from c2 y2"
  let ?br = "c2 = 0x5D"
  obtain c3 y3 where r3: "(if ?br then sqlite3Utf8Read y2 else Some (c2, y2)) = Some (c3, y3)"
    "char_from c3 y3 = (if ?br then tl cs else cs)" "c3 \<noteq> 0 \<longrightarrow> terminated y3"
  proof (cases ?br)
    case True
    then show ?thesis using read_char_from [of y2] r2(3) that by (auto simp: cs_def char_from_def)
  qed (use r2 that cs_def in auto)
  have br: "?br \<longleftrightarrow> cs \<noteq> [] \<and> hd cs = 0x5D" by (auto simp: cs_def char_from_def)
  let ?seen = "?br \<and> c = 0x5D"
  obtain seen c4 y4 where r4: "set_loop c c3 0 ?seen y3 = Some (seen, c4, y4)" "set_result c ?seen (set_items 0 (if ?br then tl cs else cs)) (seen, c4, y4)"
    using set_loop_correct [of c3 y3 c 0 ?seen] r3(2,3) by auto
  have m: "match_set zP s = Some (if c4 = 0 \<or> seen = ?neg then None else Some (y4, s'))"
    unfolding match_set_def by (simp add: 2(1,2) r1(1) r2(1) r3(1) r4(1) Let_def)
  have st: "set_token (chars zP) = (if ?br then map_option (\<lambda>(items, r). (?neg, (0x5D, 0x5D) # items, r)) (set_items 0 (tl cs))
      else map_option (\<lambda>(items, r). (?neg, items, r)) (set_items 0 cs))"
    unfolding set_token_def Let_def neg [symmetric] using r2(2) br by (simp add: cs_def)
  show ?thesis using m r4(2) unfolding st 2(4)
    by (auto simp: set_result_def in_set_covers split: option.splits if_splits intro: 2(3))
qed

section \<open>The loop of the comparison\<close>

lemma set_items_rest: "set_items prior cs = Some (items, r) \<Longrightarrow> set r \<subseteq> set cs"
proof (induction prior cs arbitrary: items rule: set_items.induct)
  case (2 prior c cs)
  then show ?case by (auto split: if_splits dest: list.set_sel(2))
qed simp

lemma set_token_rest: "set_token cs = Some (neg, items, r) \<Longrightarrow> set r \<subseteq> set cs"
  by (auto simp: set_token_def Let_def dest!: set_items_rest split: if_splits dest: list.set_sel(2))

lemma tells_head:
  assumes "\<And>d u. matches nc (t # p) (d # u) \<Longrightarrow> matches nc p u" "\<not> matches nc (t # p) []" "matches nc (t # p) (c # s) = matches nc p s"
    "tells nc p s r"
  shows "tells nc (t # p) (c # s) r"
proof -
  have "\<not> matches nc (t # p) u" if "\<forall>u. suffix u s \<longrightarrow> \<not> matches nc p u" "suffix u (c # s)" for u
    using that assms(1,2) by (cases u) (auto simp: suffix_Cons dest: suffix_ConsD)
  then show ?thesis using assms(3,4) unfolding tells_def by blast
qed

lemma tells_heads:
  "tells nc p s r \<Longrightarrow> tells nc (One # p) (c # s) r"
  "same nc k c \<Longrightarrow> tells nc p s r \<Longrightarrow> tells nc (Chr k # p) (c # s) r"
  "in_set neg items c \<Longrightarrow> tells nc p s r \<Longrightarrow> tells nc (Set neg items # p) (c # s) r"
  by (rule tells_head; simp)+

lemma tells_no: "\<not> matches nc p s \<Longrightarrow> tells nc p s SQLITE_NOMATCH"
  by (simp add: tells_def)

lemma same_0: "c \<noteq> 0 \<Longrightarrow> \<not> same nc c 0"
proof
  assume c: "c \<noteq> 0" "same nc c 0"
  then have "c < 0x80" "lower c = lower 0" by (auto simp: same_def)
  moreover define m where "m = (if 65 \<le> unat c \<and> unat c \<le> 90 then unat c + 32 else unat c)"
  ultimately have "of_nat m = (of_nat 0 :: u32)" "m < 256" using case_nat(3,4) [OF \<open>c < 0x80\<close>] by (auto simp: lower_def)
  then have "m = 0" using byte_eq(2) [of m 0] by simp
  then have "unat c = 0" unfolding m_def by (simp split: if_splits)
  then show False using c(1) by (simp add: unat_eq_zero)
qed

definition info_ok :: "compareInfo \<Rightarrow> u32 \<Rightarrow> bool" where
  "info_ok info esc \<longleftrightarrow> matchOne info \<noteq> matchAll info \<and> matchOne info \<noteq> 0 \<and> matchAll info \<noteq> 0
     \<and> esc \<noteq> ucast (matchAll info) \<and> esc \<noteq> ucast (matchOne info) \<and> (matchSet info \<noteq> 0 \<longrightarrow> esc < 0x80)"

text \<open>What follows a run of wildcards.\<close>

lemma search_correct:
  assumes info: "info_ok info esc" and z0: "sqlite3Utf8Read z0 = Some (c, z)" "terminated z0" "c \<noteq> ucast (matchAll info)" "c \<noteq> ucast (matchOne info)"
      "0x80 \<notin> set (chars z0)" and s: "terminated s"
    and IH: "\<And>y s. terminated y \<Longrightarrow> length y \<le> length z0 \<Longrightarrow> 0x80 \<notin> set (chars y) \<Longrightarrow> terminated s \<Longrightarrow>
      \<exists>r. patternCompare_loop info esc None y s = Some r \<and> tells (noCase info) (tokens info esc (chars y)) (chars s) r"
  shows "\<exists>r. (if c = 0 then Some SQLITE_MATCH
            else if c = esc \<and> matchSet info \<noteq> 0 then
              if \<not> esc < 0x80 then None
              else search_set (patternCompare_loop info esc None z0) s
            else do {
              (c, z) \<leftarrow> (if c = esc then sqlite3Utf8Read z else Some (c, z));
              if c = 0 then Some SQLITE_NOWILDCARDMATCH
              else if c \<le> 0x80 then
                search_stop (if noCase info then [ucast (sqlite3Toupper c), sqlite3Tolower c] else [ucast c])
                  (patternCompare_loop info esc None z) s
              else search_char c (patternCompare_loop info esc None z) s
            }) = Some r \<and> decides (noCase info) (Any # tokens info esc (chars z0)) (chars s) r"
proof (rule chars_step [OF z0(2)], goal_cases)
  case 1
  then have "c = 0" "tokens info esc (chars z0) = []" using z0(1) by simp_all
  moreover have "matches nc [Any] t" for nc t unfolding any_suffix by auto
  ultimately show ?thesis by (simp add: decides_def)
next
  case (2 c' y b)
  then have c: "c' = c" "y = z" "c \<noteq> 0" using z0(1) by simp_all
  note ch = 2(4) [unfolded c] and tz = 2(3) [unfolded c]
  have lz: "length z < length z0" using z0(1) by (rule sqlite3Utf8Read_shorter)
  show ?thesis
  proof (cases "c = esc \<and> matchSet info \<noteq> 0")
    case True
    then have e: "esc < 0x80" using info by (simp add: info_ok_def)
    have "\<not> matches nc (tokens info esc (chars z0)) []" for nc using True z0(3) by (simp add: ch split: option.splits prod.splits)
    from search_set_correct [OF _ this s, of "patternCompare_loop info esc None z0"] IH [OF z0(2) order_refl z0(5)]
    show ?thesis using True e c(3) by simp
  next
    case False
    obtain k y where k: "(if c = esc then sqlite3Utf8Read z else Some (c, z)) = Some (k, y)" "k \<noteq> 0 \<longrightarrow> terminated y" "length y \<le> length z"
      "char_from k y = (if c = esc then chars z else c # chars z)"
    proof (cases "c = esc")
      case True
      then show ?thesis using read_char_from [OF tz] that by (auto intro: less_imp_le)
    qed (use that c tz in \<open>simp add: char_from_def\<close>)
    have tok: "tokens info esc (chars z0) = (if k = 0 then [Bad] else Chr k # tokens info esc (chars y))"
    proof (cases "c = esc")
      case True
      then show ?thesis using False z0(3) k(4) by (auto simp: ch char_from_def split: if_splits dest: sym)
    next
      case 3: False
      then have "k = c" "y = z" using k(1) by simp_all
      then show ?thesis using 3 z0(3,4) c(3) by (simp add: ch)
    qed
    have nomatch: "\<not> matches nc [Any, Bad] t" for nc t unfolding any_suffix by simp
    show ?thesis
    proof (cases "k = 0")
      case True
      then show ?thesis using False c(3) k(1) nomatch unfolding tok by (auto simp: decides_def)
    next
      case k0: False
      have sub: "set (chars y) \<subseteq> set (chars z0)" "k \<in> set (chars z0)"
        using k(4) k0 by (auto simp: ch char_from_def split: if_splits dest: sym)
      then have "0x80 \<notin> set (chars y)" "k \<noteq> 0x80" using z0(5) by auto
      note rest = IH [OF k(2) [rule_format, OF k0] _ this(1)]
      have ly: "length y \<le> length z0" using k(3) lz by simp
      show ?thesis
      proof (cases "k \<le> 0x80")
        case True
        then have "k < 0x80" using \<open>k \<noteq> 0x80\<close> by simp
        from search_stop_correct [OF rest [OF ly] stop_bytes [OF this] this s]
        show ?thesis using False c(3) k(1) k0 True unfolding tok by auto
      next
        case 4: False
        then have "0x80 \<le> k" by simp
        from search_char_correct [OF rest [OF ly] this s] show ?thesis using False c(3) k(1) k0 4 unfolding tok by auto
      qed
    qed
  qed
qed

lemma loop_correct:
  assumes info: "info_ok info esc" and zP: "terminated zP" "0x80 \<notin> set (chars zP)" and s: "terminated s"
    and e: "\<And>n. zEscaped = Some n \<Longrightarrow> length zP \<le> n"
  shows "\<exists>r. patternCompare_loop info esc zEscaped zP s = Some r \<and> tells (noCase info) (tokens info esc (chars zP)) (chars s) r"
  using zP s e
proof (induction "length zP" arbitrary: zP s zEscaped rule: less_induct)
  case less
  let ?nc = "noCase info"
  have w: "matchOne info \<noteq> matchAll info" "matchOne info \<noteq> 0" "matchAll info \<noteq> 0" "ucast (matchOne info) \<noteq> esc" "esc \<noteq> ucast (matchAll info)"
    using info by (auto simp: info_ok_def)
  have w0: "(ucast (matchOne info) :: u32) \<noteq> 0" "(ucast (matchAll info) :: u32) \<noteq> 0" "(ucast (matchOne info) :: u32) \<noteq> ucast (matchAll info)"
    using w by (simp_all add: word_unat_eq_iff wide_u8)
  show ?case
  proof (rule chars_step [OF less.prems(1)], goal_cases)
    case 1
    obtain b where b: "byte_at s 0 = Some b" "b = 0 \<longleftrightarrow> chars s = []" using first_byte [OF less.prems(3)] by blast
    have "patternCompare_loop info esc zEscaped zP s = Some (if b = 0 then SQLITE_MATCH else SQLITE_NOMATCH)"
      by (subst patternCompare_loop.simps) (simp add: Utf8Read_eq 1(1) b(1))
    then show ?thesis using 1(3) b(2) by (simp add: tells_def)
  next
    case (2 c z b)
    have lz: "length z < length zP" using 2(1) by (rule sqlite3Utf8Read_shorter)
    have sub: "0x80 \<notin> set (chars z)" using less.prems(2) by (simp add: 2(4))
    have IH: "\<exists>r. patternCompare_loop info esc None y s = Some r \<and> tells ?nc (tokens info esc (chars y)) (chars s) r"
      if "terminated y" "length y \<le> length z" "0x80 \<notin> set (chars y)" "terminated s" for y s
      using less.hyps [OF _ that(1,3,4), of None] that(2) lz by simp
    consider (all) "c = ucast (matchAll info)" | (set) "c \<noteq> ucast (matchAll info)" "c = esc" "matchSet info \<noteq> 0"
      | (char) "c \<noteq> ucast (matchAll info)" "\<not> (c = esc \<and> matchSet info \<noteq> 0)" by blast
    then show ?thesis
    proof cases
      case all
      then have t: "tokens info esc (chars zP) = Any # tokens info esc (chars z)" by (simp add: 2(4))
      obtain r where r: "skip_wildcards info z s = Some r" "skips_to ?nc info esc z s r"
        using skip_wildcards_correct [OF w(1,4,2,3) 2(3) less.prems(3)] by blast
      show ?thesis
      proof (cases r)
        case (Inl rc)
        then have "patternCompare_loop info esc zEscaped zP s = Some SQLITE_NOWILDCARDMATCH"
          using r by (subst patternCompare_loop.simps) (simp add: Utf8Read_eq 2(1,2) all w0 skips_to_def)
        then show ?thesis using r(2) any_tells Inl unfolding t by (simp add: skips_to_def decides_def)
      next
        case (Inr q)
        obtain c1 z0 z1 s1 where q: "q = (c1, z0, z1, s1)" by (cases q)
        have k: "sqlite3Utf8Read z0 = Some (c1, z1)" "terminated z0" "c1 \<noteq> ucast (matchAll info)" "c1 \<noteq> ucast (matchOne info)"
          "terminated s1" "set (chars z0) \<subseteq> set (chars z)" "length z0 \<le> length z"
          "matches ?nc (Any # tokens info esc (chars z)) (chars s) \<longleftrightarrow> matches ?nc (Any # tokens info esc (chars z0)) (chars s1)"
          using r(2) by (simp_all add: skips_to_def Inr q)
        have "0x80 \<notin> set (chars z0)" using k(6) sub by blast
        from search_correct [OF info k(1-4) this k(5) IH] obtain rc where
          rc: "patternCompare_loop info esc zEscaped zP s = Some rc" "decides ?nc (Any # tokens info esc (chars z0)) (chars s1) rc"
          using k(7) by (subst (asm) patternCompare_loop.simps) (simp add: Utf8Read_eq 2(1,2) all w0 r(1) Inr q, blast)
        then have "decides ?nc (Any # tokens info esc (chars z)) (chars s) rc" using k(8) by (simp add: decides_def)
        then show ?thesis using rc(1) any_tells unfolding t by blast
      qed
    next
      case set
      have t: "tokens info esc (chars zP)
          = (case set_token (chars z) of None \<Rightarrow> [Bad] | Some (neg, items, r) \<Rightarrow> Set neg items # tokens info esc r)"
        using set by (simp add: 2(4))
      obtain r where r: "match_set z s = Some r" "case r of
          None \<Rightarrow> (case set_token (chars z) of None \<Rightarrow> True | Some (neg, items, w) \<Rightarrow> chars s = [] \<or> \<not> in_set neg items (hd (chars s)))
        | Some (y, s') \<Rightarrow> (\<exists>neg items. set_token (chars z) = Some (neg, items, chars y) \<and> chars s \<noteq> [] \<and> in_set neg items (hd (chars s))
            \<and> chars s' = tl (chars s)) \<and> terminated y \<and> terminated s'"
        using match_set_correct [OF 2(3) less.prems(3)] by blast
      show ?thesis
      proof (cases r)
        case None
        have "patternCompare_loop info esc zEscaped zP s = Some SQLITE_NOMATCH"
          by (subst patternCompare_loop.simps) (use set 2(2) in \<open>auto simp: Utf8Read_eq 2(1) r(1) None\<close>)
        moreover have "\<not> matches ?nc (tokens info esc (chars zP)) (chars s)"
          using r(2) unfolding t None by (cases "chars s") (auto split: option.splits)
        ultimately show ?thesis using tells_no by blast
      next
        case (Some q)
        obtain y s' where q: "q = (y, s')" by (cases q)
        obtain neg items where m: "set_token (chars z) = Some (neg, items, chars y)" "chars s \<noteq> []" "in_set neg items (hd (chars s))"
          "chars s' = tl (chars s)" "terminated y" "terminated s'" using r(2) by (auto simp: Some q)
        have ly: "length y < length zP" using match_set_shorter [of z s y s'] r(1) lz by (simp add: Some q)
        have "0x80 \<notin> set (chars y)" using set_token_rest [OF m(1)] sub by blast
        moreover have "length y \<le> n" if "zEscaped = Some n" for n using less.prems(4) [OF that] ly by simp
        ultimately obtain rc where rc: "patternCompare_loop info esc zEscaped y s' = Some rc" "tells ?nc (tokens info esc (chars y)) (chars s') rc"
          using less.hyps [OF ly m(5) _ m(6), of zEscaped] by blast
        have "patternCompare_loop info esc zEscaped zP s = Some rc"
          by (subst patternCompare_loop.simps) (use set 2(2) in \<open>auto simp: Utf8Read_eq 2(1) r(1) Some q rc(1)\<close>)
        moreover have "tells ?nc (Set neg items # tokens info esc (chars y)) (hd (chars s) # tl (chars s)) rc"
          using tells_heads(3) [OF m(3)] rc(2) m(4) by simp
        ultimately show ?thesis using m(2) unfolding t m(1) by simp
      qed
    next
      case char
      obtain k y where k: "(if c = esc then sqlite3Utf8Read z else Some (c, z)) = Some (k, y)" "k \<noteq> 0 \<longrightarrow> terminated y" "length y \<le> length z"
        "char_from k y = (if c = esc then chars z else c # chars z)"
      proof (cases "c = esc")
        case True
        then show ?thesis using read_char_from [OF 2(3)] that by (auto intro: less_imp_le)
      qed (use that 2(2,3) in \<open>simp add: char_from_def\<close>)
      have t: "tokens info esc (chars zP) = (if k = 0 then [Bad] else if c \<noteq> esc \<and> c = ucast (matchOne info) then One # tokens info esc (chars y)
          else Chr k # tokens info esc (chars y))"
      proof (cases "c = esc")
        case True
        then show ?thesis using char k(4) by (auto simp: 2(4) char_from_def split: if_splits dest: sym)
      next
        case False
        then show ?thesis using char k(1) 2(2) by (simp add: 2(4))
      qed
      obtain d s' where d: "sqlite3Utf8Read s = Some (d, s')" "char_from d s' = chars s" "d \<noteq> 0 \<longrightarrow> terminated s'"
        using read_char_from [OF less.prems(3)] by blast
      define zE where "zE = (if c = esc then Some (length y) else zEscaped)"
      define cont where "cont \<longleftrightarrow> same ?nc k d \<or> k = ucast (matchOne info) \<and> zE \<noteq> Some (length y) \<and> d \<noteq> 0"
      have step: "patternCompare_loop info esc zEscaped zP s = (if k = 0 then Some SQLITE_NOMATCH
          else if cont then patternCompare_loop info esc zE y s' else Some SQLITE_NOMATCH)"
        unfolding cont_def same_compare [symmetric] zE_def
        by (subst patternCompare_loop.simps) (use char in \<open>auto simp: Utf8Read_eq 2(1,2) k(1) d(1) Let_def\<close>)
      show ?thesis
      proof (cases "k = 0")
        case True
        then show ?thesis using step unfolding t by (auto intro: tells_no)
      next
        case k0: False
        have ly: "length y < length zP" using k(3) lz by simp
        have one: "k = ucast (matchOne info) \<and> zE \<noteq> Some (length y) \<longleftrightarrow> c \<noteq> esc \<and> c = ucast (matchOne info)"
          using k(1) less.prems(4) ly by (auto simp: zE_def split: if_splits)
        have chs: "chars s = (if d = 0 then [] else d # chars s')" using d(2) by (simp add: char_from_def)
        have cont: "cont \<longleftrightarrow> d \<noteq> 0 \<and> (same ?nc k d \<or> c \<noteq> esc \<and> c = ucast (matchOne info))"
          using same_0 [OF k0] one unfolding cont_def by auto
        show ?thesis
        proof (cases cont)
          case True
          have "set (chars y) \<subseteq> set (chars zP)" using k(4) k0 by (auto simp: 2(4) char_from_def split: if_splits dest: sym)
          then have "0x80 \<notin> set (chars y)" using less.prems(2) by blast
          moreover have "length y \<le> n" if "zE = Some n" for n using that less.prems(4) ly by (auto simp: zE_def split: if_splits)
          ultimately obtain rc where rc: "patternCompare_loop info esc zE y s' = Some rc" "tells ?nc (tokens info esc (chars y)) (chars s') rc"
            using less.hyps [OF ly _ _ _, of s' zE] k(2) k0 d(3) True cont by blast
          have "tells ?nc (tokens info esc (chars zP)) (chars s) rc"
            using True cont k0 tells_heads(1,2) rc(2) unfolding t chs by auto
          then show ?thesis using step k0 True rc(1) by auto
        next
          case False
          then have "\<not> matches ?nc (tokens info esc (chars zP)) (chars s)" using cont k0 unfolding t chs by auto
          then show ?thesis using step k0 False tells_no by auto
        qed
      qed
    qed
  qed
qed

section \<open>Properties\<close>

lemma infos_ok:
  "info_ok globInfo 0x5B" "esc \<noteq> 0x25 \<Longrightarrow> esc \<noteq> 0x5F \<Longrightarrow> info_ok likeInfoNorm esc" "esc \<noteq> 0x25 \<Longrightarrow> esc \<noteq> 0x5F \<Longrightarrow> info_ok likeInfoAlt esc"
  by (simp_all add: info_ok_def globInfo_def likeInfoNorm_def likeInfoAlt_def)

text \<open>C13: PatternCompare returns, never reads behind the terminators, and answers SQLITE_MATCH exactly
  when the tokens of the pattern match the characters of the string; SQLITE_NOWILDCARDMATCH,
  by which the search behind an outer wildcard is given up, is returned only if no rest of the
  string matches. For GLOB and both forms of LIKE, with an escape character that is no
  wildcard, for patterns without U+0080\<close>

theorem pattern_compare_correct:
  assumes "info = globInfo \<and> esc = 0x5B \<or> info \<in> {likeInfoNorm, likeInfoAlt} \<and> esc \<noteq> 0x25 \<and> esc \<noteq> 0x5F"
    "0 \<in> set zPattern" "0 \<in> set zString" "0x80 \<notin> set (chars zPattern)"
  shows "\<exists>r. patternCompare zPattern zString info esc = Some r
    \<and> (r = SQLITE_MATCH \<longleftrightarrow> matches (noCase info) (tokens info esc (chars zPattern)) (chars zString))
    \<and> (r = SQLITE_NOWILDCARDMATCH \<longrightarrow> (\<forall>t \<in> set (suffixes (chars zString)). \<not> matches (noCase info) (tokens info esc (chars zPattern)) t))"
proof -
  have "info_ok info esc" using assms(1) infos_ok by auto
  then obtain r where "patternCompare zPattern zString info esc = Some r"
    "tells (noCase info) (tokens info esc (chars zPattern)) (chars zString) r"
    using loop_correct [of info esc zPattern zString None] assms(2-4) unfolding patternCompare_def by auto
  then show ?thesis by (auto simp: tells_def in_set_suffixes)
qed

text \<open>The pattern \<open>*[b-d]?\<close> and the string \<open>xcy\<close>.\<close>

theorem pattern_compare_correct_witness:
  "\<exists>r. patternCompare [0x2A, 0x5B, 0x62, 0x2D, 0x64, 0x5D, 0x3F, 0] [0x78, 0x63, 0x79, 0] globInfo 0x5B = Some r \<and> r = SQLITE_MATCH"
proof -
  have c: "chars [0x2A, 0x5B, 0x62, 0x2D, 0x64, 0x5D, 0x3F, 0] = [0x2A, 0x5B, 0x62, 0x2D, 0x64, 0x5D, 0x3F]"
    "chars [0x78, 0x63, 0x79, 0] = [0x78, 0x63, 0x79]" by code_simp+
  have "matches (noCase globInfo) (tokens globInfo 0x5B [0x2A, 0x5B, 0x62, 0x2D, 0x64, 0x5D, 0x3F]) [0x78, 0x63, 0x79]" by code_simp
  then show ?thesis
    using pattern_compare_correct [of globInfo "0x5B" "[0x2A, 0x5B, 0x62, 0x2D, 0x64, 0x5D, 0x3F, 0]" "[0x78, 0x63, 0x79, 0]"]
    unfolding c by auto
qed

text \<open>The operators in SQL, with and without \<open>ESCAPE\<close>.\<close>

theorem likeFunc_matches:
  assumes "info \<in> {globInfo, likeInfoNorm, likeInfoAlt} \<and> argv2 = None \<and> esc = ucast (matchSet info)
      \<or> info \<in> {likeInfoNorm, likeInfoAlt} \<and> argv2 = Some (Some zEsc) \<and> sqlite3Utf8CharLen zEsc = Some 1
        \<and> sqlite3Utf8Read zEsc = Some (esc, z) \<and> esc \<noteq> 0x25 \<and> esc \<noteq> 0x5F"
    "0 \<in> set zB" "0 \<in> set zA" "0x80 \<notin> set (chars zB)" "nPat \<le> limit"
  shows "likeFunc limit info (Some zB) nPat (Some zA) argv2
    = Some (Result_int (matches (noCase info) (tokens info esc (chars zB)) (chars zA)))"
proof -
  have "info_ok info esc"
    using assms(1) infos_ok infos_ok(2,3) [of 0] by (auto simp: globInfo_def likeInfoNorm_def likeInfoAlt_def)
  then obtain r where r: "patternCompare zB zA info esc = Some r" "tells (noCase info) (tokens info esc (chars zB)) (chars zA) r"
    using loop_correct [of info esc zB zA None] assms(2-4) unfolding patternCompare_def by auto
  then have "r = SQLITE_MATCH \<longleftrightarrow> matches (noCase info) (tokens info esc (chars zB)) (chars zA)" by (auto simp: tells_def)
  then show ?thesis using assms(1,5) r(1) by (auto simp: likeFunc_def)
qed

text \<open>C35: The pattern * followed by the character U+0080 matches, by GLOB, strings that do not end
  with that character: every string whose last byte is the first 0x80 in it, such as the
  letter U+00C0\<close>

theorem glob_u0080_matches_byte:
  assumes "0 \<notin> set s" "0x80 \<notin> set s"
  shows "sqlite3_strglob [0x2A, 0xC2, 0x80, 0] (s @ [0x80, 0]) = Some SQLITE_MATCH"
proof -
  have r: "sqlite3Utf8Read [0x2A, 0xC2, 0x80, 0] = Some (0x2A, [0xC2, 0x80, 0])" "sqlite3Utf8Read [0xC2, 0x80, 0] = Some (0x80, [0])"
    "sqlite3Utf8Read [0] = Some (0, [])" by code_simp+
  have skip: "skip_wildcards globInfo [0xC2, 0x80, 0] z = Some (Inr (0x80, [0xC2, 0x80, 0], [0], z))" for z
    by (subst skip_wildcards.simps) (simp add: Utf8Read_eq r globInfo_def)
  have rest: "patternCompare_loop globInfo 0x5B None [0] [0] = Some SQLITE_MATCH"
    by (subst patternCompare_loop.simps) (simp add: Utf8Read_eq r)
  have "strcspn_skip [0x80] (s @ [0x80, 0]) = Some [0x80, 0]" using strcspn_pass [of s "[0x80]" "[0x80, 0]"] assms by auto
  then have "search_stop [0x80] (patternCompare_loop globInfo 0x5B None [0]) (s @ [0x80, 0]) = Some SQLITE_MATCH"
    by (subst search_stop.simps) (simp add: rest)
  then show ?thesis unfolding sqlite3_strglob_def patternCompare_def
    by (subst patternCompare_loop.simps) (simp add: Utf8Read_eq r skip, simp add: globInfo_def)
qed

theorem glob_u0080_matches_byte_witness:
  "sqlite3_strglob [0x2A, 0xC2, 0x80, 0] [0xC3, 0x80, 0] = Some SQLITE_MATCH \<and> chars [0xC3, 0x80, 0] = [0xC0]
   \<and> \<not> matches False (tokens globInfo 0x5B (chars [0x2A, 0xC2, 0x80, 0])) [0xC0]"
proof (intro conjI)
  show "sqlite3_strglob [0x2A, 0xC2, 0x80, 0] [0xC3, 0x80, 0] = Some SQLITE_MATCH"
    using glob_u0080_matches_byte [of "[0xC3]"] by simp
qed code_simp+

lemma skip_wildcards_other: "skip_wildcards pInfo zPattern zString = Some (Inr (c, z0, z, s)) \<Longrightarrow> c \<noteq> ucast (matchAll pInfo)"
proof (induction "length zPattern" arbitrary: zPattern zString rule: less_induct)
  case less
  obtain d y where r: "Utf8Read zPattern = Some (d, y)"
    using less.prems by (auto simp: skip_wildcards.simps [of pInfo zPattern] bind_eq_Some_conv)
  then have y: "length y < length zPattern" by (rule Utf8Read_shorter)
  consider "c \<noteq> ucast (matchAll pInfo)" | s' where "skip_wildcards pInfo y s' = Some (Inr (c, z0, z, s))"
    using less.prems that unfolding skip_wildcards.simps [of pInfo zPattern] r
    by (cases "d = ucast (matchAll pInfo)"; cases "d = ucast (matchOne pInfo)") (auto simp: bind_eq_Some_conv split: if_splits)
  then show ?case using less.hyps [OF y] by cases auto
qed

lemma escape_all_ignored:
  assumes "matchSet info = 0"
  shows "patternCompare_loop info (ucast (matchAll info)) e zP s = patternCompare_loop info 0 e zP s"
proof (induction "length zP" arbitrary: e zP s rule: less_induct)
  case less
  let ?all = "ucast (matchAll info) :: u32"
  show ?case
  proof (cases "Utf8Read zP")
    case None
    then show ?thesis by (simp add: patternCompare_loop.simps [of info _ e zP])
  next
    case (Some p)
    obtain c z where p: "p = (c, z)" by (cases p)
    have lz: "length z < length zP" using Utf8Read_shorter Some p by blast
    have IH: "patternCompare_loop info ?all None y = patternCompare_loop info 0 None y" if "length y \<le> length z" for y
      using less [of y None] that lz by (intro ext) simp
    consider "c = 0" | (all) "c \<noteq> 0" "c = ?all" | (other) "c \<noteq> 0" "c \<noteq> ?all" by blast
    then show ?thesis
    proof cases
      case all
      show ?thesis
      proof (cases "skip_wildcards info z s")
        case None
        then show ?thesis using all by (simp add: patternCompare_loop.simps [of info _ e zP] Some p)
      next
        case 2: (Some r)
        show ?thesis
        proof (cases r)
          case (Inl rc)
          then show ?thesis using all 2 by (simp add: patternCompare_loop.simps [of info _ e zP] Some p)
        next
          case (Inr q)
          obtain c1 z0 z1 s1 where q: "q = (c1, z0, z1, s1)" by (cases q)
          have "c1 \<noteq> ?all" "length z1 \<le> length z"
            using skip_wildcards_other skip_wildcards_shorter 2 Inr q by (blast, fastforce dest: skip_wildcards_shorter)
          then show ?thesis using all 2 Inr q assms IH [of z1] by (simp add: patternCompare_loop.simps [of info _ e zP] Some p)
        qed
      qed
    next
      case other
      then show ?thesis using less [of z] lz assms by (simp add: patternCompare_loop.simps [of info _ e zP] Some p cong: if_cong)
    qed (simp add: patternCompare_loop.simps [of info _ e zP] Some p)
  qed
qed

text \<open>C36: The percent sign as escape character is ignored: LIKE with ESCAPE and the percent sign gives
  for every pattern and string what LIKE gives without ESCAPE\<close>

theorem like_escape_percent_ignored:
  "sqlite3_strlike zPattern zStr 0x25 = sqlite3_strlike zPattern zStr 0"
  using escape_all_ignored [of likeInfoNorm None zPattern zStr]
  by (simp add: sqlite3_strlike_def patternCompare_def likeInfoNorm_def)

end
