(* ===== verification/Jni.thy ===== *)
theory Jni
  imports Prelude "HOL-Library.State_Monad"
begin

text \<open>
  The JNI layer between the Java wallet and SQLite (\<open>NativeDB.c\<close>).  One object of class
  \<open>org.sqlite.core.NativeDB\<close> is \<open>this\<close>.  The state has what the C code owns or changes: the
  fields of \<open>this\<close>, the malloc'ed buffers, the list of user-defined functions, the global
  references, the fields of the Java function objects, the exceptions thrown and not cleared, and
  the trace of the calls made to SQLite.  The Java machine has at most one pending exception, the head
  of \<open>exns\<close>; the rest of the list are those that it replaced, and clearing empties the list.  SQLite and the Java virtual machine are parameters: functions
  that answer a call from an abstract state.  Pointers, handles and objects are numbers, 0 is
  NULL; \<open>jlong\<close> handles are converted by \<open>toref\<close> and \<open>fromref\<close> without change.  A malloc or a
  JVM allocation takes its outcome from the list \<open>mem\<close>, an exhausted list meaning success.
\<close>

section \<open>The two parameters\<close>

abbreviation (input) "SQLITE_NULL \<equiv> (5 :: int)"
abbreviation (input) "SQLITE_UTF16 \<equiv> (4 :: int)"

type_synonym ptr = nat
type_synonym bytes = "u8 list"

text \<open>A call to SQLite: the name of the function and the arguments the layer passes.\<close>

datatype arg = Ptr ptr | Num int | Bytes bytes | Double u64 | Flag bool

datatype call = Call string "arg list"

text \<open>The methods of Java objects that the layer calls.\<close>

datatype jmethod = m_xFunc | m_xStep | m_xFinal | m_xValue | m_xInverse | m_clone | m_toString
  
  | m_callback int | m_progress | m_report int int

datatype jexn =
    E_message string        \<comment> \<open>\<open>throwex_msg\<close>\<close>
  | E_code int              \<comment> \<open>\<open>throwex_errorcode\<close>\<close>
  | E_last                  \<comment> \<open>\<open>throwex\<close>: built from the last error of the connection\<close>
  | E_java                  \<comment> \<open>thrown by a Java method\<close>

record UDFData =
  udf_func :: ptr
  udf_next :: ptr

record 'q jni =
  pointer :: ptr
  udfdatalist :: ptr
  f_context :: "ptr \<Rightarrow> ptr"
  f_value :: "ptr \<Rightarrow> ptr"
  f_args :: "ptr \<Rightarrow> int"
  exns :: "jexn list"         \<comment> \<open>newest first\<close>
  bufs :: "ptr \<rightharpoonup> bytes"
  udfs :: "ptr \<rightharpoonup> UDFData"
  grefs :: "ptr \<Rightarrow> nat"       \<comment> \<open>global references to an object\<close>
  weak :: "ptr \<Rightarrow> nat"        \<comment> \<open>weak global references to a class\<close>
  classes :: "ptr list"       \<comment> \<open>the static variables dbclass, fclass, aclass, wclass, pclass, phandleclass\<close>
  agg_cell :: "ptr \<Rightarrow> ptr"
  busy_obj :: ptr
  phandler :: ptr
  calls :: "call list"
  mem :: "bool list"
  fresh :: ptr
  eng :: 'q

text \<open>The answers: an integer, a pointer, a string or blob (\<open>None\<close> is NULL), the bits of a
  double, a result code with an output pointer, three flags; and the JVM.\<close>

record 'q jparams =
  a_int :: "call \<Rightarrow> 'q \<Rightarrow> int \<times> 'q"
  a_ptr :: "call \<Rightarrow> 'q \<Rightarrow> ptr \<times> 'q"
  a_bytes :: "call \<Rightarrow> 'q \<Rightarrow> bytes option \<times> 'q"
  a_double :: "call \<Rightarrow> 'q \<Rightarrow> u64 \<times> 'q"
  a_open :: "call \<Rightarrow> 'q \<Rightarrow> int \<times> ptr \<times> 'q"
  a_flags :: "call \<Rightarrow> 'q \<Rightarrow> (int \<times> int \<times> int) \<times> 'q"
  j_call :: "jmethod \<Rightarrow> ptr \<Rightarrow> 'q jni \<Rightarrow> int \<times> 'q jni"
  j_object :: "jmethod \<Rightarrow> ptr \<Rightarrow> 'q jni \<Rightarrow> ptr \<times> 'q jni"
  j_throwable :: "'q jni \<Rightarrow> ptr"
  j_utf8 :: "ptr \<Rightarrow> bytes option"
  j_class :: "string \<Rightarrow> ptr"
  j_isAggregate :: "ptr \<Rightarrow> bool"
  j_isWindow :: "ptr \<Rightarrow> bool"

type_synonym ('q, 'a) jm = "('q jni, 'a) state"

section \<open>Elementary actions\<close>

definition ask :: "(call \<Rightarrow> 'q \<Rightarrow> 'a \<times> 'q) \<Rightarrow> call \<Rightarrow> ('q, 'a) jm" where
  "ask f c = State (\<lambda>s. let (r, q) = f c (eng s) in (r, s\<lparr>eng := q, calls := c # calls s\<rparr>))"

definition ask_open :: "'q jparams \<Rightarrow> call \<Rightarrow> ('q, int \<times> ptr) jm" where
  "ask_open J c = State (\<lambda>s. let (rc, p, q) = a_open J c (eng s) in ((rc, p), s\<lparr>eng := q, calls := c # calls s\<rparr>))"

definition read :: "('q jni \<Rightarrow> 'a) \<Rightarrow> ('q, 'a) jm" where
  "read f = State (\<lambda>s. (f s, s))"

definition update :: "('q jni \<Rightarrow> 'q jni) \<Rightarrow> ('q, unit) jm" where
  "update f = State (\<lambda>s. ((), f s))"

definition alloc_ok :: "('q, bool) jm" where
  "alloc_ok = State (\<lambda>s. case mem s of [] \<Rightarrow> (True, s) | b # m \<Rightarrow> (b, s\<lparr>mem := m\<rparr>))"

definition throw :: "jexn \<Rightarrow> ('q, unit) jm" where
  "throw e = update (\<lambda>s. s\<lparr>exns := e # exns s\<rparr>)"

definition throwex :: "('q, unit) jm" where
  "throwex = throw E_last"

definition throwex_errorcode :: "int \<Rightarrow> ('q, unit) jm" where
  "throwex_errorcode errorCode = throw (E_code errorCode)"

definition throwex_msg :: "string \<Rightarrow> ('q, unit) jm" where
  "throwex_msg str = throw (E_message str)"

definition throwex_outofmemory :: "('q, unit) jm" where
  "throwex_outofmemory = throwex_msg ''Out of memory''"

definition throwex_stmt_finalized :: "('q, unit) jm" where
  "throwex_stmt_finalized = throwex_msg ''The prepared statement has been finalized''"

definition throwex_db_closed :: "('q, unit) jm" where
  "throwex_db_closed = throwex_msg ''The database has been closed''"


text \<open>A call to SQLite without a result.\<close>

definition tell :: "'q jparams \<Rightarrow> string \<Rightarrow> arg list \<Rightarrow> ('q, unit) jm" where
  "tell J f as = do { _ \<leftarrow> ask (a_int J) (Call f as); State_Monad.return () }"

text \<open>A C string ends at its first zero byte.\<close>

definition cstring :: "bytes \<Rightarrow> bytes" where
  "cstring b = takeWhile (\<lambda>x. x \<noteq> 0) b"

text \<open>\<open>NewByteArray\<close> and \<open>SetByteArrayRegion\<close> of the first \<open>nbytes\<close> bytes.\<close>

definition utf8BytesToJavaByteArray :: "bytes option \<Rightarrow> int \<Rightarrow> ('q, bytes option) jm" where
  "utf8BytesToJavaByteArray b nbytes =
     (case b of
        None \<Rightarrow> State_Monad.return None
      | Some b \<Rightarrow> do {
          ok \<leftarrow> alloc_ok;
          if \<not> ok then do { throwex_outofmemory; State_Monad.return None }
          else State_Monad.return (Some (take (nat nbytes) b))
        })"

text \<open>The result is the buffer (0 on NULL or failure) and the number of bytes; the buffer has
  one more byte, the terminating zero.\<close>

definition utf8JavaByteArrayToUtf8Bytes :: "bytes option \<Rightarrow> ('q, ptr \<times> int) jm" where
  "utf8JavaByteArrayToUtf8Bytes utf8bytes =
     (case utf8bytes of
        None \<Rightarrow> State_Monad.return (0, 0)
      | Some b \<Rightarrow> do {
          ok \<leftarrow> alloc_ok;
          if \<not> ok then do { throwex_outofmemory; State_Monad.return (0, 0) }
          else do {
            p \<leftarrow> read fresh;
            update (\<lambda>s. s\<lparr>fresh := p + 1, bufs := (bufs s)(p \<mapsto> b @ [0])\<rparr>);
            State_Monad.return (p, int (length b))
          }
        })"

definition freeUtf8Bytes :: "ptr \<Rightarrow> ('q, unit) jm" where
  "freeUtf8Bytes p = (if p \<noteq> 0 then update (\<lambda>s. s\<lparr>bufs := (bufs s)(p := None)\<rparr>) else State_Monad.return ())"

text \<open>\<open>stringToUtf8Bytes\<close> converts with the Java method \<open>stringToUtf8ByteArray\<close> first, which gives an
  array or throws.\<close>

definition stringToUtf8Bytes :: "'q jparams \<Rightarrow> ptr \<Rightarrow> ('q, ptr \<times> int) jm" where
  "stringToUtf8Bytes J str =
     (if str = 0 then State_Monad.return (0, 0)
      else case j_utf8 J str of
        None \<Rightarrow> do { throw E_java; State_Monad.return (0, 0) }
      | Some b \<Rightarrow> utf8JavaByteArrayToUtf8Bytes (Some b))"

definition buf :: "ptr \<Rightarrow> 'q jni \<Rightarrow> bytes" where
  "buf p s = (case bufs s p of Some b \<Rightarrow> b | None \<Rightarrow> [])"

definition gethandle :: "('q, ptr) jm" where
  "gethandle = read pointer"

definition sethandle :: "ptr \<Rightarrow> ('q, unit) jm" where
  "sethandle ref = update (\<lambda>s. s\<lparr>pointer := ref\<rparr>)"

section \<open>Guards\<close>

text \<open>The two prologues of the entry points, with the value returned after the exception.\<close>

definition with_db :: "'a \<Rightarrow> (ptr \<Rightarrow> ('q, 'a) jm) \<Rightarrow> ('q, 'a) jm" where
  "with_db d f = do {
     db \<leftarrow> gethandle;
     if db = 0 then do { throwex_db_closed; State_Monad.return d } else f db
   }"

definition with_stmt :: "'a \<Rightarrow> ptr \<Rightarrow> ('q, 'a) jm \<Rightarrow> ('q, 'a) jm" where
  "with_stmt d stmt f =
     (if stmt = 0 then do { throwex_stmt_finalized; State_Monad.return d } else f)"

end
