(* ===== verification/NativeFunctions.thy ===== *)
theory NativeFunctions
  imports Jni
begin

text \<open>
  User-defined functions written in Java (\<open>NativeDB.c\<close>, "User Defined Function SUPPORT"): the
  callbacks that SQLite invokes, which store the arguments in the fields of the Java function
  object, call its method and report an exception as an SQL error; and the loading and
  unloading of the library.
\<close>

section \<open>User-defined functions\<close>

definition ascii :: "string \<Rightarrow> bytes" where
  "ascii str = map of_char str"

text \<open>Calling Java: the method acts on the whole state, since it may call back.\<close>

definition java :: "'q jparams \<Rightarrow> jmethod \<Rightarrow> ptr \<Rightarrow> ('q, int) jm" where
  "java J m ob = State (j_call J m ob)"

definition NewGlobalRef :: "ptr \<Rightarrow> ('q, ptr) jm" where
  "NewGlobalRef ob = do {
     update (\<lambda>s. if ob = 0 then s else s\<lparr>grefs := (grefs s)(ob := grefs s ob + 1)\<rparr>);
     State_Monad.return ob
   }"

definition DeleteGlobalRef :: "ptr \<Rightarrow> ('q, unit) jm" where
  "DeleteGlobalRef ob = update (\<lambda>s. if ob = 0 then s else s\<lparr>grefs := (grefs s)(ob := grefs s ob - 1)\<rparr>)"

text \<open>The element of the array of values is read from SQLite's memory: the call
  \<open>value[arg]\<close> of the model.\<close>

definition tovalue :: "'q jparams \<Rightarrow> ptr \<Rightarrow> int \<Rightarrow> ('q, ptr) jm" where
  "tovalue J function arg =
     (if arg < 0 then do { throwex_msg ''negative arg out of range''; State_Monad.return 0 }
      else if function = 0 then do { throwex_msg ''inconstent function''; State_Monad.return 0 }
      else do {
        value_pntr \<leftarrow> read (\<lambda>s. f_value s function);
        numArgs \<leftarrow> read (\<lambda>s. f_args s function);
        if value_pntr = 0 then do { throwex_msg ''no current value''; State_Monad.return 0 }
        else if arg \<ge> numArgs then do { throwex_msg ''arg out of range''; State_Monad.return 0 }
        else ask (a_ptr J) (Call ''value[arg]'' [Ptr value_pntr, Num arg])
      })"

definition xFunc_error :: "'q jparams \<Rightarrow> ptr \<Rightarrow> ('q, unit) jm" where
  "xFunc_error J context = do {
     ex \<leftarrow> read (j_throwable J);
     update (\<lambda>s. s\<lparr>exns := []\<rparr>);
     msg \<leftarrow> State (j_object J m_toString ex);
     if msg = 0 then tell J ''sqlite3_result_error'' [Ptr context, Bytes (ascii ''unknown error''), Num 13]
     else do {
       (msg_bytes, msg_nbytes) \<leftarrow> stringToUtf8Bytes J msg;
       if msg_bytes = 0 then tell J ''sqlite3_result_error_nomem'' [Ptr context]
       else do {
         b \<leftarrow> read (buf msg_bytes);
         tell J ''sqlite3_result_error'' [Ptr context, Bytes b, Num msg_nbytes];
         freeUtf8Bytes msg_bytes
       }
     }
   }"

definition set_fields :: "ptr \<Rightarrow> ptr \<Rightarrow> ptr \<Rightarrow> int \<Rightarrow> ('q, unit) jm" where
  "set_fields func c v n = update (\<lambda>s. s\<lparr>f_context := (f_context s)(func := c),
     f_value := (f_value s)(func := v), f_args := (f_args s)(func := n)\<rparr>)"

text \<open>\<open>None\<close> is a failed assertion or the dereference of NULL.  The identifiers of Java methods and
  fields that the code caches in static variables are left out.\<close>

definition xCall :: "'q jparams \<Rightarrow> ptr \<Rightarrow> int \<Rightarrow> ptr \<Rightarrow> ptr \<Rightarrow> jmethod \<Rightarrow> ('q, unit option) jm" where
  "xCall J context args value func method = do {
     udf \<leftarrow> ask (a_ptr J) (Call ''sqlite3_user_data'' [Ptr context]);
     u \<leftarrow> read (\<lambda>s. udfs s udf);
     case u of
       None \<Rightarrow> State_Monad.return None
     | Some u \<Rightarrow> do {
         let func = (if func = 0 then udf_func u else func);
         set_fields func context value args;
         _ \<leftarrow> java J method func;
         e \<leftarrow> read exns;
         (if e \<noteq> [] then xFunc_error J context else State_Monad.return ());
         set_fields func 0 0 0;
         State_Monad.return (Some ())
       }
   }"

definition xFunc :: "'q jparams \<Rightarrow> ptr \<Rightarrow> int \<Rightarrow> ptr \<Rightarrow> ('q, unit option) jm" where
  "xFunc J context args value = xCall J context args value 0 m_xFunc"

definition aggregate_context :: "'q jparams \<Rightarrow> ptr \<Rightarrow> ('q, ptr) jm" where
  "aggregate_context J context = ask (a_ptr J) (Call ''sqlite3_aggregate_context'' [Ptr context, Num 8])"

definition xStep_clone :: "'q jparams \<Rightarrow> ptr \<Rightarrow> ptr \<Rightarrow> ('q, unit option) jm" where
  "xStep_clone J context func = do {
     udf \<leftarrow> ask (a_ptr J) (Call ''sqlite3_user_data'' [Ptr context]);
     u \<leftarrow> read (\<lambda>s. udfs s udf);
     case u of
       None \<Rightarrow> State_Monad.return None
     | Some u \<Rightarrow> do {
         c \<leftarrow> State (j_object J m_clone (udf_func u));
         c \<leftarrow> NewGlobalRef c;
         update (\<lambda>s. s\<lparr>agg_cell := (agg_cell s)(func := c)\<rparr>);
         State_Monad.return (Some ())
       }
   }"

definition xStep :: "'q jparams \<Rightarrow> ptr \<Rightarrow> int \<Rightarrow> ptr \<Rightarrow> ('q, unit option) jm" where
  "xStep J context args value = do {
     func \<leftarrow> aggregate_context J context;
     if func = 0 then State_Monad.return None
     else do {
       v \<leftarrow> read (\<lambda>s. agg_cell s func);
       r \<leftarrow> (if v = 0 then xStep_clone J context func else State_Monad.return (Some ()));
       if r = None then State_Monad.return None
       else do {
         v \<leftarrow> read (\<lambda>s. agg_cell s func);
         xCall J context args value v m_xStep
       }
     }
   }"

text \<open>The common form of \<open>xInverse\<close>, \<open>xValue\<close> and \<open>xFinal\<close>: the instance must exist.\<close>

definition on_instance :: "'q jparams \<Rightarrow> ptr \<Rightarrow> (ptr \<Rightarrow> ('q, unit option) jm) \<Rightarrow> ('q, unit option) jm" where
  "on_instance J context f = do {
     udf \<leftarrow> ask (a_ptr J) (Call ''sqlite3_user_data'' [Ptr context]);
     u \<leftarrow> read (\<lambda>s. udfs s udf);
     if u = None then State_Monad.return None
     else do {
       func \<leftarrow> aggregate_context J context;
       v \<leftarrow> read (\<lambda>s. agg_cell s func);
       if func = 0 \<or> v = 0 then State_Monad.return None else f func
     }
   }"

definition xInverse :: "'q jparams \<Rightarrow> ptr \<Rightarrow> int \<Rightarrow> ptr \<Rightarrow> ('q, unit option) jm" where
  "xInverse J context args value = on_instance J context
     (\<lambda>func. do { v \<leftarrow> read (\<lambda>s. agg_cell s func); xCall J context args value v m_xInverse })"

definition xValue :: "'q jparams \<Rightarrow> ptr \<Rightarrow> ('q, unit option) jm" where
  "xValue J context = on_instance J context
     (\<lambda>func. do { v \<leftarrow> read (\<lambda>s. agg_cell s func); xCall J context 0 0 v m_xValue })"

definition xFinal :: "'q jparams \<Rightarrow> ptr \<Rightarrow> ('q, unit option) jm" where
  "xFinal J context = on_instance J context (\<lambda>func. do {
     v \<leftarrow> read (\<lambda>s. agg_cell s func);
     r \<leftarrow> xCall J context 0 0 v m_xFinal;
     if r = None then State_Monad.return None
     else do {
       v \<leftarrow> read (\<lambda>s. agg_cell s func);
       DeleteGlobalRef v;
       State_Monad.return (Some ())
     }
   })"

section \<open>Loading and unloading\<close>

definition JNI_classes :: "string list" where
  "JNI_classes = [''org/sqlite/core/NativeDB'', ''org/sqlite/Function'', ''org/sqlite/Function$Aggregate'',
     ''org/sqlite/Function$Window'', ''org/sqlite/core/DB$ProgressObserver'', ''org/sqlite/ProgressHandler'']"

text \<open>\<open>FindClass\<close> and \<open>NewWeakGlobalRef\<close> for one variable after another; the first class that
  is not found ends it with 0 in its variable.\<close>

fun load_classes :: "'q jparams \<Rightarrow> string list \<Rightarrow> ('q, bool) jm" where
  "load_classes J [] = State_Monad.return True"
| "load_classes J (n # ns) =
     (let c = j_class J n in do {
        update (\<lambda>s. s\<lparr>classes := classes s @ [c]\<rparr>);
        if c = 0 then State_Monad.return False
        else do {
          update (\<lambda>s. s\<lparr>weak := (weak s)(c := weak s c + 1)\<rparr>);
          load_classes J ns
        }
      })"

definition JNI_ERR :: int where "JNI_ERR = -1"
definition JNI_VERSION_1_2 :: int where "JNI_VERSION_1_2 = 0x00010002"

definition JNI_OnLoad :: "'q jparams \<Rightarrow> bool \<Rightarrow> ('q, int) jm" where
  "JNI_OnLoad J env_ok =
     (if \<not> env_ok then State_Monad.return JNI_ERR
      else do {
        ok \<leftarrow> load_classes J JNI_classes;
        State_Monad.return (if ok then JNI_VERSION_1_2 else JNI_ERR)
      })"

fun unload_classes :: "ptr list \<Rightarrow> ('q, unit) jm" where
  "unload_classes [] = State_Monad.return ()"
| "unload_classes (c # cs) = do {
     update (\<lambda>s. if c \<noteq> 0 then s\<lparr>weak := (weak s)(c := weak s c - 1)\<rparr> else s);
     unload_classes cs
   }"

definition JNI_OnUnload :: "bool \<Rightarrow> ('q, unit) jm" where
  "JNI_OnUnload env_ok =
     (if \<not> env_ok then State_Monad.return () else do { cs \<leftarrow> read classes; unload_classes cs })"

end
