(* ===== verification/NativeDB.thy ===== *)
theory NativeDB
  imports NativeFunctions
begin

text \<open>
  The native methods of the Java class \<open>NativeDB\<close>, in the order of \<open>NativeDB.c\<close>.  The trace of
  calls names the functions of SQLite with the arguments that the layer passes.  A Java string
  or array is given by its bytes, \<open>None\<close> being null.
\<close>

section \<open>Connections\<close>

definition flag :: "bool \<Rightarrow> int" where
  "flag b = (if b then 1 else 0)"

definition shared_cache :: "'q jparams \<Rightarrow> bool \<Rightarrow> ('q, int) jm" where
  "shared_cache J enable = ask (a_int J) (Call ''sqlite3_enable_shared_cache'' [Num (flag enable)])"

definition enable_load_extension :: "'q jparams \<Rightarrow> bool \<Rightarrow> ('q, int) jm" where
  "enable_load_extension J enable = with_db SQLITE_MISUSE (\<lambda>db.
     ask (a_int J) (Call ''sqlite3_enable_load_extension'' [Ptr db, Num (flag enable)]))"

definition open_utf8 :: "'q jparams \<Rightarrow> bytes option \<Rightarrow> int \<Rightarrow> ('q, unit) jm" where
  "open_utf8 J fname flags = do {
     db \<leftarrow> gethandle;
     if db \<noteq> 0 then do {
       throwex_msg ''DB already open'';
       tell J ''sqlite3_close'' [Ptr db]
     } else do {
       (file_bytes, _) \<leftarrow> utf8JavaByteArrayToUtf8Bytes fname;
       if file_bytes = 0 then State_Monad.return ()
       else do {
         b \<leftarrow> read (buf file_bytes);
         (ret, db) \<leftarrow> ask_open J (Call ''sqlite3_open_v2'' [Bytes b, Num flags, Ptr 0]);
         freeUtf8Bytes file_bytes;
         if ret \<noteq> SQLITE_OK then do {
           throwex_errorcode ret;
           tell J ''sqlite3_close'' [Ptr db]
         } else do {
           tell J ''sqlite3_extended_result_codes'' [Ptr db, Num 1];
           sethandle db
         }
       }
     }
   }"

definition close_db :: "'q jparams \<Rightarrow> ('q, unit) jm" where
  "close_db J = do {
     db \<leftarrow> gethandle;
     if db \<noteq> 0 then do {
       rc \<leftarrow> ask (a_int J) (Call ''sqlite3_close'' [Ptr db]);
       (if rc \<noteq> SQLITE_OK then throwex else State_Monad.return ());
       sethandle 0
     } else State_Monad.return ()
   }"

definition interrupt :: "'q jparams \<Rightarrow> ('q, unit) jm" where
  "interrupt J = with_db () (\<lambda>db. tell J ''sqlite3_interrupt'' [Ptr db])"

definition busy_timeout :: "'q jparams \<Rightarrow> int \<Rightarrow> ('q, unit) jm" where
  "busy_timeout J ms = with_db () (\<lambda>db. tell J ''sqlite3_busy_timeout'' [Ptr db, Num ms])"

definition busyHandlerCallBack :: "'q jparams \<Rightarrow> int \<Rightarrow> ('q, int) jm" where
  "busyHandlerCallBack J nbPrevInvok = do {
     ob \<leftarrow> read busy_obj;
     java J (m_callback nbPrevInvok) ob
   }"

definition busy_handler :: "'q jparams \<Rightarrow> ptr \<Rightarrow> ('q, unit) jm" where
  "busy_handler J busyHandler = do {
     (if busyHandler \<noteq> 0 then do {
        ob \<leftarrow> NewGlobalRef busyHandler;
        update (\<lambda>s. s\<lparr>busy_obj := ob\<rparr>)
      } else State_Monad.return ());
     with_db () (\<lambda>db.
       tell J ''sqlite3_busy_handler'' [Ptr db, Flag (busyHandler \<noteq> 0), Ptr 0])
   }"

definition prepare_utf8 :: "'q jparams \<Rightarrow> bytes option \<Rightarrow> ('q, ptr) jm" where
  "prepare_utf8 J sql = with_db 0 (\<lambda>db. do {
     (sql_bytes, sql_nbytes) \<leftarrow> utf8JavaByteArrayToUtf8Bytes sql;
     if sql_bytes = 0 then State_Monad.return 0
     else do {
       b \<leftarrow> read (buf sql_bytes);
       (status, stmt) \<leftarrow> ask_open J (Call ''sqlite3_prepare_v2'' [Ptr db, Bytes b, Num sql_nbytes, Ptr 0]);
       freeUtf8Bytes sql_bytes;
       if status \<noteq> SQLITE_OK then do {
         throwex_errorcode status;
         State_Monad.return 0
       } else State_Monad.return stmt
     }
   })"

definition exec_utf8 :: "'q jparams \<Rightarrow> bytes option \<Rightarrow> ('q, int) jm" where
  "exec_utf8 J sql = do {
     db \<leftarrow> gethandle;
     if db = 0 then do {
       throwex_errorcode SQLITE_MISUSE;
       State_Monad.return SQLITE_MISUSE
     } else do {
       (sql_bytes, _) \<leftarrow> utf8JavaByteArrayToUtf8Bytes sql;
       if sql_bytes = 0 then State_Monad.return SQLITE_ERROR
       else do {
         b \<leftarrow> read (buf sql_bytes);
         status \<leftarrow> ask (a_int J) (Call ''sqlite3_exec'' [Ptr db, Bytes b, Ptr 0, Ptr 0, Ptr 0]);
         freeUtf8Bytes sql_bytes;
         (if status \<noteq> SQLITE_OK then throwex_errorcode status else State_Monad.return ());
         State_Monad.return status
       }
     }
   }"

text \<open>The bytes of a C string, up to its terminating zero.\<close>

definition c_string_result :: "bytes option \<Rightarrow> ('q, bytes option) jm" where
  "c_string_result str =
     (case str of
        None \<Rightarrow> State_Monad.return None
      | Some b \<Rightarrow> utf8BytesToJavaByteArray (Some b) (int (length (cstring b))))"

definition errmsg_utf8 :: "'q jparams \<Rightarrow> ('q, bytes option) jm" where
  "errmsg_utf8 J = with_db None (\<lambda>db. do {
     str \<leftarrow> ask (a_bytes J) (Call ''sqlite3_errmsg'' [Ptr db]);
     c_string_result str
   })"

definition libversion_utf8 :: "'q jparams \<Rightarrow> ('q, bytes option) jm" where
  "libversion_utf8 J = do {
     version \<leftarrow> ask (a_bytes J) (Call ''sqlite3_libversion'' []);
     c_string_result version
   }"

definition changes :: "'q jparams \<Rightarrow> ('q, int) jm" where
  "changes J = with_db 0 (\<lambda>db. ask (a_int J) (Call ''sqlite3_changes'' [Ptr db]))"

definition total_changes :: "'q jparams \<Rightarrow> ('q, int) jm" where
  "total_changes J = with_db 0 (\<lambda>db. ask (a_int J) (Call ''sqlite3_total_changes'' [Ptr db]))"

section \<open>Statements\<close>

definition finalize :: "'q jparams \<Rightarrow> ptr \<Rightarrow> ('q, int) jm" where
  "finalize J stmt = with_stmt SQLITE_MISUSE stmt (ask (a_int J) (Call ''sqlite3_finalize'' [Ptr stmt]))"

definition step :: "'q jparams \<Rightarrow> ptr \<Rightarrow> ('q, int) jm" where
  "step J stmt = with_stmt SQLITE_MISUSE stmt (ask (a_int J) (Call ''sqlite3_step'' [Ptr stmt]))"

definition reset :: "'q jparams \<Rightarrow> ptr \<Rightarrow> ('q, int) jm" where
  "reset J stmt = with_stmt SQLITE_MISUSE stmt (ask (a_int J) (Call ''sqlite3_reset'' [Ptr stmt]))"

definition clear_bindings :: "'q jparams \<Rightarrow> ptr \<Rightarrow> ('q, int) jm" where
  "clear_bindings J stmt =
     with_stmt SQLITE_MISUSE stmt (ask (a_int J) (Call ''sqlite3_clear_bindings'' [Ptr stmt]))"

definition bind_parameter_count :: "'q jparams \<Rightarrow> ptr \<Rightarrow> ('q, int) jm" where
  "bind_parameter_count J stmt =
     with_stmt SQLITE_MISUSE stmt (ask (a_int J) (Call ''sqlite3_bind_parameter_count'' [Ptr stmt]))"

definition column_count :: "'q jparams \<Rightarrow> ptr \<Rightarrow> ('q, int) jm" where
  "column_count J stmt =
     with_stmt SQLITE_MISUSE stmt (ask (a_int J) (Call ''sqlite3_column_count'' [Ptr stmt]))"

definition column_type :: "'q jparams \<Rightarrow> ptr \<Rightarrow> int \<Rightarrow> ('q, int) jm" where
  "column_type J stmt col =
     with_stmt SQLITE_MISUSE stmt (ask (a_int J) (Call ''sqlite3_column_type'' [Ptr stmt, Num col]))"

definition column_decltype_utf8 :: "'q jparams \<Rightarrow> ptr \<Rightarrow> int \<Rightarrow> ('q, bytes option) jm" where
  "column_decltype_utf8 J stmt col = with_stmt None stmt (do {
     str \<leftarrow> ask (a_bytes J) (Call ''sqlite3_column_decltype'' [Ptr stmt, Num col]);
     c_string_result str
   })"

definition column_table_name_utf8 :: "'q jparams \<Rightarrow> ptr \<Rightarrow> int \<Rightarrow> ('q, bytes option) jm" where
  "column_table_name_utf8 J stmt col = with_stmt None stmt (do {
     str \<leftarrow> ask (a_bytes J) (Call ''sqlite3_column_table_name'' [Ptr stmt, Num col]);
     c_string_result str
   })"

definition column_name_utf8 :: "'q jparams \<Rightarrow> ptr \<Rightarrow> int \<Rightarrow> ('q, bytes option) jm" where
  "column_name_utf8 J stmt col = with_stmt None stmt (do {
     str \<leftarrow> ask (a_bytes J) (Call ''sqlite3_column_name'' [Ptr stmt, Num col]);
     c_string_result str
   })"

text \<open>The test that a NULL from SQLite stands for an allocation that failed there.\<close>

definition null_means_nomem :: "'q jparams \<Rightarrow> ptr \<Rightarrow> bytes option \<Rightarrow> ('q, bool) jm" where
  "null_means_nomem J db b =
     (if b \<noteq> None then State_Monad.return False
      else do {
        e \<leftarrow> ask (a_int J) (Call ''sqlite3_errcode'' [Ptr db]);
        State_Monad.return (e = SQLITE_NOMEM)
      })"

definition column_text_utf8 :: "'q jparams \<Rightarrow> ptr \<Rightarrow> int \<Rightarrow> ('q, bytes option) jm" where
  "column_text_utf8 J stmt col = with_db None (\<lambda>db. with_stmt None stmt (do {
     bytes \<leftarrow> ask (a_bytes J) (Call ''sqlite3_column_text'' [Ptr stmt, Num col]);
     nbytes \<leftarrow> ask (a_int J) (Call ''sqlite3_column_bytes'' [Ptr stmt, Num col]);
     nomem \<leftarrow> null_means_nomem J db bytes;
     if nomem then do { throwex_outofmemory; State_Monad.return None }
     else utf8BytesToJavaByteArray bytes nbytes
   }))"

definition column_blob :: "'q jparams \<Rightarrow> ptr \<Rightarrow> int \<Rightarrow> ('q, bytes option) jm" where
  "column_blob J stmt col = with_db None (\<lambda>db. with_stmt None stmt (do {
     type \<leftarrow> ask (a_int J) (Call ''sqlite3_column_type'' [Ptr stmt, Num col]);
     blob \<leftarrow> ask (a_bytes J) (Call ''sqlite3_column_blob'' [Ptr stmt, Num col]);
     nomem \<leftarrow> null_means_nomem J db blob;
     if nomem then do { throwex_outofmemory; State_Monad.return None }
     else (case blob of
       None \<Rightarrow>
         if type = SQLITE_NULL then State_Monad.return None
         else utf8BytesToJavaByteArray (Some []) 0
     | Some b \<Rightarrow> do {
         length \<leftarrow> ask (a_int J) (Call ''sqlite3_column_bytes'' [Ptr stmt, Num col]);
         utf8BytesToJavaByteArray (Some b) length
       })
   }))"

definition column_double :: "'q jparams \<Rightarrow> ptr \<Rightarrow> int \<Rightarrow> ('q, u64) jm" where
  "column_double J stmt col =
     with_stmt 0 stmt (ask (a_double J) (Call ''sqlite3_column_double'' [Ptr stmt, Num col]))"

definition column_long :: "'q jparams \<Rightarrow> ptr \<Rightarrow> int \<Rightarrow> ('q, int) jm" where
  "column_long J stmt col =
     with_stmt 0 stmt (ask (a_int J) (Call ''sqlite3_column_int64'' [Ptr stmt, Num col]))"

definition column_int :: "'q jparams \<Rightarrow> ptr \<Rightarrow> int \<Rightarrow> ('q, int) jm" where
  "column_int J stmt col =
     with_stmt 0 stmt (ask (a_int J) (Call ''sqlite3_column_int'' [Ptr stmt, Num col]))"

definition bind_null :: "'q jparams \<Rightarrow> ptr \<Rightarrow> int \<Rightarrow> ('q, int) jm" where
  "bind_null J stmt pos =
     with_stmt SQLITE_MISUSE stmt (ask (a_int J) (Call ''sqlite3_bind_null'' [Ptr stmt, Num pos]))"

definition bind_int :: "'q jparams \<Rightarrow> ptr \<Rightarrow> int \<Rightarrow> int \<Rightarrow> ('q, int) jm" where
  "bind_int J stmt pos v =
     with_stmt SQLITE_MISUSE stmt (ask (a_int J) (Call ''sqlite3_bind_int'' [Ptr stmt, Num pos, Num v]))"

definition bind_long :: "'q jparams \<Rightarrow> ptr \<Rightarrow> int \<Rightarrow> int \<Rightarrow> ('q, int) jm" where
  "bind_long J stmt pos v =
     with_stmt SQLITE_MISUSE stmt (ask (a_int J) (Call ''sqlite3_bind_int64'' [Ptr stmt, Num pos, Num v]))"

definition bind_double :: "'q jparams \<Rightarrow> ptr \<Rightarrow> int \<Rightarrow> u64 \<Rightarrow> ('q, int) jm" where
  "bind_double J stmt pos v =
     with_stmt SQLITE_MISUSE stmt (ask (a_int J) (Call ''sqlite3_bind_double'' [Ptr stmt, Num pos, Double v]))"

definition bind_text_utf8 :: "'q jparams \<Rightarrow> ptr \<Rightarrow> int \<Rightarrow> bytes option \<Rightarrow> ('q, int) jm" where
  "bind_text_utf8 J stmt pos v = with_stmt SQLITE_MISUSE stmt (do {
     (v_bytes, v_nbytes) \<leftarrow> utf8JavaByteArrayToUtf8Bytes v;
     if v_bytes = 0 then State_Monad.return SQLITE_ERROR
     else do {
       b \<leftarrow> read (buf v_bytes);
       rc \<leftarrow> ask (a_int J) (Call ''sqlite3_bind_text'' [Ptr stmt, Num pos, Bytes b, Num v_nbytes]);
       freeUtf8Bytes v_bytes;
       State_Monad.return rc
     }
   })"

text \<open>The array of \<open>bind_blob\<close> is not null: the Java caller tests it.  Pinning the array
  (\<open>GetPrimitiveArrayCritical\<close>) may fail.\<close>

definition bind_blob :: "'q jparams \<Rightarrow> ptr \<Rightarrow> int \<Rightarrow> bytes \<Rightarrow> ('q, int) jm" where
  "bind_blob J stmt pos v = with_stmt SQLITE_MISUSE stmt (do {
     ok \<leftarrow> alloc_ok;
     if \<not> ok then do { throwex_outofmemory; State_Monad.return 0 }
     else ask (a_int J) (Call ''sqlite3_bind_blob'' [Ptr stmt, Num pos, Bytes v, Num (int (length v))])
   })"

section \<open>Results and arguments of user-defined functions\<close>

definition with_context :: "ptr \<Rightarrow> ('q, unit) jm \<Rightarrow> ('q, unit) jm" where
  "with_context context f = (if context = 0 then State_Monad.return () else f)"

definition result_null :: "'q jparams \<Rightarrow> ptr \<Rightarrow> ('q, unit) jm" where
  "result_null J context = with_context context (tell J ''sqlite3_result_null'' [Ptr context])"

definition result_text_utf8 :: "'q jparams \<Rightarrow> ptr \<Rightarrow> bytes option \<Rightarrow> ('q, unit) jm" where
  "result_text_utf8 J context val = with_context context (
     if val = None then tell J ''sqlite3_result_null'' [Ptr context]
     else do {
       (value_bytes, value_nbytes) \<leftarrow> utf8JavaByteArrayToUtf8Bytes val;
       if value_bytes = 0 then tell J ''sqlite3_result_error_nomem'' [Ptr context]
       else do {
         b \<leftarrow> read (buf value_bytes);
         tell J ''sqlite3_result_text'' [Ptr context, Bytes b, Num value_nbytes];
         freeUtf8Bytes value_bytes
       }
     })"

definition result_blob :: "'q jparams \<Rightarrow> ptr \<Rightarrow> bytes option \<Rightarrow> ('q, unit) jm" where
  "result_blob J context val = with_context context (
     case val of
       None \<Rightarrow> tell J ''sqlite3_result_null'' [Ptr context]
     | Some b \<Rightarrow> do {
         ok \<leftarrow> alloc_ok;
         if \<not> ok then throwex_outofmemory
         else tell J ''sqlite3_result_blob'' [Ptr context, Bytes b, Num (int (length b))]
       })"

definition result_double :: "'q jparams \<Rightarrow> ptr \<Rightarrow> u64 \<Rightarrow> ('q, unit) jm" where
  "result_double J context val =
     with_context context (tell J ''sqlite3_result_double'' [Ptr context, Double val])"

definition result_long :: "'q jparams \<Rightarrow> ptr \<Rightarrow> int \<Rightarrow> ('q, unit) jm" where
  "result_long J context val =
     with_context context (tell J ''sqlite3_result_int64'' [Ptr context, Num val])"

definition result_int :: "'q jparams \<Rightarrow> ptr \<Rightarrow> int \<Rightarrow> ('q, unit) jm" where
  "result_int J context val =
     with_context context (tell J ''sqlite3_result_int'' [Ptr context, Num val])"

definition result_error_utf8 :: "'q jparams \<Rightarrow> ptr \<Rightarrow> bytes option \<Rightarrow> ('q, unit) jm" where
  "result_error_utf8 J context err = with_context context (do {
     (err_bytes, err_nbytes) \<leftarrow> utf8JavaByteArrayToUtf8Bytes err;
     if err_bytes = 0 then tell J ''sqlite3_result_error_nomem'' [Ptr context]
     else do {
       b \<leftarrow> read (buf err_bytes);
       tell J ''sqlite3_result_error'' [Ptr context, Bytes b, Num err_nbytes];
       freeUtf8Bytes err_bytes
     }
   })"

text \<open>The prologue of the functions that read an argument.\<close>

definition with_value :: "'q jparams \<Rightarrow> 'a \<Rightarrow> ptr \<Rightarrow> int \<Rightarrow> (ptr \<Rightarrow> ('q, 'a) jm) \<Rightarrow> ('q, 'a) jm" where
  "with_value J d f arg m = do {
     val \<leftarrow> tovalue J f arg;
     if val = 0 then State_Monad.return d else m val
   }"

definition value_text_utf8 :: "'q jparams \<Rightarrow> ptr \<Rightarrow> int \<Rightarrow> ('q, bytes option) jm" where
  "value_text_utf8 J f arg = with_value J None f arg (\<lambda>val. do {
     bytes \<leftarrow> ask (a_bytes J) (Call ''sqlite3_value_text'' [Ptr val]);
     nbytes \<leftarrow> ask (a_int J) (Call ''sqlite3_value_bytes'' [Ptr val]);
     utf8BytesToJavaByteArray bytes nbytes
   })"

definition value_blob :: "'q jparams \<Rightarrow> ptr \<Rightarrow> int \<Rightarrow> ('q, bytes option) jm" where
  "value_blob J f arg = with_value J None f arg (\<lambda>val. do {
     blob \<leftarrow> ask (a_bytes J) (Call ''sqlite3_value_blob'' [Ptr val]);
     case blob of
       None \<Rightarrow> State_Monad.return None
     | Some b \<Rightarrow> do {
         length \<leftarrow> ask (a_int J) (Call ''sqlite3_value_bytes'' [Ptr val]);
         utf8BytesToJavaByteArray (Some b) length
       }
   })"

definition value_double :: "'q jparams \<Rightarrow> ptr \<Rightarrow> int \<Rightarrow> ('q, u64) jm" where
  "value_double J f arg = with_value J 0 f arg (\<lambda>val. ask (a_double J) (Call ''sqlite3_value_double'' [Ptr val]))"

definition value_long :: "'q jparams \<Rightarrow> ptr \<Rightarrow> int \<Rightarrow> ('q, int) jm" where
  "value_long J f arg = with_value J 0 f arg (\<lambda>val. ask (a_int J) (Call ''sqlite3_value_int64'' [Ptr val]))"

definition value_int :: "'q jparams \<Rightarrow> ptr \<Rightarrow> int \<Rightarrow> ('q, int) jm" where
  "value_int J f arg = with_value J 0 f arg (\<lambda>val. ask (a_int J) (Call ''sqlite3_value_int'' [Ptr val]))"

definition value_type :: "'q jparams \<Rightarrow> ptr \<Rightarrow> int \<Rightarrow> ('q, int) jm" where
  "value_type J f arg = do {
     val \<leftarrow> tovalue J f arg;
     ask (a_int J) (Call ''sqlite3_value_type'' [Ptr val])
   }"

end
