(* ===== verification/NativeCompound.thy ===== *)
theory NativeCompound
  imports NativeDB
begin

text \<open>
  The rest of \<open>NativeDB.c\<close>: registering and releasing user-defined functions, the metadata of
  the columns, backup and restore, and the progress handler.
\<close>

section \<open>Registration\<close>

definition new_udf :: "ptr \<Rightarrow> ('q, ptr) jm" where
  "new_udf func = do {
     udf \<leftarrow> read fresh;
     update (\<lambda>s. s\<lparr>fresh := udf + 1\<rparr>);
     func \<leftarrow> NewGlobalRef func;
     nxt \<leftarrow> read udfdatalist;
     update (\<lambda>s. s\<lparr>udfs := (udfs s)(udf \<mapsto> \<lparr>udf_func = func, udf_next = nxt\<rparr>), udfdatalist := udf\<rparr>);
     State_Monad.return udf
   }"

text \<open>Passing the name, the entry \<open>udf\<close> and the callbacks to SQLite: \<open>xStep\<close>, \<open>xFinal\<close>, \<open>xValue\<close>,
  \<open>xInverse\<close> and no destructor, or \<open>xFunc\<close>, no \<open>xStep\<close> and no \<open>xFinal\<close>.  A flag says whether the
  callback is there or NULL.\<close>

definition register_udf :: "'q jparams \<Rightarrow> bool \<Rightarrow> bool \<Rightarrow> ptr \<Rightarrow> bytes option \<Rightarrow> int \<Rightarrow> ('q, int) jm" where
  "register_udf J isAgg isWindow udf name flags = do {
     (name_bytes, _) \<leftarrow> utf8JavaByteArrayToUtf8Bytes name;
     if name_bytes = 0 then do { throwex_outofmemory; State_Monad.return 0 }
     else do {
       b \<leftarrow> read (buf name_bytes);
       ret \<leftarrow> do {
         db \<leftarrow> gethandle;
         if isAgg then
           ask (a_int J) (Call ''sqlite3_create_window_function''
             [Ptr db, Bytes b, Num (-1), Num (SQLITE_UTF16 OR flags), Ptr udf,
              Flag True, Flag True, Flag isWindow, Flag isWindow, Ptr 0])
         else
           ask (a_int J) (Call ''sqlite3_create_function''
             [Ptr db, Bytes b, Num (-1), Num (SQLITE_UTF16 OR flags), Ptr udf, Flag True, Flag False, Flag False])
       };
       freeUtf8Bytes name_bytes;
       State_Monad.return ret
     }
   }"

definition create_function_utf8 :: "'q jparams \<Rightarrow> bytes option \<Rightarrow> ptr \<Rightarrow> int \<Rightarrow> ('q, int) jm" where
  "create_function_utf8 J name func flags = do {
     ok \<leftarrow> alloc_ok;
     if \<not> ok then do { throwex_outofmemory; State_Monad.return 0 }
     else do {
       let isAgg = j_isAggregate J func;
       let isWindow = j_isWindow J func;
       udf \<leftarrow> new_udf func;
       register_udf J isAgg isWindow udf name flags
     }
   }"

definition destroy_function_utf8 :: "'q jparams \<Rightarrow> bytes option \<Rightarrow> ('q, int) jm" where
  "destroy_function_utf8 J name = do {
     (name_bytes, _) \<leftarrow> utf8JavaByteArrayToUtf8Bytes name;
     if name_bytes = 0 then do { throwex_outofmemory; State_Monad.return 0 }
     else do {
       b \<leftarrow> read (buf name_bytes);
       ret \<leftarrow> do {
         db \<leftarrow> gethandle;
         ask (a_int J) (Call ''sqlite3_create_function''
           [Ptr db, Bytes b, Num (-1), Num SQLITE_UTF16, Ptr 0, Flag False, Flag False, Flag False])
       };
       freeUtf8Bytes name_bytes;
       State_Monad.return ret
     }
   }"

text \<open>The loop of \<open>free_functions\<close>; the result is \<open>None\<close> when the fuel is exhausted or an entry
  is read that is not allocated.\<close>

fun free_udfs :: "nat \<Rightarrow> ptr \<Rightarrow> ('q, unit option) jm" where
  "free_udfs 0 udf = State_Monad.return None"
| "free_udfs (Suc n) udf =
     (if udf = 0 then State_Monad.return (Some ())
      else do {
        u \<leftarrow> read (\<lambda>s. udfs s udf);
        case u of
          None \<Rightarrow> State_Monad.return None
        | Some u \<Rightarrow> do {
            let udfpass = udf_next u;
            DeleteGlobalRef (udf_func u);
            update (\<lambda>s. s\<lparr>udfs := (udfs s)(udf := None)\<rparr>);
            free_udfs n udfpass
          }
      })"

definition free_functions :: "nat \<Rightarrow> ('q, unit option) jm" where
  "free_functions n = do {
     udf \<leftarrow> read udfdatalist;
     update (\<lambda>s. s\<lparr>udfdatalist := 0\<rparr>);
     free_udfs n udf
   }"

section \<open>Metadata\<close>

definition jboolean :: "int \<Rightarrow> u8" where
  "jboolean n = word_of_int n"

text \<open>The flags of column \<open>i\<close>; they stay 0 when SQLite has no name for it.\<close>

definition column_flags :: "'q jparams \<Rightarrow> ptr \<Rightarrow> ptr \<Rightarrow> int \<Rightarrow> ('q, bytes) jm" where
  "column_flags J db dbstmt i = do {
     zColumnName \<leftarrow> ask (a_bytes J) (Call ''sqlite3_column_name'' [Ptr dbstmt, Num i]);
     zTableName \<leftarrow> ask (a_bytes J) (Call ''sqlite3_column_table_name'' [Ptr dbstmt, Num i]);
     (pNotNull, pPrimaryKey, pAutoinc) \<leftarrow>
       (case (zTableName, zColumnName) of
          (Some t, Some c) \<Rightarrow> ask (a_flags J) (Call ''sqlite3_table_column_metadata''
             [Ptr db, Ptr 0, Bytes t, Bytes c, Ptr 0, Ptr 0])
        | _ \<Rightarrow> State_Monad.return (0, 0, 0));
     State_Monad.return [jboolean pNotNull, jboolean pPrimaryKey, jboolean pAutoinc]
   }"

text \<open>The loop over the columns, \<open>n\<close> of them being left; \<open>None\<close> is the return on a failed
  allocation, which does not release \<open>colDataRaw\<close>.\<close>

fun metadata_loop :: "'q jparams \<Rightarrow> ptr \<Rightarrow> ptr \<Rightarrow> ptr \<Rightarrow> nat \<Rightarrow> nat \<Rightarrow> bytes option list \<Rightarrow>
    ('q, bytes option list option) jm" where
  "metadata_loop J db dbstmt colDataRaw 0 i arr = State_Monad.return (Some arr)"
| "metadata_loop J db dbstmt colDataRaw (Suc n) i arr = do {
     fl \<leftarrow> column_flags J db dbstmt (int i);
     update (\<lambda>s. s\<lparr>bufs := (bufs s)(colDataRaw \<mapsto> fl)\<rparr>);
     ok \<leftarrow> alloc_ok;
     if \<not> ok then do { throwex_outofmemory; State_Monad.return None }
     else do {
       colData \<leftarrow> read (buf colDataRaw);
       metadata_loop J db dbstmt colDataRaw n (i + 1) (arr[i := Some colData])
     }
   }"

definition column_metadata :: "'q jparams \<Rightarrow> ptr \<Rightarrow> ('q, bytes option list option) jm" where
  "column_metadata J stmt = with_db None (\<lambda>db. with_stmt None stmt (do {
     colCount \<leftarrow> ask (a_int J) (Call ''sqlite3_column_count'' [Ptr stmt]);
     ok \<leftarrow> alloc_ok;
     if \<not> ok then do { throwex_outofmemory; State_Monad.return None }
     else do {
       ok \<leftarrow> alloc_ok;
       if \<not> ok then do { throwex_outofmemory; State_Monad.return None }
       else do {
         colDataRaw \<leftarrow> read fresh;
         update (\<lambda>s. s\<lparr>fresh := colDataRaw + 1, bufs := (bufs s)(colDataRaw \<mapsto> [0, 0, 0])\<rparr>);
         r \<leftarrow> metadata_loop J db stmt colDataRaw (nat colCount) 0 (replicate (nat colCount) None);
         (case r of
            None \<Rightarrow> State_Monad.return None
          | Some arr \<Rightarrow> do {
              freeUtf8Bytes colDataRaw;
              State_Monad.return (Some arr)
            })
       }
     }
   }))"

section \<open>Backup and restore\<close>

definition reportProgress :: "'q jparams \<Rightarrow> ptr \<Rightarrow> int \<Rightarrow> int \<Rightarrow> ('q, unit) jm" where
  "reportProgress J func remaining pageCount =
     (if func = 0 then State_Monad.return ()
      else do { _ \<leftarrow> java J (m_report remaining pageCount) func; State_Monad.return () })"

definition backup_step :: "'q jparams \<Rightarrow> ptr \<Rightarrow> ('q, int) jm" where
  "backup_step J pBackup = ask (a_int J) (Call ''sqlite3_backup_step'' [Ptr pBackup, Num 100])"

text \<open>The loops; \<open>None\<close> means that the fuel does not suffice.\<close>

fun backup_loop :: "'q jparams \<Rightarrow> nat \<Rightarrow> ptr \<Rightarrow> ('q, int option) jm" where
  "backup_loop J 0 pBackup = State_Monad.return None"
| "backup_loop J (Suc n) pBackup = do {
     rc \<leftarrow> backup_step J pBackup;
     if rc = SQLITE_OK then backup_loop J n pBackup else State_Monad.return (Some rc)
   }"

fun restore_loop :: "'q jparams \<Rightarrow> nat \<Rightarrow> ptr \<Rightarrow> nat \<Rightarrow> ('q, int option) jm" where
  "restore_loop J 0 pBackup nTimeout = State_Monad.return None"
| "restore_loop J (Suc n) pBackup nTimeout = do {
     rc \<leftarrow> backup_step J pBackup;
     if rc = SQLITE_OK then restore_loop J n pBackup nTimeout
     else if rc = SQLITE_BUSY then
       (if nTimeout \<ge> 3 then State_Monad.return (Some rc)
        else do {
          tell J ''sqlite3_sleep'' [Num 100];
          restore_loop J n pBackup (nTimeout + 1)
        })
     else State_Monad.return (Some rc)
   }"

text \<open>What \<open>backup\<close> and \<open>restore\<close> share.  First the transfer: the second connection is opened,
  then the backup object; when it is obtained the loop runs and the object is released; the
  result is the error code of the second connection.\<close>

definition transfer :: "'q jparams \<Rightarrow> (ptr \<Rightarrow> call) \<Rightarrow> (ptr \<Rightarrow> ('q, int option) jm) \<Rightarrow> bytes \<Rightarrow>
    ('q, int option \<times> ptr) jm" where
  "transfer J backup_init loop fname = do {
     (rc, pFile) \<leftarrow> ask_open J (Call ''sqlite3_open'' [Bytes fname]);
     if rc \<noteq> SQLITE_OK then State_Monad.return (Some rc, pFile)
     else do {
       pBackup \<leftarrow> ask (a_ptr J) (backup_init pFile);
       r \<leftarrow> (if pBackup \<noteq> 0 then do {
          r \<leftarrow> loop pBackup;
          (if r = None then State_Monad.return ()
           else tell J ''sqlite3_backup_finish'' [Ptr pBackup]);
          State_Monad.return r
        } else State_Monad.return (Some rc));
       if r = None then State_Monad.return (None, pFile)
       else do {
         rc \<leftarrow> ask (a_int J) (Call ''sqlite3_errcode'' [Ptr pFile]);
         State_Monad.return (Some rc, pFile)
       }
     }
   }"

text \<open>Then the frame: the two strings before it, the close of the second connection and the
  release of the strings after it.\<close>

definition with_pFile :: "'q jparams \<Rightarrow> bytes option \<Rightarrow> bytes option \<Rightarrow>
    (ptr \<Rightarrow> bytes \<Rightarrow> ptr \<Rightarrow> call) \<Rightarrow> (ptr \<Rightarrow> ('q, int option) jm) \<Rightarrow> ('q, int option) jm" where
  "with_pFile J zDBName zFilename backup_init loop = with_db (Some SQLITE_MISUSE) (\<lambda>pDb. do {
     (dFileName, _) \<leftarrow> utf8JavaByteArrayToUtf8Bytes zFilename;
     if dFileName = 0 then State_Monad.return (Some SQLITE_NOMEM)
     else do {
       (dDBName, _) \<leftarrow> utf8JavaByteArrayToUtf8Bytes zDBName;
       if dDBName = 0 then do {
         freeUtf8Bytes dFileName;
         State_Monad.return (Some SQLITE_NOMEM)
       } else do {
         fname \<leftarrow> read (buf dFileName);
         dname \<leftarrow> read (buf dDBName);
         (rc, pFile) \<leftarrow> transfer J (backup_init pDb dname) loop fname;
         if rc = None then State_Monad.return None
         else do {
           tell J ''sqlite3_close'' [Ptr pFile];
           freeUtf8Bytes dDBName;
           freeUtf8Bytes dFileName;
           State_Monad.return rc
         }
       }
     }
   })"

definition main_db :: bytes where
  "main_db = ascii ''main'' @ [0]"

definition backup :: "'q jparams \<Rightarrow> nat \<Rightarrow> bytes option \<Rightarrow> bytes option \<Rightarrow> ptr \<Rightarrow> ('q, int option) jm" where
  "backup J n zDBName zFilename observer = with_pFile J zDBName zFilename
     (\<lambda>pDb dDBName pFile. Call ''sqlite3_backup_init'' [Ptr pFile, Bytes main_db, Ptr pDb, Bytes dDBName])
     (\<lambda>pBackup. backup_loop J n pBackup)"

definition restore :: "'q jparams \<Rightarrow> nat \<Rightarrow> bytes option \<Rightarrow> bytes option \<Rightarrow> ptr \<Rightarrow> ('q, int option) jm" where
  "restore J n zDBName zFilename observer = with_pFile J zDBName zFilename
     (\<lambda>pDb dDBName pFile. Call ''sqlite3_backup_init'' [Ptr pDb, Bytes dDBName, Ptr pFile, Bytes main_db])
     (\<lambda>pBackup. restore_loop J n pBackup 0)"

section \<open>Progress handler\<close>

definition progress_handler_function :: "'q jparams \<Rightarrow> ('q, int) jm" where
  "progress_handler_function J = do { ob \<leftarrow> read phandler; java J m_progress ob }"

definition register_progress_handler :: "'q jparams \<Rightarrow> int \<Rightarrow> ptr \<Rightarrow> ('q, unit) jm" where
  "register_progress_handler J vmCalls progressHandler = do {
     ob \<leftarrow> NewGlobalRef progressHandler;
     update (\<lambda>s. s\<lparr>phandler := ob\<rparr>);
     db \<leftarrow> gethandle;
     tell J ''sqlite3_progress_handler'' [Ptr db, Num vmCalls, Flag True, Ptr 0]
   }"

definition clear_progress_handler :: "'q jparams \<Rightarrow> ('q, unit) jm" where
  "clear_progress_handler J = do {
     db \<leftarrow> gethandle;
     tell J ''sqlite3_progress_handler'' [Ptr db, Num 0, Flag False, Ptr 0];
     ob \<leftarrow> read phandler;
     DeleteGlobalRef ob
   }"

end
