(* ===== verification/NativeCalls.thy ===== *)
theory NativeCalls
  imports NativeCompound
begin

text \<open>
  The native methods as a table, the methods that test their handle as two more, and what
  every call keeps.  The tables are inductive predicates over the methods with all their
  arguments; a method stands there with its result as a Java value.
\<close>

section \<open>Running the elementary actions\<close>

named_theorems run \<comment> \<open>what an elementary action does to the state\<close>

lemma run_ask [run]: "run_state (ask f c) s =
    (fst (f c (eng s)), s\<lparr>eng := snd (f c (eng s)), calls := c # calls s\<rparr>)"
  by (simp add: ask_def split_beta)

lemma run_ask_open [run]: "run_state (ask_open J c) s =
    ((fst (a_open J c (eng s)), fst (snd (a_open J c (eng s)))),
     s\<lparr>eng := snd (snd (a_open J c (eng s))), calls := c # calls s\<rparr>)"
  by (simp add: ask_open_def split_beta)

lemma run_tell [run]: "run_state (tell J f as) s =
    ((), s\<lparr>eng := snd (a_int J (Call f as) (eng s)), calls := Call f as # calls s\<rparr>)"
  by (simp add: tell_def run_ask)

lemma run_read [run]: "run_state (read f) s = (f s, s)"
  by (simp add: read_def)

lemma run_update [run]: "run_state (update f) s = ((), f s)"
  by (simp add: update_def)

lemma run_throw [run]: "run_state (throw e) s = ((), s\<lparr>exns := e # exns s\<rparr>)"
  by (simp add: throw_def run)

lemmas throw_defs = throwex_def throwex_errorcode_def throwex_msg_def throwex_outofmemory_def
  throwex_stmt_finalized_def throwex_db_closed_def

lemma run_gethandle [run]: "run_state gethandle s = (pointer s, s)"
  by (simp add: gethandle_def run)

lemma run_sethandle [run]: "run_state (sethandle p) s = ((), s\<lparr>pointer := p\<rparr>)"
  by (simp add: sethandle_def run)

lemma run_free [run]: "run_state (freeUtf8Bytes p) s =
    ((), if p = 0 then s else s\<lparr>bufs := (bufs s)(p := None)\<rparr>)"
  by (simp add: freeUtf8Bytes_def run)

lemma run_NewGlobalRef [run]: "run_state (NewGlobalRef ob) s =
    (ob, if ob = 0 then s else s\<lparr>grefs := (grefs s)(ob := grefs s ob + 1)\<rparr>)"
  by (simp add: NewGlobalRef_def run)

lemma run_DeleteGlobalRef [run]: "run_state (DeleteGlobalRef ob) s =
    ((), if ob = 0 then s else s\<lparr>grefs := (grefs s)(ob := grefs s ob - 1)\<rparr>)"
  by (simp add: DeleteGlobalRef_def run)

lemma run_with_db [run]: "run_state (with_db d f) s =
    (if pointer s = 0 then (d, s\<lparr>exns := E_message ''The database has been closed'' # exns s\<rparr>)
     else run_state (f (pointer s)) s)"
  by (simp add: with_db_def run throw_defs)

lemma run_with_stmt [run]: "run_state (with_stmt d stmt f) s =
    (if stmt = 0 then (d, s\<lparr>exns := E_message ''The prepared statement has been finalized'' # exns s\<rparr>)
     else run_state f s)"
  by (simp add: with_stmt_def run throw_defs)

definition next_alloc :: "bool list \<Rightarrow> bool" where
  "next_alloc m = (case m of [] \<Rightarrow> True | b # _ \<Rightarrow> b)"

lemma next_alloc_simps [simp]: "next_alloc []" "next_alloc (b # m) = b"
  by (simp_all add: next_alloc_def)

lemma run_alloc_ok [run]: "run_state alloc_ok s = (next_alloc (mem s), s\<lparr>mem := tl (mem s)\<rparr>)"
  by (simp add: alloc_ok_def split: list.split)

section \<open>The table\<close>

datatype jvalue = V_unit | V_int int | V_ptr ptr | V_bytes "bytes option" | V_double u64
  | V_metadata "bytes option list option" | V_fault

definition as_unit :: "('q, unit) jm \<Rightarrow> ('q, jvalue) jm" where
  "as_unit m = do { _ \<leftarrow> m; State_Monad.return V_unit }"
definition as_int :: "('q, int) jm \<Rightarrow> ('q, jvalue) jm" where
  "as_int m = do { r \<leftarrow> m; State_Monad.return (V_int r) }"
definition as_ptr :: "('q, ptr) jm \<Rightarrow> ('q, jvalue) jm" where
  "as_ptr m = do { r \<leftarrow> m; State_Monad.return (V_ptr r) }"
definition as_bytes :: "('q, bytes option) jm \<Rightarrow> ('q, jvalue) jm" where
  "as_bytes m = do { r \<leftarrow> m; State_Monad.return (V_bytes r) }"
definition as_double :: "('q, u64) jm \<Rightarrow> ('q, jvalue) jm" where
  "as_double m = do { r \<leftarrow> m; State_Monad.return (V_double r) }"
definition as_metadata :: "('q, bytes option list option) jm \<Rightarrow> ('q, jvalue) jm" where
  "as_metadata m = do { r \<leftarrow> m; State_Monad.return (V_metadata r) }"

lemmas as_defs = as_unit_def as_int_def as_ptr_def as_bytes_def as_double_def as_metadata_def

text \<open>The methods that need a connection, with the value of a refused call.\<close>

inductive db_method :: "'q jparams \<Rightarrow> ('q, jvalue) jm \<Rightarrow> jvalue \<Rightarrow> bool" for J where
  "db_method J (as_int (enable_load_extension J b)) (V_int 21)"
| "db_method J (as_unit (interrupt J)) V_unit"
| "db_method J (as_unit (busy_timeout J ms)) V_unit"
| "db_method J (as_ptr (prepare_utf8 J sql)) (V_ptr 0)"
| "db_method J (as_bytes (errmsg_utf8 J)) (V_bytes None)"
| "db_method J (as_int (changes J)) (V_int 0)"
| "db_method J (as_int (total_changes J)) (V_int 0)"
| "db_method J (as_bytes (column_text_utf8 J stmt col)) (V_bytes None)"
| "db_method J (as_bytes (column_blob J stmt col)) (V_bytes None)"
| "db_method J (as_metadata (column_metadata J stmt)) (V_metadata None)"

text \<open>The methods that need a statement.\<close>

inductive stmt_method :: "'q jparams \<Rightarrow> ptr \<Rightarrow> ('q, jvalue) jm \<Rightarrow> jvalue \<Rightarrow> bool" for J stmt where
  "stmt_method J stmt (as_int (finalize J stmt)) (V_int 21)"
| "stmt_method J stmt (as_int (step J stmt)) (V_int 21)"
| "stmt_method J stmt (as_int (reset J stmt)) (V_int 21)"
| "stmt_method J stmt (as_int (clear_bindings J stmt)) (V_int 21)"
| "stmt_method J stmt (as_int (bind_parameter_count J stmt)) (V_int 21)"
| "stmt_method J stmt (as_int (column_count J stmt)) (V_int 21)"
| "stmt_method J stmt (as_int (column_type J stmt col)) (V_int 21)"
| "stmt_method J stmt (as_bytes (column_decltype_utf8 J stmt col)) (V_bytes None)"
| "stmt_method J stmt (as_bytes (column_table_name_utf8 J stmt col)) (V_bytes None)"
| "stmt_method J stmt (as_bytes (column_name_utf8 J stmt col)) (V_bytes None)"
| "stmt_method J stmt (as_bytes (column_text_utf8 J stmt col)) (V_bytes None)"
| "stmt_method J stmt (as_bytes (column_blob J stmt col)) (V_bytes None)"
| "stmt_method J stmt (as_double (column_double J stmt col)) (V_double 0)"
| "stmt_method J stmt (as_int (column_long J stmt col)) (V_int 0)"
| "stmt_method J stmt (as_int (column_int J stmt col)) (V_int 0)"
| "stmt_method J stmt (as_int (bind_null J stmt pos)) (V_int 21)"
| "stmt_method J stmt (as_int (bind_int J stmt pos v)) (V_int 21)"
| "stmt_method J stmt (as_int (bind_long J stmt pos v)) (V_int 21)"
| "stmt_method J stmt (as_int (bind_double J stmt pos d)) (V_int 21)"
| "stmt_method J stmt (as_int (bind_text_utf8 J stmt pos t)) (V_int 21)"
| "stmt_method J stmt (as_int (bind_blob J stmt pos blob)) (V_int 21)"
| "stmt_method J stmt (as_metadata (column_metadata J stmt)) (V_metadata None)"

text \<open>The methods that give a result or read an argument inside a user-defined function.\<close>

inductive udf_method :: "'q jparams \<Rightarrow> ('q, jvalue) jm \<Rightarrow> bool" for J where
  "udf_method J (as_unit (result_null J context))"
| "udf_method J (as_unit (result_text_utf8 J context v))"
| "udf_method J (as_unit (result_blob J context v))"
| "udf_method J (as_unit (result_double J context d))"
| "udf_method J (as_unit (result_long J context n))"
| "udf_method J (as_unit (result_int J context n))"
| "udf_method J (as_unit (result_error_utf8 J context v))"
| "udf_method J (as_bytes (value_text_utf8 J f arg))"
| "udf_method J (as_bytes (value_blob J f arg))"
| "udf_method J (as_double (value_double J f arg))"
| "udf_method J (as_int (value_long J f arg))"
| "udf_method J (as_int (value_int J f arg))"

lemmas db_defs = enable_load_extension_def interrupt_def busy_timeout_def prepare_utf8_def
  errmsg_utf8_def changes_def total_changes_def column_text_utf8_def column_blob_def
  column_metadata_def

lemmas stmt_defs = finalize_def step_def reset_def clear_bindings_def bind_parameter_count_def
  column_count_def column_type_def column_decltype_utf8_def column_table_name_utf8_def
  column_name_utf8_def column_double_def column_long_def column_int_def bind_null_def
  bind_int_def bind_long_def bind_double_def bind_text_utf8_def bind_blob_def

lemmas udf_defs = result_null_def result_text_utf8_def result_blob_def result_double_def
  result_long_def result_int_def result_error_utf8_def value_text_utf8_def value_blob_def
  value_double_def value_long_def value_int_def

text \<open>A method that needs a connection, called on a closed one, throws exactly one exception,
  returns its documented default and changes nothing else.\<close>

theorem closed_db_guard:
  assumes "db_method J m d" and "pointer s = 0"
  shows "run_state m s = (d, s\<lparr>exns := E_message ''The database has been closed'' # exns s\<rparr>)"
  using assms by cases (simp_all add: db_defs as_defs run)

text \<open>A method that needs a statement, called with a finalized one, throws exactly one exception,
  returns its default and changes nothing else.\<close>

theorem finalized_stmt_guard:
  assumes "stmt_method J stmt m d" and "stmt = 0" and "pointer s \<noteq> 0"
  shows "run_state m s =
    (d, s\<lparr>exns := E_message ''The prepared statement has been finalized'' # exns s\<rparr>)"
  using assms by cases (simp_all add: db_defs stmt_defs as_defs run)

section \<open>What every call keeps\<close>

text \<open>A relation between the states before and after, reflexive and transitive, that the
  elementary actions of a method respect is respected by the method.\<close>

locale frame_rel =
  fixes R :: "'q jni \<Rightarrow> 'q jni \<Rightarrow> bool"
  assumes refl: "R s s"
    and trans: "R s t \<Longrightarrow> R t u \<Longrightarrow> R s u"
    and frame_exns: "R s (s\<lparr>exns := e\<rparr>)"
    and frame_mem: "R s (s\<lparr>mem := m\<rparr>)"
begin

definition keeps :: "('q, 'a) jm \<Rightarrow> bool" where
  "keeps m \<longleftrightarrow> (\<forall>s. R s (snd (run_state m s)))"

lemma keepsD: "keeps m \<Longrightarrow> R s (snd (run_state m s))"
  by (simp add: keeps_def)

lemma keeps_run: "keeps m \<Longrightarrow> run_state m s = (r, s') \<Longrightarrow> R s s'"
  by (metis keeps_def snd_conv)

lemma keeps_return: "keeps (State_Monad.return x)"
  by (simp add: keeps_def refl)

lemma keeps_bind: "keeps m \<Longrightarrow> (\<And>x. keeps (f x)) \<Longrightarrow> keeps (State_Monad.bind m f)"
  by (auto simp: keeps_def split_beta intro: trans)

lemma keeps_if: "(c \<Longrightarrow> keeps m) \<Longrightarrow> (\<not> c \<Longrightarrow> keeps n) \<Longrightarrow> keeps (if c then m else n)"
  by simp

lemma keeps_prod: "(\<And>a b. x = (a, b) \<Longrightarrow> keeps (f a b)) \<Longrightarrow> keeps (case x of (a, b) \<Rightarrow> f a b)"
  by (cases x) simp

lemma keeps_option:
  "(x = None \<Longrightarrow> keeps m) \<Longrightarrow> (\<And>a. x = Some a \<Longrightarrow> keeps (f a)) \<Longrightarrow>
   keeps (case x of None \<Rightarrow> m | Some a \<Rightarrow> f a)"
  by (cases x) simp_all

lemma keeps_read: "keeps (read f)"
  by (simp add: keeps_def run refl)

lemma keeps_gethandle: "keeps gethandle"
  by (simp add: gethandle_def keeps_read)

lemma keeps_throw: "keeps (throw e)"
  by (simp add: keeps_def run frame_exns)

lemma keeps_alloc_ok: "keeps alloc_ok"
  by (simp add: keeps_def run frame_mem)

lemma keeps_with_db: "(\<And>db. db \<noteq> 0 \<Longrightarrow> keeps (f db)) \<Longrightarrow> keeps (with_db d f)"
  by (simp add: keeps_def run frame_exns)

lemma keeps_with_stmt: "(stmt \<noteq> 0 \<Longrightarrow> keeps m) \<Longrightarrow> keeps (with_stmt d stmt m)"
  by (simp add: keeps_def run frame_exns)

lemma keeps_with_context: "(context \<noteq> 0 \<Longrightarrow> keeps m) \<Longrightarrow> keeps (with_context context m)"
  by (simp add: keeps_def with_context_def refl)

lemma keeps_throws:
  "keeps throwex" "keeps (throwex_errorcode e)" "keeps (throwex_msg str)"
  "keeps throwex_outofmemory" "keeps throwex_stmt_finalized" "keeps throwex_db_closed"
  by (simp_all add: throw_defs keeps_throw)

lemma keeps_to_java: "keeps (utf8BytesToJavaByteArray b n)"
  unfolding utf8BytesToJavaByteArray_def
  by (intro keeps_option keeps_return keeps_bind keeps_alloc_ok keeps_if keeps_throws)

lemma keeps_c_string: "keeps (c_string_result str)"
  unfolding c_string_result_def by (intro keeps_option keeps_return keeps_to_java)

lemmas keeps_rules = keeps_return keeps_bind keeps_if keeps_prod keeps_option keeps_read
  keeps_gethandle keeps_throw keeps_alloc_ok keeps_with_db keeps_with_stmt keeps_with_context
  keeps_throws keeps_to_java keeps_c_string

end

subsection \<open>The handles passed to SQLite\<close>

text \<open>The arguments that SQLite does not accept as NULL: the connection, statement, context, value or
  backup object that comes first, and both connections of a backup.  The other pointers are callbacks,
  user data and outputs, which may be NULL, and so may the connection to be closed.\<close>

fun handles :: "call \<Rightarrow> ptr list" where
  "handles (Call f as) =
     (if f = ''sqlite3_close'' then []
      else if f = ''sqlite3_backup_init'' then (case as of [Ptr d, Bytes _, Ptr q, Bytes _] \<Rightarrow> [d, q] | _ \<Rightarrow> [0])
      else (case as of Ptr p # _ \<Rightarrow> [p] | _ \<Rightarrow> []))"

definition handle_ok :: "call \<Rightarrow> bool" where
  "handle_ok c \<longleftrightarrow> 0 \<notin> set (handles c)"

definition good_calls :: "'q jni \<Rightarrow> 'q jni \<Rightarrow> bool" where
  "good_calls s s' \<longleftrightarrow> (\<exists>cs. calls s' = cs @ calls s \<and> list_all handle_ok cs)"

lemma good_calls_same: "calls s' = calls s \<Longrightarrow> good_calls s s'"
  by (simp add: good_calls_def)

lemma good_calls_Cons: "calls s' = c # calls s \<Longrightarrow> handle_ok c \<Longrightarrow> good_calls s s'"
  unfolding good_calls_def by (intro exI [of _ "[c]"]) simp

lemma good_calls_trans: "good_calls s t \<Longrightarrow> good_calls t u \<Longrightarrow> good_calls s u"
  by (auto simp: good_calls_def)

interpretation trace: frame_rel good_calls
  by unfold_locales (auto simp: good_calls_same intro: good_calls_trans)

lemma trace_ask: "handle_ok c \<Longrightarrow> trace.keeps (ask f c)"
  by (rule trace.keeps_def [THEN iffD2], intro allI, rule good_calls_Cons [of _ c]) (simp_all add: run)

lemma trace_ask_open: "handle_ok c \<Longrightarrow> trace.keeps (ask_open J c)"
  by (rule trace.keeps_def [THEN iffD2], intro allI, rule good_calls_Cons [of _ c]) (simp_all add: run)

lemma trace_tell: "handle_ok (Call f as) \<Longrightarrow> trace.keeps (tell J f as)"
  unfolding tell_def by (intro trace.keeps_rules trace_ask)

lemma trace_update: "(\<And>s. calls (f s) = calls s) \<Longrightarrow> trace.keeps (update f)"
  by (simp add: trace.keeps_def run good_calls_same)

lemma trace_bytes: "trace.keeps (utf8JavaByteArrayToUtf8Bytes b)" "trace.keeps (freeUtf8Bytes p)"
  "trace.keeps (NewGlobalRef ob)"
  unfolding utf8JavaByteArrayToUtf8Bytes_def freeUtf8Bytes_def NewGlobalRef_def
  by (intro trace.keeps_rules trace_update, simp)+

lemma trace_value: "(\<And>v. v \<noteq> 0 \<Longrightarrow> trace.keeps (f v)) \<Longrightarrow> trace.keeps (with_value J d func arg f)"
  unfolding with_value_def tovalue_def
  by (intro trace.keeps_rules trace_ask) (simp_all add: handle_ok_def)

lemma trace_nomem: "db \<noteq> 0 \<Longrightarrow> trace.keeps (null_means_nomem J db b)"
  unfolding null_means_nomem_def by (intro trace.keeps_rules trace_ask) (simp add: handle_ok_def)

lemma trace_metadata_loop:
  "db \<noteq> 0 \<Longrightarrow> dbstmt \<noteq> 0 \<Longrightarrow> trace.keeps (metadata_loop J db dbstmt raw n i arr)"
proof (induction n arbitrary: i arr)
  case (Suc n)
  show ?case unfolding metadata_loop.simps column_flags_def
    using Suc by (intro trace.keeps_rules trace_ask trace_update) (simp_all add: handle_ok_def)
qed (simp add: trace.keeps_return)

lemmas trace_rules = trace.keeps_rules trace_ask trace_ask_open trace_tell trace_update trace_bytes
  trace_value trace_nomem trace_metadata_loop

text \<open>The methods that work on handles which Java holds.\<close>

inductive api_method :: "'q jparams \<Rightarrow> ('q, jvalue) jm \<Rightarrow> bool" for J where
  "db_method J m d \<Longrightarrow> api_method J m"
| "stmt_method J stmt m d \<Longrightarrow> api_method J m"
| "udf_method J m \<Longrightarrow> api_method J m"
| "api_method J (as_int (shared_cache J b))"
| "api_method J (as_unit (close_db J))"
| "api_method J (as_unit (busy_handler J ob))"
| "api_method J (as_int (exec_utf8 J sql))"
| "api_method J (as_bytes (libversion_utf8 J))"

lemma trace_db_method: "db_method J m d \<Longrightarrow> trace.keeps m"
  by (erule db_method.cases; simp only: db_defs as_defs; intro trace_rules; simp add: handle_ok_def)

lemma trace_stmt_method: "stmt_method J stmt m d \<Longrightarrow> trace.keeps m"
  by (erule stmt_method.cases; simp only: db_defs stmt_defs as_defs; intro trace_rules; simp add: handle_ok_def)

lemma trace_udf_method: "udf_method J m \<Longrightarrow> trace.keeps m"
  by (erule udf_method.cases; simp only: udf_defs as_defs; intro trace_rules; simp add: handle_ok_def)

lemma trace_other:
  "trace.keeps (as_int (shared_cache J b))" "trace.keeps (as_unit (close_db J))"
  "trace.keeps (as_unit (busy_handler J ob))" "trace.keeps (as_int (exec_utf8 J sql))"
  "trace.keeps (as_bytes (libversion_utf8 J))"
  unfolding as_defs shared_cache_def close_db_def busy_handler_def exec_utf8_def
    libversion_utf8_def sethandle_def
  by (intro trace_rules; simp add: handle_ok_def)+

lemma trace_api_method: "api_method J m \<Longrightarrow> trace.keeps m"
  by (erule api_method.cases)
    (auto intro: trace_db_method trace_stmt_method trace_udf_method trace_other)

end
