(* ===== verification/NativeHeap.thy ===== *)
theory NativeHeap
  imports NativeCalls
begin

text \<open>
  The memory that the layer allocates: every buffer of a call is released before the call
  returns, and the list that starts at \<open>udfdatalist\<close> holds exactly the allocated entries, so
  that \<open>free_functions\<close> releases all of them.
\<close>

section \<open>Buffers\<close>

definition heap_ok :: "'q jni \<Rightarrow> bool" where
  "heap_ok s \<longleftrightarrow> 0 < fresh s \<and> (\<forall>p. bufs s p \<noteq> None \<or> udfs s p \<noteq> None \<longrightarrow> 0 < p \<and> p < fresh s)"

definition quiet :: "'q jni \<Rightarrow> 'q jni \<Rightarrow> bool" where
  "quiet s s' \<longleftrightarrow> (heap_ok s \<longrightarrow> heap_ok s' \<and> bufs s' = bufs s \<and> udfs s' = udfs s
     \<and> udfdatalist s' = udfdatalist s)"

lemma quietD: "quiet s s' \<Longrightarrow> heap_ok s \<Longrightarrow> heap_ok s' \<and> bufs s' = bufs s \<and> udfs s' = udfs s
    \<and> udfdatalist s' = udfdatalist s"
  by (simp add: quiet_def)

lemma quiet_same: "bufs s' = bufs s \<Longrightarrow> udfs s' = udfs s \<Longrightarrow> fresh s' = fresh s \<Longrightarrow>
    udfdatalist s' = udfdatalist s \<Longrightarrow> quiet s s'"
  by (simp add: quiet_def heap_ok_def)

interpretation heap: frame_rel quiet
proof unfold_locales
  show "quiet s t \<Longrightarrow> quiet t u \<Longrightarrow> quiet s u" for s t u :: "'a jni"
    unfolding quiet_def by (elim impCE; simp)
qed (simp_all add: quiet_same)

lemma heap_ask: "heap.keeps (ask f c)"
  by (simp add: heap.keeps_def run quiet_same)

lemma heap_ask_open: "heap.keeps (ask_open J c)"
  by (simp add: heap.keeps_def run quiet_same)

lemma heap_tell: "heap.keeps (tell J f as)"
  by (simp add: heap.keeps_def run quiet_same)

lemma heap_global: "heap.keeps (NewGlobalRef ob)" "heap.keeps (DeleteGlobalRef ob)"
  by (simp_all add: heap.keeps_def run quiet_same)

lemma heap_value: "(\<And>v. heap.keeps (f v)) \<Longrightarrow> heap.keeps (with_value J d func arg f)"
  unfolding with_value_def tovalue_def
  by (intro heap.keeps_rules heap_ask) simp_all

lemma heap_nomem: "heap.keeps (null_means_nomem J db b)"
  unfolding null_means_nomem_def by (intro heap.keeps_rules heap_ask)

text \<open>A string from Java: NULL and nothing allocated, or one new buffer with a zero byte at
  its end.\<close>

lemma run_from_java:
  "run_state (utf8JavaByteArrayToUtf8Bytes v) s =
    (case v of
       None \<Rightarrow> ((0, 0), s)
     | Some b \<Rightarrow>
         if next_alloc (mem s) then
           ((fresh s, int (length b)),
            s\<lparr>mem := tl (mem s), fresh := fresh s + 1, bufs := (bufs s)(fresh s \<mapsto> b @ [0])\<rparr>)
         else ((0, 0), s\<lparr>mem := tl (mem s), exns := E_message ''Out of memory'' # exns s\<rparr>))"
  by (simp add: utf8JavaByteArrayToUtf8Bytes_def run throw_defs split: option.split)

lemma heap_ok_alloc: "heap_ok s \<Longrightarrow> heap_ok (s\<lparr>mem := m, fresh := fresh s + 1, bufs := (bufs s)(fresh s \<mapsto> b)\<rparr>)"
  unfolding heap_ok_def by (auto simp: less_Suc_eq)

lemma heap_ok_free: "heap_ok s \<Longrightarrow> heap_ok (s\<lparr>bufs := (bufs s)(p := None)\<rparr>)"
  by (auto simp: heap_ok_def)

lemma heap_ok_fresh: "heap_ok s \<Longrightarrow> bufs s (fresh s) = None \<and> udfs s (fresh s) = None \<and> fresh s \<noteq> 0"
  unfolding heap_ok_def by (metis less_irrefl not_gr_zero)

text \<open>The common form of the methods that pass a string: allocate, pass, release.\<close>

lemma heap_bracket:
  assumes "heap.keeps e" and f: "\<And>b n. heap.keeps (f b n)" and g: "\<And>r. heap.keeps (g r)"
  shows "heap.keeps (State_Monad.bind (utf8JavaByteArrayToUtf8Bytes v) (\<lambda>(p, n).
     if p = 0 then e
     else State_Monad.bind (read (buf p)) (\<lambda>b. State_Monad.bind (f b n)
       (\<lambda>r. State_Monad.bind (freeUtf8Bytes p) (\<lambda>_. g r)))))"
proof -
  have "quiet s (snd (run_state (State_Monad.bind (utf8JavaByteArrayToUtf8Bytes v) (\<lambda>(p, n).
     if p = 0 then e
     else State_Monad.bind (read (buf p)) (\<lambda>b. State_Monad.bind (f b n)
       (\<lambda>r. State_Monad.bind (freeUtf8Bytes p) (\<lambda>_. g r))))) s))" (is "quiet s (snd (run_state ?m s))") for s
  proof (cases "v = None \<or> \<not> next_alloc (mem s)")
    case True
    have "run_state ?m s = run_state e s \<or> run_state ?m s =
        run_state e (s\<lparr>mem := tl (mem s), exns := E_message ''Out of memory'' # exns s\<rparr>)"
      using True by (cases v) (auto simp: run_from_java)
    moreover have "quiet s (snd (run_state e s))" by (rule heap.keepsD [OF \<open>heap.keeps e\<close>])
    moreover have "quiet s (snd (run_state e (s\<lparr>mem := m, exns := x\<rparr>)))" for m x
      by (rule heap.trans [OF _ heap.keepsD [OF \<open>heap.keeps e\<close>]]) (rule quiet_same; simp)
    ultimately show ?thesis by (elim disjE) (simp_all only:)
  next
    case False
    then obtain b where [simp]: "v = Some b" and ok: "next_alloc (mem s)" by auto
    define s1 where "s1 = s\<lparr>mem := tl (mem s), fresh := Suc (fresh s), bufs := (bufs s)(fresh s \<mapsto> b @ [0])\<rparr>"
    obtain r s2 where s2: "run_state (f (buf (fresh s) s1) (int (length b))) s1 = (r, s2)"
      by (cases "run_state (f (buf (fresh s) s1) (int (length b))) s1")
    show ?thesis
    proof (cases "heap_ok s")
      case h: True
      have q2: "quiet s1 s2" using heap.keeps_run [OF f s2] .
      let ?s3 = "s2\<lparr>bufs := (bufs s2)(fresh s := None)\<rparr>"
      have "heap_ok s1" using heap_ok_alloc [OF h] by (simp add: s1_def)
      then have k2: "heap_ok s2 \<and> bufs s2 = bufs s1 \<and> udfs s2 = udfs s1
          \<and> udfdatalist s2 = udfdatalist s1"
        using q2 by (rule quietD [rotated])
      have "quiet s ?s3"
        using k2 h heap_ok_fresh [OF h] heap_ok_free [of s2 "fresh s"]
        by (simp add: quiet_def s1_def fun_upd_idem)
      moreover have "run_state ?m s = run_state (g r) ?s3"
        using ok s2 heap_ok_fresh [OF h] by (simp add: run_from_java run s1_def [symmetric])
      ultimately show ?thesis
        using heap.trans [OF _ heap.keepsD [OF g]] by (simp only:)
    qed (simp add: quiet_def)
  qed
  then show ?thesis by (simp add: heap.keeps_def)
qed

text \<open>The same when SQLite answers with a pointer too, and when nothing follows the release.\<close>

lemma heap_bracket_open:
  assumes "heap.keeps e" and "\<And>b n. heap.keeps (f b n)" and "\<And>r x. heap.keeps (g r x)"
  shows "heap.keeps (State_Monad.bind (utf8JavaByteArrayToUtf8Bytes v) (\<lambda>(p, n).
     if p = 0 then e
     else State_Monad.bind (read (buf p)) (\<lambda>b. State_Monad.bind (f b n)
       (\<lambda>(r, x). State_Monad.bind (freeUtf8Bytes p) (\<lambda>_. g r x)))))"
proof -
  have "(\<lambda>(r, x). State_Monad.bind m (\<lambda>_. g r x)) = (\<lambda>r. State_Monad.bind m (\<lambda>_. case r of (r, x) \<Rightarrow> g r x))"
    for m :: "('a, unit) jm"
    by auto
  then show ?thesis
    using heap_bracket [OF assms(1), of f "\<lambda>(r, x). g r x" v] assms(2,3)
    by (simp only: split_beta)
qed

lemma freeUtf8Bytes_end: "State_Monad.bind (freeUtf8Bytes p) (\<lambda>_. State_Monad.return ()) = freeUtf8Bytes p"
  by (rule state_ext) (simp add: run)

lemma heap_bracket_end:
  assumes "heap.keeps e" and "\<And>b n. heap.keeps (f b n)"
  shows "heap.keeps (State_Monad.bind (utf8JavaByteArrayToUtf8Bytes v) (\<lambda>(p, n).
     if p = 0 then e
     else State_Monad.bind (read (buf p)) (\<lambda>b. State_Monad.bind (f b n) (\<lambda>_. freeUtf8Bytes p))))"
  using heap_bracket [OF assms(1), of f "\<lambda>_. State_Monad.return ()" v,
      OF assms(2) heap.keeps_return]
  by (simp only: freeUtf8Bytes_end)

lemmas heap_rules = heap_bracket heap_bracket_open heap_bracket_end heap.keeps_rules
  heap_ask heap_ask_open heap_tell heap_global heap_value heap_nomem

lemma heap_string_methods:
  "heap.keeps (prepare_utf8 J sql)" "heap.keeps (exec_utf8 J sql)"
  "heap.keeps (bind_text_utf8 J stmt pos v)" "heap.keeps (result_text_utf8 J context v)"
  "heap.keeps (result_error_utf8 J context v)" "heap.keeps (destroy_function_utf8 J name)"
  unfolding prepare_utf8_def exec_utf8_def bind_text_utf8_def result_text_utf8_def
    result_error_utf8_def destroy_function_utf8_def
  by (intro heap_rules)+

lemma heap_db_method: "db_method J m d \<Longrightarrow> d \<noteq> V_metadata None \<Longrightarrow> heap.keeps m"
  by (erule db_method.cases; simp only: as_defs simp_thms; (intro heap_rules heap_string_methods | simp only: db_defs)+)

lemma heap_stmt_method: "stmt_method J stmt m d \<Longrightarrow> d \<noteq> V_metadata None \<Longrightarrow> heap.keeps m"
  by (erule stmt_method.cases; simp only: as_defs simp_thms; (intro heap_rules heap_string_methods | simp only: db_defs stmt_defs)+)

lemma heap_udf_method: "udf_method J m \<Longrightarrow> heap.keeps m"
  by (erule udf_method.cases; simp only: as_defs simp_thms; (intro heap_rules heap_string_methods | simp only: udf_defs)+)

lemma heap_update: "(\<And>s. bufs (f s) = bufs s) \<Longrightarrow> (\<And>s. udfs (f s) = udfs s) \<Longrightarrow>
    (\<And>s. fresh (f s) = fresh s) \<Longrightarrow> (\<And>s. udfdatalist (f s) = udfdatalist s) \<Longrightarrow> heap.keeps (update f)"
  by (simp add: heap.keeps_def run quiet_same)

lemma heap_other:
  "heap.keeps (as_int (shared_cache J b))" "heap.keeps (as_unit (close_db J))"
  "heap.keeps (as_unit (busy_handler J ob))" "heap.keeps (as_bytes (libversion_utf8 J))"
  "heap.keeps (as_int (exec_utf8 J sql))"
  "heap.keeps (as_unit (open_utf8 J fname flags))" "heap.keeps (as_int (value_type J f arg))"
  "heap.keeps (as_int (destroy_function_utf8 J name))"
  "heap.keeps (as_unit (register_progress_handler J n ob))"
  "heap.keeps (as_unit (clear_progress_handler J))"
  unfolding as_defs shared_cache_def close_db_def busy_handler_def open_utf8_def
    libversion_utf8_def value_type_def tovalue_def sethandle_def register_progress_handler_def
    clear_progress_handler_def
  by (intro heap_rules heap_string_methods heap_update; simp)+

subsection \<open>Metadata, backup and restore\<close>

lemma metadata_loop_heap:
  "run_state (metadata_loop J db dbstmt raw n i arr) s = (r, s') \<Longrightarrow>
   heap_ok s \<Longrightarrow> bufs s raw \<noteq> None \<Longrightarrow>
   heap_ok s' \<and> bufs s' raw \<noteq> None \<and> (bufs s')(raw := None) = (bufs s)(raw := None)
   \<and> udfs s' = udfs s \<and> udfdatalist s' = udfdatalist s"
proof (induction n arbitrary: i arr s)
  case (Suc n)
  obtain fl s1 where s1: "run_state (column_flags J db dbstmt (int i)) s = (fl, s1)"
    by (cases "run_state (column_flags J db dbstmt (int i)) s")
  have "heap.keeps (column_flags J db dbstmt (int i))"
    unfolding column_flags_def by (intro heap_rules)
  from heap.keeps_run [OF this s1] have k: "heap_ok s1 \<and> bufs s1 = bufs s \<and> udfs s1 = udfs s
      \<and> udfdatalist s1 = udfdatalist s"
    using Suc.prems(2) by (rule quietD)
  let ?s2 = "s1\<lparr>bufs := (bufs s)(raw \<mapsto> fl), mem := tl (mem s1)\<rparr>"
  have ok2: "heap_ok ?s2" using k Suc.prems(3) by (auto simp: heap_ok_def)
  show ?case
  proof (cases "next_alloc (mem s1)")
    case True
    have "run_state (metadata_loop J db dbstmt raw n (Suc i) (arr[i := Some (buf raw ?s2)])) ?s2 = (r, s')"
      using True Suc.prems(1) s1 k by (simp add: run)
    from Suc.IH [OF this ok2] show ?thesis using k by (auto simp: fun_eq_iff)
  next
    case False
    then have e: "s' = ?s2\<lparr>exns := E_message ''Out of memory'' # exns ?s2\<rparr>"
      using Suc.prems(1) s1 k by (simp add: run throw_defs)
    have "heap_ok s'" using ok2 unfolding e by (simp add: heap_ok_def)
    then show ?thesis using k e by (auto simp: fun_eq_iff)
  qed
qed simp

lemma column_metadata_heap:
  assumes "run_state (column_metadata J stmt) s = (r, s')" and "r \<noteq> None" and "heap_ok s"
  shows "quiet s s'"
proof (cases "pointer s = 0 \<or> stmt = 0")
  case True
  then show ?thesis
    using assms by (cases "pointer s = 0") (auto simp: column_metadata_def run)
next
  case False
  let ?count = "Call ''sqlite3_column_count'' [Ptr stmt]"
  obtain n s1 where s1: "run_state (ask (a_int J) ?count) s = (n, s1)"
    by (cases "run_state (ask (a_int J) ?count) s")
  have q1: "quiet s s1" by (rule heap.keeps_run [OF heap_ask s1])
  have k1: "heap_ok s1" using quietD [OF q1 \<open>heap_ok s\<close>] by simp
  define m where "m = mem s1"
  let ?s2 = "s1\<lparr>mem := tl (tl m), fresh := Suc (fresh s1), bufs := (bufs s1)(fresh s1 \<mapsto> [0, 0, 0])\<rparr>"
  let ?loop = "metadata_loop J (pointer s) stmt (fresh s1) (nat n) 0 (replicate (nat n) None)"
  have mem: "next_alloc m" "next_alloc (tl m)"
    using assms(1,2) s1 False by (auto simp: column_metadata_def run throw_defs m_def split: if_splits)
  obtain x s3 where s3: "run_state ?loop ?s2 = (x, s3)" by (cases "run_state ?loop ?s2")
  have "heap_ok ?s2" using heap_ok_alloc [OF k1, where m = "tl (tl m)"] by simp
  from metadata_loop_heap [OF s3 this] have k3: "heap_ok s3"
    "(bufs s3)(fresh s1 := None) = bufs s1" "udfs s3 = udfs s1" "udfdatalist s3 = udfdatalist s1"
    using heap_ok_fresh [OF k1] by (simp_all add: fun_upd_idem)
  have "quiet s1 (s3\<lparr>bufs := (bufs s3)(fresh s1 := None)\<rparr>)"
    using k3 heap_ok_free [of s3 "fresh s1"] by (simp add: quiet_def)
  moreover have "s' = s3\<lparr>bufs := (bufs s3)(fresh s1 := None)\<rparr>"
    using assms(1,2) s1 s3 False mem heap_ok_fresh [OF k1]
    by (auto simp: column_metadata_def run m_def split: option.splits)
  ultimately show ?thesis using q1 heap.trans by blast
qed

lemma heap_loops: "heap.keeps (backup_loop J n pb)" "heap.keeps (restore_loop J n pb k)"
proof -
  show "heap.keeps (backup_loop J n pb)"
    by (induction n) (simp_all add: backup_step_def heap_rules)
  show "heap.keeps (restore_loop J n pb k)"
    by (induction n arbitrary: k) (simp_all add: backup_step_def heap_rules)
qed

lemma heap_transfer: "(\<And>pb. heap.keeps (loop pb)) \<Longrightarrow> heap.keeps (transfer J init loop fname)"
  unfolding transfer_def by (intro heap_rules)

text \<open>The state in which the transfer starts, with both strings in their buffers.\<close>

definition two_strings :: "bytes \<Rightarrow> bytes \<Rightarrow> 'q jni \<Rightarrow> 'q jni" where
  "two_strings f d s = s\<lparr>mem := tl (tl (mem s)), fresh := Suc (Suc (fresh s)),
     bufs := (bufs s)(fresh s \<mapsto> f @ [0], Suc (fresh s) \<mapsto> d @ [0])\<rparr>"

lemma two_strings_heap: "heap_ok s \<Longrightarrow> heap_ok (two_strings f d s)"
  unfolding heap_ok_def two_strings_def by (auto simp: less_Suc_eq)

lemma two_strings_released:
  "heap_ok s \<Longrightarrow> (bufs (two_strings f d s))(Suc (fresh s) := None, fresh s := None) = bufs s"
proof -
  assume h: "heap_ok s"
  have "bufs s (fresh s) = None" "bufs s (Suc (fresh s)) = None"
    using h unfolding heap_ok_def by (metis less_irrefl, metis Suc_lessD less_irrefl)
  then show ?thesis by (simp add: two_strings_def fun_eq_iff)
qed

lemma run_with_pFile:
  assumes "pointer s \<noteq> 0" and "0 < fresh s" and "next_alloc (mem s)" and "next_alloc (tl (mem s))"
  shows "run_state (with_pFile J (Some d) (Some f) init loop) s =
    (case run_state (transfer J (init (pointer s) (d @ [0])) loop (f @ [0])) (two_strings f d s) of
       ((rc, pFile), t) \<Rightarrow>
         if rc = None then (None, t)
         else (rc, t\<lparr>eng := snd (a_int J (Call ''sqlite3_close'' [Ptr pFile]) (eng t)),
           calls := Call ''sqlite3_close'' [Ptr pFile] # calls t,
           bufs := (bufs t)(Suc (fresh s) := None, fresh s := None)\<rparr>))"
  using assms
  by (simp add: with_pFile_def run run_from_java buf_def two_strings_def split: prod.split)

lemma with_pFile_heap:
  assumes loop: "\<And>pb. heap.keeps (loop pb)"
    and r: "run_state (with_pFile J zDBName zFilename init loop) s = (r, s')" and "r \<noteq> None"
  shows "quiet s s'"
proof (cases "heap_ok s")
  case h: True
  show ?thesis
  proof (cases "pointer s = 0 \<or> zFilename = None \<or> zDBName = None
      \<or> \<not> next_alloc (mem s) \<or> \<not> next_alloc (tl (mem s))")
    case True
    then show ?thesis
      using r heap_ok_fresh [OF h] heap_ok_free [OF heap_ok_alloc [OF h], where p = "fresh s"] h
      by (cases zFilename; cases zDBName)
        (auto simp: with_pFile_def run run_from_java throw_defs quiet_def heap_ok_def fun_upd_idem split: if_splits)
  next
    case False
    then obtain f d where str: "zFilename = Some f" "zDBName = Some d" by auto
    let ?s2 = "two_strings f d s"
    let ?m = "transfer J (init (pointer s) (d @ [0])) loop (f @ [0])"
    obtain rc pFile t where t: "run_state ?m ?s2 = ((rc, pFile), t)"
      by (cases "run_state ?m ?s2") auto
    have "quiet ?s2 t" by (rule heap.keeps_run [OF heap_transfer [OF loop] t])
    from quietD [OF this two_strings_heap [OF h]]
    have k: "heap_ok t" "(bufs t)(Suc (fresh s) := None, fresh s := None) = bufs s"
      "udfs t = udfs s" "udfdatalist t = udfdatalist s"
      using two_strings_released [OF h] by (simp_all add: two_strings_def)
    have "0 < fresh s" using heap_ok_fresh [OF h] by simp
    with False t r \<open>r \<noteq> None\<close> have "bufs s' = bufs s" "fresh s' = fresh t" "udfs s' = udfs t"
      "udfdatalist s' = udfdatalist t"
      using k(2) by (auto simp: str run_with_pFile split: if_splits)
    moreover have "heap_ok (t\<lparr>bufs := bufs s\<rparr>)"
      using heap_ok_free [OF heap_ok_free [OF k(1), of "Suc (fresh s)"], of "fresh s"] k(2) by simp
    ultimately show ?thesis using k by (simp add: quiet_def heap_ok_def)
  qed
qed (simp add: quiet_def)

lemma backup_heap:
  "run_state (backup J n zDBName zFilename observer) s = (Some rc, s') \<Longrightarrow> quiet s s'"
  "run_state (restore J n zDBName zFilename observer) s = (Some rc, s') \<Longrightarrow> quiet s s'"
  unfolding backup_def restore_def by (erule with_pFile_heap [OF heap_loops(1)], simp)
    (erule with_pFile_heap [OF heap_loops(2)], simp)

section \<open>The list of functions\<close>

text \<open>The list is a path of distinct entries in the heap, ending at 0.\<close>

fun udf_list :: "(ptr \<rightharpoonup> UDFData) \<Rightarrow> ptr \<Rightarrow> ptr list \<Rightarrow> bool" where
  "udf_list h p [] \<longleftrightarrow> p = 0"
| "udf_list h p (q # qs) \<longleftrightarrow> p = q \<and> q \<noteq> 0 \<and> (\<exists>u. h q = Some u \<and> udf_list h (udf_next u) qs)"

lemma udf_list_upd [simp]: "q \<notin> set qs \<Longrightarrow> udf_list (h(q := x)) p qs = udf_list h p qs"
  by (induction qs arbitrary: p) auto

definition udfs_ok :: "'q jni \<Rightarrow> bool" where
  "udfs_ok s \<longleftrightarrow> (\<exists>ps. udf_list (udfs s) (udfdatalist s) ps \<and> distinct ps \<and> set ps = dom (udfs s))"

lemma udfs_ok_quiet: "quiet s s' \<Longrightarrow> heap_ok s \<Longrightarrow> udfs_ok s \<Longrightarrow> udfs_ok s'"
  by (simp add: quiet_def udfs_ok_def)

text \<open>A registration puts a new entry at the head of the list.\<close>

lemma run_new_udf: "run_state (new_udf func) s =
    (fresh s, s\<lparr>fresh := Suc (fresh s),
       grefs := if func = 0 then grefs s else (grefs s)(func := grefs s func + 1),
       udfs := (udfs s)(fresh s \<mapsto> \<lparr>udf_func = func, udf_next = udfdatalist s\<rparr>),
       udfdatalist := fresh s\<rparr>)"
  by (simp add: new_udf_def run)

lemma new_udf_ok:
  assumes "run_state (new_udf func) s = (p, s')" and h: "heap_ok s" and u: "udfs_ok s"
  shows "heap_ok s' \<and> udfs_ok s' \<and> bufs s' = bufs s"
proof -
  have s': "s' = s\<lparr>fresh := Suc (fresh s),
      grefs := if func = 0 then grefs s else (grefs s)(func := grefs s func + 1),
      udfs := (udfs s)(fresh s \<mapsto> \<lparr>udf_func = func, udf_next = udfdatalist s\<rparr>),
      udfdatalist := fresh s\<rparr>"
    using assms(1) [unfolded run_new_udf prod.inject] by (rule conjunct2 [THEN sym])
  from u obtain ps where ps: "udf_list (udfs s) (udfdatalist s) ps" "distinct ps" "set ps = dom (udfs s)"
    unfolding udfs_ok_def by blast
  have f: "fresh s \<notin> set ps" "fresh s \<noteq> 0"
    using heap_ok_fresh [OF h] ps(3) by auto
  have "udfs_ok s'"
    unfolding udfs_ok_def s' using ps f by (intro exI [of _ "fresh s # ps"]) simp
  moreover have "heap_ok s'" unfolding s' using h by (auto simp: heap_ok_def less_Suc_eq)
  ultimately show ?thesis unfolding s' by simp
qed

lemma create_function_ok:
  assumes r: "run_state (create_function_utf8 J name func flags) s = (v, s')"
    and h: "heap_ok s" and u: "udfs_ok s"
  shows "heap_ok s' \<and> udfs_ok s' \<and> bufs s' = bufs s"
proof (cases "next_alloc (mem s)")
  case False
  then have "quiet s s'"
    using r by (auto simp: create_function_utf8_def run throw_defs intro: quiet_same)
  then show ?thesis using udfs_ok_quiet [OF _ h u] quietD [OF _ h] by blast
next
  case True
  obtain p t where t: "run_state (new_udf func) (s\<lparr>mem := tl (mem s)\<rparr>) = (p, t)"
    by (cases "run_state (new_udf func) (s\<lparr>mem := tl (mem s)\<rparr>)")
  have t_ok: "heap_ok t \<and> udfs_ok t \<and> bufs t = bufs s"
  proof -
    have "heap_ok (s\<lparr>mem := tl (mem s)\<rparr>)" "udfs_ok (s\<lparr>mem := tl (mem s)\<rparr>)"
      using h u by (simp_all add: heap_ok_def udfs_ok_def)
    from new_udf_ok [OF t this] show ?thesis by simp
  qed
  have "heap.keeps (register_udf J (j_isAggregate J func) (j_isWindow J func) p name flags)"
    unfolding register_udf_def by (intro heap_rules)
  moreover have "run_state (register_udf J (j_isAggregate J func) (j_isWindow J func) p name flags) t = (v, s')"
    using r True t by (simp add: create_function_utf8_def run Let_def)
  ultimately have q: "quiet t s'" by (rule heap.keeps_run)
  from t_ok have "heap_ok t" "udfs_ok t" "bufs t = bufs s" by blast+
  then show ?thesis using udfs_ok_quiet [OF q] quietD [OF q] by simp
qed

text \<open>The loop of \<open>free_functions\<close> walks the whole list.\<close>

definition release :: "ptr \<Rightarrow> 'q jni \<Rightarrow> 'q jni" where
  "release p s = (let ob = (case udfs s p of Some u \<Rightarrow> udf_func u | None \<Rightarrow> 0) in
     s\<lparr>grefs := (if ob = 0 then grefs s else (grefs s)(ob := grefs s ob - 1)),
       udfs := (udfs s)(p := None)\<rparr>)"

lemma release_fields [simp]:
  "udfs (release p s) = (udfs s)(p := None)" "bufs (release p s) = bufs s"
  "fresh (release p s) = fresh s" "udfdatalist (release p s) = udfdatalist s"
  by (simp_all add: release_def Let_def)

lemma release_grefs: "udfs s p = Some u \<Longrightarrow> grefs (release p s) =
    (if udf_func u = 0 then grefs s else (grefs s)(udf_func u := grefs s (udf_func u) - 1))"
  by (simp add: release_def Let_def)

lemma release_all_fields [simp]:
  "udfs (fold release ps s) = udfs s |` (- set ps)" "bufs (fold release ps s) = bufs s"
  "fresh (fold release ps s) = fresh s" "udfdatalist (fold release ps s) = udfdatalist s"
  by (induction ps arbitrary: s) (simp_all add: restrict_map_def fun_eq_iff)

lemma run_free_udfs:
  "udf_list (udfs s) p ps \<Longrightarrow> distinct ps \<Longrightarrow> length ps < n \<Longrightarrow>
   run_state (free_udfs n p) s = (Some (), fold release ps s)"
proof (induction ps arbitrary: n p s)
  case Nil
  then show ?case by (cases n) simp_all
next
  case (Cons q qs)
  then obtain k u where n: "n = Suc k" and u: "udfs s q = Some u" "udf_list (udfs s) (udf_next u) qs"
    by (cases n) auto
  have "udf_list (udfs (release q s)) (udf_next u) qs"
    unfolding release_fields using Cons.prems(2) u(2) by (subst udf_list_upd) simp_all
  then have "run_state (free_udfs k (udf_next u)) (release q s) = (Some (), fold release qs (release q s))"
    by (rule Cons.IH) (use Cons.prems n in simp_all)
  moreover have "run_state (free_udfs n p) s = run_state (free_udfs k (udf_next u)) (release q s)"
    using Cons.prems(1) n u(1) by (simp add: run release_def Let_def)
  ultimately show ?case by simp
qed

text \<open>How many entries hold a reference to \<open>ob\<close>.\<close>

definition holders :: "(ptr \<rightharpoonup> UDFData) \<Rightarrow> ptr list \<Rightarrow> ptr \<Rightarrow> nat" where
  "holders h ps ob = length (filter (\<lambda>p. map_option udf_func (h p) = Some ob) ps)"

lemma release_all_grefs:
  "distinct ps \<Longrightarrow> set ps \<subseteq> dom (udfs s) \<Longrightarrow> ob \<noteq> 0 \<Longrightarrow>
   grefs (fold release ps s) ob = grefs s ob - holders (udfs s) ps ob"
proof (induction ps arbitrary: s)
  case (Cons q qs)
  then obtain u where u: "udfs s q = Some u" by auto
  have "holders ((udfs s)(q := None)) qs ob = holders (udfs s) qs ob"
    using Cons.prems(1) unfolding holders_def
    by (intro arg_cong [where f = length] filter_cong) auto
  moreover have "grefs (fold release qs (release q s)) ob
      = grefs (release q s) ob - holders (udfs (release q s)) qs ob"
    by (rule Cons.IH) (use Cons.prems in auto)
  ultimately show ?case
    using u Cons.prems(3) by (auto simp: holders_def release_grefs)
qed (simp add: holders_def)

lemma free_functions_ok:
  assumes h: "heap_ok s" and u: "udfs_ok s" and n: "card (dom (udfs s)) < n"
  obtains ps where "distinct ps" "set ps = dom (udfs s)"
    "run_state (free_functions n) s = (Some (), fold release ps (s\<lparr>udfdatalist := 0\<rparr>))"
proof -
  from u obtain ps where ps: "udf_list (udfs s) (udfdatalist s) ps" "distinct ps" "set ps = dom (udfs s)"
    unfolding udfs_ok_def by blast
  have "length ps < n" using ps n distinct_card [of ps] by simp
  then have "run_state (free_functions n) s = (Some (), fold release ps (s\<lparr>udfdatalist := 0\<rparr>))"
    using ps by (simp add: free_functions_def run run_free_udfs)
  with ps that show thesis by blast
qed

section \<open>All methods\<close>

text \<open>The loops of the last three have fuel, and \<open>V_fault\<close> stands for running out of it.\<close>

definition as_fueled_int :: "('q, int option) jm \<Rightarrow> ('q, jvalue) jm" where
  "as_fueled_int m = do { r \<leftarrow> m; State_Monad.return (case r of Some n \<Rightarrow> V_int n | None \<Rightarrow> V_fault) }"

definition as_fueled_unit :: "('q, unit option) jm \<Rightarrow> ('q, jvalue) jm" where
  "as_fueled_unit m = do { r \<leftarrow> m; State_Monad.return (if r = None then V_fault else V_unit) }"

inductive native_method :: "'q jparams \<Rightarrow> ('q, jvalue) jm \<Rightarrow> bool" for J where
  "api_method J m \<Longrightarrow> native_method J m"
| "native_method J (as_unit (open_utf8 J fname flags))"
| "native_method J (as_int (value_type J f arg))"
| "native_method J (as_int (create_function_utf8 J name func flags))"
| "native_method J (as_int (destroy_function_utf8 J name))"
| "native_method J (as_unit (register_progress_handler J vmCalls ob))"
| "native_method J (as_unit (clear_progress_handler J))"
| "native_method J (as_fueled_unit (free_functions n))"
| "native_method J (as_fueled_int (backup J n zDBName zFilename observer))"
| "native_method J (as_fueled_int (restore J n zDBName zFilename observer))"

lemma free_udfs_short:
  "udf_list (udfs s) p ps \<Longrightarrow> distinct ps \<Longrightarrow> n \<le> length ps \<Longrightarrow> fst (run_state (free_udfs n p) s) = None"
proof (induction ps arbitrary: n p s)
  case (Cons q qs)
  show ?case
  proof (cases n)
    case (Suc k)
    obtain u where u: "udfs s q = Some u" "udf_list (udfs s) (udf_next u) qs"
      using Cons.prems(1) by auto
    have "udf_list (udfs (release q s)) (udf_next u) qs"
      unfolding release_fields using Cons.prems(2) u(2) by (subst udf_list_upd) simp_all
    then have "fst (run_state (free_udfs k (udf_next u)) (release q s)) = None"
      by (rule Cons.IH) (use Cons.prems Suc in simp_all)
    moreover have "run_state (free_udfs n p) s = run_state (free_udfs k (udf_next u)) (release q s)"
      using Cons.prems(1) Suc u(1) by (simp add: run release_def Let_def)
    ultimately show ?thesis by simp
  qed simp
qed simp

lemma free_functions_heap:
  assumes r: "run_state (free_functions n) s = (Some (), s')" and h: "heap_ok s" and u: "udfs_ok s"
  shows "heap_ok s' \<and> udfs_ok s' \<and> bufs s' = bufs s"
proof -
  from u obtain ps where ps: "udf_list (udfs s) (udfdatalist s) ps" "distinct ps" "set ps = dom (udfs s)"
    unfolding udfs_ok_def by blast
  let ?t = "s\<lparr>udfdatalist := 0\<rparr>"
  have "run_state (free_udfs n (udfdatalist s)) ?t = (Some (), s')"
    using r by (simp add: free_functions_def run)
  moreover from this have "length ps < n"
    using free_udfs_short [of ?t "udfdatalist s" ps n] ps by (cases "n \<le> length ps") auto
  ultimately have "s' = fold release ps ?t"
    using run_free_udfs [of ?t "udfdatalist s" ps n] ps by simp
  moreover have "udfs s |` (- set ps) = Map.empty"
    using ps(3) by (auto simp: restrict_map_def fun_eq_iff domIff)
  ultimately show ?thesis
    using h by (auto simp: heap_ok_def udfs_ok_def intro!: exI [of _ "[]"])
qed

lemma column_metadata_fails:
  assumes r: "run_state (column_metadata J stmt) s = (None, s')" and "heap_ok s"
  shows "heap_ok s' \<and> udfs s' = udfs s \<and> udfdatalist s' = udfdatalist s"
proof (cases "pointer s = 0 \<or> stmt = 0")
  case True
  then show ?thesis
    using assms by (cases "pointer s = 0") (auto simp: column_metadata_def run heap_ok_def)
next
  case False
  let ?count = "Call ''sqlite3_column_count'' [Ptr stmt]"
  obtain n s1 where s1: "run_state (ask (a_int J) ?count) s = (n, s1)"
    by (cases "run_state (ask (a_int J) ?count) s")
  have k1: "heap_ok s1 \<and> bufs s1 = bufs s \<and> udfs s1 = udfs s \<and> udfdatalist s1 = udfdatalist s"
    by (rule quietD [OF heap.keeps_run [OF heap_ask s1] \<open>heap_ok s\<close>])
  define m where "m = mem s1"
  let ?s2 = "s1\<lparr>mem := tl (tl m), fresh := Suc (fresh s1), bufs := (bufs s1)(fresh s1 \<mapsto> [0, 0, 0])\<rparr>"
  let ?loop = "metadata_loop J (pointer s) stmt (fresh s1) (nat n) 0 (replicate (nat n) None)"
  obtain x s3 where s3: "run_state ?loop ?s2 = (x, s3)" by (cases "run_state ?loop ?s2")
  have k3: "heap_ok s3 \<and> udfs s3 = udfs s1 \<and> udfdatalist s3 = udfdatalist s1"
    using metadata_loop_heap [OF s3] heap_ok_alloc [where s = s1 and m = "tl (tl m)" and b = "[0, 0, 0]"] k1 by simp
  show ?thesis
  proof (cases "next_alloc m \<and> next_alloc (tl m)")
    case True
    then have "s' = s3 \<or> s' = s3\<lparr>bufs := (bufs s3)(fresh s1 := None)\<rparr>"
      using r s1 s3 False
      by (auto simp: column_metadata_def run m_def split: option.splits if_splits)
    then show ?thesis using k3 k1 by (auto simp: heap_ok_free)
  next
    case False
    then show ?thesis
      using r s1 \<open>\<not> (pointer s = 0 \<or> stmt = 0)\<close> k1
      by (auto simp: column_metadata_def run throw_defs m_def heap_ok_def split: if_splits)
  qed
qed

text \<open>What a method keeps: the list and its entries stay exact, and the buffers are as before
  unless the result is the NULL of \<open>column_metadata\<close>.\<close>

definition method_ok :: "('q, jvalue) jm \<Rightarrow> bool" where
  "method_ok m \<longleftrightarrow> (\<forall>s v s'. run_state m s = (v, s') \<longrightarrow> v \<noteq> V_fault \<longrightarrow> heap_ok s \<longrightarrow> udfs_ok s \<longrightarrow>
     heap_ok s' \<and> udfs_ok s' \<and> (v \<noteq> V_metadata None \<longrightarrow> bufs s' = bufs s))"

lemma method_okI:
  "(\<And>s v s'. run_state m s = (v, s') \<Longrightarrow> v \<noteq> V_fault \<Longrightarrow> heap_ok s \<Longrightarrow> udfs_ok s \<Longrightarrow>
     heap_ok s' \<and> udfs_ok s' \<and> (v \<noteq> V_metadata None \<longrightarrow> bufs s' = bufs s)) \<Longrightarrow> method_ok m"
  unfolding method_ok_def by blast

lemma keeps_method_ok: "heap.keeps m \<Longrightarrow> method_ok m"
  by (rule method_okI) (metis heap.keeps_run quietD udfs_ok_quiet)

lemma metadata_method_ok: "method_ok (as_metadata (column_metadata J stmt))"
proof (rule method_okI)
  fix s v s'
  assume r: "run_state (as_metadata (column_metadata J stmt)) s = (v, s')" "heap_ok s" "udfs_ok s"
  then obtain x where x: "run_state (column_metadata J stmt) s = (x, s')" "v = V_metadata x"
    by (auto simp: as_metadata_def split: prod.splits)
  show "heap_ok s' \<and> udfs_ok s' \<and> (v \<noteq> V_metadata None \<longrightarrow> bufs s' = bufs s)"
  proof (cases x)
    case None
    then show ?thesis
      using column_metadata_fails [of J stmt s s'] x r by (simp add: udfs_ok_def)
  next
    case (Some y)
    then have "quiet s s'" using column_metadata_heap [OF x(1) _ r(2)] by simp
    then show ?thesis using quietD udfs_ok_quiet r by blast
  qed
qed

lemma db_method_metadata:
  "db_method J m (V_metadata None) \<Longrightarrow> \<exists>stmt. m = as_metadata (column_metadata J stmt)"
  "stmt_method J stmt m (V_metadata None) \<Longrightarrow> m = as_metadata (column_metadata J stmt)"
  by (erule db_method.cases; auto) (erule stmt_method.cases; simp)

lemma db_method_ok: "db_method J m d \<Longrightarrow> method_ok m"
  using heap_db_method db_method_metadata(1) metadata_method_ok keeps_method_ok
  by (cases "d = V_metadata None") blast+

lemma stmt_method_ok: "stmt_method J stmt m d \<Longrightarrow> method_ok m"
  using heap_stmt_method db_method_metadata(2) metadata_method_ok keeps_method_ok
  by (cases "d = V_metadata None") blast+

lemma api_method_ok: "api_method J m \<Longrightarrow> method_ok m"
  by (erule api_method.cases)
    (auto intro: db_method_ok stmt_method_ok keeps_method_ok heap_udf_method heap_other)

lemma create_method_ok: "method_ok (as_int (create_function_utf8 J name func flags))"
  by (rule method_okI) (auto simp: as_int_def split: prod.splits dest: create_function_ok)

lemma free_method_ok: "method_ok (as_fueled_unit (free_functions n))"
proof (rule method_okI)
  fix s v s'
  assume r: "run_state (as_fueled_unit (free_functions n)) s = (v, s')" "v \<noteq> V_fault" "heap_ok s" "udfs_ok s"
  then have "run_state (free_functions n) s = (Some (), s')"
    by (auto simp: as_fueled_unit_def split: prod.splits if_splits)
  from free_functions_heap [OF this r(3,4)]
  show "heap_ok s' \<and> udfs_ok s' \<and> (v \<noteq> V_metadata None \<longrightarrow> bufs s' = bufs s)" by simp
qed

lemma fueled_method_ok:
  assumes "\<And>s rc s'. run_state m s = (Some rc, s') \<Longrightarrow> quiet s s'"
  shows "method_ok (as_fueled_int m)"
proof (rule method_okI)
  fix s v s'
  assume r: "run_state (as_fueled_int m) s = (v, s')" "v \<noteq> V_fault" "heap_ok s" "udfs_ok s"
  then obtain rc where "run_state m s = (Some rc, s')"
    by (auto simp: as_fueled_int_def split: prod.splits option.splits)
  from assms [OF this] show "heap_ok s' \<and> udfs_ok s' \<and> (v \<noteq> V_metadata None \<longrightarrow> bufs s' = bufs s)"
    using quietD udfs_ok_quiet r by blast
qed

lemma native_method_ok: "native_method J m \<Longrightarrow> method_ok m"
  by (erule native_method.cases)
    (auto intro: api_method_ok keeps_method_ok heap_other create_method_ok free_method_ok
      fueled_method_ok backup_heap)

section \<open>Runs\<close>

inductive native_run :: "'q jparams \<Rightarrow> 'q jni \<Rightarrow> 'q jni \<Rightarrow> bool" for J s where
  native_init: "native_run J s s"
| native_call: "native_run J s t \<Longrightarrow> native_method J m \<Longrightarrow> run_state m t = (v, u) \<Longrightarrow> v \<noteq> V_fault \<Longrightarrow>
    native_run J s u"

definition fresh_object :: "'q \<Rightarrow> bool list \<Rightarrow> 'q jni" where
  "fresh_object q m = \<lparr>pointer = 0, udfdatalist = 0, f_context = (\<lambda>_. 0), f_value = (\<lambda>_. 0),
     f_args = (\<lambda>_. 0), exns = [], bufs = Map.empty, udfs = Map.empty, grefs = (\<lambda>_. 0),
     weak = (\<lambda>_. 0), classes = [], agg_cell = (\<lambda>_. 0), busy_obj = 0, phandler = 0, calls = [],
     mem = m, fresh = 1, eng = q\<rparr>"

lemma fresh_object_ok: "heap_ok (fresh_object q m)" "udfs_ok (fresh_object q m)"
  by (auto simp: heap_ok_def udfs_ok_def fresh_object_def intro!: exI [of _ "[]"])

lemma native_run_ok: "native_run J s t \<Longrightarrow> heap_ok s \<Longrightarrow> udfs_ok s \<Longrightarrow> heap_ok t \<and> udfs_ok t"
proof (induction rule: native_run.induct)
  case (native_call t m v u)
  then show ?case using native_method_ok [of J m] unfolding method_ok_def by blast
qed simp

text \<open>C22: Whatever sequence of native methods has run, and whatever allocations fail, a native method
  leaves no buffer behind; the only exception is \<open>column_metadata\<close> returning
  NULL.\<close>

theorem buffers_released:
  assumes "native_run J (fresh_object q m0) t" and "native_method J m"
    and "run_state m t = (v, u)" and "v \<notin> {V_fault, V_metadata None}"
  shows "bufs u = bufs t"
  using native_run_ok [OF assms(1) fresh_object_ok] native_method_ok [OF assms(2)] assms(3,4)
  unfolding method_ok_def by blast

text \<open>The list of functions is exact.\<close>

lemma udf_list_exact:
  assumes "native_run J (fresh_object q m0) t"
  shows "\<exists>ps. udf_list (udfs t) (udfdatalist t) ps \<and> distinct ps \<and> set ps = dom (udfs t)"
  using native_run_ok [OF assms fresh_object_ok] by (simp add: udfs_ok_def)

text \<open>C27: After any run of native methods \<open>free_functions\<close> ends within one step more than
  there are registered functions, releases every entry and exactly one global reference per
  entry.\<close>

theorem functions_freed:
  assumes "native_run J (fresh_object q m0) t" and "card (dom (udfs t)) < n"
  shows "\<exists>u. run_state (free_functions n) t = (Some (), u) \<and> udfs u = Map.empty
    \<and> udfdatalist u = 0 \<and> bufs u = bufs t
    \<and> (\<forall>ob. ob = 0 \<or> grefs u ob = grefs t ob - card {p. map_option udf_func (udfs t p) = Some ob})"
proof -
  from native_run_ok [OF assms(1) fresh_object_ok] have ok: "heap_ok t" "udfs_ok t" by auto
  obtain ps where ps: "distinct ps" "set ps = dom (udfs t)"
    and r: "run_state (free_functions n) t = (Some (), fold release ps (t\<lparr>udfdatalist := 0\<rparr>))"
    using free_functions_ok [OF ok assms(2)] by blast
  have "udfs t |` (- set ps) = Map.empty"
    using ps(2) by (auto simp: restrict_map_def fun_eq_iff domIff)
  moreover have "holders (udfs t) ps ob = card {p. map_option udf_func (udfs t p) = Some ob}" for ob
  proof -
    have "set (filter (\<lambda>p. map_option udf_func (udfs t p) = Some ob) ps)
        = {p. map_option udf_func (udfs t p) = Some ob}"
      using ps(2) by auto
    then show ?thesis
      unfolding holders_def using distinct_card ps(1) distinct_filter by metis
  qed
  moreover have "ob = 0 \<or> grefs (fold release ps (t\<lparr>udfdatalist := 0\<rparr>)) ob
      = grefs t ob - holders (udfs t) ps ob" for ob
    using release_all_grefs [of ps "t\<lparr>udfdatalist := 0\<rparr>" ob] ps by (cases "ob = 0") simp_all
  ultimately show ?thesis
    using r ps(2) by (intro exI [of _ "fold release ps (t\<lparr>udfdatalist := 0\<rparr>)"]) simp
qed

section \<open>NULL handles\<close>













lemma snd_as [simp]:
  "snd (run_state (as_unit m1) s) = snd (run_state m1 s)" "snd (run_state (as_int m2) s) = snd (run_state m2 s)"
  "snd (run_state (as_fueled_unit m3) s) = snd (run_state m3 s)" "snd (run_state (as_fueled_int m4) s) = snd (run_state m4 s)"
  by (simp_all add: as_unit_def as_int_def as_fueled_unit_def as_fueled_int_def split_beta)



text \<open>On a closed connection the methods that register and destroy a function and those of the
  progress handler pass NULL to SQLite instead of throwing, and value_type passes NULL after it threw
  because the argument is out of range or the object is not in a call\<close>

theorem untested_handles_pass_null:
  assumes "pointer s = 0" "next_alloc (mem s)" "next_alloc (tl (mem s))" "0 < fresh s"
    and "m \<in> {as_int (create_function_utf8 J (Some name) func flags), as_int (destroy_function_utf8 J (Some name)),
      as_unit (register_progress_handler J vmCalls ob), as_unit (clear_progress_handler J)}
      \<or> m = as_int (value_type J func arg) \<and> (arg < 0 \<or> func = 0 \<or> f_value s func = 0 \<or> f_args s func \<le> arg)"
  shows "\<exists>c. calls (snd (run_state m s)) = c # calls s \<and> 0 \<in> set (handles c)"
  using assms
  by (elim disjE insertE emptyE)
    (auto simp: create_function_utf8_def register_udf_def destroy_function_utf8_def register_progress_handler_def
      clear_progress_handler_def value_type_def tovalue_def run run_new_udf run_from_java throw_defs Let_def)

end
