(* ===== verification/NativeUse.thy ===== *)
theory NativeUse
  imports NativeHeap
begin

text \<open>
  What the methods do: opening and closing, preparing, the callbacks of user-defined functions,
  loading and unloading, and the transfers of backup and restore.
\<close>

section \<open>Opening and closing\<close>

abbreviation (input) "open_call b flags \<equiv> Call ''sqlite3_open_v2'' [Bytes (b @ [0]), Num flags, Ptr 0]"

text \<open>Opening stores the handle and turns extended result codes on when SQLite reports success;
  otherwise it closes the handle SQLite gave, throws its code and leaves the object closed.\<close>

theorem open_result:
  assumes "pointer s = 0" and "heap_ok s" and "next_alloc (mem s)"
    and "a_open J (open_call b flags) (eng s) = (rc, db, q)"
  shows "\<exists>s'. run_state (open_utf8 J (Some b) flags) s = ((), s') \<and>
    (if rc = 0
     then pointer s' = db \<and> exns s' = exns s
       \<and> calls s' = Call ''sqlite3_extended_result_codes'' [Ptr db, Num 1] # open_call b flags # calls s
     else pointer s' = 0 \<and> exns s' = E_code rc # exns s
       \<and> calls s' = Call ''sqlite3_close'' [Ptr db] # open_call b flags # calls s)"
  using assms heap_ok_fresh [of s]
  by (simp add: open_utf8_def run run_from_java buf_def throw_defs)

text \<open>Closing leaves the object closed, and closing again issues no second
  \<open>sqlite3_close\<close>; a failure is reported by exactly one exception.\<close>

theorem close_once:
  "\<exists>s' s''. run_state (close_db J) s = ((), s') \<and> run_state (close_db J) s' = ((), s'')
    \<and> pointer s' = 0 \<and> s'' = s'
    \<and> calls s' = (if pointer s = 0 then [] else [Call ''sqlite3_close'' [Ptr (pointer s)]]) @ calls s
    \<and> exns s' = (if pointer s = 0 \<or> fst (a_int J (Call ''sqlite3_close'' [Ptr (pointer s)]) (eng s)) = 0
         then [] else [E_last]) @ exns s"
  by (simp add: close_db_def run throw_defs)

text \<open>Opening an object twice closes the connection and keeps its handle.\<close>

lemma open_twice:
  assumes "pointer s \<noteq> 0"
  shows "\<exists>s'. run_state (open_utf8 J fname flags) s = ((), s') \<and> pointer s' = pointer s
    \<and> calls s' = Call ''sqlite3_close'' [Ptr (pointer s)] # calls s
    \<and> exns s' = E_message ''DB already open'' # exns s"
  using assms by (simp add: open_utf8_def run throw_defs)

section \<open>Preparing\<close>

abbreviation (input) "prepare_call db b \<equiv>
  Call ''sqlite3_prepare_v2'' [Ptr db, Bytes (b @ [0]), Num (int (length b)), Ptr 0]"

text \<open>Prepare.\<close>

lemma prepare_result:
  assumes "pointer s \<noteq> 0" and "heap_ok s"
    and "a_open J (prepare_call (pointer s) b) (eng s) = (rc, stmt, q)"
  shows "\<exists>v s'. run_state (prepare_utf8 J (Some b)) s = (v, s') \<and>
    (if \<not> next_alloc (mem s)
     then v = 0 \<and> exns s' = E_message ''Out of memory'' # exns s \<and> calls s' = calls s
     else calls s' = prepare_call (pointer s) b # calls s \<and>
       (if rc = 0 then v = stmt \<and> exns s' = exns s else v = 0 \<and> exns s' = E_code rc # exns s))"
  using assms heap_ok_fresh [of s]
  by (simp add: prepare_utf8_def run run_from_java buf_def throw_defs)

section \<open>Callbacks\<close>

abbreviation (input) "user_data context \<equiv> Call ''sqlite3_user_data'' [Ptr context]"

lemma run_java [run]: "run_state (java J m ob) s = j_call J m ob s"
  by (simp add: java_def)

lemma run_set_fields [run]: "run_state (set_fields f c v n) s =
    ((), s\<lparr>f_context := (f_context s)(f := c), f_value := (f_value s)(f := v), f_args := (f_args s)(f := n)\<rparr>)"
  by (simp add: set_fields_def run)

text \<open>C34: During a callback the Java function object holds the context and the arguments; after it,
  whatever the Java method did, the fields are cleared, so a later read of an argument is
  refused.\<close>

theorem callback_protocol:
  assumes "a_ptr J (user_data context) (eng s) = (udf, q)" and "udfs s udf = Some u"
    and "f = (if func = 0 then udf_func u else func)"
  shows "\<exists>s1 s2 s'. run_state (xCall J context args val func m) s = (Some (), s')
    \<and> f_context s1 f = context \<and> f_value s1 f = val \<and> f_args s1 f = args
    \<and> snd (j_call J m f s1) = s2
    \<and> f_context s' f = 0 \<and> f_value s' f = 0 \<and> f_args s' f = 0
    \<and> (exns s2 \<noteq> [] \<or> calls s' = calls s2 \<and> exns s' = [])
    \<and> (\<forall>arg. arg < 0 \<or> f = 0 \<or> run_state (tovalue J f arg) s' =
         (0, s'\<lparr>exns := E_message ''no current value'' # exns s'\<rparr>))"
proof -
  define s1 where "s1 = s\<lparr>eng := q, calls := user_data context # calls s,
    f_context := (f_context s)(f := context), f_value := (f_value s)(f := val), f_args := (f_args s)(f := args)\<rparr>"
  define s2 where "s2 = snd (j_call J m f s1)"
  define t where "t = (if exns s2 = [] then s2 else snd (run_state (xFunc_error J context) s2))"
  define s' where "s' = t\<lparr>f_context := (f_context t)(f := 0), f_value := (f_value t)(f := 0), f_args := (f_args t)(f := 0)\<rparr>"
  have "run_state (xCall J context args val func m) s = (Some (), s')"
    using assms unfolding s'_def t_def s2_def s1_def
    by (simp add: xCall_def run Let_def split_beta)
  moreover have "f_context s1 f = context \<and> f_value s1 f = val \<and> f_args s1 f = args"
    by (simp add: s1_def)
  moreover have "exns s2 \<noteq> [] \<or> calls s' = calls s2 \<and> exns s' = []"
    by (auto simp: s'_def t_def)
  moreover have fields: "f_context s' f = 0 \<and> f_value s' f = 0 \<and> f_args s' f = 0"
    by (simp add: s'_def)
  moreover have "arg < 0 \<or> f = 0 \<or> run_state (tovalue J f arg) s' =
      (0, s'\<lparr>exns := E_message ''no current value'' # exns s'\<rparr>)" for arg
    using fields by (simp add: tovalue_def run throw_defs)
  ultimately show ?thesis using s2_def by blast
qed

text \<open>C39: An exception thrown by a Java function is cleared and becomes the SQL error of the call, and
  the buffer of its message is released.\<close>

theorem exception_becomes_error:
  assumes "a_ptr J (user_data context) (eng s) = (udf, q)" and "udfs s udf = Some u"
    and "f = (if func = 0 then udf_func u else func)"
    and "j_call J m f (s\<lparr>eng := q, calls := user_data context # calls s,
      f_context := (f_context s)(f := context), f_value := (f_value s)(f := val),
      f_args := (f_args s)(f := args)\<rparr>) = (r, s2)"
    and "exns s2 \<noteq> []" and "heap_ok s2" and "next_alloc (mem s2)"
    and "\<And>s. j_object J m_toString (j_throwable J s2) s = (msg, s)" and "msg \<noteq> 0"
    and "j_utf8 J msg = Some b"
  shows "\<exists>s'. run_state (xCall J context args val func m) s = (Some (), s') \<and> exns s' = []
    \<and> bufs s' = bufs s2
    \<and> calls s' = Call ''sqlite3_result_error'' [Ptr context, Bytes (b @ [0]), Num (int (length b))] # calls s2"
  using assms heap_ok_fresh [of s2]
  by (simp add: xCall_def xFunc_error_def stringToUtf8Bytes_def run run_from_java buf_def Let_def fun_upd_idem)

section \<open>Aggregates\<close>











section \<open>Loading and unloading\<close>

text \<open>The references counted by a list of variables.\<close>

definition refs_to :: "ptr list \<Rightarrow> ptr \<Rightarrow> nat" where
  "refs_to cs c = count_list (filter (\<lambda>c. c \<noteq> 0) cs) c"

lemma refs_to_simps [simp]:
  "refs_to [] c = 0" "refs_to (d # cs) c = (if d \<noteq> 0 \<and> d = c then Suc (refs_to cs c) else refs_to cs c)"
  by (auto simp: refs_to_def)

lemma run_load_classes:
  "\<exists>cs. run_state (load_classes J ns) s = (\<forall>n \<in> set ns. j_class J n \<noteq> 0,
      s\<lparr>classes := classes s @ cs, weak := (\<lambda>c. weak s c + refs_to cs c)\<rparr>)"
proof (induction ns arbitrary: s)
  case Nil
  then show ?case by (intro exI [of _ "[]"]) simp
next
  case (Cons n ns)
  let ?c = "j_class J n"
  show ?case
  proof (cases "?c = 0")
    case True
    then show ?thesis by (intro exI [of _ "[0]"]) (simp add: run Let_def fun_eq_iff)
  next
    case False
    let ?s = "s\<lparr>classes := classes s @ [?c], weak := (weak s)(?c := weak s ?c + 1)\<rparr>"
    obtain cs where "run_state (load_classes J ns) ?s = (\<forall>n \<in> set ns. j_class J n \<noteq> 0,
        ?s\<lparr>classes := classes ?s @ cs, weak := (\<lambda>c. weak ?s c + refs_to cs c)\<rparr>)"
      using Cons.IH by blast
    moreover have "(\<lambda>c. weak ?s c + refs_to cs c) = (\<lambda>c. weak s c + refs_to (?c # cs) c)"
      using False by auto
    ultimately show ?thesis
      using False by (intro exI [of _ "?c # cs"]) (simp add: run Let_def)
  qed
qed

lemma run_unload_classes:
  "\<exists>w. run_state (unload_classes cs) s = ((), s\<lparr>weak := w\<rparr>) \<and> (\<forall>c. w c = weak s c - refs_to cs c)"
proof (induction cs arbitrary: s)
  case Nil
  then show ?case by (intro exI [of _ "weak s"]) simp
next
  case (Cons d cs)
  let ?s = "if d \<noteq> 0 then s\<lparr>weak := (weak s)(d := weak s d - 1)\<rparr> else s"
  obtain w where "run_state (unload_classes cs) ?s = ((), ?s\<lparr>weak := w\<rparr>)"
    and w: "\<forall>c. w c = weak ?s c - refs_to cs c"
    using Cons.IH by blast
  then have "run_state (unload_classes (d # cs)) s = ((), s\<lparr>weak := w\<rparr>)"
    by (simp add: run split: if_splits)
  moreover have "\<forall>c. w c = weak s c - refs_to (d # cs) c" using w by auto
  ultimately show ?case by blast
qed

text \<open>The weak references are balanced.\<close>

lemma load_unload_balanced:
  assumes "classes s = []"
  shows "\<exists>s1 s2. run_state (JNI_OnLoad J env_ok) s =
      (if env_ok \<and> (\<forall>n \<in> set JNI_classes. j_class J n \<noteq> 0) then JNI_VERSION_1_2 else JNI_ERR, s1)
    \<and> run_state (JNI_OnUnload True) s1 = ((), s2) \<and> weak s2 = weak s"
proof (cases env_ok)
  case False
  then show ?thesis using assms by (simp add: JNI_OnLoad_def JNI_OnUnload_def run)
next
  case True
  obtain cs where load: "run_state (load_classes J JNI_classes) s = (\<forall>n \<in> set JNI_classes. j_class J n \<noteq> 0,
      s\<lparr>classes := cs, weak := (\<lambda>c. weak s c + refs_to cs c)\<rparr>)" (is "_ = (_, ?s1)")
    using run_load_classes [of J JNI_classes s] assms by auto
  obtain w where unload: "run_state (unload_classes cs) ?s1 = ((), ?s1\<lparr>weak := w\<rparr>)"
    and w: "\<And>c. w c = weak ?s1 c - refs_to cs c"
    using run_unload_classes [of cs ?s1] by blast
  have "w = weak s" using w by auto
  then show ?thesis
    using True load unload
    by (intro exI [of _ ?s1] exI [of _ "?s1\<lparr>weak := w\<rparr>"] conjI)
      (simp_all add: JNI_OnLoad_def JNI_OnUnload_def run)
qed

end
