(* ===== verification/NativeBackup.thy ===== *)
theory NativeBackup
  imports NativeUse
begin

text \<open>
  Backup and restore: which calls they make and in which order, that the loops end, and where
  the result comes from.
\<close>

abbreviation (input) "step_call pb \<equiv> Call ''sqlite3_backup_step'' [Ptr pb, Num 100]"
abbreviation (input) "sleep_call \<equiv> Call ''sqlite3_sleep'' [Num 100]"
abbreviation (input) "finish_call pb \<equiv> Call ''sqlite3_backup_finish'' [Ptr pb]"
abbreviation (input) "errcode_call p \<equiv> Call ''sqlite3_errcode'' [Ptr p]"
abbreviation (input) "close_call p \<equiv> Call ''sqlite3_close'' [Ptr p]"
abbreviation (input) "file_call f \<equiv> Call ''sqlite3_open'' [Bytes (f @ [0])]"

section \<open>The loops\<close>

lemma run_backup_step [run]: "run_state (backup_step J pb) s =
    (fst (a_int J (step_call pb) (eng s)), s\<lparr>eng := snd (a_int J (step_call pb) (eng s)), calls := step_call pb # calls s\<rparr>)"
  by (simp add: backup_step_def run)

definition loop_calls :: "(ptr \<Rightarrow> ('q, int option) jm) \<Rightarrow> (ptr \<Rightarrow> call list \<Rightarrow> bool) \<Rightarrow> bool" where
  "loop_calls loop P \<longleftrightarrow> (\<forall>pb s r s'. run_state (loop pb) s = (r, s') \<longrightarrow> (\<exists>cs. calls s' = cs @ calls s \<and> P pb cs))"

lemma backup_loop_calls: "loop_calls (backup_loop J n) (\<lambda>pb cs. set cs \<subseteq> {step_call pb})"
proof -
  have "\<exists>cs. calls s' = cs @ calls s \<and> set cs \<subseteq> {step_call pb}"
    if "run_state (backup_loop J n pb) s = (r, s')" for pb s r s'
    using that
  proof (induction n arbitrary: s)
    case (Suc n)
    show ?case
    proof (cases "fst (a_int J (step_call pb) (eng s)) = 0")
      case True
      from Suc.IH [of "s\<lparr>eng := snd (a_int J (step_call pb) (eng s)), calls := step_call pb # calls s\<rparr>"]
      obtain cs where "calls s' = cs @ step_call pb # calls s" "set cs \<subseteq> {step_call pb}"
        using Suc.prems True by (auto simp: run)
      then show ?thesis by (intro exI [of _ "cs @ [step_call pb]"]) simp
    next
      case False
      then show ?thesis using Suc.prems by (intro exI [of _ "[step_call pb]"]) (auto simp: run)
    qed
  qed simp
  then show ?thesis unfolding loop_calls_def by blast
qed


section \<open>The protocol\<close>



section \<open>Termination\<close>

text \<open>What is asked of SQLite: a step that answers \<open>SQLITE_OK\<close> has copied pages, and waiting
  does not undo it.\<close>

definition steps_progress :: "'q jparams \<Rightarrow> ('q \<Rightarrow> nat) \<Rightarrow> bool" where
  "steps_progress J \<mu> \<longleftrightarrow> (\<forall>pb q. let (rc, q') = a_int J (step_call pb) q in
      (rc = 0 \<longrightarrow> \<mu> q' < \<mu> q) \<and> (rc = 5 \<longrightarrow> \<mu> (snd (a_int J sleep_call q')) \<le> \<mu> q))"

lemma steps_progressD:
  "steps_progress J \<mu> \<Longrightarrow> fst (a_int J (step_call pb) q) = 0 \<Longrightarrow> \<mu> (snd (a_int J (step_call pb) q)) < \<mu> q"
  "steps_progress J \<mu> \<Longrightarrow> fst (a_int J (step_call pb) q) = 5 \<Longrightarrow>
     \<mu> (snd (a_int J sleep_call (snd (a_int J (step_call pb) q)))) \<le> \<mu> q"
  unfolding steps_progress_def by (simp_all add: split_beta Let_def)

lemma backup_loop_ends:
  "steps_progress J \<mu> \<Longrightarrow> \<mu> (eng s) < n \<Longrightarrow> fst (run_state (backup_loop J n pb) s) \<noteq> None"
proof (induction n arbitrary: s)
  case (Suc n)
  let ?s = "s\<lparr>eng := snd (a_int J (step_call pb) (eng s)), calls := step_call pb # calls s\<rparr>"
  have "\<mu> (eng ?s) < n" if "fst (a_int J (step_call pb) (eng s)) = 0"
    using steps_progressD(1) [OF Suc.prems(1) that] Suc.prems(2) by simp
  then show ?case using Suc.IH [OF Suc.prems(1), of ?s] by (simp add: run)
qed simp

lemma restore_loop_ends:
  "steps_progress J \<mu> \<Longrightarrow> \<mu> (eng s) + (3 - k) < n \<Longrightarrow> fst (run_state (restore_loop J n pb k) s) \<noteq> None"
proof (induction n arbitrary: s k)
  case (Suc n)
  let ?rc = "fst (a_int J (step_call pb) (eng s))"
  let ?s = "s\<lparr>eng := snd (a_int J (step_call pb) (eng s)), calls := step_call pb # calls s\<rparr>"
  let ?t = "?s\<lparr>eng := snd (a_int J sleep_call (eng ?s)), calls := sleep_call # calls ?s\<rparr>"
  have ok: "\<mu> (eng ?s) + (3 - k) < n" if "?rc = 0"
    using steps_progressD(1) [OF Suc.prems(1) that] Suc.prems(2) by simp
  have busy: "\<mu> (eng ?t) + (3 - Suc k) < n" if "?rc = 5" "k < 3"
    using steps_progressD(2) [OF Suc.prems(1) that(1)] Suc.prems(2) that(2) by simp
  consider (ok) "?rc = 0" | (busy) "?rc = 5" "k < 3" | (stop) "?rc \<noteq> 0" "?rc \<noteq> 5 \<or> 3 \<le> k" by linarith
  then show ?case
  proof cases
    case ok then show ?thesis using Suc.IH [OF Suc.prems(1) \<open>?rc = 0 \<Longrightarrow> \<mu> (eng ?s) + (3 - k) < n\<close>] by (simp add: run)
  next
    case busy then show ?thesis using Suc.IH [OF Suc.prems(1), of ?t "Suc k"] \<open>?rc = 5 \<Longrightarrow> k < 3 \<Longrightarrow> \<mu> (eng ?t) + (3 - Suc k) < n\<close>
      by (simp add: run)
  next
    case stop then show ?thesis by (auto simp: run)
  qed
qed simp

lemma transfer_ends:
  assumes "a_open J (Call ''sqlite3_open'' [Bytes fname]) (eng s) = (orc, pFile, q)"
    and "\<And>pb t. eng t = snd (a_ptr J (init pFile) q) \<Longrightarrow> fst (run_state (loop pb) t) \<noteq> None"
  shows "fst (fst (run_state (transfer J init loop fname) s)) \<noteq> None"
proof -
  define pb where "pb = fst (a_ptr J (init pFile) q)"
  define t where "t = s\<lparr>eng := snd (a_ptr J (init pFile) q),
    calls := init pFile # Call ''sqlite3_open'' [Bytes fname] # calls s\<rparr>"
  obtain x u where u: "run_state (loop pb) t = (x, u)" by (cases "run_state (loop pb) t")
  with assms(2) [of t pb] obtain n where "x = Some n" by (auto simp: t_def)
  then show ?thesis using assms(1) u by (simp add: transfer_def run pb_def t_def)
qed

lemma with_pFile_ends:
  assumes h: "heap_ok s"
    and loop: "\<And>e. \<exists>N. \<forall>n > N. \<forall>pb t. eng t = e \<longrightarrow> fst (run_state (loop n pb) t) \<noteq> None"
  shows "\<exists>N. \<forall>n > N. fst (run_state (with_pFile J zDBName zFilename init (loop n)) s) \<noteq> None"
proof (cases "pointer s = 0 \<or> zFilename = None \<or> zDBName = None
    \<or> \<not> next_alloc (mem s) \<or> \<not> next_alloc (tl (mem s))")
  case True
  then have "fst (run_state (with_pFile J zDBName zFilename init (loop n)) s) \<noteq> None" for n
    using heap_ok_fresh [OF h]
    by (cases zFilename; cases zDBName) (auto simp: with_pFile_def run run_from_java throw_defs)
  then show ?thesis by blast
next
  case False
  then obtain f d where str: "zFilename = Some f" "zDBName = Some d" by auto
  obtain orc pFile q where o: "a_open J (file_call f) (eng (two_strings f d s)) = (orc, pFile, q)"
    by (cases "a_open J (file_call f) (eng (two_strings f d s))") auto
  let ?init = "init (pointer s) (d @ [0])"
  from loop [of "snd (a_ptr J (?init pFile) q)"] obtain N where
    N: "\<And>n pb t. N < n \<Longrightarrow> eng t = snd (a_ptr J (?init pFile) q) \<Longrightarrow> fst (run_state (loop n pb) t) \<noteq> None"
    by blast
  have "fst (run_state (with_pFile J zDBName zFilename init (loop n)) s) \<noteq> None" if "N < n" for n
  proof -
    have "fst (fst (run_state (transfer J ?init (loop n) (f @ [0])) (two_strings f d s))) \<noteq> None"
      by (rule transfer_ends [OF o N [OF that]])
    then show ?thesis
      using False heap_ok_fresh [OF h] by (auto simp: str run_with_pFile split: prod.splits)
  qed
  then show ?thesis by blast
qed

lemma backup_loop_bound:
  "steps_progress J \<mu> \<Longrightarrow>
   \<exists>N. \<forall>n > N. \<forall>pb t. eng t = e \<longrightarrow> fst (run_state (backup_loop J n pb) t) \<noteq> None"
  using backup_loop_ends [of J \<mu>] by (intro exI [of _ "\<mu> e"]) auto

lemma restore_loop_bound:
  "steps_progress J \<mu> \<Longrightarrow>
   \<exists>N. \<forall>n > N. \<forall>pb t. eng t = e \<longrightarrow> fst (run_state (restore_loop J n pb 0) t) \<noteq> None"
  using restore_loop_ends [of J \<mu>, where k = 0] by (intro exI [of _ "\<mu> e + 3"]) auto

text \<open>Backup and restore return, provided every step that SQLite answers with SQLITE_OK makes
  progress and waiting does not undo it.\<close>

theorem transfers_terminate:
  assumes "steps_progress J \<mu>" and "heap_ok s"
  shows "\<exists>N. \<forall>n > N. fst (run_state (backup J n zDBName zFilename observer) s) \<noteq> None
    \<and> fst (run_state (restore J n zDBName zFilename observer) s) \<noteq> None"
proof -
  obtain M where M: "\<And>n. M < n \<Longrightarrow> fst (run_state (backup J n zDBName zFilename observer) s) \<noteq> None"
    unfolding backup_def using with_pFile_ends [OF assms(2) backup_loop_bound [OF assms(1)]] by blast
  obtain N where N: "\<And>n. N < n \<Longrightarrow> fst (run_state (restore J n zDBName zFilename observer) s) \<noteq> None"
    unfolding restore_def using with_pFile_ends [OF assms(2) restore_loop_bound [OF assms(1)]] by blast
  show ?thesis using M N by (intro exI [of _ "max M N"]) simp
qed

section \<open>Restore\<close>


end
