(* ===== verification/NativeRuns.thy ===== *)
theory NativeRuns
  imports NativeBackup
begin

text \<open>
  Concrete runs of the JNI layer: an instance of the parameters, with an engine whose state is
  the number of pages left to copy, and a Java side with objects of fixed handles.
\<close>

definition demo_jni :: "nat jparams" where
  "demo_jni = \<lparr>
     a_int = (\<lambda>c q. case c of Call f as \<Rightarrow>
       if f = ''sqlite3_backup_step'' then (if q \<le> 100 then (101, 0) else (0, q - 100)) else (0, q)),
     a_ptr = (\<lambda>c q. case c of Call f as \<Rightarrow>
       (if f = ''sqlite3_user_data'' then 50 else if f = ''sqlite3_aggregate_context'' then 40 else 30, q)),
     a_bytes = (\<lambda>c q. (None, q)),
     a_double = (\<lambda>c q. (0, q)),
     a_open = (\<lambda>c q. (0, 7, q)),
     a_flags = (\<lambda>c q. ((0, 0, 0), q)),
     j_call = (\<lambda>m ob s. (0, s)),
     j_object = (\<lambda>m ob s. (9, s)),
     j_throwable = (\<lambda>s. 6),
     j_utf8 = (\<lambda>ob. Some [104, 105]),
     j_class = (\<lambda>n. 3),
     j_isAggregate = (\<lambda>ob. False),
     j_isWindow = (\<lambda>ob. False)\<rparr>"

text \<open>The same with Java methods that throw.\<close>

definition demo_throwing :: "nat jparams" where
  "demo_throwing = demo_jni\<lparr>j_call := \<lambda>m ob s. (0, s\<lparr>exns := [E_java]\<rparr>)\<rparr>"

abbreviation (input) "demo_new \<equiv> (fresh_object 250 [] :: nat jni)"

text \<open>An object with an open connection, and one with a function as well.\<close>

definition demo_opened :: "nat jni" where
  "demo_opened = demo_new\<lparr>pointer := 7\<rparr>"

definition demo_function :: "nat jni" where
  "demo_function = demo_opened\<lparr>udfs := [50 \<mapsto> \<lparr>udf_func = 20, udf_next = 0\<rparr>], udfdatalist := 50, fresh := 51\<rparr>"

lemma demo_opened_ok: "heap_ok demo_opened"
  by (simp add: heap_ok_def demo_opened_def fresh_object_def)

lemma demo_function_ok: "heap_ok demo_function"
  by (simp add: heap_ok_def demo_function_def demo_opened_def fresh_object_def)

lemma demo_steps: "steps_progress demo_jni (\<lambda>q. q)"
  by (simp add: steps_progress_def demo_jni_def)


theorem closed_db_guard_witness:
  "run_state (as_int (changes demo_jni)) demo_new =
    (V_int 0, demo_new\<lparr>exns := [E_message ''The database has been closed'']\<rparr>)"
  using closed_db_guard [of demo_jni "as_int (changes demo_jni)" "V_int 0" demo_new]
  by (simp add: db_method.intros fresh_object_def)

theorem finalized_stmt_guard_witness:
  "run_state (as_int (step demo_jni 0)) demo_opened =
    (V_int 21, demo_opened\<lparr>exns := [E_message ''The prepared statement has been finalized'']\<rparr>)"
  using finalized_stmt_guard [of demo_jni 0 "as_int (step demo_jni 0)" "V_int 21" demo_opened]
  by (simp add: stmt_method.intros demo_opened_def fresh_object_def)

lemma demo_run: "native_run demo_jni demo_new demo_new"
  by (rule native_run.intros)

theorem buffers_released_witness:
  "bufs (snd (run_state (as_unit (open_utf8 demo_jni (Some [104]) 6)) demo_new)) = bufs demo_new"
proof (rule buffers_released [OF demo_run])
  show "native_method demo_jni (as_unit (open_utf8 demo_jni (Some [104]) 6))"
    by (rule native_method.intros)
  show "run_state (as_unit (open_utf8 demo_jni (Some [104]) 6)) demo_new =
      (V_unit, snd (run_state (as_unit (open_utf8 demo_jni (Some [104]) 6)) demo_new))"
    by (simp add: as_unit_def split_beta)
qed simp

lemma demo_register:
  "\<exists>t. run_state (as_int (create_function_utf8 demo_jni (Some [104]) 20 0)) demo_new = (V_int 0, t)
    \<and> udfs t = [1 \<mapsto> \<lparr>udf_func = 20, udf_next = 0\<rparr>] \<and> grefs t 20 = 1"
  by (simp add: as_int_def create_function_utf8_def register_udf_def run run_new_udf
      run_from_java demo_jni_def fresh_object_def Let_def)

theorem functions_freed_witness:
  "\<exists>(t :: nat jni) u. udfs t 1 = Some \<lparr>udf_func = 20, udf_next = 0\<rparr> \<and> grefs t 20 = 1
    \<and> run_state (free_functions 5) t = (Some (), u) \<and> udfs u = Map.empty \<and> grefs u 20 = 0"
proof -
  define m where "m = as_int (create_function_utf8 demo_jni (Some [104]) 20 0)"
  obtain t where m: "run_state m demo_new = (V_int 0, t)"
    and t: "udfs t = [1 \<mapsto> \<lparr>udf_func = 20, udf_next = 0\<rparr>]" "grefs t 20 = 1"
    using demo_register unfolding m_def by blast
  have nm: "native_method demo_jni m" unfolding m_def by (rule native_method.intros)
  have run: "native_run demo_jni demo_new t" by (rule native_call [OF demo_run nm m]) simp
  have "{p. map_option udf_func (udfs t p) = Some 20} = {1}" by (auto simp: t(1) split: if_splits)
  then have c: "card {p. map_option udf_func (udfs t p) = Some 20} = 1" by (simp only: card.insert card.empty) simp
  have d: "card (dom (udfs t)) < 5" by (simp add: t(1))
  from functions_freed [OF run d] obtain u where
    u: "run_state (free_functions 5) t = (Some (), u) \<and> udfs u = Map.empty
      \<and> udfdatalist u = 0 \<and> bufs u = bufs t
      \<and> (\<forall>ob. ob = 0 \<or> grefs u ob = grefs t ob - card {p. map_option udf_func (udfs t p) = Some ob})" ..
  then have "20 = (0 :: nat) \<or> grefs u 20 = grefs t 20 - 1" unfolding c [symmetric] by (elim conjE) (rule spec)
  then have "grefs u 20 = 0" unfolding t(2) by simp
  with u have u': "run_state (free_functions 5) t = (Some (), u) \<and> udfs u = Map.empty \<and> grefs u 20 = 0"
    by (elim conjE) (intro conjI)
  have "udfs t 1 = Some \<lparr>udf_func = 20, udf_next = 0\<rparr>" unfolding t(1) by simp
  from conjI [OF this conjI [OF t(2) u']] show ?thesis by (intro exI)
qed

theorem open_result_witness:
  "\<exists>s'. run_state (open_utf8 demo_jni (Some [104]) 6) demo_new = ((), s') \<and> pointer s' = 7"
proof -
  have h: "heap_ok demo_new" by (rule fresh_object_ok)
  have o: "a_open demo_jni (open_call [104] 6) 250 = (0, 7, 250)" by (simp add: demo_jni_def)
  show ?thesis
    using open_result [of demo_new demo_jni "[104]" 6 0 7 250] h o by (auto simp: fresh_object_def)
qed

theorem callback_protocol_witness:
  "\<exists>s'. run_state (xCall demo_jni 60 2 70 0 m_xFunc) demo_function = (Some (), s') \<and> f_value s' 20 = 0"
  using callback_protocol [of demo_jni 60 demo_function 50 250 "\<lparr>udf_func = 20, udf_next = 0\<rparr>" 20 0 2 70 m_xFunc]
  by (auto simp: demo_jni_def demo_function_def demo_opened_def fresh_object_def)

theorem exception_becomes_error_witness:
  "\<exists>s'. run_state (xCall demo_throwing 60 2 70 0 m_xFunc) demo_function = (Some (), s') \<and> exns s' = []
    \<and> hd (calls s') = Call ''sqlite3_result_error'' [Ptr 60, Bytes [104, 105, 0], Num 2]"
proof -
  define s2 where "s2 = demo_function\<lparr>calls := [user_data 60],
    f_context := (f_context demo_function)(20 := 60), f_value := (f_value demo_function)(20 := 70),
    f_args := (f_args demo_function)(20 := 2), exns := [E_java]\<rparr>"
  have "heap_ok s2" using demo_function_ok by (simp add: s2_def heap_ok_def)
  moreover have "next_alloc (mem s2)" by (simp add: s2_def demo_function_def demo_opened_def fresh_object_def)
  moreover have "j_call demo_throwing m_xFunc 20 (demo_function\<lparr>eng := 250, calls := user_data 60 # calls demo_function,
      f_context := (f_context demo_function)(20 := 60), f_value := (f_value demo_function)(20 := 70),
      f_args := (f_args demo_function)(20 := 2)\<rparr>) = (0, s2)"
    by (simp add: demo_throwing_def s2_def demo_function_def demo_opened_def fresh_object_def)
  moreover have "a_ptr demo_throwing (user_data 60) (eng demo_function) = (50, 250)"
    "udfs demo_function 50 = Some \<lparr>udf_func = 20, udf_next = 0\<rparr>"
    by (simp_all add: demo_throwing_def demo_jni_def demo_function_def demo_opened_def fresh_object_def)
  moreover have "j_object demo_throwing m_toString (j_throwable demo_throwing s2) s = (9, s)" for s
    by (simp add: demo_throwing_def demo_jni_def)
  moreover have "j_utf8 demo_throwing 9 = Some [104, 105]" by (simp add: demo_throwing_def demo_jni_def)
  ultimately show ?thesis
    using exception_becomes_error [of demo_throwing 60 demo_function 50 250 "\<lparr>udf_func = 20, udf_next = 0\<rparr>" 20 0
      m_xFunc 2 70 0 s2 9 "[104, 105]"]
    by (auto simp: s2_def)
qed




theorem untested_handles_pass_null_witness:
  "\<exists>c. calls (snd (run_state (as_int (value_type demo_jni 20 0)) demo_new)) = [c] \<and> 0 \<in> set (handles c)"
  using untested_handles_pass_null [where s = demo_new and m = "as_int (value_type demo_jni 20 0)" and J = demo_jni
      and func = 20 and arg = 0]
  by (simp add: fresh_object_def)

theorem transfers_terminate_witness:
  "\<exists>n. fst (run_state (restore demo_jni n (Some [109]) (Some [102]) 0) demo_opened) \<noteq> None"
  using transfers_terminate [OF demo_steps demo_opened_ok, of "Some [109]" "Some [102]" 0] by blast

end
