(* ===== verification/Spec2Isabelle.thy ===== *)
theory Spec2Isabelle
  imports Varint IntUtil VfsRuns RowSet PagerSavepoint WalSnapshot WalLost RecordFormat Glob NativeRuns
begin

text \<open>
  \<^bold>\<open>Verification of the C code of eclair-mobile.\<close>

  eclair-mobile is an Android wallet.  Its C code is the JDBC driver under
  \<open>src/app/src/main/cpp/sqlitejdbc/\<close>: the JNI layer \<open>NativeDB.c\<close>, through which the Java class
  \<open>org.sqlite.core.NativeDB\<close> reaches the database, and the amalgamation \<open>sqlite3.c\<close> of SQLite
  3.27.2.  The development models the JNI layer completely and, from SQLite, the parts that decide
  whether the channel data of the wallet survives: the locks of the Unix VFS, the write-ahead log,
  the bookkeeping of savepoints, and the data structures and encodings below them.

  \<^bold>\<open>How the parts interact.\<close>  A Java call enters a native function of \<open>NativeDB.c\<close>, which turns
  handles and strings, calls SQLite, and reports results as return values, pending exceptions or
  callbacks into Java.  SQLite reads and writes pages through the pager; in WAL mode a read
  transaction takes a snapshot by a read mark in shared memory and looks frames up in the wal-index,
  a write transaction appends frames with chained checksums, a checkpoint copies frames back to the
  database, and after a crash the index is rebuilt from the file.  Below the pager the Unix VFS maps
  five lock levels to POSIX advisory locks, which belong to a process and not to a descriptor.

  \<^bold>\<open>Theories.\<close>

  \<^item> \<open>Prelude\<close>: result codes, word types, shared lemmas, the collections of simplification rules.

  \<^item> \<open>Codec\<close>, \<open>Varint\<close>, \<open>IntUtil\<close> (\<open>util.c\<close>).  Variable-length integers
    (\<open>sqlite3PutVarint\<close>, \<open>sqlite3GetVarint\<close>, \<open>sqlite3GetVarint32\<close>, \<open>sqlite3VarintLen\<close>), big-endian
    words (\<open>sqlite3Get4byte\<close>, \<open>sqlite3Put4byte\<close>), checked 64-bit arithmetic (\<open>sqlite3AddInt64\<close> and
    its siblings, in the portable branches), \<open>LogEst\<close>.  \<open>Codec\<close> states the interface of a prefix
    code as a locale, \<open>Varint\<close> interprets it.  Shown: decoding inverts encoding, the unrolled
    decoder is the loop it replaces, nothing is read behind the encoding, arithmetic overflows are
    reported exactly when they occur.

  \<^item> \<open>PosixLock\<close>, \<open>UnixVfs\<close>, \<open>DeferredClose\<close>, \<open>VfsRuns\<close> (\<open>os_unix.c\<close>).  \<open>PosixLock\<close> is the
    contract of \<open>fcntl\<close> and the locking of one file; \<open>UnixVfs\<close> has \<open>unixLock\<close>, \<open>posixUnlock\<close>,
    \<open>unixCheckReservedLock\<close>, \<open>unixOpen\<close>, \<open>unixClose\<close> and the list of inodes, the operations under
    every answer of the system; \<open>DeferredClose\<close> is about descriptors that are closed later
    because closing would drop locks; \<open>VfsRuns\<close> has runs on concrete systems.  Shown: the lock
    levels of the handles of a process exclude each other, no descriptor is closed while a lock is
    held; and a defect of \<open>unix-excl\<close>: a read-only handle on the same file takes the lock of the
    process away from a writable one.

  \<^item> \<open>RowSet\<close> (\<open>rowset.c\<close>, \<open>OP_RowSetTest\<close>): insertion, the bucket merge sort, the forest of trees.
    \<open>Bitvec\<close> (\<open>bitvec.c\<close>): the three representations of a set of page numbers.
    \<open>PagerSavepoint\<close> (\<open>pager.c\<close>): \<open>subjRequiresPage\<close>, \<open>subjournalPage\<close>, \<open>addToSavepointBitvecs\<close>,
    \<open>pagerOpenSavepoint\<close>, on top of \<open>Bitvec\<close>.

  \<^item> \<open>WalIndex\<close> (\<open>wal.c\<close>): pages of shared memory, hash tables, \<open>walIndexAppend\<close>,
    \<open>sqlite3WalFindFrame\<close>, \<open>walCleanupHash\<close>, undo and savepoints.  Refines a list of page numbers.
    \<open>WalFrame\<close>: checksums, \<open>walEncodeFrame\<close>, \<open>walDecodeFrame\<close>, \<open>walIndexWriteHdr\<close>.
    \<open>WalRecover\<close>: \<open>walIndexRecover\<close>, and what a log is as a list of frames.
    \<open>WalUnreliable\<close>: \<open>walBeginShmUnreliable\<close>, reading without write access to shared memory.
    \<open>WalRead\<close>: \<open>walIndexReadHdr\<close>, \<open>walTryBeginRead\<close>, beginning read and write transactions.
    \<open>WalSort\<close>, \<open>WalIterator\<close>: the merge sort of a hash table (\<open>walMergesort\<close>) and the iterator over
    the pages of a log.  \<open>FileBytes\<close>: files as lists of bytes.  \<open>WalCheckpoint\<close>: \<open>walCheckpoint\<close> in
    its four modes, \<open>sqlite3WalCheckpoint\<close>, \<open>walRestartLog\<close>, \<open>walLimitSize\<close>.  \<open>WalSnapshot\<close>:
    \<open>readDbPage\<close> of \<open>pager.c\<close>, what checkpoints do to readers and to the database, that they end; and
    a defect: a checkpoint that another connection overtakes with a restart of the log records
    frames as copied that are not yet written (\<open>checkpoint_after_restart\<close>).

  \<^item> \<open>WalWrite\<close> (\<open>wal.c\<close>): \<open>sqlite3WalFrames\<close> with everything it calls: the header of a new log,
    frames that are appended or overwritten in place, \<open>walRewriteChecksums\<close>, padding to sectors, syncs,
    and the entries of the index; undo and savepoints with the header.  \<open>WalCommit\<close>: a transaction
    written by one call is atomic under failing writes and crashes, and durable once it is reported.
    \<open>WalRewrite\<close>: frames whose checksums are wrong for a time, and that computing them again makes the
    chain complete.  \<open>WalSpill\<close>: transactions of any number of calls; what a crash between them
    leaves, and that the commit stores the content written last of every page.  \<open>WalLost\<close>: a defect of
    \<open>sqlite3WalSavepointUndo\<close>, by which a transaction that is reported as committed is lost.

  \<^item> \<open>SerialType\<close>, \<open>RecordFormat\<close> (\<open>vdbeaux.c\<close>, \<open>vdbemem.c\<close>, \<open>vdbe.c\<close>): serial types, \<open>sqlite3VdbeSerialPut\<close> and
    \<open>sqlite3VdbeSerialGet\<close>, the opcode \<open>OP_MakeRecord\<close> behind the affinities, \<open>sqlite3VdbeRecordUnpack\<close>.  Shown:
    a record is read back as the values it was made of, integers take the shortest width, and a record
    with arbitrary bytes is read within its bounds.

  \<^item> \<open>Utf\<close> (\<open>utf.c\<close>): reading and writing characters in UTF-8 and UTF-16, and \<open>sqlite3VdbeMemTranslate\<close>.
    Shown: what the self test of SQLite asserts, for all code points; a translated string has the same
    characters; the buffers are large enough for any input.

  \<^item> \<open>Glob\<close> (\<open>func.c\<close>): \<open>patternCompare\<close>, \<open>sqlite3_strglob\<close>, \<open>sqlite3_strlike\<close>, \<open>likeFunc\<close>.  Refines the
    matching of a list of tokens with a list of characters.  The excluded patterns are two defects: U+0080
    behind a wildcard of \<open>GLOB\<close>, and a wildcard as the escape character of \<open>LIKE\<close>.

  \<^item> \<open>Jni\<close>: the state of the interface (pending exception, live buffers and references, trace of the
    calls of SQLite) as a state monad.  \<open>NativeFunctions\<close>: user-defined functions and their
    callbacks.  \<open>NativeDB\<close>, \<open>NativeCompound\<close>: one definition per native method.  \<open>NativeCalls\<close>,
    \<open>NativeHeap\<close>, \<open>NativeUse\<close>, \<open>NativeRuns\<close>: guards, buffers and the list of functions in the heap,
    the protocol of aggregates, runs of several calls.  \<open>NativeBackup\<close>: backup and restore.

  \<^bold>\<open>State.\<close>  The records have the fields of the C structures by their names (\<open>unixFile\<close>,
  \<open>unixInodeInfo\<close>, \<open>RowSet\<close>, \<open>Bitvec\<close>, \<open>PagerSavepoint\<close>, \<open>Wal\<close>, \<open>WalIndexHdr\<close>, \<open>WalCkptInfo\<close>,
  \<open>WalIterator\<close>, \<open>UDFData\<close>).  The field \<open>hdr.mxFrame\<close> of \<open>Wal\<close> is \<open>mxFrame\<close> of the record \<open>wal\<close>; the
  shared memory is part of the state of the connection, and what other connections do to it between
  two accesses is a parameter of the definitions that care (\<open>others\<close>).  The theorems on checkpoints
  assume of it that other connections leave \<open>nBackfill\<close> and the frames of the log alone as long as
  frames are still to be copied or a writer or a reader of the log is there; otherwise a writer may
  start the log again (\<open>walRestartHdr\<close>), and the theorems that need it exclude that by a hypothesis
  (\<open>no_restart\<close>).  Results of system calls,
  allocations, the virtual machine of Java and SQLite below the JNI layer are parameters as well.
  \<open>None\<close> stands for what C leaves undefined (a NULL dereference, a read outside a buffer, a signed
  overflow), for a failed assertion of \<open>NativeDB.c\<close>, and for a loop out of fuel.  The assertions of
  \<open>sqlite3.c\<close> expand to nothing in this build (NDEBUG).

  \<^bold>\<open>Bounds and fuel.\<close>  The recursion of \<open>Bitvec\<close> has 9 levels, enough for every size of 32 bits; a
  row set has 40 buckets, enough for fewer than \<open>2\<^sup>4\<^sup>0\<close> entries; \<open>walMergesort\<close> has 13 sublists, enough
  for 4096 entries.  A read transaction makes 101 attempts at most (\<open>begin_read_loop\<close>,
  \<open>restart_loop\<close>): the code gives up after 100, shown by \<open>begin_read_terminates\<close>.  The loop over the
  frames in recovery is measured by the rest of the file, the iterator by \<open>2\<^sup>3\<^sup>2\<close> less the page
  visited last.  \<open>free_functions\<close> has as fuel the number of entries of the list; for restore all
  fuels from some number on give the result when \<open>sqlite3_backup_step\<close> makes progress.  \<open>walBusyLock\<close> may run forever with a busy handler that
  never gives up: it is a partial function, and \<open>checkpoint_ends\<close> has the condition.

  \<^bold>\<open>Not modelled.\<close>  The SQL front end and the virtual machine, except row sets and records: the
  parser is generated, the code generator works on large shared structures.  The B-tree, the page
  cache, the rollback journal and the state machine of the pager.  Mutexes, as each operation is
  taken to run without interruption where the code holds one.  The extensions (FTS, R-tree, JSON),
  floating point and dates.  The files \<open>sqlite3.h\<close> and \<open>NativeDB.h\<close> hold declarations only.
  Code compiled under \<open>SQLITE_ENABLE_SNAPSHOT\<close>, \<open>SQLITE_DEBUG\<close>, \<open>SQLITE_HAS_CODEC\<close> and for other
  platforms is not built by the application and is left out.

  \<^bold>\<open>Plan.\<close>  The rollback of a savepoint, the states of the pager, pages of the B-tree, comparison of records.
\<close>

end
